(* ===== verification/Prelude.thy ===== *)
theory Prelude
  imports Main "HOL-Library.Word" "HOL-Library.AList"
begin

text \<open>
  Shared vocabulary of the development: the types the Rust sources use (bytes, strings,
  \<open>usize\<close> and \<open>u64\<close> values), saturating and checked arithmetic, slices, growable vectors
  with an explicit capacity, hash maps as association lists, and the oldest-first eviction
  loop that several stores of the capture agent share.

  \<^item> A Rust \<open>u64\<close> or \<open>usize\<close> is a \<^typ>\<open>nat\<close>; \<open>saturating_sub\<close> is then exactly
    subtraction on \<^typ>\<open>nat\<close>, and \<open>saturating_add\<close> is \<open>sat_add\<close> below. TCP sequence
    numbers, which wrap, are \<^typ>\<open>32 word\<close>.
  \<^item> A Rust \<open>String\<close> is its UTF-8 byte sequence.
  \<^item> A \<open>HashMap\<close> is an association list with distinct keys. Its iteration order is the
    order of the list; the theorems quantify over every list, hence over every order a
    hash table may iterate in.
\<close>

unbundle bit_operations_syntax

named_theorems sat_simps \<open>unfolding rules of the saturating and checked arithmetic\<close>
named_theorems vec_simps \<open>simplification rules of growable vectors\<close>
named_theorems alist_simps \<open>simplification rules of association lists read as hash maps\<close>

type_synonym byte = "8 word"
type_synonym rstring = "8 word list"
type_synonym u16 = "16 word"
type_synonym u32 = "32 word"

definition lit :: "string \<Rightarrow> rstring" where
  "lit s = map of_char s"

section \<open>Arithmetic of usize and u64\<close>

definition usize_max :: nat where
  "usize_max = 2 ^ 64 - 1"

definition u64_max :: nat where
  "u64_max = 2 ^ 64 - 1"

definition sat_add :: "nat \<Rightarrow> nat \<Rightarrow> nat" where
  "sat_add a b = min (a + b) usize_max"

definition checked_add :: "nat \<Rightarrow> nat \<Rightarrow> nat option" where
  "checked_add a b = (if a + b \<le> usize_max then Some (a + b) else None)"

definition checked_sub :: "nat \<Rightarrow> nat \<Rightarrow> nat option" where
  "checked_sub a b = (if b \<le> a then Some (a - b) else None)"

lemma sat_add_exact [sat_simps]: "a + b \<le> usize_max \<Longrightarrow> sat_add a b = a + b"
  by (simp add: sat_add_def)

lemma sat_add_le: "sat_add a b \<le> a + b"
  by (simp add: sat_add_def)

lemma sat_add_ge_left: "a \<le> usize_max \<Longrightarrow> a \<le> sat_add a b"
  by (simp add: sat_add_def)

lemma checked_add_Some [sat_simps]: "a + b \<le> usize_max \<Longrightarrow> checked_add a b = Some (a + b)"
  by (simp add: checked_add_def)

lemma usize_max_ge: "n \<le> 2 ^ 40 \<Longrightarrow> n \<le> usize_max"
  by (simp add: usize_max_def)

section \<open>Slices\<close>

text \<open>
  \<open>slice_get xs a b\<close> is \<open>xs.get(a..b)\<close>: \<^const>\<open>None\<close> unless \<open>a \<le> b \<le> length xs\<close>.
  \<open>byte_at\<close> is \<open>xs.get(i).copied()\<close>.
\<close>

definition slice_get :: "'a list \<Rightarrow> nat \<Rightarrow> nat \<Rightarrow> 'a list option" where
  "slice_get xs a b = (if a \<le> b \<and> b \<le> length xs then Some (take (b - a) (drop a xs)) else None)"

definition byte_at :: "'a list \<Rightarrow> nat \<Rightarrow> 'a option" where
  "byte_at xs i = (if i < length xs then Some (xs ! i) else None)"

definition starts_with :: "'a list \<Rightarrow> 'a list \<Rightarrow> bool" where
  "starts_with xs p \<longleftrightarrow> take (length p) xs = p"

definition u16_be :: "byte \<Rightarrow> byte \<Rightarrow> nat" where
  "u16_be hi lo = unat hi * 256 + unat lo"

lemma slice_get_Some_iff:
  "slice_get xs a b = Some ys \<longleftrightarrow> a \<le> b \<and> b \<le> length xs \<and> ys = take (b - a) (drop a xs)"
  by (auto simp: slice_get_def)

lemma length_slice_get: "slice_get xs a b = Some ys \<Longrightarrow> length ys = b - a"
  by (auto simp: slice_get_Some_iff)

lemma byte_at_Some_iff: "byte_at xs i = Some b \<longleftrightarrow> i < length xs \<and> xs ! i = b"
  by (auto simp: byte_at_def)

lemma byte_at_None_iff: "byte_at xs i = None \<longleftrightarrow> length xs \<le> i"
  by (auto simp: byte_at_def)

lemma u16_be_bound: "u16_be hi lo < 65536"
proof -
  have "unat hi < 256" "unat lo < 256"
    using unsigned_less [of hi] unsigned_less [of lo] by simp_all
  then show ?thesis by (simp add: u16_be_def)
qed

definition u16_bytes :: "nat \<Rightarrow> byte list" where
  "u16_bytes n = [of_nat (n div 256), of_nat n]"

lemma u16_be_bytes: "n < 65536 \<Longrightarrow> u16_be (of_nat (n div 256)) (of_nat n) = n"
  by (simp add: u16_be_def unat_of_nat)

section \<open>Growable vectors\<close>

text \<open>
  A \<open>Vec\<close> whose retained capacity the code accounts for. Growth follows the standard
  library's amortised policy for one-byte elements (\<open>RawVec::grow_amortized\<close>): double, at
  least what is required, at least 8.
\<close>

record 'a rvec =
  elems :: "'a list"
  capacity :: nat

definition vec_new :: "'a rvec" where
  "vec_new = \<lparr>elems = [], capacity = 0\<rparr>"

definition grow_amortized :: "nat \<Rightarrow> nat \<Rightarrow> nat" where
  "grow_amortized c required = max 8 (max (2 * c) required)"

definition vec_reserve :: "nat \<Rightarrow> 'a rvec \<Rightarrow> 'a rvec" where
  "vec_reserve additional v =
     (if capacity v - length (elems v) < additional
      then v\<lparr>capacity := grow_amortized (capacity v) (length (elems v) + additional)\<rparr>
      else v)"

text \<open>\<open>resize(n, x)\<close> for a longer \<open>n\<close> (the only use in the sources).\<close>

definition vec_grow_to :: "nat \<Rightarrow> 'a \<Rightarrow> 'a rvec \<Rightarrow> 'a rvec" where
  "vec_grow_to n x v =
     (let v' = vec_reserve (n - length (elems v)) v
      in v'\<lparr>elems := elems v @ replicate (n - length (elems v)) x\<rparr>)"

definition vec_filled :: "nat \<Rightarrow> 'a \<Rightarrow> 'a rvec" where
  "vec_filled n x = \<lparr>elems = replicate n x, capacity = n\<rparr>"

definition vec_extend :: "'a list \<Rightarrow> 'a rvec \<Rightarrow> 'a rvec" where
  "vec_extend ys v = (vec_reserve (length ys) v)\<lparr>elems := elems v @ ys\<rparr>"

definition vec_truncate :: "nat \<Rightarrow> 'a rvec \<Rightarrow> 'a rvec" where
  "vec_truncate n v = v\<lparr>elems := take n (elems v)\<rparr>"

lemma elems_vec_ops [vec_simps]:
  "elems vec_new = []"
  "elems (vec_reserve n v) = elems v"
  "elems (vec_grow_to m x v) = elems v @ replicate (m - length (elems v)) x"
  "elems (vec_filled m x) = replicate m x"
  "elems (vec_extend ys v) = elems v @ ys"
  "elems (vec_truncate m v) = take m (elems v)"
  by (simp_all add: vec_new_def vec_reserve_def vec_grow_to_def vec_filled_def vec_extend_def
      vec_truncate_def Let_def)

lemma capacity_vec_ops [vec_simps]:
  "capacity (vec_new :: 'a rvec) = 0"
  "capacity (vec_filled m x) = m"
  "capacity (vec_truncate m v) = capacity v"
  "capacity (v\<lparr>elems := xs\<rparr>) = capacity v"
  by (simp_all add: vec_new_def vec_filled_def vec_truncate_def)

text \<open>
  Capacity never exceeds twice the largest length the vector was grown to, plus the
  minimum allocation: the bound the memory ceilings rest on.
\<close>

definition vec_ok :: "nat \<Rightarrow> 'a rvec \<Rightarrow> bool" where
  "vec_ok m v \<longleftrightarrow> length (elems v) \<le> capacity v \<and> length (elems v) \<le> m \<and> capacity v \<le> 2 * m + 8"

lemma vec_ok_new [simp]: "vec_ok m vec_new"
  by (simp add: vec_ok_def vec_simps)

lemma capacity_reserve_bounds:
  assumes "vec_ok m v" and "length (elems v) + n \<le> m"
  shows "length (elems v) + n \<le> capacity (vec_reserve n v) \<and> capacity (vec_reserve n v) \<le> 2 * m + 8"
  using assms by (auto simp: vec_ok_def vec_reserve_def grow_amortized_def)

lemma vec_ok_grow_to:
  assumes "vec_ok m v" and "n \<le> m"
  shows "vec_ok m (vec_grow_to n x v)"
proof -
  let ?d = "n - length (elems v)"
  have "length (elems v) + ?d \<le> m"
    using assms by (auto simp: vec_ok_def)
  from capacity_reserve_bounds [OF assms(1) this] this show ?thesis
    by (simp add: vec_ok_def vec_grow_to_def Let_def)
qed

lemma vec_ok_filled_extend:
  assumes "n + length ys \<le> m"
  shows "vec_ok m (vec_truncate m (vec_extend ys (vec_filled n x)))"
  using assms
  by (auto simp: vec_ok_def vec_extend_def vec_reserve_def vec_filled_def vec_truncate_def
      grow_amortized_def)

section \<open>Hash maps as association lists\<close>

lemma map_of_delete_same [alist_simps, simp]: "map_of (AList.delete k xs) k = None"
  by (simp add: delete_conv')

lemma map_of_delete_other [alist_simps, simp]:
  "k \<noteq> k' \<Longrightarrow> map_of (AList.delete k xs) k' = map_of xs k'"
  by (simp add: delete_conv')

lemma distinct_keys_delete [intro, simp]:
  "distinct (map fst xs) \<Longrightarrow> distinct (map fst (AList.delete k xs))"
  by (rule distinct_delete)

lemma distinct_keys_update [intro, simp]:
  "distinct (map fst xs) \<Longrightarrow> distinct (map fst (AList.update k v xs))"
  by (rule distinct_update)

lemma delete_absent [alist_simps, simp]: "map_of xs k = None \<Longrightarrow> AList.delete k xs = xs"
  by (simp add: map_of_eq_None_iff)

lemma delete_after_update [alist_simps, simp]:
  "AList.delete k (AList.update k v xs) = AList.delete k xs"
  by (induction xs) auto

lemma length_delete_le: "length (AList.delete k xs) \<le> length xs"
  by (simp add: AList.delete_eq)

lemma length_delete_member:
  "distinct (map fst xs) \<Longrightarrow> map_of xs k = Some e \<Longrightarrow> Suc (length (AList.delete k xs)) = length xs"
proof (induction xs)
  case Nil
  then show ?case by simp
next
  case (Cons a xs)
  show ?case
  proof (cases "fst a = k")
    case True
    with Cons.prems(1) have "k \<notin> fst ` set xs" by auto
    with True show ?thesis by (cases a) (simp add: delete_id)
  next
    case False
    with Cons.prems have "map_of xs k = Some e" by (cases a) (auto split: if_splits)
    with Cons False show ?thesis by (cases a) auto
  qed
qed

lemma length_update:
  "length (AList.update k v xs) = (if k \<in> fst ` set xs then length xs else Suc (length xs))"
  by (induction xs) auto

lemma set_update_values:
  "(k', e) \<in> set (AList.update k v xs) \<Longrightarrow> (k' = k \<and> e = v) \<or> (k', e) \<in> set xs"
  by (induction xs) (auto split: if_splits)

lemma set_delete_subset: "set (AList.delete k xs) \<subseteq> set xs"
  by (auto simp: AList.delete_eq)

lemma map_of_filter_distinct:
  "distinct (map fst xs) \<Longrightarrow>
   map_of (filter P xs) k = (case map_of xs k of Some v \<Rightarrow> if P (k, v) then Some v else None | None \<Rightarrow> None)"
  by (induction xs) (auto simp: map_of_eq_None_iff split: option.split)

lemma map_of_in_set: "map_of xs k = Some v \<Longrightarrow> (k, v) \<in> set xs"
  by (rule map_of_SomeD)

section \<open>Weighted association lists\<close>

text \<open>\<open>weigh w xs\<close> sums the weight of every entry: what a byte counter should hold.\<close>

definition weigh :: "('e \<Rightarrow> nat) \<Rightarrow> ('k \<times> 'e) list \<Rightarrow> nat" where
  "weigh w xs = sum_list (map (w \<circ> snd) xs)"

lemma weigh_Nil [simp]: "weigh w [] = 0"
  by (simp add: weigh_def)

lemma weigh_zero [simp]: "weigh (\<lambda>_. 0) xs = 0"
  by (induction xs) (simp_all add: weigh_def)

lemma weigh_Cons [simp]: "weigh w (x # xs) = w (snd x) + weigh w xs"
  by (simp add: weigh_def)

lemma weigh_delete:
  "distinct (map fst xs) \<Longrightarrow>
   weigh w (AList.delete k xs) + (case map_of xs k of None \<Rightarrow> 0 | Some e \<Rightarrow> w e) = weigh w xs"
proof (induction xs)
  case Nil
  then show ?case by simp
next
  case (Cons a xs)
  show ?case
  proof (cases "fst a = k")
    case True
    with Cons.prems have "k \<notin> fst ` set xs" by auto
    with True show ?thesis by (cases a) (simp add: delete_id)
  next
    case False
    with Cons show ?thesis by (cases a) auto
  qed
qed

lemma weigh_update:
  "distinct (map fst xs) \<Longrightarrow>
   weigh w (AList.update k v xs) + (case map_of xs k of None \<Rightarrow> 0 | Some e \<Rightarrow> w e)
     = weigh w xs + w v"
  by (induction xs) (auto split: option.splits)

lemma weigh_member_le: "map_of xs k = Some e \<Longrightarrow> w e \<le> weigh w xs"
  by (induction xs) (auto split: if_splits)

section \<open>Smallest element\<close>

text \<open>\<open>iter().min_by_key(f)\<close>: the first of the smallest elements.\<close>

fun min_by_key :: "('a \<Rightarrow> nat) \<Rightarrow> 'a list \<Rightarrow> 'a option" where
  "min_by_key f [] = None"
| "min_by_key f (x # xs) =
     (case min_by_key f xs of None \<Rightarrow> Some x | Some y \<Rightarrow> if f x \<le> f y then Some x else Some y)"

lemma min_by_key_None [simp]: "min_by_key f xs = None \<longleftrightarrow> xs = []"
  by (cases xs) (auto split: option.splits)

lemma min_by_key_Some:
  assumes "min_by_key f xs = Some y"
  shows "y \<in> set xs" and "x \<in> set xs \<Longrightarrow> f y \<le> f x"
proof -
  have "y \<in> set xs \<and> (\<forall>x\<in>set xs. f y \<le> f x)"
    using assms
  proof (induction xs arbitrary: y)
    case (Cons x xs)
    then show ?case by (cases "min_by_key f xs") (fastforce split: if_splits)+
  qed simp
  then show "y \<in> set xs" and "x \<in> set xs \<Longrightarrow> f y \<le> f x" by blast+
qed

section \<open>Sequence numbers\<close>

text \<open>The signed difference of two 32-bit sequence numbers less than half the space apart.\<close>

lemma sint_small_diff:
  assumes "a < 2 ^ 31" and "b < 2 ^ 31"
  shows "sint (of_nat a - of_nat b :: u32) = int a - int b"
proof -
  have "(of_nat a - of_nat b :: u32) = word_of_int (int a - int b)" by simp
  then have "sint (of_nat a - of_nat b :: u32) = signed_take_bit 31 (int a - int b)"
    by (simp only: sint_sbintrunc') simp
  also have "\<dots> = int a - int b"
    using assms by (intro signed_take_bit_int_eq_self) simp_all
  finally show ?thesis .
qed

end
