(* ===== verification/Eviction.thy ===== *)
theory Eviction
  imports Prelude "HOL-Library.Multiset"
begin

text \<open>
  Oldest-first eviction. The fragment reassembler, the TCP reassembler and the flow table
  end the same way: sort the keys by age, then remove entries until the store is back under
  its ceilings. The loop is defined once, over the store's own removal step; the locale
  \<open>capacity_store\<close> states what such a store promises about removal and proves once what the
  loop gives back: the ceilings hold, the byte counter still equals the bytes held, and no
  entry is evicted before an older one.
\<close>

fun evict_loop :: "('s \<Rightarrow> bool) \<Rightarrow> ('k \<Rightarrow> 's \<Rightarrow> 's) \<Rightarrow> 'k list \<Rightarrow> 's \<Rightarrow> 's" where
  "evict_loop within remove [] s = s"
| "evict_loop within remove (k # ks) s =
     (if within s then s else evict_loop within remove ks (remove k s))"

definition keys_by_age :: "('e \<Rightarrow> nat) \<Rightarrow> ('k \<times> 'e) list \<Rightarrow> 'k list" where
  "keys_by_age stamp xs = map fst (sort_key snd (map (\<lambda>(k, e). (k, stamp e)) xs))"

lemma set_keys_by_age [simp]: "set (keys_by_age stamp xs) = fst ` set xs"
  by (force simp: keys_by_age_def)

lemma distinct_keys_by_age:
  assumes "distinct (map fst xs)"
  shows "distinct (keys_by_age stamp xs)"
proof -
  have "mset (keys_by_age stamp xs) = mset (map fst xs)"
    by (simp add: keys_by_age_def case_prod_unfold multiset.map_comp comp_def)
  then show ?thesis
    using assms by (metis mset_eq_imp_distinct_iff)
qed

lemma keys_by_age_sorted:
  assumes "distinct (map fst xs)"
  shows "sorted (map (\<lambda>k. stamp (the (map_of xs k))) (keys_by_age stamp xs))"
proof -
  let ?ps = "sort_key snd (map (\<lambda>(k, e). (k, stamp e)) xs)"
  have "map (\<lambda>k. stamp (the (map_of xs k))) (map fst ?ps) = map snd ?ps"
    unfolding map_map
  proof (rule map_cong [OF refl])
    fix p
    assume "p \<in> set ?ps"
    then obtain k e where "(k, e) \<in> set xs" and "p = (k, stamp e)"
      by auto
    with assms show "((\<lambda>k. stamp (the (map_of xs k))) \<circ> fst) p = snd p"
      by simp
  qed
  moreover have "sorted (map snd ?ps)"
    by (rule sorted_sort_key)
  ultimately show ?thesis
    unfolding keys_by_age_def by metis
qed

locale capacity_store =
  fixes ents :: "'s \<Rightarrow> ('k \<times> 'e) list"
    and held :: "'s \<Rightarrow> nat"
    and weight :: "'e \<Rightarrow> nat"
    and remove :: "'k \<Rightarrow> 's \<Rightarrow> 's"
  assumes ents_remove: "ents (remove k s) = AList.delete k (ents s)"
    and held_remove: "held (remove k s)
      = held s - (case map_of (ents s) k of None \<Rightarrow> 0 | Some e \<Rightarrow> weight e)"
begin

definition balanced :: "'s \<Rightarrow> bool" where
  "balanced s \<longleftrightarrow> distinct (map fst (ents s)) \<and> held s = weigh weight (ents s)"

definition within :: "nat \<Rightarrow> nat \<Rightarrow> 's \<Rightarrow> bool" where
  "within max_entries max_bytes s \<longleftrightarrow> length (ents s) \<le> max_entries \<and> held s \<le> max_bytes"

lemma balanced_remove: "balanced s \<Longrightarrow> balanced (remove k s)"
  using weigh_delete [of "ents s" weight k]
  by (auto simp: balanced_def ents_remove held_remove)

lemma held_remove_le: "held (remove k s) \<le> held s"
  by (simp add: held_remove)

lemma balanced_evict_loop: "balanced s \<Longrightarrow> balanced (evict_loop w remove ks s)"
  by (induction ks arbitrary: s) (simp_all add: balanced_remove)

lemma evict_loop_ents_subset: "set (ents (evict_loop w remove ks s)) \<subseteq> set (ents s)"
proof (induction ks arbitrary: s)
  case (Cons k ks)
  have "set (ents (evict_loop w remove ks (remove k s))) \<subseteq> set (ents (remove k s))"
    by (rule Cons.IH)
  also have "\<dots> \<subseteq> set (ents s)"
    by (simp add: ents_remove set_delete_subset)
  finally show ?case by simp
qed simp

lemma evict_loop_length: "length (ents (evict_loop w remove ks s)) \<le> length (ents s)"
proof (induction ks arbitrary: s)
  case (Cons k ks)
  have "length (ents (evict_loop w remove ks (remove k s))) \<le> length (ents (remove k s))"
    by (rule Cons.IH)
  also have "\<dots> \<le> length (ents s)"
    by (simp add: ents_remove length_delete_le)
  finally show ?case by simp
qed simp

lemma evict_loop_within:
  assumes "balanced s" and "fst ` set (ents s) \<subseteq> set ks"
  shows "within n b (evict_loop (within n b) remove ks s)"
  using assms
proof (induction ks arbitrary: s)
  case Nil
  then have "ents s = []" by simp
  with Nil show ?case by (simp add: within_def balanced_def)
next
  case (Cons k ks)
  have "fst ` set (ents (remove k s)) \<subseteq> set ks"
    using Cons.prems by (auto simp: ents_remove AList.delete_eq)
  with Cons show ?case
    by (simp add: balanced_remove)
qed

text \<open>What the loop removes is a prefix of the age order.\<close>

lemma evict_loop_prefix:
  "\<exists>n. ents (evict_loop w remove ks s) = filter (\<lambda>(k, e). k \<notin> set (take n ks)) (ents s)"
proof (induction ks arbitrary: s)
  case Nil
  show ?case by simp
next
  case (Cons k ks)
  show ?case
  proof (cases "w s")
    case True
    then show ?thesis by (intro exI [of _ 0]) simp
  next
    case False
    obtain n where n: "ents (evict_loop w remove ks (remove k s))
        = filter (\<lambda>(k, e). k \<notin> set (take n ks)) (ents (remove k s))"
      using Cons.IH by blast
    have "ents (evict_loop w remove (k # ks) s)
        = filter (\<lambda>(k', e). k' \<notin> set (take (Suc n) (k # ks))) (ents s)"
      using False by (auto simp: n ents_remove AList.delete_eq case_prod_unfold intro: filter_cong)
    then show ?thesis by blast
  qed
qed

lemma sorted_prefix_le:
  assumes "sorted (map f ks)" and "x \<in> set (take n ks)" and "y \<in> set (drop n ks)"
  shows "f x \<le> f y"
proof -
  have "sorted (map f (take n ks) @ map f (drop n ks))"
    using assms(1) by (simp flip: map_append)
  with assms(2,3) show ?thesis
    by (auto simp: sorted_append)
qed

lemma evict_oldest_first:
  assumes "distinct (map fst (ents s))"
    and "map_of (ents s) k = Some e" and "map_of (ents s) k' = Some e'"
    and "map_of (ents (evict_loop w remove (keys_by_age stamp (ents s)) s)) k = Some e"
    and "map_of (ents (evict_loop w remove (keys_by_age stamp (ents s)) s)) k' = None"
  shows "stamp e' \<le> stamp e"
proof -
  let ?ks = "keys_by_age stamp (ents s)" and ?f = "\<lambda>k. stamp (the (map_of (ents s) k))"
  obtain n where n: "ents (evict_loop w remove ?ks s)
      = filter (\<lambda>(k, e). k \<notin> set (take n ?ks)) (ents s)"
    using evict_loop_prefix by blast
  have in_ks: "k \<in> set ?ks" "k' \<in> set ?ks"
    using assms(2,3) by (force dest: map_of_SomeD)+
  have "k \<notin> set (take n ?ks)"
    using map_of_SomeD [OF assms(4)] unfolding n by auto
  then have "k \<in> set (drop n ?ks)"
    using in_ks(1) by (metis Un_iff append_take_drop_id set_append)
  moreover have "k' \<in> set (take n ?ks)"
    using assms(3,5) unfolding n
    by (auto simp: map_of_eq_None_iff image_iff dest!: map_of_SomeD)
  ultimately have "?f k' \<le> ?f k"
    by (intro sorted_prefix_le [OF keys_by_age_sorted [OF assms(1), of stamp]])
  with assms(2,3) show ?thesis by simp
qed

end

end
