(* ===== verification/Coverage.thy ===== *)
theory Coverage
  imports Prelude
begin

text \<open>
  The coverage buffers of \<open>reassembly.rs\<close>: a data vector, a parallel vector of "held"
  markers, and the first-seen-wins write that both reassemblers use. A buffer is read as a
  partial map from offsets to bytes; writing refines adding the new piece underneath what is
  already there.
\<close>

section \<open>Status and counters\<close>

datatype reassembly_status =
  Reassembled | IncompleteTruncatedAtCapture | IncompleteMissingFrames

fun is_complete :: "reassembly_status \<Rightarrow> bool" where
  "is_complete Reassembled = True"
| "is_complete _ = False"

record reassembly_counters =
  completed :: nat
  incomplete_truncated_at_capture :: nat
  incomplete_missing_frames :: nat
  abandoned_without_completing :: nat
  evicted_idle :: nat
  evicted_capacity :: nat
  conflicting_overlap_bytes :: nat
  conflicting_terminal_fragments :: nat

definition counters_zero :: reassembly_counters where
  "counters_zero = \<lparr>completed = 0, incomplete_truncated_at_capture = 0,
     incomplete_missing_frames = 0, abandoned_without_completing = 0, evicted_idle = 0,
     evicted_capacity = 0, conflicting_overlap_bytes = 0, conflicting_terminal_fragments = 0\<rparr>"

text \<open>The three-way count that \<open>take_group\<close> and \<open>finish\<close> share.\<close>

fun count_status :: "reassembly_status \<Rightarrow> reassembly_counters \<Rightarrow> reassembly_counters" where
  "count_status Reassembled c = c\<lparr>completed := completed c + 1\<rparr>"
| "count_status IncompleteTruncatedAtCapture c =
     c\<lparr>incomplete_truncated_at_capture := incomplete_truncated_at_capture c + 1\<rparr>"
| "count_status IncompleteMissingFrames c =
     c\<lparr>incomplete_missing_frames := incomplete_missing_frames c + 1\<rparr>"

section \<open>First-seen-wins writes\<close>

record write_outcome =
  newly_written :: nat
  conflicting :: nat
  hit_cap :: bool

definition write_outcome_default :: write_outcome where
  "write_outcome_default = \<lparr>newly_written = 0, conflicting = 0, hit_cap = False\<rparr>"

fun write_bytes ::
  "nat \<Rightarrow> byte list \<Rightarrow> byte list \<Rightarrow> bool list \<Rightarrow> write_outcome \<Rightarrow> byte list \<times> bool list \<times> write_outcome"
where
  "write_bytes idx [] data filled out = (data, filled, out)"
| "write_bytes idx (b # bs) data filled out =
     (if filled ! idx
      then (if data ! idx \<noteq> b
            then write_bytes (Suc idx) bs data filled (out\<lparr>conflicting := conflicting out + 1\<rparr>)
            else write_bytes (Suc idx) bs data filled out)
      else write_bytes (Suc idx) bs (data[idx := b]) (filled[idx := True])
             (out\<lparr>newly_written := newly_written out + 1\<rparr>))"

definition write_first_seen_wins ::
  "byte rvec \<Rightarrow> bool rvec \<Rightarrow> nat \<Rightarrow> byte list \<Rightarrow> nat \<Rightarrow> byte rvec \<times> bool rvec \<times> write_outcome"
where
  "write_first_seen_wins data filled offset bytes cap =
     (case checked_add offset (length bytes) of
        None \<Rightarrow> (data, filled, write_outcome_default\<lparr>hit_cap := True\<rparr>)
      | Some end_at \<Rightarrow>
          let out = write_outcome_default\<lparr>hit_cap := end_at > cap\<rparr>;
              usable_end = min end_at cap
          in if offset \<ge> usable_end then (data, filled, out)
             else let (data', filled') =
                    (if length (elems data) < usable_end
                     then (vec_grow_to usable_end 0 data, vec_grow_to usable_end False filled)
                     else (data, filled));
                    (d, f, out') = write_bytes offset (take (usable_end - offset) bytes)
                                     (elems data') (elems filled') out
                  in (data'\<lparr>elems := d\<rparr>, filled'\<lparr>elems := f\<rparr>, out'))"

function contiguous_scan :: "bool list \<Rightarrow> nat \<Rightarrow> nat" where
  "contiguous_scan filled n =
     (if byte_at filled n = Some True then contiguous_scan filled (Suc n) else n)"
  by pat_completeness auto
termination
  by (relation "measure (\<lambda>(filled, n). length filled - n)") (auto simp: byte_at_Some_iff)

declare contiguous_scan.simps [simp del]

definition contiguous_len_from :: "bool list \<Rightarrow> nat \<Rightarrow> nat" where
  "contiguous_len_from filled known = contiguous_scan filled (min known (length filled))"

section \<open>The buffer as a partial map\<close>

text \<open>\<open>covered d f\<close> is the abstraction: which offsets hold which byte.\<close>

definition covered :: "byte list \<Rightarrow> bool list \<Rightarrow> nat \<Rightarrow> byte option" where
  "covered d f i = (if i < length f \<and> f ! i then Some (d ! i) else None)"

definition piece_map :: "nat \<Rightarrow> byte list \<Rightarrow> nat \<Rightarrow> byte option" where
  "piece_map offset bs i =
     (if offset \<le> i \<and> i < offset + length bs then Some (bs ! (i - offset)) else None)"

lemma covered_Some_iff: "covered d f i = Some b \<longleftrightarrow> i < length f \<and> f ! i \<and> d ! i = b"
  by (auto simp: covered_def)

lemma piece_map_Nil [simp]: "piece_map offset [] = Map.empty"
  by (simp add: piece_map_def fun_eq_iff)

lemma piece_map_Cons:
  "piece_map offset (b # bs) = (piece_map (Suc offset) bs)(offset \<mapsto> b)"
proof
  fix i
  show "piece_map offset (b # bs) i = ((piece_map (Suc offset) bs)(offset \<mapsto> b)) i"
  proof (cases "offset < i")
    case True
    then have "i - offset = Suc (i - Suc offset)" by simp
    with True show ?thesis by (simp add: piece_map_def)
  next
    case False
    then show ?thesis by (auto simp: piece_map_def)
  qed
qed

lemma dom_piece_map: "dom (piece_map offset bs) = {offset..<offset + length bs}"
  by (auto simp: piece_map_def dom_def)

lemma covered_grow:
  "length d = length f \<Longrightarrow>
   covered (d @ replicate n 0) (f @ replicate n False) = covered d f"
  by (auto simp: covered_def nth_append fun_eq_iff)

lemma covered_update:
  "length d = length f \<Longrightarrow> i < length f \<Longrightarrow>
   covered (d[i := b]) (f[i := True]) = (covered d f)(i \<mapsto> b)"
  by (auto simp: covered_def fun_eq_iff nth_list_update)

lemma write_bytes_lengths:
  "write_bytes idx bs d f out = (d', f', out') \<Longrightarrow> length d' = length d \<and> length f' = length f"
  by (induction idx bs d f out rule: write_bytes.induct) (auto split: if_splits)

lemma write_bytes_hit_cap:
  "write_bytes idx bs d f out = (d', f', out') \<Longrightarrow> hit_cap out' = hit_cap out"
  by (induction idx bs d f out rule: write_bytes.induct) (auto split: if_splits)

text \<open>The loop merges the piece beneath what is held.\<close>

lemma write_bytes_covered:
  assumes "write_bytes idx bs d f out = (d', f', out')"
    and "length d = length f" and "idx + length bs \<le> length f"
  shows "covered d' f' = piece_map idx bs ++ covered d f"
  using assms
proof (induction idx bs d f out rule: write_bytes.induct)
  case (1 idx data filled out)
  then show ?case by simp
next
  case (2 idx b bs d f out)
  show ?case
  proof (cases "f ! idx")
    case True
    then have "covered d' f' = piece_map (Suc idx) bs ++ covered d f"
      using 2 by (auto split: if_splits)
    moreover have "covered d f idx \<noteq> None"
      using True "2.prems" by (auto simp: covered_def)
    ultimately show ?thesis
      by (auto simp: piece_map_Cons fun_eq_iff map_add_def split: option.splits)
  next
    case False
    then have "covered d' f' = piece_map (Suc idx) bs ++ covered (d[idx := b]) (f[idx := True])"
      using 2 by auto
    moreover have "covered (d[idx := b]) (f[idx := True]) = (covered d f)(idx \<mapsto> b)"
      using 2 by (simp add: covered_update)
    moreover have "covered d f idx = None"
      using False by (simp add: covered_def)
    ultimately show ?thesis
      by (auto simp: piece_map_Cons fun_eq_iff map_add_def split: option.splits)
  qed
qed

text \<open>
  Counting by position: a position counts as new when it was not held, as conflicting when it
  was held with another byte.
\<close>

definition fresh_positions :: "nat \<Rightarrow> byte list \<Rightarrow> byte list \<Rightarrow> bool list \<Rightarrow> nat set" where
  "fresh_positions idx bs d f = {i \<in> {idx..<idx + length bs}. covered d f i = None}"

definition conflict_positions :: "nat \<Rightarrow> byte list \<Rightarrow> byte list \<Rightarrow> bool list \<Rightarrow> nat set" where
  "conflict_positions idx bs d f =
     {i \<in> {idx..<idx + length bs}. \<exists>b. covered d f i = Some b \<and> b \<noteq> bs ! (i - idx)}"

lemma positions_Cons: "{idx..<idx + length (b # bs)} = insert idx {Suc idx..<Suc idx + length bs}"
  by auto

lemma fresh_positions_Cons:
  "fresh_positions idx (b # bs) d f =
     (if covered d f idx = None then {idx} else {}) \<union> fresh_positions (Suc idx) bs d f"
  unfolding fresh_positions_def positions_Cons by auto

lemma conflict_positions_Cons:
  "conflict_positions idx (b # bs) d f =
     (if \<exists>b'. covered d f idx = Some b' \<and> b' \<noteq> b then {idx} else {})
     \<union> conflict_positions (Suc idx) bs d f"
proof -
  have "(b # bs) ! (i - idx) = bs ! (i - Suc idx)" if "i \<in> {Suc idx..<Suc idx + length bs}" for i
  proof -
    from that have "i - idx = Suc (i - Suc idx)" by auto
    then show ?thesis by simp
  qed
  then show ?thesis
    unfolding conflict_positions_def positions_Cons by auto
qed

lemma positions_bounds:
  "fresh_positions idx bs d f \<subseteq> {idx..<idx + length bs}"
  "conflict_positions idx bs d f \<subseteq> {idx..<idx + length bs}"
  by (auto simp: fresh_positions_def conflict_positions_def)

lemma positions_update_below:
  assumes "length d = length f" and "i < idx"
  shows "fresh_positions idx bs (d[i := b]) (f[i := True]) = fresh_positions idx bs d f"
    and "conflict_positions idx bs (d[i := b]) (f[i := True]) = conflict_positions idx bs d f"
  using assms by (auto simp: fresh_positions_def conflict_positions_def covered_def)

lemma finite_positions [simp]:
  "finite (fresh_positions idx bs d f)" "finite (conflict_positions idx bs d f)"
  by (rule finite_subset [OF positions_bounds(1)], simp)
     (rule finite_subset [OF positions_bounds(2)], simp)

lemma not_in_later_positions [simp]:
  "idx \<notin> fresh_positions (Suc idx) bs d f" "idx \<notin> conflict_positions (Suc idx) bs d f"
  by (auto simp: fresh_positions_def conflict_positions_def)

lemma write_bytes_counts:
  assumes "write_bytes idx bs d f out = (d', f', out')"
    and "length d = length f" and "idx + length bs \<le> length f"
  shows "newly_written out' = newly_written out + card (fresh_positions idx bs d f)
       \<and> conflicting out' = conflicting out + card (conflict_positions idx bs d f)"
  using assms
proof (induction idx bs d f out rule: write_bytes.induct)
  case (1 idx data filled out)
  then show ?case by (simp add: fresh_positions_def conflict_positions_def)
next
  case (2 idx b bs d f out)
  show ?case
  proof (cases "f ! idx")
    case True
    then have "covered d f idx = Some (d ! idx)"
      using "2.prems" by (simp add: covered_def)
    with True 2 show ?thesis
      by (auto simp: fresh_positions_Cons conflict_positions_Cons split: if_splits)
  next
    case False
    then have "covered d f idx = None"
      by (simp add: covered_def)
    with False 2 show ?thesis
      by (auto simp: fresh_positions_Cons conflict_positions_Cons positions_update_below)
  qed
qed

section \<open>The invariant of a coverage buffer\<close>

text \<open>
  \<open>buffer_ok cap data filled\<close>: both vectors have the same length, at most \<open>cap\<close>, and bounded
  capacities. \<open>known_prefix filled n\<close>: the first \<open>n\<close> positions are held, which is what
  \<open>contiguous_len_from\<close> relies on to resume its scan.
\<close>

definition buffer_ok :: "nat \<Rightarrow> byte rvec \<Rightarrow> bool rvec \<Rightarrow> bool" where
  "buffer_ok cap data filled \<longleftrightarrow>
     vec_ok cap data \<and> vec_ok cap filled \<and> length (elems data) = length (elems filled)"

definition known_prefix :: "bool list \<Rightarrow> nat \<Rightarrow> bool" where
  "known_prefix filled n \<longleftrightarrow> n \<le> length filled \<and> (\<forall>i<n. filled ! i)"

definition held_prefix_len :: "bool list \<Rightarrow> nat" where
  "held_prefix_len filled = length (takeWhile id filled)"

lemma known_prefix_0 [simp]: "known_prefix filled 0"
  by (simp add: known_prefix_def)

lemma known_prefix_held: "known_prefix filled (held_prefix_len filled)"
proof -
  have "filled ! i" if "i < length (takeWhile id filled)" for i
    using that by (metis id_apply nth_mem set_takeWhileD takeWhile_nth)
  then show ?thesis
    by (simp add: known_prefix_def held_prefix_len_def length_takeWhile_le)
qed

lemma known_prefix_le: "known_prefix filled n \<Longrightarrow> n \<le> held_prefix_len filled"
proof (rule ccontr)
  assume n: "known_prefix filled n" and "\<not> n \<le> held_prefix_len filled"
  then have "held_prefix_len filled < n" by simp
  moreover from this n have "\<not> filled ! held_prefix_len filled"
    unfolding held_prefix_len_def known_prefix_def
    by (metis id_apply nth_length_takeWhile order_less_le_trans)
  ultimately show False
    using n by (auto simp: known_prefix_def)
qed

lemma contiguous_scan_eq:
  "known_prefix filled n \<Longrightarrow> contiguous_scan filled n = held_prefix_len filled"
proof (induction filled n rule: contiguous_scan.induct)
  case (1 filled n)
  show ?case
  proof (cases "byte_at filled n = Some True")
    case True
    with "1.prems" have "known_prefix filled (Suc n)"
      by (auto simp: known_prefix_def byte_at_Some_iff less_Suc_eq)
    with True "1.IH" show ?thesis
      by (simp add: contiguous_scan.simps [of filled n])
  next
    case False
    have "held_prefix_len filled \<le> n"
    proof (rule ccontr)
      assume "\<not> held_prefix_len filled \<le> n"
      with known_prefix_held [of filled] have "filled ! n" and "n < length filled"
        by (auto simp: known_prefix_def)
      with False show False by (simp add: byte_at_def)
    qed
    with known_prefix_le [OF "1.prems"] have "n = held_prefix_len filled"
      by simp
    moreover have "contiguous_scan filled n = n"
      using False by (subst contiguous_scan.simps) simp
    ultimately show ?thesis by simp
  qed
qed

lemma contiguous_len_from_eq:
  assumes "known_prefix filled known"
  shows "contiguous_len_from filled known = held_prefix_len filled"
proof -
  have "min known (length filled) = known"
    using assms by (simp add: known_prefix_def)
  then show ?thesis
    by (simp add: contiguous_len_from_def contiguous_scan_eq assms)
qed

lemma buffer_ok_new [simp]: "buffer_ok cap vec_new vec_new"
  by (simp add: buffer_ok_def vec_simps)

text \<open>
  One case analysis of the write, used by every lemma below: nothing happens, or both vectors
  are long enough and the bytes up to the cap go through the loop.
\<close>

lemma write_first_seen_wins_cases [consumes 3, case_names skipped written]:
  assumes "write_first_seen_wins data filled offset bytes cap = (data', filled', out)"
    and "buffer_ok cap data filled" and "offset + length bytes \<le> usize_max"
  obtains (skipped) "take (cap - offset) bytes = []" "data' = data" "filled' = filled"
      "out = write_outcome_default\<lparr>hit_cap := offset + length bytes > cap\<rparr>"
  | (written) d0 f0 d f where "offset < cap" "bytes \<noteq> []"
      "buffer_ok cap d0 f0"
      "elems d0 = elems data @ replicate (length (elems d0) - length (elems data)) 0"
      "elems f0 = elems filled @ replicate (length (elems d0) - length (elems data)) False"
      "offset + length (take (cap - offset) bytes) \<le> length (elems f0)"
      "write_bytes offset (take (cap - offset) bytes) (elems d0) (elems f0)
         (write_outcome_default\<lparr>hit_cap := offset + length bytes > cap\<rparr>) = (d, f, out)"
      "data' = d0\<lparr>elems := d\<rparr>" "filled' = f0\<lparr>elems := f\<rparr>"
proof -
  let ?stop = "offset + length bytes"
  let ?u = "min ?stop cap"
  let ?out = "write_outcome_default\<lparr>hit_cap := ?stop > cap\<rparr>"
  note unfolded = assms(1) [unfolded write_first_seen_wins_def checked_add_Some [OF assms(3)]
      option.case Let_def]
  show thesis
  proof (cases "offset \<ge> ?u")
    case True
    then show thesis
      using unfolded by (intro skipped) (auto simp: min_def split: if_splits)
  next
    case False
    define d0 where "d0 = (if length (elems data) < ?u then vec_grow_to ?u 0 data else data)"
    define f0 where "f0 = (if length (elems data) < ?u then vec_grow_to ?u False filled else filled)"
    have ok: "buffer_ok cap d0 f0"
      using assms(2) vec_ok_grow_to [of cap data ?u 0] vec_ok_grow_to [of cap filled ?u False]
      by (auto simp: d0_def f0_def buffer_ok_def vec_simps)
    have tk: "take (?u - offset) bytes = take (cap - offset) bytes"
      using False by (auto simp: min_def)
    have pair: "(if length (elems data) < ?u
        then (vec_grow_to ?u 0 data, vec_grow_to ?u False filled) else (data, filled)) = (d0, f0)"
      by (simp add: d0_def f0_def)
    obtain d f out' where wb: "write_bytes offset (take (cap - offset) bytes) (elems d0) (elems f0) ?out
        = (d, f, out')"
      by (metis prod_cases3)
    have "data' = d0\<lparr>elems := d\<rparr>" "filled' = f0\<lparr>elems := f\<rparr>" "out = out'"
      using unfolded False unfolding pair tk by (simp_all add: wb)
    moreover have "?u \<le> length (elems f0)"
      using assms(2) by (auto simp: f0_def buffer_ok_def vec_simps)
    then have "offset + length (take (cap - offset) bytes) \<le> length (elems f0)"
      using False by auto
    moreover have "elems d0 = elems data @ replicate (length (elems d0) - length (elems data)) 0"
      by (simp add: d0_def vec_simps)
    moreover have "elems f0 = elems filled @ replicate (length (elems d0) - length (elems data)) False"
      using assms(2) by (auto simp: d0_def f0_def vec_simps buffer_ok_def)
    ultimately show thesis
      using False ok wb by (intro written [of d0 f0 d f]) auto
  qed
qed

lemma write_first_seen_wins_ok:
  assumes "write_first_seen_wins data filled offset bytes cap = (data', filled', out)"
    and "buffer_ok cap data filled" and "offset + length bytes \<le> usize_max"
  shows "buffer_ok cap data' filled'"
  using assms
proof (cases rule: write_first_seen_wins_cases)
  case skipped
  with assms(2) show ?thesis by simp
next
  case (written d0 f0 d f)
  from write_bytes_lengths [OF written(7)] written(3) show ?thesis
    by (auto simp: written(8,9) buffer_ok_def vec_ok_def)
qed

lemma write_first_seen_wins_hit_cap:
  assumes "write_first_seen_wins data filled offset bytes cap = (data', filled', out)"
    and "buffer_ok cap data filled" and "offset + length bytes \<le> usize_max"
  shows "hit_cap out \<longleftrightarrow> offset + length bytes > cap"
  using assms
proof (cases rule: write_first_seen_wins_cases)
  case (written d0 f0 d f)
  from write_bytes_hit_cap [OF written(7)] show ?thesis by simp
qed simp

lemma write_first_seen_wins_covered:
  assumes "write_first_seen_wins data filled offset bytes cap = (data', filled', out)"
    and "buffer_ok cap data filled" and "offset + length bytes \<le> usize_max"
  shows "covered (elems data') (elems filled')
       = piece_map offset (take (cap - offset) bytes) ++ covered (elems data) (elems filled)"
  using assms
proof (cases rule: write_first_seen_wins_cases)
  case skipped
  then show ?thesis unfolding skipped by simp
next
  case (written d0 f0 d f)
  have "covered (elems d0) (elems f0) = covered (elems data) (elems filled)"
    by (subst written(4), subst written(5)) (use assms(2) in \<open>simp add: covered_grow buffer_ok_def\<close>)
  with write_bytes_covered [OF written(7)] written(3,6) show ?thesis
    by (simp add: written(8,9) buffer_ok_def)
qed

lemma write_first_seen_wins_counts:
  assumes "write_first_seen_wins data filled offset bytes cap = (data', filled', out)"
    and "buffer_ok cap data filled" and "offset + length bytes \<le> usize_max"
  shows "newly_written out = card (fresh_positions offset (take (cap - offset) bytes) (elems data) (elems filled))"
    and "conflicting out = card (conflict_positions offset (take (cap - offset) bytes) (elems data) (elems filled))"
proof -
  have "newly_written out = card (fresh_positions offset (take (cap - offset) bytes) (elems data) (elems filled))
      \<and> conflicting out = card (conflict_positions offset (take (cap - offset) bytes) (elems data) (elems filled))"
    using assms
  proof (cases rule: write_first_seen_wins_cases)
    case skipped
    show ?thesis
      unfolding skipped by (simp add: fresh_positions_def conflict_positions_def write_outcome_default_def)
  next
    case (written d0 f0 d f)
    have cov: "covered (elems d0) (elems f0) = covered (elems data) (elems filled)"
      by (subst written(4), subst written(5)) (use assms(2) in \<open>simp add: covered_grow buffer_ok_def\<close>)
    have "fresh_positions offset bs (elems d0) (elems f0) = fresh_positions offset bs (elems data) (elems filled)"
      "conflict_positions offset bs (elems d0) (elems f0)
        = conflict_positions offset bs (elems data) (elems filled)" for bs
      by (simp_all add: fresh_positions_def conflict_positions_def cov)
    with write_bytes_counts [OF written(7)] written(3,6) show ?thesis
      by (simp add: buffer_ok_def write_outcome_default_def)
  qed
  then show "newly_written out = card (fresh_positions offset (take (cap - offset) bytes) (elems data) (elems filled))"
    and "conflicting out = card (conflict_positions offset (take (cap - offset) bytes) (elems data) (elems filled))"
    by simp_all
qed

lemma held_iff_covered: "i < length f \<and> f ! i \<longleftrightarrow> covered d f i \<noteq> None"
  by (simp add: covered_def)

lemma known_prefix_iff_covered: "known_prefix f n \<longleftrightarrow> (\<forall>i<n. covered d f i \<noteq> None)"
proof
  assume "known_prefix f n"
  then show "\<forall>i<n. covered d f i \<noteq> None"
    by (auto simp: known_prefix_def covered_def)
next
  assume *: "\<forall>i<n. covered d f i \<noteq> None"
  then have "\<forall>i<n. i < length f \<and> f ! i"
    by (metis held_iff_covered)
  then show "known_prefix f n"
    unfolding known_prefix_def by (metis linorder_not_less order_less_irrefl)
qed

lemma known_prefix_mono:
  "covered d f \<subseteq>\<^sub>m covered d' f' \<Longrightarrow> known_prefix f n \<Longrightarrow> known_prefix f' n"
  unfolding known_prefix_iff_covered [of f n d] known_prefix_iff_covered [of f' n d']
  by (metis domIff map_le_implies_dom_le subsetD)

lemma write_first_seen_wins_map_le:
  assumes "write_first_seen_wins data filled offset bytes cap = (data', filled', out)"
    and "buffer_ok cap data filled" and "offset + length bytes \<le> usize_max"
  shows "covered (elems data) (elems filled) \<subseteq>\<^sub>m covered (elems data') (elems filled')"
  by (simp add: write_first_seen_wins_covered [OF assms])

lemma write_first_seen_wins_prefix:
  assumes "write_first_seen_wins data filled offset bytes cap = (data', filled', out)"
    and "buffer_ok cap data filled" and "offset + length bytes \<le> usize_max"
    and "known_prefix (elems filled) known"
  shows "contiguous_len_from (elems filled') known = held_prefix_len (elems filled')"
  using known_prefix_mono [OF write_first_seen_wins_map_le [OF assms(1-3)] assms(4)]
  by (rule contiguous_len_from_eq)

lemma write_first_seen_wins_length:
  assumes "write_first_seen_wins data filled offset bytes cap = (data', filled', out)"
    and "bytes \<noteq> []" and "offset + length bytes \<le> cap" and "offset + length bytes \<le> usize_max"
  shows "length (elems data') = max (length (elems data)) (offset + length bytes)"
proof -
  let ?u = "offset + length bytes"
  define d0 where "d0 = (if length (elems data) < ?u then vec_grow_to ?u 0 data else data)"
  define f0 where "f0 = (if length (elems data) < ?u then vec_grow_to ?u False filled else filled)"
  obtain d f out' where wb: "write_bytes offset bytes (elems d0) (elems f0) write_outcome_default = (d, f, out')"
    by (metis prod_cases3)
  have "min ?u cap = ?u" "\<not> ?u \<le> offset" "\<not> cap < ?u" using assms(2,3) by auto
  moreover have "write_outcome_default\<lparr>hit_cap := False\<rparr> = write_outcome_default"
    by (simp add: write_outcome_default_def)
  ultimately have "data' = d0\<lparr>elems := d\<rparr>"
    using assms(1) wb
    by (auto simp: write_first_seen_wins_def checked_add_Some [OF assms(4)] d0_def f0_def Let_def split: if_splits)
  with write_bytes_lengths [OF wb] show ?thesis by (auto simp: d0_def vec_simps)
qed

end
