(* ===== verification/RustStr.thy ===== *)
theory RustStr
  imports Prelude
begin

text \<open>
  The string operations of the standard library that the detectors use, on the UTF-8 byte
  sequence of a \<open>String\<close>: validation (\<open>str::from_utf8\<close>), Unicode white space
  (\<open>trim_start\<close>, \<open>trim_end\<close>, \<open>split_whitespace\<close>), ASCII case folding, character
  boundaries, decimal printing.
\<close>

named_theorems str_simps \<open>evaluation rules for string operations\<close>

section \<open>UTF-8\<close>

definition utf8_cont :: "byte \<Rightarrow> bool" where
  "utf8_cont b \<longleftrightarrow> 0x80 \<le> b \<and> b \<le> 0xBF"

fun utf8_valid :: "byte list \<Rightarrow> bool" where
  "utf8_valid [] = True"
| "utf8_valid (b # bs) =
     (if b < 0x80 then utf8_valid bs
      else if 0xC2 \<le> b \<and> b \<le> 0xDF then
        (case bs of c1 # r \<Rightarrow> utf8_cont c1 \<and> utf8_valid r | _ \<Rightarrow> False)
      else if 0xE0 \<le> b \<and> b \<le> 0xEF then
        (case bs of c1 # c2 # r \<Rightarrow>
             utf8_cont c1 \<and> (b = 0xE0 \<longrightarrow> 0xA0 \<le> c1) \<and> (b = 0xED \<longrightarrow> c1 \<le> 0x9F)
             \<and> utf8_cont c2 \<and> utf8_valid r
         | _ \<Rightarrow> False)
      else if 0xF0 \<le> b \<and> b \<le> 0xF4 then
        (case bs of c1 # c2 # c3 # r \<Rightarrow>
             utf8_cont c1 \<and> (b = 0xF0 \<longrightarrow> 0x90 \<le> c1) \<and> (b = 0xF4 \<longrightarrow> c1 \<le> 0x8F)
             \<and> utf8_cont c2 \<and> utf8_cont c3 \<and> utf8_valid r
         | _ \<Rightarrow> False)
      else False)"

definition from_utf8 :: "byte list \<Rightarrow> rstring option" where
  "from_utf8 bs = (if utf8_valid bs then Some bs else None)"

definition is_ascii_byte :: "byte \<Rightarrow> bool" where
  "is_ascii_byte b \<longleftrightarrow> b < 0x80"

lemma utf8_valid_ascii: "list_all is_ascii_byte bs \<Longrightarrow> utf8_valid bs"
  by (induction bs) (simp_all add: is_ascii_byte_def)

text \<open>\<open>s.get(..n)\<close> on a string: \<^const>\<open>None\<close> out of range or inside a character.\<close>

definition is_char_boundary :: "rstring \<Rightarrow> nat \<Rightarrow> bool" where
  "is_char_boundary s n \<longleftrightarrow> n = length s \<or> (n < length s \<and> \<not> utf8_cont (s ! n))"

definition str_get_to :: "rstring \<Rightarrow> nat \<Rightarrow> rstring option" where
  "str_get_to s n = (if is_char_boundary s n then Some (take n s) else None)"

section \<open>ASCII classes and case\<close>

definition ascii_upper :: "byte \<Rightarrow> bool" where
  "ascii_upper b \<longleftrightarrow> 0x41 \<le> b \<and> b \<le> 0x5A"

definition ascii_lower_letter :: "byte \<Rightarrow> bool" where
  "ascii_lower_letter b \<longleftrightarrow> 0x61 \<le> b \<and> b \<le> 0x7A"

definition ascii_digit :: "byte \<Rightarrow> bool" where
  "ascii_digit b \<longleftrightarrow> 0x30 \<le> b \<and> b \<le> 0x39"

definition ascii_alphanumeric :: "byte \<Rightarrow> bool" where
  "ascii_alphanumeric b \<longleftrightarrow> ascii_upper b \<or> ascii_lower_letter b \<or> ascii_digit b"

definition to_lower_byte :: "byte \<Rightarrow> byte" where
  "to_lower_byte b = (if ascii_upper b then b + 0x20 else b)"

definition to_ascii_lowercase :: "rstring \<Rightarrow> rstring" where
  "to_ascii_lowercase s = map to_lower_byte s"

definition eq_ignore_ascii_case :: "rstring \<Rightarrow> rstring \<Rightarrow> bool" where
  "eq_ignore_ascii_case s t \<longleftrightarrow> to_ascii_lowercase s = to_ascii_lowercase t"

section \<open>White space\<close>

text \<open>The UTF-8 encodings of the characters with the Unicode \<open>White_Space\<close> property.\<close>

definition ws_encodings :: "byte list list" where
  "ws_encodings =
     [[0x09], [0x0A], [0x0B], [0x0C], [0x0D], [0x20], [0xC2, 0x85], [0xC2, 0xA0],
      [0xE1, 0x9A, 0x80], [0xE2, 0x80, 0x80], [0xE2, 0x80, 0x81], [0xE2, 0x80, 0x82],
      [0xE2, 0x80, 0x83], [0xE2, 0x80, 0x84], [0xE2, 0x80, 0x85], [0xE2, 0x80, 0x86],
      [0xE2, 0x80, 0x87], [0xE2, 0x80, 0x88], [0xE2, 0x80, 0x89], [0xE2, 0x80, 0x8A],
      [0xE2, 0x80, 0xA8], [0xE2, 0x80, 0xA9], [0xE2, 0x80, 0xAF], [0xE2, 0x81, 0x9F],
      [0xE3, 0x80, 0x80]]"

definition ws_prefix_len :: "rstring \<Rightarrow> nat" where
  "ws_prefix_len s = (case find (\<lambda>w. starts_with s w) ws_encodings of None \<Rightarrow> 0 | Some w \<Rightarrow> length w)"

definition ws_suffix_len :: "rstring \<Rightarrow> nat" where
  "ws_suffix_len s =
     (case find (\<lambda>w. starts_with (rev s) (rev w)) ws_encodings of None \<Rightarrow> 0 | Some w \<Rightarrow> length w)"

lemma ws_encodings_nonempty: "w \<in> set ws_encodings \<Longrightarrow> 0 < length w"
  by (auto simp: ws_encodings_def)

lemma ws_prefix_len_le: "ws_prefix_len s \<le> length s"
proof (cases "find (\<lambda>w. starts_with s w) ws_encodings")
  case (Some w)
  then have "starts_with s w" by (auto simp: find_Some_iff)
  then have "length w \<le> length s"
    unfolding starts_with_def by (metis length_take min.cobounded1)
  with Some show ?thesis by (simp add: ws_prefix_len_def)
qed (simp add: ws_prefix_len_def)

function trim_start :: "rstring \<Rightarrow> rstring" where
  "trim_start s = (if ws_prefix_len s = 0 then s else trim_start (drop (ws_prefix_len s) s))"
  by pat_completeness auto
termination
  using ws_prefix_len_le
  by (relation "measure length") (auto simp: diff_less, metis diff_less gr0I le_zero_eq)

declare trim_start.simps [simp del]

function trim_end :: "rstring \<Rightarrow> rstring" where
  "trim_end s = (if ws_suffix_len s = 0 \<or> s = [] then s
                 else trim_end (take (length s - ws_suffix_len s) s))"
  by pat_completeness auto
termination
  by (relation "measure length") auto

declare trim_end.simps [simp del]

definition str_trim :: "rstring \<Rightarrow> rstring" where
  "str_trim s = trim_end (trim_start s)"

text \<open>
  \<open>ws_break s\<close>: the bytes before the first white space character, and what follows it
  (\<open>split_once(char::is_whitespace)\<close>).
\<close>

fun ws_break :: "rstring \<Rightarrow> rstring \<times> rstring option" where
  "ws_break [] = ([], None)"
| "ws_break (b # bs) =
     (if ws_prefix_len (b # bs) \<noteq> 0 then ([], Some (drop (ws_prefix_len (b # bs)) (b # bs)))
      else let (w, r) = ws_break bs in (b # w, r))"

lemma ws_break_rest: "ws_break s = (w, Some r) \<Longrightarrow> length r < length s"
proof (induction s arbitrary: w r)
  case (Cons b bs)
  show ?case
  proof (cases "ws_prefix_len (b # bs) \<noteq> 0")
    case True
    with Cons.prems show ?thesis by auto
  next
    case False
    with Cons show ?thesis by (auto split: prod.splits)
  qed
qed simp

text \<open>\<open>split_whitespace\<close>: the maximal runs of other characters.\<close>

function split_whitespace :: "rstring \<Rightarrow> rstring list" where
  "split_whitespace s =
     (case ws_break s of
        (w, None) \<Rightarrow> (if w = [] then [] else [w])
      | (w, Some r) \<Rightarrow> (if w = [] then split_whitespace r else w # split_whitespace r))"
  by pat_completeness auto
termination
  by (relation "measure length") (auto dest: ws_break_rest sym)

declare split_whitespace.simps [simp del]

section \<open>Splitting and joining\<close>

definition position :: "('a \<Rightarrow> bool) \<Rightarrow> 'a list \<Rightarrow> nat option" where
  "position P xs =
     (let n = length (takeWhile (\<lambda>x. \<not> P x) xs) in if n < length xs then Some n else None)"

lemma position_Some:
  assumes "position P xs = Some n"
  shows "n < length xs" and "P (xs ! n)" and "i < n \<Longrightarrow> \<not> P (xs ! i)"
proof -
  let ?m = "length (takeWhile (\<lambda>x. \<not> P x) xs)"
  from assms have n: "?m = n" "n < length xs"
    by (auto simp: position_def Let_def split: if_splits)
  show "n < length xs" by (rule n(2))
  show "P (xs ! n)"
    using nth_length_takeWhile [of "\<lambda>x. \<not> P x" xs] n by auto
  assume "i < n"
  with n have "i < ?m" by simp
  then have "takeWhile (\<lambda>x. \<not> P x) xs ! i \<in> set (takeWhile (\<lambda>x. \<not> P x) xs)"
    by (rule nth_mem)
  with \<open>i < ?m\<close> show "\<not> P (xs ! i)"
    by (metis set_takeWhileD takeWhile_nth)
qed

lemma position_None: "position P xs = None \<longleftrightarrow> (\<forall>x\<in>set xs. \<not> P x)"
proof -
  have "length (takeWhile (\<lambda>x. \<not> P x) xs) < length xs \<longleftrightarrow> (\<exists>x\<in>set xs. P x)"
    by (induction xs) auto
  then show ?thesis by (auto simp: position_def Let_def)
qed

fun join_with :: "'a list \<Rightarrow> 'a list list \<Rightarrow> 'a list" where
  "join_with sep [] = []"
| "join_with sep [x] = x"
| "join_with sep (x # y # zs) = x @ sep @ join_with sep (y # zs)"

lemma set_join_with: "set (join_with sep xs) \<subseteq> set sep \<union> \<Union> (set ` set xs)"
  by (induction sep xs rule: join_with.induct) auto

lemma length_join_with:
  "xs \<noteq> [] \<Longrightarrow>
   length (join_with sep xs) = sum_list (map length xs) + length sep * (length xs - 1)"
  by (induction sep xs rule: join_with.induct) auto

definition strip_suffix_byte :: "byte \<Rightarrow> byte list \<Rightarrow> byte list option" where
  "strip_suffix_byte b xs = (if xs \<noteq> [] \<and> last xs = b then Some (butlast xs) else None)"

text \<open>\<open>str::split\<close> at a single character: the parts between its occurrences, at least one.\<close>

fun split_byte :: "byte \<Rightarrow> rstring \<Rightarrow> rstring list" where
  "split_byte sep [] = [[]]"
| "split_byte sep (b # bs) =
     (if b = sep then [] # split_byte sep bs
      else case split_byte sep bs of [] \<Rightarrow> [[b]] | part # parts \<Rightarrow> (b # part) # parts)"

lemma split_byte_nonempty [simp]: "split_byte sep bs \<noteq> []"
  by (induction bs) (auto split: list.splits)

lemma split_byte_plain: "sep \<notin> set bs \<Longrightarrow> split_byte sep bs = [bs]"
  by (induction bs) auto

lemma split_byte_at: "sep \<notin> set xs \<Longrightarrow> split_byte sep (xs @ sep # ys) = xs # split_byte sep ys"
  by (induction xs) auto

section \<open>Decimal printing and parsing\<close>

fun show_nat :: "nat \<Rightarrow> rstring" where
  "show_nat n = (if n < 10 then [of_nat (48 + n)] else show_nat (n div 10) @ [of_nat (48 + n mod 10)])"

declare show_nat.simps [simp del]

fun read_digits :: "nat \<Rightarrow> byte list \<Rightarrow> nat" where
  "read_digits acc [] = acc"
| "read_digits acc (b # bs) = read_digits (10 * acc + (unat b - 48)) bs"

text \<open>\<open>str::parse::<u64>\<close> on a non-empty digit string.\<close>

definition parse_u64_digits :: "byte list \<Rightarrow> nat option" where
  "parse_u64_digits bs = (let n = read_digits 0 bs in if n \<le> u64_max then Some n else None)"

text \<open>\<open>str::parse::<u64>\<close>: an optional plus sign and decimal digits within range.\<close>

definition parse_u64 :: "rstring \<Rightarrow> nat option" where
  "parse_u64 s =
     (let digits = (if s \<noteq> [] \<and> hd s = 0x2B then tl s else s)
      in if digits = [] \<or> \<not> list_all ascii_digit digits then None else parse_u64_digits digits)"

lemma read_digits_append: "read_digits acc (xs @ ys) = read_digits (read_digits acc xs) ys"
  by (induction xs arbitrary: acc) auto

lemma unat_digit: "d < 10 \<Longrightarrow> unat (of_nat (48 + d) :: byte) = 48 + d"
  by (simp add: unat_of_nat del: of_nat_add)

lemma read_show_nat: "read_digits 0 (show_nat n) = n"
proof (induction n rule: show_nat.induct)
  case (1 n)
  show ?case
  proof (cases "n < 10")
    case True
    then show ?thesis by (subst show_nat.simps) (simp add: unat_digit del: of_nat_add)
  next
    case False
    with "1.IH" have "read_digits 0 (show_nat (n div 10)) = n div 10" by simp
    with False show ?thesis
      by (subst show_nat.simps) (simp add: read_digits_append unat_digit del: of_nat_add)
  qed
qed

lemma ascii_digit_of_nat: "d < 10 \<Longrightarrow> ascii_digit (of_nat (48 + d))"
  using unat_digit [of d] by (simp add: ascii_digit_def word_le_nat_alt del: of_nat_add)

lemma show_nat_digits: "list_all ascii_digit (show_nat n)"
proof (induction n rule: show_nat.induct)
  case (1 n)
  show ?case
  proof (cases "n < 10")
    case True
    then show ?thesis
      by (subst show_nat.simps) (simp add: ascii_digit_of_nat del: of_nat_add)
  next
    case False
    with "1.IH" show ?thesis
      by (subst show_nat.simps) (simp add: ascii_digit_of_nat del: of_nat_add)
  qed
qed

lemma show_nat_nonempty: "show_nat n \<noteq> []"
  by (subst show_nat.simps) simp

lemma show_nat_inject: "show_nat m = show_nat n \<longleftrightarrow> m = n"
  by (metis read_show_nat)

section \<open>Lossy decoding\<close>

text \<open>
  \<open>String::from_utf8_lossy\<close>: how many bytes the next character, or the next maximal ill-formed
  piece, takes, and which of the two it is; every ill-formed piece becomes one U+FFFD.
\<close>

definition utf8_second_ok :: "byte \<Rightarrow> byte \<Rightarrow> bool" where
  "utf8_second_ok b c \<longleftrightarrow>
     utf8_cont c \<and> (b = 0xE0 \<longrightarrow> 0xA0 \<le> c) \<and> (b = 0xED \<longrightarrow> c \<le> 0x9F)
     \<and> (b = 0xF0 \<longrightarrow> 0x90 \<le> c) \<and> (b = 0xF4 \<longrightarrow> c \<le> 0x8F)"

fun utf8_piece :: "byte list \<Rightarrow> nat \<times> bool" where
  "utf8_piece [] = (0, True)"
| "utf8_piece (b # bs) =
     (let cont = (\<lambda>i. i < length bs \<and> utf8_cont (bs ! i));
          second = (bs \<noteq> [] \<and> utf8_second_ok b (bs ! 0))
      in if b < 0x80 then (1, True)
         else if 0xC2 \<le> b \<and> b \<le> 0xDF then (if cont 0 then (2, True) else (1, False))
         else if 0xE0 \<le> b \<and> b \<le> 0xEF then
           (if \<not> second then (1, False) else if cont 1 then (3, True) else (2, False))
         else if 0xF0 \<le> b \<and> b \<le> 0xF4 then
           (if \<not> second then (1, False) else if \<not> cont 1 then (2, False)
            else if cont 2 then (4, True) else (3, False))
         else (1, False))"

lemma utf8_piece_pos: "s \<noteq> [] \<Longrightarrow> 0 < fst (utf8_piece s)"
  by (cases s) (simp_all add: Let_def)

function from_utf8_lossy :: "byte list \<Rightarrow> rstring" where
  "from_utf8_lossy s =
     (if s = [] then []
      else (if snd (utf8_piece s) then take (fst (utf8_piece s)) s else [0xEF, 0xBF, 0xBD])
           @ from_utf8_lossy (drop (fst (utf8_piece s)) s))"
  by pat_completeness auto
termination
  by (relation "measure length") (use utf8_piece_pos in auto)

declare from_utf8_lossy.simps [simp del]

lemma utf8_piece_valid:
  assumes "utf8_valid s" "s \<noteq> []"
  shows "snd (utf8_piece s) \<and> utf8_valid (drop (fst (utf8_piece s)) s)"
proof -
  obtain b bs where s: "s = b # bs" using assms(2) by (cases s) auto
  consider "b < 0x80" | "\<not> b < 0x80" "0xC2 \<le> b \<and> b \<le> 0xDF" | "\<not> b < 0x80" "\<not> (0xC2 \<le> b \<and> b \<le> 0xDF)" "0xE0 \<le> b \<and> b \<le> 0xEF"
    | "\<not> b < 0x80" "\<not> (0xC2 \<le> b \<and> b \<le> 0xDF)" "\<not> (0xE0 \<le> b \<and> b \<le> 0xEF)" "0xF0 \<le> b \<and> b \<le> 0xF4"
    using assms(1) s by (auto split: if_splits)
  then show ?thesis
  proof cases
    case 3
    have "\<not> b \<le> 0xDF" using 3 order_trans [of "0xE0" b "0xDF"] by auto
    with 3 obtain c1 c2 r where bs: "bs = c1 # c2 # r" "utf8_cont c1" "b = 0xE0 \<longrightarrow> 0xA0 \<le> c1" "b = 0xED \<longrightarrow> c1 \<le> 0x9F"
      "utf8_cont c2" "utf8_valid r"
      using assms(1) s by (simp split: list.splits)
    moreover have "b \<noteq> 0xF0" "b \<noteq> 0xF4" using 3 by auto
    ultimately have "utf8_piece s = (3, True)" using 3 s by (simp add: Let_def utf8_second_ok_def)
    then show ?thesis using s bs by simp
  next
    case 4
    have "\<not> b \<le> 0xDF" "\<not> b \<le> 0xEF"
      using 4 order_trans [of "0xF0" b "0xDF"] order_trans [of "0xF0" b "0xEF"] by auto
    with 4 obtain c1 c2 c3 r where bs: "bs = c1 # c2 # c3 # r" "utf8_cont c1" "b = 0xF0 \<longrightarrow> 0x90 \<le> c1" "b = 0xF4 \<longrightarrow> c1 \<le> 0x8F"
      "utf8_cont c2" "utf8_cont c3" "utf8_valid r"
      using assms(1) s by (simp split: list.splits)
    moreover have "b \<noteq> 0xE0" "b \<noteq> 0xED" using 4 by auto
    ultimately have "utf8_piece s = (4, True)" using 4 s by (simp add: Let_def utf8_second_ok_def)
    then show ?thesis using s bs by simp
  next
    case 2
    then obtain c1 r where bs: "bs = c1 # r" "utf8_cont c1" "utf8_valid r" using assms(1) s by (simp split: list.splits)
    then have "utf8_piece s = (2, True)" using 2 s by (simp add: Let_def)
    then show ?thesis using s bs by simp
  next
    case 1
    then have "utf8_piece s = (1, True)" "utf8_valid bs" using assms(1) s by (simp_all add: Let_def)
    then show ?thesis using s by simp
  qed
qed

lemma from_utf8_lossy_valid: "utf8_valid s \<Longrightarrow> from_utf8_lossy s = s"
proof (induction s rule: from_utf8_lossy.induct)
  case (1 s)
  then show ?case
    using utf8_piece_valid [of s] by (subst from_utf8_lossy.simps) simp
qed

end
