(* ===== verification/RateLimit.thy ===== *)
theory RateLimit
  imports Prelude
begin

text \<open>
  \<open>rate_limit.rs\<close>: the minimum-interval throttle in front of the per-packet event stream.
\<close>

record packet_event_limiter =
  min_interval_ms :: "nat option"
  last_allowed_ms :: "nat option"

definition limiter_new :: "nat \<Rightarrow> nat \<Rightarrow> packet_event_limiter" where
  "limiter_new max_per_window window_ms =
     \<lparr>min_interval_ms = (if max_per_window = 0 then None else Some (window_ms div max_per_window)),
      last_allowed_ms = None\<rparr>"

definition limiter_allow :: "packet_event_limiter \<Rightarrow> nat \<Rightarrow> bool \<times> packet_event_limiter" where
  "limiter_allow l now_ms =
     (case min_interval_ms l of
        None \<Rightarrow> (False, l)
      | Some interval \<Rightarrow>
          let due = (case last_allowed_ms l of None \<Rightarrow> True | Some prev \<Rightarrow> now_ms - prev \<ge> interval)
          in (due, if due then l\<lparr>last_allowed_ms := Some now_ms\<rparr> else l))"

text \<open>The events the capture loop lets through, for a sequence of candidate times.\<close>

fun limiter_run :: "packet_event_limiter \<Rightarrow> nat list \<Rightarrow> nat list" where
  "limiter_run l [] = []"
| "limiter_run l (t # ts) =
     (let (ok, l') = limiter_allow l t in if ok then t # limiter_run l' ts else limiter_run l' ts)"

lemma limiter_allow_interval: "min_interval_ms (snd (limiter_allow l t)) = min_interval_ms l"
  by (simp add: limiter_allow_def Let_def split: option.splits)

lemma limiter_run_None: "min_interval_ms l = None \<Longrightarrow> limiter_run l ts = []"
  by (induction ts arbitrary: l) (auto simp: limiter_allow_def)

text \<open>Consecutive admitted times are at least the interval apart.\<close>

lemma limiter_run_spaced:
  assumes "sorted ts" and "min_interval_ms l = Some i"
  shows "successively (\<lambda>a b. a + i \<le> b) (limiter_run l ts)
       \<and> (\<forall>p. last_allowed_ms l = Some p \<longrightarrow> (\<forall>t\<in>set ts. p \<le> t) \<longrightarrow>
            (\<forall>t\<in>set (limiter_run l ts). p + i \<le> t))"
  using assms
proof (induction ts arbitrary: l)
  case Nil
  then show ?case by simp
next
  case (Cons t ts)
  let ?l = "l\<lparr>last_allowed_ms := Some t\<rparr>"
  from Cons.prems have srt: "sorted ts" "\<forall>u\<in>set ts. t \<le> u" by auto
  have i': "min_interval_ms ?l = Some i" using Cons.prems by simp
  from Cons.IH [OF srt(1) i'] srt(2)
  have IH: "successively (\<lambda>a b. a + i \<le> b) (limiter_run ?l ts)"
    "\<forall>u\<in>set (limiter_run ?l ts). t + i \<le> u" by auto
  from Cons.IH [OF srt(1) Cons.prems(2)]
  have IH0: "successively (\<lambda>a b. a + i \<le> b) (limiter_run l ts)"
    "\<forall>p. last_allowed_ms l = Some p \<longrightarrow> (\<forall>u\<in>set ts. p \<le> u) \<longrightarrow>
       (\<forall>u\<in>set (limiter_run l ts). p + i \<le> u)" by auto
  have cons: "successively (\<lambda>a b. a + i \<le> b) (t # limiter_run ?l ts)"
    using IH by (cases "limiter_run ?l ts") auto
  show ?case
  proof (cases "last_allowed_ms l")
    case None
    with Cons.prems(2) cons show ?thesis by (simp add: limiter_allow_def)
  next
    case (Some p)
    show ?thesis
    proof (cases "t - p \<ge> i")
      case True
      with Some Cons.prems(2) have run: "limiter_run l (t # ts) = t # limiter_run ?l ts"
        by (simp add: limiter_allow_def)
      have "p \<le> t \<Longrightarrow> \<forall>u\<in>set (t # limiter_run ?l ts). p + i \<le> u"
        using True IH(2) by fastforce
      with cons Some show ?thesis unfolding run by simp
    next
      case False
      with Some Cons.prems(2) IH0 show ?thesis
        by (auto simp: limiter_allow_def)
    qed
  qed
qed

text \<open>A spaced sequence has few members in any window.\<close>

lemma spaced_gap:
  "successively (\<lambda>a b. a + i \<le> b) (x # xs) \<Longrightarrow> n < length (x # xs) \<Longrightarrow>
   x + n * i \<le> (x # xs) ! n"
proof (induction n arbitrary: x xs)
  case (Suc n)
  then obtain y ys where xs: "xs = y # ys" by (cases xs) auto
  with Suc.prems have "x + i \<le> y" "successively (\<lambda>a b. a + i \<le> b) (y # ys)" by auto
  with Suc.IH [of y ys] Suc.prems xs show ?case by auto
qed simp

lemma spaced_filter_window:
  assumes "successively (\<lambda>a b. a + i \<le> b) xs"
  shows "successively (\<lambda>a b. a + i \<le> (b::nat)) (filter (\<lambda>x. t \<le> x \<and> x < t + w) xs)"
proof -
  have "transp (\<lambda>a b::nat. a + i \<le> b)"
    by (rule transpI) simp
  with assms have "sorted_wrt (\<lambda>a b. a + i \<le> b) xs"
    by (simp add: successively_conv_sorted_wrt)
  then have "sorted_wrt (\<lambda>a b. a + i \<le> b) (filter (\<lambda>x. t \<le> x \<and> x < t + w) xs)"
    by (rule sorted_wrt_filter)
  then show ?thesis
    using \<open>transp _\<close> by (simp add: successively_conv_sorted_wrt)
qed

lemma window_count:
  assumes "successively (\<lambda>a b. a + i \<le> b) xs" and "0 < i"
  shows "length (filter (\<lambda>x. t \<le> x \<and> x < t + i * m) xs) \<le> (m::nat)"
proof (rule ccontr)
  let ?ys = "filter (\<lambda>x. t \<le> x \<and> x < t + i * m) xs"
  assume "\<not> length ?ys \<le> m"
  then obtain y ys where ys: "?ys = y # ys" and m: "m < length (y # ys)"
    by (cases ?ys) auto
  from spaced_filter_window [OF assms(1), of t "i * m"]
  have "y + m * i \<le> (y # ys) ! m"
    unfolding ys using m by (rule spaced_gap)
  moreover have "(y # ys) ! m \<in> set ?ys"
    unfolding ys using m by (rule nth_mem)
  moreover have "y \<in> set ?ys"
    unfolding ys by simp
  ultimately show False by (auto simp: mult.commute)
qed

text \<open>Every candidate is at most one interval behind an admitted event.\<close>

lemma limiter_run_covers:
  assumes "sorted ts" "min_interval_ms l = Some i" "0 < i" "x \<in> set ts"
    and "\<And>p. last_allowed_ms l = Some p \<Longrightarrow> \<forall>t\<in>set ts. p \<le> t"
  shows "\<exists>y\<in>set (limiter_run l ts) \<union> set_option (last_allowed_ms l). y \<le> x \<and> x < y + i"
  using assms
proof (induction ts arbitrary: l)
  case (Cons t ts)
  let ?l = "l\<lparr>last_allowed_ms := Some t\<rparr>"
  have later: "sorted ts" "\<forall>u\<in>set ts. t \<le> u" using Cons.prems(1) by auto
  have admitted: ?case if run: "limiter_run l (t # ts) = t # limiter_run ?l ts"
  proof (cases "x = t")
    case False
    then have "\<exists>y\<in>set (limiter_run ?l ts) \<union> set_option (last_allowed_ms ?l). y \<le> x \<and> x < y + i"
      using Cons.prems later by (intro Cons.IH) auto
    then show ?thesis unfolding run by auto
  next
    case True
    then show ?thesis unfolding run using Cons.prems(3) by auto
  qed
  show ?case
  proof (cases "last_allowed_ms l")
    case None
    then show ?thesis using Cons.prems(2) by (intro admitted) (simp add: limiter_allow_def)
  next
    case (Some p)
    show ?thesis
    proof (cases "i \<le> t - p")
      case True
      then show ?thesis using Some Cons.prems(2) by (intro admitted) (simp add: limiter_allow_def)
    next
      case False
      then have run: "limiter_run l (t # ts) = limiter_run l ts" using Some Cons.prems(2) by (simp add: limiter_allow_def)
      have "\<exists>y\<in>set (limiter_run l ts) \<union> set_option (last_allowed_ms l). y \<le> x \<and> x < y + i" if "x \<noteq> t"
        using Cons.prems later that by (intro Cons.IH) auto
      moreover have "p \<le> t \<and> t < p + i" using Cons.prems(5) [OF Some] False by auto
      ultimately show ?thesis unfolding run using Some by auto
    qed
  qed
qed simp

section \<open>Properties\<close>

text \<open>
  C33: For a budget of \<open>m\<close> events per window of \<open>w\<close> milliseconds, \<open>m \<le> w\<close>: any window of that length,
  wherever it starts, contains at most \<open>m\<close> admitted events and as many more as intervals of
  \<open>w div m\<close> milliseconds are needed for the remainder of the division: \<open>m\<close> when \<open>m\<close> divides \<open>w\<close>, four
  for a budget of three per 1000 ms. And no more is held back than that asks for: every event offered
  follows an admitted one by less than one interval.
\<close>

theorem rate_limit_window_budget:
  assumes "0 < m" and "m \<le> w" and "sorted ts"
  shows "length (filter (\<lambda>x. t \<le> x \<and> x < t + w) (limiter_run (limiter_new m w) ts))
      \<le> m + (w mod m + (w div m - 1)) div (w div m) \<and>
    (\<forall>x\<in>set ts. \<exists>y\<in>set (limiter_run (limiter_new m w) ts). y \<le> x \<and> x < y + w div m)"
proof (intro conjI ballI)
  let ?i = "w div m" and ?run = "limiter_run (limiter_new m w) ts"
  let ?k = "m + (w mod m + (?i - 1)) div ?i"
  have pos: "0 < ?i" using assms(1,2) by (simp add: div_greater_zero_iff)
  have interval: "min_interval_ms (limiter_new m w) = Some ?i" and fresh: "last_allowed_ms (limiter_new m w) = None"
    using assms(1) by (simp_all add: limiter_new_def)
  have "w mod m \<le> ?i * ((w mod m + (?i - 1)) div ?i)"
    using mult_div_mod_eq [of ?i "w mod m + (?i - 1)"] mod_less_divisor [OF pos, of "w mod m + (?i - 1)"] pos by linarith
  then have "w \<le> ?i * ?k" using div_mult_mod_eq [of w m] unfolding distrib_left by linarith
  then have "filter (\<lambda>x. t \<le> x \<and> x < t + w) ?run = filter (\<lambda>x. t \<le> x \<and> x < t + w) (filter (\<lambda>x. t \<le> x \<and> x < t + ?i * ?k) ?run)"
    by (auto intro: filter_cong)
  then have "length (filter (\<lambda>x. t \<le> x \<and> x < t + w) ?run) \<le> length (filter (\<lambda>x. t \<le> x \<and> x < t + ?i * ?k) ?run)"
    by (metis length_filter_le)
  also have "\<dots> \<le> ?k"
    using limiter_run_spaced [OF assms(3) interval] pos by (intro window_count) blast+
  finally show "length (filter (\<lambda>x. t \<le> x \<and> x < t + w) ?run) \<le> ?k" .
  show "\<exists>y\<in>set ?run. y \<le> x \<and> x < y + ?i" if "x \<in> set ts" for x
    using limiter_run_covers [OF assms(3) interval pos that] fresh by simp
qed

theorem rate_limit_window_budget_witness:
  "length (filter (\<lambda>x. 0 \<le> x \<and> x < 0 + 10) (limiter_run (limiter_new 3 10) [0, 2, 3, 5, 6, 9, 10])) \<le> 4 \<and>
   (\<exists>y\<in>set (limiter_run (limiter_new 3 10) [0, 2, 3, 5, 6, 9, 10]). y \<le> 5 \<and> 5 < y + 3)"
proof -
  have small: "0 < (3::nat)" "(3::nat) \<le> 10" "sorted [0, 2, 3, 5, 6, 9, 10 :: nat]" "5 \<in> set [0, 2, 3, 5, 6, 9, 10 :: nat]" by simp_all
  note both = rate_limit_window_budget [OF small(1-3), of 0]
  have "3 + (10 mod 3 + (10 div 3 - 1)) div (10 div 3) = (4::nat)" "10 div 3 = (3::nat)" by simp_all
  then show ?thesis using both [THEN conjunct1] bspec [OF both [THEN conjunct2] small(4)] by (simp only:)
qed

end
