(* ===== verification/Redact.thy ===== *)
theory Redact
  imports RustStr
begin

text \<open>\<open>redact.rs\<close>: redaction of sensitive header values before anything is stored or sent.\<close>

definition sensitive_header_names :: "rstring list" where
  "sensitive_header_names =
     [lit ''authorization'', lit ''cookie'', lit ''set-cookie'', lit ''proxy-authorization'',
      lit ''x-api-key'']"

definition is_sensitive_header_name :: "rstring \<Rightarrow> bool" where
  "is_sensitive_header_name name \<longleftrightarrow> to_ascii_lowercase name \<in> set sensitive_header_names"

definition looks_like_bearer_token :: "rstring \<Rightarrow> bool" where
  "looks_like_bearer_token value =
     (case str_get_to (trim_start value) (length (lit ''bearer '')) of
        None \<Rightarrow> False
      | Some prefix \<Rightarrow> eq_ignore_ascii_case prefix (lit ''bearer ''))"

definition redacted_text :: rstring where
  "redacted_text = lit ''[REDACTED]''"

definition redact_header :: "rstring \<times> rstring \<Rightarrow> rstring \<times> rstring" where
  "redact_header h = (case h of (name, value) \<Rightarrow>
     if is_sensitive_header_name name \<or> looks_like_bearer_token value
     then (name, redacted_text) else (name, value))"

definition redact_headers :: "(rstring \<times> rstring) list \<Rightarrow> (rstring \<times> rstring) list" where
  "redact_headers headers = map redact_header headers"

lemma trim_start_id: "ws_prefix_len s = 0 \<Longrightarrow> trim_start s = s"
  by (subst trim_start.simps) simp

section \<open>What is sensitive, in words of the text itself\<close>

text \<open>A text spells a lower-case word when each byte is the word's letter or its capital.\<close>

definition capital :: "byte \<Rightarrow> byte" where
  "capital b = (if 0x61 \<le> b \<and> b \<le> 0x7A then b - 0x20 else b)"

definition spells :: "string \<Rightarrow> rstring \<Rightarrow> bool" where
  "spells word s \<longleftrightarrow> list_all2 (\<lambda>letter b. b = letter \<or> b = capital letter) (lit word) s"

text \<open>A bearer token: white space, then the word and a blank, then a character or nothing.\<close>

definition bearer_token :: "rstring \<Rightarrow> bool" where
  "bearer_token v \<longleftrightarrow> (\<exists>blanks scheme rest. v = concat blanks @ scheme @ rest \<and> set blanks \<subseteq> set ws_encodings \<and>
     spells ''bearer '' scheme \<and> (rest = [] \<or> \<not> utf8_cont (hd rest)))"

lemma lower_capital:
  assumes "\<not> ascii_upper letter"
  shows "to_lower_byte b = letter \<longleftrightarrow> b = letter \<or> b = capital letter"
  using assms unfolding to_lower_byte_def ascii_upper_def capital_def
  by (auto simp: word_le_nat_alt word_less_nat_alt unat_word_ariths unat_sub_if' split: if_splits)

lemma spells_lower:
  assumes "list_all (\<lambda>b. \<not> ascii_upper b) (lit word)"
  shows "spells word s \<longleftrightarrow> to_ascii_lowercase s = lit word"
proof -
  have "list_all2 (\<lambda>letter b. b = letter \<or> b = capital letter) w s \<longleftrightarrow> map to_lower_byte s = w"
    if "list_all (\<lambda>b. \<not> ascii_upper b) w" for w
    using that
  proof (induction w arbitrary: s)
    case (Cons letter w)
    then show ?case by (cases s) (auto simp: lower_capital)
  qed auto
  then show ?thesis using assms by (simp add: spells_def to_ascii_lowercase_def)
qed

lemma starts_with_iff: "starts_with s w \<longleftrightarrow> (\<exists>r. s = w @ r)"
  unfolding starts_with_def by (metis append_eq_conv_conj append_take_drop_id)

text \<open>No white space character begins another.\<close>

lemma ws_prefix_free:
  assumes "w \<in> set ws_encodings" "w' \<in> set ws_encodings" "starts_with (w @ r) w'"
  shows "w = w'"
proof -
  have "list_all (\<lambda>w. list_all (\<lambda>w'. take (length w') w = take (length w) w' \<longrightarrow> w = w') ws_encodings) ws_encodings"
    by code_simp
  then have "take (length w') w = take (length w) w' \<Longrightarrow> w = w'" using assms(1,2) by (auto simp: list_all_iff)
  moreover obtain r' where "w @ r = w' @ r'" using assms(3) by (auto simp: starts_with_iff)
  then have "take (length w') w = take (length w) w'" by (auto simp: append_eq_append_conv2)
  ultimately show ?thesis by blast
qed

lemma ws_prefix_len_blank:
  assumes "w \<in> set ws_encodings"
  shows "ws_prefix_len (w @ r) = length w"
proof -
  have "starts_with (w @ r) w" by (simp add: starts_with_def)
  then obtain w' where w': "find (starts_with (w @ r)) ws_encodings = Some w'"
    using assms by (cases "find (starts_with (w @ r)) ws_encodings") (auto simp: find_None_iff)
  then have "w' \<in> set ws_encodings" "starts_with (w @ r) w'" by (auto simp: find_Some_iff)
  then show ?thesis using ws_prefix_free [OF assms] w' by (auto simp: ws_prefix_len_def)
qed

lemma trim_start_blanks: "set blanks \<subseteq> set ws_encodings \<Longrightarrow> trim_start (concat blanks @ r) = trim_start r"
proof (induction blanks)
  case (Cons w blanks)
  then have "ws_prefix_len (w @ concat blanks @ r) = length w" "w \<noteq> []"
    using ws_prefix_len_blank ws_encodings_nonempty by force+
  then have "trim_start (w @ concat blanks @ r) = trim_start (concat blanks @ r)" by (subst trim_start.simps) simp
  then show ?case using Cons by simp
qed simp

lemma trim_start_removes:
  "\<exists>blanks. set blanks \<subseteq> set ws_encodings \<and> s = concat blanks @ trim_start s"
proof (induction s rule: trim_start.induct)
  case (1 s)
  show ?case
  proof (cases "find (starts_with s) ws_encodings")
    case None
    then show ?thesis by (intro exI [of _ "[]"]) (simp add: trim_start_id ws_prefix_len_def)
  next
    case (Some w)
    then have w: "w \<in> set ws_encodings" "starts_with s w" "ws_prefix_len s = length w"
      by (auto simp: find_Some_iff) (simp add: ws_prefix_len_def Some)
    then have split: "s = w @ drop (length w) s" and len: "ws_prefix_len s \<noteq> 0"
      using ws_encodings_nonempty by (auto simp: starts_with_iff)
    obtain blanks where "set blanks \<subseteq> set ws_encodings" "drop (length w) s = concat blanks @ trim_start (drop (length w) s)"
      using "1.IH" [OF len] w(3) by auto
    moreover have "trim_start s = trim_start (drop (length w) s)" using len w(3) by (subst trim_start.simps) simp
    ultimately show ?thesis using split w(1) by (intro exI [of _ "w # blanks"]) simp
  qed
qed

lemma scheme_word: "lit ''bearer '' = [98, 101, 97, 114, 101, 114, 32]" by (simp add: lit_def)

lemma trim_start_scheme:
  assumes "spells ''bearer '' scheme"
  shows "trim_start (scheme @ rest) = scheme @ rest"
proof -
  obtain b bs where scheme: "scheme = b # bs" "b = 98 \<or> b = 66"
    using assms by (cases scheme) (simp_all add: spells_def scheme_word capital_def)
  have "list_all (\<lambda>w. hd w \<noteq> 98 \<and> hd w \<noteq> 66) ws_encodings" by code_simp
  then have "\<not> starts_with (scheme @ rest) w" if "w \<in> set ws_encodings" for w
    using that scheme ws_encodings_nonempty [OF that] by (cases w) (auto simp: list_all_iff starts_with_def)
  then have "find (starts_with (scheme @ rest)) ws_encodings = None" by (simp add: find_None_iff)
  then have "ws_prefix_len (scheme @ rest) = 0" by (simp add: ws_prefix_len_def)
  then show ?thesis by (rule trim_start_id)
qed

lemma looks_like_bearer_token_iff: "looks_like_bearer_token v \<longleftrightarrow> bearer_token v"
proof
  have seven: "length (lit ''bearer '') = 7" by (simp add: scheme_word)
  have lower: "spells ''bearer '' s \<longleftrightarrow> eq_ignore_ascii_case s (lit ''bearer '')" for s
    by (subst spells_lower) (simp_all add: eq_ignore_ascii_case_def scheme_word to_ascii_lowercase_def to_lower_byte_def ascii_upper_def)
  {
    assume "looks_like_bearer_token v"
    then have scheme: "spells ''bearer '' (take 7 (trim_start v))" and boundary: "is_char_boundary (trim_start v) 7"
      by (auto simp: looks_like_bearer_token_def lower seven str_get_to_def split: if_splits option.splits)
    obtain blanks where "set blanks \<subseteq> set ws_encodings" "v = concat blanks @ trim_start v" using trim_start_removes by blast
    moreover have "drop 7 (trim_start v) = [] \<or> \<not> utf8_cont (hd (drop 7 (trim_start v)))"
      using boundary by (auto simp: is_char_boundary_def hd_drop_conv_nth)
    ultimately show "bearer_token v" unfolding bearer_token_def using scheme by (metis append_take_drop_id)
  }
  {
    assume "bearer_token v"
    then obtain blanks scheme rest where v: "v = concat blanks @ scheme @ rest" "set blanks \<subseteq> set ws_encodings"
      and scheme: "spells ''bearer '' scheme" and rest: "rest = [] \<or> \<not> utf8_cont (hd rest)"
      unfolding bearer_token_def by blast
    have "length scheme = 7" using scheme by (auto simp: spells_def scheme_word dest: list_all2_lengthD)
    moreover have "trim_start v = scheme @ rest" using v trim_start_blanks trim_start_scheme [OF scheme] by simp
    ultimately show "looks_like_bearer_token v"
      using scheme rest by (auto simp: looks_like_bearer_token_def lower seven str_get_to_def is_char_boundary_def hd_conv_nth nth_append)
  }
qed

definition sensitive_words :: "string list" where
  "sensitive_words = [''authorization'', ''cookie'', ''set-cookie'', ''proxy-authorization'', ''x-api-key'']"

lemma is_sensitive_header_name_iff: "is_sensitive_header_name n \<longleftrightarrow> (\<exists>word\<in>set sensitive_words. spells word n)"
proof -
  have "list_all (\<lambda>b. \<not> ascii_upper b) (lit word)" if "word \<in> set sensitive_words" for word
    using that by (auto simp: sensitive_words_def lit_def ascii_upper_def)
  then show ?thesis
    by (auto simp: is_sensitive_header_name_def sensitive_header_names_def sensitive_words_def spells_lower)
qed

lemma redacted_text_not_bearer: "\<not> looks_like_bearer_token redacted_text"
proof -
  have "trim_start redacted_text = redacted_text"
    by (rule trim_start_id) (simp add: redacted_text_def lit_def ws_prefix_len_def ws_encodings_def
        starts_with_def)
  then show ?thesis
    by (simp add: looks_like_bearer_token_def redacted_text_def lit_def str_get_to_def
        is_char_boundary_def utf8_cont_def eq_ignore_ascii_case_def to_ascii_lowercase_def
        to_lower_byte_def ascii_upper_def)
qed

section \<open>Properties\<close>

text \<open>
  C34: Redaction is complete and minimal: it keeps every header, its name and its position. A value
  becomes the marker exactly when the name spells one of the five words, each letter small or
  capital, or when the value is white space, the word \<open>bearer\<close> with small and capital letters, a blank
  and what follows it; every other value is untouched. So none of the values that are left is such a
  token.
\<close>

theorem redact_headers_complete:
  "map fst (redact_headers hs) = map fst hs
   \<and> map snd (redact_headers hs) =
       map (\<lambda>(name, v). if spells ''authorization'' name \<or> spells ''cookie'' name \<or> spells ''set-cookie'' name
              \<or> spells ''proxy-authorization'' name \<or> spells ''x-api-key'' name \<or> bearer_token v
            then lit ''[REDACTED]'' else v) hs
   \<and> list_all (\<lambda>v. \<not> bearer_token v) (map snd (redact_headers hs))"
proof (intro conjI)
  have one: "snd (redact_header (name, v)) =
      (if spells ''authorization'' name \<or> spells ''cookie'' name \<or> spells ''set-cookie'' name
          \<or> spells ''proxy-authorization'' name \<or> spells ''x-api-key'' name \<or> bearer_token v
       then lit ''[REDACTED]'' else v)" for name v
    by (simp add: redact_header_def is_sensitive_header_name_iff looks_like_bearer_token_iff redacted_text_def
        sensitive_words_def disj_assoc)
  show "map fst (redact_headers hs) = map fst hs"
    by (simp add: redact_headers_def redact_header_def split_def)
  show "map snd (redact_headers hs) = map (\<lambda>(name, v). if spells ''authorization'' name \<or> spells ''cookie'' name
      \<or> spells ''set-cookie'' name \<or> spells ''proxy-authorization'' name \<or> spells ''x-api-key'' name \<or> bearer_token v
      then lit ''[REDACTED]'' else v) hs"
    by (simp add: redact_headers_def one split: prod.splits)
  have "\<not> bearer_token (snd (redact_header h))" for h
    using redacted_text_not_bearer by (auto simp: redact_header_def looks_like_bearer_token_iff split: prod.splits)
  then show "list_all (\<lambda>v. \<not> bearer_token v) (map snd (redact_headers hs))"
    by (simp add: redact_headers_def list_all_iff)
qed

text \<open>A cookie and a bearer token under an unlisted name go, the host stays.\<close>

theorem redact_headers_complete_witness:
  "map snd (redact_headers [(lit ''Cookie'', lit ''a=b''), (lit ''X-Auth'', lit '' BEARER t''), (lit ''Host'', lit ''h'')]) =
     [lit ''[REDACTED]'', lit ''[REDACTED]'', lit ''h'']"
proof -
  have "bearer_token (lit '' BEARER t'')"
    unfolding bearer_token_def
    by (intro exI [of _ "[[32]]"] exI [of _ "lit ''BEARER ''"] exI [of _ "lit ''t''"])
       (simp add: lit_def ws_encodings_def spells_def capital_def utf8_cont_def)
  moreover have "\<not> bearer_token (lit ''h'')"
    unfolding looks_like_bearer_token_iff [symmetric]
    by (simp add: looks_like_bearer_token_def lit_def trim_start_id ws_prefix_len_def
        ws_encodings_def starts_with_def str_get_to_def is_char_boundary_def)
  ultimately show ?thesis
    using redact_headers_complete [of "[(lit ''Cookie'', lit ''a=b''), (lit ''X-Auth'', lit '' BEARER t''), (lit ''Host'', lit ''h'')]"]
    by (simp add: spells_def lit_def capital_def)
qed

end
