(* ===== verification/ReplayClock.thy ===== *)
theory ReplayClock
  imports Prelude
begin

text \<open>
  The replay clock of \<open>reassembly.rs\<close>: the time stream reassembly runs on while a capture
  file is replayed. A \<open>SystemTime\<close> is an \<^typ>\<open>int\<close> and a \<open>Duration\<close> a \<^typ>\<open>nat\<close>, both in
  nanoseconds.
\<close>

record replay_clock =
  latest :: "int option"
  pending_reset :: "int option"
  elapsed :: nat

definition replay_clock_default :: replay_clock where
  "replay_clock_default = \<lparr>latest = None, pending_reset = None, elapsed = 0\<rparr>"

definition replay_reorder_tolerance :: nat where
  "replay_reorder_tolerance = 60 * 10 ^ 9"

definition duration_max :: nat where
  "duration_max = u64_max * 10 ^ 9 + 999999999"

definition dur_sat_add :: "nat \<Rightarrow> nat \<Rightarrow> nat" where
  "dur_sat_add a b = min (a + b) duration_max"

text \<open>\<open>t.duration_since(s)\<close>: the distance forward, or the distance back as the error.\<close>

definition duration_since :: "int \<Rightarrow> int \<Rightarrow> nat + nat" where
  "duration_since t s = (if s \<le> t then Inr (nat (t - s)) else Inl (nat (s - t)))"

definition elapsed_ms :: "replay_clock \<Rightarrow> nat" where
  "elapsed_ms c = min (elapsed c div 10 ^ 6) u64_max"

definition replay_clock_step :: "replay_clock \<Rightarrow> int \<Rightarrow> int \<Rightarrow> replay_clock" where
  "replay_clock_step c t l =
     (case duration_since t l of
        Inr step \<Rightarrow> c\<lparr>pending_reset := None, elapsed := dur_sat_add (elapsed c) step, latest := Some t\<rparr>
      | Inl behind \<Rightarrow>
          if behind \<le> replay_reorder_tolerance then c\<lparr>pending_reset := None\<rparr>
          else (case pending_reset c of
                  None \<Rightarrow> c\<lparr>pending_reset := Some t\<rparr>
                | Some pending \<Rightarrow>
                    (case duration_since t pending of
                       Inr step \<Rightarrow> c\<lparr>pending_reset := None,
                                     elapsed := dur_sat_add (elapsed c) step, latest := Some t\<rparr>
                     | Inl _ \<Rightarrow> c\<lparr>pending_reset := None, latest := Some t\<rparr>)))"

definition replay_clock_now_ms :: "replay_clock \<Rightarrow> int \<Rightarrow> nat \<times> replay_clock" where
  "replay_clock_now_ms c t =
     (case latest c of
        None \<Rightarrow> (0, c\<lparr>latest := Some t\<rparr>)
      | Some l \<Rightarrow> (let c' = replay_clock_step c t l in (elapsed_ms c', c')))"

fun replay_clock_run :: "replay_clock \<Rightarrow> int list \<Rightarrow> nat list" where
  "replay_clock_run c [] = []"
| "replay_clock_run c (t # ts) =
     (let (ms, c') = replay_clock_now_ms c t in ms # replay_clock_run c' ts)"

lemma elapsed_step_mono:
  "elapsed c \<le> duration_max \<Longrightarrow>
   elapsed c \<le> elapsed (replay_clock_step c t l) \<and> elapsed (replay_clock_step c t l) \<le> duration_max"
  by (auto simp: replay_clock_step_def dur_sat_add_def duration_since_def split: option.splits sum.splits)

lemma elapsed_ms_mono: "elapsed c \<le> elapsed c' \<Longrightarrow> elapsed_ms c \<le> elapsed_ms c'"
  unfolding elapsed_ms_def by (intro min.mono div_le_mono order_refl)

definition clock_ok :: "replay_clock \<Rightarrow> bool" where
  "clock_ok c \<longleftrightarrow> elapsed c \<le> duration_max \<and> (latest c = None \<longrightarrow> elapsed c = 0)"

lemma clock_ok_default: "clock_ok replay_clock_default"
  by (simp add: clock_ok_def replay_clock_default_def)

lemma now_ms_mono:
  assumes "clock_ok c" and "replay_clock_now_ms c t = (ms, c')"
  shows "clock_ok c' \<and> elapsed_ms c \<le> ms \<and> ms \<le> elapsed_ms c'"
proof (cases "latest c")
  case None
  with assms show ?thesis
    by (auto simp: replay_clock_now_ms_def clock_ok_def elapsed_ms_def)
next
  case (Some l)
  let ?c = "replay_clock_step c t l"
  have "latest ?c \<noteq> None"
    using Some by (auto simp: replay_clock_step_def split: option.splits sum.splits)
  with Some assms elapsed_step_mono [of c t l] elapsed_ms_mono [of c ?c] show ?thesis
    by (auto simp: replay_clock_now_ms_def clock_ok_def Let_def)
qed

lemma replay_clock_run_sorted_aux:
  "clock_ok c \<Longrightarrow> sorted (replay_clock_run c ts) \<and> (\<forall>ms\<in>set (replay_clock_run c ts). elapsed_ms c \<le> ms)"
proof (induction ts arbitrary: c)
  case (Cons t ts)
  obtain ms c' where s: "replay_clock_now_ms c t = (ms, c')"
    by (cases "replay_clock_now_ms c t")
  from now_ms_mono [OF Cons.prems s] Cons.IH [of c'] s show ?case
    by fastforce
qed simp

lemma replay_clock_run_forward:
  assumes "latest c = Some l" and "sorted (l # ts)"
    and "\<forall>u\<in>set ts. elapsed c + nat (u - l) \<le> duration_max"
  shows "replay_clock_run c ts = map (\<lambda>t. min ((elapsed c + nat (t - l)) div 10 ^ 6) u64_max) ts"
  using assms
proof (induction ts arbitrary: c l)
  case (Cons u ts)
  let ?c = "replay_clock_step c u l"
  have el: "elapsed ?c = elapsed c + nat (u - l)" and la: "latest ?c = Some u"
    using Cons.prems by (simp_all add: replay_clock_step_def duration_since_def dur_sat_add_def)
  have tele: "nat (v - l) = nat (u - l) + nat (v - u)" if "v \<in> set ts" for v
    using that Cons.prems(2) by auto
  have "replay_clock_run ?c ts = map (\<lambda>t. min ((elapsed ?c + nat (t - u)) div 10 ^ 6) u64_max) ts"
    using Cons.prems(2,3) tele by (intro Cons.IH [OF la]) (auto simp: el)
  then have "replay_clock_run ?c ts = map (\<lambda>t. min ((elapsed c + nat (t - l)) div 10 ^ 6) u64_max) ts"
    using tele by (simp add: el add.assoc)
  moreover have "replay_clock_run c (u # ts) = elapsed_ms ?c # replay_clock_run ?c ts"
    using Cons.prems(1) by (simp add: replay_clock_now_ms_def Let_def)
  ultimately show ?case by (simp add: elapsed_ms_def el)
qed simp

section \<open>Properties\<close>

text \<open>
  Whatever timestamps a capture file holds (reordered, reset, corrupt), the replay clock
  never runs backwards: the sequence of values it returns is non-decreasing.
\<close>

lemma replay_clock_never_runs_backwards:
  "sorted (replay_clock_run replay_clock_default ts)"
  using replay_clock_run_sorted_aux [OF clock_ok_default] by blast

text \<open>
  On a file whose timestamps are in order the clock reads recorded time exactly: each value
  is the distance from the first frame, summed at full precision and converted to
  milliseconds once, however many sub-millisecond steps lie between.
\<close>

lemma replay_clock_forward_exact:
  assumes "sorted (t0 # ts)" and "\<forall>u\<in>set ts. nat (u - t0) \<le> duration_max"
  shows "replay_clock_run replay_clock_default (t0 # ts)
       = 0 # map (\<lambda>t. min (nat (t - t0) div 10 ^ 6) u64_max) ts"
  using replay_clock_run_forward [of "replay_clock_default\<lparr>latest := Some t0\<rparr>" t0 ts] assms
  by (simp add: replay_clock_now_ms_def replay_clock_default_def)

lemma replay_clock_forward_exact_witness:
  "replay_clock_run replay_clock_default [10, 400010, 800010, 1200010] = [0, 0, 0, 1]"
  using replay_clock_forward_exact [of 10 "[400010, 800010, 1200010]"]
  by (simp add: duration_max_def u64_max_def)

text \<open>
  A step back is told apart by what follows it. One frame more than the tolerance behind
  the latest one is held pending and charges no time; if the next frame returns to the old
  timeline, time advances exactly by the distance from the old latest frame (one corrupt
  timestamp costs nothing); if the next frame is also that far behind, the clock moves to the
  new timeline and counts only the time the new timeline itself advanced.
\<close>

lemma replay_clock_outlier_or_reset:
  fixes l t u :: int
  assumes "latest c = Some l" and "pending_reset c = None" and "elapsed c \<le> duration_max div 2"
    and "l - t > int replay_reorder_tolerance"
    and "c1 = snd (replay_clock_now_ms c t)" and "c2 = snd (replay_clock_now_ms c1 u)"
    and "\<bar>u - l\<bar> \<le> int (duration_max div 2)" and "\<bar>u - t\<bar> \<le> int (duration_max div 2)"
  shows "elapsed c1 = elapsed c \<and> latest c1 = Some l
    \<and> (l \<le> u \<longrightarrow> elapsed c2 = elapsed c + nat (u - l) \<and> latest c2 = Some u)
    \<and> (l - u > int replay_reorder_tolerance \<longrightarrow>
         elapsed c2 = elapsed c + nat (u - t) \<and> latest c2 = Some u)"
proof -
  have pos: "0 < duration_max" by (simp add: duration_max_def u64_max_def)
  have tl: "\<not> l \<le> t" "\<not> nat (l - t) \<le> replay_reorder_tolerance"
    using assms(4) by auto
  have c1: "c1 = c\<lparr>pending_reset := Some t\<rparr>"
    using assms(1,2) tl
    by (simp add: assms(5) replay_clock_now_ms_def replay_clock_step_def duration_since_def Let_def)
  have c2: "c2 = replay_clock_step c1 u l"
    using assms(1) by (simp add: assms(6) replay_clock_now_ms_def c1 Let_def)
  have "elapsed c + nat (u - l) \<le> duration_max" "elapsed c + nat (u - t) \<le> duration_max"
    using assms(3,7,8) by auto
  then show ?thesis
    using assms(1) unfolding c2
    by (auto simp: c1 replay_clock_step_def duration_since_def dur_sat_add_def)
qed

lemma replay_clock_outlier_or_reset_witness:
  "elapsed (snd (replay_clock_now_ms (snd (replay_clock_now_ms
      \<lparr>latest = Some (200 * 10 ^ 9), pending_reset = None, elapsed = 7\<rparr> (10 ^ 9))) (201 * 10 ^ 9)))
     = 7 + 10 ^ 9"
  using replay_clock_outlier_or_reset
    [of "\<lparr>latest = Some (200 * 10 ^ 9), pending_reset = None, elapsed = 7\<rparr>" "200 * 10 ^ 9" "10 ^ 9"
      _ _ "201 * 10 ^ 9", OF _ _ _ _ refl refl]
  by (simp add: replay_reorder_tolerance_def duration_max_def u64_max_def)

end
