(* ===== verification/RingBuffer.thy ===== *)
theory RingBuffer
  imports Prelude
begin

text \<open>
  \<open>ring_buffer.rs\<close>: the bounded buffer of decrypted content, one per connection. Locking
  pages in memory (\<open>mlock\<close>) has no effect the program can observe and is not modelled; whether
  the probe succeeded is an argument of the constructor. \<open>zeroize\<close> is third-party code: an
  argument of the operations that call it.
\<close>

datatype decryption_direction = ClientToServer | ServerToClient

record decrypted_ring_entry =
  direction :: "decryption_direction option"
  bytes :: "byte rvec"

record decrypted_ring_buffer =
  capacity_bytes :: nat
  used_bytes :: nat
  entries :: "decrypted_ring_entry list"
  mlock_engaged :: bool

definition ring_new :: "bool \<Rightarrow> nat \<Rightarrow> decrypted_ring_buffer" where
  "ring_new probe cap_bytes = \<lparr>capacity_bytes = cap_bytes, used_bytes = 0, entries = [],
     mlock_engaged = probe\<rparr>"

definition evict_oldest ::
  "(byte rvec \<Rightarrow> byte rvec) \<Rightarrow> decrypted_ring_buffer \<Rightarrow> byte rvec option \<times> decrypted_ring_buffer"
where
  "evict_oldest zeroize r =
     (case entries r of
        [] \<Rightarrow> (None, r)
      | oldest # rest \<Rightarrow>
          (Some (zeroize (bytes oldest)),
           r\<lparr>entries := rest, used_bytes := used_bytes r - capacity (bytes oldest)\<rparr>))"

function evict_while_over ::
  "(byte rvec \<Rightarrow> byte rvec) \<Rightarrow> decrypted_ring_buffer \<Rightarrow> decrypted_ring_buffer" where
  "evict_while_over zeroize r =
     (if used_bytes r > capacity_bytes r
      then (case evict_oldest zeroize r of
              (None, r') \<Rightarrow> r'
            | (Some _, r') \<Rightarrow> evict_while_over zeroize r')
      else r)"
  by pat_completeness auto
termination
  by (relation "measure (\<lambda>(z, r). length (entries r))")
     (auto simp: evict_oldest_def split: list.splits)

declare evict_while_over.simps [simp del]

definition push_entry ::
  "(byte rvec \<Rightarrow> byte rvec) \<Rightarrow> decryption_direction option \<Rightarrow> byte rvec \<Rightarrow> decrypted_ring_buffer
    \<Rightarrow> decrypted_ring_buffer"
where
  "push_entry zeroize dir data r =
     evict_while_over zeroize
       (r\<lparr>used_bytes := sat_add (used_bytes r) (capacity data),
          entries := entries r @ [\<lparr>direction = dir, bytes = data\<rparr>]\<rparr>)"

definition ring_push ::
  "(byte rvec \<Rightarrow> byte rvec) \<Rightarrow> byte rvec \<Rightarrow> decrypted_ring_buffer \<Rightarrow> decrypted_ring_buffer" where
  "ring_push zeroize data r = push_entry zeroize None data r"

definition push_for_direction ::
  "(byte rvec \<Rightarrow> byte rvec) \<Rightarrow> decryption_direction \<Rightarrow> byte rvec \<Rightarrow> decrypted_ring_buffer
    \<Rightarrow> decrypted_ring_buffer" where
  "push_for_direction zeroize dir data r = push_entry zeroize (Some dir) data r"

definition drain_since :: "nat \<Rightarrow> decrypted_ring_buffer \<Rightarrow> decrypted_ring_entry list \<times> nat" where
  "drain_since cursor r = (drop (min cursor (length (entries r))) (entries r), length (entries r))"

definition ring_bytes_held :: "decrypted_ring_buffer \<Rightarrow> nat" where
  "ring_bytes_held r = used_bytes r"

function ring_clear ::
  "(byte rvec \<Rightarrow> byte rvec) \<Rightarrow> decrypted_ring_buffer \<Rightarrow> decrypted_ring_buffer" where
  "ring_clear zeroize r =
     (case evict_oldest zeroize r of
        (None, r') \<Rightarrow> r'
      | (Some _, r') \<Rightarrow> ring_clear zeroize r')"
  by pat_completeness auto
termination
  by (relation "measure (\<lambda>(z, r). length (entries r))")
     (auto simp: evict_oldest_def split: list.splits)

declare ring_clear.simps [simp del]

text \<open>What is left of the entries when the buffer goes out of scope.\<close>

definition ring_drop :: "(byte rvec \<Rightarrow> byte rvec) \<Rightarrow> decrypted_ring_buffer \<Rightarrow> decrypted_ring_buffer" where
  "ring_drop zeroize r = r\<lparr>entries := map (\<lambda>e. e\<lparr>bytes := zeroize (bytes e)\<rparr>) (entries r)\<rparr>"

section \<open>The accounting invariant\<close>

definition retained :: "decrypted_ring_entry list \<Rightarrow> nat" where
  "retained es = sum_list (map (\<lambda>e. capacity (bytes e)) es)"

lemma retained_simps [simp]:
  "retained [] = 0"
  "retained (e # es) = capacity (bytes e) + retained es"
  "retained (es @ es') = retained es + retained es'"
  by (simp_all add: retained_def)

definition ring_ok :: "decrypted_ring_buffer \<Rightarrow> bool" where
  "ring_ok r \<longleftrightarrow> used_bytes r = retained (entries r) \<and> used_bytes r \<le> capacity_bytes r"

text \<open>
  Eviction stops at the first suffix that fits: the ring after a push is the longest suffix
  of the entries, newest last, whose capacities fit the budget.
\<close>

fun fitting_suffix :: "nat \<Rightarrow> decrypted_ring_entry list \<Rightarrow> decrypted_ring_entry list" where
  "fitting_suffix cap [] = []"
| "fitting_suffix cap (e # es) = (if retained (e # es) \<le> cap then e # es else fitting_suffix cap es)"

lemma fitting_suffix_retained: "retained (fitting_suffix cap es) \<le> cap"
  by (induction es) auto

lemma fitting_suffix_id: "retained es \<le> cap \<Longrightarrow> fitting_suffix cap es = es"
  by (cases es) auto

lemma fitting_suffix_suffix: "\<exists>pre. es = pre @ fitting_suffix cap es"
proof (induction es)
  case (Cons e es)
  then obtain pre where "es = pre @ fitting_suffix cap es" by blast
  then have "e # es = (e # pre) @ fitting_suffix cap es" by simp
  then show ?case by (metis append_Nil fitting_suffix.simps(2))
qed simp

lemma evict_while_over_eq:
  assumes "used_bytes r = retained (entries r)"
  shows "evict_while_over z r =
    r\<lparr>entries := fitting_suffix (capacity_bytes r) (entries r),
      used_bytes := retained (fitting_suffix (capacity_bytes r) (entries r))\<rparr>"
  using assms
proof (induction z r rule: evict_while_over.induct)
  case (1 z r)
  show ?case
  proof (cases "entries r")
    case Nil
    with 1 show ?thesis
      by (subst evict_while_over.simps) simp
  next
    case (Cons e es)
    let ?r = "r\<lparr>entries := es, used_bytes := used_bytes r - capacity (bytes e)\<rparr>"
    show ?thesis
    proof (cases "used_bytes r > capacity_bytes r")
      case True
      have ev: "evict_oldest z r = (Some (z (bytes e)), ?r)"
        by (simp add: evict_oldest_def Cons)
      have "used_bytes ?r = retained (entries ?r)"
        using "1.prems" Cons by simp
      with "1.IH" [OF True ev [symmetric] refl] True Cons ev "1.prems" show ?thesis
        by (subst evict_while_over.simps) simp
    next
      case False
      with "1.prems" show ?thesis
        by (subst evict_while_over.simps) (simp add: fitting_suffix_id)
    qed
  qed
qed

lemma push_entry_eq:
  assumes "ring_ok r" and "capacity_bytes r + capacity data \<le> usize_max"
  shows "push_entry z dir data r =
    r\<lparr>entries := fitting_suffix (capacity_bytes r) (entries r @ [\<lparr>direction = dir, bytes = data\<rparr>]),
      used_bytes := retained (fitting_suffix (capacity_bytes r)
                      (entries r @ [\<lparr>direction = dir, bytes = data\<rparr>]))\<rparr>"
proof -
  have "sat_add (used_bytes r) (capacity data) = used_bytes r + capacity data"
    using assms by (intro sat_add_exact) (simp add: ring_ok_def)
  with assms show ?thesis
    by (simp add: push_entry_def evict_while_over_eq ring_ok_def)
qed

lemma ring_clear_entries: "entries (ring_clear z r) = []"
proof (induction z r rule: ring_clear.induct)
  case (1 z r)
  then show ?case
    by (subst ring_clear.simps) (auto simp: evict_oldest_def split: list.splits)
qed

lemma ring_clear_used: "used_bytes r = retained (entries r) \<Longrightarrow> used_bytes (ring_clear z r) = 0"
proof (induction z r rule: ring_clear.induct)
  case (1 z r)
  then show ?case
    by (subst ring_clear.simps) (auto simp: evict_oldest_def split: list.splits)
qed

section \<open>Properties\<close>

text \<open>
  A push keeps the ring's accounting exact and within its capacity: the bytes held equal
  the capacities retained and never exceed the configured capacity; what remains is the
  longest run of newest entries that fits, so nothing newer than a kept entry is lost.
\<close>

lemma ring_push_bounded:
  assumes "ring_ok r" and "capacity_bytes r + capacity data \<le> usize_max"
  shows "ring_ok (push_entry z dir data r)
    \<and> ring_bytes_held (push_entry z dir data r) \<le> capacity_bytes r
    \<and> entries (push_entry z dir data r)
        = fitting_suffix (capacity_bytes r) (entries r @ [\<lparr>direction = dir, bytes = data\<rparr>])"
  by (simp add: push_entry_eq [OF assms] ring_ok_def ring_bytes_held_def fitting_suffix_retained)

lemma ring_push_bounded_witness:
  "ring_bytes_held (push_entry id None (vec_filled 2 7)
     (push_entry id None (vec_filled 5 1) (ring_new True 6))) \<le> 6"
proof -
  have ok: "ring_ok (ring_new True 6)"
    by (simp add: ring_ok_def ring_new_def)
  have one: "ring_ok (push_entry id None (vec_filled 5 1) (ring_new True 6))"
    and cap: "capacity_bytes (push_entry id None (vec_filled 5 1) (ring_new True 6)) = 6"
    using ring_push_bounded [OF ok, of "vec_filled 5 1" id None] push_entry_eq [OF ok, of "vec_filled 5 1" id None]
    by (simp_all add: ring_new_def vec_simps usize_max_def)
  show ?thesis
    using ring_push_bounded [OF one, of "vec_filled 2 7" id None] cap
    by (simp add: vec_simps usize_max_def)
qed

text \<open>
  Whatever leaves the ring is wiped: if the zeroizing primitive leaves only zero bytes, the
  buffer \<open>evict_oldest\<close> hands back holds no plaintext byte; and \<open>clear\<close> leaves no entry and
  no accounted byte behind.
\<close>

lemma ring_evicts_zeroized:
  assumes "\<And>v. \<forall>b\<in>set (elems (zeroize v)). b = 0" and "ring_ok r"
  shows "(\<forall>v. fst (evict_oldest zeroize r) = Some v \<longrightarrow> (\<forall>b\<in>set (elems v). b = 0))
    \<and> (fst (evict_oldest zeroize r) = None \<longleftrightarrow> entries r = [])
    \<and> entries (ring_clear zeroize r) = [] \<and> ring_bytes_held (ring_clear zeroize r) = 0"
  using assms ring_clear_used [of r zeroize]
  by (auto simp: evict_oldest_def ring_clear_entries ring_ok_def ring_bytes_held_def split: list.splits)

lemma ring_evicts_zeroized_witness:
  "ring_bytes_held (ring_clear (\<lambda>v. v\<lparr>elems := map (\<lambda>_. 0) (elems v)\<rparr>) (ring_new False 10)) = 0"
proof -
  have z: "\<And>v :: byte rvec. \<forall>b\<in>set (elems (v\<lparr>elems := map (\<lambda>_. 0) (elems v)\<rparr>)). b = 0"
    by auto
  have ok: "ring_ok (ring_new False 10)"
    by (simp add: ring_ok_def ring_new_def)
  show ?thesis
    using ring_evicts_zeroized [OF z ok] by simp
qed

end
