(* ===== verification/IpText.thy ===== *)
theory IpText
  imports RustStr
begin

text \<open>
  Display forms of addresses and bytes from the standard library: dotted IPv4, IPv6 with its
  longest zero run compressed, hexadecimal bytes; and the parsing of dotted IPv4 addresses.
\<close>

definition ipv4_to_string :: "byte list \<Rightarrow> rstring" where
  "ipv4_to_string octets = join_with (lit ''.'') (map (\<lambda>b. show_nat (unat b)) octets)"

text \<open>
  \<open>str::parse::<Ipv4Addr>\<close>: four decimal octets of at most three digits each, without leading zeros.
\<close>

definition parse_octet :: "rstring \<Rightarrow> byte option" where
  "parse_octet s =
     (if s = [] \<or> 3 < length s \<or> \<not> list_all ascii_digit s \<or> (1 < length s \<and> hd s = 0x30) then None
      else let n = read_digits 0 s in if n < 256 then Some (of_nat n) else None)"

definition parse_ipv4 :: "rstring \<Rightarrow> byte list option" where
  "parse_ipv4 s =
     (let parts = map parse_octet (split_byte 0x2E s)
      in if length parts = 4 \<and> None \<notin> set parts then Some (map the parts) else None)"

definition hex_digit :: "nat \<Rightarrow> byte" where
  "hex_digit n = (if n < 10 then of_nat (48 + n) else of_nat (87 + n))"

fun show_hex :: "nat \<Rightarrow> rstring" where
  "show_hex n = (if n < 16 then [hex_digit n] else show_hex (n div 16) @ [hex_digit (n mod 16)])"

declare show_hex.simps [simp del]

definition hex_byte :: "byte \<Rightarrow> rstring" where
  "hex_byte b = [hex_digit (unat b div 16), hex_digit (unat b mod 16)]"

fun segments_of :: "byte list \<Rightarrow> nat list" where
  "segments_of (hi # lo # rest) = u16_be hi lo # segments_of rest"
| "segments_of _ = []"

text \<open>The longest run of zero segments, the first one on a tie: \<open>(start, length)\<close>.\<close>

fun longest_zero_run :: "nat \<Rightarrow> nat list \<Rightarrow> nat \<times> nat \<Rightarrow> nat \<times> nat \<Rightarrow> nat \<times> nat" where
  "longest_zero_run i [] current longest = longest"
| "longest_zero_run i (s # ss) current longest =
     (if s = 0 then
        let cur = ((if snd current = 0 then i else fst current), Suc (snd current))
        in longest_zero_run (Suc i) ss cur (if snd cur > snd longest then cur else longest)
      else longest_zero_run (Suc i) ss (0, 0) longest)"

definition fmt_segments :: "nat list \<Rightarrow> rstring" where
  "fmt_segments ss = join_with (lit '':'') (map show_hex ss)"

definition ipv6_to_string :: "byte list \<Rightarrow> rstring" where
  "ipv6_to_string octets =
     (if take 12 octets = replicate 10 0 @ [0xFF, 0xFF]
      then lit ''::ffff:'' @ ipv4_to_string (drop 12 octets)
      else let ss = segments_of octets; (start, len) = longest_zero_run 0 ss (0, 0) (0, 0)
           in if len > 1
              then fmt_segments (take start ss) @ lit ''::'' @ fmt_segments (drop (start + len) ss)
              else fmt_segments ss)"

end
