(* ===== verification/Packet.thy ===== *)
theory Packet
  imports IpText
begin

text \<open>
  \<open>parse.rs\<close>: classification of captured frames and the \<open>ParsedPacket\<close> the rest of the agent
  works on. The header decoding itself is done by the third-party crate etherparse: its two
  entry points are the fields of the parameter \<open>etherparse\<close>, and \<open>sliced_packet\<close> is the view of
  its result that \<open>parse.rs\<close> reads (one field per accessor it calls).
\<close>

section \<open>The view of etherparse\<close>

record ipv4_slice =
  v4_header :: "byte list"
  v4_auth :: "byte list option"
  v4_total_len :: nat
  v4_fragments_offset :: nat
  v4_more_fragments :: bool
  v4_identification :: nat
  v4_protocol :: nat
  v4_source :: "byte list"
  v4_destination :: "byte list"
  v4_ttl :: nat
  v4_checksum :: nat
  v4_payload :: "byte list"

record ipv6_slice =
  v6_header :: "byte list"
  v6_extensions :: "byte list"
  v6_payload_length :: nat
  v6_source :: "byte list"
  v6_destination :: "byte list"
  v6_hop_limit :: nat

record arp_slice =
  arp_hw_addr_size :: nat
  arp_proto_addr_size :: nat
  arp_hw_addr_type :: nat
  arp_proto_addr_type :: nat

datatype net_slice = Ipv4Net ipv4_slice | Ipv6Net ipv6_slice | ArpNet arp_slice

record tcp_slice =
  ts_source_port :: nat
  ts_destination_port :: nat
  ts_syn :: bool
  ts_ack :: bool
  ts_fin :: bool
  ts_rst :: bool
  ts_window_size :: nat
  ts_acknowledgment_number :: u32
  ts_sequence_number :: u32
  ts_payload :: "byte list"
  ts_header :: "byte list"

record udp_slice =
  us_source_port :: nat
  us_destination_port :: nat
  us_payload :: "byte list"
  us_header :: "byte list"

datatype transport_slice =
  TcpTransport tcp_slice | UdpTransport udp_slice | Icmpv4Transport | Icmpv6Transport

datatype link_slice = Ethernet2 "byte list" "byte list" | OtherLink

datatype link_ext_slice = VlanExt nat | MacsecExt bool bool

record sliced_packet =
  sl_link :: "link_slice option"
  sl_link_exts :: "link_ext_slice list"
  sl_net :: "net_slice option"
  sl_transport :: "transport_slice option"
  sl_payload_ether_type :: "nat option"
  sl_ether_payload :: "(nat \<times> byte list) option"

record etherparse =
  ep_from_ethernet :: "byte list \<Rightarrow> sliced_packet option"
  ep_from_ip :: "byte list \<Rightarrow> sliced_packet option"

section \<open>Parsed packets\<close>

datatype link_type = Ethernet | NullLoopback | RawIp

datatype transport_protocol = Tcp | Udp | Icmp | OtherProtocol

record tcp_flags =
  tf_syn :: bool
  tf_ack :: bool
  tf_fin :: bool
  tf_rst :: bool
  tf_window_size :: nat
  tf_ack_number :: u32

record ipv4_fragment =
  if_identification :: nat
  if_offset_bytes :: nat
  if_more_fragments :: bool
  if_protocol :: nat
  if_header :: "byte list"
  if_payload :: "byte list"

record parsed_packet =
  pp_src_mac :: rstring
  pp_dst_mac :: rstring
  pp_src_ip :: rstring
  pp_dst_ip :: rstring
  pp_protocol :: transport_protocol
  pp_src_port :: "nat option"
  pp_dst_port :: "nat option"
  pp_tcp_flags :: "tcp_flags option"
  pp_seq :: "u32 option"
  pp_ttl :: nat
  pp_total_len :: nat
  pp_payload :: "byte list"
  pp_header_bytes :: "byte list"
  pp_ip_header_len :: nat
  pp_transport_header_len :: nat
  pp_ip_version :: nat
  pp_ip_checksum :: "nat option"
  pp_vlan_tag :: "rstring option"
  pp_ip_declared_payload_len :: nat
  pp_ip_fragment :: "ipv4_fragment option"

datatype parse_failure = Malformed | UnsupportedNonIp

definition mac_to_string :: "byte list \<Rightarrow> rstring" where
  "mac_to_string mac = join_with (lit '':'') (map hex_byte mac)"

definition no_mac :: rstring where
  "no_mac = lit ''00:00:00:00:00:00''"

definition null_loopback_header_len :: nat where
  "null_loopback_header_len = 4"

definition u32_cast :: "nat \<Rightarrow> nat" where
  "u32_cast n = n mod 2 ^ 32"

definition u16_cast :: "nat \<Rightarrow> nat" where
  "u16_cast n = n mod 2 ^ 16"

text \<open>The network-layer half of \<open>build_parsed_packet\<close>.\<close>

record net_view =
  nv_src_ip :: rstring
  nv_dst_ip :: rstring
  nv_ttl :: nat
  nv_ip_version :: nat
  nv_ip_checksum :: "nat option"
  nv_ip_header_len :: nat
  nv_declared_payload_len :: nat
  nv_fragment :: "ipv4_fragment option"

definition ipv4_view :: "ipv4_slice \<Rightarrow> net_view" where
  "ipv4_view s =
     (let auth_len = (case v4_auth s of None \<Rightarrow> 0 | Some a \<Rightarrow> length a);
          ip_header_len = u32_cast (length (v4_header s) + auth_len);
          offset_bytes = v4_fragments_offset s * 8;
          is_fragment = (v4_more_fragments s \<or> offset_bytes \<noteq> 0)
      in \<lparr>nv_src_ip = ipv4_to_string (v4_source s), nv_dst_ip = ipv4_to_string (v4_destination s),
          nv_ttl = v4_ttl s, nv_ip_version = 4, nv_ip_checksum = Some (v4_checksum s),
          nv_ip_header_len = ip_header_len,
          nv_declared_payload_len = v4_total_len s - ip_header_len,
          nv_fragment =
            (if is_fragment \<and> auth_len = 0
             then Some \<lparr>if_identification = v4_identification s, if_offset_bytes = offset_bytes,
                        if_more_fragments = v4_more_fragments s, if_protocol = v4_protocol s,
                        if_header = v4_header s, if_payload = v4_payload s\<rparr>
             else None)\<rparr>)"

definition ipv6_view :: "ipv6_slice \<Rightarrow> net_view" where
  "ipv6_view s =
     (let exts_len = u32_cast (length (v6_extensions s))
      in \<lparr>nv_src_ip = ipv6_to_string (v6_source s), nv_dst_ip = ipv6_to_string (v6_destination s),
          nv_ttl = v6_hop_limit s, nv_ip_version = 6, nv_ip_checksum = None,
          nv_ip_header_len = u32_cast (length (v6_header s)) + exts_len,
          nv_declared_payload_len = v6_payload_length s - exts_len,
          nv_fragment = None\<rparr>)"

fun net_layer :: "net_slice option \<Rightarrow> net_view option" where
  "net_layer (Some (Ipv4Net s)) = Some (ipv4_view s)"
| "net_layer (Some (Ipv6Net s)) = Some (ipv6_view s)"
| "net_layer _ = None"

record transport_view =
  tv_protocol :: transport_protocol
  tv_src_port :: "nat option"
  tv_dst_port :: "nat option"
  tv_tcp_flags :: "tcp_flags option"
  tv_seq :: "u32 option"
  tv_payload :: "byte list"
  tv_header_len :: nat

definition bare_transport :: "transport_protocol \<Rightarrow> transport_view" where
  "bare_transport p = \<lparr>tv_protocol = p, tv_src_port = None, tv_dst_port = None,
     tv_tcp_flags = None, tv_seq = None, tv_payload = [], tv_header_len = 0\<rparr>"

fun transport_layer :: "transport_slice option \<Rightarrow> transport_view" where
  "transport_layer (Some (TcpTransport t)) =
     \<lparr>tv_protocol = Tcp, tv_src_port = Some (ts_source_port t),
      tv_dst_port = Some (ts_destination_port t),
      tv_tcp_flags = Some \<lparr>tf_syn = ts_syn t, tf_ack = ts_ack t, tf_fin = ts_fin t,
        tf_rst = ts_rst t, tf_window_size = ts_window_size t,
        tf_ack_number = ts_acknowledgment_number t\<rparr>,
      tv_seq = Some (ts_sequence_number t), tv_payload = ts_payload t,
      tv_header_len = u32_cast (length (ts_header t))\<rparr>"
| "transport_layer (Some (UdpTransport u)) =
     \<lparr>tv_protocol = Udp, tv_src_port = Some (us_source_port u),
      tv_dst_port = Some (us_destination_port u), tv_tcp_flags = None, tv_seq = None,
      tv_payload = us_payload u, tv_header_len = u32_cast (length (us_header u))\<rparr>"
| "transport_layer (Some Icmpv4Transport) = bare_transport Icmp"
| "transport_layer (Some Icmpv6Transport) = bare_transport Icmp"
| "transport_layer None = bare_transport OtherProtocol"

text \<open>
  \<open>header_bytes\<close> is the frame up to the payload. The payload is a suffix of the frame that
  etherparse sliced, so the source's subtraction of lengths does not underflow.
\<close>

definition build_parsed_packet ::
  "sliced_packet \<Rightarrow> rstring \<Rightarrow> rstring \<Rightarrow> rstring option \<Rightarrow> byte list \<Rightarrow> parsed_packet option" where
  "build_parsed_packet sliced src_mac dst_mac vlan_tag frame_data =
     (case net_layer (sl_net sliced) of
        None \<Rightarrow> None
      | Some n \<Rightarrow>
          let t = transport_layer (sl_transport sliced) in
          Some \<lparr>pp_src_mac = src_mac, pp_dst_mac = dst_mac, pp_src_ip = nv_src_ip n,
             pp_dst_ip = nv_dst_ip n, pp_protocol = tv_protocol t, pp_src_port = tv_src_port t,
             pp_dst_port = tv_dst_port t, pp_tcp_flags = tv_tcp_flags t, pp_seq = tv_seq t,
             pp_ttl = nv_ttl n, pp_total_len = u16_cast (length frame_data),
             pp_payload = tv_payload t,
             pp_header_bytes = take (length frame_data - length (tv_payload t)) frame_data,
             pp_ip_header_len = nv_ip_header_len n, pp_transport_header_len = tv_header_len t,
             pp_ip_version = nv_ip_version n, pp_ip_checksum = nv_ip_checksum n,
             pp_vlan_tag = vlan_tag, pp_ip_declared_payload_len = nv_declared_payload_len n,
             pp_ip_fragment = nv_fragment n\<rparr>)"

section \<open>Classification of frames that are not IP\<close>

definition decoder_known_ether_types :: "nat list" where
  "decoder_known_ether_types = [0x8100, 0x88A8, 0x9100, 0x88E5, 0x0800, 0x86DD, 0x0806]"

definition ip_carrying_encapsulations :: "nat list" where
  "ip_carrying_encapsulations = [0x8864, 0x8847, 0x8848, 0x88E7, 0x893F]"

fun opaque_macsec :: "link_ext_slice \<Rightarrow> bool" where
  "opaque_macsec (MacsecExt encrypted userdata_changed) = (encrypted \<or> userdata_changed)"
| "opaque_macsec (VlanExt _) = False"

definition ether_type_in :: "sliced_packet \<Rightarrow> nat list \<Rightarrow> bool" where
  "ether_type_in sliced kinds =
     (case sl_payload_ether_type sliced of None \<Rightarrow> False | Some kind \<Rightarrow> kind \<in> set kinds)"

definition snap_wraps_ip :: "byte list \<Rightarrow> bool" where
  "snap_wraps_ip p \<longleftrightarrow>
     8 \<le> length p \<and> take 5 p = [0xAA, 0xAA, 0x03, 0x00, 0x00] \<and> (p ! 5 = 0x00 \<or> p ! 5 = 0xF8)
     \<and> (u16_be (p ! 6) (p ! 7) = 0x0800 \<or> u16_be (p ! 6) (p ! 7) = 0x86DD)"

definition bad_ether_payload :: "(nat \<times> byte list) option \<Rightarrow> bool" where
  "bad_ether_payload ep =
     (case ep of
        None \<Rightarrow> False
      | Some (kind, p) \<Rightarrow>
          (kind \<le> 1500 \<and> length p < kind) \<or> (1501 \<le> kind \<and> kind \<le> 1535)
          \<or> (kind \<le> 1500 \<and> snap_wraps_ip p))"

definition inconsistent_arp :: "net_slice option \<Rightarrow> bool" where
  "inconsistent_arp n =
     (case n of
        Some (ArpNet a) \<Rightarrow>
          arp_hw_addr_size a = 0 \<or> arp_proto_addr_size a = 0
          \<or> (arp_hw_addr_type a = 1 \<and> arp_hw_addr_size a \<noteq> 6)
          \<or> (arp_proto_addr_type a = 0x0800 \<and> arp_proto_addr_size a \<noteq> 4)
      | _ \<Rightarrow> False)"

definition classify_non_ip :: "sliced_packet \<Rightarrow> parse_failure" where
  "classify_non_ip sliced =
     (if \<exists>ext\<in>set (sl_link_exts sliced). opaque_macsec ext then Malformed
      else if ether_type_in sliced decoder_known_ether_types then Malformed
      else if ether_type_in sliced ip_carrying_encapsulations then Malformed
      else if bad_ether_payload (sl_ether_payload sliced) then Malformed
      else if inconsistent_arp (sl_net sliced) then Malformed
      else UnsupportedNonIp)"

fun is_ip_net :: "net_slice option \<Rightarrow> bool" where
  "is_ip_net (Some (Ipv4Net _)) = True"
| "is_ip_net (Some (Ipv6Net _)) = True"
| "is_ip_net _ = False"

fun first_vlan :: "link_ext_slice list \<Rightarrow> rstring option" where
  "first_vlan [] = None"
| "first_vlan (VlanExt i # _) = Some (show_nat i)"
| "first_vlan (MacsecExt _ _ # exts) = first_vlan exts"

definition ok_or :: "'a option \<Rightarrow> 'e \<Rightarrow> 'e + 'a" where
  "ok_or x e = (case x of None \<Rightarrow> Inl e | Some v \<Rightarrow> Inr v)"

definition parse_ip :: "etherparse \<Rightarrow> byte list \<Rightarrow> parse_failure + parsed_packet" where
  "parse_ip ep ip_data =
     (case ep_from_ip ep ip_data of
        None \<Rightarrow> Inl Malformed
      | Some sliced \<Rightarrow> ok_or (build_parsed_packet sliced no_mac no_mac None ip_data) Malformed)"

definition parse_packet_result ::
  "etherparse \<Rightarrow> byte list \<Rightarrow> link_type \<Rightarrow> parse_failure + parsed_packet" where
  "parse_packet_result ep data link_type =
     (case link_type of
        Ethernet \<Rightarrow>
          (case ep_from_ethernet ep data of
             None \<Rightarrow> Inl Malformed
           | Some sliced \<Rightarrow>
               if \<not> is_ip_net (sl_net sliced) then Inl (classify_non_ip sliced)
               else (case sl_link sliced of
                       Some (Ethernet2 src dst) \<Rightarrow>
                         ok_or (build_parsed_packet sliced (mac_to_string src) (mac_to_string dst)
                                  (first_vlan (sl_link_exts sliced)) data) Malformed
                     | _ \<Rightarrow> Inl Malformed))
      | NullLoopback \<Rightarrow>
          (case slice_get data null_loopback_header_len (length data) of
             None \<Rightarrow> Inl Malformed
           | Some ip_data \<Rightarrow> parse_ip ep ip_data)
      | RawIp \<Rightarrow> parse_ip ep data)"

definition parse_packet :: "etherparse \<Rightarrow> byte list \<Rightarrow> link_type \<Rightarrow> parsed_packet option" where
  "parse_packet ep data link_type =
     (case parse_packet_result ep data link_type of Inl _ \<Rightarrow> None | Inr p \<Rightarrow> Some p)"

section \<open>Lemmas\<close>

lemma build_parsed_packet_fragment:
  assumes "build_parsed_packet sliced src dst vlan frame = Some p"
    and "pp_ip_fragment p = Some f"
  obtains s where "sl_net sliced = Some (Ipv4Net s)" and "v4_auth s = None \<or> v4_auth s = Some []"
    and "f = \<lparr>if_identification = v4_identification s, if_offset_bytes = v4_fragments_offset s * 8,
              if_more_fragments = v4_more_fragments s, if_protocol = v4_protocol s,
              if_header = v4_header s, if_payload = v4_payload s\<rparr>"
    and "v4_more_fragments s \<or> v4_fragments_offset s \<noteq> 0"
  using assms
  by (cases "sl_net sliced" rule: net_layer.cases)
     (auto simp: build_parsed_packet_def Let_def ipv4_view_def ipv6_view_def
       split: if_splits option.splits)

lemma build_parsed_packet_not_fragment:
  assumes "build_parsed_packet sliced src dst vlan frame = Some p"
    and "sl_net sliced = Some (Ipv4Net s)" and "\<not> v4_more_fragments s" and "v4_fragments_offset s = 0"
  shows "pp_ip_fragment p = None"
  using assms by (auto simp: build_parsed_packet_def Let_def ipv4_view_def split: option.splits)

lemma parse_packet_Some: "parse_packet ep d lt = Some p \<longleftrightarrow> parse_packet_result ep d lt = Inr p"
  by (auto simp: parse_packet_def split: sum.splits)

lemma parse_ip_failure: "parse_ip ep d = Inl e \<Longrightarrow> e = Malformed"
  by (auto simp: parse_ip_def ok_or_def split: option.splits)

section \<open>Properties\<close>

text \<open>
  A frame that may carry IP traffic is never dismissed as unsupported. When the parser
  reports \<open>UnsupportedNonIp\<close>, the link is Ethernet, etherparse decoded the frame, its network
  layer is not IP, no MACsec layer hides its payload, its innermost EtherType is neither one
  the decoder knows (IPv4 and IPv6 among them) nor an encapsulation that can carry IP, and an
  802.3 payload is whole and does not wrap IP in SNAP.
\<close>

lemma unsupported_never_hides_ip:
  assumes "parse_packet_result ep data lt = Inl UnsupportedNonIp"
  shows "lt = Ethernet \<and> (\<exists>sliced. ep_from_ethernet ep data = Some sliced
    \<and> \<not> is_ip_net (sl_net sliced)
    \<and> (\<forall>ext\<in>set (sl_link_exts sliced). \<not> opaque_macsec ext)
    \<and> (\<forall>kind. sl_payload_ether_type sliced = Some kind \<longrightarrow>
         kind \<notin> {0x0800, 0x86DD, 0x8864, 0x8847, 0x8848, 0x88E7, 0x893F})
    \<and> (\<forall>kind p. sl_ether_payload sliced = Some (kind, p) \<longrightarrow>
         kind \<le> 1500 \<longrightarrow> kind \<le> length p \<and> \<not> snap_wraps_ip p))"
proof (cases lt)
  case Ethernet
  with assms obtain sliced where "ep_from_ethernet ep data = Some sliced"
    and "\<not> is_ip_net (sl_net sliced)" and "classify_non_ip sliced = UnsupportedNonIp"
    by (auto simp: parse_packet_result_def ok_or_def
        split: option.splits if_splits link_slice.splits)
  with Ethernet show ?thesis
    by (auto simp: classify_non_ip_def ether_type_in_def decoder_known_ether_types_def
        ip_carrying_encapsulations_def bad_ether_payload_def split: if_splits)
next
  case NullLoopback
  with assms show ?thesis
    by (auto simp: parse_packet_result_def dest: parse_ip_failure split: option.splits)
next
  case RawIp
  with assms show ?thesis
    by (auto simp: parse_packet_result_def dest: parse_ip_failure)
qed

lemma unsupported_never_hides_ip_witness:
  "\<exists>ep. parse_packet_result ep [] Ethernet = Inl UnsupportedNonIp \<and>
     (\<exists>sliced. ep_from_ethernet ep [] = Some sliced \<and> \<not> is_ip_net (sl_net sliced))"
proof -
  define sl where "sl = \<lparr>sl_link = None, sl_link_exts = [], sl_net = None, sl_transport = None,
    sl_payload_ether_type = Some 0x88CC, sl_ether_payload = Some (0x88CC, [])\<rparr>"
  define ep where "ep = \<lparr>ep_from_ethernet = (\<lambda>_. Some sl), ep_from_ip = (\<lambda>_. None)\<rparr>"
  have "parse_packet_result ep [] Ethernet = Inl UnsupportedNonIp"
    by (simp add: parse_packet_result_def ep_def sl_def classify_non_ip_def ether_type_in_def
        decoder_known_ether_types_def ip_carrying_encapsulations_def bad_ether_payload_def
        inconsistent_arp_def)
  from this unsupported_never_hides_ip [OF this] show ?thesis by blast
qed

text \<open>
  The loopback framing is exactly a four-byte header in front of raw IP: whatever the four
  bytes are, the result is that of the raw parse of the rest, and a shorter frame is malformed.
\<close>

lemma loopback_is_raw_after_header:
  "parse_packet_result ep (h @ d) NullLoopback =
     (if length h = 4 then parse_packet_result ep d RawIp
      else if length (h @ d) < 4 then Inl Malformed
      else parse_packet_result ep (drop 4 (h @ d)) RawIp)"
  by (auto simp: parse_packet_result_def null_loopback_header_len_def slice_get_def)

end
