(* ===== verification/FragmentReassembly.thy ===== *)
theory FragmentReassembly
  imports Packet Coverage Eviction
begin

text \<open>
  The IPv4 fragment reassembler of \<open>reassembly.rs\<close>: fragment groups keyed by RFC 791's
  reassembly key, bounded by a per-group cap, a group count and a total byte ceiling. The
  rebuilding of a header is etherparse's; its operations are the fields of \<open>ipv4_codec\<close>.
\<close>

section \<open>Rebuilding a datagram\<close>

record 'h ipv4_codec =
  ch_from_slice :: "byte list \<Rightarrow> 'h option"
  ch_set_more_fragments :: "bool \<Rightarrow> 'h \<Rightarrow> 'h"
  ch_set_fragment_offset :: "nat \<Rightarrow> 'h \<Rightarrow> 'h option"
  ch_set_payload_len :: "nat \<Rightarrow> 'h \<Rightarrow> 'h option"
  ch_refresh_checksum :: "'h \<Rightarrow> 'h"
  ch_write :: "'h \<Rightarrow> byte list option"

definition rebuild_ipv4_datagram :: "'h ipv4_codec \<Rightarrow> byte list \<Rightarrow> byte list \<Rightarrow> byte list option" where
  "rebuild_ipv4_datagram cd header payload =
     Option.bind (ch_from_slice cd header) (\<lambda>h0.
     Option.bind (ch_set_fragment_offset cd 0 (ch_set_more_fragments cd False h0)) (\<lambda>h1.
     Option.bind (ch_set_payload_len cd (length payload) h1) (\<lambda>h2.
     Option.bind (ch_write cd (ch_refresh_checksum cd h2)) (\<lambda>out.
     Some (out @ payload)))))"

section \<open>State\<close>

definition max_fragment_group_bytes :: nat where "max_fragment_group_bytes = 65535"
definition max_fragment_groups :: nat where "max_fragment_groups = 512"
definition max_fragment_bytes_total :: nat where "max_fragment_bytes_total = 4 * 1024 * 1024"
definition fragment_timeout_ms :: nat where "fragment_timeout_ms = 15000"

record fragment_key =
  fk_src :: rstring
  fk_dst :: rstring
  fk_identification :: nat
  fk_protocol :: nat

record reassembled_datagram =
  rd_bytes :: "byte list"
  rd_status :: reassembly_status
  rd_payload_len :: nat

record fragment_group =
  fg_data :: "byte rvec"
  fg_filled :: "bool rvec"
  fg_prefix_len :: nat
  fg_total_len :: "nat option"
  fg_header :: "byte list option"
  fg_short_captured_at :: "nat option"
  fg_first_seen_ms :: nat
  fg_last_seen_ms :: nat

definition fragment_group_new :: "nat \<Rightarrow> fragment_group" where
  "fragment_group_new now_ms = \<lparr>fg_data = vec_new, fg_filled = vec_new, fg_prefix_len = 0,
     fg_total_len = None, fg_header = None, fg_short_captured_at = None,
     fg_first_seen_ms = now_ms, fg_last_seen_ms = now_ms\<rparr>"

definition fg_is_expired :: "fragment_group \<Rightarrow> nat \<Rightarrow> bool" where
  "fg_is_expired g now_ms \<longleftrightarrow>
     now_ms - fg_last_seen_ms g > fragment_timeout_ms \<or> now_ms - fg_first_seen_ms g > fragment_timeout_ms"

definition fg_accounted_bytes :: "fragment_group \<Rightarrow> nat" where
  "fg_accounted_bytes g = sat_add (capacity (fg_data g)) (capacity (fg_filled g))"

definition fg_status :: "fragment_group \<Rightarrow> reassembly_status" where
  "fg_status g =
     (if (case fg_total_len g of None \<Rightarrow> False | Some tot \<Rightarrow> fg_prefix_len g \<ge> tot) then Reassembled
      else if (case fg_short_captured_at g of None \<Rightarrow> False | Some at \<Rightarrow> at \<le> fg_prefix_len g)
      then IncompleteTruncatedAtCapture
      else IncompleteMissingFrames)"

record ip_fragment_reassembler =
  fr_groups :: "(fragment_key \<times> fragment_group) list"
  fr_bytes_held :: nat
  fr_counters :: reassembly_counters

definition ip_fragment_reassembler_new :: ip_fragment_reassembler where
  "ip_fragment_reassembler_new = \<lparr>fr_groups = [], fr_bytes_held = 0, fr_counters = counters_zero\<rparr>"

definition fr_clear :: "ip_fragment_reassembler \<Rightarrow> ip_fragment_reassembler" where
  "fr_clear r = r\<lparr>fr_groups := [], fr_bytes_held := 0\<rparr>"

section \<open>Operations\<close>

definition take_group ::
  "'h ipv4_codec \<Rightarrow> fragment_key \<Rightarrow> reassembly_status \<Rightarrow> ip_fragment_reassembler
    \<Rightarrow> reassembled_datagram option \<times> ip_fragment_reassembler" where
  "take_group cd key status r =
     (case map_of (fr_groups r) key of
        None \<Rightarrow> (None, r)
      | Some g \<Rightarrow>
          let r' = r\<lparr>fr_groups := AList.delete key (fr_groups r),
                     fr_bytes_held := fr_bytes_held r - fg_accounted_bytes g,
                     fr_counters := count_status status (fr_counters r)\<rparr>;
              payload_len = (case fg_total_len g of
                               Some tot \<Rightarrow> min (fg_prefix_len g) tot
                             | None \<Rightarrow> fg_prefix_len g);
              datagram =
                Option.bind (fg_header g) (\<lambda>header.
                Option.bind (slice_get (elems (fg_data g)) 0 payload_len) (\<lambda>payload.
                Option.bind (rebuild_ipv4_datagram cd header payload) (\<lambda>bytes.
                Some \<lparr>rd_bytes = bytes, rd_status = status, rd_payload_len = payload_len\<rparr>)))
          in (datagram, r'))"

definition fr_expire ::
  "'h ipv4_codec \<Rightarrow> fragment_key \<Rightarrow> ip_fragment_reassembler
    \<Rightarrow> reassembled_datagram option \<times> ip_fragment_reassembler" where
  "fr_expire cd key r =
     (case map_of (fr_groups r) key of
        None \<Rightarrow> (None, r)
      | Some g \<Rightarrow>
          take_group cd key (fg_status g)
            (r\<lparr>fr_counters := (fr_counters r)\<lparr>evicted_idle := evicted_idle (fr_counters r) + 1\<rparr>\<rparr>))"

text \<open>One iteration of the capacity loop: remove, account, count.\<close>

definition fr_evict_one :: "fragment_key \<Rightarrow> ip_fragment_reassembler \<Rightarrow> ip_fragment_reassembler" where
  "fr_evict_one key r =
     (case map_of (fr_groups r) key of
        None \<Rightarrow> r
      | Some g \<Rightarrow>
          r\<lparr>fr_groups := AList.delete key (fr_groups r),
            fr_bytes_held := fr_bytes_held r - fg_accounted_bytes g,
            fr_counters := (fr_counters r)\<lparr>evicted_capacity := evicted_capacity (fr_counters r) + 1\<rparr>\<rparr>)"

definition fr_within :: "nat \<Rightarrow> nat \<Rightarrow> ip_fragment_reassembler \<Rightarrow> bool" where
  "fr_within max_groups max_bytes r \<longleftrightarrow> length (fr_groups r) \<le> max_groups \<and> fr_bytes_held r \<le> max_bytes"

definition fr_evict_oldest_until :: "nat \<Rightarrow> nat \<Rightarrow> ip_fragment_reassembler \<Rightarrow> ip_fragment_reassembler" where
  "fr_evict_oldest_until max_groups max_bytes r =
     (if fr_within max_groups max_bytes r then r
      else evict_loop (fr_within max_groups max_bytes) fr_evict_one
             (keys_by_age fg_last_seen_ms (fr_groups r)) r)"

fun fr_expire_all ::
  "'h ipv4_codec \<Rightarrow> fragment_key list \<Rightarrow> ip_fragment_reassembler
    \<Rightarrow> reassembled_datagram list \<times> ip_fragment_reassembler" where
  "fr_expire_all cd [] r = ([], r)"
| "fr_expire_all cd (k # ks) r =
     (let (d, r1) = fr_expire cd k r; (ds, r2) = fr_expire_all cd ks r1
      in ((case d of None \<Rightarrow> ds | Some x \<Rightarrow> x # ds), r2))"

definition fr_evict_stale ::
  "'h ipv4_codec \<Rightarrow> nat \<Rightarrow> ip_fragment_reassembler
    \<Rightarrow> reassembled_datagram list \<times> ip_fragment_reassembler" where
  "fr_evict_stale cd now_ms r =
     (let expired = map fst (filter (\<lambda>(k, g). fg_is_expired g now_ms) (fr_groups r));
          (out, r') = fr_expire_all cd expired r
      in (out, fr_evict_oldest_until max_fragment_groups max_fragment_bytes_total r'))"

section \<open>Feeding a fragment\<close>

definition frag_key :: "parsed_packet \<Rightarrow> ipv4_fragment \<Rightarrow> fragment_key" where
  "frag_key p f = \<lparr>fk_src = pp_src_ip p, fk_dst = pp_dst_ip p,
     fk_identification = if_identification f, fk_protocol = if_protocol f\<rparr>"

definition frag_make_room :: "fragment_key \<Rightarrow> ip_fragment_reassembler \<Rightarrow> ip_fragment_reassembler" where
  "frag_make_room key r =
     (if map_of (fr_groups r) key = None \<and> length (fr_groups r) \<ge> max_fragment_groups
      then fr_evict_oldest_until (max_fragment_groups - 1) max_fragment_bytes_total r
      else r)"

definition frag_expire_on_arrival ::
  "'h ipv4_codec \<Rightarrow> fragment_key \<Rightarrow> nat \<Rightarrow> ip_fragment_reassembler \<Rightarrow> ip_fragment_reassembler" where
  "frag_expire_on_arrival cd key now_ms r =
     (case map_of (fr_groups r) key of
        None \<Rightarrow> r
      | Some g \<Rightarrow> if fg_is_expired g now_ms then snd (fr_expire cd key r) else r)"

definition frag_entry :: "fragment_key \<Rightarrow> nat \<Rightarrow> ip_fragment_reassembler \<Rightarrow> fragment_group" where
  "frag_entry key now_ms r =
     (case map_of (fr_groups r) key of None \<Rightarrow> fragment_group_new now_ms | Some g \<Rightarrow> g)
       \<lparr>fg_last_seen_ms := now_ms\<rparr>"

definition frag_terminal_conflict :: "nat \<Rightarrow> ipv4_fragment \<Rightarrow> fragment_group \<Rightarrow> bool" where
  "frag_terminal_conflict declared f g \<longleftrightarrow>
     \<not> if_more_fragments f \<and>
     (let end_at = sat_add (if_offset_bytes f) declared
      in case fg_total_len g of
           Some existing \<Rightarrow> existing \<noteq> end_at
         | None \<Rightarrow> True \<in> set (drop end_at (elems (fg_filled g))))"

definition note_short :: "nat option \<Rightarrow> nat \<Rightarrow> nat option" where
  "note_short old hole_at = Some (case old of None \<Rightarrow> hole_at | Some at \<Rightarrow> min at hole_at)"

text \<open>The header, the truncation mark and the total length a fragment contributes.\<close>

definition frag_metadata :: "nat \<Rightarrow> ipv4_fragment \<Rightarrow> fragment_group \<Rightarrow> fragment_group" where
  "frag_metadata declared f g =
     (let offset = if_offset_bytes f;
          g1 = (if offset = 0 \<and> fg_header g = None then g\<lparr>fg_header := Some (if_header f)\<rparr> else g);
          g2 = (if u32_cast (length (if_payload f)) < declared
                then g1\<lparr>fg_short_captured_at :=
                       note_short (fg_short_captured_at g1) (sat_add offset (length (if_payload f)))\<rparr>
                else g1)
      in if \<not> if_more_fragments f then g2\<lparr>fg_total_len := Some (sat_add offset declared)\<rparr> else g2)"

definition frag_write :: "ipv4_fragment \<Rightarrow> fragment_group \<Rightarrow> fragment_group \<times> write_outcome" where
  "frag_write f g =
     (let (d, fl, out) = write_first_seen_wins (fg_data g) (fg_filled g) (if_offset_bytes f)
                           (if_payload f) max_fragment_group_bytes
      in (g\<lparr>fg_data := d, fg_filled := fl,
            fg_prefix_len := contiguous_len_from (elems fl) (fg_prefix_len g)\<rparr>, out))"

definition frag_abandon :: "fragment_key \<Rightarrow> ip_fragment_reassembler \<Rightarrow> ip_fragment_reassembler" where
  "frag_abandon key r =
     (case map_of (fr_groups r) key of
        None \<Rightarrow> r
      | Some g \<Rightarrow>
          r\<lparr>fr_groups := AList.delete key (fr_groups r),
            fr_bytes_held := fr_bytes_held r - fg_accounted_bytes g,
            fr_counters := (fr_counters r)
              \<lparr>abandoned_without_completing := abandoned_without_completing (fr_counters r) + 1\<rparr>\<rparr>)"

text \<open>Storing the written group, with the byte counter moved by its change in capacity.\<close>

definition frag_store ::
  "fragment_key \<Rightarrow> nat \<Rightarrow> fragment_group \<Rightarrow> nat \<Rightarrow> ip_fragment_reassembler \<Rightarrow> ip_fragment_reassembler" where
  "frag_store key before g conflicts r =
     r\<lparr>fr_groups := AList.update key g (fr_groups r),
       fr_bytes_held := sat_add (fr_bytes_held r) (fg_accounted_bytes g) - before,
       fr_counters := (fr_counters r)
         \<lparr>conflicting_overlap_bytes := conflicting_overlap_bytes (fr_counters r) + conflicts\<rparr>\<rparr>"

definition frag_emit ::
  "'h ipv4_codec \<Rightarrow> fragment_key \<Rightarrow> reassembly_status \<Rightarrow> bool \<Rightarrow> ip_fragment_reassembler
    \<Rightarrow> reassembled_datagram option \<times> ip_fragment_reassembler" where
  "frag_emit cd key status cap_hit r =
     (case status of
        Reassembled \<Rightarrow> take_group cd key status r
      | IncompleteTruncatedAtCapture \<Rightarrow> take_group cd key status r
      | IncompleteMissingFrames \<Rightarrow> (None, if cap_hit then frag_abandon key r else r))"

definition fr_feed_fragment ::
  "'h ipv4_codec \<Rightarrow> parsed_packet \<Rightarrow> ipv4_fragment \<Rightarrow> nat \<Rightarrow> ip_fragment_reassembler
    \<Rightarrow> reassembled_datagram option \<times> ip_fragment_reassembler" where
  "fr_feed_fragment cd p f now_ms r0 =
     (let key = frag_key p f;
          r = frag_expire_on_arrival cd key now_ms (frag_make_room key r0);
          g0 = frag_entry key now_ms r
      in if frag_terminal_conflict (pp_ip_declared_payload_len p) f g0
         then (None,
               r\<lparr>fr_groups := AList.update key g0 (fr_groups r),
                 fr_counters := (fr_counters r)\<lparr>conflicting_terminal_fragments :=
                   conflicting_terminal_fragments (fr_counters r) + 1\<rparr>\<rparr>)
         else let g1 = frag_metadata (pp_ip_declared_payload_len p) f g0;
                  (g2, written) = frag_write f g1;
                  r1 = frag_store key (fg_accounted_bytes g1) g2 (conflicting written) r;
                  (emitted, r2) = frag_emit cd key (fg_status g2) (hit_cap written) r1
              in (emitted, fr_evict_oldest_until max_fragment_groups max_fragment_bytes_total r2))"

definition fr_feed ::
  "'h ipv4_codec \<Rightarrow> parsed_packet \<Rightarrow> nat \<Rightarrow> ip_fragment_reassembler
    \<Rightarrow> reassembled_datagram option \<times> ip_fragment_reassembler" where
  "fr_feed cd p now_ms r =
     (case pp_ip_fragment p of
        None \<Rightarrow> (None, r)
      | Some f \<Rightarrow> fr_feed_fragment cd p f now_ms r)"

section \<open>The store of fragment groups\<close>

interpretation fr: capacity_store fr_groups fr_bytes_held fg_accounted_bytes fr_evict_one
proof unfold_locales
  fix k s
  show "fr_groups (fr_evict_one k s) = AList.delete k (fr_groups s)"
    by (cases "map_of (fr_groups s) k") (simp_all add: fr_evict_one_def)
  show "fr_bytes_held (fr_evict_one k s)
      = fr_bytes_held s - (case map_of (fr_groups s) k of None \<Rightarrow> 0 | Some e \<Rightarrow> fg_accounted_bytes e)"
    by (cases "map_of (fr_groups s) k") (simp_all add: fr_evict_one_def)
qed

lemma fr_within_eq: "fr_within n b r = fr.within n b r"
  by (simp add: fr_within_def fr.within_def)

lemma fr_evict_oldest_until_eq:
  "fr_evict_oldest_until n b r =
     evict_loop (fr.within n b) fr_evict_one (keys_by_age fg_last_seen_ms (fr_groups r)) r"
proof (cases "fr.within n b r")
  case True
  then show ?thesis
    by (cases "keys_by_age fg_last_seen_ms (fr_groups r)")
       (simp_all add: fr_evict_oldest_until_def fr_within_eq)
next
  case False
  have "fr_within n b = fr.within n b"
    by (simp add: fun_eq_iff fr_within_eq)
  with False show ?thesis
    by (simp add: fr_evict_oldest_until_def)
qed

text \<open>
  A group is well formed when its buffer is, its prefix is exactly the contiguous run of held
  bytes, and a nonempty prefix comes with the header of the offset-0 fragment.
\<close>

definition group_ok :: "fragment_group \<Rightarrow> bool" where
  "group_ok g \<longleftrightarrow>
     buffer_ok max_fragment_group_bytes (fg_data g) (fg_filled g)
     \<and> fg_prefix_len g = held_prefix_len (elems (fg_filled g))
     \<and> (0 < fg_prefix_len g \<longrightarrow> fg_header g \<noteq> None)"

definition fr_ok :: "ip_fragment_reassembler \<Rightarrow> bool" where
  "fr_ok r \<longleftrightarrow> fr.balanced r \<and> (\<forall>(k, g)\<in>set (fr_groups r). group_ok g)"

definition frag_inv :: "ip_fragment_reassembler \<Rightarrow> bool" where
  "frag_inv r \<longleftrightarrow> fr_ok r \<and> fr_within max_fragment_groups max_fragment_bytes_total r"

text \<open>What the types of a parsed packet bound: 32-bit lengths, slices of at most \<open>isize::MAX\<close>.\<close>

definition frag_packet_ok :: "parsed_packet \<Rightarrow> bool" where
  "frag_packet_ok p \<longleftrightarrow> pp_ip_declared_payload_len p < 2 ^ 32 \<and>
     (case pp_ip_fragment p of
        None \<Rightarrow> True
      | Some f \<Rightarrow> if_offset_bytes f < 2 ^ 32 \<and> length (if_payload f) < 2 ^ 63)"

lemma group_ok_new: "group_ok (fragment_group_new now_ms)"
  by (simp add: group_ok_def fragment_group_new_def held_prefix_len_def vec_simps)

lemma group_ok_accounted:
  assumes "group_ok g"
  shows "fg_accounted_bytes g = capacity (fg_data g) + capacity (fg_filled g)"
    and "fg_accounted_bytes g \<le> 262156"
proof -
  have le: "capacity (fg_data g) \<le> 131078" "capacity (fg_filled g) \<le> 131078"
    using assms by (auto simp: group_ok_def buffer_ok_def vec_ok_def max_fragment_group_bytes_def)
  then show "fg_accounted_bytes g = capacity (fg_data g) + capacity (fg_filled g)"
    unfolding fg_accounted_bytes_def by (intro sat_add_exact) (simp add: usize_max_def)
  with le show "fg_accounted_bytes g \<le> 262156" by simp
qed

lemma fr_ok_new: "fr_ok ip_fragment_reassembler_new"
  by (simp add: fr_ok_def fr.balanced_def ip_fragment_reassembler_new_def)

lemma fr_ok_counters: "fr_ok (r\<lparr>fr_counters := c\<rparr>) = fr_ok r"
  by (simp add: fr_ok_def fr.balanced_def)

lemma fr_ok_group: "fr_ok r \<Longrightarrow> map_of (fr_groups r) k = Some g \<Longrightarrow> group_ok g"
  by (auto simp: fr_ok_def dest!: map_of_SomeD)

lemma fr_ok_delete:
  assumes "fr_ok r" and "map_of (fr_groups r) k = Some g"
  shows "fr_ok (r\<lparr>fr_groups := AList.delete k (fr_groups r),
                  fr_bytes_held := fr_bytes_held r - fg_accounted_bytes g, fr_counters := c\<rparr>)"
proof -
  have "set (AList.delete k (fr_groups r)) \<subseteq> set (fr_groups r)"
    by (rule set_delete_subset)
  then show ?thesis
    using assms weigh_delete [of "fr_groups r" fg_accounted_bytes k]
    by (auto simp: fr_ok_def fr.balanced_def)
qed

lemma fr_within_mono:
  "fr_within n b r \<Longrightarrow> length (fr_groups r') \<le> length (fr_groups r) \<Longrightarrow>
   fr_bytes_held r' \<le> fr_bytes_held r \<Longrightarrow> fr_within n b r'"
  by (simp add: fr_within_def)

lemma take_group_state:
  "snd (take_group cd k st r) =
     (case map_of (fr_groups r) k of None \<Rightarrow> r
      | Some g \<Rightarrow> r\<lparr>fr_groups := AList.delete k (fr_groups r),
                    fr_bytes_held := fr_bytes_held r - fg_accounted_bytes g,
                    fr_counters := count_status st (fr_counters r)\<rparr>)"
  by (simp add: take_group_def Let_def split: option.splits)

lemma take_group_ok:
  assumes "fr_ok r"
  shows "fr_ok (snd (take_group cd k st r))"
    and "length (fr_groups (snd (take_group cd k st r))) \<le> length (fr_groups r)"
    and "fr_bytes_held (snd (take_group cd k st r)) \<le> fr_bytes_held r"
  using assms fr_ok_delete [OF assms]
  by (auto simp: take_group_state length_delete_le split: option.splits)

lemma fr_expire_ok:
  assumes "fr_ok r"
  shows "fr_ok (snd (fr_expire cd k r))"
    and "length (fr_groups (snd (fr_expire cd k r))) \<le> length (fr_groups r)"
    and "fr_bytes_held (snd (fr_expire cd k r)) \<le> fr_bytes_held r"
  using assms take_group_ok
    [of "r\<lparr>fr_counters := (fr_counters r)\<lparr>evicted_idle := evicted_idle (fr_counters r) + 1\<rparr>\<rparr>" cd k]
  by (auto simp: fr_expire_def fr_ok_counters split: option.splits)

lemma frag_abandon_ok:
  assumes "fr_ok r"
  shows "fr_ok (frag_abandon k r)"
    and "length (fr_groups (frag_abandon k r)) \<le> length (fr_groups r)"
    and "fr_bytes_held (frag_abandon k r) \<le> fr_bytes_held r"
  using assms fr_ok_delete [OF assms]
  by (auto simp: frag_abandon_def length_delete_le split: option.splits)

lemma fr_evict_oldest_until_ok:
  assumes "fr_ok r"
  shows "fr_ok (fr_evict_oldest_until n b r)" and "fr_within n b (fr_evict_oldest_until n b r)"
proof -
  let ?r = "fr_evict_oldest_until n b r"
  have "set (fr_groups ?r) \<subseteq> set (fr_groups r)"
    unfolding fr_evict_oldest_until_eq by (rule fr.evict_loop_ents_subset)
  moreover have "fr.balanced ?r"
    using assms unfolding fr_evict_oldest_until_eq fr_ok_def by (blast intro: fr.balanced_evict_loop)
  ultimately show "fr_ok ?r"
    using assms by (auto simp: fr_ok_def)
  show "fr_within n b ?r"
    using assms unfolding fr_within_eq fr_evict_oldest_until_eq fr_ok_def
    by (intro fr.evict_loop_within) auto
qed

lemma fr_expire_all_ok: "fr_ok r \<Longrightarrow> fr_ok (snd (fr_expire_all cd ks r))"
proof (induction ks arbitrary: r)
  case (Cons k ks)
  from Cons.IH [OF fr_expire_ok(1) [OF Cons.prems]] show ?case
    by (simp add: case_prod_unfold Let_def)
qed simp

section \<open>Feeding keeps the invariant\<close>

lemma group_ok_entry: "fr_ok r \<Longrightarrow> group_ok (frag_entry k now_ms r)"
  using group_ok_new fr_ok_group
  by (auto simp: frag_entry_def group_ok_def split: option.splits)

lemma accounted_entry:
  "fg_accounted_bytes (frag_entry k now_ms r) =
     (case map_of (fr_groups r) k of None \<Rightarrow> 0 | Some g \<Rightarrow> fg_accounted_bytes g)"
  by (simp add: frag_entry_def fg_accounted_bytes_def fragment_group_new_def vec_simps sat_add_def
      split: option.splits)

lemma frag_metadata_buffers [simp]:
  "fg_data (frag_metadata declared f g) = fg_data g"
  "fg_filled (frag_metadata declared f g) = fg_filled g"
  "fg_prefix_len (frag_metadata declared f g) = fg_prefix_len g"
  "fg_accounted_bytes (frag_metadata declared f g) = fg_accounted_bytes g"
  "fg_first_seen_ms (frag_metadata declared f g) = fg_first_seen_ms g"
  "fg_last_seen_ms (frag_metadata declared f g) = fg_last_seen_ms g"
  by (simp_all add: frag_metadata_def Let_def fg_accounted_bytes_def)

lemma frag_metadata_header:
  "fg_header (frag_metadata declared f g) =
     (if if_offset_bytes f = 0 \<and> fg_header g = None then Some (if_header f) else fg_header g)"
  by (simp add: frag_metadata_def Let_def)

lemma frag_metadata_total:
  "fg_total_len (frag_metadata declared f g) =
     (if if_more_fragments f then fg_total_len g else Some (sat_add (if_offset_bytes f) declared))"
  by (simp add: frag_metadata_def Let_def)

lemma held_prefix_pos: "0 < held_prefix_len filled \<longleftrightarrow> covered d filled 0 \<noteq> None"
proof -
  have "0 < held_prefix_len filled \<longleftrightarrow> known_prefix filled 1"
    using known_prefix_held [of filled] known_prefix_le [of filled 1]
    by (auto simp: known_prefix_def)
  then show ?thesis
    by (simp add: known_prefix_iff_covered [of filled "Suc 0" d])
qed

lemma frag_write_ok:
  assumes "group_ok g" and "frag_write f (frag_metadata declared f g) = (g', out)"
    and "if_offset_bytes f + length (if_payload f) \<le> usize_max"
  shows "group_ok g'"
    and "covered (elems (fg_data g')) (elems (fg_filled g'))
       = piece_map (if_offset_bytes f)
           (take (max_fragment_group_bytes - if_offset_bytes f) (if_payload f))
         ++ covered (elems (fg_data g)) (elems (fg_filled g))"
proof -
  let ?g = "frag_metadata declared f g"
  obtain d fl where w: "write_first_seen_wins (fg_data ?g) (fg_filled ?g) (if_offset_bytes f)
      (if_payload f) max_fragment_group_bytes = (d, fl, out)"
    and g': "g' = ?g\<lparr>fg_data := d, fg_filled := fl,
      fg_prefix_len := contiguous_len_from (elems fl) (fg_prefix_len g)\<rparr>"
    using assms(2) by (auto simp: frag_write_def split: prod.splits)
  have buf: "buffer_ok max_fragment_group_bytes (fg_data ?g) (fg_filled ?g)"
    and pre: "fg_prefix_len g = held_prefix_len (elems (fg_filled g))"
    using assms(1) by (simp_all add: group_ok_def)
  note cov = write_first_seen_wins_covered [OF w buf assms(3)]
  have new_pre: "contiguous_len_from (elems fl) (fg_prefix_len g) = held_prefix_len (elems fl)"
    using write_first_seen_wins_prefix [OF w buf assms(3)] known_prefix_held pre by simp
  show "covered (elems (fg_data g')) (elems (fg_filled g'))
       = piece_map (if_offset_bytes f)
           (take (max_fragment_group_bytes - if_offset_bytes f) (if_payload f))
         ++ covered (elems (fg_data g)) (elems (fg_filled g))"
    using cov by (simp add: g')
  have "0 < held_prefix_len (elems fl) \<longrightarrow> fg_header ?g \<noteq> None"
  proof
    assume "0 < held_prefix_len (elems fl)"
    then have "covered (elems d) (elems fl) 0 \<noteq> None"
      by (simp add: held_prefix_pos [of _ "elems d"])
    then consider "covered (elems (fg_data g)) (elems (fg_filled g)) 0 \<noteq> None" | "if_offset_bytes f = 0"
      using cov by (fastforce simp: map_add_def piece_map_def split: option.splits if_splits)
    then show "fg_header ?g \<noteq> None"
    proof cases
      case 1
      then have "0 < fg_prefix_len g"
        using pre by (simp add: held_prefix_pos [of _ "elems (fg_data g)"])
      with assms(1) show ?thesis by (auto simp: group_ok_def frag_metadata_header)
    next
      case 2
      then show ?thesis by (auto simp: frag_metadata_header)
    qed
  qed
  then show "group_ok g'"
    using write_first_seen_wins_ok [OF w buf assms(3)] new_pre
    by (simp add: group_ok_def g')
qed

lemma frag_store_ok:
  assumes "fr_ok r" and "group_ok g" and "fr_bytes_held r \<le> max_fragment_bytes_total"
    and "before = (case map_of (fr_groups r) k of None \<Rightarrow> 0 | Some g0 \<Rightarrow> fg_accounted_bytes g0)"
  shows "fr_ok (frag_store k before g conflicts r)"
proof -
  have "fr_bytes_held r + fg_accounted_bytes g \<le> usize_max"
    using assms(3) group_ok_accounted(2) [OF assms(2)]
    by (simp add: max_fragment_bytes_total_def usize_max_def)
  then have "sat_add (fr_bytes_held r) (fg_accounted_bytes g) = fr_bytes_held r + fg_accounted_bytes g"
    by (rule sat_add_exact)
  then show ?thesis
    using assms weigh_update [of "fr_groups r" fg_accounted_bytes k g]
    by (auto simp: frag_store_def fr_ok_def fr.balanced_def dest!: set_update_values)
qed

lemma frag_make_room_ok:
  assumes "frag_inv r"
  shows "frag_inv (frag_make_room k r)"
    and "map_of (fr_groups (frag_make_room k r)) k = None \<Longrightarrow>
         length (fr_groups (frag_make_room k r)) < max_fragment_groups"
  using assms fr_evict_oldest_until_ok
    [of r "max_fragment_groups - 1" max_fragment_bytes_total]
  by (auto simp: frag_make_room_def frag_inv_def fr_within_def max_fragment_groups_def)

lemma frag_expire_on_arrival_ok:
  assumes "frag_inv r"
    and "map_of (fr_groups r) k = None \<Longrightarrow> length (fr_groups r) < max_fragment_groups"
  shows "frag_inv (frag_expire_on_arrival cd k now_ms r)"
    and "map_of (fr_groups (frag_expire_on_arrival cd k now_ms r)) k = None \<Longrightarrow>
         length (fr_groups (frag_expire_on_arrival cd k now_ms r)) < max_fragment_groups"
proof -
  show "frag_inv (frag_expire_on_arrival cd k now_ms r)"
    using assms(1) fr_expire_ok [of r cd k]
    by (auto simp: frag_expire_on_arrival_def frag_inv_def fr_within_def split: option.splits)
  assume none: "map_of (fr_groups (frag_expire_on_arrival cd k now_ms r)) k = None"
  show "length (fr_groups (frag_expire_on_arrival cd k now_ms r)) < max_fragment_groups"
  proof (cases "map_of (fr_groups r) k")
    case None
    with assms(2) show ?thesis by (simp add: frag_expire_on_arrival_def)
  next
    case (Some g)
    with none have "frag_expire_on_arrival cd k now_ms r = snd (fr_expire cd k r)"
      by (auto simp: frag_expire_on_arrival_def split: if_splits)
    moreover have "distinct (map fst (fr_groups r))" "length (fr_groups r) \<le> max_fragment_groups"
      using assms(1) by (simp_all add: frag_inv_def fr_ok_def fr.balanced_def fr_within_def)
    ultimately show ?thesis
      using Some length_delete_member [OF _ Some]
      by (auto simp: fr_expire_def take_group_state)
  qed
qed


lemma frag_emit_ok:
  assumes "fr_ok r"
  shows "fr_ok (snd (frag_emit cd k st cap_hit r))"
  using assms take_group_ok(1) [OF assms] frag_abandon_ok(1) [OF assms]
  by (cases st) (auto simp: frag_emit_def)

lemma fr_feed_fragment_accepted:
  assumes "r = frag_expire_on_arrival cd (frag_key p f) now_ms (frag_make_room (frag_key p f) r0)"
    and "g0 = frag_entry (frag_key p f) now_ms r"
    and "\<not> frag_terminal_conflict (pp_ip_declared_payload_len p) f g0"
    and "frag_write f (frag_metadata (pp_ip_declared_payload_len p) f g0) = (g2, written)"
  shows "fr_feed_fragment cd p f now_ms r0 =
    map_prod id (fr_evict_oldest_until max_fragment_groups max_fragment_bytes_total)
      (frag_emit cd (frag_key p f) (fg_status g2) (hit_cap written)
        (frag_store (frag_key p f) (fg_accounted_bytes g0) g2 (conflicting written) r))"
  using assms(3,4)
  by (simp add: fr_feed_fragment_def Let_def assms(1) [symmetric] assms(2) [symmetric]
      case_prod_unfold map_prod_def)

lemma fr_feed_fragment_inv:
  assumes "frag_inv r0" and "frag_packet_ok p" and "pp_ip_fragment p = Some f"
  shows "frag_inv (snd (fr_feed_fragment cd p f now_ms r0))"
proof -
  let ?k = "frag_key p f" and ?decl = "pp_ip_declared_payload_len p"
  define r where "r = frag_expire_on_arrival cd ?k now_ms (frag_make_room ?k r0)"
  define g0 where "g0 = frag_entry ?k now_ms r"
  have inv: "frag_inv r" and room: "map_of (fr_groups r) ?k = None \<Longrightarrow> length (fr_groups r) < max_fragment_groups"
    using frag_expire_on_arrival_ok
      [OF frag_make_room_ok [OF assms(1), of ?k], where cd = cd and now_ms = now_ms]
    unfolding r_def by blast+
  then have ok: "fr_ok r" by (simp add: frag_inv_def)
  have g0: "group_ok g0" unfolding g0_def by (rule group_ok_entry [OF ok])
  show ?thesis
  proof (cases "frag_terminal_conflict ?decl f g0")
    case True
    have "weigh fg_accounted_bytes (AList.update ?k g0 (fr_groups r)) = weigh fg_accounted_bytes (fr_groups r)"
      using weigh_update [of "fr_groups r" fg_accounted_bytes ?k g0] ok
      by (simp add: g0_def accounted_entry fr_ok_def fr.balanced_def)
    moreover have "length (AList.update ?k g0 (fr_groups r)) \<le> max_fragment_groups"
      using inv room by (auto simp: length_update frag_inv_def fr_within_def map_of_eq_None_iff)
    ultimately have "frag_inv (r\<lparr>fr_groups := AList.update ?k g0 (fr_groups r), fr_counters := c\<rparr>)" for c
      using inv g0 by (auto simp: frag_inv_def fr_ok_def fr.balanced_def fr_within_def
          dest!: set_update_values)
    then show ?thesis
      using True by (simp add: fr_feed_fragment_def Let_def r_def [symmetric] g0_def [symmetric])
  next
    case False
    let ?g1 = "frag_metadata ?decl f g0"
    obtain g2 written where w: "frag_write f ?g1 = (g2, written)"
      by (cases "frag_write f ?g1")
    define r1 where "r1 = frag_store ?k (fg_accounted_bytes g0) g2 (conflicting written) r"
    define r2 where "r2 = snd (frag_emit cd ?k (fg_status g2) (hit_cap written) r1)"
    have "if_offset_bytes f + length (if_payload f) \<le> usize_max"
      using assms(2,3) by (simp add: frag_packet_ok_def usize_max_def)
    then have "group_ok g2"
      by (rule frag_write_ok(1) [OF g0 w])
    then have "fr_ok r1"
      unfolding r1_def using inv
      by (intro frag_store_ok [OF ok]) (auto simp: frag_inv_def fr_within_def g0_def accounted_entry)
    then have "fr_ok r2"
      unfolding r2_def by (rule frag_emit_ok)
    then have "frag_inv (fr_evict_oldest_until max_fragment_groups max_fragment_bytes_total r2)"
      by (simp add: frag_inv_def fr_evict_oldest_until_ok)
    then show ?thesis
      using fr_feed_fragment_accepted [OF r_def g0_def False w] by (simp add: r1_def r2_def)
  qed
qed

lemma fr_feed_inv: "frag_inv r \<Longrightarrow> frag_packet_ok p \<Longrightarrow> frag_inv (snd (fr_feed cd p now_ms r))"
  by (cases "pp_ip_fragment p") (simp_all add: fr_feed_def fr_feed_fragment_inv)

lemma fr_evict_stale_inv: "frag_inv r \<Longrightarrow> frag_inv (snd (fr_evict_stale cd now_ms r))"
  using fr_expire_all_ok [of r cd "map fst (filter (\<lambda>(k, g). fg_is_expired g now_ms) (fr_groups r))"]
  by (auto simp: fr_evict_stale_def Let_def frag_inv_def fr_evict_oldest_until_ok split: prod.splits)

lemma fr_clear_inv: "frag_inv (fr_clear r)"
  by (simp add: frag_inv_def fr_ok_def fr.balanced_def fr_clear_def fr_within_def)

lemma frag_inv_new: "frag_inv ip_fragment_reassembler_new"
  using fr_ok_new unfolding frag_inv_def by (simp add: fr_within_def ip_fragment_reassembler_new_def)

end
