(* ===== verification/FragmentCorrect.thy ===== *)
theory FragmentCorrect
  imports FragmentReassembly
begin

text \<open>
  What the fragment reassembler is for: the fragments of one datagram, captured whole and in
  any order, with any duplicates and overlaps, give back the datagram's payload, exactly once,
  at the fragment that completes the coverage. And what it guarantees under attack: bytes once
  held are never replaced, and its memory stays under the ceilings.
\<close>

section \<open>Fragments of one datagram\<close>

text \<open>\<open>fragment_of P h f\<close>: \<open>f\<close> is a fragment, captured whole, of a datagram with payload \<open>P\<close> and first header \<open>h\<close>.\<close>

definition fragment_of :: "byte list \<Rightarrow> byte list \<Rightarrow> ipv4_fragment \<Rightarrow> bool" where
  "fragment_of P h f \<longleftrightarrow>
     if_offset_bytes f + length (if_payload f) \<le> length P
     \<and> if_payload f = take (length (if_payload f)) (drop (if_offset_bytes f) P)
     \<and> (if_more_fragments f \<longleftrightarrow> if_offset_bytes f + length (if_payload f) < length P)
     \<and> (if_offset_bytes f = 0 \<longrightarrow> if_header f = h)"

definition frag_positions :: "ipv4_fragment list \<Rightarrow> nat set" where
  "frag_positions fs = (\<Union>f\<in>set fs. {if_offset_bytes f..<if_offset_bytes f + length (if_payload f)})"

definition restricted :: "byte list \<Rightarrow> nat set \<Rightarrow> nat \<Rightarrow> byte option" where
  "restricted P S i = (if i \<in> S then Some (P ! i) else None)"

text \<open>A packet that carries the fragment, declaring exactly its captured length.\<close>

definition carries :: "fragment_key \<Rightarrow> parsed_packet \<Rightarrow> ipv4_fragment \<Rightarrow> bool" where
  "carries k p f \<longleftrightarrow> pp_ip_fragment p = Some f \<and> frag_key p f = k
     \<and> pp_ip_declared_payload_len p = length (if_payload f)"

fun fr_feed_all ::
  "'h ipv4_codec \<Rightarrow> (nat \<times> parsed_packet) list \<Rightarrow> ip_fragment_reassembler
    \<Rightarrow> reassembled_datagram option list \<times> ip_fragment_reassembler" where
  "fr_feed_all cd [] r = ([], r)"
| "fr_feed_all cd ((t, p) # ps) r =
     (let (out, r1) = fr_feed cd p t r; (outs, r2) = fr_feed_all cd ps r1 in (out # outs, r2))"

lemma fr_feed_all_append:
  "fr_feed_all cd (ps @ qs) r =
     (let (o1, r1) = fr_feed_all cd ps r; (o2, r2) = fr_feed_all cd qs r1 in (o1 @ o2, r2))"
proof (induction ps arbitrary: r)
  case (Cons a ps)
  then show ?case by (cases a) (simp add: case_prod_unfold Let_def)
qed simp

lemma frag_positions_snoc:
  "frag_positions (fs @ [f]) =
     frag_positions fs \<union> {if_offset_bytes f..<if_offset_bytes f + length (if_payload f)}"
  by (auto simp: frag_positions_def)

lemma restricted_add_piece:
  assumes "fragment_of P h f"
  shows "piece_map (if_offset_bytes f) (if_payload f) ++ restricted P S
    = restricted P (S \<union> {if_offset_bytes f..<if_offset_bytes f + length (if_payload f)})"
proof
  fix i
  let ?o = "if_offset_bytes f" and ?n = "length (if_payload f)"
  have "if_payload f ! (i - ?o) = P ! i" if "?o \<le> i" "i < ?o + ?n"
  proof -
    have "if_payload f = take ?n (drop ?o P)" and "?o + ?n \<le> length P"
      using assms by (simp_all add: fragment_of_def)
    then have "if_payload f ! (i - ?o) = take ?n (drop ?o P) ! (i - ?o)" by simp
    also have "\<dots> = P ! i"
      using that \<open>?o + ?n \<le> length P\<close> by (simp add: nth_take nth_drop)
    finally show ?thesis .
  qed
  then show "(piece_map ?o (if_payload f) ++ restricted P S) i
      = restricted P (S \<union> {?o..<?o + ?n}) i"
    by (auto simp: map_add_def piece_map_def restricted_def)
qed

section \<open>What one group knows\<close>

definition group_tracks :: "byte list \<Rightarrow> byte list \<Rightarrow> nat \<Rightarrow> ipv4_fragment list \<Rightarrow> fragment_group \<Rightarrow> bool" where
  "group_tracks P h t0 seen g \<longleftrightarrow>
     group_ok g
     \<and> covered (elems (fg_data g)) (elems (fg_filled g)) = restricted P (frag_positions seen)
     \<and> fg_total_len g = (if \<exists>f\<in>set seen. \<not> if_more_fragments f then Some (length P) else None)
     \<and> (\<forall>x. fg_header g = Some x \<longrightarrow> x = h)
     \<and> fg_short_captured_at g = None
     \<and> t0 \<le> fg_first_seen_ms g \<and> t0 \<le> fg_last_seen_ms g"

lemma group_tracks_new: "t0 \<le> now_ms \<Longrightarrow> group_tracks P h t0 [] (fragment_group_new now_ms)"
  by (simp add: group_tracks_def group_ok_new)
     (simp add: fragment_group_new_def frag_positions_def restricted_def covered_def vec_simps fun_eq_iff)

lemma group_tracks_touch:
  "group_tracks P h t0 seen g \<Longrightarrow> t0 \<le> now_ms \<Longrightarrow> group_tracks P h t0 seen (g\<lparr>fg_last_seen_ms := now_ms\<rparr>)"
  by (simp add: group_tracks_def group_ok_def)

lemma positions_below: "\<forall>f\<in>set seen. fragment_of P h f \<Longrightarrow> frag_positions seen \<subseteq> {..<length P}"
  by (force simp: frag_positions_def fragment_of_def)

lemma tracks_no_conflict:
  assumes "group_tracks P h t0 seen g" and "\<forall>f\<in>set seen. fragment_of P h f"
    and "fragment_of P h f" and "length P \<le> max_fragment_group_bytes"
  shows "\<not> frag_terminal_conflict (length (if_payload f)) f g"
proof (cases "if_more_fragments f")
  case False
  then have fin: "if_offset_bytes f + length (if_payload f) = length P"
    using assms(3) by (auto simp: fragment_of_def)
  then have sat: "sat_add (if_offset_bytes f) (length (if_payload f)) = length P"
    using assms(4) by (simp add: sat_add_def usize_max_def max_fragment_group_bytes_def)
  have "True \<notin> set (drop (length P) (elems (fg_filled g)))"
  proof
    assume "True \<in> set (drop (length P) (elems (fg_filled g)))"
    then obtain j where "j < length (elems (fg_filled g)) - length P"
      and "elems (fg_filled g) ! (length P + j)"
      by (auto simp: in_set_conv_nth)
    then obtain i where "length P \<le> i" "i < length (elems (fg_filled g))" "elems (fg_filled g) ! i"
      by (intro that [of "length P + j"]) auto
    then have "covered (elems (fg_data g)) (elems (fg_filled g)) i \<noteq> None"
      by (simp add: covered_def)
    with assms(1) positions_below [OF assms(2)] \<open>length P \<le> i\<close> show False
      by (auto simp: group_tracks_def restricted_def split: if_splits)
  qed
  with assms(1) sat show ?thesis
    by (auto simp: frag_terminal_conflict_def group_tracks_def Let_def split: if_splits option.splits)
qed (simp add: frag_terminal_conflict_def)

lemma tracks_write:
  assumes "group_tracks P h t0 seen g" and "fragment_of P h f"
    and "length P \<le> max_fragment_group_bytes"
    and "frag_write f (frag_metadata (length (if_payload f)) f g) = (g', out)"
  shows "group_tracks P h t0 (seen @ [f]) g'" and "\<not> hit_cap out"
proof -
  let ?o = "if_offset_bytes f" and ?n = "length (if_payload f)"
  have le: "?o + ?n \<le> max_fragment_group_bytes"
    using assms(2,3) by (simp add: fragment_of_def)
  then have usz: "?o + ?n \<le> usize_max"
    by (simp add: max_fragment_group_bytes_def usize_max_def)
  have whole: "take (max_fragment_group_bytes - ?o) (if_payload f) = if_payload f"
    using le by simp
  have ok: "group_ok g" using assms(1) by (simp add: group_tracks_def)
  obtain d fl where w: "write_first_seen_wins (fg_data g) (fg_filled g) ?o (if_payload f)
      max_fragment_group_bytes = (d, fl, out)"
    and g': "g' = (frag_metadata ?n f g)\<lparr>fg_data := d, fg_filled := fl,
      fg_prefix_len := contiguous_len_from (elems fl) (fg_prefix_len g)\<rparr>"
    using assms(4) by (auto simp: frag_write_def split: prod.splits)
  have "\<not> u32_cast ?n < ?n"
    using le by (simp add: u32_cast_def max_fragment_group_bytes_def)
  then have short: "fg_short_captured_at g' = fg_short_captured_at g"
    by (simp add: g' frag_metadata_def Let_def)
  have "sat_add ?o ?n = length P" if "\<not> if_more_fragments f"
    using that assms(2) usz by (simp add: fragment_of_def sat_add_def)
  then have tot: "fg_total_len g' = (if if_more_fragments f then fg_total_len g else Some (length P))"
    by (simp add: g' frag_metadata_total)
  have hdr: "\<forall>x. fg_header g' = Some x \<longrightarrow> x = h"
    using assms(1,2) by (auto simp: g' frag_metadata_header group_tracks_def fragment_of_def split: if_splits)
  show "\<not> hit_cap out"
    using write_first_seen_wins_hit_cap [OF w _ usz] ok le by (simp add: group_ok_def)
  have "covered (elems (fg_data g')) (elems (fg_filled g')) = restricted P (frag_positions (seen @ [f]))"
    using frag_write_ok(2) [OF ok assms(4) usz] assms(1) restricted_add_piece [OF assms(2)]
    by (simp add: whole group_tracks_def frag_positions_snoc)
  moreover have "fg_first_seen_ms g' = fg_first_seen_ms g" "fg_last_seen_ms g' = fg_last_seen_ms g"
    by (simp_all add: g')
  ultimately show "group_tracks P h t0 (seen @ [f]) g'"
    using frag_write_ok(1) [OF ok assms(4) usz] assms(1) short tot hdr
    by (auto simp: group_tracks_def)
qed

lemma tracks_prefix_incomplete:
  assumes "group_tracks P h t0 seen g" and "i < length P" and "i \<notin> frag_positions seen"
  shows "fg_prefix_len g < length P"
proof -
  have "known_prefix (elems (fg_filled g)) (fg_prefix_len g)"
    using assms(1) by (simp add: group_tracks_def group_ok_def known_prefix_held)
  then have "\<forall>j<fg_prefix_len g. covered (elems (fg_data g)) (elems (fg_filled g)) j \<noteq> None"
    by (simp add: known_prefix_iff_covered [of _ _ "elems (fg_data g)"])
  then have "\<not> i < fg_prefix_len g"
    using assms(1,3) by (auto simp: group_tracks_def restricted_def)
  with assms(2) show ?thesis by simp
qed

lemma tracks_complete:
  assumes "group_tracks P h t0 seen g" and "{..<length P} \<subseteq> frag_positions seen"
    and "\<forall>f\<in>set seen. fragment_of P h f" and "P \<noteq> []"
  shows "fg_status g = Reassembled" and "fg_header g = Some h"
    and "length P \<le> fg_prefix_len g" and "fg_total_len g = Some (length P)"
    and "slice_get (elems (fg_data g)) 0 (length P) = Some P"
proof -
  let ?d = "elems (fg_data g)" and ?f = "elems (fg_filled g)"
  have cov: "covered ?d ?f i = Some (P ! i)" if "i < length P" for i
    using that assms(1,2) by (auto simp: group_tracks_def restricted_def)
  then have "known_prefix ?f (length P)"
    by (simp add: known_prefix_iff_covered [of _ _ ?d])
  then show pre: "length P \<le> fg_prefix_len g"
    using assms(1) by (simp add: group_tracks_def group_ok_def known_prefix_le)
  have "length P - 1 \<in> frag_positions seen"
    using assms(2,4) by auto
  then obtain f where "f \<in> set seen" "length P - 1 < if_offset_bytes f + length (if_payload f)"
    by (auto simp: frag_positions_def)
  then have "\<not> if_more_fragments f"
    using assms(3,4) by (auto simp: fragment_of_def)
  with \<open>f \<in> set seen\<close> assms(1) show tot: "fg_total_len g = Some (length P)"
    by (auto simp: group_tracks_def)
  from pre tot show "fg_status g = Reassembled"
    by (simp add: fg_status_def)
  have "0 < fg_prefix_len g" using pre assms(4) by (cases P) auto
  with assms(1) show "fg_header g = Some h"
    by (auto simp: group_tracks_def group_ok_def)
  have "i < length ?d \<and> ?d ! i = P ! i" if "i < length P" for i
    using cov [OF that] assms(1) by (auto simp: covered_Some_iff group_tracks_def group_ok_def buffer_ok_def)
  note nth = this
  have len: "length P \<le> length ?d"
    using nth [of "length P - 1"] assms(4) by (cases P) auto
  have "take (length P) ?d = P"
    by (rule nth_equalityI) (use len nth in auto)
  with len show "slice_get ?d 0 (length P) = Some P"
    by (simp add: slice_get_def)
qed

section \<open>One fragment at a time\<close>

text \<open>
  \<open>tracking\<close>: the reassembler holds the other groups \<open>bs\<close>, unchanged, and for \<open>k\<close> either
  nothing (nothing seen yet) or a group that tracks what was seen. There is headroom for one
  full datagram, so the ceilings do not bind.
\<close>

definition tracking ::
  "byte list \<Rightarrow> byte list \<Rightarrow> fragment_key \<Rightarrow> nat \<Rightarrow> (fragment_key \<times> fragment_group) list
    \<Rightarrow> ipv4_fragment list \<Rightarrow> ip_fragment_reassembler \<Rightarrow> bool" where
  "tracking P h k t0 bs seen r \<longleftrightarrow>
     fr_ok r \<and> AList.delete k (fr_groups r) = bs
     \<and> length bs < max_fragment_groups \<and> weigh fg_accounted_bytes bs + 262156 \<le> max_fragment_bytes_total
     \<and> (case map_of (fr_groups r) k of
          None \<Rightarrow> seen = []
        | Some g \<Rightarrow> group_tracks P h t0 seen g)"

lemma tracking_within:
  assumes "fr_ok r" and "length (AList.delete k (fr_groups r)) < max_fragment_groups"
    and "weigh fg_accounted_bytes (AList.delete k (fr_groups r)) + 262156 \<le> max_fragment_bytes_total"
  shows "fr_within max_fragment_groups max_fragment_bytes_total r"
proof -
  have dist: "distinct (map fst (fr_groups r))" and held: "fr_bytes_held r = weigh fg_accounted_bytes (fr_groups r)"
    using assms(1) by (simp_all add: fr_ok_def fr.balanced_def)
  show ?thesis
  proof (cases "map_of (fr_groups r) k")
    case None
    with assms held show ?thesis by (simp add: fr_within_def)
  next
    case (Some g)
    have "fg_accounted_bytes g \<le> 262156"
      by (rule group_ok_accounted(2) [OF fr_ok_group [OF assms(1) Some]])
    with Some assms(2,3) held weigh_delete [OF dist, of fg_accounted_bytes k]
      length_delete_member [OF dist Some] show ?thesis
      by (simp add: fr_within_def)
  qed
qed

lemma evict_nothing: "fr_within n b r \<Longrightarrow> fr_evict_oldest_until n b r = r"
  by (simp add: fr_evict_oldest_until_def)

lemma tracking_prepare:
  assumes "tracking P h k t0 bs seen r" and "t0 \<le> t" and "t \<le> t0 + fragment_timeout_ms"
  shows "frag_expire_on_arrival cd k t (frag_make_room k r) = r"
    and "group_tracks P h t0 seen (frag_entry k t r)"
proof -
  have "frag_make_room k r = r"
    using assms(1) by (auto simp: frag_make_room_def tracking_def split: option.splits)
  moreover have "frag_expire_on_arrival cd k t r = r"
    using assms by (auto simp: frag_expire_on_arrival_def tracking_def group_tracks_def fg_is_expired_def
        split: option.splits)
  ultimately show "frag_expire_on_arrival cd k t (frag_make_room k r) = r" by simp
  show "group_tracks P h t0 seen (frag_entry k t r)"
    using assms group_tracks_touch [OF group_tracks_new] group_tracks_touch
    by (auto simp: frag_entry_def tracking_def split: option.splits)
qed

lemma tracking_feed:
  assumes tr: "tracking P h k t0 bs seen r" and time: "t0 \<le> t" "t \<le> t0 + fragment_timeout_ms"
    and seen: "\<forall>f\<in>set seen. fragment_of P h f" and f: "fragment_of P h f" and c: "carries k p f"
    and P: "P \<noteq> []" "length P \<le> max_fragment_group_bytes"
  shows "{..<length P} \<subseteq> frag_positions (seen @ [f]) \<Longrightarrow>
      fst (fr_feed cd p t r) = map_option
        (\<lambda>b. \<lparr>rd_bytes = b, rd_status = Reassembled, rd_payload_len = length P\<rparr>)
        (rebuild_ipv4_datagram cd h P)
      \<and> fr_groups (snd (fr_feed cd p t r)) = bs"
    and "\<not> {..<length P} \<subseteq> frag_positions (seen @ [f]) \<Longrightarrow>
      fst (fr_feed cd p t r) = None \<and> tracking P h k t0 bs (seen @ [f]) (snd (fr_feed cd p t r))"
proof -
  have pf: "pp_ip_fragment p = Some f" "frag_key p f = k" "pp_ip_declared_payload_len p = length (if_payload f)"
    using c by (simp_all add: carries_def)
  define g0 where "g0 = frag_entry k t r"
  have g0: "group_tracks P h t0 seen g0"
    unfolding g0_def by (rule tracking_prepare(2) [OF tr time])
  obtain g2 written where w: "frag_write f (frag_metadata (length (if_payload f)) f g0) = (g2, written)"
    by (cases "frag_write f (frag_metadata (length (if_payload f)) f g0)")
  have g2: "group_tracks P h t0 (seen @ [f]) g2" "\<not> hit_cap written"
    using tracks_write [OF g0 f P(2) w] by simp_all
  define r1 where "r1 = frag_store k (fg_accounted_bytes g0) g2 (conflicting written) r"
  have feed: "fr_feed cd p t r =
      map_prod id (fr_evict_oldest_until max_fragment_groups max_fragment_bytes_total)
        (frag_emit cd k (fg_status g2) (hit_cap written) r1)"
    using fr_feed_fragment_accepted [OF tracking_prepare(1) [OF tr time, symmetric, folded pf(2)], of g0 g2 written]
      tracks_no_conflict [OF g0 seen f P(2)] w
    by (simp add: fr_feed_def pf r1_def g0_def)
  have ok: "fr_ok r" and bs: "AList.delete k (fr_groups r) = bs"
    and room: "length bs < max_fragment_groups" "weigh fg_accounted_bytes bs + 262156 \<le> max_fragment_bytes_total"
    using tr by (simp_all add: tracking_def)
  have "fr_bytes_held r \<le> max_fragment_bytes_total"
    using tracking_within [OF ok, of k] bs room by (simp add: fr_within_def)
  then have ok1: "fr_ok r1"
    unfolding r1_def using g2(1)
    by (intro frag_store_ok [OF ok]) (auto simp: g0_def accounted_entry group_tracks_def)
  have groups1: "fr_groups r1 = AList.update k g2 (fr_groups r)"
    by (simp add: r1_def frag_store_def)
  then have bs1: "AList.delete k (fr_groups r1) = bs"
    using bs by simp
  have within1: "fr_within max_fragment_groups max_fragment_bytes_total r1"
    using tracking_within [OF ok1, of k] bs1 room by simp
  have m1: "map_of (fr_groups r1) k = Some g2"
    by (simp add: groups1 update_conv')
  have seen': "\<forall>f'\<in>set (seen @ [f]). fragment_of P h f'"
    using seen f by simp
  {
    assume full: "{..<length P} \<subseteq> frag_positions (seen @ [f])"
    note complete = tracks_complete [OF g2(1) full seen' P(1)]
    have "fr_within max_fragment_groups max_fragment_bytes_total (snd (take_group cd k Reassembled r1))"
      by (rule fr_within_mono [OF within1 take_group_ok(2,3) [OF ok1]])
    then show "fst (fr_feed cd p t r) = map_option
        (\<lambda>b. \<lparr>rd_bytes = b, rd_status = Reassembled, rd_payload_len = length P\<rparr>)
        (rebuild_ipv4_datagram cd h P)
      \<and> fr_groups (snd (fr_feed cd p t r)) = bs"
      using complete bs1 m1
      by (cases "rebuild_ipv4_datagram cd h P")
         (auto simp: feed frag_emit_def evict_nothing take_group_state take_group_def Let_def min_def)
  }
  {
    assume "\<not> {..<length P} \<subseteq> frag_positions (seen @ [f])"
    then obtain i where "i < length P" "i \<notin> frag_positions (seen @ [f])" by auto
    then have "fg_prefix_len g2 < length P"
      by (rule tracks_prefix_incomplete [OF g2(1)])
    then have "fg_status g2 = IncompleteMissingFrames"
      using g2(1) by (auto simp: fg_status_def group_tracks_def split: option.splits if_splits)
    then show "fst (fr_feed cd p t r) = None \<and> tracking P h k t0 bs (seen @ [f]) (snd (fr_feed cd p t r))"
      using g2 ok1 bs1 m1 room within1
      by (simp add: feed frag_emit_def evict_nothing tracking_def)
  }
qed

lemma tracking_run:
  assumes "tracking P h k t0 bs seen r" and "\<forall>f\<in>set seen. fragment_of P h f"
    and "list_all2 (\<lambda>(t, p) f. t0 \<le> t \<and> t \<le> t0 + fragment_timeout_ms \<and> carries k p f \<and> fragment_of P h f) ps fs"
    and "P \<noteq> []" and "length P \<le> max_fragment_group_bytes"
    and "\<not> {..<length P} \<subseteq> frag_positions (seen @ fs)"
  shows "fst (fr_feed_all cd ps r) = replicate (length ps) None
    \<and> tracking P h k t0 bs (seen @ fs) (snd (fr_feed_all cd ps r))"
  using assms(3,1,2,6)
proof (induction ps fs arbitrary: seen r rule: list_all2_induct)
  case Nil
  then show ?case by simp
next
  case (Cons tp ps f fs)
  obtain t p where tp: "tp = (t, p)" by (cases tp)
  have "frag_positions (seen @ [f]) \<subseteq> frag_positions (seen @ f # fs)"
    by (auto simp: frag_positions_def)
  with Cons.prems(3) have inc: "\<not> {..<length P} \<subseteq> frag_positions (seen @ [f])" by blast
  have step: "fst (fr_feed cd p t r) = None" "tracking P h k t0 bs (seen @ [f]) (snd (fr_feed cd p t r))"
    using tracking_feed(2) [OF Cons.prems(1) _ _ Cons.prems(2) _ _ assms(4,5) inc, of t p cd]
      Cons.hyps(1) by (auto simp: tp)
  have "\<forall>f'\<in>set (seen @ [f]). fragment_of P h f'"
    using Cons.prems(2) Cons.hyps(1) by (auto simp: tp)
  from Cons.IH [OF step(2) this] Cons.prems(3) step(1) show ?case
    by (auto simp: tp case_prod_unfold Let_def)
qed

section \<open>A small instance\<close>

text \<open>One group with the first eight bytes of a datagram, for the witnesses below.\<close>

definition demo_fragment :: "nat \<Rightarrow> byte list \<Rightarrow> bool \<Rightarrow> parsed_packet" where
  "demo_fragment offset pl mf =
     \<lparr>pp_src_mac = [], pp_dst_mac = [], pp_src_ip = [1], pp_dst_ip = [2], pp_protocol = OtherProtocol,
      pp_src_port = None, pp_dst_port = None, pp_tcp_flags = None, pp_seq = None, pp_ttl = 64,
      pp_total_len = 0, pp_payload = [], pp_header_bytes = [], pp_ip_header_len = 20,
      pp_transport_header_len = 0, pp_ip_version = 4, pp_ip_checksum = None, pp_vlan_tag = None,
      pp_ip_declared_payload_len = length pl,
      pp_ip_fragment = Some \<lparr>if_identification = 7, if_offset_bytes = offset,
        if_more_fragments = mf, if_protocol = 17, if_header = [9], if_payload = pl\<rparr>\<rparr>"

definition demo_codec :: "byte list ipv4_codec" where
  "demo_codec = \<lparr>ch_from_slice = Some, ch_set_more_fragments = (\<lambda>_ h. h),
     ch_set_fragment_offset = (\<lambda>_ h. Some h), ch_set_payload_len = (\<lambda>_ h. Some h),
     ch_refresh_checksum = id, ch_write = Some\<rparr>"

definition demo_key :: fragment_key where
  "demo_key = \<lparr>fk_src = [1], fk_dst = [2], fk_identification = 7, fk_protocol = 17\<rparr>"

definition demo_group :: fragment_group where
  "demo_group = \<lparr>fg_data = \<lparr>elems = [1, 2, 3, 3, 3, 3, 3, 3], capacity = 8\<rparr>,
     fg_filled = \<lparr>elems = [True, True, True, True, True, True, True, True], capacity = 8\<rparr>, fg_prefix_len = 8, fg_total_len = None,
     fg_header = Some [9], fg_short_captured_at = None, fg_first_seen_ms = 5, fg_last_seen_ms = 5\<rparr>"

definition demo_state :: ip_fragment_reassembler where
  "demo_state = \<lparr>fr_groups = [(demo_key, demo_group)], fr_bytes_held = 16, fr_counters = counters_zero\<rparr>"

lemmas demo_defs = demo_fragment_def demo_key_def demo_group_def demo_state_def demo_codec_def

lemma demo_state_inv: "frag_inv demo_state"
  by (simp add: demo_defs frag_inv_def fr_ok_def fr.balanced_def fr_within_def group_ok_def buffer_ok_def
      vec_ok_def held_prefix_len_def fg_accounted_bytes_def sat_add_def usize_max_def
      max_fragment_groups_def max_fragment_bytes_total_def max_fragment_group_bytes_def)

lemma demo_state_group: "map_of (fr_groups demo_state) demo_key = Some demo_group"
  by (simp add: demo_state_def)

lemmas frag_eval =
  fr_feed_def fr_feed_fragment_def frag_key_def frag_make_room_def frag_expire_on_arrival_def
  fg_is_expired_def fragment_timeout_ms_def frag_entry_def frag_terminal_conflict_def frag_metadata_def
  frag_write_def frag_store_def frag_emit_def fg_status_def write_first_seen_wins_def checked_add_def
  usize_max_def max_fragment_groups_def max_fragment_bytes_total_def max_fragment_group_bytes_def
  write_outcome_default_def contiguous_len_from_def contiguous_scan.simps byte_at_def u32_cast_def
  fr_evict_oldest_until_def fr_within_def fg_accounted_bytes_def sat_add_def Let_def

section \<open>Reachable states and monotone content\<close>

inductive fr_reachable :: "'h ipv4_codec \<Rightarrow> ip_fragment_reassembler \<Rightarrow> bool" for cd where
  start: "fr_reachable cd ip_fragment_reassembler_new"
| feed: "fr_reachable cd r \<Longrightarrow> frag_packet_ok p \<Longrightarrow> fr_reachable cd (snd (fr_feed cd p t r))"
| evict: "fr_reachable cd r \<Longrightarrow> fr_reachable cd (snd (fr_evict_stale cd t r))"
| clear: "fr_reachable cd r \<Longrightarrow> fr_reachable cd (fr_clear r)"

lemma fr_reachable_inv: "fr_reachable cd r \<Longrightarrow> frag_inv r"
  by (induction rule: fr_reachable.induct)
     (simp_all add: frag_inv_new fr_feed_inv fr_evict_stale_inv fr_clear_inv)

definition group_bytes :: "fragment_group \<Rightarrow> nat \<Rightarrow> byte option" where
  "group_bytes g = covered (elems (fg_data g)) (elems (fg_filled g))"

lemma groups_evict: "set (fr_groups (fr_evict_oldest_until n b r)) \<subseteq> set (fr_groups r)"
  unfolding fr_evict_oldest_until_eq by (rule fr.evict_loop_ents_subset)

lemma groups_expire_on_arrival:
  "set (fr_groups (frag_expire_on_arrival cd k t r)) \<subseteq> set (fr_groups r)"
  using set_delete_subset [of k "fr_groups r"]
  by (auto simp: frag_expire_on_arrival_def fr_expire_def take_group_state split: option.splits)

lemma groups_make_room: "set (fr_groups (frag_make_room k r)) \<subseteq> set (fr_groups r)"
  using groups_evict by (simp add: frag_make_room_def)

lemma groups_emit: "set (fr_groups (snd (frag_emit cd k st c r))) \<subseteq> set (fr_groups r)"
  using set_delete_subset [of k "fr_groups r"]
  by (cases st) (auto simp: frag_emit_def take_group_state frag_abandon_def split: option.splits)

lemma entry_of_live_group:
  assumes "frag_inv r0" and "r = frag_expire_on_arrival cd k t (frag_make_room k r0)"
    and "map_of (fr_groups r0) k = Some g" and "\<not> fg_is_expired g t"
  shows "frag_entry k t r = g\<lparr>fg_last_seen_ms := t\<rparr>"
proof -
  have "frag_make_room k r0 = r0"
    using assms(3) by (simp add: frag_make_room_def)
  with assms(2-4) have "r = r0"
    by (simp add: frag_expire_on_arrival_def)
  with assms(3) show ?thesis by (simp add: frag_entry_def)
qed

lemma feed_group_source:
  assumes "frag_inv r0" and "frag_packet_ok p" and "pp_ip_fragment p = Some f"
    and "map_of (fr_groups (snd (fr_feed cd p t r0))) k = Some g'"
    and "map_of (fr_groups r0) k = Some g" and "k = frag_key p f \<longrightarrow> \<not> fg_is_expired g t"
  shows "group_bytes g \<subseteq>\<^sub>m group_bytes g'"
proof -
  let ?k = "frag_key p f" and ?decl = "pp_ip_declared_payload_len p"
  define r where "r = frag_expire_on_arrival cd ?k t (frag_make_room ?k r0)"
  define g0 where "g0 = frag_entry ?k t r"
  have inv: "frag_inv r"
    using frag_expire_on_arrival_ok(1) [OF frag_make_room_ok [OF assms(1), of ?k]] unfolding r_def by blast
  then have g0ok: "group_ok g0"
    unfolding g0_def by (intro group_ok_entry) (simp add: frag_inv_def)
  have sub: "set (fr_groups r) \<subseteq> set (fr_groups r0)"
    using groups_expire_on_arrival groups_make_room unfolding r_def by blast
  have dist: "distinct (map fst (fr_groups r0))"
    using assms(1) by (simp add: frag_inv_def fr_ok_def fr.balanced_def)
  have member: "(k, g') \<in> set (fr_groups (snd (fr_feed cd p t r0)))"
    by (rule map_of_SomeD [OF assms(4)])
  have usz: "if_offset_bytes f + length (if_payload f) \<le> usize_max"
    using assms(2,3) by (simp add: frag_packet_ok_def usize_max_def)
  obtain g1 where g1: "(k, g') = (?k, g1) \<or> (k, g') \<in> set (fr_groups r)"
    and mono: "group_bytes g0 \<subseteq>\<^sub>m group_bytes g1"
  proof (cases "frag_terminal_conflict ?decl f g0")
    case True
    then have "snd (fr_feed cd p t r0) = r\<lparr>fr_groups := AList.update ?k g0 (fr_groups r),
        fr_counters := (fr_counters r)\<lparr>conflicting_terminal_fragments :=
          conflicting_terminal_fragments (fr_counters r) + 1\<rparr>\<rparr>"
      by (simp add: fr_feed_def assms(3) fr_feed_fragment_def Let_def r_def g0_def)
    with member show thesis
      by (intro that [of g0]) (auto dest: set_update_values)
  next
    case False
    obtain g2 written where w: "frag_write f (frag_metadata ?decl f g0) = (g2, written)"
      by (cases "frag_write f (frag_metadata ?decl f g0)")
    have "set (fr_groups (snd (fr_feed cd p t r0))) \<subseteq> set (AList.update ?k g2 (fr_groups r))"
      using fr_feed_fragment_accepted [OF r_def g0_def False w]
        groups_evict groups_emit
      by (fastforce simp: fr_feed_def assms(3) frag_store_def)
    with member have "(k, g') = (?k, g2) \<or> (k, g') \<in> set (fr_groups r)"
      using set_update_values by fastforce
    moreover have "group_bytes g0 \<subseteq>\<^sub>m group_bytes g2"
      using frag_write_ok(2) [OF g0ok w usz] by (simp add: group_bytes_def)
    ultimately show thesis by (rule that)
  qed
  from g1 show ?thesis
  proof
    assume "(k, g') \<in> set (fr_groups r)"
    with sub have "(k, g') \<in> set (fr_groups r0)" by blast
    with dist assms(5) have "g' = g" by (metis map_of_is_SomeI option.inject)
    then show ?thesis by simp
  next
    assume fed: "(k, g') = (?k, g1)"
    with assms(5,6) have "g0 = g\<lparr>fg_last_seen_ms := t\<rparr>"
      unfolding g0_def by (intro entry_of_live_group [OF assms(1) r_def]) auto
    with fed mono show ?thesis by (simp add: group_bytes_def)
  qed
qed

section \<open>Properties\<close>

text \<open>
  In every state the reassembler can reach, whatever fragments an attacker sends and
  whenever eviction runs, at most 512 groups and 4 MiB of buffer capacity are held, and the
  byte counter equals the capacity actually retained.
\<close>

lemma fragment_memory_bounded:
  assumes "fr_reachable cd r"
  shows "length (fr_groups r) \<le> 512 \<and> fr_bytes_held r \<le> 4 * 1024 * 1024
    \<and> fr_bytes_held r = (\<Sum>(k, g)\<leftarrow>fr_groups r. capacity (fg_data g) + capacity (fg_filled g))"
proof -
  have inv: "frag_inv r" by (rule fr_reachable_inv [OF assms])
  have "map (fg_accounted_bytes \<circ> snd) (fr_groups r)
      = map (\<lambda>(k, g). capacity (fg_data g) + capacity (fg_filled g)) (fr_groups r)"
    using inv by (auto simp: frag_inv_def fr_ok_def group_ok_accounted(1))
  with inv show ?thesis
    by (simp add: frag_inv_def fr_ok_def fr.balanced_def fr_within_def weigh_def max_fragment_groups_def
        max_fragment_bytes_total_def)
qed

lemma fragment_memory_bounded_witness:
  "\<exists>r. fr_reachable (undefined :: nat ipv4_codec) r \<and> length (fr_groups r) \<le> 512"
  using fragment_memory_bounded [OF fr_reachable.start] fr_reachable.start by blast

text \<open>
  First-seen bytes win. Feeding a fragment never changes or drops a byte that a group
  already holds, as long as the group survives: for every key with a group before and after,
  the bytes held before are still there, with the same values. (The only exception is the fed
  group itself when it had already timed out: then it is replaced.)
\<close>

lemma fragment_bytes_immutable:
  assumes "frag_inv r" and "frag_packet_ok p"
    and "map_of (fr_groups r) k = Some g"
    and "map_of (fr_groups (snd (fr_feed cd p t r))) k = Some g'"
    and "\<forall>f. pp_ip_fragment p = Some f \<longrightarrow> k = frag_key p f \<longrightarrow> \<not> fg_is_expired g t"
    and "group_bytes g i = Some b"
  shows "group_bytes g' i = Some b"
proof (cases "pp_ip_fragment p")
  case None
  with assms show ?thesis by (simp add: fr_feed_def)
next
  case (Some f)
  from feed_group_source [OF assms(1,2) Some assms(4,3)] assms(5,6) Some show ?thesis
    by (metis domI map_le_def)
qed

lemma fragment_bytes_immutable_witness:
  "map_option (\<lambda>g'. group_bytes g' 0)
     (map_of (fr_groups (snd (fr_feed demo_codec (demo_fragment 0 [9, 9, 9, 9, 9, 9, 9, 9] True) 6 demo_state))) demo_key)
   = Some (Some 1)"
proof -
  let ?p = "demo_fragment 0 [9, 9, 9, 9, 9, 9, 9, 9] True"
  have "map_of (fr_groups (snd (fr_feed demo_codec ?p 6 demo_state))) demo_key \<noteq> None"
    by (simp add: demo_defs frag_eval)
  then obtain g' where g': "map_of (fr_groups (snd (fr_feed demo_codec ?p 6 demo_state))) demo_key = Some g'"
    by blast
  have "group_bytes g' 0 = Some 1"
    by (rule fragment_bytes_immutable [OF demo_state_inv _ demo_state_group g'])
       (simp_all add: frag_packet_ok_def demo_fragment_def demo_group_def fg_is_expired_def
         fragment_timeout_ms_def group_bytes_def covered_def)
  with g' show ?thesis by simp
qed

text \<open>
  A forged last fragment cannot cut a datagram short. If a fragment with the
  more-fragments bit clear would move an end already known, or ends before bytes already held,
  nothing is returned, the group keeps its bytes, its header and its end, and the attempt is
  counted.
\<close>

lemma forged_terminal_rejected:
  assumes "frag_inv r" and "pp_ip_fragment p = Some f" and "k = frag_key p f"
    and "map_of (fr_groups r) k = Some g" and "\<not> fg_is_expired g t"
    and "\<not> if_more_fragments f" and "if_offset_bytes f + pp_ip_declared_payload_len p = e" and "e \<le> usize_max"
    and "(\<exists>n. fg_total_len g = Some n \<and> n \<noteq> e) \<or>
         (fg_total_len g = None \<and> (\<exists>i\<ge>e. group_bytes g i \<noteq> None))"
  shows "fst (fr_feed cd p t r) = None
    \<and> map_of (fr_groups (snd (fr_feed cd p t r))) k = Some (g\<lparr>fg_last_seen_ms := t\<rparr>)
    \<and> conflicting_terminal_fragments (fr_counters (snd (fr_feed cd p t r)))
        = conflicting_terminal_fragments (fr_counters r) + 1"
proof -
  have prep: "frag_expire_on_arrival cd k t (frag_make_room k r) = r"
    using assms(4,5) by (simp add: frag_make_room_def frag_expire_on_arrival_def)
  have g0: "frag_entry k t r = g\<lparr>fg_last_seen_ms := t\<rparr>"
    by (rule entry_of_live_group [OF assms(1) prep [symmetric] assms(4,5)])
  have "True \<in> set (drop e (elems (fg_filled g)))" if "e \<le> i" "group_bytes g i \<noteq> None" for i
    using that by (auto simp: group_bytes_def covered_def in_set_conv_nth intro!: exI [of _ "i - e"]
        split: if_splits)
  with assms(6-9) have "frag_terminal_conflict (pp_ip_declared_payload_len p) f (g\<lparr>fg_last_seen_ms := t\<rparr>)"
    by (auto simp: frag_terminal_conflict_def sat_add_exact Let_def)
  then show ?thesis
    by (simp add: fr_feed_def assms(2) fr_feed_fragment_def Let_def assms(3) [symmetric] prep g0 update_conv')
qed

lemma forged_terminal_rejected_witness:
  "fst (fr_feed demo_codec (demo_fragment 0 [9, 9] False) 6 demo_state) = None"
proof -
  let ?p = "demo_fragment 0 [9, 9] False"
  have frag: "pp_ip_fragment ?p = Some (the (pp_ip_fragment ?p))"
    and key: "demo_key = frag_key ?p (the (pp_ip_fragment ?p))"
    by (simp_all add: demo_fragment_def demo_key_def frag_key_def)
  have "group_bytes demo_group 7 \<noteq> None"
    by (simp add: group_bytes_def demo_group_def covered_def)
  then have late: "\<exists>i\<ge>2. group_bytes demo_group i \<noteq> None"
    by (intro exI [of _ 7]) simp
  show ?thesis
    using forged_terminal_rejected [OF demo_state_inv frag key demo_state_group, of 6 2 demo_codec] late
    by (simp add: demo_fragment_def demo_group_def fg_is_expired_def fragment_timeout_ms_def usize_max_def)
qed

text \<open>
  C3: Reassembly is correct in any arrival order. Take the fragments of one datagram with
  payload \<open>P\<close>, captured whole, in any order and with any duplicates or overlaps, all within
  the reassembly timeout. If all but the last of them leave a gap and the last closes it, then
  every earlier feed returns nothing, the last one returns the datagram rebuilt from the first
  fragment's header and exactly \<open>P\<close>, marked reassembled, and the group is gone afterwards. The
  other groups the reassembler holds are untouched.
\<close>

theorem fragments_reassemble_in_any_order:
  assumes "frag_inv r" and "map_of (fr_groups r) k = None"
    and "length (fr_groups r) < max_fragment_groups"
    and "fr_bytes_held r + 262156 \<le> max_fragment_bytes_total"
    and "P \<noteq> []" and "length P \<le> max_fragment_group_bytes"
    and "list_all2 (\<lambda>(t, p) f. t0 \<le> t \<and> t \<le> t0 + fragment_timeout_ms \<and> carries k p f \<and> fragment_of P h f)
           (ps @ [(t, p)]) (fs @ [f])"
    and "\<not> {..<length P} \<subseteq> frag_positions fs" and "{..<length P} \<subseteq> frag_positions (fs @ [f])"
    and "rebuild_ipv4_datagram cd h P = Some bytes"
  shows "fst (fr_feed_all cd (ps @ [(t, p)]) r)
      = replicate (length ps) None
        @ [Some \<lparr>rd_bytes = bytes, rd_status = Reassembled, rd_payload_len = length P\<rparr>]
    \<and> fr_groups (snd (fr_feed_all cd (ps @ [(t, p)]) r)) = fr_groups r"
proof -
  have "fr_bytes_held r = weigh fg_accounted_bytes (fr_groups r)"
    using assms(1) by (simp add: frag_inv_def fr_ok_def fr.balanced_def)
  with assms(1-4) have start: "tracking P h k t0 (fr_groups r) [] r"
    by (simp add: tracking_def frag_inv_def)
  have pairs: "list_all2 (\<lambda>(t, p) f. t0 \<le> t \<and> t \<le> t0 + fragment_timeout_ms \<and> carries k p f \<and> fragment_of P h f) ps fs"
    and last: "t0 \<le> t" "t \<le> t0 + fragment_timeout_ms" "carries k p f" "fragment_of P h f"
    using assms(7) by (auto simp: list_all2_append2 list_all2_Cons2)
  let ?r = "snd (fr_feed_all cd ps r)"
  have run: "fst (fr_feed_all cd ps r) = replicate (length ps) None" "tracking P h k t0 (fr_groups r) fs ?r"
    using tracking_run [OF start _ pairs assms(5,6)] assms(8) by auto
  have "\<forall>f\<in>set fs. fragment_of P h f"
    using pairs by (auto simp: list_all2_conv_all_nth in_set_conv_nth case_prod_unfold)
  from tracking_feed(1) [OF run(2) last(1,2) this last(4,3) assms(5,6,9), of cd] run(1) assms(10)
  show ?thesis
    by (simp add: fr_feed_all_append case_prod_unfold Let_def)
qed

theorem fragments_reassemble_in_any_order_witness:
  "fst (fr_feed_all demo_codec
      [(5, demo_fragment 8 [4, 5] False), (6, demo_fragment 0 [1, 2, 3, 3, 3, 3, 3, 3] True)]
      ip_fragment_reassembler_new)
   = [None, Some \<lparr>rd_bytes = [9, 1, 2, 3, 3, 3, 3, 3, 3, 4, 5], rd_status = Reassembled, rd_payload_len = 10\<rparr>]"
proof -
  let ?P = "[1, 2, 3, 3, 3, 3, 3, 3, 4, 5] :: byte list"
  let ?f1 = "the (pp_ip_fragment (demo_fragment 8 [4, 5] False))"
  let ?f2 = "the (pp_ip_fragment (demo_fragment 0 [1, 2, 3, 3, 3, 3, 3, 3] True))"
  let ?k = "\<lparr>fk_src = [1], fk_dst = [2], fk_identification = 7, fk_protocol = 17\<rparr>"
  have pos: "frag_positions [?f1] = {8..<10}" "frag_positions [?f1, ?f2] = {0..<8} \<union> {8..<10}"
    by (auto simp: frag_positions_def demo_fragment_def)
  have "0 \<notin> frag_positions [?f1]" by (simp add: pos)
  then have gap: "\<not> {..<length ?P} \<subseteq> frag_positions [?f1]" by auto
  have full: "{..<length ?P} \<subseteq> frag_positions ([?f1] @ [?f2])" by (auto simp: pos)
  have rb: "rebuild_ipv4_datagram demo_codec [9] ?P = Some ([9] @ ?P)"
    by (simp add: rebuild_ipv4_datagram_def demo_codec_def)
  have frs: "list_all2 (\<lambda>(t, p) f. 5 \<le> t \<and> t \<le> 5 + fragment_timeout_ms \<and> carries ?k p f \<and> fragment_of ?P [9] f)
     ([(5, demo_fragment 8 [4, 5] False)] @ [(6, demo_fragment 0 [1, 2, 3, 3, 3, 3, 3, 3] True)]) ([?f1] @ [?f2])"
    by (simp add: carries_def fragment_of_def demo_fragment_def frag_key_def fragment_timeout_ms_def)
  show ?thesis
    using fragments_reassemble_in_any_order [OF frag_inv_new _ _ _ _ _ frs gap full rb]
    by (simp add: ip_fragment_reassembler_new_def max_fragment_groups_def max_fragment_bytes_total_def
        max_fragment_group_bytes_def)
qed

end
