(* ===== verification/L7Types.thy ===== *)
theory L7Types
  imports RustStr
begin

text \<open>
  The data the application-layer detectors of \<open>l7.rs\<close> produce, and the outcome type of the
  desegmenting sniffer. Port numbers, transaction identifiers and record types are the naturals
  their big-endian reads denote.
\<close>

record dns_answer =
  da_name :: rstring
  da_rtype :: nat
  da_ttl :: nat
  da_data :: rstring
  da_data_truncated :: bool

datatype l7_info =
    Http (http_method: rstring) (http_path: rstring)
  | HttpResponse (http_status: rstring) (http_reason: "rstring option")
      (http_content_type: "rstring option") (http_content_length: "nat option")
  | Dns (dns_query_name: rstring) (dns_id: nat) (dns_qtype: nat)
  | DnsResponse (dns_query_name: rstring) (dns_id: nat) (dns_qtype: nat) (dns_rcode: nat)
      (dns_answer_count: nat) (dns_answers: "dns_answer list")
  | TlsClientHello (tls_sni: rstring) (tls_ja3: "rstring option") (tls_ja3_label: "rstring option")
      (tls_client_random: "byte list option") (tls_sni_offset: nat) (tls_sni_len: nat)
  | L7None

fun is_dns_info :: "l7_info \<Rightarrow> bool" where
  "is_dns_info (Dns _ _ _) = True"
| "is_dns_info (DnsResponse _ _ _ _ _ _) = True"
| "is_dns_info _ = False"

datatype l7_sniff = Decided l7_info | NeedMoreBytes nat | Undecided

definition or_else :: "'a option \<Rightarrow> 'a option \<Rightarrow> 'a option" where
  "or_else a b = (case a of None \<Rightarrow> b | Some x \<Rightarrow> Some x)"

lemma or_else_simps [simp]:
  "or_else None b = b" "or_else (Some x) b = Some x"
  by (simp_all add: or_else_def)

lemma or_else_None_iff: "or_else a b = None \<longleftrightarrow> a = None \<and> b = None"
  by (cases a) simp_all

end
