(* ===== verification/L7Http.thy ===== *)
theory L7Http
  imports L7Types Redact
begin

text \<open>
  HTTP/1.x start lines and the two response headers the agent reads (\<open>l7.rs\<close>:
  \<open>first_complete_line\<close>, \<open>sniff_http\<close>, \<open>sniff_http_response\<close> and their helpers).
\<close>

section \<open>Limits and methods\<close>

definition max_http_header_scan_bytes :: nat where "max_http_header_scan_bytes = 8192"
definition max_http_header_lines :: nat where "max_http_header_lines = 100"
definition max_http_reason_bytes :: nat where "max_http_reason_bytes = 128"
definition max_http_content_type_bytes :: nat where "max_http_content_type_bytes = 255"

definition http_methods :: "rstring list" where
  "http_methods = map lit [''GET'', ''POST'', ''PUT'', ''DELETE'', ''HEAD'', ''OPTIONS'', ''PATCH'']"

section \<open>Start lines\<close>

definition strip_cr :: "byte list \<Rightarrow> byte list" where
  "strip_cr line = (case strip_suffix_byte 0x0D line of None \<Rightarrow> line | Some l \<Rightarrow> l)"

definition first_complete_line :: "byte list \<Rightarrow> rstring option" where
  "first_complete_line payload =
     Option.bind (position (\<lambda>b. b = 0x0A) payload) (\<lambda>newline.
     Option.bind (slice_get payload 0 newline) (\<lambda>line.
     from_utf8 (strip_cr line)))"

definition sniff_http :: "byte list \<Rightarrow> l7_info option" where
  "sniff_http payload =
     Option.bind (first_complete_line payload) (\<lambda>first_line.
     case split_whitespace first_line of
       meth # path # _ \<Rightarrow>
         if meth \<in> set http_methods \<and> starts_with path (lit ''/'')
         then Some (Http meth path) else None
     | _ \<Rightarrow> None)"

section \<open>Response headers\<close>

definition is_ows :: "byte \<Rightarrow> bool" where
  "is_ows b \<longleftrightarrow> b = 0x20 \<or> b = 0x09"

definition trim_ows :: "byte list \<Rightarrow> byte list" where
  "trim_ows bs = rev (dropWhile is_ows (rev (dropWhile is_ows bs)))"

definition parse_content_length :: "byte list \<Rightarrow> nat option" where
  "parse_content_length value =
     (if value = [] \<or> \<not> list_all ascii_digit value then None
      else Option.bind (from_utf8 value) parse_u64_digits)"

definition is_http_token_byte :: "byte \<Rightarrow> bool" where
  "is_http_token_byte b \<longleftrightarrow>
     ascii_alphanumeric b \<or> b \<in> set (lit ''!#$%&'' @ [0x27] @ lit ''*+-.^_'' @ [0x60] @ lit ''|~'')"

definition http_token :: "byte list \<Rightarrow> bool" where
  "http_token t \<longleftrightarrow> t \<noteq> [] \<and> list_all is_http_token_byte t"

definition media_type :: "byte list \<Rightarrow> rstring option" where
  "media_type value =
     (let stop = (case position (\<lambda>b. b = 0x3B) value of None \<Rightarrow> length value | Some n \<Rightarrow> n);
          media = trim_ows (take stop value)
      in if length media > max_http_content_type_bytes then None
         else Option.bind (position (\<lambda>b. b = 0x2F) media) (\<lambda>slash.
           if \<not> http_token (take slash media) \<or> \<not> http_token (drop (slash + 1) media) then None
           else Some (to_ascii_lowercase media)))"

datatype 'a seen = Unseen | SeenValue 'a | Conflict

fun seen_record :: "'a seen \<Rightarrow> 'a option \<Rightarrow> 'a seen" where
  "seen_record Unseen (Some v) = SeenValue v"
| "seen_record (SeenValue old) (Some v) = (if old = v then SeenValue old else Conflict)"
| "seen_record _ _ = Conflict"

fun seen_into_option :: "'a seen \<Rightarrow> 'a option" where
  "seen_into_option (SeenValue v) = Some v"
| "seen_into_option _ = None"

datatype last_header = LastType | LastLength | LastOther

text \<open>
  \<open>split_inclusive\<close> on the line feed: every piece but possibly the final one ends with it.
\<close>

function split_lines :: "byte list \<Rightarrow> byte list list" where
  "split_lines bs =
     (if bs = [] then []
      else case position (\<lambda>b. b = 0x0A) bs of
             None \<Rightarrow> [bs]
           | Some n \<Rightarrow> take (n + 1) bs # split_lines (drop (n + 1) bs))"
  by pat_completeness auto
termination
  by (relation "measure length") (auto dest: position_Some)

declare split_lines.simps [simp del]

text \<open>The loop over the header lines: \<open>(last, content_type, content_length)\<close>.\<close>

fun header_lines ::
  "byte list list \<Rightarrow> last_header \<Rightarrow> rstring seen \<Rightarrow> nat seen \<Rightarrow> rstring seen \<times> nat seen" where
  "header_lines [] last_seen ct cl = (ct, cl)"
| "header_lines (raw # rest) last_seen ct cl =
     (case strip_suffix_byte 0x0A raw of
        None \<Rightarrow> (ct, cl)
      | Some line0 \<Rightarrow>
          let line = strip_cr line0 in
          if line = [] then (ct, cl)
          else if is_ows (hd line) then
            (case last_seen of
               LastType \<Rightarrow> header_lines rest last_seen (seen_record ct None) cl
             | LastLength \<Rightarrow> header_lines rest last_seen ct (seen_record cl None)
             | LastOther \<Rightarrow> header_lines rest last_seen ct cl)
          else (case position (\<lambda>b. b = 0x3A) line of
                  None \<Rightarrow> header_lines rest LastOther ct cl
                | Some colon \<Rightarrow>
                    let name = take colon line; value = trim_ows (drop (colon + 1) line) in
                    if eq_ignore_ascii_case name (lit ''content-type'')
                    then header_lines rest LastType (seen_record ct (media_type value)) cl
                    else if eq_ignore_ascii_case name (lit ''content-length'')
                    then header_lines rest LastLength ct (seen_record cl (parse_content_length value))
                    else header_lines rest LastOther ct cl))"

definition parse_response_headers :: "byte list \<Rightarrow> rstring option \<times> nat option" where
  "parse_response_headers after_status_line =
     (let window = take max_http_header_scan_bytes after_status_line;
          (ct, cl) = header_lines (take max_http_header_lines (split_lines window)) LastOther Unseen Unseen
      in (seen_into_option ct, seen_into_option cl))"

section \<open>Responses\<close>

definition strip_prefix :: "'a list \<Rightarrow> 'a list \<Rightarrow> 'a list option" where
  "strip_prefix s p = (if starts_with s p then Some (drop (length p) s) else None)"

definition printable_ascii :: "byte \<Rightarrow> bool" where
  "printable_ascii b \<longleftrightarrow> 0x20 \<le> b \<and> b \<le> 0x7E"

definition parse_reason :: "rstring \<Rightarrow> rstring \<Rightarrow> rstring option" where
  "parse_reason first_line status =
     Option.bind (snd (ws_break (trim_start first_line))) (\<lambda>after_version.
     Option.bind (strip_prefix (trim_start after_version) status) (\<lambda>rest.
     let reason = str_trim rest in
     if reason = [] \<or> length reason > max_http_reason_bytes \<or> \<not> list_all printable_ascii reason
     then None else Some reason))"

definition redact_reason :: "rstring option \<Rightarrow> rstring option" where
  "redact_reason reason = map_option (\<lambda>r. snd (hd (redact_headers [(lit ''reason'', r)]))) reason"

definition sniff_http_response :: "byte list \<Rightarrow> l7_info option" where
  "sniff_http_response payload =
     Option.bind (first_complete_line payload) (\<lambda>first_line.
     case split_whitespace first_line of
       [] \<Rightarrow> None
     | version # more_parts \<Rightarrow>
         if \<not> starts_with version (lit ''HTTP/'') then None
         else (case more_parts of
                 [] \<Rightarrow> None
               | status # _ \<Rightarrow>
                   if length status = 3 \<and> list_all ascii_digit status then
                     let headers = (case position (\<lambda>b. b = 0x0A) payload of
                                      None \<Rightarrow> [] | Some n \<Rightarrow> drop (n + 1) payload);
                         (ct, cl) = parse_response_headers headers
                     in Some (HttpResponse status (redact_reason (parse_reason first_line status)) ct cl)
                   else None))"

section \<open>Unterminated start lines\<close>

definition max_start_line_probe :: nat where "max_start_line_probe = 2048"

definition looks_like_request :: "byte list \<Rightarrow> bool" where
  "looks_like_request payload \<longleftrightarrow>
     list_ex (\<lambda>token. if length payload \<le> length token then starts_with token payload
                      else starts_with payload token \<and> byte_at payload (length token) = Some 0x20)
       http_methods"

definition looks_like_response :: "byte list \<Rightarrow> bool" where
  "looks_like_response payload \<longleftrightarrow>
     (let token = lit ''HTTP/''
      in if length payload \<le> length token then starts_with token payload else starts_with payload token)"

definition unterminated_http_start_line :: "byte list \<Rightarrow> bool" where
  "unterminated_http_start_line payload \<longleftrightarrow>
     \<not> (payload = [] \<or> length payload > max_start_line_probe \<or> 0x0A \<in> set payload)
     \<and> list_all (\<lambda>b. (0x20 \<le> b \<and> b < 0x7F) \<or> b = 0x0D) payload
     \<and> (looks_like_request payload \<or> looks_like_response payload)"

section \<open>Words and lines\<close>

definition graphic :: "byte \<Rightarrow> bool" where
  "graphic b \<longleftrightarrow> 0x21 \<le> b \<and> b \<le> 0x7E"

lemma ws_prefix_len_graphic: "graphic b \<Longrightarrow> ws_prefix_len (b # bs) = 0"
proof -
  assume g: "graphic b"
  have ws: "w \<noteq> [] \<and> \<not> graphic (hd w)" if "w \<in> set ws_encodings" for w
    using that by (auto simp: ws_encodings_def graphic_def)
  have "\<not> starts_with (b # bs) w" if "w \<in> set ws_encodings" for w
    using ws [OF that] g by (cases w) (auto simp: starts_with_def)
  then have "find (\<lambda>w. starts_with (b # bs) w) ws_encodings = None"
    by (simp add: find_None_iff)
  then show ?thesis by (simp add: ws_prefix_len_def)
qed

lemma ws_prefix_len_space: "ws_prefix_len (0x20 # bs) = 1"
  by (simp add: ws_prefix_len_def ws_encodings_def starts_with_def)

lemma ws_break_word: "list_all graphic w \<Longrightarrow> ws_break (w @ 0x20 # r) = (w, Some r)"
  by (induction w) (simp_all add: ws_prefix_len_graphic ws_prefix_len_space)

lemma split_whitespace_word:
  "list_all graphic w \<Longrightarrow> w \<noteq> [] \<Longrightarrow> split_whitespace (w @ 0x20 # r) = w # split_whitespace r"
  by (subst split_whitespace.simps) (simp add: ws_break_word)

lemma position_append_first:
  "x \<notin> set xs \<Longrightarrow> position (\<lambda>b. b = x) (xs @ x # ys) = Some (length xs)"
proof -
  assume "x \<notin> set xs"
  then have "takeWhile (\<lambda>b. b \<noteq> x) (xs @ x # ys) = xs" by (induction xs) auto
  then show ?thesis by (simp add: position_def Let_def)
qed

lemma first_complete_line_crlf:
  assumes "0x0A \<notin> set line" and "utf8_valid line"
  shows "first_complete_line (line @ 0x0D # 0x0A # rest) = Some line"
proof -
  have "position (\<lambda>b. b = 0x0A) ((line @ [0x0D]) @ 0x0A # rest) = Some (length (line @ [0x0D]))"
    by (rule position_append_first) (simp add: assms(1))
  then show ?thesis
    using assms(2)
    by (simp add: first_complete_line_def slice_get_def strip_cr_def strip_suffix_byte_def from_utf8_def)
qed

lemma first_complete_line_None: "0x0A \<notin> set payload \<Longrightarrow> first_complete_line payload = None"
proof -
  assume "0x0A \<notin> set payload"
  then have "position (\<lambda>b. b = 0x0A) payload = None" by (auto simp: position_None)
  then show ?thesis by (simp add: first_complete_line_def)
qed

section \<open>Requests\<close>

definition request_line :: "rstring \<Rightarrow> rstring \<Rightarrow> rstring \<Rightarrow> byte list" where
  "request_line meth path proto = meth @ [0x20] @ path @ [0x20] @ proto"

definition request_ok :: "rstring \<Rightarrow> rstring \<Rightarrow> rstring \<Rightarrow> bool" where
  "request_ok meth path proto \<longleftrightarrow>
     meth \<in> set http_methods \<and> starts_with path (lit ''/'') \<and> list_all graphic path
     \<and> list_all printable_ascii proto"

lemma method_graphic: "meth \<in> set http_methods \<Longrightarrow> list_all graphic meth \<and> meth \<noteq> [] \<and> hd meth \<noteq> 0x16"
  by (auto simp: http_methods_def lit_def graphic_def)

lemma graphic_printable: "graphic b \<Longrightarrow> printable_ascii b"
  by (simp add: graphic_def printable_ascii_def word_le_nat_alt)

lemma request_line_printable:
  assumes "request_ok meth path proto"
  shows "list_all printable_ascii (request_line meth path proto)"
proof -
  have "printable_ascii 0x20" by (simp add: printable_ascii_def)
  then show ?thesis
    using assms method_graphic [of meth]
    by (auto simp: request_ok_def request_line_def list_all_iff intro: graphic_printable)
qed

lemma printable_bytes:
  assumes "list_all printable_ascii bs"
  shows "0x0A \<notin> set bs" and "0 \<notin> set bs" and "utf8_valid bs"
    and "list_all (\<lambda>b. (0x20 \<le> b \<and> b < 0x7F) \<or> b = 0x0D) bs"
proof -
  have b: "b < 0x7F" "b < 0x80" "b \<noteq> 0x0A" "b \<noteq> 0" "0x20 \<le> b" if "printable_ascii b" for b
    using that by (auto simp: printable_ascii_def word_le_nat_alt word_less_nat_alt)
  show "0x0A \<notin> set bs" "0 \<notin> set bs" "list_all (\<lambda>b. (0x20 \<le> b \<and> b < 0x7F) \<or> b = 0x0D) bs"
    using assms b by (fastforce simp: list_all_iff)+
  show "utf8_valid bs"
    using assms b by (intro utf8_valid_ascii) (auto simp: list_all_iff is_ascii_byte_def)
qed

lemma sniff_http_request:
  assumes "request_ok meth path proto"
  shows "sniff_http (request_line meth path proto @ [0x0D, 0x0A] @ rest) = Some (Http meth path)"
proof -
  note p = printable_bytes [OF request_line_printable [OF assms]]
  have path: "list_all graphic path" "path \<noteq> []"
    using assms by (auto simp: request_ok_def starts_with_def lit_def)
  have "split_whitespace (request_line meth path proto) = meth # path # split_whitespace proto"
    using method_graphic [of meth] assms path
    by (simp add: request_line_def split_whitespace_word request_ok_def)
  moreover have "first_complete_line (request_line meth path proto @ [0x0D, 0x0A] @ rest)
      = Some (request_line meth path proto)"
    using first_complete_line_crlf [OF p(1,3)] by simp
  ultimately show ?thesis using assms by (simp add: sniff_http_def request_ok_def)
qed


lemma request_prefix_looks_like_request:
  assumes "meth \<in> set http_methods"
  shows "looks_like_request (take n (meth @ 0x20 # rest))"
proof -
  have "if length (take n (meth @ 0x20 # rest)) \<le> length meth
        then starts_with meth (take n (meth @ 0x20 # rest))
        else starts_with (take n (meth @ 0x20 # rest)) meth
          \<and> byte_at (take n (meth @ 0x20 # rest)) (length meth) = Some 0x20"
    by (cases "n \<le> length meth") (auto simp: starts_with_def byte_at_def nth_append min_def)
  then show ?thesis unfolding looks_like_request_def list_ex_iff by (rule bexI [OF _ assms])
qed

lemma partial_request_line:
  assumes "request_ok meth path proto" and "0 < n" and "n \<le> max_start_line_probe"
    and "payload = take n (request_line meth path proto @ [0x0D])"
  shows "unterminated_http_start_line payload" and "0x0A \<notin> set payload" and "0 \<notin> set payload"
    and "hd payload \<noteq> 0x16" and "payload \<noteq> []"
proof -
  note p = printable_bytes [OF request_line_printable [OF assms(1)]]
  have sub: "set payload \<subseteq> insert 0x0D (set (request_line meth path proto))"
    using set_take_subset [of n "request_line meth path proto @ [0x0D]"] assms(4) by simp
  show lf: "0x0A \<notin> set payload" "0 \<notin> set payload" using sub p(1,2) by auto
  have m: "meth \<in> set http_methods" using assms(1) by (simp add: request_ok_def)
  show ne: "payload \<noteq> []" "hd payload \<noteq> 0x16"
    using assms(2,4) method_graphic [OF m] by (cases n; cases meth; simp add: request_line_def)+
  have "looks_like_request payload"
    using request_prefix_looks_like_request [OF m, of n "path @ [0x20] @ proto @ [0x0D]"] assms(4)
    by (simp add: request_line_def)
  moreover have "list_all (\<lambda>b. (0x20 \<le> b \<and> b < 0x7F) \<or> b = 0x0D) payload"
    using sub p(4) by (auto simp: list_all_iff)
  ultimately show "unterminated_http_start_line payload"
    using assms(3,4) lf ne by (simp add: unterminated_http_start_line_def)
qed

section \<open>Responses\<close>

lemma position_decompose:
  assumes "position (\<lambda>b. b = x) xs = Some n"
  shows "xs = take n xs @ x # drop (n + 1) xs"
  using id_take_nth_drop [OF position_Some(1) [OF assms]] position_Some(2) [OF assms] by simp

lemma media_type_shape:
  assumes "media_type value = Some c"
  shows "length c \<le> max_http_content_type_bytes"
    and "\<exists>kind subtype. http_token kind \<and> http_token subtype
           \<and> c = to_ascii_lowercase kind @ lit ''/'' @ to_ascii_lowercase subtype"
proof -
  from assms obtain media slash where m: "position (\<lambda>b. b = 0x2F) media = Some slash"
    "http_token (take slash media)" "http_token (drop (slash + 1) media)"
    "c = to_ascii_lowercase media" "length media \<le> max_http_content_type_bytes"
    by (auto simp: media_type_def Let_def bind_eq_Some_conv split: if_splits)
  show "length c \<le> max_http_content_type_bytes" using m by (simp add: to_ascii_lowercase_def)
  have "c = to_ascii_lowercase (take slash media) @ lit ''/'' @ to_ascii_lowercase (drop (slash + 1) media)"
    using m(4) arg_cong [OF position_decompose [OF m(1)], of to_ascii_lowercase]
    by (simp add: to_ascii_lowercase_def lit_def to_lower_byte_def ascii_upper_def)
  with m show "\<exists>kind subtype. http_token kind \<and> http_token subtype
           \<and> c = to_ascii_lowercase kind @ lit ''/'' @ to_ascii_lowercase subtype" by blast
qed

definition seen_all :: "('a \<Rightarrow> bool) \<Rightarrow> 'a seen \<Rightarrow> bool" where
  "seen_all P s \<longleftrightarrow> (case s of SeenValue v \<Rightarrow> P v | _ \<Rightarrow> True)"

lemma seen_all_record: "seen_all P s \<Longrightarrow> (\<And>x. v = Some x \<Longrightarrow> P x) \<Longrightarrow> seen_all P (seen_record s v)"
  by (cases s; cases v) (auto simp: seen_all_def)

lemma seen_all_into: "seen_all P s \<Longrightarrow> seen_into_option s = Some x \<Longrightarrow> P x"
  by (cases s) (auto simp: seen_all_def)

lemma header_lines_seen_all:
  assumes "\<And>value x. media_type value = Some x \<Longrightarrow> P x"
    and "\<And>value x. parse_content_length value = Some x \<Longrightarrow> Q x"
    and "seen_all P ct" and "seen_all Q cl" and "header_lines lines l ct cl = (ct', cl')"
  shows "seen_all P ct' \<and> seen_all Q cl'"
  using assms(3-5)
proof (induction lines arbitrary: l ct cl)
  case (Cons raw lines)
  have rec: "seen_all P (seen_record ct None)" "seen_all Q (seen_record cl None)"
    "seen_all P (seen_record ct (media_type v))" "seen_all Q (seen_record cl (parse_content_length v))" for v
    using Cons.prems(1,2) assms(1,2) by (blast intro: seen_all_record)+
  note eq = Cons.prems(3) [unfolded header_lines.simps Let_def]
  show ?case
  proof (cases "strip_suffix_byte 0x0A raw")
    case None
    with eq Cons.prems(1,2) show ?thesis by simp
  next
    case (Some line0)
    show ?thesis
    proof (cases "strip_cr line0 = [] \<or> is_ows (hd (strip_cr line0))")
      case True
      with eq Some Cons.prems(1,2) rec(1,2) show ?thesis
        by (cases l) (auto split: if_splits dest!: Cons.IH [rotated 2])
    next
      case False
      with eq Some Cons.prems(1,2) show ?thesis
        by (cases "position (\<lambda>b. b = 0x3A) (strip_cr line0)")
           (auto simp: rec split: if_splits dest!: Cons.IH [rotated 2])
    qed
  qed
qed simp

lemma parse_content_length_bound: "parse_content_length value = Some n \<Longrightarrow> n \<le> u64_max"
  by (auto simp: parse_content_length_def parse_u64_digits_def Let_def from_utf8_def
      split: if_splits)

definition content_type_shape :: "rstring \<Rightarrow> bool" where
  "content_type_shape c \<longleftrightarrow> length c \<le> max_http_content_type_bytes
     \<and> (\<exists>kind subtype. http_token kind \<and> http_token subtype
          \<and> c = to_ascii_lowercase kind @ lit ''/'' @ to_ascii_lowercase subtype)"

lemma media_type_content_type_shape: "media_type v = Some x \<Longrightarrow> content_type_shape x"
  using media_type_shape [of v x] by (simp add: content_type_shape_def)

lemma parse_response_headers_shape:
  assumes "parse_response_headers hs = (ct, cl)"
  shows "ct = Some c \<Longrightarrow> content_type_shape c" and "cl = Some n \<Longrightarrow> n \<le> u64_max"
proof -
  obtain ct' cl' where h: "header_lines (take max_http_header_lines
      (split_lines (take max_http_header_scan_bytes hs))) LastOther Unseen Unseen = (ct', cl')"
    by (metis surj_pair)
  have "seen_all content_type_shape ct' \<and> seen_all (\<lambda>n. n \<le> u64_max) cl'"
    by (rule header_lines_seen_all [OF _ _ _ _ h])
       (auto simp: media_type_content_type_shape parse_content_length_bound seen_all_def)
  then show "ct = Some c \<Longrightarrow> content_type_shape c" "cl = Some n \<Longrightarrow> n \<le> u64_max"
    using assms h by (auto simp: parse_response_headers_def dest: seen_all_into)
qed

definition clean_reason :: "rstring \<Rightarrow> bool" where
  "clean_reason r \<longleftrightarrow> r \<noteq> [] \<and> length r \<le> max_http_reason_bytes \<and> list_all printable_ascii r
     \<and> \<not> looks_like_bearer_token r"

lemma redact_reason_clean:
  assumes "redact_reason (parse_reason line status) = Some r"
  shows "clean_reason r"
proof -
  have red: "clean_reason redacted_text"
    using redacted_text_not_bearer
    by (simp add: clean_reason_def redacted_text_def lit_def max_http_reason_bytes_def printable_ascii_def)
  from assms obtain x where x: "parse_reason line status = Some x"
    "r = snd (hd (redact_headers [(lit ''reason'', x)]))"
    by (auto simp: redact_reason_def)
  from x(1) have "x \<noteq> []" "length x \<le> max_http_reason_bytes" "list_all printable_ascii x"
    by (auto simp: parse_reason_def bind_eq_Some_conv Let_def split: if_splits)
  then show ?thesis
    using x(2) red by (auto simp: redact_headers_def redact_header_def clean_reason_def split: if_splits)
qed

text \<open>
  What is reported of a response is sanitised: the status is three digits, a reason phrase is
  non-empty printable ASCII within its cap and never a bearer token, a content type is one
  lower-case \<open>token/token\<close> within its cap, a content length fits 64 bits.
\<close>

lemma http_response_sanitised:
  assumes "sniff_http_response payload = Some (HttpResponse status reason ctype clen)"
  shows "length status = 3 \<and> list_all ascii_digit status
    \<and> (\<forall>r. reason = Some r \<longrightarrow> clean_reason r)
    \<and> (\<forall>c. ctype = Some c \<longrightarrow> content_type_shape c)
    \<and> (\<forall>n. clen = Some n \<longrightarrow> n \<le> u64_max)"
proof -
  from assms obtain line where line: "first_complete_line payload = Some line"
    by (auto simp: sniff_http_response_def bind_eq_Some_conv)
  with assms obtain version status' rest where parts: "split_whitespace line = version # status' # rest"
    by (cases "split_whitespace line"; cases "tl (split_whitespace line)")
       (auto simp: sniff_http_response_def split: if_splits)
  define hs where "hs = (case position (\<lambda>b. b = 0x0A) payload of None \<Rightarrow> [] | Some n \<Rightarrow> drop (n + 1) payload)"
  have r: "length status = 3" "list_all ascii_digit status"
    "reason = redact_reason (parse_reason line status)" "parse_response_headers hs = (ctype, clen)"
    using assms by (auto simp: sniff_http_response_def line parts hs_def Let_def case_prod_unfold split: if_splits)
  with parse_response_headers_shape [OF r(4)] redact_reason_clean [of line status]
  show ?thesis by simp
qed

definition demo_status_line :: "byte list" where
  "demo_status_line = lit ''HTTP/1.1 200 OK''"

lemma demo_status_line_parts:
  "first_complete_line (demo_status_line @ [0x0D, 0x0A]) = Some demo_status_line"
  "split_whitespace demo_status_line = [lit ''HTTP/1.1'', lit ''200'', lit ''OK'']"
  "parse_reason demo_status_line (lit ''200'') = Some (lit ''OK'')"
  "redact_reason (Some (lit ''OK'')) = Some (lit ''OK'')"
  "position (\<lambda>b. b = 0x0A) (demo_status_line @ [0x0D, 0x0A]) = Some 16"
  by code_simp+

lemma demo_status_response:
  "sniff_http_response (demo_status_line @ [0x0D, 0x0A]) =
     Some (HttpResponse (lit ''200'') (Some (lit ''OK'')) None None)"
  by (simp add: sniff_http_response_def demo_status_line_parts parse_response_headers_def split_lines.simps
      starts_with_def)
     (simp add: demo_status_line_def lit_def ascii_digit_def split_lines.simps)

lemma http_response_sanitised_witness: "clean_reason (lit ''OK'')"
  using http_response_sanitised [OF demo_status_response] by simp

end
