(* ===== verification/L7Dns.thy ===== *)
theory L7Dns
  imports L7Types Redact IpText
begin

text \<open>
  DNS messages (\<open>l7.rs\<close>): compressed names, TXT text with its caps and redaction, queries and
  responses with their answer sections.
\<close>

section \<open>Limits\<close>

definition max_dns_txt_answer_bytes :: nat where "max_dns_txt_answer_bytes = 512"
definition max_dns_txt_response_bytes :: nat where "max_dns_txt_response_bytes = 2048"
definition max_dns_answers :: nat where "max_dns_answers = 16"
definition max_dns_name_len :: nat where "max_dns_name_len = 255"
definition max_dns_pointer_hops :: nat where "max_dns_pointer_hops = 16"

section \<open>Names\<close>

text \<open>
  The loop of \<open>read_dns_name\<close>, with its local variables as arguments. Every iteration that goes
  on has raised \<open>wire_len\<close> or \<open>hops\<close>, both of which are capped.
\<close>

function dns_name_loop ::
  "byte list \<Rightarrow> rstring list \<Rightarrow> nat \<Rightarrow> nat \<Rightarrow> nat option \<Rightarrow> nat \<Rightarrow> (rstring \<times> nat) option" where
  "dns_name_loop msg labels wire_len pos end_in_place hops =
     (case byte_at msg pos of
        None \<Rightarrow> None
      | Some len_byte \<Rightarrow>
          if len_byte AND 0xC0 = 0 then
            (let len = unat len_byte in
             if len = 0
             then Some (join_with (lit ''.'') labels,
                        case end_in_place of None \<Rightarrow> pos + 1 | Some e \<Rightarrow> e)
             else if wire_len + (len + 1) > max_dns_name_len then None
             else case slice_get msg (pos + 1) (pos + 1 + len) of
                    None \<Rightarrow> None
                  | Some label_bytes \<Rightarrow>
                      (case from_utf8 label_bytes of
                         None \<Rightarrow> None
                       | Some label \<Rightarrow>
                           dns_name_loop msg (labels @ [label]) (wire_len + (len + 1))
                             (pos + (1 + len)) end_in_place hops))
          else if len_byte AND 0xC0 = 0xC0 then
            (if hops + 1 > max_dns_pointer_hops then None
             else case byte_at msg (pos + 1) of
                    None \<Rightarrow> None
                  | Some lo \<Rightarrow>
                      dns_name_loop msg labels wire_len (u16_be (len_byte AND 0x3F) lo)
                        (case end_in_place of None \<Rightarrow> Some (pos + 2) | Some e \<Rightarrow> Some e) (hops + 1))
          else None)"
  by pat_completeness auto
termination
  by (relation "measure (\<lambda>(msg, labels, wire_len, pos, e, hops).
        (max_dns_name_len - wire_len) + (max_dns_pointer_hops - hops))") auto

declare dns_name_loop.simps [simp del]

definition read_dns_name :: "byte list \<Rightarrow> nat \<Rightarrow> (rstring \<times> nat) option" where
  "read_dns_name msg offset = dns_name_loop msg [] 0 offset None 0"

section \<open>TXT text\<close>

text \<open>The structural pass: the total content length, or \<^const>\<open>None\<close> on an overrun.\<close>

function txt_content :: "byte list \<Rightarrow> nat \<Rightarrow> nat \<Rightarrow> nat option" where
  "txt_content rdata pos content =
     (if pos < length rdata then
        let len = unat (rdata ! pos) in
        if pos + 1 + len > length rdata then None
        else txt_content rdata (pos + (1 + len)) (content + len)
      else Some content)"
  by pat_completeness auto
termination
  by (relation "measure (\<lambda>(rdata, pos, content). length rdata - pos)") (auto simp: Let_def)

declare txt_content.simps [simp del]

definition txt_token :: "byte \<Rightarrow> byte list" where
  "txt_token b =
     (if b = 0x5C then [0x5C, 0x5C]
      else if 0x20 \<le> b \<and> b \<le> 0x7E then [b]
      else [0x5C, 48 + b div 100, 48 + b div 10 mod 10, 48 + b mod 10])"

text \<open>\<open>char::from\<close> on a byte, as UTF-8.\<close>

definition latin1_utf8 :: "byte \<Rightarrow> rstring" where
  "latin1_utf8 b = (if b < 0x80 then [b] else [0xC0 OR drop_bit 6 b, 0x80 OR (b AND 0x3F)])"

text \<open>One character-string: the text, the unescaped text and whether the answer cap cut it.\<close>

fun txt_string :: "byte list \<Rightarrow> rstring \<Rightarrow> rstring \<Rightarrow> rstring \<times> rstring \<times> bool" where
  "txt_string [] tx unescaped = (tx, unescaped, False)"
| "txt_string (b # bs) tx unescaped =
     (if length tx + length (txt_token b) > max_dns_txt_answer_bytes then (tx, unescaped, True)
      else txt_string bs (tx @ txt_token b) (unescaped @ latin1_utf8 b))"

function txt_strings :: "byte list \<Rightarrow> nat \<Rightarrow> rstring \<Rightarrow> rstring \<Rightarrow> rstring \<times> rstring \<times> bool" where
  "txt_strings rdata pos tx unescaped =
     (if pos < length rdata then
        let len = unat (rdata ! pos);
            (tx', unescaped', cut) = txt_string (take len (drop (pos + 1) rdata)) tx unescaped
        in if cut then (tx', unescaped', True)
           else txt_strings rdata (pos + (1 + len)) tx' unescaped'
      else (tx, unescaped, False))"
  by pat_completeness auto
termination
  by (relation "measure (\<lambda>(rdata, pos, tx, unescaped). length rdata - pos)") (auto simp: Let_def)

declare txt_strings.simps [simp del]

definition txt_key :: "rstring \<Rightarrow> rstring" where
  "txt_key unescaped =
     (let key = str_trim (takeWhile (\<lambda>b. b \<noteq> 0x3D \<and> b \<noteq> 0x3A) unescaped)
      in if length key \<le> 64 then key else [])"

text \<open>The longest prefix of whole escapes that fits the budget.\<close>

definition escape_step :: "byte list \<Rightarrow> nat \<Rightarrow> nat" where
  "escape_step bs i =
     (if bs ! i = 0x5C
      then (case byte_at bs (i + 1) of Some d \<Rightarrow> if ascii_digit d then 4 else 2 | None \<Rightarrow> 2)
      else 1)"

lemma escape_step_pos: "0 < escape_step bs i"
  by (simp add: escape_step_def split: option.splits)

function whole_escapes :: "byte list \<Rightarrow> nat \<Rightarrow> nat \<Rightarrow> nat" where
  "whole_escapes bs budget stop =
     (if stop < length bs then
        if stop + escape_step bs stop > budget then stop
        else whole_escapes bs budget (stop + escape_step bs stop)
      else stop)"
  by pat_completeness auto
termination
  by (relation "measure (\<lambda>(bs, budget, stop). length bs - stop)")
     (auto simp: escape_step_pos diff_less_mono2)

declare whole_escapes.simps [simp del]

definition dns_txt_text :: "byte list \<Rightarrow> nat \<Rightarrow> rstring \<times> bool" where
  "dns_txt_text rdata budget =
     (case txt_content rdata 0 0 of
        None \<Rightarrow> ([], False)
      | Some content \<Rightarrow>
          if budget = 0 then ([], content > 0)
          else let (txt0, unescaped, cut0) = txt_strings rdata 0 [] [];
                   judged = snd (hd (redact_headers [(txt_key unescaped, unescaped)]));
                   (tx, cut) = (if judged = redacted_text then (judged, False) else (txt0, cut0))
               in if length tx > budget then (take (whole_escapes tx budget 0) tx, True)
                  else (tx, cut))"

section \<open>Records and messages\<close>

definition dns_rdata_text :: "byte list \<Rightarrow> nat \<Rightarrow> nat \<Rightarrow> byte list \<Rightarrow> rstring" where
  "dns_rdata_text msg rtype rdata_offset rdata =
     (if rtype = 1 \<and> length rdata = 4 then ipv4_to_string rdata
      else if rtype = 28 \<and> length rdata = 16 then ipv6_to_string rdata
      else if rtype = 5 \<or> rtype = 2 \<or> rtype = 12
      then (case read_dns_name msg rdata_offset of Some (name, _) \<Rightarrow> name | None \<Rightarrow> [])
      else [])"

definition u32_be :: "byte \<Rightarrow> byte \<Rightarrow> byte \<Rightarrow> byte \<Rightarrow> nat" where
  "u32_be a b c d = u16_be a b * 65536 + u16_be c d"

fun skip_questions :: "byte list \<Rightarrow> nat \<Rightarrow> nat \<Rightarrow> nat option" where
  "skip_questions payload 0 pos = Some pos"
| "skip_questions payload (Suc n) pos =
     (case read_dns_name payload pos of
        Some (_, after) \<Rightarrow>
          if after + 4 \<le> length payload then skip_questions payload n (after + 4) else None
      | None \<Rightarrow> None)"

definition read_dns_answer :: "byte list \<Rightarrow> nat \<Rightarrow> nat \<Rightarrow> (dns_answer \<times> nat \<times> nat) option" where
  "read_dns_answer payload pos txt_budget =
     Option.bind (read_dns_name payload pos) (\<lambda>(name, after).
     Option.bind (slice_get payload after (after + 10)) (\<lambda>fixed.
     let rtype = u16_be (fixed ! 0) (fixed ! 1);
         ttl = u32_be (fixed ! 4) (fixed ! 5) (fixed ! 6) (fixed ! 7);
         rdlength = u16_be (fixed ! 8) (fixed ! 9);
         rdata_offset = after + 10
     in Option.bind (slice_get payload rdata_offset (rdata_offset + rdlength)) (\<lambda>rdata.
        let (data, truncated, txt_budget') =
              (if rtype = 16
               then (let (tx, cut) = dns_txt_text rdata txt_budget in (tx, cut, txt_budget - length tx))
               else (dns_rdata_text payload rtype rdata_offset rdata, False, txt_budget))
        in Some (\<lparr>da_name = name, da_rtype = rtype, da_ttl = ttl, da_data = data,
                  da_data_truncated = truncated\<rparr>, rdata_offset + rdlength, txt_budget'))))"

fun read_dns_answers :: "byte list \<Rightarrow> nat \<Rightarrow> nat \<Rightarrow> nat \<Rightarrow> dns_answer list" where
  "read_dns_answers payload 0 pos txt_budget = []"
| "read_dns_answers payload (Suc n) pos txt_budget =
     (case read_dns_answer payload pos txt_budget of
        None \<Rightarrow> []
      | Some (a, pos', txt_budget') \<Rightarrow> a # read_dns_answers payload n pos' txt_budget')"

definition dns_response ::
  "byte list \<Rightarrow> rstring \<Rightarrow> nat \<Rightarrow> nat \<Rightarrow> nat \<Rightarrow> nat \<Rightarrow> nat \<Rightarrow> l7_info option" where
  "dns_response payload query_name after_name id_no rcode qdcount answer_count =
     Option.bind (slice_get payload after_name (after_name + 2)) (\<lambda>qtype_bytes.
     let qtype = u16_be (qtype_bytes ! 0) (qtype_bytes ! 1);
         pos = after_name + 4
     in if pos > length payload then None
        else let answers =
               (case skip_questions payload (min qdcount 16 - 1) pos of
                  None \<Rightarrow> []
                | Some pos' \<Rightarrow>
                    if qdcount \<le> 16
                    then read_dns_answers payload (min answer_count max_dns_answers) pos'
                           max_dns_txt_response_bytes
                    else [])
             in Some (DnsResponse query_name id_no qtype rcode answer_count answers))"

definition sniff_dns :: "byte list \<Rightarrow> l7_info option" where
  "sniff_dns payload =
     (if length payload < 12 then None
      else let id_no = u16_be (payload ! 0) (payload ! 1);
               is_response = (payload ! 2) AND 0x80 \<noteq> 0;
               rcode = unat ((payload ! 3) AND 0x0F);
               qdcount = u16_be (payload ! 4) (payload ! 5);
               answer_count = u16_be (payload ! 6) (payload ! 7)
           in if qdcount = 0 then None
              else Option.bind (read_dns_name payload 12) (\<lambda>(query_name, after_name).
                if query_name = [] then None
                else if \<not> is_response
                then Some (Dns query_name id_no
                       (case slice_get payload after_name (after_name + 2) of
                          Some b \<Rightarrow> u16_be (b ! 0) (b ! 1) | None \<Rightarrow> 0))
                else dns_response payload query_name after_name id_no rcode qdcount answer_count))"

definition dns_type_name :: "nat \<Rightarrow> rstring" where
  "dns_type_name rtype =
     (case map_of [(1, ''A''), (2, ''NS''), (5, ''CNAME''), (6, ''SOA''), (12, ''PTR''), (15, ''MX''),
        (16, ''TXT''), (28, ''AAAA''), (33, ''SRV''), (64, ''SVCB''), (65, ''HTTPS''), (255, ''ANY'')] rtype of
        Some s \<Rightarrow> lit s
      | None \<Rightarrow> lit ''TYPE'' @ show_nat rtype)"

definition dns_rcode_name :: "nat \<Rightarrow> rstring" where
  "dns_rcode_name rcode =
     (case map_of [(0, ''NOERROR''), (1, ''FORMERR''), (2, ''SERVFAIL''), (3, ''NXDOMAIN''),
        (4, ''NOTIMP''), (5, ''REFUSED'')] rcode of
        Some s \<Rightarrow> lit s
      | None \<Rightarrow> lit ''RCODE'' @ show_nat rcode)"

section \<open>Names: progress, bounds and the wire format\<close>

definition labels_wire_len :: "rstring list \<Rightarrow> nat" where
  "labels_wire_len labels = sum_list (map (\<lambda>l. length l + 1) labels)"

lemma labels_wire_len_simps [simp]:
  "labels_wire_len [] = 0"
  "labels_wire_len (l # ls) = length l + 1 + labels_wire_len ls"
  "labels_wire_len (ls @ ls') = labels_wire_len ls + labels_wire_len ls'"
  by (simp_all add: labels_wire_len_def)

lemma length_join_labels: "length (join_with (lit ''.'') labels) \<le> labels_wire_len labels - 1"
  by (induction "lit ''.''" labels rule: join_with.induct) (auto simp: lit_def)

lemma dns_name_loop_bounds:
  assumes "dns_name_loop msg labels wire_len pos e hops = Some (name, stop)"
    and "wire_len = labels_wire_len labels" and "wire_len \<le> max_dns_name_len"
    and "\<And>x. e = Some x \<Longrightarrow> x \<le> length msg"
  shows "length name < max_dns_name_len \<and> stop \<le> length msg \<and> 0 \<in> set msg
    \<and> (case e of None \<Rightarrow> pos < stop | Some x \<Rightarrow> stop = x)"
  using assms
proof (induction msg labels wire_len pos e hops arbitrary: name stop rule: dns_name_loop.induct)
  case (1 msg labels wire_len pos e hops)
  from "1.prems"(1) obtain b where b: "byte_at msg pos = Some b"
    by (subst (asm) dns_name_loop.simps) (auto split: option.splits)
  then have in_range: "pos < length msg" "msg ! pos = b" by (auto simp: byte_at_Some_iff)
  consider (last_label) "b AND 0xC0 = 0" "unat b = 0"
    | (label) "b AND 0xC0 = 0" "unat b \<noteq> 0"
    | (pointer) "b AND 0xC0 \<noteq> 0" "b AND 0xC0 = 0xC0"
    | (reserved) "b AND 0xC0 \<noteq> 0" "b AND 0xC0 \<noteq> 0xC0" by blast
  then show ?case
  proof cases
    case last_label
    then have "b = 0" by (simp add: unat_eq_0)
    with in_range have "0 \<in> set msg" by (metis nth_mem)
    moreover have "length name < max_dns_name_len"
      using "1.prems" b last_label length_join_labels [of labels]
      by (subst (asm) dns_name_loop.simps) (auto simp: max_dns_name_len_def)
    ultimately show ?thesis
      using "1.prems" b last_label in_range
      by (subst (asm) dns_name_loop.simps) (auto split: option.splits)
  next
    case label
    with "1.prems"(1) b obtain lb where step:
        "slice_get msg (pos + 1) (pos + 1 + unat b) = Some lb" "from_utf8 lb = Some lb"
        "\<not> wire_len + (unat b + 1) > max_dns_name_len"
        "dns_name_loop msg (labels @ [lb]) (wire_len + (unat b + 1)) (pos + (1 + unat b)) e hops
           = Some (name, stop)"
      by (subst (asm) dns_name_loop.simps)
         (auto simp: Let_def from_utf8_def split: option.splits if_splits)
    have "length lb = unat b" using step(1) by (auto simp: slice_get_Some_iff)
    then show ?thesis
      using "1.IH"(1) [OF b label(1) refl label(2) step(3) step(1) step(2) step(4)]
        "1.prems" step(3)
      by (auto split: option.splits)
  next
    case pointer
    with "1.prems"(1) b obtain lo where step:
        "byte_at msg (pos + 1) = Some lo" "\<not> hops + 1 > max_dns_pointer_hops"
        "dns_name_loop msg labels wire_len (u16_be (b AND 0x3F) lo)
           (case e of None \<Rightarrow> Some (pos + 2) | Some e \<Rightarrow> Some e) (hops + 1) = Some (name, stop)"
      by (subst (asm) dns_name_loop.simps) (auto split: option.splits if_splits)
    have "pos + 1 < length msg" using step(1) by (simp add: byte_at_Some_iff)
    then show ?thesis
      using "1.IH"(2) [OF b pointer step(2) step(1) step(3)] "1.prems"
      by (auto split: option.splits)
  next
    case reserved
    with "1.prems"(1) b show ?thesis by (subst (asm) dns_name_loop.simps) simp
  qed
qed

lemma read_dns_name_bounds:
  assumes "read_dns_name msg offset = Some (name, stop)"
  shows "length name < max_dns_name_len" and "offset < stop" and "stop \<le> length msg" and "0 \<in> set msg"
  using dns_name_loop_bounds [OF assms [unfolded read_dns_name_def]]
  by (simp_all add: max_dns_name_len_def)

text \<open>The wire form of a name: length-prefixed labels, then the root label or a pointer.\<close>

definition encode_labels :: "rstring list \<Rightarrow> byte list" where
  "encode_labels labels = concat (map (\<lambda>l. of_nat (length l) # l) labels)"

definition encode_name :: "rstring list \<Rightarrow> byte list" where
  "encode_name labels = encode_labels labels @ [0]"

definition encode_pointer :: "nat \<Rightarrow> byte list" where
  "encode_pointer target = [0xC0 OR of_nat (target div 256), of_nat (target mod 256)]"

definition wire_label :: "rstring \<Rightarrow> bool" where
  "wire_label l \<longleftrightarrow> l \<noteq> [] \<and> length l \<le> 63 \<and> utf8_valid l"

lemma length_encode_labels: "length (encode_labels ls) = labels_wire_len ls"
  by (induction ls) (simp_all add: encode_labels_def)

lemma six_bit_bytes:
  "list_all (\<lambda>n. (of_nat n :: byte) AND 0xC0 = 0 \<and> (0xC0 OR of_nat n :: byte) AND 0xC0 = 0xC0
     \<and> (0xC0 OR of_nat n :: byte) AND 0x3F = of_nat n \<and> unat (of_nat n :: byte) = n) [0..<64]"
  by code_simp

lemma six_bit_byte:
  assumes "n < 64"
  shows "(of_nat n :: byte) AND 0xC0 = 0" "(0xC0 OR of_nat n :: byte) AND 0xC0 = 0xC0"
    "(0xC0 OR of_nat n :: byte) AND 0x3F = of_nat n" "unat (of_nat n :: byte) = n"
  using assms six_bit_bytes by (auto simp: list_all_iff)

lemma byte_at_drop: "drop pos msg = b # rest \<Longrightarrow> byte_at msg pos = Some b"
  by (metis byte_at_Some_iff drop_eq_Nil2 hd_drop_conv_nth list.distinct(1) list.sel(1) not_le)

lemma slice_get_drop:
  assumes "drop pos msg = xs @ rest" and "n = pos + length xs" and "xs \<noteq> [] \<or> pos \<le> length msg"
  shows "slice_get msg pos n = Some xs"
proof -
  have "length msg - pos = length xs + length rest"
    using arg_cong [OF assms(1), of length] by simp
  with assms show ?thesis by (cases xs) (auto simp: slice_get_def)
qed

lemma drop_step: "drop pos msg = xs @ rest \<Longrightarrow> n = pos + length xs \<Longrightarrow> drop n msg = rest"
  by (metis append_eq_conv_conj drop_drop add.commute)

text \<open>Reading labels off the wire leaves the loop just past them, whatever comes next.\<close>

lemma dns_name_loop_labels:
  assumes "drop pos msg = encode_labels ls @ rest" and "list_all wire_label ls"
    and "wire_len + labels_wire_len ls \<le> max_dns_name_len"
  shows "dns_name_loop msg acc wire_len pos e hops =
    dns_name_loop msg (acc @ ls) (wire_len + labels_wire_len ls) (pos + length (encode_labels ls)) e hops"
  using assms
proof (induction ls arbitrary: pos acc wire_len)
  case Nil
  then show ?case by (simp add: encode_labels_def)
next
  case (Cons l ls)
  let ?b = "of_nat (length l) :: byte"
  have at: "drop pos msg = ?b # l @ encode_labels ls @ rest"
    using Cons.prems(1) by (simp add: encode_labels_def)
  have l: "l \<noteq> []" "length l < 64" "utf8_valid l"
    using Cons.prems(2) by (auto simp: wire_label_def)
  note b = six_bit_byte [OF l(2)]
  have after: "drop (pos + 1) msg = l @ encode_labels ls @ rest"
    by (rule drop_step [of pos msg "[?b]"]) (simp_all add: at)
  have sl: "slice_get msg (pos + 1) (pos + 1 + length l) = Some l"
    using slice_get_drop [OF after refl] l(1) by simp
  have step: "dns_name_loop msg acc wire_len pos e hops =
      dns_name_loop msg (acc @ [l]) (wire_len + (length l + 1)) (pos + (1 + length l)) e hops"
    using byte_at_drop [OF at] b(1,4) l Cons.prems(3) sl
    by (subst dns_name_loop.simps) (simp add: from_utf8_def Let_def)
  have "drop (pos + (1 + length l)) msg = encode_labels ls @ rest"
    using drop_step [OF after] by (simp add: add.assoc)
  with Cons.IH [of "pos + (1 + length l)" "wire_len + (length l + 1)" "acc @ [l]"] Cons.prems step
  show ?case by (simp add: encode_labels_def add.assoc)
qed

lemma dns_name_loop_root:
  assumes "drop pos msg = encode_name ls @ rest" and "list_all wire_label ls"
    and "wire_len + labels_wire_len ls \<le> max_dns_name_len"
  shows "dns_name_loop msg acc wire_len pos e hops =
    Some (join_with (lit ''.'') (acc @ ls),
          case e of None \<Rightarrow> pos + length (encode_name ls) | Some x \<Rightarrow> x)"
proof -
  have at: "drop pos msg = encode_labels ls @ 0 # rest"
    using assms(1) by (simp add: encode_name_def)
  from drop_step [OF at refl]
  have "byte_at msg (pos + length (encode_labels ls)) = Some 0" by (rule byte_at_drop)
  then show ?thesis
    by (subst dns_name_loop_labels [OF at assms(2,3)], subst dns_name_loop.simps)
       (simp add: encode_name_def split: option.split)
qed

lemma read_dns_name_encode:
  assumes "drop pos msg = encode_name ls @ rest" and "list_all wire_label ls"
    and "labels_wire_len ls \<le> max_dns_name_len"
  shows "read_dns_name msg pos = Some (join_with (lit ''.'') ls, pos + length (encode_name ls))"
  using dns_name_loop_root [OF assms(1,2), of 0 "[]" None 0] assms(3) by (simp add: read_dns_name_def)

lemma read_dns_name_pointer:
  assumes "drop pos msg = encode_labels ls @ encode_pointer target @ rest"
    and "drop target msg = encode_name ls' @ rest'" and "target < 2 ^ 14"
    and "list_all wire_label (ls @ ls')" and "labels_wire_len (ls @ ls') \<le> max_dns_name_len"
  shows "read_dns_name msg pos =
    Some (join_with (lit ''.'') (ls @ ls'), pos + length (encode_labels ls) + 2)"
proof -
  let ?p = "pos + length (encode_labels ls)"
  let ?hi = "0xC0 OR of_nat (target div 256) :: byte" and ?lo = "of_nat (target mod 256) :: byte"
  have "target div 256 < 64" using assms(3) by simp
  note b = six_bit_byte [OF this]
  have lo: "unat ?lo = target mod 256" by (simp add: unat_of_nat)
  have at: "drop ?p msg = ?hi # ?lo # rest"
    using drop_step [OF assms(1) refl] by (simp add: encode_pointer_def)
  have next_byte: "drop (?p + 1) msg = ?lo # rest"
    by (rule drop_step [of ?p msg "[?hi]"]) (simp_all add: at)
  note bytes = byte_at_drop [OF at] byte_at_drop [OF next_byte]
  have "u16_be (?hi AND 0x3F) ?lo = target" using b lo by (simp add: u16_be_def)
  with bytes b have "dns_name_loop msg ls (labels_wire_len ls) ?p None 0 =
      dns_name_loop msg ls (labels_wire_len ls) target (Some (?p + 2)) 1"
    by (subst dns_name_loop.simps) (simp add: max_dns_pointer_hops_def)
  also have "\<dots> = Some (join_with (lit ''.'') (ls @ ls'), ?p + 2)"
    using dns_name_loop_root [OF assms(2), of "labels_wire_len ls" ls "Some (?p + 2)" 1] assms(4,5) by simp
  finally show ?thesis
    using dns_name_loop_labels [OF assms(1), of 0 "[]" None 0] assms(4,5)
    by (simp add: read_dns_name_def)
qed

section \<open>TXT caps\<close>

lemma whole_escapes_le: "stop \<le> budget \<Longrightarrow> whole_escapes bs budget stop \<le> budget"
proof (induction bs budget stop rule: whole_escapes.induct)
  case (1 bs budget stop)
  then show ?case by (subst whole_escapes.simps) auto
qed

lemma txt_string_length:
  "length tx \<le> max_dns_txt_answer_bytes \<Longrightarrow> txt_string bs tx u = (tx', u', c) \<Longrightarrow>
   length tx' \<le> max_dns_txt_answer_bytes"
  by (induction bs tx u rule: txt_string.induct) (auto split: if_splits)

lemma txt_strings_length:
  "length tx \<le> max_dns_txt_answer_bytes \<Longrightarrow> txt_strings rdata pos tx u = (tx', u', c) \<Longrightarrow>
   length tx' \<le> max_dns_txt_answer_bytes"
proof (induction rdata pos tx u rule: txt_strings.induct)
  case (1 rdata pos tx u)
  obtain t1 u1 c1 where s: "txt_string (take (unat (rdata ! pos)) (drop (pos + 1) rdata)) tx u = (t1, u1, c1)"
    by (metis prod_cases3)
  have "length t1 \<le> max_dns_txt_answer_bytes" using txt_string_length [OF "1.prems"(1) s] .
  with "1.IH" [OF _ refl s [symmetric] refl] s "1.prems"(1)
    "1.prems"(2) [unfolded txt_strings.simps [of rdata pos tx u]]
  show ?case by (auto simp: Let_def split: if_splits)
qed

lemma dns_txt_text_length:
  "length (fst (dns_txt_text rdata budget)) \<le> min budget max_dns_txt_answer_bytes"
proof -
  obtain t0 u0 c0 where s: "txt_strings rdata 0 [] [] = (t0, u0, c0)" by (metis prod_cases3)
  have "length t0 \<le> max_dns_txt_answer_bytes" using txt_strings_length [OF _ s] by simp
  moreover have "length redacted_text \<le> max_dns_txt_answer_bytes"
    by (simp add: redacted_text_def lit_def max_dns_txt_answer_bytes_def)
  ultimately show ?thesis
    using whole_escapes_le [of 0 budget] s
    by (auto simp: dns_txt_text_def Let_def min_le_iff_disj le_diff_conv split: option.split
        intro: order_trans)
qed

section \<open>Responses are bounded\<close>

definition is_txt :: "dns_answer \<Rightarrow> bool" where
  "is_txt a \<longleftrightarrow> da_rtype a = 16"

definition txt_bytes :: "dns_answer list \<Rightarrow> nat" where
  "txt_bytes answers = sum_list (map (\<lambda>a. length (da_data a)) (filter is_txt answers))"

lemma read_dns_answer_budget:
  assumes "read_dns_answer payload pos budget = Some (a, pos', budget')"
  shows "length (da_name a) < max_dns_name_len"
    and "is_txt a \<Longrightarrow> length (da_data a) \<le> max_dns_txt_answer_bytes"
    and "is_txt a \<Longrightarrow> length (da_data a) + budget' = budget"
    and "\<not> is_txt a \<Longrightarrow> budget' = budget"
    and "pos' \<le> length payload"
proof -
  from assms obtain name after fixed rdata
    where n: "read_dns_name payload pos = Some (name, after)"
      and s: "slice_get payload (after + 10) (after + 10 + u16_be (fixed ! 8) (fixed ! 9)) = Some rdata"
      and p: "pos' = after + 10 + u16_be (fixed ! 8) (fixed ! 9)" and nm: "da_name a = name"
      and d: "is_txt a \<Longrightarrow> da_data a = fst (dns_txt_text rdata budget) \<and> budget' = budget - length (da_data a)"
      and o: "\<not> is_txt a \<Longrightarrow> budget' = budget"
    by (auto simp: read_dns_answer_def Let_def is_txt_def bind_eq_Some_conv case_prod_unfold
        split: if_splits)
  show "length (da_name a) < max_dns_name_len" using read_dns_name_bounds(1) [OF n] nm by simp
  show "pos' \<le> length payload" using s p by (simp add: slice_get_Some_iff)
  have l: "length (fst (dns_txt_text rdata budget)) \<le> max_dns_txt_answer_bytes"
    "length (fst (dns_txt_text rdata budget)) \<le> budget"
    using dns_txt_text_length [of rdata budget] by simp_all
  show "is_txt a \<Longrightarrow> length (da_data a) \<le> max_dns_txt_answer_bytes" using d l(1) by simp
  show "is_txt a \<Longrightarrow> length (da_data a) + budget' = budget" using d l(2) by simp
  show "\<not> is_txt a \<Longrightarrow> budget' = budget" by (rule o)
qed

lemma read_dns_answers_bounds:
  "length (read_dns_answers payload n pos budget) \<le> n
   \<and> txt_bytes (read_dns_answers payload n pos budget) \<le> budget
   \<and> (\<forall>a\<in>set (read_dns_answers payload n pos budget).
        length (da_name a) < max_dns_name_len
        \<and> (is_txt a \<longrightarrow> length (da_data a) \<le> max_dns_txt_answer_bytes))"
proof (induction payload n pos budget rule: read_dns_answers.induct)
  case (2 payload n pos budget)
  show ?case
  proof (cases "read_dns_answer payload pos budget")
    case (Some r)
    then obtain a pos' budget' where r: "r = (a, pos', budget')" by (cases r)
    show ?thesis
      using "2.IH" [OF Some r [symmetric] refl] read_dns_answer_budget [OF Some [unfolded r]] Some r
      by (cases "is_txt a") (auto simp: txt_bytes_def)
  qed (simp add: txt_bytes_def)
qed (simp add: txt_bytes_def)

text \<open>
  Whatever a response declares, what the agent keeps of it is bounded: at most
  \<open>MAX_DNS_ANSWERS\<close> records and never more than ANCOUNT, names under 255 bytes, each TXT value
  within its cap and all TXT values of the response within the shared allowance.
\<close>

lemma dns_response_bounded:
  assumes "sniff_dns payload = Some (DnsResponse qname id_no qtype rcode count answers)"
  shows "length answers \<le> min count max_dns_answers \<and> length qname < max_dns_name_len
    \<and> txt_bytes answers \<le> max_dns_txt_response_bytes
    \<and> (\<forall>a\<in>set answers. length (da_name a) < max_dns_name_len
          \<and> (da_rtype a = 16 \<longrightarrow> length (da_data a) \<le> max_dns_txt_answer_bytes))"
proof -
  from assms obtain after where n: "read_dns_name payload 12 = Some (qname, after)"
    and a: "answers = [] \<or> (\<exists>pos. answers = read_dns_answers payload (min count max_dns_answers) pos
                                   max_dns_txt_response_bytes)"
    by (auto simp: sniff_dns_def dns_response_def Let_def bind_eq_Some_conv split: if_splits option.splits)
  from n have "length qname < max_dns_name_len" by (rule read_dns_name_bounds)
  with a read_dns_answers_bounds [of payload "min count max_dns_answers"]
  show ?thesis by (auto simp: txt_bytes_def is_txt_def)
qed

section \<open>Messages as a server sends them\<close>

definition be16 :: "nat \<Rightarrow> byte list" where
  "be16 n = [of_nat (n div 256), of_nat (n mod 256)]"

definition be32 :: "nat \<Rightarrow> byte list" where
  "be32 n = be16 (n div 65536) @ be16 (n mod 65536)"

lemma u16_be_be16: "n < 65536 \<Longrightarrow> u16_be (of_nat (n div 256)) (of_nat (n mod 256)) = n"
  by (simp add: u16_be_def unat_of_nat)

lemma be16_nth: "n < 65536 \<Longrightarrow> u16_be (be16 n ! 0) (be16 n ! Suc 0) = n"
  by (simp add: be16_def u16_be_be16)

text \<open>Header and question of a message with one question.\<close>

definition dns_header :: "nat \<Rightarrow> byte \<Rightarrow> byte \<Rightarrow> nat \<Rightarrow> byte list" where
  "dns_header id_no flags1 flags2 ancount = be16 id_no @ [flags1, flags2] @ be16 1 @ be16 ancount @ be16 0 @ be16 0"

definition dns_question :: "rstring list \<Rightarrow> nat \<Rightarrow> byte list" where
  "dns_question labels qtype = encode_name labels @ be16 qtype @ be16 1"

text \<open>An A record whose owner is the question's name, by a pointer to offset 12.\<close>

definition a_record :: "nat \<times> byte list \<Rightarrow> byte list" where
  "a_record rec = encode_pointer 12 @ be16 1 @ be16 1 @ be32 (fst rec) @ be16 4 @ snd rec"

definition a_record_ok :: "nat \<times> byte list \<Rightarrow> bool" where
  "a_record_ok rec \<longleftrightarrow> fst rec < 2 ^ 32 \<and> length (snd rec) = 4"

definition name_ok :: "rstring list \<Rightarrow> bool" where
  "name_ok labels \<longleftrightarrow> labels \<noteq> [] \<and> list_all wire_label labels \<and> labels_wire_len labels \<le> max_dns_name_len"

lemma length_dns_header [simp]: "length (dns_header i a b n) = 12"
  by (simp add: dns_header_def be16_def)

lemma four_bit_flags: "list_all (\<lambda>n. unat ((0x80 OR of_nat n :: byte) AND 0x0F) = n) [0..<16]"
  by code_simp

lemma rcode_of_flags: "n < 16 \<Longrightarrow> unat ((0x80 OR of_nat n :: byte) AND 0x0F) = n"
  using four_bit_flags by (auto simp: list_all_iff)

lemma join_labels_nonempty: "name_ok labels \<Longrightarrow> join_with (lit ''.'') labels \<noteq> []"
  by (cases labels; cases "tl labels") (auto simp: name_ok_def wire_label_def)

lemma dns_header_reads:
  fixes f1 f2 :: byte and rest :: "byte list"
  assumes "id_no < 65536" and "n < 65536"
  defines "msg \<equiv> dns_header id_no f1 f2 n @ rest"
  shows "u16_be (msg ! 0) (msg ! 1) = id_no" "msg ! 2 = f1" "msg ! 3 = f2"
    "u16_be (msg ! 4) (msg ! 5) = 1" "u16_be (msg ! 6) (msg ! 7) = n"
  using assms(1,2) by (simp_all add: msg_def dns_header_def be16_def u16_be_be16 u16_be_def unat_of_nat)

lemma question_reads:
  fixes rest :: "byte list"
  assumes "name_ok labels" and "qtype < 65536" and "length hdr = 12"
  defines "msg \<equiv> hdr @ dns_question labels qtype @ rest"
    and "after \<equiv> 12 + length (encode_name labels)"
  shows "read_dns_name msg 12 = Some (join_with (lit ''.'') labels, after)"
    and "slice_get msg after (after + 2) = Some (be16 qtype)"
    and "drop (after + 4) msg = rest" and "after + 4 \<le> length msg"
proof -
  have at: "drop 12 msg = encode_name labels @ be16 qtype @ be16 1 @ rest"
    using assms(3) by (simp add: msg_def dns_question_def)
  show "read_dns_name msg 12 = Some (join_with (lit ''.'') labels, after)"
    using read_dns_name_encode [OF at] assms(1) by (simp add: name_ok_def after_def)
  have after: "drop after msg = be16 qtype @ be16 1 @ rest"
    by (rule drop_step [OF at]) (simp add: after_def)
  show "slice_get msg after (after + 2) = Some (be16 qtype)"
    by (rule slice_get_drop [OF after]) (simp_all add: be16_def)
  show "drop (after + 4) msg = rest"
    by (rule drop_step [of after _ "be16 qtype @ be16 1"]) (simp_all add: after be16_def)
  show "after + 4 \<le> length msg"
    using assms(3) by (simp add: msg_def after_def dns_question_def be16_def)
qed

text \<open>
  A query as a resolver sends it is decoded to exactly its name, transaction identifier and
  question type.
\<close>

lemma dns_query_decodes:
  assumes "name_ok labels" and "id_no < 65536" and "qtype < 65536" and "flags1 AND 0x80 = 0"
  shows "sniff_dns (dns_header id_no flags1 flags2 0 @ dns_question labels qtype) =
    Some (Dns (join_with (lit ''.'') labels) id_no qtype)"
  using question_reads [OF assms(1,3), of "dns_header id_no flags1 flags2 0" "[]"]
    dns_header_reads [OF assms(2), of 0 flags1 flags2 "dns_question labels qtype"]
    join_labels_nonempty [OF assms(1)] assms(3,4)
  by (simp add: sniff_dns_def Let_def be16_nth)

lemma dns_query_decodes_witness:
  "sniff_dns (dns_header 7 1 0 0 @ dns_question [lit ''a'', lit ''com''] 28) =
     Some (Dns (lit ''a.com'') 7 28)"
  using dns_query_decodes [of "[lit ''a'', lit ''com'']" 7 28 1 0]
  by (simp add: name_ok_def wire_label_def lit_def max_dns_name_len_def)

lemma a_record_reads:
  assumes "drop pos msg = a_record rec @ rest" and "a_record_ok rec" and "name_ok labels"
    and "drop 12 msg = encode_name labels @ rest'"
  shows "read_dns_answer msg pos budget =
    Some (\<lparr>da_name = join_with (lit ''.'') labels, da_rtype = 1, da_ttl = fst rec,
           da_data = ipv4_to_string (snd rec), da_data_truncated = False\<rparr>,
          pos + length (a_record rec), budget)"
proof -
  let ?fixed = "be16 1 @ be16 1 @ be32 (fst rec) @ be16 4"
  have ok: "fst rec < 2 ^ 32" "length (snd rec) = 4" using assms(2) by (simp_all add: a_record_ok_def)
  have at: "drop pos msg = encode_pointer 12 @ ?fixed @ snd rec @ rest"
    using assms(1) by (simp add: a_record_def)
  have name: "read_dns_name msg pos = Some (join_with (lit ''.'') labels, pos + 2)"
    using read_dns_name_pointer [of pos msg "[]" 12 _ labels, OF _ assms(4)] at assms(3)
    by (simp add: encode_labels_def name_ok_def)
  have at2: "drop (pos + 2) msg = ?fixed @ snd rec @ rest"
    by (rule drop_step [OF at]) (simp add: encode_pointer_def)
  have fixed: "slice_get msg (pos + 2) (pos + 2 + 10) = Some ?fixed"
    by (rule slice_get_drop [OF at2]) (simp_all add: be16_def be32_def)
  have at3: "drop (pos + 2 + 10) msg = snd rec @ rest"
    by (rule drop_step [OF at2]) (simp add: be16_def be32_def)
  have rdata: "slice_get msg (pos + 2 + 10) (pos + 2 + 10 + 4) = Some (snd rec)"
    using ok(2) by (intro slice_get_drop [OF at3]) auto
  have ttl: "u32_be (?fixed ! 4) (?fixed ! 5) (?fixed ! 6) (?fixed ! 7) = fst rec"
    using ok(1) by (simp add: be16_def be32_def u32_be_def u16_be_be16)
  have other: "u16_be (?fixed ! 0) (?fixed ! 1) = 1" "u16_be (?fixed ! 8) (?fixed ! 9) = 4"
    by (simp_all add: be16_def be32_def u16_be_def)
  have len: "length (a_record rec) = 16"
    using ok(2) by (simp add: a_record_def encode_pointer_def be16_def be32_def)
  show ?thesis
    unfolding read_dns_answer_def name bind.simps prod.case Let_def fixed ttl other rdata
    using ok(2) len by (simp add: dns_rdata_text_def)
qed

lemma a_records_read:
  assumes "drop pos msg = concat (map a_record recs) @ rest" and "list_all a_record_ok recs"
    and "name_ok labels" and "drop 12 msg = encode_name labels @ rest'"
  shows "read_dns_answers msg (length recs) pos budget =
    map (\<lambda>rec. \<lparr>da_name = join_with (lit ''.'') labels, da_rtype = 1, da_ttl = fst rec,
                 da_data = ipv4_to_string (snd rec), da_data_truncated = False\<rparr>) recs"
  using assms(1,2)
proof (induction recs arbitrary: pos)
  case (Cons rec recs)
  have "drop pos msg = a_record rec @ concat (map a_record recs) @ rest" using Cons.prems by simp
  from a_record_reads [OF this _ assms(3,4)] drop_step [OF this refl] Cons
  show ?case by simp
qed simp

lemma sniff_dns_a_response:
  assumes "name_ok labels" and "id_no < 65536" and "qtype < 65536" and "rcode < 16"
    and "length recs \<le> max_dns_answers" and "list_all a_record_ok recs"
  shows "sniff_dns (dns_header id_no 0x81 (0x80 OR of_nat rcode) (length recs)
           @ dns_question labels qtype @ concat (map a_record recs)) =
    Some (DnsResponse (join_with (lit ''.'') labels) id_no qtype rcode (length recs)
      (map (\<lambda>rec. \<lparr>da_name = join_with (lit ''.'') labels, da_rtype = 1, da_ttl = fst rec,
                    da_data = ipv4_to_string (snd rec), da_data_truncated = False\<rparr>) recs))"
proof -
  let ?h = "dns_header id_no 0x81 (0x80 OR of_nat rcode) (length recs)"
  let ?rest = "concat (map a_record recs)"
  let ?msg = "?h @ dns_question labels qtype @ ?rest"
  have n: "length recs < 65536" using assms(5) by (simp add: max_dns_answers_def)
  note q = question_reads [OF assms(1,3) length_dns_header, of id_no "0x81" "0x80 OR of_nat rcode"
      "length recs" ?rest]
  have rc: "unat ((0x80 OR of_nat rcode :: byte) AND 0x0F) = rcode"
    using assms(4) by (rule rcode_of_flags)
  have "drop 12 ?msg = encode_name labels @ be16 qtype @ be16 1 @ ?rest"
    by (simp add: dns_question_def)
  from a_records_read [OF _ assms(6,1) this, where rest = "[]"] q(3)
  have "read_dns_answers ?msg (length recs) (12 + length (encode_name labels) + 4) max_dns_txt_response_bytes =
      map (\<lambda>rec. \<lparr>da_name = join_with (lit ''.'') labels, da_rtype = 1, da_ttl = fst rec,
                    da_data = ipv4_to_string (snd rec), da_data_truncated = False\<rparr>) recs"
    by simp
  with q dns_header_reads [OF assms(2) n, of "0x81" "0x80 OR of_nat rcode" "dns_question labels qtype @ ?rest"]
    join_labels_nonempty [OF assms(1)] rc assms(3,5)
  show ?thesis
    by (simp add: sniff_dns_def dns_response_def Let_def be16_nth min_absorb1)
qed

text \<open>
  A response with up to sixteen A records, in the compressed form servers send, is decoded to
  its question, response code and the full list of addresses with their lifetimes, in order.
\<close>

lemma dns_address_response_decodes:
  assumes "name_ok labels" and "id_no < 65536" and "qtype < 65536" and "rcode < 16"
    and "length recs \<le> max_dns_answers" and "list_all a_record_ok recs"
  shows "sniff_dns (dns_header id_no 0x81 (0x80 OR of_nat rcode) (length recs)
           @ dns_question labels qtype @ concat (map a_record recs)) =
    Some (DnsResponse (join_with (lit ''.'') labels) id_no qtype rcode (length recs)
      (map (\<lambda>rec. \<lparr>da_name = join_with (lit ''.'') labels, da_rtype = 1, da_ttl = fst rec,
                    da_data = ipv4_to_string (snd rec), da_data_truncated = False\<rparr>) recs))"
  by (rule sniff_dns_a_response [OF assms])

lemma dns_address_response_decodes_witness:
  "sniff_dns (dns_header 7 0x81 (0x80 OR of_nat 0) 1 @ dns_question [lit ''a''] 1 @ a_record (60, [10, 0, 0, 1])) =
     Some (DnsResponse (lit ''a'') 7 1 0 1
       [\<lparr>da_name = lit ''a'', da_rtype = 1, da_ttl = 60, da_data = ipv4_to_string [10, 0, 0, 1],
         da_data_truncated = False\<rparr>])"
  using dns_address_response_decodes [of "[lit ''a'']" 7 1 0 "[(60, [10, 0, 0, 1])]"]
  by (simp add: name_ok_def wire_label_def lit_def max_dns_name_len_def max_dns_answers_def a_record_ok_def)

lemma dns_response_bounded_witness:
  "length [\<lparr>da_name = lit ''a'', da_rtype = 1, da_ttl = 60, da_data = ipv4_to_string [10, 0, 0, 1],
         da_data_truncated = False\<rparr>] \<le> min 1 max_dns_answers"
  using dns_response_bounded [OF sniff_dns_a_response [of "[lit ''a'']" 7 1 0 "[(60, [10, 0, 0, 1])]"]]
  by (simp add: name_ok_def wire_label_def lit_def max_dns_name_len_def max_dns_answers_def a_record_ok_def)

end
