(* ===== verification/L7Tls.thy ===== *)
theory L7Tls
  imports L7Types
begin

text \<open>
  TLS ClientHello records (\<open>l7.rs\<close>: \<open>sniff_tls_client_hello\<close>) and the JA3 fingerprint string
  (\<open>ja3.rs\<close>). The MD5 crate is the parameter \<open>md5_hex\<close>: a string to its digest in lower-case
  hexadecimal.
\<close>

section \<open>JA3\<close>

record client_hello_fields =
  ch_tls_version :: nat
  ch_cipher_suites :: "nat list"
  ch_extensions :: "nat list"
  ch_elliptic_curves :: "nat list"
  ch_ec_point_formats :: "byte list"

definition ja3_join :: "nat list \<Rightarrow> rstring" where
  "ja3_join v = join_with (lit ''-'') (map show_nat v)"

definition ja3_string :: "client_hello_fields \<Rightarrow> rstring" where
  "ja3_string f =
     join_with (lit '','')
       [show_nat (ch_tls_version f), ja3_join (ch_cipher_suites f), ja3_join (ch_extensions f),
        ja3_join (ch_elliptic_curves f), ja3_join (map unat (ch_ec_point_formats f))]"

definition compute_ja3 :: "(rstring \<Rightarrow> rstring) \<Rightarrow> client_hello_fields \<Rightarrow> rstring" where
  "compute_ja3 md5_hex f = md5_hex (ja3_string f)"

definition known_labels :: "(rstring \<times> rstring) list" where
  "known_labels = []"

definition label_for_ja3 :: "rstring \<Rightarrow> rstring option" where
  "label_for_ja3 hash = map_option snd (find (\<lambda>(h, _). h = hash) known_labels)"

section \<open>The ClientHello walk\<close>

fun parse_u16_list :: "byte list \<Rightarrow> nat list" where
  "parse_u16_list (hi # lo # rest) = u16_be hi lo # parse_u16_list rest"
| "parse_u16_list _ = []"

record hello_walk =
  hw_sni :: "rstring option"
  hw_extensions :: "nat list"
  hw_elliptic_curves :: "nat list"
  hw_ec_point_formats :: "byte list"
  hw_sni_offset :: nat
  hw_sni_len :: nat

definition hello_walk_start :: hello_walk where
  "hello_walk_start = \<lparr>hw_sni = None, hw_extensions = [], hw_elliptic_curves = [],
     hw_ec_point_formats = [], hw_sni_offset = 0, hw_sni_len = 0\<rparr>"

definition hello_server_name :: "nat \<Rightarrow> byte list \<Rightarrow> hello_walk \<Rightarrow> hello_walk" where
  "hello_server_name ext_start body w =
     (case (byte_at body 3, byte_at body 4) of
        (Some hi, Some lo) \<Rightarrow>
          let name_len = u16_be hi lo in
          (case Option.bind (slice_get body 5 (5 + name_len)) from_utf8 of
             Some name \<Rightarrow> w\<lparr>hw_sni := Some name, hw_sni_offset := ext_start + 5, hw_sni_len := name_len\<rparr>
           | None \<Rightarrow> w)
      | _ \<Rightarrow> w)"

definition hello_groups :: "byte list \<Rightarrow> hello_walk \<Rightarrow> hello_walk" where
  "hello_groups body w =
     (if length body \<ge> 2
      then (case slice_get body 2 (2 + u16_be (body ! 0) (body ! 1)) of
              Some groups \<Rightarrow> w\<lparr>hw_elliptic_curves := parse_u16_list groups\<rparr>
            | None \<Rightarrow> w)
      else w)"

definition hello_point_formats :: "byte list \<Rightarrow> hello_walk \<Rightarrow> hello_walk" where
  "hello_point_formats body w =
     (if body \<noteq> []
      then (case slice_get body 1 (1 + unat (body ! 0)) of
              Some formats \<Rightarrow> w\<lparr>hw_ec_point_formats := formats\<rparr>
            | None \<Rightarrow> w)
      else w)"

definition hello_extension :: "nat \<Rightarrow> nat \<Rightarrow> byte list option \<Rightarrow> hello_walk \<Rightarrow> hello_walk" where
  "hello_extension ext_type ext_start ext_body w0 =
     (let w = w0\<lparr>hw_extensions := hw_extensions w0 @ [ext_type]\<rparr>
      in case ext_body of
           None \<Rightarrow> w
         | Some body \<Rightarrow>
             if ext_type = 0x0000 then hello_server_name ext_start body w
             else if ext_type = 0x000A then hello_groups body w
             else if ext_type = 0x000B then hello_point_formats body w
             else w)"

function hello_extensions :: "byte list \<Rightarrow> nat \<Rightarrow> hello_walk \<Rightarrow> hello_walk" where
  "hello_extensions payload idx w =
     (if idx + 4 \<le> length payload then
        let ext_type = u16_be (payload ! idx) (payload ! (idx + 1));
            ext_len = u16_be (payload ! (idx + 2)) (payload ! (idx + 3));
            ext_start = idx + 4
        in hello_extensions payload (ext_start + ext_len)
             (hello_extension ext_type ext_start (slice_get payload ext_start (ext_start + ext_len)) w)
      else w)"
  by pat_completeness auto
termination
  by (relation "measure (\<lambda>(payload, idx, w). length payload - idx)") (auto simp: Let_def)

declare hello_extensions.simps [simp del]

text \<open>The fixed part: the ClientHello version, cipher suites and the start of the extensions.\<close>

definition hello_fixed :: "byte list \<Rightarrow> (nat \<times> nat list \<times> nat) option" where
  "hello_fixed payload =
     Option.bind (byte_at payload 9) (\<lambda>v1.
     Option.bind (byte_at payload 10) (\<lambda>v2.
     Option.bind (byte_at payload 43) (\<lambda>session_id_len.
     let idx1 = 43 + (1 + unat session_id_len) in
     Option.bind (byte_at payload idx1) (\<lambda>c1.
     Option.bind (byte_at payload (idx1 + 1)) (\<lambda>c2.
     let cipher_suites_len = u16_be c1 c2; idx2 = idx1 + 2 in
     Option.bind (slice_get payload idx2 (idx2 + cipher_suites_len)) (\<lambda>suites.
     let idx3 = idx2 + cipher_suites_len in
     Option.bind (byte_at payload idx3) (\<lambda>compression_len.
     let idx4 = idx3 + (1 + unat compression_len) in
     if idx4 + 2 > length payload then None
     else Some (u16_be v1 v2, parse_u16_list suites, idx4 + 2))))))))"

definition sniff_tls_client_hello :: "(rstring \<Rightarrow> rstring) \<Rightarrow> byte list \<Rightarrow> l7_info option" where
  "sniff_tls_client_hello md5_hex payload =
     (if length payload < 6 \<or> payload ! 0 \<noteq> 0x16 then None
      else if payload ! 5 \<noteq> 0x01 then None
      else Option.bind (hello_fixed payload) (\<lambda>(tls_version, cipher_suites, idx).
        let w = hello_extensions payload idx hello_walk_start in
        Option.bind (hw_sni w) (\<lambda>sni.
        let ja3 = compute_ja3 md5_hex
              \<lparr>ch_tls_version = tls_version, ch_cipher_suites = cipher_suites,
                ch_extensions = hw_extensions w, ch_elliptic_curves = hw_elliptic_curves w,
                ch_ec_point_formats = hw_ec_point_formats w\<rparr>
        in Some (TlsClientHello sni (Some ja3) (label_for_ja3 ja3) (slice_get payload 11 43)
             (hw_sni_offset w) (hw_sni_len w)))))"

section \<open>The reported server name is the bytes it points at\<close>

definition sni_located :: "byte list \<Rightarrow> hello_walk \<Rightarrow> bool" where
  "sni_located payload w \<longleftrightarrow>
     (case hw_sni w of
        None \<Rightarrow> True
      | Some name \<Rightarrow>
          slice_get payload (hw_sni_offset w) (hw_sni_offset w + hw_sni_len w) = Some name \<and> utf8_valid name)"

lemma slice_get_slice_get:
  assumes "slice_get xs a b = Some ys" and "slice_get ys c d = Some zs"
  shows "slice_get xs (a + c) (a + d) = Some zs"
proof -
  from assms have r: "a \<le> b" "b \<le> length xs" "ys = take (b - a) (drop a xs)"
    "c \<le> d" "d \<le> b - a" "zs = take (d - c) (drop c ys)"
    by (auto simp: slice_get_Some_iff)
  then have "drop c ys = take (b - a - c) (drop (a + c) xs)"
    by (simp add: drop_take add.commute)
  moreover from r have "min (d - c) (b - a - c) = d - c" by simp
  ultimately show ?thesis using r by (simp add: slice_get_Some_iff)
qed

lemma hello_extension_located:
  assumes "sni_located payload w"
  shows "sni_located payload (hello_extension t s (slice_get payload s e) w)"
proof -
  have keep: "sni_located payload (hello_groups body w')" "sni_located payload (hello_point_formats body w')"
    if "sni_located payload w'" for body w'
    using that by (auto simp: hello_groups_def hello_point_formats_def sni_located_def split: option.splits)
  have server: "sni_located payload (hello_server_name s body w')"
    if "sni_located payload w'" "slice_get payload s e = Some body" for body w'
    using that slice_get_slice_get [OF that(2), of 5]
    by (auto simp: hello_server_name_def sni_located_def from_utf8_def Let_def bind_eq_Some_conv
        add.assoc split: option.split if_splits)
  have "sni_located payload (w\<lparr>hw_extensions := hw_extensions w @ [t]\<rparr>)"
    using assms by (simp add: sni_located_def split: option.splits)
  then show ?thesis
    by (auto simp: hello_extension_def Let_def keep server split: option.split)
qed

lemma hello_extensions_located:
  "sni_located payload w \<Longrightarrow> sni_located payload (hello_extensions payload idx w)"
proof (induction payload idx w rule: hello_extensions.induct)
  case (1 payload idx w)
  then show ?case
    by (subst hello_extensions.simps) (simp add: Let_def hello_extension_located)
qed

text \<open>
  C35: Whatever a record claims about its own lengths, a reported server name is valid UTF-8 and is
  exactly the captured bytes at the reported offset and length, and the reported client random is
  exactly bytes 11 to 43 of the record.
\<close>

theorem tls_server_name_exact:
  assumes "sniff_tls_client_hello md5_hex payload = Some (TlsClientHello sni ja3 label rand off len)"
  shows "slice_get payload off (off + len) = Some sni \<and> utf8_valid sni
    \<and> rand = Some (take 32 (drop 11 payload))"
proof -
  from assms obtain tls_version cipher_suites idx
    where fixed: "hello_fixed payload = Some (tls_version, cipher_suites, idx)"
      and w: "hw_sni (hello_extensions payload idx hello_walk_start) = Some sni"
        "off = hw_sni_offset (hello_extensions payload idx hello_walk_start)"
        "len = hw_sni_len (hello_extensions payload idx hello_walk_start)"
      and r: "rand = slice_get payload 11 43"
    by (auto simp: sniff_tls_client_hello_def Let_def bind_eq_Some_conv split: if_splits)
  have "sni_located payload (hello_extensions payload idx hello_walk_start)"
    by (rule hello_extensions_located) (simp add: sni_located_def hello_walk_start_def)
  with w have s: "slice_get payload off (off + len) = Some sni" "utf8_valid sni"
    by (simp_all add: sni_located_def)
  have "43 < length payload"
    using fixed by (auto simp: hello_fixed_def Let_def bind_eq_Some_conv byte_at_Some_iff)
  with r s show ?thesis by (simp add: slice_get_def)
qed

definition demo_hello :: "byte list" where
  "demo_hello =
     [0x16, 3, 1, 0, 0, 1, 0, 0, 0, 3, 3,
      1, 2, 3, 4, 5, 6, 7, 8, 9, 10, 11, 12, 13, 14, 15, 16,
      17, 18, 19, 20, 21, 22, 23, 24, 25, 26, 27, 28, 29, 30, 31, 32,
      0, 0, 2, 0x13, 1, 1, 0, 0, 10, 0, 0, 0, 6, 0, 4, 0, 0, 1, 0x61]"

lemma demo_hello_fixed: "hello_fixed demo_hello = Some (771, [4865], 52)"
  by (simp add: hello_fixed_def demo_hello_def byte_at_def slice_get_def u16_be_def)

lemma demo_hello_walk:
  "hello_extensions demo_hello 52 hello_walk_start =
     hello_walk_start\<lparr>hw_extensions := [0], hw_sni := Some (lit ''a''), hw_sni_offset := 61, hw_sni_len := 1\<rparr>"
  by (subst hello_extensions.simps, subst hello_extensions.simps)
     (simp add: demo_hello_def hello_walk_start_def hello_extension_def hello_server_name_def byte_at_def
       slice_get_def u16_be_def from_utf8_def lit_def)

theorem tls_server_name_exact_witness:
  "slice_get demo_hello 61 62 = Some (lit ''a'')"
proof -
  have "sniff_tls_client_hello id demo_hello = Some (TlsClientHello (lit ''a'')
      (Some (compute_ja3 id \<lparr>ch_tls_version = 771, ch_cipher_suites = [4865], ch_extensions = [0],
         ch_elliptic_curves = [], ch_ec_point_formats = []\<rparr>))
      (label_for_ja3 (compute_ja3 id \<lparr>ch_tls_version = 771, ch_cipher_suites = [4865],
         ch_extensions = [0], ch_elliptic_curves = [], ch_ec_point_formats = []\<rparr>))
      (slice_get demo_hello 11 43) 61 1)"
    by (simp add: sniff_tls_client_hello_def demo_hello_fixed demo_hello_walk)
       (simp add: demo_hello_def hello_walk_start_def Let_def)
  from tls_server_name_exact [OF this] show ?thesis by simp
qed

end
