(* ===== verification/L7Sniff.thy ===== *)
theory L7Sniff
  imports L7Http L7Dns L7Tls Packet
begin

text \<open>
  The sniffers that compose the detectors (\<open>l7.rs\<close>): the desegmenting sniffer, DNS over TCP, the
  transport-aware sniffer and the per-packet one. Ports are \<open>nat option\<close>, as in the parsed packet.
\<close>

section \<open>Definitions\<close>

definition max_tcp_stream_bytes :: nat where "max_tcp_stream_bytes = 16 * 1024"

definition max_dns_tcp_message_bytes :: nat where
  "max_dns_tcp_message_bytes = max_tcp_stream_bytes - 2"

definition missing_byte_count :: "byte list \<Rightarrow> nat option" where
  "missing_byte_count payload =
     (let http = (if unterminated_http_start_line payload then Some 1 else None)
      in if byte_at payload 0 = Some 0x16 then
           (if length payload < 5 then Some (5 - length payload)
            else Option.bind (checked_add (u16_be (payload ! 3) (payload ! 4)) 5) (\<lambda>needed.
              case checked_sub needed (length payload) of
                Some shortfall \<Rightarrow> if shortfall > 0 then Some shortfall else http
              | None \<Rightarrow> http))
         else http)"

definition need_or_undecided :: "byte list \<Rightarrow> l7_sniff" where
  "need_or_undecided payload =
     (case missing_byte_count payload of Some at_least \<Rightarrow> NeedMoreBytes at_least | None \<Rightarrow> Undecided)"

definition sniff_l7_desegmenting :: "(rstring \<Rightarrow> rstring) \<Rightarrow> byte list \<Rightarrow> nat option \<Rightarrow> l7_sniff" where
  "sniff_l7_desegmenting md5_hex payload dst_port =
     (let info = (if dst_port = Some 53 then sniff_dns payload
                  else if dst_port = Some 443 then sniff_tls_client_hello md5_hex payload
                  else or_else (sniff_http payload)
                        (or_else (sniff_http_response payload)
                          (or_else (sniff_dns payload) (sniff_tls_client_hello md5_hex payload))))
      in case info of Some i \<Rightarrow> Decided i | None \<Rightarrow> need_or_undecided payload)"

definition sniff_dns_tcp :: "byte list \<Rightarrow> l7_sniff" where
  "sniff_dns_tcp stream =
     (case stream of
        [] \<Rightarrow> Undecided
      | [_] \<Rightarrow> NeedMoreBytes 1
      | hi # lo # _ \<Rightarrow>
          let declared = u16_be hi lo in
          if \<not> (12 \<le> declared \<and> declared \<le> max_dns_tcp_message_bytes) then Undecided
          else case slice_get stream 2 (2 + declared) of
                 None \<Rightarrow> NeedMoreBytes (2 + declared - length stream)
               | Some message \<Rightarrow>
                   (case sniff_dns message of Some info \<Rightarrow> Decided info | None \<Rightarrow> Undecided))"

definition is_dns_over_tcp :: "transport_protocol \<Rightarrow> nat option \<Rightarrow> nat option \<Rightarrow> bool" where
  "is_dns_over_tcp protocol src_port dst_port \<longleftrightarrow>
     protocol = Tcp \<and> (src_port = Some 53 \<or> dst_port = Some 53)"

definition sniff_for_transport ::
  "(rstring \<Rightarrow> rstring) \<Rightarrow> byte list \<Rightarrow> transport_protocol \<Rightarrow> nat option \<Rightarrow> nat option \<Rightarrow> l7_sniff" where
  "sniff_for_transport md5_hex payload protocol src_port dst_port =
     (if \<not> is_dns_over_tcp protocol src_port dst_port
      then sniff_l7_desegmenting md5_hex payload dst_port
      else if dst_port = Some 53 then sniff_dns_tcp payload
      else case or_else (sniff_http payload)
                  (or_else (sniff_http_response payload) (sniff_tls_client_hello md5_hex payload)) of
             Some info \<Rightarrow> Decided info
           | None \<Rightarrow> (case sniff_dns_tcp payload of
                       Undecided \<Rightarrow> need_or_undecided payload
                     | other \<Rightarrow> other))"

definition sniff_l7 :: "(rstring \<Rightarrow> rstring) \<Rightarrow> byte list \<Rightarrow> nat option \<Rightarrow> l7_info" where
  "sniff_l7 md5_hex payload dst_port =
     (case sniff_l7_desegmenting md5_hex payload dst_port of Decided info \<Rightarrow> info | _ \<Rightarrow> L7None)"

section \<open>Detectors that decline\<close>

lemma sniff_dns_needs_zero: "0 \<notin> set payload \<Longrightarrow> sniff_dns payload = None"
proof (cases "read_dns_name payload 12")
  case (Some r)
  then have "0 \<in> set payload" by (cases r) (auto dest: read_dns_name_bounds)
  moreover assume "0 \<notin> set payload"
  ultimately show ?thesis by contradiction
qed (simp add: sniff_dns_def Let_def)

lemma sniff_tls_needs_handshake:
  "payload \<noteq> [] \<Longrightarrow> hd payload \<noteq> 0x16 \<Longrightarrow> sniff_tls_client_hello md5_hex payload = None"
  by (simp add: sniff_tls_client_hello_def hd_conv_nth)

lemma sniff_http_needs_line:
  "0x0A \<notin> set payload \<Longrightarrow> sniff_http payload = None \<and> sniff_http_response payload = None"
  by (simp add: sniff_http_def sniff_http_response_def first_complete_line_None)

lemma missing_byte_count_not_tls:
  "payload \<noteq> [] \<Longrightarrow> hd payload \<noteq> 0x16 \<Longrightarrow>
   missing_byte_count payload = (if unterminated_http_start_line payload then Some 1 else None)"
  by (simp add: missing_byte_count_def byte_at_def hd_conv_nth Let_def)

section \<open>Requests split across segments\<close>

lemma whole_request_decides:
  assumes "request_ok meth path proto" and "dst_port \<noteq> Some 53" and "dst_port \<noteq> Some 443"
  shows "sniff_l7_desegmenting md5_hex (request_line meth path proto @ [0x0D, 0x0A] @ rest) dst_port
    = Decided (Http meth path)"
  using assms(2,3) sniff_http_request [OF assms(1), of rest] by (simp add: sniff_l7_desegmenting_def)

lemma partial_request_needs_more:
  assumes "request_ok meth path proto" and "dst_port \<noteq> Some 53" and "dst_port \<noteq> Some 443"
    and "0 < n" and "n \<le> max_start_line_probe"
  shows "sniff_l7_desegmenting md5_hex (take n (request_line meth path proto @ [0x0D])) dst_port = NeedMoreBytes 1"
proof -
  note p = partial_request_line [OF assms(1,4,5) refl]
  show ?thesis
    using assms(2,3) sniff_http_needs_line [OF p(2)] sniff_dns_needs_zero [OF p(3)]
      sniff_tls_needs_handshake [OF p(5,4), of md5_hex] missing_byte_count_not_tls [OF p(5,4)] p(1)
    by (simp add: sniff_l7_desegmenting_def need_or_undecided_def)
qed

text \<open>
  However a request line is cut, the part that has arrived is never reported as a shorter
  request: every non-empty prefix (up to the probe's 2048 bytes) asks for more bytes, and the
  whole line decodes to its method and full path whatever follows it.
\<close>

lemma http_request_never_truncated:
  assumes "request_ok meth path proto" and "dst_port \<noteq> Some 53" and "dst_port \<noteq> Some 443"
  shows "sniff_l7_desegmenting md5_hex (request_line meth path proto @ [0x0D, 0x0A] @ rest) dst_port
           = Decided (Http meth path)
    \<and> (0 < n \<and> n \<le> max_start_line_probe \<longrightarrow>
         sniff_l7_desegmenting md5_hex (take n (request_line meth path proto @ [0x0D])) dst_port
           = NeedMoreBytes 1)"
  using whole_request_decides [OF assms] partial_request_needs_more [OF assms] by blast

lemma http_request_never_truncated_witness:
  "sniff_l7_desegmenting id (take 8 (request_line (lit ''GET'') (lit ''/index'') (lit ''HTTP/1.1'') @ [0x0D])) (Some 80)
     = NeedMoreBytes 1"
  using http_request_never_truncated [of "lit ''GET''" "lit ''/index''" "lit ''HTTP/1.1''" "Some 80" id "[]" 8]
  by (simp add: request_ok_def http_methods_def starts_with_def lit_def graphic_def printable_ascii_def
       max_start_line_probe_def)

section \<open>DNS over TCP\<close>

definition frame_dns :: "byte list \<Rightarrow> byte list" where
  "frame_dns message = be16 (length message) @ message"

lemma sniff_dns_tcp_frame:
  assumes "12 \<le> length message" and "length message \<le> max_dns_tcp_message_bytes"
  shows "sniff_dns_tcp (frame_dns message @ rest) =
      (case sniff_dns message of Some info \<Rightarrow> Decided info | None \<Rightarrow> Undecided)"
    and "0 < n \<Longrightarrow> n < length (frame_dns message) \<Longrightarrow>
      sniff_dns_tcp (take n (frame_dns message)) =
        NeedMoreBytes (if n = 1 then 1 else length (frame_dns message) - n)"
proof -
  have "length message < 65536"
    using assms(2) by (simp add: max_dns_tcp_message_bytes_def max_tcp_stream_bytes_def)
  note len = u16_be_be16 [OF this]
  show "sniff_dns_tcp (frame_dns message @ rest) =
      (case sniff_dns message of Some info \<Rightarrow> Decided info | None \<Rightarrow> Undecided)"
    using assms len by (simp add: sniff_dns_tcp_def frame_dns_def be16_def slice_get_def Let_def)
  assume n: "0 < n" "n < length (frame_dns message)"
  show "sniff_dns_tcp (take n (frame_dns message)) =
        NeedMoreBytes (if n = 1 then 1 else length (frame_dns message) - n)"
  proof (cases "n = 1")
    case True
    then show ?thesis by (simp add: sniff_dns_tcp_def frame_dns_def be16_def)
  next
    case False
    with n obtain k where k: "n = Suc (Suc k)" by (metis One_nat_def gr0_implies_Suc old.nat.exhaust)
    with n assms len show ?thesis
      by (simp add: sniff_dns_tcp_def frame_dns_def be16_def slice_get_def Let_def min_def)
  qed
qed

text \<open>
  Towards port 53 over TCP, a framed message is decoded from exactly its own bytes, whatever
  follows it in the stream; with part of the frame the sniffer asks for exactly the bytes that
  are missing (or, before the length is complete, for one).
\<close>

lemma dns_over_tcp_framing:
  assumes "12 \<le> length message" and "length message \<le> max_dns_tcp_message_bytes"
    and "sniff_dns message = Some info"
  shows "sniff_for_transport md5_hex (frame_dns message @ rest) Tcp src_port (Some 53) = Decided info
    \<and> (0 < n \<and> n < length (frame_dns message) \<longrightarrow>
      sniff_for_transport md5_hex (take n (frame_dns message)) Tcp src_port (Some 53) =
        NeedMoreBytes (if n = 1 then 1 else length (frame_dns message) - n))"
  using sniff_dns_tcp_frame [OF assms(1,2)] assms(3)
  by (simp add: sniff_for_transport_def is_dns_over_tcp_def)

lemma demo_query: "sniff_dns (dns_header 7 1 0 0 @ dns_question [lit ''a''] 1) = Some (Dns (lit ''a'') 7 1)"
  by (simp add: sniff_dns_def dns_header_def dns_question_def be16_def encode_name_def encode_labels_def
      lit_def u16_be_def read_dns_name_def dns_name_loop.simps byte_at_def slice_get_def from_utf8_def
      max_dns_name_len_def Let_def)

lemma dns_over_tcp_framing_witness:
  "sniff_for_transport id (take 5 (frame_dns (dns_header 7 1 0 0 @ dns_question [lit ''a''] 1))) Tcp None (Some 53)
     = NeedMoreBytes 16"
proof -
  let ?m = "dns_header 7 1 0 0 @ dns_question [lit ''a''] 1"
  have len: "length ?m = 19" by (simp add: dns_question_def encode_name_def encode_labels_def be16_def lit_def)
  then have "12 \<le> length ?m" "length ?m \<le> max_dns_tcp_message_bytes" "5 < length (frame_dns ?m)"
    by (simp_all add: max_dns_tcp_message_bytes_def max_tcp_stream_bytes_def frame_dns_def)
  with dns_over_tcp_framing [OF this(1,2) demo_query, of id "[]" None 5]
  show ?thesis using len by (simp add: frame_dns_def be16_def)
qed

end
