(* ===== verification/FlowKey.thy ===== *)
theory FlowKey
  imports Packet "HOL-Library.List_Lexorder" "HOL-Library.Product_Lexorder"
begin

text \<open>
  Flow identity (\<open>flow.rs\<close>: \<open>FlowKey\<close>, \<open>FlowTable::key_for\<close>). Strings and endpoint pairs are
  compared lexicographically, as \<open>String\<close> and tuples are in the source.
\<close>

section \<open>Definitions\<close>

record flow_key =
  flk_protocol :: transport_protocol
  flk_local_addr :: rstring
  flk_local_port :: nat
  flk_remote_addr :: rstring
  flk_remote_port :: nat

fun protocol_debug :: "transport_protocol \<Rightarrow> rstring" where
  "protocol_debug Tcp = lit ''Tcp''"
| "protocol_debug Udp = lit ''Udp''"
| "protocol_debug Icmp = lit ''Icmp''"
| "protocol_debug OtherProtocol = lit ''Other''"

definition connection_id :: "flow_key \<Rightarrow> rstring" where
  "connection_id k =
     protocol_debug (flk_protocol k) @ lit ''-'' @ flk_local_addr k @ lit '':'' @ show_nat (flk_local_port k)
     @ lit ''-'' @ flk_remote_addr k @ lit '':'' @ show_nat (flk_remote_port k)"

definition is_local :: "rstring list \<Rightarrow> rstring \<Rightarrow> bool" where
  "is_local local_addrs addr \<longleftrightarrow> addr \<in> set local_addrs"

text \<open>The key that makes the source, respectively the destination, the local side.\<close>

definition src_local_key :: "parsed_packet \<Rightarrow> nat \<Rightarrow> nat \<Rightarrow> flow_key" where
  "src_local_key p src_port dst_port =
     \<lparr>flk_protocol = pp_protocol p, flk_local_addr = pp_src_ip p, flk_local_port = src_port,
      flk_remote_addr = pp_dst_ip p, flk_remote_port = dst_port\<rparr>"

definition dst_local_key :: "parsed_packet \<Rightarrow> nat \<Rightarrow> nat \<Rightarrow> flow_key" where
  "dst_local_key p src_port dst_port =
     \<lparr>flk_protocol = pp_protocol p, flk_local_addr = pp_dst_ip p, flk_local_port = dst_port,
      flk_remote_addr = pp_src_ip p, flk_remote_port = src_port\<rparr>"

definition key_for :: "rstring list \<Rightarrow> parsed_packet \<Rightarrow> (flow_key \<times> bool) option" where
  "key_for local_addrs p =
     Option.bind (pp_src_port p) (\<lambda>src_port.
     Option.bind (pp_dst_port p) (\<lambda>dst_port.
     if is_local local_addrs (pp_src_ip p) then Some (src_local_key p src_port dst_port, True)
     else if is_local local_addrs (pp_dst_ip p) then Some (dst_local_key p src_port dst_port, False)
     else if local_addrs = [] then
       (if (pp_src_ip p, src_port) \<le> (pp_dst_ip p, dst_port)
        then Some (src_local_key p src_port dst_port, True)
        else Some (dst_local_key p src_port dst_port, False))
     else None))"

section \<open>Both directions of a connection\<close>

definition reverse_of :: "parsed_packet \<Rightarrow> parsed_packet \<Rightarrow> bool" where
  "reverse_of p q \<longleftrightarrow>
     pp_protocol q = pp_protocol p \<and> pp_src_ip q = pp_dst_ip p \<and> pp_dst_ip q = pp_src_ip p
     \<and> pp_src_port q = pp_dst_port p \<and> pp_dst_port q = pp_src_port p"

lemma reversed_keys:
  "reverse_of p q \<Longrightarrow> src_local_key q d s = dst_local_key p s d \<and> dst_local_key q d s = src_local_key p s d"
  by (simp add: reverse_of_def src_local_key_def dst_local_key_def)

text \<open>
  A packet and its reply belong to the same flow, in opposite directions, unless both
  endpoints are local addresses (or the two endpoints are one and the same, where there is no
  direction to tell).
\<close>

lemma flow_key_direction_symmetric:
  assumes "reverse_of p q" and "\<not> (is_local addrs (pp_src_ip p) \<and> is_local addrs (pp_dst_ip p))"
    and "(pp_src_ip p, pp_src_port p) \<noteq> (pp_dst_ip p, pp_dst_port p)"
  shows "key_for addrs q = map_option (\<lambda>(k, outbound). (k, \<not> outbound)) (key_for addrs p)"
proof (cases "pp_src_port p = None \<or> pp_dst_port p = None")
  case True
  with assms(1) show ?thesis by (auto simp: key_for_def reverse_of_def bind_eq_None_conv)
next
  case False
  then obtain s d where ports: "pp_src_port p = Some s" "pp_dst_port p = Some d" by auto
  have q: "pp_src_port q = Some d" "pp_dst_port q = Some s"
    "pp_src_ip q = pp_dst_ip p" "pp_dst_ip q = pp_src_ip p"
    using assms(1) ports by (simp_all add: reverse_of_def)
  have ne: "(pp_src_ip p, s) \<noteq> (pp_dst_ip p, d)" using assms(3) ports by simp
  have "(pp_dst_ip p, d) \<le> (pp_src_ip p, s) \<longleftrightarrow> \<not> (pp_src_ip p, s) \<le> (pp_dst_ip p, d)"
    using ne by (metis linear order_antisym)
  then show ?thesis
    using assms(2) by (auto simp: key_for_def ports q reversed_keys [OF assms(1)])
qed

section \<open>Connection identifiers\<close>

lemma split_at_first:
  assumes "xs @ c # ys = xs' @ c # ys'" and "c \<notin> set xs" and "c \<notin> set xs'"
  shows "xs = xs' \<and> ys = ys'"
  using assms
proof (induction xs arbitrary: xs')
  case Nil
  then show ?case by (cases xs') auto
next
  case (Cons x xs)
  then show ?case by (cases xs') auto
qed

lemma split_at_last:
  assumes "xs @ c # ys = xs' @ c # ys'" and "c \<notin> set ys" and "c \<notin> set ys'"
  shows "xs = xs' \<and> ys = ys'"
proof -
  have "rev ys @ c # rev xs = rev ys' @ c # rev xs'"
    using arg_cong [OF assms(1), of rev] by (simp only: rev_append rev.simps append_assoc append.simps)
  from split_at_first [OF this] assms(2,3) show ?thesis by simp
qed

lemma digits_no_separator: "0x3A \<notin> set (show_nat n)" "0x2D \<notin> set (show_nat n)"
  using show_nat_digits [of n] by (auto simp: list_all_iff ascii_digit_def)

definition dashless :: "flow_key \<Rightarrow> bool" where
  "dashless k \<longleftrightarrow> 0x2D \<notin> set (flk_local_addr k) \<and> 0x2D \<notin> set (flk_remote_addr k)"

lemma protocol_debug_dashless: "0x2D \<notin> set (protocol_debug p)"
  by (cases p) (simp_all add: lit_def)

lemma protocol_debug_inject: "protocol_debug p = protocol_debug q \<longleftrightarrow> p = q"
  by (cases p; cases q) (simp_all add: lit_def)

text \<open>
  Connection identifiers are unique: two flows whose addresses contain no dash (the display
  form of an IP address never does) have the same identifier only if they are the same flow.
\<close>

lemma connection_id_unique:
  assumes "dashless k" and "dashless k'"
  shows "connection_id k = connection_id k' \<longleftrightarrow> k = k'"
proof
  assume eq: "connection_id k = connection_id k'"
  let ?l = "\<lambda>k. flk_local_addr k @ 0x3A # show_nat (flk_local_port k)"
  let ?r = "\<lambda>k. flk_remote_addr k @ 0x3A # show_nat (flk_remote_port k)"
  have "protocol_debug (flk_protocol k) @ 0x2D # (?l k @ 0x2D # ?r k) =
        protocol_debug (flk_protocol k') @ 0x2D # (?l k' @ 0x2D # ?r k')"
    using eq by (simp add: connection_id_def lit_def)
  from split_at_first [OF this protocol_debug_dashless protocol_debug_dashless]
  have proto: "flk_protocol k = flk_protocol k'" and rest: "?l k @ 0x2D # ?r k = ?l k' @ 0x2D # ?r k'"
    by (simp_all add: protocol_debug_inject)
  have nodash: "0x2D \<notin> set (?l k)" "0x2D \<notin> set (?l k')"
    using assms digits_no_separator(2) by (auto simp: dashless_def)
  from split_at_first [OF rest nodash] have sides: "?l k = ?l k'" "?r k = ?r k'" by simp_all
  from split_at_last [OF sides(1) digits_no_separator(1) digits_no_separator(1)]
    split_at_last [OF sides(2) digits_no_separator(1) digits_no_separator(1)]
  show "k = k'" using proto by (simp add: show_nat_inject)
qed simp

lemma connection_id_unique_witness:
  "connection_id \<lparr>flk_protocol = Tcp, flk_local_addr = lit ''::1'', flk_local_port = 1,
      flk_remote_addr = lit ''::'', flk_remote_port = 12\<rparr>
   \<noteq> connection_id \<lparr>flk_protocol = Tcp, flk_local_addr = lit ''::1'', flk_local_port = 1,
      flk_remote_addr = lit ''::'', flk_remote_port = 2\<rparr>"
proof -
  let ?k = "\<lambda>n. \<lparr>flk_protocol = Tcp, flk_local_addr = lit ''::1'', flk_local_port = 1,
      flk_remote_addr = lit ''::'', flk_remote_port = n\<rparr>"
  have "dashless (?k n)" for n by (simp add: dashless_def lit_def)
  from connection_id_unique [OF this this, of 12 2] show ?thesis by simp
qed

definition demo_packet :: "rstring \<Rightarrow> nat \<Rightarrow> rstring \<Rightarrow> nat \<Rightarrow> parsed_packet" where
  "demo_packet src sport dst dport =
     \<lparr>pp_src_mac = no_mac, pp_dst_mac = no_mac, pp_src_ip = src, pp_dst_ip = dst, pp_protocol = Tcp,
      pp_src_port = Some sport, pp_dst_port = Some dport, pp_tcp_flags = None, pp_seq = None, pp_ttl = 64,
      pp_total_len = 40, pp_payload = [], pp_header_bytes = [], pp_ip_header_len = 20,
      pp_transport_header_len = 20, pp_ip_version = 4, pp_ip_checksum = None, pp_vlan_tag = None,
      pp_ip_declared_payload_len = 20, pp_ip_fragment = None\<rparr>"

lemma flow_key_direction_symmetric_witness:
  "key_for [lit ''h''] (demo_packet (lit ''r'') 80 (lit ''h'') 4000)
     = map_option (\<lambda>(k, outbound). (k, \<not> outbound)) (key_for [lit ''h''] (demo_packet (lit ''h'') 4000 (lit ''r'') 80))"
  by (rule flow_key_direction_symmetric)
     (simp_all add: reverse_of_def demo_packet_def is_local_def lit_def)

text \<open>
  C36: When both endpoints are local addresses, as on a loopback capture, a packet and its reply
  are filed under two different keys, both as outbound: the connection is tracked as two flows.
\<close>

theorem loopback_directions_split:
  assumes "reverse_of p q" and "is_local addrs (pp_src_ip p)" "is_local addrs (pp_dst_ip p)"
    and "pp_src_port p = Some s" "pp_dst_port p = Some d" "(pp_src_ip p, s) \<noteq> (pp_dst_ip p, d)"
  shows "\<exists>k k'. key_for addrs p = Some (k, True) \<and> key_for addrs q = Some (k', True) \<and> k \<noteq> k'"
  using assms by (auto simp: key_for_def reverse_of_def src_local_key_def)

theorem loopback_directions_split_witness:
  "\<exists>k k'. key_for [lit ''127.0.0.1''] (demo_packet (lit ''127.0.0.1'') 4000 (lit ''127.0.0.1'') 80) = Some (k, True)
     \<and> key_for [lit ''127.0.0.1''] (demo_packet (lit ''127.0.0.1'') 80 (lit ''127.0.0.1'') 4000) = Some (k', True)
     \<and> k \<noteq> k'"
  by (rule loopback_directions_split [where s = 4000 and d = 80])
    (simp_all add: reverse_of_def demo_packet_def is_local_def)

end
