(* ===== verification/TcpReassembly.thy ===== *)
theory TcpReassembly
  imports Coverage Eviction FlowKey L7Sniff
begin

text \<open>
  TCP segment reassembly per stream direction (\<open>reassembly.rs\<close>: \<open>TcpStream\<close>, \<open>TcpReassembler\<close>).
  Sequence numbers are 32-bit words; the offset of a segment is the signed distance from the
  stream's base, so everything is stated in a sequence space that wraps.
\<close>

section \<open>Streams\<close>

definition max_tcp_streams :: nat where "max_tcp_streams = 2048"
definition max_tcp_bytes_total :: nat where "max_tcp_bytes_total = 4 * 1024 * 1024"
definition tcp_stream_idle_ms :: nat where "tcp_stream_idle_ms = 30000"
definition tcp_decision_window_ms :: nat where "tcp_decision_window_ms = 2000"

record tcp_stream_key =
  tsk_flow :: flow_key
  tsk_from_local :: bool

record tcp_stream =
  ts_base_seq :: u32
  ts_data :: "byte rvec"
  ts_filled :: "bool rvec"
  ts_prefix_len :: nat
  ts_short_captured_at :: "nat option"
  ts_finished :: bool
  ts_first_seen_ms :: nat
  ts_last_seen_ms :: nat

definition ts_is_idle :: "tcp_stream \<Rightarrow> nat \<Rightarrow> bool" where
  "ts_is_idle st now_ms \<longleftrightarrow> now_ms - ts_last_seen_ms st > tcp_stream_idle_ms"

definition ts_accounted_bytes :: "tcp_stream \<Rightarrow> nat" where
  "ts_accounted_bytes st = sat_add (capacity (ts_data st)) (capacity (ts_filled st))"

definition tcp_stream_new :: "u32 \<Rightarrow> nat \<Rightarrow> tcp_stream" where
  "tcp_stream_new seq now_ms =
     \<lparr>ts_base_seq = seq, ts_data = vec_new, ts_filled = vec_new, ts_prefix_len = 0,
      ts_short_captured_at = None, ts_finished = False, ts_first_seen_ms = now_ms,
      ts_last_seen_ms = now_ms\<rparr>"

definition ts_release :: "tcp_stream \<Rightarrow> tcp_stream" where
  "ts_release st = st\<lparr>ts_data := vec_new, ts_filled := vec_new, ts_prefix_len := 0\<rparr>"

definition ts_rebase :: "nat \<Rightarrow> u32 \<Rightarrow> tcp_stream \<Rightarrow> tcp_stream" where
  "ts_rebase shift new_base st =
     st\<lparr>ts_data := vec_truncate max_tcp_stream_bytes (vec_extend (elems (ts_data st)) (vec_filled shift 0)),
        ts_filled := vec_truncate max_tcp_stream_bytes (vec_extend (elems (ts_filled st)) (vec_filled shift False)),
        ts_base_seq := new_base,
        ts_prefix_len := 0,
        ts_short_captured_at := map_option (\<lambda>at. sat_add at shift) (ts_short_captured_at st)\<rparr>"

definition ts_status :: "tcp_stream \<Rightarrow> reassembly_status" where
  "ts_status st =
     (if (case ts_short_captured_at st of Some at \<Rightarrow> at \<le> ts_prefix_len st | None \<Rightarrow> False)
      then IncompleteTruncatedAtCapture
      else if ts_prefix_len st < length (elems (ts_filled st)) then IncompleteMissingFrames
      else Reassembled)"

section \<open>The reassembler\<close>

record tcp_reassembler =
  tr_streams :: "(tcp_stream_key \<times> tcp_stream) list"
  tr_bytes_held :: nat
  tr_counters :: reassembly_counters

definition tcp_reassembler_new :: tcp_reassembler where
  "tcp_reassembler_new = \<lparr>tr_streams = [], tr_bytes_held = 0, tr_counters = counters_zero\<rparr>"

definition tr_clear :: "tcp_reassembler \<Rightarrow> tcp_reassembler" where
  "tr_clear r = r\<lparr>tr_streams := [], tr_bytes_held := 0\<rparr>"

definition tr_max_buffered_len :: "tcp_reassembler \<Rightarrow> nat" where
  "tr_max_buffered_len r =
     foldr max (map (\<lambda>(k, st). max (length (elems (ts_data st))) (length (elems (ts_filled st)))) (tr_streams r)) 0"

definition tr_prefix :: "tcp_stream_key \<Rightarrow> tcp_reassembler \<Rightarrow> byte list" where
  "tr_prefix key r =
     (case map_of (tr_streams r) key of
        None \<Rightarrow> []
      | Some st \<Rightarrow> (case slice_get (elems (ts_data st)) 0 (ts_prefix_len st) of None \<Rightarrow> [] | Some bs \<Rightarrow> bs))"

definition tr_has_buffer :: "tcp_stream_key \<Rightarrow> tcp_reassembler \<Rightarrow> bool" where
  "tr_has_buffer key r \<longleftrightarrow> map_of (tr_streams r) key \<noteq> None"

definition tr_base_seq :: "tcp_stream_key \<Rightarrow> tcp_reassembler \<Rightarrow> u32 option" where
  "tr_base_seq key r = map_option ts_base_seq (map_of (tr_streams r) key)"

text \<open>
  \<open>self.streams.remove(key)\<close> with the byte counter following, and what each caller does to the
  counters when there was an entry.
\<close>

definition tr_remove ::
  "(reassembly_counters \<Rightarrow> reassembly_counters) \<Rightarrow> tcp_stream_key \<Rightarrow> tcp_reassembler \<Rightarrow> tcp_reassembler" where
  "tr_remove bump key r =
     (case map_of (tr_streams r) key of
        None \<Rightarrow> r
      | Some st \<Rightarrow>
          r\<lparr>tr_streams := AList.delete key (tr_streams r),
            tr_bytes_held := tr_bytes_held r - ts_accounted_bytes st,
            tr_counters := bump (tr_counters r)\<rparr>)"

definition tr_finish :: "tcp_stream_key \<Rightarrow> reassembly_status \<Rightarrow> tcp_reassembler \<Rightarrow> tcp_reassembler" where
  "tr_finish key status r = tr_remove (count_status status) key r"

definition tr_drop_flow :: "flow_key \<Rightarrow> tcp_reassembler \<Rightarrow> tcp_reassembler" where
  "tr_drop_flow flow r =
     tr_remove id \<lparr>tsk_flow = flow, tsk_from_local = False\<rparr>
       (tr_remove id \<lparr>tsk_flow = flow, tsk_from_local = True\<rparr> r)"

definition tr_remove_idle :: "tcp_stream_key \<Rightarrow> tcp_reassembler \<Rightarrow> tcp_reassembler" where
  "tr_remove_idle key r = tr_remove (\<lambda>c. c\<lparr>evicted_idle := evicted_idle c + 1\<rparr>) key r"

definition tr_evict_one :: "tcp_stream_key \<Rightarrow> tcp_reassembler \<Rightarrow> tcp_reassembler" where
  "tr_evict_one key r = tr_remove (\<lambda>c. c\<lparr>evicted_capacity := evicted_capacity c + 1\<rparr>) key r"

definition tr_within :: "nat \<Rightarrow> nat \<Rightarrow> tcp_reassembler \<Rightarrow> bool" where
  "tr_within max_streams max_bytes r \<longleftrightarrow> length (tr_streams r) \<le> max_streams \<and> tr_bytes_held r \<le> max_bytes"

definition tr_evict_oldest_until :: "nat \<Rightarrow> nat \<Rightarrow> tcp_reassembler \<Rightarrow> tcp_reassembler" where
  "tr_evict_oldest_until max_streams max_bytes r =
     (if tr_within max_streams max_bytes r then r
      else evict_loop (tr_within max_streams max_bytes) tr_evict_one
             (keys_by_age ts_last_seen_ms (tr_streams r)) r)"

definition tr_evict_stale :: "nat \<Rightarrow> tcp_reassembler \<Rightarrow> tcp_reassembler" where
  "tr_evict_stale now_ms r =
     (let idle = map fst (filter (\<lambda>(k, st). ts_is_idle st now_ms) (tr_streams r))
      in tr_evict_oldest_until max_tcp_streams max_tcp_bytes_total (fold tr_remove_idle idle r))"

section \<open>Feeding a segment\<close>

definition tcp_make_room :: "tcp_stream_key \<Rightarrow> tcp_reassembler \<Rightarrow> tcp_reassembler" where
  "tcp_make_room key r =
     (if map_of (tr_streams r) key = None \<and> length (tr_streams r) \<ge> max_tcp_streams
      then tr_evict_oldest_until (max_tcp_streams - 1) max_tcp_bytes_total r
      else r)"

definition tcp_expire_on_arrival :: "tcp_stream_key \<Rightarrow> nat \<Rightarrow> tcp_reassembler \<Rightarrow> tcp_reassembler" where
  "tcp_expire_on_arrival key now_ms r =
     (case map_of (tr_streams r) key of
        None \<Rightarrow> r
      | Some st \<Rightarrow> if ts_is_idle st now_ms then tr_remove_idle key r else r)"

definition tcp_entry :: "tcp_stream_key \<Rightarrow> u32 \<Rightarrow> nat \<Rightarrow> tcp_reassembler \<Rightarrow> tcp_stream" where
  "tcp_entry key seq now_ms r =
     (case map_of (tr_streams r) key of None \<Rightarrow> tcp_stream_new seq now_ms | Some st \<Rightarrow> st)
       \<lparr>ts_last_seen_ms := now_ms\<rparr>"

text \<open>
  Where the segment goes: \<^const>\<open>None\<close> when it is too far from what is held, otherwise its offset
  and the stream, shifted when the segment starts before its base.
\<close>

definition tcp_locate :: "u32 \<Rightarrow> tcp_stream \<Rightarrow> (nat \<times> tcp_stream) option" where
  "tcp_locate seq st =
     (let rel = sint (seq - ts_base_seq st)
      in if rel < 0 then
           (let shift = nat (- rel)
            in if sat_add shift (length (elems (ts_data st))) > max_tcp_stream_bytes then None
               else Some (0, ts_rebase shift seq st))
         else if rel > int max_tcp_stream_bytes then None
         else Some (nat rel, st))"

definition note_short_capture :: "nat \<Rightarrow> byte list \<Rightarrow> nat \<Rightarrow> nat option \<Rightarrow> nat option" where
  "note_short_capture offset payload declared old =
     (if u32_cast (length payload) < declared
      then Some (case old of
                   None \<Rightarrow> sat_add offset (length payload)
                 | Some at \<Rightarrow> min at (sat_add offset (length payload)))
      else old)"

definition tcp_write :: "nat \<Rightarrow> byte list \<Rightarrow> nat \<Rightarrow> tcp_stream \<Rightarrow> tcp_stream \<times> write_outcome" where
  "tcp_write offset payload declared st =
     (let (d, fl, out) = write_first_seen_wins (ts_data st) (ts_filled st) offset payload max_tcp_stream_bytes
      in (st\<lparr>ts_data := d, ts_filled := fl,
             ts_short_captured_at := note_short_capture offset payload declared (ts_short_captured_at st),
             ts_prefix_len := contiguous_len_from (elems fl) (ts_prefix_len st),
             ts_finished := ts_finished st \<or> hit_cap out\<rparr>, out))"

definition tcp_store ::
  "tcp_stream_key \<Rightarrow> nat \<Rightarrow> tcp_stream \<Rightarrow> write_outcome \<Rightarrow> tcp_reassembler \<Rightarrow> tcp_reassembler" where
  "tcp_store key before st out r =
     r\<lparr>tr_streams := AList.update key st (tr_streams r),
       tr_bytes_held := sat_add (tr_bytes_held r) (ts_accounted_bytes st) - before,
       tr_counters :=
         (let c = (tr_counters r)\<lparr>conflicting_overlap_bytes :=
                    conflicting_overlap_bytes (tr_counters r) + conflicting out\<rparr>
          in if hit_cap out
             then c\<lparr>abandoned_without_completing := abandoned_without_completing c + 1\<rparr> else c)\<rparr>"

text \<open>The segment meets the stream it belongs to (which is in the map, its time stamp updated).\<close>

definition tcp_feed_stream ::
  "tcp_stream_key \<Rightarrow> u32 \<Rightarrow> byte list \<Rightarrow> nat \<Rightarrow> nat \<Rightarrow> tcp_stream \<Rightarrow> tcp_reassembler
    \<Rightarrow> reassembly_status option \<times> tcp_reassembler" where
  "tcp_feed_stream key seq payload declared now_ms st r =
     (if ts_finished st then
        (None, r\<lparr>tr_streams := AList.delete key (tr_streams r),
                 tr_bytes_held := tr_bytes_held r - ts_accounted_bytes st\<rparr>)
      else if now_ms - ts_first_seen_ms st > tcp_decision_window_ms then
        (None, r\<lparr>tr_streams := AList.update key ((ts_release st)\<lparr>ts_finished := True\<rparr>) (tr_streams r),
                 tr_bytes_held := tr_bytes_held r - ts_accounted_bytes st,
                 tr_counters := (tr_counters r)\<lparr>abandoned_without_completing :=
                   abandoned_without_completing (tr_counters r) + 1\<rparr>\<rparr>)
      else case tcp_locate seq st of
             None \<Rightarrow> (None, r\<lparr>tr_streams := AList.update key st (tr_streams r)\<rparr>)
           | Some (offset, st1) \<Rightarrow>
               let (st2, out) = tcp_write offset payload declared st1
               in (if newly_written out > 0 \<or> hit_cap out then Some (ts_status st2) else None,
                   tr_evict_oldest_until max_tcp_streams max_tcp_bytes_total
                     (tcp_store key (ts_accounted_bytes st) st2 out r)))"

definition tr_feed ::
  "tcp_stream_key \<Rightarrow> u32 \<Rightarrow> byte list \<Rightarrow> nat \<Rightarrow> nat \<Rightarrow> tcp_reassembler
    \<Rightarrow> reassembly_status option \<times> tcp_reassembler" where
  "tr_feed key seq payload declared now_ms r0 =
     (if payload = [] then (None, r0)
      else let r = tcp_expire_on_arrival key now_ms (tcp_make_room key r0)
           in tcp_feed_stream key seq payload declared now_ms (tcp_entry key seq now_ms r) r)"

section \<open>The store of streams\<close>

interpretation tr: capacity_store tr_streams tr_bytes_held ts_accounted_bytes tr_evict_one
proof unfold_locales
  fix k s
  show "tr_streams (tr_evict_one k s) = AList.delete k (tr_streams s)"
    by (cases "map_of (tr_streams s) k") (simp_all add: tr_evict_one_def tr_remove_def)
  show "tr_bytes_held (tr_evict_one k s)
      = tr_bytes_held s - (case map_of (tr_streams s) k of None \<Rightarrow> 0 | Some e \<Rightarrow> ts_accounted_bytes e)"
    by (cases "map_of (tr_streams s) k") (simp_all add: tr_evict_one_def tr_remove_def)
qed

lemma tr_evict_oldest_until_eq:
  "tr_evict_oldest_until n b r =
     evict_loop (tr.within n b) tr_evict_one (keys_by_age ts_last_seen_ms (tr_streams r)) r"
proof -
  have eq: "tr_within n b = tr.within n b" by (simp add: fun_eq_iff tr_within_def tr.within_def)
  show ?thesis
    by (cases "tr.within n b r"; cases "keys_by_age ts_last_seen_ms (tr_streams r)")
       (simp_all add: tr_evict_oldest_until_def eq)
qed

definition stream_ok :: "tcp_stream \<Rightarrow> bool" where
  "stream_ok st \<longleftrightarrow>
     buffer_ok max_tcp_stream_bytes (ts_data st) (ts_filled st)
     \<and> ts_prefix_len st = held_prefix_len (elems (ts_filled st))"

definition tcp_ok :: "tcp_reassembler \<Rightarrow> bool" where
  "tcp_ok r \<longleftrightarrow> tr.balanced r \<and> (\<forall>(k, st)\<in>set (tr_streams r). stream_ok st)"

definition tcp_inv :: "tcp_reassembler \<Rightarrow> bool" where
  "tcp_inv r \<longleftrightarrow> tcp_ok r \<and> tr_within max_tcp_streams max_tcp_bytes_total r"

lemma stream_ok_new [simp]: "stream_ok (tcp_stream_new seq now_ms)"
  by (simp add: stream_ok_def tcp_stream_new_def held_prefix_len_def vec_simps)

lemma stream_ok_release: "stream_ok ((ts_release st)\<lparr>ts_finished := f\<rparr>)"
  by (simp add: stream_ok_def ts_release_def held_prefix_len_def vec_simps)

lemma accounted_release: "ts_accounted_bytes ((ts_release st)\<lparr>ts_finished := f\<rparr>) = 0"
  by (simp add: ts_accounted_bytes_def ts_release_def vec_simps sat_add_def)

lemma accounted_buffer_le:
  assumes "buffer_ok max_tcp_stream_bytes (ts_data st) (ts_filled st)"
  shows "ts_accounted_bytes st \<le> 65552"
proof -
  have "capacity (ts_data st) \<le> 32776" "capacity (ts_filled st) \<le> 32776"
    using assms by (auto simp: buffer_ok_def vec_ok_def max_tcp_stream_bytes_def)
  then show ?thesis using sat_add_le [of "capacity (ts_data st)" "capacity (ts_filled st)"]
    by (simp add: ts_accounted_bytes_def)
qed

lemma tcp_ok_stream: "tcp_ok r \<Longrightarrow> map_of (tr_streams r) k = Some st \<Longrightarrow> stream_ok st"
  by (auto simp: tcp_ok_def dest!: map_of_SomeD)

lemma tr_remove_ok:
  assumes "tcp_ok r"
  shows "tcp_ok (tr_remove bump k r)"
    and "length (tr_streams (tr_remove bump k r)) \<le> length (tr_streams r)"
    and "tr_bytes_held (tr_remove bump k r) \<le> tr_bytes_held r"
    and "tr_streams (tr_remove bump k r) = AList.delete k (tr_streams r)"
proof -
  show "tcp_ok (tr_remove bump k r)"
    using assms weigh_delete [of "tr_streams r" ts_accounted_bytes k] set_delete_subset [of k "tr_streams r"]
    by (cases "map_of (tr_streams r) k") (auto simp: tr_remove_def tcp_ok_def tr.balanced_def)
qed (simp_all add: tr_remove_def length_delete_le split: option.splits)

lemma tr_evict_oldest_until_ok:
  assumes "tcp_ok r"
  shows "tcp_ok (tr_evict_oldest_until n b r)" and "tr_within n b (tr_evict_oldest_until n b r)"
proof -
  let ?r = "tr_evict_oldest_until n b r"
  have "set (tr_streams ?r) \<subseteq> set (tr_streams r)"
    unfolding tr_evict_oldest_until_eq by (rule tr.evict_loop_ents_subset)
  moreover have "tr.balanced ?r"
    using assms unfolding tr_evict_oldest_until_eq tcp_ok_def by (blast intro: tr.balanced_evict_loop)
  ultimately show "tcp_ok ?r" using assms by (auto simp: tcp_ok_def)
  have "tr.within n b ?r"
    using assms unfolding tr_evict_oldest_until_eq tcp_ok_def by (intro tr.evict_loop_within) auto
  then show "tr_within n b ?r" by (simp add: tr_within_def tr.within_def)
qed

lemma tr_remove_inv: "tcp_inv r \<Longrightarrow> tcp_inv (tr_remove bump k r)"
  using tr_remove_ok [of r bump k] by (simp add: tcp_inv_def tr_within_def)

lemma tr_finish_inv: "tcp_inv r \<Longrightarrow> tcp_inv (tr_finish k st r)"
  and tr_drop_flow_inv: "tcp_inv r \<Longrightarrow> tcp_inv (tr_drop_flow fl r)"
  and tr_clear_inv: "tcp_inv (tr_clear r)"
  and tcp_inv_new: "tcp_inv tcp_reassembler_new"
  by (simp_all add: tr_finish_def tr_drop_flow_def tr_remove_inv)
     (simp_all add: tcp_inv_def tcp_ok_def tr.balanced_def tr_within_def tr_clear_def tcp_reassembler_new_def)

lemma tr_evict_stale_inv:
  assumes "tcp_inv r"
  shows "tcp_inv (tr_evict_stale now_ms r)"
proof -
  have "tcp_ok (fold tr_remove_idle ks r)" if "tcp_ok r" for ks r
    using that by (induction ks arbitrary: r) (simp_all add: tr_remove_idle_def tr_remove_ok)
  with assms show ?thesis
    by (simp add: tr_evict_stale_def tcp_inv_def tr_evict_oldest_until_ok)
qed

section \<open>Feeding keeps the invariant\<close>

lemma tcp_make_room_inv:
  assumes "tcp_inv r"
  shows "tcp_inv (tcp_make_room k r)"
    and "map_of (tr_streams (tcp_make_room k r)) k = None \<Longrightarrow>
         length (tr_streams (tcp_make_room k r)) < max_tcp_streams"
  using assms tr_evict_oldest_until_ok [of r "max_tcp_streams - 1" max_tcp_bytes_total]
  by (auto simp: tcp_make_room_def tcp_inv_def tr_within_def max_tcp_streams_def)

lemma tcp_expire_on_arrival_inv:
  assumes "tcp_inv r"
    and "map_of (tr_streams r) k = None \<Longrightarrow> length (tr_streams r) < max_tcp_streams"
  shows "tcp_inv (tcp_expire_on_arrival k now_ms r)"
    and "map_of (tr_streams (tcp_expire_on_arrival k now_ms r)) k = None \<Longrightarrow>
         length (tr_streams (tcp_expire_on_arrival k now_ms r)) < max_tcp_streams"
proof -
  show "tcp_inv (tcp_expire_on_arrival k now_ms r)"
    using assms(1) by (auto simp: tcp_expire_on_arrival_def tr_remove_idle_def tr_remove_inv split: option.split)
  assume none: "map_of (tr_streams (tcp_expire_on_arrival k now_ms r)) k = None"
  show "length (tr_streams (tcp_expire_on_arrival k now_ms r)) < max_tcp_streams"
  proof (cases "map_of (tr_streams r) k")
    case None
    with assms(2) show ?thesis by (simp add: tcp_expire_on_arrival_def)
  next
    case (Some st)
    with none have "tcp_expire_on_arrival k now_ms r = tr_remove_idle k r"
      by (auto simp: tcp_expire_on_arrival_def split: if_splits)
    moreover have "distinct (map fst (tr_streams r))" "length (tr_streams r) \<le> max_tcp_streams"
      using assms(1) by (simp_all add: tcp_inv_def tcp_ok_def tr.balanced_def tr_within_def)
    ultimately show ?thesis
      using length_delete_member [OF _ Some] tr_remove_ok(4) assms(1)
      by (fastforce simp: tr_remove_idle_def tcp_inv_def)
  qed
qed

lemma stream_ok_entry: "tcp_ok r \<Longrightarrow> stream_ok (tcp_entry k seq now_ms r)"
  using tcp_ok_stream stream_ok_new
  by (auto simp: tcp_entry_def stream_ok_def split: option.splits)

lemma accounted_tcp_entry:
  "ts_accounted_bytes (tcp_entry k seq now_ms r) =
     (case map_of (tr_streams r) k of None \<Rightarrow> 0 | Some st \<Rightarrow> ts_accounted_bytes st)"
  by (simp add: tcp_entry_def ts_accounted_bytes_def tcp_stream_new_def vec_simps sat_add_def
      split: option.splits)

lemma tcp_locate_cases [consumes 1, case_names ahead behind]:
  assumes "tcp_locate seq st = Some (offset, st1)"
  obtains (ahead) "0 \<le> sint (seq - ts_base_seq st)" "sint (seq - ts_base_seq st) \<le> int max_tcp_stream_bytes"
      "offset = nat (sint (seq - ts_base_seq st))" "st1 = st"
  | (behind) shift where "sint (seq - ts_base_seq st) = - int shift" "0 < shift"
      "shift + length (elems (ts_data st)) \<le> max_tcp_stream_bytes" "offset = 0" "st1 = ts_rebase shift seq st"
proof (cases "sint (seq - ts_base_seq st) < 0")
  case True
  let ?shift = "nat (- sint (seq - ts_base_seq st))"
  have le: "sat_add ?shift (length (elems (ts_data st))) \<le> max_tcp_stream_bytes"
    and r: "offset = 0" "st1 = ts_rebase ?shift seq st"
    using assms True by (simp_all add: tcp_locate_def Let_def split: if_splits)
  have "?shift + length (elems (ts_data st)) \<le> max_tcp_stream_bytes"
    using le by (auto simp: sat_add_def max_tcp_stream_bytes_def usize_max_def min_def split: if_splits)
  with True r show thesis by (intro behind [of ?shift]) simp_all
next
  case False
  with assms show thesis by (intro ahead) (auto simp: tcp_locate_def Let_def split: if_splits)
qed

lemma tcp_locate_buffer:
  assumes "tcp_locate seq st = Some (offset, st1)" and "stream_ok st"
  shows "buffer_ok max_tcp_stream_bytes (ts_data st1) (ts_filled st1)"
    and "known_prefix (elems (ts_filled st1)) (ts_prefix_len st1)"
    and "offset \<le> max_tcp_stream_bytes"
    and "ts_finished st1 = ts_finished st"
proof -
  have buf: "buffer_ok max_tcp_stream_bytes (ts_data st) (ts_filled st)"
    and pre: "known_prefix (elems (ts_filled st)) (ts_prefix_len st)"
    using assms(2) known_prefix_held [of "elems (ts_filled st)"] by (simp_all add: stream_ok_def)
  have "buffer_ok max_tcp_stream_bytes (ts_data st1) (ts_filled st1) \<and>
      known_prefix (elems (ts_filled st1)) (ts_prefix_len st1) \<and> offset \<le> max_tcp_stream_bytes \<and>
      ts_finished st1 = ts_finished st"
    using assms(1)
  proof (cases rule: tcp_locate_cases)
    case ahead
    with buf pre show ?thesis by auto
  next
    case (behind shift)
    then have "buffer_ok max_tcp_stream_bytes (ts_data st1) (ts_filled st1)"
      using buf by (auto simp: ts_rebase_def buffer_ok_def vec_ok_filled_extend vec_simps)
    with behind show ?thesis by (simp add: ts_rebase_def)
  qed
  then show "buffer_ok max_tcp_stream_bytes (ts_data st1) (ts_filled st1)"
    "known_prefix (elems (ts_filled st1)) (ts_prefix_len st1)" "offset \<le> max_tcp_stream_bytes"
    "ts_finished st1 = ts_finished st" by simp_all
qed

lemma tcp_write_ok:
  assumes "tcp_write offset payload declared st = (st', out)"
    and "buffer_ok max_tcp_stream_bytes (ts_data st) (ts_filled st)"
    and "known_prefix (elems (ts_filled st)) (ts_prefix_len st)"
    and "offset + length payload \<le> usize_max"
  shows "stream_ok st'"
    and "covered (elems (ts_data st')) (elems (ts_filled st')) =
       piece_map offset (take (max_tcp_stream_bytes - offset) payload)
         ++ covered (elems (ts_data st)) (elems (ts_filled st))"
    and "ts_base_seq st' = ts_base_seq st" and "ts_first_seen_ms st' = ts_first_seen_ms st"
    and "ts_last_seen_ms st' = ts_last_seen_ms st"
    and "ts_finished st' \<longleftrightarrow> ts_finished st \<or> offset + length payload > max_tcp_stream_bytes"
    and "ts_short_captured_at st' = note_short_capture offset payload declared (ts_short_captured_at st)"
proof -
  obtain d fl where w: "write_first_seen_wins (ts_data st) (ts_filled st) offset payload max_tcp_stream_bytes
      = (d, fl, out)"
    and st': "st' = st\<lparr>ts_data := d, ts_filled := fl,
             ts_short_captured_at := note_short_capture offset payload declared (ts_short_captured_at st),
             ts_prefix_len := contiguous_len_from (elems fl) (ts_prefix_len st),
             ts_finished := ts_finished st \<or> hit_cap out\<rparr>"
    using assms(1) by (auto simp: tcp_write_def split: prod.splits)
  show "stream_ok st'"
    using write_first_seen_wins_ok [OF w assms(2,4)] write_first_seen_wins_prefix [OF w assms(2,4,3)]
    by (simp add: stream_ok_def st')
  show "covered (elems (ts_data st')) (elems (ts_filled st')) =
       piece_map offset (take (max_tcp_stream_bytes - offset) payload)
         ++ covered (elems (ts_data st)) (elems (ts_filled st))"
    using write_first_seen_wins_covered [OF w assms(2,4)] by (simp add: st')
  show "ts_finished st' \<longleftrightarrow> ts_finished st \<or> offset + length payload > max_tcp_stream_bytes"
    using write_first_seen_wins_hit_cap [OF w assms(2,4)] by (simp add: st')
qed (use assms(1) in \<open>auto simp: tcp_write_def split: prod.splits\<close>)

lemma tcp_update_inv:
  assumes "tcp_inv r" and "stream_ok st"
    and "map_of (tr_streams r) k = None \<Longrightarrow> length (tr_streams r) < max_tcp_streams"
    and "bytes_held + (case map_of (tr_streams r) k of None \<Rightarrow> 0 | Some e \<Rightarrow> ts_accounted_bytes e)
       = tr_bytes_held r + ts_accounted_bytes st"
    and "bytes_held \<le> max_tcp_bytes_total"
  shows "tcp_inv (r\<lparr>tr_streams := AList.update k st (tr_streams r), tr_bytes_held := bytes_held,
                    tr_counters := c\<rparr>)"
proof -
  have "weigh ts_accounted_bytes (AList.update k st (tr_streams r)) = bytes_held"
    using weigh_update [of "tr_streams r" ts_accounted_bytes k st] assms(1,4)
    by (simp add: tcp_inv_def tcp_ok_def tr.balanced_def)
  moreover have "length (AList.update k st (tr_streams r)) \<le> max_tcp_streams"
    using assms(1,3) by (auto simp: length_update tcp_inv_def tr_within_def map_of_eq_None_iff)
  ultimately show ?thesis
    using assms(1,2,5)
    by (auto simp: tcp_inv_def tcp_ok_def tr.balanced_def tr_within_def dest!: set_update_values)
qed

text \<open>What the write path does, once: locate, write, store, evict.\<close>

lemma tcp_feed_stream_written:
  assumes "\<not> ts_finished st" and "\<not> now_ms - ts_first_seen_ms st > tcp_decision_window_ms"
    and "tcp_locate seq st = Some (offset, st1)" and "tcp_write offset payload declared st1 = (st2, out)"
  shows "tcp_feed_stream key seq payload declared now_ms st r =
    (if newly_written out > 0 \<or> hit_cap out then Some (ts_status st2) else None,
     tr_evict_oldest_until max_tcp_streams max_tcp_bytes_total
       (tcp_store key (ts_accounted_bytes st) st2 out r))"
  using assms by (simp add: tcp_feed_stream_def)

lemma tcp_store_ok:
  assumes "tcp_inv r" and "stream_ok st"
    and "before = (case map_of (tr_streams r) k of None \<Rightarrow> 0 | Some e \<Rightarrow> ts_accounted_bytes e)"
  shows "tcp_ok (tcp_store k before st out r)"
proof -
  have "ts_accounted_bytes st \<le> 65552" using assms(2) by (auto simp: stream_ok_def intro: accounted_buffer_le)
  then have "tr_bytes_held r + ts_accounted_bytes st \<le> usize_max"
    using assms(1) by (simp add: tcp_inv_def tr_within_def max_tcp_bytes_total_def usize_max_def)
  then have "sat_add (tr_bytes_held r) (ts_accounted_bytes st) = tr_bytes_held r + ts_accounted_bytes st"
    by (rule sat_add_exact)
  then show ?thesis
    using assms weigh_update [of "tr_streams r" ts_accounted_bytes k st]
    by (auto simp: tcp_store_def tcp_inv_def tcp_ok_def tr.balanced_def dest!: set_update_values)
qed

lemma tcp_feed_stream_inv:
  assumes "tcp_inv r" and "st = tcp_entry key seq now_ms r" and "length payload < 2 ^ 63"
    and "map_of (tr_streams r) key = None \<Longrightarrow> length (tr_streams r) < max_tcp_streams"
  shows "tcp_inv (snd (tcp_feed_stream key seq payload declared now_ms st r))"
proof -
  have ok: "tcp_ok r" using assms(1) by (simp add: tcp_inv_def)
  have st: "stream_ok st" unfolding assms(2) by (rule stream_ok_entry [OF ok])
  have acc: "ts_accounted_bytes st = (case map_of (tr_streams r) key of None \<Rightarrow> 0 | Some e \<Rightarrow> ts_accounted_bytes e)"
    by (simp add: assms(2) accounted_tcp_entry)
  have acc_le: "ts_accounted_bytes st \<le> tr_bytes_held r"
    using ok weigh_member_le [of "tr_streams r" key _ ts_accounted_bytes]
    by (auto simp: acc tcp_ok_def tr.balanced_def split: option.split)
  have held: "tr_bytes_held r \<le> max_tcp_bytes_total" using assms(1) by (simp add: tcp_inv_def tr_within_def)
  consider (finished) "ts_finished st"
    | (window) "\<not> ts_finished st" "now_ms - ts_first_seen_ms st > tcp_decision_window_ms"
    | (far) "\<not> ts_finished st" "\<not> now_ms - ts_first_seen_ms st > tcp_decision_window_ms"
        "tcp_locate seq st = None"
    | (written) offset st1 where "\<not> ts_finished st" "\<not> now_ms - ts_first_seen_ms st > tcp_decision_window_ms"
        "tcp_locate seq st = Some (offset, st1)"
    by (metis not_None_eq surj_pair)
  then show ?thesis
  proof cases
    case finished
    have "snd (tcp_feed_stream key seq payload declared now_ms st r) = tr_remove id key r"
      using finished assms(2) acc
      by (auto simp: tcp_feed_stream_def tr_remove_def tcp_entry_def tcp_stream_new_def split: option.split)
    then show ?thesis using assms(1) by (simp add: tr_remove_inv)
  next
    case window
    then show ?thesis
      using acc_le held acc
      by (simp add: tcp_feed_stream_def,
          intro tcp_update_inv [OF assms(1) stream_ok_release assms(4)])
         (simp_all add: accounted_release split: option.split_asm)
  next
    case far
    then show ?thesis
      using tcp_update_inv [OF assms(1) st assms(4), where k = key and c = "tr_counters r"
          and bytes_held = "tr_bytes_held r"] held acc
      by (simp add: tcp_feed_stream_def)
  next
    case (written offset st1)
    obtain st2 out where w: "tcp_write offset payload declared st1 = (st2, out)" by (meson surj_pair)
    note loc = tcp_locate_buffer [OF written(3) st]
    have "offset + length payload \<le> usize_max"
      using loc(3) assms(3) by (simp add: max_tcp_stream_bytes_def usize_max_def)
    with loc have "stream_ok st2" by (intro tcp_write_ok(1) [OF w])
    from tcp_store_ok [OF assms(1) this acc]
    show ?thesis
      unfolding tcp_feed_stream_written [OF written w]
      by (simp add: tcp_inv_def tr_evict_oldest_until_ok)
  qed
qed

lemma tr_feed_inv:
  assumes "tcp_inv r" and "length payload < 2 ^ 63"
  shows "tcp_inv (snd (tr_feed key seq payload declared now_ms r))"
  using assms(1) tcp_feed_stream_inv [OF _ refl assms(2)] tcp_make_room_inv [OF assms(1)]
    tcp_expire_on_arrival_inv [of "tcp_make_room key r" key now_ms]
  by (simp add: tr_feed_def Let_def)

section \<open>Sequence space\<close>

text \<open>
  What a stream holds, by absolute sequence number: the abstraction under which shifting the
  buffer is invisible.
\<close>

definition stream_bytes :: "tcp_stream \<Rightarrow> u32 \<Rightarrow> byte option" where
  "stream_bytes st s = covered (elems (ts_data st)) (elems (ts_filled st)) (unat (s - ts_base_seq st))"

lemma covered_shift:
  "length d = length f \<Longrightarrow> covered (replicate n 0 @ d) (replicate n False @ f) i =
     (if i < n then None else covered d f (i - n))"
  by (auto simp: covered_def nth_append)

lemma unat_add_small:
  fixes x :: u32
  assumes "shift < 2 ^ 32"
  shows "unat (x + of_nat shift) =
    (if unat x + shift < 2 ^ 32 then unat x + shift else unat x + shift - 2 ^ 32)"
proof -
  have s: "unat (of_nat shift :: u32) = shift" using assms by (simp add: unat_of_nat)
  have "unat x < 2 ^ 32" using unsigned_less [of x] by simp
  then show ?thesis
    unfolding unat_word_ariths s using assms by (auto simp: mod_if)
qed

lemma rebase_stream_bytes:
  assumes "sint (seq - ts_base_seq st) = - int shift"
    and "shift + length (elems (ts_data st)) \<le> max_tcp_stream_bytes"
    and "length (elems (ts_data st)) = length (elems (ts_filled st))"
  shows "stream_bytes (ts_rebase shift seq st) = stream_bytes st"
proof
  fix s
  let ?d = "elems (ts_data st)" and ?f = "elems (ts_filled st)"
  let ?i = "unat (s - ts_base_seq st)"
  have "seq - ts_base_seq st = of_int (- int shift)"
    using assms(1) by (metis of_int_sint scast_id)
  then have eq: "s - seq = (s - ts_base_seq st) + of_nat shift" by (simp add: algebra_simps)
  have lt: "shift < 2 ^ 32" using assms(2) by (simp add: max_tcp_stream_bytes_def)
  have i: "unat (s - seq) = (if ?i + shift < 2 ^ 32 then ?i + shift else ?i + shift - 2 ^ 32)"
    unfolding eq by (rule unat_add_small [OF lt])
  have wide: "covered ?d ?f ?i = None" if "\<not> ?i + shift < 2 ^ 32"
  proof -
    have "length ?f \<le> ?i" using that assms(2,3) by (simp add: max_tcp_stream_bytes_def)
    then show ?thesis by (simp add: covered_def)
  qed
  have "?i < 2 ^ 32" using unsigned_less [of "s - ts_base_seq st"] by simp
  then show "stream_bytes (ts_rebase shift seq st) s = stream_bytes st s"
    using i wide assms(2,3)
    by (auto simp: stream_bytes_def ts_rebase_def vec_simps covered_shift)
qed

text \<open>The bytes of one segment, by absolute sequence number.\<close>

definition segment_bytes :: "u32 \<Rightarrow> byte list \<Rightarrow> u32 \<Rightarrow> byte option" where
  "segment_bytes seq payload s = byte_at payload (unat (s - seq))"

lemma unat_of_sint: "0 \<le> sint x \<Longrightarrow> unat (x :: u32) = nat (sint x)"
proof -
  assume "0 \<le> sint x"
  moreover have "sint x < 2 ^ 32" using sint_lt [of x] by simp
  ultimately have "uint x = sint x" by (simp add: uint_sint take_bit_int_eq_self)
  then show ?thesis by (simp add: unat_eq_nat_uint)
qed

lemma piece_map_segment:
  assumes "unat (seq - base) = offset" and "offset + length p \<le> max_tcp_stream_bytes"
  shows "piece_map offset p (unat (s - base)) = segment_bytes seq p s"
proof -
  have eq: "s - base = (s - seq) + of_nat offset"
    unfolding assms(1) [symmetric] by simp
  have lt: "offset < 2 ^ 32" using assms(2) by (simp add: max_tcp_stream_bytes_def)
  have i: "unat (s - base) = (if unat (s - seq) + offset < 2 ^ 32 then unat (s - seq) + offset
      else unat (s - seq) + offset - 2 ^ 32)"
    unfolding eq by (rule unat_add_small [OF lt])
  have "unat (s - seq) < 2 ^ 32" using unsigned_less [of "s - seq"] by simp
  with i assms(2) show ?thesis
    by (auto simp: piece_map_def segment_bytes_def byte_at_def max_tcp_stream_bytes_def)
qed

text \<open>
  Placing a segment adds its bytes (as far as the cap reaches) underneath those already held:
  in sequence space both the shift and the wrap-around disappear.
\<close>

lemma tcp_write_stream_bytes:
  assumes "tcp_locate seq st = Some (offset, st1)" and "tcp_write offset payload declared st1 = (st2, out)"
    and "stream_ok st" and "length payload < 2 ^ 63"
  shows "stream_ok st2"
    and "stream_bytes st2 = segment_bytes seq (take (max_tcp_stream_bytes - offset) payload) ++ stream_bytes st"
    and "ts_finished st2 \<longleftrightarrow> ts_finished st \<or> offset + length payload > max_tcp_stream_bytes"
    and "stream_bytes st1 = stream_bytes st" and "ts_base_seq st2 = ts_base_seq st1"
proof -
  note loc = tcp_locate_buffer [OF assms(1,3)]
  have fits: "offset + length payload \<le> usize_max"
    using loc(3) assms(4) by (simp add: max_tcp_stream_bytes_def usize_max_def)
  note w = tcp_write_ok [OF assms(2) loc(1,2) fits]
  show "stream_ok st2" by (rule w(1))
  show "ts_finished st2 \<longleftrightarrow> ts_finished st \<or> offset + length payload > max_tcp_stream_bytes"
    using w(6) loc(4) by simp
  show "ts_base_seq st2 = ts_base_seq st1" by (rule w(3))
  have same_len: "length (elems (ts_data st)) = length (elems (ts_filled st))"
    using assms(3) by (simp add: stream_ok_def buffer_ok_def)
  have "stream_bytes st1 = stream_bytes st \<and> unat (seq - ts_base_seq st1) = offset"
    using assms(1)
  proof (cases rule: tcp_locate_cases)
    case ahead
    then show ?thesis by (simp add: unat_of_sint)
  next
    case (behind shift)
    then show ?thesis
      using rebase_stream_bytes [OF behind(1,3) same_len] by (simp add: ts_rebase_def)
  qed
  then have same: "stream_bytes st1 = stream_bytes st"
    and offset: "unat (seq - ts_base_seq st1) = offset" by simp_all
  from same show "stream_bytes st1 = stream_bytes st" .
  show "stream_bytes st2 = segment_bytes seq (take (max_tcp_stream_bytes - offset) payload) ++ stream_bytes st"
  proof
    fix s
    let ?p = "take (max_tcp_stream_bytes - offset) payload"
    have "piece_map offset ?p (unat (s - ts_base_seq st1)) = segment_bytes seq ?p s"
      using loc(3) by (intro piece_map_segment [OF offset]) auto
    then show "stream_bytes st2 s = (segment_bytes seq ?p ++ stream_bytes st) s"
      unfolding same [symmetric] by (simp add: stream_bytes_def w(2,3) map_add_def split: option.split)
  qed
qed

text \<open>A stream used in examples.\<close>

definition demo_flow :: flow_key where
  "demo_flow = \<lparr>flk_protocol = Tcp, flk_local_addr = lit ''h'', flk_local_port = 4000,
     flk_remote_addr = lit ''r'', flk_remote_port = 80\<rparr>"

definition demo_stream_key :: tcp_stream_key where
  "demo_stream_key = \<lparr>tsk_flow = demo_flow, tsk_from_local = True\<rparr>"

end
