(* ===== verification/TcpCorrect.thy ===== *)
theory TcpCorrect
  imports TcpReassembly
begin

text \<open>
  Correctness of TCP reassembly: memory bounds in every reachable state, bytes in sequence space
  never change once seen, and a message is rebuilt from its segments in any order, also across
  the wrap of the sequence number.
\<close>

section \<open>Reachable states\<close>

inductive tr_reachable :: "tcp_reassembler \<Rightarrow> bool" where
  start: "tr_reachable tcp_reassembler_new"
| feed: "tr_reachable r \<Longrightarrow> length payload < 2 ^ 63 \<Longrightarrow>
         tr_reachable (snd (tr_feed key seq payload declared t r))"
| finish: "tr_reachable r \<Longrightarrow> tr_reachable (tr_finish key status r)"
| drop_flow: "tr_reachable r \<Longrightarrow> tr_reachable (tr_drop_flow flow r)"
| evict: "tr_reachable r \<Longrightarrow> tr_reachable (tr_evict_stale t r)"
| clear: "tr_reachable r \<Longrightarrow> tr_reachable (tr_clear r)"

lemma tr_reachable_inv: "tr_reachable r \<Longrightarrow> tcp_inv r"
  by (induction rule: tr_reachable.induct)
     (simp_all add: tcp_inv_new tr_feed_inv tr_finish_inv tr_drop_flow_inv tr_evict_stale_inv tr_clear_inv)

lemma max_buffered_len_le:
  "\<forall>(k, st)\<in>set xs. stream_ok st \<Longrightarrow>
   foldr max (map (\<lambda>(k, st). max (length (elems (ts_data st))) (length (elems (ts_filled st)))) xs) 0
     \<le> max_tcp_stream_bytes"
proof (induction xs)
  case (Cons x xs)
  obtain k st where x: "x = (k, st)" by (cases x)
  with Cons.prems have "stream_ok st" by simp
  then have "max (length (elems (ts_data st))) (length (elems (ts_filled st))) \<le> max_tcp_stream_bytes"
    by (simp add: stream_ok_def buffer_ok_def vec_ok_def)
  with Cons show ?case by (simp add: x)
qed simp

text \<open>
  In every state the TCP reassembler can reach, at most 2048 stream directions and 4 MiB of
  buffer capacity are held, no direction buffers more than 16 KiB, and the byte counter equals
  the capacity actually retained.
\<close>

lemma tcp_memory_bounded:
  assumes "tr_reachable r"
  shows "length (tr_streams r) \<le> max_tcp_streams \<and> tr_bytes_held r \<le> max_tcp_bytes_total
    \<and> tr_max_buffered_len r \<le> max_tcp_stream_bytes
    \<and> tr_bytes_held r = sum_list (map (\<lambda>(k, st). ts_accounted_bytes st) (tr_streams r))"
proof -
  have inv: "tcp_inv r" by (rule tr_reachable_inv [OF assms])
  then have ok: "\<forall>(k, st)\<in>set (tr_streams r). stream_ok st"
    by (auto simp: tcp_inv_def tcp_ok_def)
  have "weigh ts_accounted_bytes (tr_streams r) = sum_list (map (\<lambda>(k, st). ts_accounted_bytes st) (tr_streams r))"
    by (simp add: weigh_def case_prod_unfold comp_def)
  with inv max_buffered_len_le [OF ok] show ?thesis
    by (simp add: tcp_inv_def tcp_ok_def tr.balanced_def tr_within_def tr_max_buffered_len_def)
qed

section \<open>First-seen bytes\<close>

lemma covered_nth: "covered d f i = Some b \<Longrightarrow> d ! i = b"
  by (simp add: covered_Some_iff)

lemma streams_evict: "set (tr_streams (tr_evict_oldest_until n b r)) \<subseteq> set (tr_streams r)"
  unfolding tr_evict_oldest_until_eq by (rule tr.evict_loop_ents_subset)

lemma streams_prepare:
  assumes "tcp_ok r"
  shows "set (tr_streams (tcp_expire_on_arrival k t (tcp_make_room k r))) \<subseteq> set (tr_streams r)"
proof -
  have room: "set (tr_streams (tcp_make_room k r)) \<subseteq> set (tr_streams r)"
    using streams_evict by (simp add: tcp_make_room_def)
  have "set (tr_streams (tcp_expire_on_arrival k t r')) \<subseteq> set (tr_streams r')" for r'
    using set_delete_subset [of k "tr_streams r'"]
    by (auto simp: tcp_expire_on_arrival_def tr_remove_idle_def tr_remove_def split: option.splits)
  with room show ?thesis by blast
qed

lemma prepare_live:
  assumes "map_of (tr_streams r) k = Some st" and "\<not> ts_is_idle st t"
  shows "tcp_expire_on_arrival k t (tcp_make_room k r) = r"
    and "tcp_entry k seq t r = st\<lparr>ts_last_seen_ms := t\<rparr>"
  using assms by (simp_all add: tcp_make_room_def tcp_expire_on_arrival_def tcp_entry_def)

lemma stream_bytes_touch [simp]: "stream_bytes (st\<lparr>ts_last_seen_ms := t\<rparr>) = stream_bytes st"
  by (simp add: stream_bytes_def fun_eq_iff)

lemma map_of_subset:
  "distinct (map fst ys) \<Longrightarrow> set xs \<subseteq> set ys \<Longrightarrow> map_of xs k = Some v \<Longrightarrow> map_of ys k = Some v"
  by (meson map_of_SomeD map_of_is_SomeI subsetD)

lemma evict_lookup:
  assumes "tcp_ok r" and "map_of (tr_streams (tr_evict_oldest_until n b r)) k = Some st"
  shows "map_of (tr_streams r) k = Some st"
  using assms(1) by (intro map_of_subset [OF _ streams_evict assms(2)]) (simp add: tcp_ok_def tr.balanced_def)

text \<open>A segment leaves every other stream alone, or evicts it.\<close>

lemma feed_stream_other:
  assumes "tcp_inv r" and "st = tcp_entry k seq t r" and "length payload < 2 ^ 63" and "k' \<noteq> k"
    and "map_of (tr_streams (snd (tcp_feed_stream k seq payload declared t st r))) k' = Some st'"
  shows "map_of (tr_streams r) k' = Some st'"
proof (cases "ts_finished st \<or> t - ts_first_seen_ms st > tcp_decision_window_ms \<or> tcp_locate seq st = None")
  case True
  with assms(4,5) show ?thesis by (auto simp: tcp_feed_stream_def update_conv split: if_splits)
next
  case False
  then obtain offset st1 where loc: "tcp_locate seq st = Some (offset, st1)" by auto
  obtain st2 out where w: "tcp_write offset payload declared st1 = (st2, out)" by (meson surj_pair)
  have ok: "stream_ok st" unfolding assms(2) using assms(1) by (intro stream_ok_entry) (simp add: tcp_inv_def)
  have "tcp_ok (tcp_store k (ts_accounted_bytes st) st2 out r)"
    using tcp_write_stream_bytes(1) [OF loc w ok assms(3)] assms(1,2)
    by (intro tcp_store_ok) (simp_all add: accounted_tcp_entry)
  from evict_lookup [OF this, of max_tcp_streams max_tcp_bytes_total k' st'] assms(5) False
  have "map_of (tr_streams (tcp_store k (ts_accounted_bytes st) st2 out r)) k' = Some st'"
    by (simp add: tcp_feed_stream_written [OF _ _ loc w])
  with assms(4) show ?thesis by (simp add: tcp_store_def update_conv)
qed

text \<open>The stream it belongs to only gains bytes while it is live.\<close>

lemma feed_stream_same:
  assumes "tcp_inv r" and "st = tcp_entry k seq t r" and "length payload < 2 ^ 63"
    and "\<not> t - ts_first_seen_ms st > tcp_decision_window_ms"
    and "map_of (tr_streams (snd (tcp_feed_stream k seq payload declared t st r))) k = Some st'"
  shows "stream_bytes st \<subseteq>\<^sub>m stream_bytes st'"
proof (cases "ts_finished st \<or> tcp_locate seq st = None")
  case True
  with assms(4,5) show ?thesis by (auto simp: tcp_feed_stream_def update_conv split: if_splits)
next
  case False
  then obtain offset st1 where loc: "tcp_locate seq st = Some (offset, st1)" by auto
  obtain st2 out where w: "tcp_write offset payload declared st1 = (st2, out)" by (meson surj_pair)
  have ok: "stream_ok st" unfolding assms(2) using assms(1) by (intro stream_ok_entry) (simp add: tcp_inv_def)
  note bytes = tcp_write_stream_bytes [OF loc w ok assms(3)]
  have "tcp_ok (tcp_store k (ts_accounted_bytes st) st2 out r)"
    using bytes(1) assms(1,2) by (intro tcp_store_ok) (simp_all add: accounted_tcp_entry)
  from evict_lookup [OF this, of max_tcp_streams max_tcp_bytes_total k st'] assms(4,5) False
  have "map_of (tr_streams (tcp_store k (ts_accounted_bytes st) st2 out r)) k = Some st'"
    by (simp add: tcp_feed_stream_written [OF _ _ loc w])
  then have "st' = st2" by (simp add: tcp_store_def update_conv)
  then show ?thesis by (simp add: bytes(2))
qed

lemma feed_keeps_bytes:
  assumes "tcp_inv r" and "length payload < 2 ^ 63"
    and "map_of (tr_streams r) k' = Some st"
    and "map_of (tr_streams (snd (tr_feed k seq payload declared t r))) k' = Some st'"
    and "k' = k \<Longrightarrow> \<not> ts_is_idle st t \<and> t - ts_first_seen_ms st \<le> tcp_decision_window_ms"
  shows "stream_bytes st \<subseteq>\<^sub>m stream_bytes st'"
proof (cases "payload = []")
  case True
  with assms(3,4) show ?thesis by (simp add: tr_feed_def)
next
  case False
  note inv = assms(1)
  let ?r = "tcp_expire_on_arrival k t (tcp_make_room k r)"
  have inv': "tcp_inv ?r"
    using tcp_expire_on_arrival_inv(1) [OF tcp_make_room_inv(1) [OF inv]] tcp_make_room_inv(2) [OF inv] by blast
  have fed: "map_of (tr_streams (snd (tcp_feed_stream k seq payload declared t (tcp_entry k seq t ?r) ?r))) k' = Some st'"
    using assms(4) False by (simp add: tr_feed_def Let_def)
  show ?thesis
  proof (cases "k' = k")
    case True
    note live = prepare_live [OF assms(3) [unfolded True], of t]
    have "?r = r" "tcp_entry k seq t ?r = st\<lparr>ts_last_seen_ms := t\<rparr>"
      using live assms(5) True by simp_all
    then show ?thesis
      using feed_stream_same [OF inv' refl assms(2) _ fed [unfolded True]] assms(5) True
      by (simp add: stream_bytes_def)
  next
    case other: False
    have found: "map_of (tr_streams ?r) k' = Some st'" by (rule feed_stream_other [OF inv' refl assms(2) other fed])
    have ok: "tcp_ok r" and dist: "distinct (map fst (tr_streams r))"
      using inv by (simp_all add: tcp_inv_def tcp_ok_def tr.balanced_def)
    have "map_of (tr_streams r) k' = Some st'"
      by (rule map_of_subset [OF dist streams_prepare [OF ok] found])
    with assms(3) show ?thesis by simp
  qed
qed

text \<open>A segment that changed the buffer of a live stream leaves the merge of both there.\<close>

lemma segment_bytes_take: "segment_bytes seq (take n p) \<subseteq>\<^sub>m segment_bytes seq p"
  by (auto simp: segment_bytes_def byte_at_def map_le_def dom_def split: if_splits)

lemma feed_merges:
  assumes "tcp_inv r" and "length payload < 2 ^ 63" and "map_of (tr_streams r) k = Some st"
    and "\<not> ts_is_idle st t" "t - ts_first_seen_ms st \<le> tcp_decision_window_ms"
    and "tr_feed k seq payload declared t r = (Some status, r')" "map_of (tr_streams r') k = Some st'"
  shows "stream_ok st' \<and> stream_bytes st' \<subseteq>\<^sub>m segment_bytes seq payload ++ stream_bytes st"
proof -
  let ?st = "st\<lparr>ts_last_seen_ms := t\<rparr>"
  note live = prepare_live [OF assms(3,4)]
  have fed: "tcp_feed_stream k seq payload declared t ?st r = (Some status, r')"
    using assms(6) live by (simp add: tr_feed_def Let_def split: if_splits)
  then obtain offset st1 where loc: "tcp_locate seq ?st = Some (offset, st1)" and run: "\<not> ts_finished ?st"
    by (auto simp: tcp_feed_stream_def split: if_splits option.splits)
  obtain st2 out where w: "tcp_write offset payload declared st1 = (st2, out)" by (meson surj_pair)
  have "stream_ok st" using assms(1,3) by (auto simp: tcp_inv_def intro: tcp_ok_stream)
  then have ok: "stream_ok ?st" by (simp add: stream_ok_def)
  note bytes = tcp_write_stream_bytes [OF loc w ok assms(2)]
  have acc: "tcp_ok (tcp_store k (ts_accounted_bytes ?st) st2 out r)"
    using bytes(1) assms(1,3) by (intro tcp_store_ok) (simp_all add: ts_accounted_bytes_def)
  have "r' = tr_evict_oldest_until max_tcp_streams max_tcp_bytes_total (tcp_store k (ts_accounted_bytes ?st) st2 out r)"
    using tcp_feed_stream_written [OF run _ loc w, of t k r] fed assms(5) by simp
  with evict_lookup [OF acc, of max_tcp_streams max_tcp_bytes_total k st'] assms(7)
  have "st' = st2" by (simp add: tcp_store_def update_conv)
  moreover have "stream_bytes st2 \<subseteq>\<^sub>m segment_bytes seq payload ++ stream_bytes st"
    using segment_bytes_take [of seq "max_tcp_stream_bytes - offset" payload]
    by (auto simp: bytes(2) map_le_def map_add_def dom_def split: option.splits)
  ultimately show ?thesis using bytes(1) by simp
qed

lemma prefix_stream_bytes:
  assumes "stream_ok st" and "map_of (tr_streams r) k = Some st" and "i < length (tr_prefix k r)"
  shows "stream_bytes st (ts_base_seq st + of_nat i) = Some (tr_prefix k r ! i)"
proof -
  let ?d = "elems (ts_data st)" and ?f = "elems (ts_filled st)"
  have ok: "length ?d = length ?f" "length ?d \<le> max_tcp_stream_bytes" "ts_prefix_len st = held_prefix_len ?f"
    using assms(1) by (simp_all add: stream_ok_def buffer_ok_def vec_ok_def)
  have le: "held_prefix_len ?f \<le> length ?f" using known_prefix_held [of ?f] by (simp add: known_prefix_def)
  then have pre: "tr_prefix k r = take (held_prefix_len ?f) ?d"
    using assms(2) ok by (simp add: tr_prefix_def slice_get_def)
  then have i: "i < held_prefix_len ?f" using assms(3) by simp
  then have "covered ?d ?f i \<noteq> None" using known_prefix_held [of ?f] by (simp add: known_prefix_iff_covered [of _ _ ?d])
  moreover have "unat (of_nat i :: u32) = i"
    using i le ok by (simp add: unat_of_nat max_tcp_stream_bytes_def)
  ultimately show ?thesis using i by (auto simp: stream_bytes_def pre dest: covered_nth)
qed

text \<open>
  C5: First-seen bytes are immutable: after any segment, in sequence space (so also across a
  shift of the buffer or a wrapped sequence number), a stream that is still held has every byte
  it had before, unchanged. The segment's own stream must be live (not idle and within its
  decision window); otherwise its buffer is given up, never rewritten.
\<close>

theorem tcp_bytes_immutable:
  assumes "tr_reachable r" and "length payload < 2 ^ 63"
    and "map_of (tr_streams r) k' = Some st"
    and "map_of (tr_streams (snd (tr_feed k seq payload declared t r))) k' = Some st'"
    and "k' = k \<Longrightarrow> \<not> ts_is_idle st t \<and> t - ts_first_seen_ms st \<le> tcp_decision_window_ms"
  shows "stream_bytes st \<subseteq>\<^sub>m stream_bytes st'"
  by (rule feed_keeps_bytes [OF tr_reachable_inv [OF assms(1)] assms(2-5)])

section \<open>Rebuilding a message\<close>

text \<open>A captured segment of a message, by its offset, and what a set of offsets determines.\<close>

definition segment_of :: "byte list \<Rightarrow> nat \<Rightarrow> byte list \<Rightarrow> bool" where
  "segment_of msg off p \<longleftrightarrow> p \<noteq> [] \<and> off + length p \<le> length msg \<and> p = take (length p) (drop off msg)"

definition held_at :: "byte list \<Rightarrow> nat set \<Rightarrow> nat \<Rightarrow> byte option" where
  "held_at msg S i = (if i \<in> S then Some (msg ! i) else None)"

lemma held_at_add_piece:
  assumes "segment_of msg off p"
  shows "(piece_map off p ++ held_at msg S) i = held_at msg (S \<union> {off..<off + length p}) i"
proof -
  have eq: "p = take (length p) (drop off msg)" and le: "off + length p \<le> length msg"
    using assms by (simp_all add: segment_of_def)
  have "p ! (i - off) = msg ! i" if "off \<le> i" "i < off + length p"
  proof -
    have "p ! (i - off) = take (length p) (drop off msg) ! (i - off)" by (subst eq) (rule refl)
    also have "\<dots> = msg ! i" using that le by simp
    finally show ?thesis .
  qed
  then show ?thesis by (auto simp: map_add_def held_at_def piece_map_def split: option.split)
qed

text \<open>
  The stream holds exactly the bytes of the message at the offsets \<open>S\<close>; its base is at some
  offset \<open>m\<close> below all of them.
\<close>

definition stream_tracks :: "byte list \<Rightarrow> u32 \<Rightarrow> nat set \<Rightarrow> tcp_stream \<Rightarrow> bool" where
  "stream_tracks msg isn S st \<longleftrightarrow>
     stream_ok st \<and> \<not> ts_finished st \<and> ts_short_captured_at st = None
     \<and> (\<exists>m. ts_base_seq st = isn + of_nat m \<and> (\<forall>i\<in>S. m \<le> i) \<and> m + length (elems (ts_data st)) \<le> length msg)
     \<and> (\<forall>s. stream_bytes st s = held_at msg S (unat (s - isn)))"

lemma stream_tracks_new:
  "off \<le> length msg \<Longrightarrow> stream_tracks msg isn {} (tcp_stream_new (isn + of_nat off) t)"
  using stream_ok_new [of "isn + of_nat off" t]
  by (auto simp: stream_tracks_def tcp_stream_new_def stream_bytes_def covered_def held_at_def vec_simps)

lemma stream_tracks_touch:
  "stream_tracks msg isn S st \<Longrightarrow> stream_tracks msg isn S (st\<lparr>ts_last_seen_ms := t\<rparr>)"
  by (simp add: stream_tracks_def stream_ok_def)

lemma tcp_write_length:
  assumes "tcp_write offset p declared st = (st', out)" and "p \<noteq> []"
    and "offset + length p \<le> max_tcp_stream_bytes"
  shows "length (elems (ts_data st')) = max (length (elems (ts_data st))) (offset + length p)"
proof -
  obtain d fl where w: "write_first_seen_wins (ts_data st) (ts_filled st) offset p max_tcp_stream_bytes = (d, fl, out)"
    and "ts_data st' = d"
    using assms(1) by (auto simp: tcp_write_def split: prod.splits)
  moreover have "offset + length p \<le> usize_max"
    using assms(3) by (simp add: max_tcp_stream_bytes_def usize_max_def)
  ultimately show ?thesis using write_first_seen_wins_length [OF w assms(2,3)] by simp
qed

lemma locate_tracked:
  assumes "stream_tracks msg isn S st" and "off < length msg" and "length msg \<le> max_tcp_stream_bytes"
  obtains offset st1 m' where "tcp_locate (isn + of_nat off) st = Some (offset, st1)"
    "ts_base_seq st1 = isn + of_nat m'" "\<forall>i\<in>S. m' \<le> i" "m' \<le> off" "offset = off - m'"
    "m' + length (elems (ts_data st1)) \<le> length msg" "ts_short_captured_at st1 = None"
    "ts_first_seen_ms st1 = ts_first_seen_ms st" "ts_last_seen_ms st1 = ts_last_seen_ms st"
proof -
  obtain m where m: "ts_base_seq st = isn + of_nat m" "\<forall>i\<in>S. m \<le> i"
    "m + length (elems (ts_data st)) \<le> length msg" and short: "ts_short_captured_at st = None"
    using assms(1) by (auto simp: stream_tracks_def)
  have eq: "isn + of_nat off - ts_base_seq st = of_nat off - of_nat m" by (simp add: m(1))
  have "off < 2 ^ 31" "m < 2 ^ 31" using m(3) assms(2,3) by (simp_all add: max_tcp_stream_bytes_def)
  then have rel: "sint (isn + of_nat off - ts_base_seq st) = int off - int m"
    unfolding eq by (rule sint_small_diff)
  show thesis
  proof (cases "off < m")
    case True
    let ?shift = "m - off"
    have fits: "?shift + length (elems (ts_data st)) \<le> max_tcp_stream_bytes" using m(3) assms(3) by simp
    have "nat (- (int off - int m)) = ?shift" using True by simp
    moreover have "sat_add ?shift (length (elems (ts_data st))) \<le> max_tcp_stream_bytes"
      using sat_add_le fits by (rule order_trans)
    ultimately have "tcp_locate (isn + of_nat off) st = Some (0, ts_rebase ?shift (isn + of_nat off) st)"
      using True by (simp add: tcp_locate_def rel Let_def)
    moreover have "length (elems (ts_data (ts_rebase ?shift (isn + of_nat off) st))) = ?shift + length (elems (ts_data st))"
      using fits by (simp add: ts_rebase_def vec_simps)
    ultimately show thesis
      using True m short by (intro that [of 0 "ts_rebase ?shift (isn + of_nat off) st" off]) (auto simp: ts_rebase_def)
  next
    case False
    then have "tcp_locate (isn + of_nat off) st = Some (off - m, st)"
      using assms(2,3) by (simp add: tcp_locate_def rel Let_def nat_diff_distrib')
    with False m short show thesis by (intro that [of "off - m" st m]) auto
  qed
qed

lemma tcp_write_fresh:
  assumes "tcp_write offset p declared st = (st', out)"
    and "buffer_ok max_tcp_stream_bytes (ts_data st) (ts_filled st)"
    and "known_prefix (elems (ts_filled st)) (ts_prefix_len st)" and "offset + length p \<le> usize_max"
    and "stream_bytes st' \<noteq> stream_bytes st"
  shows "0 < newly_written out"
proof (rule ccontr)
  let ?p = "take (max_tcp_stream_bytes - offset) p"
  let ?c = "covered (elems (ts_data st)) (elems (ts_filled st))"
  assume "\<not> 0 < newly_written out"
  obtain d fl where w: "write_first_seen_wins (ts_data st) (ts_filled st) offset p max_tcp_stream_bytes = (d, fl, out)"
    using assms(1) by (auto simp: tcp_write_def split: prod.splits)
  have "fresh_positions offset ?p (elems (ts_data st)) (elems (ts_filled st)) = {}"
    using write_first_seen_wins_counts(1) [OF w assms(2,4)] \<open>\<not> 0 < newly_written out\<close> by simp
  then have "piece_map offset ?p i = None" if "?c i = None" for i
    using that by (auto simp: fresh_positions_def piece_map_def)
  then have "piece_map offset ?p ++ ?c = ?c"
    by (auto simp: map_add_def fun_eq_iff split: option.split)
  then have "stream_bytes st' = stream_bytes st"
    using tcp_write_ok(2,3) [OF assms(1-4)] by (simp add: stream_bytes_def fun_eq_iff)
  with assms(5) show False by contradiction
qed

lemma tracked_write:
  assumes "stream_tracks msg isn S st" and "segment_of msg off p" and "length msg \<le> max_tcp_stream_bytes"
  obtains offset st1 st2 out where "tcp_locate (isn + of_nat off) st = Some (offset, st1)"
    "tcp_write offset p (length p) st1 = (st2, out)"
    "stream_tracks msg isn (S \<union> {off..<off + length p}) st2"
    "ts_first_seen_ms st2 = ts_first_seen_ms st" "ts_last_seen_ms st2 = ts_last_seen_ms st"
    "\<not> {off..<off + length p} \<subseteq> S \<Longrightarrow> 0 < newly_written out"
proof -
  have seg: "p \<noteq> []" "off + length p \<le> length msg" using assms(2) by (simp_all add: segment_of_def)
  then have "off < length msg" by (cases p) auto
  from locate_tracked [OF assms(1) this assms(3)] obtain offset st1 m'
    where loc: "tcp_locate (isn + of_nat off) st = Some (offset, st1)"
      and m: "ts_base_seq st1 = isn + of_nat m'" "\<forall>i\<in>S. m' \<le> i" "m' \<le> off" "offset = off - m'"
        "m' + length (elems (ts_data st1)) \<le> length msg"
      and same: "ts_short_captured_at st1 = None" "ts_first_seen_ms st1 = ts_first_seen_ms st"
        "ts_last_seen_ms st1 = ts_last_seen_ms st" .
  obtain st2 out where w: "tcp_write offset p (length p) st1 = (st2, out)" by (meson surj_pair)
  have ok: "stream_ok st" and live: "\<not> ts_finished st"
    and bytes: "\<And>s. stream_bytes st s = held_at msg S (unat (s - isn))"
    using assms(1) by (simp_all add: stream_tracks_def)
  have fits: "offset + length p \<le> max_tcp_stream_bytes" using m seg assms(3) by simp
  then have small: "length p < 2 ^ 63" "take (max_tcp_stream_bytes - offset) p = p"
    by (simp_all add: max_tcp_stream_bytes_def)
  note wb = tcp_write_stream_bytes [OF loc w ok small(1)]
  note loc_buf = tcp_locate_buffer [OF loc ok]
  have usz: "offset + length p \<le> usize_max" using fits by (simp add: max_tcp_stream_bytes_def usize_max_def)
  note wo = tcp_write_ok [OF w loc_buf(1,2) usz]
  have off32: "unat (of_nat off :: u32) = off"
    using \<open>off < length msg\<close> assms(3) by (simp add: unat_of_nat max_tcp_stream_bytes_def)
  have seg_bytes: "segment_bytes (isn + of_nat off) p s = piece_map off p (unat (s - isn))" for s
    using seg assms(3) off32 by (intro piece_map_segment [symmetric]) simp_all
  have new_bytes: "stream_bytes st2 s = held_at msg (S \<union> {off..<off + length p}) (unat (s - isn))" for s
    unfolding held_at_add_piece [OF assms(2), of S "unat (s - isn)", symmetric]
    by (simp add: wb(2) small(2) map_add_def seg_bytes bytes split: option.split)
  have "u32_cast (length p) = length p"
    using seg assms(3) by (simp add: u32_cast_def max_tcp_stream_bytes_def)
  then have short: "ts_short_captured_at st2 = None" using wo(7) same(1) by (simp add: note_short_capture_def)
  have "m' + length (elems (ts_data st2)) \<le> length msg"
    using tcp_write_length [OF w seg(1) fits] m seg by simp
  with m wb(1,3,5) live fits short new_bytes have "stream_tracks msg isn (S \<union> {off..<off + length p}) st2"
    unfolding stream_tracks_def by (auto intro!: exI [of _ m'])
  moreover have "0 < newly_written out" if missing: "\<not> {off..<off + length p} \<subseteq> S"
  proof (rule tcp_write_fresh [OF w loc_buf(1,2) usz])
    obtain i where i: "off \<le> i" "i < off + length p" "i \<notin> S" using missing by (meson atLeastLessThan_iff subsetI)
    then have "unat (of_nat i :: u32) = i"
      using seg assms(3) by (simp add: unat_of_nat max_tcp_stream_bytes_def)
    with i bytes [of "isn + of_nat i"] new_bytes [of "isn + of_nat i"]
    have "stream_bytes st2 (isn + of_nat i) \<noteq> stream_bytes st (isn + of_nat i)" by (simp add: held_at_def)
    then show "stream_bytes st2 \<noteq> stream_bytes st1" by (auto simp: wb(4))
  qed
  ultimately show thesis using loc w wo(4,5) same by (intro that [of offset st1 st2 out]) simp_all
qed

text \<open>
  The reassembler around it: the other streams \<open>bs\<close> stay as they are, and there is headroom for
  one more direction, so the ceilings do not bind.
\<close>

definition tcp_tracking ::
  "byte list \<Rightarrow> u32 \<Rightarrow> tcp_stream_key \<Rightarrow> nat \<Rightarrow> (tcp_stream_key \<times> tcp_stream) list \<Rightarrow> nat set
    \<Rightarrow> tcp_reassembler \<Rightarrow> bool" where
  "tcp_tracking msg isn k t0 bs S r \<longleftrightarrow>
     tcp_ok r \<and> AList.delete k (tr_streams r) = bs
     \<and> length bs < max_tcp_streams \<and> weigh ts_accounted_bytes bs + 65552 \<le> max_tcp_bytes_total
     \<and> (case map_of (tr_streams r) k of
          None \<Rightarrow> S = {}
        | Some st \<Rightarrow> stream_tracks msg isn S st \<and> t0 \<le> ts_first_seen_ms st \<and> t0 \<le> ts_last_seen_ms st)"

lemma tcp_tracking_within:
  assumes "tcp_tracking msg isn k t0 bs S r"
  shows "tr_within max_tcp_streams max_tcp_bytes_total r"
proof -
  have ok: "tcp_ok r" and bs: "bs = AList.delete k (tr_streams r)"
    using assms by (auto simp: tcp_tracking_def)
  then have dist: "distinct (map fst (tr_streams r))"
    and held: "tr_bytes_held r = weigh ts_accounted_bytes (tr_streams r)"
    by (simp_all add: tcp_ok_def tr.balanced_def)
  show ?thesis
  proof (cases "map_of (tr_streams r) k")
    case None
    with assms held show ?thesis by (simp add: tr_within_def tcp_tracking_def)
  next
    case (Some st)
    have "ts_accounted_bytes st \<le> 65552"
      using tcp_ok_stream [OF ok Some] by (auto simp: stream_ok_def intro: accounted_buffer_le)
    with Some assms held weigh_delete [OF dist, of ts_accounted_bytes k] length_delete_member [OF dist Some]
    show ?thesis by (auto simp: tr_within_def tcp_tracking_def)
  qed
qed

lemma tcp_tracking_prepare:
  assumes "tcp_tracking msg isn k t0 bs S r" and "t \<le> t0 + tcp_decision_window_ms" and "off \<le> length msg"
    and "t0 \<le> t"
  shows "tcp_expire_on_arrival k t (tcp_make_room k r) = r"
    and "stream_tracks msg isn S (tcp_entry k (isn + of_nat off) t r)"
    and "t0 \<le> ts_first_seen_ms (tcp_entry k (isn + of_nat off) t r)"
    and "ts_last_seen_ms (tcp_entry k (isn + of_nat off) t r) = t"
proof -
  have "tcp_make_room k r = r"
    using assms(1) by (auto simp: tcp_make_room_def tcp_tracking_def split: option.splits)
  moreover have "tcp_expire_on_arrival k t r = r"
    using assms(1,2)
    by (auto simp: tcp_expire_on_arrival_def tcp_tracking_def ts_is_idle_def tcp_stream_idle_ms_def
        tcp_decision_window_ms_def split: option.splits)
  ultimately show "tcp_expire_on_arrival k t (tcp_make_room k r) = r" by simp
  show "stream_tracks msg isn S (tcp_entry k (isn + of_nat off) t r)"
    "t0 \<le> ts_first_seen_ms (tcp_entry k (isn + of_nat off) t r)"
    using assms stream_tracks_touch [OF stream_tracks_new [OF assms(3)]] stream_tracks_touch
    by (auto simp: tcp_entry_def tcp_tracking_def tcp_stream_new_def split: option.splits)
qed (simp add: tcp_entry_def)

lemma tcp_tracking_step:
  assumes "tcp_tracking msg isn k t0 bs S r" and "t0 \<le> t" and "t \<le> t0 + tcp_decision_window_ms"
    and "segment_of msg off p" and "length msg \<le> max_tcp_stream_bytes"
    and "tr_feed k (isn + of_nat off) p (length p) t r = (fed, r')"
  obtains st where "tcp_tracking msg isn k t0 bs (S \<union> {off..<off + length p}) r'"
    "map_of (tr_streams r') k = Some st" "stream_tracks msg isn (S \<union> {off..<off + length p}) st"
    "\<not> {off..<off + length p} \<subseteq> S \<Longrightarrow> fed = Some (ts_status st)"
proof -
  let ?seq = "isn + of_nat off" and ?S = "S \<union> {off..<off + length p}"
  have off: "off \<le> length msg" and ne: "p \<noteq> []" using assms(4) by (simp_all add: segment_of_def)
  define st where "st = tcp_entry k ?seq t r"
  note prep = tcp_tracking_prepare [OF assms(1,3) off assms(2)]
  from tracked_write [OF prep(2) assms(4,5)] obtain offset st1 st2 out
    where loc: "tcp_locate ?seq st = Some (offset, st1)"
      and w: "tcp_write offset p (length p) st1 = (st2, out)"
      and tracks: "stream_tracks msg isn ?S st2"
      and times: "ts_first_seen_ms st2 = ts_first_seen_ms st" "ts_last_seen_ms st2 = ts_last_seen_ms st"
      and fresh: "\<not> {off..<off + length p} \<subseteq> S \<Longrightarrow> 0 < newly_written out"
    unfolding st_def by blast
  have live: "\<not> ts_finished st" "\<not> t - ts_first_seen_ms st > tcp_decision_window_ms"
    using prep assms(3) by (auto simp: st_def stream_tracks_def)
  define r1 where "r1 = tcp_store k (ts_accounted_bytes st) st2 out r"
  have inv: "tcp_inv r"
    using assms(1) tcp_tracking_within [OF assms(1)] by (simp add: tcp_inv_def tcp_tracking_def)
  have "stream_ok st2" using tracks by (simp add: stream_tracks_def)
  then have ok1: "tcp_ok r1"
    unfolding r1_def by (intro tcp_store_ok [OF inv]) (simp_all add: st_def accounted_tcp_entry)
  have track1: "tcp_tracking msg isn k t0 bs ?S r1"
    using ok1 assms(1,2) tracks times prep(3,4)
    by (simp add: tcp_tracking_def r1_def tcp_store_def update_conv st_def)
  then have "tr_evict_oldest_until max_tcp_streams max_tcp_bytes_total r1 = r1"
    by (simp add: tr_evict_oldest_until_def tcp_tracking_within)
  then have "r' = r1" and "fed = (if newly_written out > 0 \<or> hit_cap out then Some (ts_status st2) else None)"
    using assms(6) ne tcp_feed_stream_written [OF live loc w]
    by (simp_all add: tr_feed_def prep(1) Let_def st_def [symmetric] r1_def)
  with track1 tracks fresh show thesis
    by (intro that [of st2]) (simp_all add: r1_def tcp_store_def update_conv)
qed

lemma tcp_tracking_feed:
  assumes "tcp_tracking msg isn k t0 bs S r" and "t0 \<le> t" and "t \<le> t0 + tcp_decision_window_ms"
    and "segment_of msg off p" and "length msg \<le> max_tcp_stream_bytes"
  shows "tcp_tracking msg isn k t0 bs (S \<union> {off..<off + length p})
    (snd (tr_feed k (isn + of_nat off) p (length p) t r))"
  using tcp_tracking_step [OF assms prod.collapse [symmetric]] by metis

fun tr_feed_all :: "tcp_stream_key \<Rightarrow> u32 \<Rightarrow> (nat \<times> nat \<times> byte list) list \<Rightarrow> tcp_reassembler \<Rightarrow> tcp_reassembler" where
  "tr_feed_all k isn [] r = r"
| "tr_feed_all k isn ((t, off, p) # segs) r =
     tr_feed_all k isn segs (snd (tr_feed k (isn + of_nat off) p (length p) t r))"

definition segment_positions :: "(nat \<times> nat \<times> byte list) list \<Rightarrow> nat set" where
  "segment_positions segs = (\<Union>(t, off, p)\<in>set segs. {off..<off + length p})"

lemma tcp_tracking_run:
  assumes "tcp_tracking msg isn k t0 bs S r" and "length msg \<le> max_tcp_stream_bytes"
    and "\<forall>(t, off, p)\<in>set segs. t0 \<le> t \<and> t \<le> t0 + tcp_decision_window_ms \<and> segment_of msg off p"
  shows "tcp_tracking msg isn k t0 bs (S \<union> segment_positions segs) (tr_feed_all k isn segs r)"
  using assms(1,3)
proof (induction segs arbitrary: S r)
  case (Cons seg segs)
  obtain t off p where seg: "seg = (t, off, p)" by (cases seg)
  with Cons.prems(2) have "t0 \<le> t" "t \<le> t0 + tcp_decision_window_ms" "segment_of msg off p" by auto
  from Cons.IH [OF tcp_tracking_feed [OF Cons.prems(1) this assms(2)]] Cons.prems(2)
  show ?case by (simp add: seg segment_positions_def Un_assoc)
qed (simp add: segment_positions_def)

lemma tracked_complete:
  assumes "stream_tracks msg isn S st" and "{..<length msg} \<subseteq> S" and "msg \<noteq> []"
    and "length msg \<le> max_tcp_stream_bytes"
  shows "ts_prefix_len st = length msg" and "take (length msg) (elems (ts_data st)) = msg"
    and "length (elems (ts_data st)) = length msg" and "ts_base_seq st = isn"
proof -
  obtain m where m: "ts_base_seq st = isn + of_nat m" "\<forall>i\<in>S. m \<le> i"
    "m + length (elems (ts_data st)) \<le> length msg"
    using assms(1) by (auto simp: stream_tracks_def)
  have "m = 0" using m(2) assms(2,3) by (cases msg) auto
  then show base: "ts_base_seq st = isn" using m(1) by simp
  have bytes: "stream_bytes st s = held_at msg S (unat (s - isn))" for s
    using assms(1) by (simp add: stream_tracks_def)
  have cov: "covered (elems (ts_data st)) (elems (ts_filled st)) i = Some (msg ! i)" if "i < length msg" for i
  proof -
    have "unat (of_nat i :: u32) = i" using that assms(4) by (simp add: unat_of_nat max_tcp_stream_bytes_def)
    with bytes [of "isn + of_nat i"] that assms(2) show ?thesis
      by (auto simp: stream_bytes_def base held_at_def)
  qed
  have len: "length (elems (ts_data st)) = length (elems (ts_filled st))"
    and pre: "ts_prefix_len st = held_prefix_len (elems (ts_filled st))"
    using assms(1) by (simp_all add: stream_tracks_def stream_ok_def buffer_ok_def)
  have "known_prefix (elems (ts_filled st)) (length msg)"
    using cov by (auto simp: known_prefix_iff_covered [of _ _ "elems (ts_data st)"])
  from known_prefix_le [OF this] known_prefix_held [of "elems (ts_filled st)"] m(3) \<open>m = 0\<close> len
  have eqs: "held_prefix_len (elems (ts_filled st)) = length msg" "length (elems (ts_data st)) = length msg"
    by (auto simp: known_prefix_def)
  then show "ts_prefix_len st = length msg" "length (elems (ts_data st)) = length msg" using pre by simp_all
  show "take (length msg) (elems (ts_data st)) = msg"
    using eqs(2) cov by (intro nth_equalityI) (auto simp: covered_Some_iff)
qed

lemma tracked_status:
  assumes "stream_tracks msg isn S st" and "{..<length msg} \<subseteq> S" and "msg \<noteq> []"
    and "length msg \<le> max_tcp_stream_bytes"
  shows "ts_status st = Reassembled"
proof -
  note c = tracked_complete [OF assms]
  have "length (elems (ts_filled st)) = length msg" "ts_short_captured_at st = None"
    using assms(1) c(3) by (auto simp: stream_tracks_def stream_ok_def buffer_ok_def)
  then show ?thesis using c(1) by (simp add: ts_status_def)
qed

text \<open>Before the message is complete, the prefix handed out is the part of it that has arrived.\<close>

lemma tracked_prefix:
  assumes "stream_tracks msg isn {..<n} st" and "0 < n" and "n \<le> length msg"
    and "length msg \<le> max_tcp_stream_bytes"
  shows "slice_get (elems (ts_data st)) 0 (ts_prefix_len st) = Some (take n msg)"
proof -
  obtain m where m: "ts_base_seq st = isn + of_nat m" "\<forall>i\<in>{..<n}. m \<le> i"
    using assms(1) by (auto simp: stream_tracks_def)
  then have base: "ts_base_seq st = isn" using assms(2) by force
  let ?d = "elems (ts_data st)" and ?f = "elems (ts_filled st)"
  have cov: "covered ?d ?f i = held_at msg {..<n} i" if "i \<le> n" for i
  proof -
    have "unat (of_nat i :: u32) = i"
      using that assms(3,4) by (simp add: unat_of_nat max_tcp_stream_bytes_def)
    moreover have "stream_bytes st (isn + of_nat i) = held_at msg {..<n} (unat (isn + of_nat i - isn :: u32))"
      using assms(1) by (simp add: stream_tracks_def)
    ultimately show ?thesis by (simp add: stream_bytes_def base)
  qed
  have len: "length ?d = length ?f" and pre: "ts_prefix_len st = held_prefix_len ?f"
    using assms(1) by (simp_all add: stream_tracks_def stream_ok_def buffer_ok_def)
  have "known_prefix ?f n"
    using cov by (auto simp: known_prefix_iff_covered [of _ _ ?d] held_at_def)
  then have le: "n \<le> held_prefix_len ?f" by (rule known_prefix_le)
  have "\<not> n < held_prefix_len ?f"
    using cov [of n] known_prefix_held [of ?f] by (auto simp: known_prefix_iff_covered [of _ _ ?d] held_at_def)
  with le have held: "held_prefix_len ?f = n" by simp
  have "length ?d \<ge> n" using known_prefix_held [of ?f] held len by (simp add: known_prefix_def)
  moreover have "take n ?d = take n msg"
    using calculation cov [THEN trans] assms(3)
    by (intro nth_equalityI) (auto simp: held_at_def intro!: covered_nth [of _ ?f])
  ultimately show ?thesis by (simp add: slice_get_def pre held)
qed

text \<open>
  C4: A message of up to 16 KiB is rebuilt from its captured segments whatever their order,
  overlap or repetition and wherever its initial sequence number lies, so also when it wraps past
  the 32-bit boundary in the middle of the message: once every byte has been seen within the
  decision window, the prefix handed to the detectors is the message and its status is complete.
\<close>

theorem tcp_message_reassembled:
  assumes "tcp_inv r" and "map_of (tr_streams r) k = None" and "length (tr_streams r) < max_tcp_streams"
    and "tr_bytes_held r + 65552 \<le> max_tcp_bytes_total"
    and "msg \<noteq> []" and "length msg \<le> max_tcp_stream_bytes"
    and "\<forall>(t, off, p)\<in>set segs. t0 \<le> t \<and> t \<le> t0 + tcp_decision_window_ms \<and> segment_of msg off p"
    and "{..<length msg} \<subseteq> segment_positions segs"
  shows "tr_prefix k (tr_feed_all k isn segs r) = msg
    \<and> tr_base_seq k (tr_feed_all k isn segs r) = Some isn
    \<and> (\<exists>st. map_of (tr_streams (tr_feed_all k isn segs r)) k = Some st \<and> ts_status st = Reassembled)"
proof -
  have "tcp_tracking msg isn k t0 (tr_streams r) {} r"
    using assms(1-4) by (simp add: tcp_tracking_def tcp_inv_def tcp_ok_def tr.balanced_def)
  from tcp_tracking_run [OF this assms(6,7)]
  have run: "tcp_tracking msg isn k t0 (tr_streams r) (segment_positions segs) (tr_feed_all k isn segs r)" by simp
  have "segment_positions segs \<noteq> {}" using assms(5,8) by (cases msg) auto
  with run obtain st where st: "map_of (tr_streams (tr_feed_all k isn segs r)) k = Some st"
    "stream_tracks msg isn (segment_positions segs) st"
    by (auto simp: tcp_tracking_def split: option.splits)
  note c = tracked_complete [OF st(2) assms(8,5,6)]
  with st(1) tracked_status [OF st(2) assms(8,5,6)] show ?thesis by (simp add: tr_prefix_def tr_base_seq_def slice_get_def)
qed

section \<open>Witnesses\<close>

definition demo_stream :: "nat \<Rightarrow> tcp_stream" where
  "demo_stream t = \<lparr>ts_base_seq = 10, ts_data = \<lparr>elems = [1, 2], capacity = 8\<rparr>,
     ts_filled = \<lparr>elems = [True, True], capacity = 8\<rparr>, ts_prefix_len = 2, ts_short_captured_at = None,
     ts_finished = False, ts_first_seen_ms = 0, ts_last_seen_ms = t\<rparr>"

lemmas tcp_eval = tr_feed_def tcp_make_room_def tcp_expire_on_arrival_def tcp_entry_def tcp_feed_stream_def
  tcp_locate_def tcp_write_def tcp_store_def write_first_seen_wins_def checked_add_def write_outcome_default_def
  vec_grow_to_def vec_reserve_def grow_amortized_def contiguous_len_from_def contiguous_scan.simps byte_at_def
  note_short_capture_def u32_cast_def tr_evict_oldest_until_def tr_within_def ts_accounted_bytes_def
  tcp_stream_new_def vec_new_def sat_add_def usize_max_def max_tcp_streams_def max_tcp_bytes_total_def
  max_tcp_stream_bytes_def tcp_decision_window_ms_def tcp_stream_idle_ms_def ts_is_idle_def Let_def

lemma demo_first_segment:
  "snd (tr_feed demo_stream_key 10 [1, 2] 2 0 tcp_reassembler_new) =
     \<lparr>tr_streams = [(demo_stream_key, demo_stream 0)], tr_bytes_held = 16, tr_counters = counters_zero\<rparr>"
  by (simp add: tcp_eval tcp_reassembler_new_def demo_stream_def counters_zero_def)

lemma demo_second_segment:
  "map_of (tr_streams (snd (tr_feed demo_stream_key 10 [9, 9, 3] 3 1
     (snd (tr_feed demo_stream_key 10 [1, 2] 2 0 tcp_reassembler_new))))) demo_stream_key =
   Some ((demo_stream 1)\<lparr>ts_data := \<lparr>elems = [1, 2, 3], capacity = 8\<rparr>,
      ts_filled := \<lparr>elems = [True, True, True], capacity = 8\<rparr>, ts_prefix_len := 3\<rparr>)"
  unfolding demo_first_segment by (simp add: tcp_eval demo_stream_def)

lemma demo_reachable: "tr_reachable (snd (tr_feed demo_stream_key 10 [1, 2] 2 0 tcp_reassembler_new))"
  by (rule tr_reachable.feed [OF tr_reachable.start]) simp

lemma tcp_memory_bounded_witness:
  "tr_bytes_held (snd (tr_feed demo_stream_key 10 [1, 2] 2 0 tcp_reassembler_new)) \<le> max_tcp_bytes_total"
  using tcp_memory_bounded [OF demo_reachable] by simp

theorem tcp_bytes_immutable_witness:
  "stream_bytes (demo_stream 0) \<subseteq>\<^sub>m stream_bytes
     ((demo_stream 1)\<lparr>ts_data := \<lparr>elems = [1, 2, 3], capacity = 8\<rparr>,
      ts_filled := \<lparr>elems = [True, True, True], capacity = 8\<rparr>, ts_prefix_len := 3\<rparr>)"
  by (rule tcp_bytes_immutable [OF demo_reachable _ _ demo_second_segment])
     (simp_all add: demo_first_segment, simp add: demo_stream_def ts_is_idle_def tcp_stream_idle_ms_def
       tcp_decision_window_ms_def)

theorem tcp_message_reassembled_witness:
  "tr_prefix demo_stream_key (tr_feed_all demo_stream_key 0xFFFFFFFF [(0, 1, [0xBB]), (5, 0, [0xAA])] tcp_reassembler_new)
     = [0xAA, 0xBB]"
  using tcp_message_reassembled [OF tcp_inv_new, of demo_stream_key "[0xAA, 0xBB]"
      "[(0, 1, [0xBB]), (5, 0, [0xAA])]" 0 "0xFFFFFFFF"]
  by (simp add: tcp_reassembler_new_def max_tcp_streams_def max_tcp_bytes_total_def max_tcp_stream_bytes_def
      tcp_decision_window_ms_def segment_of_def segment_positions_def lessThan_Suc)

end
