(* ===== verification/DnsFraming.thy ===== *)
theory DnsFraming
  imports TcpReassembly
begin

text \<open>
  Message boundaries of DNS over TCP, kept as sequence state (\<open>reassembly.rs\<close>: \<open>DnsTcpFraming\<close>,
  \<open>looks_like_dns_tcp_start\<close>, \<open>dns_tcp_walk\<close>).
\<close>

section \<open>Walking length prefixes\<close>

definition looks_like_dns_tcp_start :: "byte list \<Rightarrow> bool" where
  "looks_like_dns_tcp_start bytes \<longleftrightarrow>
     (case slice_get bytes 2 14 of
        None \<Rightarrow> False
      | Some header \<Rightarrow>
          let declared = u16_be (bytes ! 0) (bytes ! 1);
              count_at = (\<lambda>at. u16_be (header ! at) (header ! (at + 1)));
              high = header ! 2; low = header ! 3;
              is_response = high AND 0x80 \<noteq> 0;
              opcode = unat (drop_bit 3 high AND 0x0F);
              rcode = unat (low AND 0x0F);
              least_bytes = 12 + 5 * count_at 4 + 11 * (count_at 6 + count_at 8 + count_at 10)
          in opcode \<in> {0, 1, 2, 4, 5, 6} \<and> low AND 0x40 = 0 \<and> rcode \<le> 11
             \<and> (is_response \<or> (rcode = 0 \<and> count_at 4 \<le> 1)) \<and> least_bytes \<le> declared)"

text \<open>
  The closure \<open>at\<close> reads the carried high byte, if any, followed by the segment: the list \<open>xs\<close>
  of the loop.
\<close>

definition with_carry :: "byte option \<Rightarrow> byte list \<Rightarrow> byte list" where
  "with_carry carry bytes = (case carry of None \<Rightarrow> bytes | Some high \<Rightarrow> high # bytes)"

function dns_walk_loop :: "byte list \<Rightarrow> u32 \<Rightarrow> nat \<Rightarrow> (u32 \<times> byte option) option" where
  "dns_walk_loop xs base_seq pos =
     (if pos < length xs then
        (case (byte_at xs pos, byte_at xs (pos + 1)) of
           (Some hi, Some lo) \<Rightarrow>
             let declared = u16_be hi lo in
             if declared < 12 then (if pos > 0 then Some (base_seq + of_nat pos, None) else None)
             else dns_walk_loop xs base_seq (pos + (2 + declared))
         | _ \<Rightarrow> Some (base_seq + of_nat (pos + 1), byte_at xs pos))
      else Some (base_seq + of_nat pos, None))"
  by pat_completeness auto
termination
  by (relation "measure (\<lambda>(xs, base_seq, pos). length xs - pos)") auto

declare dns_walk_loop.simps [simp del]

definition dns_tcp_walk :: "byte list \<Rightarrow> u32 \<Rightarrow> byte option \<Rightarrow> bool \<Rightarrow> bool \<Rightarrow> (u32 \<times> byte option) option" where
  "dns_tcp_walk bytes base_seq carry response_only continuing =
     (let xs = with_carry carry bytes
      in if response_only \<and>
            \<not> (case byte_at xs 4 of None \<Rightarrow> continuing | Some flags \<Rightarrow> flags AND 0x80 \<noteq> 0)
         then None
         else dns_walk_loop xs base_seq 0)"

section \<open>The boundary table\<close>

record dns_boundary =
  db_next_message_seq :: u32
  db_pending_high :: "byte option"
  db_last_seen_ms :: nat

record dns_tcp_framing =
  df_entries :: "(tcp_stream_key \<times> dns_boundary) list"

definition dns_tcp_framing_default :: dns_tcp_framing where
  "dns_tcp_framing_default = \<lparr>df_entries = []\<rparr>"

text \<open>\<open>min_by_key\<close>: the first entry with the least time stamp.\<close>

fun oldest_boundary :: "(tcp_stream_key \<times> dns_boundary) list \<Rightarrow> tcp_stream_key option" where
  "oldest_boundary [] = None"
| "oldest_boundary ((k, e) # es) =
     (case oldest_boundary es of
        None \<Rightarrow> Some k
      | Some k' \<Rightarrow>
          (case map_of es k' of
             Some e' \<Rightarrow> if db_last_seen_ms e \<le> db_last_seen_ms e' then Some k else Some k'
           | None \<Rightarrow> Some k))"

definition df_record :: "tcp_stream_key \<Rightarrow> dns_boundary \<Rightarrow> dns_tcp_framing \<Rightarrow> dns_tcp_framing" where
  "df_record key boundary f =
     (let es = (if map_of (df_entries f) key = None \<and> length (df_entries f) \<ge> max_tcp_streams
                then (case oldest_boundary (df_entries f) of
                        Some oldest \<Rightarrow> AList.delete oldest (df_entries f)
                      | None \<Rightarrow> df_entries f)
                else df_entries f)
      in f\<lparr>df_entries := AList.update key boundary es\<rparr>)"

definition df_forget :: "tcp_stream_key \<Rightarrow> dns_tcp_framing \<Rightarrow> dns_tcp_framing" where
  "df_forget key f = f\<lparr>df_entries := AList.delete key (df_entries f)\<rparr>"

definition df_drop_flow :: "flow_key \<Rightarrow> dns_tcp_framing \<Rightarrow> dns_tcp_framing" where
  "df_drop_flow flow f =
     df_forget \<lparr>tsk_flow = flow, tsk_from_local = False\<rparr>
       (df_forget \<lparr>tsk_flow = flow, tsk_from_local = True\<rparr> f)"

definition df_evict_stale :: "nat \<Rightarrow> dns_tcp_framing \<Rightarrow> dns_tcp_framing" where
  "df_evict_stale now_ms f =
     f\<lparr>df_entries := filter (\<lambda>(k, e). now_ms - db_last_seen_ms e \<le> tcp_stream_idle_ms) (df_entries f)\<rparr>"

definition walk_and_record ::
  "tcp_stream_key \<Rightarrow> u32 \<Rightarrow> byte option \<Rightarrow> byte list \<Rightarrow> bool \<Rightarrow> nat \<Rightarrow> dns_tcp_framing \<Rightarrow> dns_tcp_framing" where
  "walk_and_record key base_seq carry bytes response_only now_ms f =
     (let continuing = map_of (df_entries f) key \<noteq> None
      in case dns_tcp_walk bytes base_seq carry response_only continuing of
           Some (next_message_seq, pending_high) \<Rightarrow>
             df_record key \<lparr>db_next_message_seq = next_message_seq, db_pending_high = pending_high,
                            db_last_seen_ms = now_ms\<rparr> f
         | None \<Rightarrow> df_forget key f)"

definition skip_inside_message ::
  "tcp_stream_key \<Rightarrow> u32 \<Rightarrow> byte list \<Rightarrow> bool \<Rightarrow> nat \<Rightarrow> dns_tcp_framing \<Rightarrow> bool \<times> dns_tcp_framing" where
  "skip_inside_message key seq payload response_only now_ms f =
     (case map_of (df_entries f) key of
        None \<Rightarrow> (False, f)
      | Some e \<Rightarrow>
          if now_ms - db_last_seen_ms e > tcp_stream_idle_ms then (False, df_forget key f)
          else let delta = sint (seq - db_next_message_seq e)
               in if delta > 0 \<or> (delta = 0 \<and> db_pending_high e = None) then (False, f)
                  else let offset = nat \<bar>delta\<bar>
                       in if offset < length payload
                          then (True,
                                walk_and_record key
                                  (db_next_message_seq e - (if db_pending_high e \<noteq> None then 1 else 0))
                                  (db_pending_high e) (drop offset payload) response_only now_ms f)
                          else (True, f))"

definition note_consumed ::
  "tcp_stream_key \<Rightarrow> u32 \<Rightarrow> byte list \<Rightarrow> bool \<Rightarrow> nat \<Rightarrow> dns_tcp_framing \<Rightarrow> dns_tcp_framing" where
  "note_consumed key seq payload response_only now_ms f =
     (if payload = [] then f
      else let (skipped, f') = skip_inside_message key seq payload response_only now_ms f
           in if skipped then f'
              else let starts_message = (case map_of (df_entries f') key of
                                           Some e \<Rightarrow> db_next_message_seq e = seq
                                         | None \<Rightarrow> looks_like_dns_tcp_start payload)
                   in if starts_message then walk_and_record key seq None payload response_only now_ms f'
                      else f')"

definition is_past_boundary :: "tcp_stream_key \<Rightarrow> u32 \<Rightarrow> dns_tcp_framing \<Rightarrow> bool" where
  "is_past_boundary key seq f \<longleftrightarrow>
     (case map_of (df_entries f) key of
        None \<Rightarrow> True
      | Some e \<Rightarrow> sint (seq - db_next_message_seq e) > 0)"

definition record_message ::
  "tcp_stream_key \<Rightarrow> u32 \<Rightarrow> byte list \<Rightarrow> bool \<Rightarrow> bool \<Rightarrow> nat \<Rightarrow> dns_tcp_framing \<Rightarrow> dns_tcp_framing" where
  "record_message key base_seq bytes other_protocol response_only now_ms f =
     (if response_only \<and> other_protocol then df_forget key f
      else if is_past_boundary key base_seq f \<and> \<not> looks_like_dns_tcp_start bytes then f
      else walk_and_record key base_seq None bytes response_only now_ms f)"

definition covers_first_message :: "tcp_stream_key \<Rightarrow> u32 \<Rightarrow> byte list \<Rightarrow> dns_tcp_framing \<Rightarrow> bool" where
  "covers_first_message key base_seq bytes f \<longleftrightarrow>
     (case bytes of
        hi # lo # _ \<Rightarrow>
          let declared = u16_be hi lo in
          if length bytes < 2 + declared then False
          else (case map_of (df_entries f) key of
                  None \<Rightarrow> False
                | Some e \<Rightarrow> sint (db_next_message_seq e - (base_seq + of_nat (2 + declared))) \<ge> 0)
      | _ \<Rightarrow> False)"

section \<open>The table is bounded\<close>

definition framing_ok :: "dns_tcp_framing \<Rightarrow> bool" where
  "framing_ok f \<longleftrightarrow> distinct (map fst (df_entries f)) \<and> length (df_entries f) \<le> max_tcp_streams"

lemma oldest_boundary_member: "es \<noteq> [] \<Longrightarrow> \<exists>k e. oldest_boundary es = Some k \<and> map_of es k = Some e"
proof (induction es rule: oldest_boundary.induct)
  case (2 k e es)
  show ?case
  proof (cases "es = []")
    case False
    with 2 obtain k' e' where "oldest_boundary es = Some k'" "map_of es k' = Some e'" by blast
    then show ?thesis by auto
  qed simp
qed simp

text \<open>The evicted entry is a least recently recorded one.\<close>

lemma oldest_boundary_least:
  "distinct (map fst es) \<Longrightarrow> oldest_boundary es = Some k \<Longrightarrow> map_of es k = Some e \<Longrightarrow>
   (k', e') \<in> set es \<Longrightarrow> db_last_seen_ms e \<le> db_last_seen_ms e'"
proof (induction es arbitrary: k e k' e' rule: oldest_boundary.induct)
  case (2 k0 e0 es)
  show ?case
  proof (cases "es = []")
    case True
    with 2 show ?thesis by auto
  next
    case False
    then obtain k1 e1 where old: "oldest_boundary es = Some k1" "map_of es k1 = Some e1"
      using oldest_boundary_member by blast
    have least: "db_last_seen_ms e1 \<le> db_last_seen_ms x" if "(y, x) \<in> set es" for y x
      using 2 that old by auto
    have "k1 \<noteq> k0" using old(2) 2(2) by (force dest: map_of_SomeD)
    with 2 old show ?thesis by (auto split: if_splits intro: least order_trans dest: least)
  qed
qed simp

lemma framing_ok_default [simp]: "framing_ok dns_tcp_framing_default"
  by (simp add: framing_ok_def dns_tcp_framing_default_def)

lemma framing_ok_record: "framing_ok f \<Longrightarrow> framing_ok (df_record k b f)"
proof -
  assume ok: "framing_ok f"
  show ?thesis
  proof (cases "map_of (df_entries f) k = None \<and> length (df_entries f) \<ge> max_tcp_streams")
    case True
    then have "df_entries f \<noteq> []" by (auto simp: max_tcp_streams_def)
    then obtain k' e' where old: "oldest_boundary (df_entries f) = Some k'" "map_of (df_entries f) k' = Some e'"
      using oldest_boundary_member by blast
    have "Suc (length (AList.delete k' (df_entries f))) = length (df_entries f)"
      using ok old(2) by (intro length_delete_member) (simp_all add: framing_ok_def)
    with ok True old show ?thesis
      by (auto simp: framing_ok_def df_record_def length_update)
  next
    case False
    with ok show ?thesis
      by (auto simp: framing_ok_def df_record_def length_update map_of_eq_None_iff Let_def)
  qed
qed

lemma framing_ok_forget: "framing_ok f \<Longrightarrow> framing_ok (df_forget k f)"
  using length_delete_le [of k "df_entries f"] by (simp add: framing_ok_def df_forget_def)

lemma framing_ok_drop_flow: "framing_ok f \<Longrightarrow> framing_ok (df_drop_flow fl f)"
  by (simp add: df_drop_flow_def framing_ok_forget)

lemma framing_ok_evict: "framing_ok f \<Longrightarrow> framing_ok (df_evict_stale t f)"
  by (auto simp: framing_ok_def df_evict_stale_def distinct_map_filter intro: order_trans [OF length_filter_le])

lemma framing_ok_walk: "framing_ok f \<Longrightarrow> framing_ok (walk_and_record k b c bs ro t f)"
  by (simp add: walk_and_record_def framing_ok_record framing_ok_forget Let_def split: option.split prod.split)

lemma framing_ok_skip: "framing_ok f \<Longrightarrow> framing_ok (snd (skip_inside_message k s p ro t f))"
  by (simp add: skip_inside_message_def framing_ok_walk framing_ok_forget Let_def split: option.split)

lemma framing_ok_consumed: "framing_ok f \<Longrightarrow> framing_ok (note_consumed k s p ro t f)"
  using framing_ok_skip [of f k s p ro t]
  by (simp add: note_consumed_def framing_ok_walk case_prod_unfold Let_def)

lemma framing_ok_message: "framing_ok f \<Longrightarrow> framing_ok (record_message k s bs o_p ro t f)"
  by (simp add: record_message_def framing_ok_walk framing_ok_forget)

section \<open>Boundaries follow the messages\<close>

definition wire_message :: "byte list \<Rightarrow> bool" where
  "wire_message m \<longleftrightarrow> 12 \<le> length m \<and> length m < 65536"

definition dns_stream :: "byte list list \<Rightarrow> byte list" where
  "dns_stream ms = concat (map frame_dns ms)"

text \<open>
  Where the next message starts once \<open>n\<close> bytes of the stream have been seen: the first message
  start at or past \<open>n\<close>, or, when only the first length byte of a message has been seen, the offset
  of its second one.
\<close>

fun boundary_from :: "nat \<Rightarrow> byte list list \<Rightarrow> nat \<Rightarrow> nat \<times> bool" where
  "boundary_from e [] n = (e, False)"
| "boundary_from e (m # ms) n =
     (if n \<le> e then (e, False)
      else if n = e + 1 then (e + 1, True)
      else boundary_from (e + (2 + length m)) ms n)"

lemma dns_stream_simps [simp]:
  "dns_stream [] = []" "dns_stream (m # ms) = be16 (length m) @ m @ dns_stream ms"
  by (simp_all add: dns_stream_def frame_dns_def)

lemma dns_walk_stream:
  assumes "xs = take n (pre @ dns_stream ms)" and "n \<le> length (pre @ dns_stream ms)"
    and "list_all wire_message ms"
  shows "dns_walk_loop xs base (length pre) =
    Some (base + of_nat (fst (boundary_from (length pre) ms n)),
          if snd (boundary_from (length pre) ms n)
          then Some ((pre @ dns_stream ms) ! (fst (boundary_from (length pre) ms n) - 1)) else None)"
  using assms
proof (induction ms arbitrary: pre)
  case Nil
  then show ?case by (subst dns_walk_loop.simps) simp
next
  case (Cons m ms)
  let ?e = "length pre" and ?s = "pre @ dns_stream (m # ms)"
  have len: "length xs = n" using Cons.prems(1,2) by simp
  have m: "12 \<le> length m" "length m < 65536" using Cons.prems(3) by (simp_all add: wire_message_def)
  show ?case
  proof (cases "n \<le> ?e + 1")
    case True
    have "byte_at xs ?e = Some (?s ! ?e)" if "n = ?e + 1"
      using that Cons.prems(1,2) by (simp add: byte_at_def be16_def nth_append)
    moreover have "byte_at xs (?e + 1) = None" using True len by (simp add: byte_at_None_iff)
    ultimately show ?thesis
      using True len by (subst dns_walk_loop.simps) (auto split: option.split)
  next
    case False
    have "byte_at xs ?e = Some (of_nat (length m div 256))" "byte_at xs (?e + 1) = Some (of_nat (length m mod 256))"
      using False len Cons.prems(1) by (simp_all add: byte_at_def be16_def nth_append)
    then have step: "dns_walk_loop xs base ?e = dns_walk_loop xs base (?e + (2 + length m))"
      using False len m u16_be_be16 [OF m(2)] by (subst dns_walk_loop.simps) (simp add: Let_def)
    let ?pre = "pre @ be16 (length m) @ m"
    have pre: "?pre @ dns_stream ms = ?s" "length ?pre = ?e + (2 + length m)" by (simp_all add: be16_def)
    from Cons.IH [of ?pre, unfolded pre] Cons.prems(1-3) step False show ?thesis by simp
  qed
qed

text \<open>Splitting the messages at a boundary: later boundaries depend only on the messages after it.\<close>

lemma boundary_split:
  assumes "n \<le> e + length (dns_stream ms)"
  obtains ms1 ms2 where "ms = ms1 @ ms2"
    "\<And>n'. n \<le> n' \<Longrightarrow> boundary_from e ms n' = boundary_from (e + length (dns_stream ms1)) ms2 n'"
    "boundary_from e ms n = (e + length (dns_stream ms1), False) \<and> n \<le> e + length (dns_stream ms1) \<or>
     boundary_from e ms n = (e + length (dns_stream ms1) + 1, True) \<and> n = e + length (dns_stream ms1) + 1 \<and> ms2 \<noteq> []"
  using assms
proof (induction ms arbitrary: e thesis)
  case Nil
  show ?case by (rule Nil(1) [of "[]" "[]"]) (use Nil(2) in auto)
next
  case (Cons m ms)
  show ?case
  proof (cases "n \<le> e + 1")
    case True
    show ?thesis by (rule Cons.prems(1) [of "[]" "m # ms"]) (use True in auto)
  next
    case False
    have "n \<le> e + (2 + length m) + length (dns_stream ms)"
      using Cons.prems(2) by (simp add: be16_def)
    from Cons.IH [OF _ this] obtain ms1 ms2 where
      split: "ms = ms1 @ ms2"
      "\<And>n'. n \<le> n' \<Longrightarrow> boundary_from (e + (2 + length m)) ms n'
         = boundary_from (e + (2 + length m) + length (dns_stream ms1)) ms2 n'"
      "boundary_from (e + (2 + length m)) ms n = (e + (2 + length m) + length (dns_stream ms1), False)
         \<and> n \<le> e + (2 + length m) + length (dns_stream ms1) \<or>
       boundary_from (e + (2 + length m)) ms n = (e + (2 + length m) + length (dns_stream ms1) + 1, True)
         \<and> n = e + (2 + length m) + length (dns_stream ms1) + 1 \<and> ms2 \<noteq> []"
      by blast
    show ?thesis
      by (rule Cons.prems(1) [of "m # ms1" ms2])
        (use False split in \<open>auto simp: be16_def algebra_simps\<close>)
  qed
qed

lemma boundary_shift:
  "boundary_from (k + e) ms (k + n) = (k + fst (boundary_from e ms n), snd (boundary_from e ms n))"
proof (induction ms arbitrary: e)
  case (Cons m ms)
  from Cons [of "e + (2 + length m)"] show ?case by (auto simp: add.assoc)
qed simp

lemma dns_stream_append: "dns_stream (xs @ ys) = dns_stream xs @ dns_stream ys"
  by (simp add: dns_stream_def)

definition boundary_entry :: "u32 \<Rightarrow> byte list list \<Rightarrow> nat \<Rightarrow> nat \<Rightarrow> dns_boundary" where
  "boundary_entry base ms n t =
     (let (next, pending) = boundary_from 0 ms n
      in \<lparr>db_next_message_seq = base + of_nat next,
          db_pending_high = (if pending then Some (dns_stream ms ! (next - 1)) else None),
          db_last_seen_ms = t\<rparr>)"

text \<open>In a response-only direction every message has its response bit set.\<close>

definition shows_responses :: "bool \<Rightarrow> byte list list \<Rightarrow> bool" where
  "shows_responses response_only ms \<longleftrightarrow> (response_only \<longrightarrow> (\<forall>m \<in> set ms. m ! 2 AND 0x80 \<noteq> 0))"

lemma walk_from_boundary:
  assumes ms: "ms = ms1 @ ms2" "list_all wire_message ms" "shows_responses ro ms"
    and e: "e = length (dns_stream ms1)" "e < n'" "n' \<le> length (dns_stream ms)"
    and xs: "with_carry c bytes = take (n' - e) (drop e (dns_stream ms))"
    and cont: "ro \<Longrightarrow> continuing \<or> e + 5 \<le> n'"
    and b: "boundary_from 0 ms n' = boundary_from e ms2 n'"
  shows "dns_tcp_walk bytes (base + of_nat e) c ro continuing =
    Some (db_next_message_seq (boundary_entry base ms n' t), db_pending_high (boundary_entry base ms n' t))"
proof -
  let ?xs = "take (n' - e) (dns_stream ms2)"
  have xs': "with_carry c bytes = ?xs" using xs by (simp add: ms(1) e(1) dns_stream_append)
  obtain m ms3 where ms2: "ms2 = m # ms3"
    using e by (cases ms2) (auto simp: ms(1) dns_stream_append)
  then have m: "12 \<le> length m" "ro \<Longrightarrow> m ! 2 AND 0x80 \<noteq> 0"
    using ms by (simp_all add: wire_message_def shows_responses_def)
  have "byte_at ?xs 4 = (if 4 < n' - e then Some (m ! 2) else None)"
    using m(1) e by (auto simp: byte_at_def ms2 be16_def nth_append ms(1) dns_stream_append)
  then have flags: "\<not> (ro \<and> \<not> (case byte_at ?xs 4 of None \<Rightarrow> continuing | Some flags \<Rightarrow> flags AND 0x80 \<noteq> 0))"
    using m(2) cont by auto
  have bd: "boundary_from e ms2 n' = (e + fst (boundary_from 0 ms2 (n' - e)), snd (boundary_from 0 ms2 (n' - e)))"
    using boundary_shift [of e 0 ms2 "n' - e"] e(2) by simp
  have pos: "0 < fst (boundary_from 0 ms2 (n' - e))" if "snd (boundary_from 0 ms2 (n' - e))"
  proof -
    have "snd (boundary_from k ms n) \<Longrightarrow> 0 < fst (boundary_from k ms n)" for k ms n
      by (induction ms arbitrary: k) (auto split: if_splits)
    with that show ?thesis by blast
  qed
  have "dns_walk_loop ?xs (base + of_nat e) (length ([] :: byte list)) =
    Some (base + of_nat e + of_nat (fst (boundary_from 0 ms2 (n' - e))),
      if snd (boundary_from 0 ms2 (n' - e))
      then Some (dns_stream ms2 ! (fst (boundary_from 0 ms2 (n' - e)) - 1)) else None)"
    using dns_walk_stream [of ?xs "n' - e" "[]" ms2 "base + of_nat e"] e ms
    by (simp add: dns_stream_append)
  moreover have "dns_stream ms ! (e + k - 1) = dns_stream ms2 ! (k - 1)" if "0 < k" for k
    using that by (cases k) (simp_all add: ms(1) dns_stream_append e(1))
  ultimately show ?thesis
    using flags pos by (auto simp: dns_tcp_walk_def xs' boundary_entry_def b bd Let_def)
qed

lemma consumed_before_boundary:
  assumes "map_of (df_entries f) key = Some e" "now - db_last_seen_ms e \<le> tcp_stream_idle_ms" "payload \<noteq> []"
    and "sint (seq - db_next_message_seq e) = - int k" "0 < k \<or> db_pending_high e \<noteq> None"
  shows "note_consumed key seq payload ro now f =
    (if k < length payload
     then walk_and_record key (db_next_message_seq e - (if db_pending_high e \<noteq> None then 1 else 0))
            (db_pending_high e) (drop k payload) ro now f
     else f)"
  using assms by (auto simp: note_consumed_def skip_inside_message_def Let_def)

lemma consumed_at_boundary:
  assumes "map_of (df_entries f) key = Some e" "now - db_last_seen_ms e \<le> tcp_stream_idle_ms" "payload \<noteq> []"
    and "db_next_message_seq e = seq" "db_pending_high e = None"
  shows "note_consumed key seq payload ro now f = walk_and_record key seq None payload ro now f"
  using assms by (auto simp: note_consumed_def skip_inside_message_def Let_def)

lemma df_record_entry: "map_of (df_entries (df_record k b f)) k = Some b"
  by (simp add: df_record_def Let_def update_conv')

lemma boundary_entry_time: "db_last_seen_ms (boundary_entry base ms n t) = t"
  by (simp add: boundary_entry_def split: prod.split)

text \<open>What the entry for \<open>n\<close> seen bytes says, with the messages split at the boundary.\<close>

lemma boundary_view:
  assumes "n \<le> length (dns_stream ms)"
  obtains ms1 ms2 e pend p where "ms = ms1 @ ms2" "e = length (dns_stream ms1)"
    "p = (if pend then e + 1 else e)" "n \<le> p" "pend \<longrightarrow> n = p" "p \<le> length (dns_stream ms)"
    "\<And>n'. n \<le> n' \<Longrightarrow> boundary_from 0 ms n' = boundary_from e ms2 n'"
    "\<And>t. boundary_entry base ms n t =
       \<lparr>db_next_message_seq = base + of_nat p,
        db_pending_high = (if pend then Some (dns_stream ms ! e) else None), db_last_seen_ms = t\<rparr>"
proof -
  have "n \<le> 0 + length (dns_stream ms)" using assms by simp
  then obtain ms1 ms2 where split: "ms = ms1 @ ms2"
    "\<And>n'. n \<le> n' \<Longrightarrow> boundary_from 0 ms n' = boundary_from (length (dns_stream ms1)) ms2 n'"
    "boundary_from 0 ms n = (length (dns_stream ms1), False) \<and> n \<le> length (dns_stream ms1) \<or>
     boundary_from 0 ms n = (length (dns_stream ms1) + 1, True) \<and> n = length (dns_stream ms1) + 1 \<and> ms2 \<noteq> []"
    by (rule boundary_split) auto
  show ?thesis
    by (rule that [of ms1 ms2 "length (dns_stream ms1)" "fst (boundary_from 0 ms n)" "snd (boundary_from 0 ms n)"])
      (use split in \<open>auto simp: boundary_entry_def dns_stream_append neq_Nil_conv be16_def\<close>)
qed

lemma boundary_unchanged:
  assumes "ms = ms1 @ ms2" "boundary_from 0 ms b = boundary_from e ms2 b" "b \<le> e"
    and "\<And>t. boundary_entry base ms n t =
       \<lparr>db_next_message_seq = base + of_nat e, db_pending_high = None, db_last_seen_ms = t\<rparr>"
  shows "boundary_entry base ms b t = boundary_entry base ms n t"
proof -
  have "boundary_from e ms2 b = (e, False)" using assms(3) by (cases ms2) simp_all
  with assms show ?thesis by (simp add: boundary_entry_def)
qed

text \<open>
  One consumed segment \<open>[a, b)\<close> of the stream that leaves no gap after the \<open>n\<close> bytes already seen:
  new bytes, a retransmission or an overlap of both.
\<close>

lemma consumed_step:
  assumes ms: "list_all wire_message ms" "shows_responses ro ms"
    and s: "length (dns_stream ms) < 2 ^ 31" "a \<le> n" "n \<le> length (dns_stream ms)" "b \<le> length (dns_stream ms)"
    and entry: "map_of (df_entries f) key = Some (boundary_entry base ms n t')" "t - t' \<le> tcp_stream_idle_ms"
  shows "\<exists>t''. t'' \<in> {t, t'} \<and>
    map_of (df_entries (note_consumed key (base + of_nat a) (take (b - a) (drop a (dns_stream ms))) ro t f)) key
    = Some (boundary_entry base ms (max n b) t'')"
    (is "\<exists>t''. _ \<and> ?goal t''")
proof (cases "b \<le> a")
  case True
  then have "max n b = n" using s by simp
  with True entry show ?thesis by (auto simp: note_consumed_def)
next
  case ab: False
  let ?s = "dns_stream ms" and ?p = "take (b - a) (drop a (dns_stream ms))"
  have ne: "?p \<noteq> []" and len: "length ?p = b - a" using ab s by auto
  obtain ms1 ms2 e pend p where split: "ms = ms1 @ ms2" "e = length (dns_stream ms1)"
    and p: "p = (if pend then e + 1 else e)" "n \<le> p" "pend \<longrightarrow> n = p" "p \<le> length ?s"
    and later: "\<And>n'. n \<le> n' \<Longrightarrow> boundary_from 0 ms n' = boundary_from e ms2 n'"
    and ent: "\<And>t. boundary_entry base ms n t = \<lparr>db_next_message_seq = base + of_nat p,
        db_pending_high = (if pend then Some (?s ! e) else None), db_last_seen_ms = t\<rparr>"
    using boundary_view [OF s(3), of base] by metis
  have walk: "?goal t" if p_b: "p < b"
    and consumed: "note_consumed key (base + of_nat a) ?p ro t f = walk_and_record key (base + of_nat e) c bs ro t f"
    and bs: "with_carry c bs = take (b - e) (drop e ?s)" for c bs
  proof -
    have "n < b" "e < b" "max n b = b" using p_b p by (auto split: if_splits)
    then have "dns_tcp_walk bs (base + of_nat e) c ro True =
      Some (db_next_message_seq (boundary_entry base ms b t), db_pending_high (boundary_entry base ms b t))"
      using walk_from_boundary [OF split(1) ms split(2) \<open>e < b\<close> s(4) bs] later by simp
    then show ?thesis
      using entry(1) \<open>max n b = b\<close>
      by (simp add: consumed walk_and_record_def df_record_entry boundary_entry_def split: prod.split)
  qed
  have delta: "sint (base + of_nat a - db_next_message_seq (boundary_entry base ms n t')) = - int (p - a)"
    using sint_small_diff [of a p] s p by (simp add: ent)
  have idle: "t - db_last_seen_ms (boundary_entry base ms n t') \<le> tcp_stream_idle_ms"
    using entry(2) by (simp add: ent)
  show ?thesis
  proof (cases "a = p \<and> \<not> pend")
    case True
    then have "?goal t"
      using consumed_at_boundary [OF entry(1) idle ne, of "base + of_nat a"] ab p s
      by (intro walk [of None ?p]) (auto simp: ent with_carry_def)
    then show ?thesis by blast
  next
    case False
    have "0 < p - a \<or> db_pending_high (boundary_entry base ms n t') \<noteq> None"
      using False p s by (auto simp: ent)
    note note' = consumed_before_boundary [OF entry(1) idle ne delta this, of ro]
    show ?thesis
    proof (cases "p < b")
      case True
      have "drop (p - a) ?p = take (b - p) (drop p ?s)" using s p by (simp add: drop_take)
      moreover have "take (b - e) (drop e ?s) = ?s ! e # take (b - (e + 1)) (drop (e + 1) ?s)" if pend
        using that True s p by (simp add: Cons_nth_drop_Suc [symmetric] take_Cons')
      ultimately have "?goal t"
        using True note' len s p
        by (intro walk [where c = "if pend then Some (?s ! e) else None" and bs = "drop (p - a) ?p"])
          (auto simp: ent with_carry_def)
      then show ?thesis by blast
    next
      case stay: False
      then have "boundary_entry base ms (max n b) t' = boundary_entry base ms n t'"
        using boundary_unchanged [OF split(1) later, of b base n t'] p ent by (auto simp: max_def)
      moreover have "\<not> p - a < length ?p" using stay len by simp
      ultimately have "?goal t'" using entry by (simp only: note' if_False)
      then show ?thesis by blast
    qed
  qed
qed

section \<open>A whole stream\<close>

text \<open>
  A segment is given by the stream offsets \<open>a \<le> b\<close> of its bytes and its arrival time. Segments may
  repeat or overlap what was seen, but leave no gap, and the arrival times stay in one idle window.
\<close>

fun consume_segments ::
  "tcp_stream_key \<Rightarrow> u32 \<Rightarrow> byte list \<Rightarrow> bool \<Rightarrow> (nat \<times> nat \<times> nat) list \<Rightarrow> dns_tcp_framing \<Rightarrow> dns_tcp_framing" where
  "consume_segments key base s ro [] f = f"
| "consume_segments key base s ro ((a, b, t) # segs) f =
     consume_segments key base s ro segs (note_consumed key (base + of_nat a) (take (b - a) (drop a s)) ro t f)"

fun no_gap :: "nat \<Rightarrow> (nat \<times> nat \<times> nat) list \<Rightarrow> bool" where
  "no_gap n [] \<longleftrightarrow> True"
| "no_gap n ((a, b, t) # segs) \<longleftrightarrow> a \<le> n \<and> no_gap (max n b) segs"

fun seen_up_to :: "nat \<Rightarrow> (nat \<times> nat \<times> nat) list \<Rightarrow> nat" where
  "seen_up_to n [] = n"
| "seen_up_to n ((a, b, t) # segs) = seen_up_to (max n b) segs"

definition within_idle :: "nat \<Rightarrow> nat \<Rightarrow> (nat \<times> nat \<times> nat) list \<Rightarrow> bool" where
  "within_idle t0 len segs \<longleftrightarrow>
     (\<forall>(a, b, t) \<in> set segs. b \<le> len \<and> t0 \<le> t \<and> t \<le> t0 + tcp_stream_idle_ms)"

lemma consume_segments_boundary:
  assumes "list_all wire_message ms" "shows_responses ro ms" "length (dns_stream ms) < 2 ^ 31"
    and "no_gap n segs" "n \<le> length (dns_stream ms)" "within_idle t0 (length (dns_stream ms)) segs"
    and "map_of (df_entries f) key = Some (boundary_entry base ms n t)" "t0 \<le> t" "t \<le> t0 + tcp_stream_idle_ms"
  shows "\<exists>t'. map_of (df_entries (consume_segments key base (dns_stream ms) ro segs f)) key
    = Some (boundary_entry base ms (seen_up_to n segs) t')"
  using assms(4-)
proof (induction segs arbitrary: n f t)
  case (Cons seg segs)
  obtain a b now where seg: "seg = (a, b, now)" by (cases seg)
  have pre: "a \<le> n" "b \<le> length (dns_stream ms)" "t0 \<le> now" "now \<le> t0 + tcp_stream_idle_ms"
    using Cons.prems by (auto simp: seg within_idle_def)
  then have "now - t \<le> tcp_stream_idle_ms" using Cons.prems by simp
  from consumed_step [OF assms(1-3) pre(1) Cons.prems(2) pre(2) Cons.prems(4) this]
  obtain t'' where "t'' \<in> {now, t}" and step:
    "map_of (df_entries (note_consumed key (base + of_nat a) (take (b - a) (drop a (dns_stream ms))) ro now f)) key
     = Some (boundary_entry base ms (max n b) t'')" by blast
  then have "t0 \<le> t''" "t'' \<le> t0 + tcp_stream_idle_ms" using pre Cons.prems by auto
  then show ?case
    using Cons.IH [OF _ _ _ step] Cons.prems pre by (auto simp: seg within_idle_def)
qed auto

lemma first_segment_boundary:
  assumes "list_all wire_message ms" "shows_responses ro ms" "map_of (df_entries f) key = None"
    and "looks_like_dns_tcp_start (take n (dns_stream ms))" "n \<le> length (dns_stream ms)"
  shows "map_of (df_entries (note_consumed key base (take n (dns_stream ms)) ro t f)) key
    = Some (boundary_entry base ms n t)"
proof -
  have "14 \<le> n"
    using assms(4,5) by (auto simp: looks_like_dns_tcp_start_def slice_get_def split: option.splits if_splits)
  with walk_from_boundary [of ms "[]" ms ro 0 n None "take n (dns_stream ms)" False base t]
  show ?thesis using assms
    by (auto simp: note_consumed_def skip_inside_message_def walk_and_record_def df_record_entry with_carry_def
        boundary_entry_def split: prod.split)
qed

section \<open>Main results\<close>

text \<open>
  C19: When the first segment of a DNS-over-TCP stream holds the length prefix and the whole header of
  the first message (14 bytes) and they look like DNS, the recorded boundary follows the length-prefixed
  messages however the rest of the stream is cut: after any further segments that repeat, overlap or
  continue what was seen, with no gap and all within 30 s of the first, it is the start of the
  first message not yet seen, or, when a cut falls inside a length prefix, the sequence number of the
  prefix's low byte together with its high byte. Sequence numbers wrap.
\<close>

theorem dns_boundary_follows_stream:
  assumes "list_all wire_message ms" and "shows_responses ro ms" and "length (dns_stream ms) < 2 ^ 31"
    and "map_of (df_entries f) key = None"
    and "looks_like_dns_tcp_start (take n (dns_stream ms))" and "n \<le> length (dns_stream ms)"
    and "no_gap n segs" and "within_idle t0 (length (dns_stream ms)) segs"
  shows "\<exists>t. map_of (df_entries (consume_segments key base (dns_stream ms) ro segs
                (note_consumed key base (take n (dns_stream ms)) ro t0 f))) key
    = Some (boundary_entry base ms (seen_up_to n segs) t)"
  using consume_segments_boundary [OF assms(1-3,7,6,8) first_segment_boundary [OF assms(1,2,4-6), of base t0]]
  by simp

definition demo_dns_query :: "byte list" where
  "demo_dns_query = [0, 1, 1, 0, 0, 1, 0, 0, 0, 0, 0, 0, 1, 97, 0, 0, 1, 0, 1]"

text \<open>Two 19-byte messages whose second length prefix is cut in half and whose sequence numbers wrap.\<close>

theorem dns_boundary_follows_stream_witness:
  "\<exists>t. map_of (df_entries (consume_segments demo_stream_key 0xFFFFFFF0 (dns_stream [demo_dns_query, demo_dns_query]) False
      [(15, 22, 5), (0, 10, 6)]
      (note_consumed demo_stream_key 0xFFFFFFF0 (take 15 (dns_stream [demo_dns_query, demo_dns_query])) False 0
        dns_tcp_framing_default))) demo_stream_key
    = Some \<lparr>db_next_message_seq = 6, db_pending_high = Some 0, db_last_seen_ms = t\<rparr>"
proof -
  have e: "boundary_entry 0xFFFFFFF0 [demo_dns_query, demo_dns_query] 22 t
    = \<lparr>db_next_message_seq = 6, db_pending_high = Some 0, db_last_seen_ms = t\<rparr>" for t
    by (simp add: boundary_entry_def demo_dns_query_def be16_def)
  have "looks_like_dns_tcp_start (take 15 (dns_stream [demo_dns_query, demo_dns_query]))"
    by (simp add: looks_like_dns_tcp_start_def demo_dns_query_def be16_def slice_get_def u16_be_def Let_def)
  with dns_boundary_follows_stream [of "[demo_dns_query, demo_dns_query]" False dns_tcp_framing_default
      demo_stream_key 15 "[(15, 22, 5), (0, 10, 6)]" 0 "0xFFFFFFF0"] show ?thesis
    by (simp add: e [unfolded demo_dns_query_def] wire_message_def shows_responses_def within_idle_def demo_dns_query_def be16_def
        dns_tcp_framing_default_def tcp_stream_idle_ms_def)
qed

end
