(* ===== verification/StreamReassembler.thy ===== *)
theory StreamReassembler
  imports FragmentCorrect TcpCorrect DnsFraming
begin

text \<open>
  The reassembly facade the capture loop drives (\<open>reassembly.rs\<close>: \<open>SniffOutcome\<close>,
  \<open>StreamReassembler\<close>). Parameters of the definitions: the IPv4 header codec and the slicing parser
  of etherparse (\<open>cd\<close>, \<open>ep\<close>), the MD5 of the JA3 string (\<open>md5_hex\<close>) and the caller's flow resolver.
\<close>

section \<open>State\<close>

record sniff_outcome =
  so_info :: l7_info
  so_status :: "reassembly_status option"
  so_need_more_bytes :: "nat option"
  so_reassembled_packet :: "parsed_packet option"

record stream_reassembler =
  sr_fragments :: ip_fragment_reassembler
  sr_segments :: tcp_reassembler
  sr_last_frame_cut_at_ms :: "nat option"
  sr_frames_cut_at_snaplen :: nat
  sr_last_evict_ms :: nat
  sr_dns_framing :: dns_tcp_framing

type_synonym flow_ref = "(flow_key \<times> bool) option"

definition cut_attribution_window_ms :: nat where "cut_attribution_window_ms = 5000"

definition stream_reassembler_new :: stream_reassembler where
  "stream_reassembler_new =
     \<lparr>sr_fragments = ip_fragment_reassembler_new, sr_segments = tcp_reassembler_new,
      sr_last_frame_cut_at_ms = None, sr_frames_cut_at_snaplen = 0, sr_last_evict_ms = 0,
      sr_dns_framing = dns_tcp_framing_default\<rparr>"

definition sr_reset :: "stream_reassembler \<Rightarrow> stream_reassembler" where
  "sr_reset sr =
     sr\<lparr>sr_fragments := fr_clear (sr_fragments sr), sr_segments := tr_clear (sr_segments sr),
        sr_dns_framing := (sr_dns_framing sr)\<lparr>df_entries := []\<rparr>, sr_last_frame_cut_at_ms := None\<rparr>"

definition dns_framing_len :: "stream_reassembler \<Rightarrow> nat" where
  "dns_framing_len sr = length (df_entries (sr_dns_framing sr))"

definition sr_bytes_held :: "stream_reassembler \<Rightarrow> nat" where
  "sr_bytes_held sr = fr_bytes_held (sr_fragments sr) + tr_bytes_held (sr_segments sr)"

definition note_frame_cut_at_snaplen :: "nat \<Rightarrow> stream_reassembler \<Rightarrow> stream_reassembler" where
  "note_frame_cut_at_snaplen now_ms sr =
     sr\<lparr>sr_frames_cut_at_snaplen := sr_frames_cut_at_snaplen sr + 1, sr_last_frame_cut_at_ms := Some now_ms\<rparr>"

definition attribute :: "stream_reassembler \<Rightarrow> reassembly_status \<Rightarrow> nat \<Rightarrow> reassembly_status" where
  "attribute sr status now_ms =
     (if status \<noteq> IncompleteMissingFrames then status
      else case sr_last_frame_cut_at_ms sr of
             Some cut_ms \<Rightarrow>
               if now_ms - cut_ms \<le> cut_attribution_window_ms then IncompleteTruncatedAtCapture else status
           | None \<Rightarrow> status)"

definition maybe_evict :: "'h ipv4_codec \<Rightarrow> nat \<Rightarrow> stream_reassembler \<Rightarrow> stream_reassembler" where
  "maybe_evict cd now_ms sr =
     (if now_ms - sr_last_evict_ms sr < 1000 then sr
      else sr\<lparr>sr_last_evict_ms := now_ms,
              sr_fragments := snd (fr_evict_stale cd now_ms (sr_fragments sr)),
              sr_segments := tr_evict_stale now_ms (sr_segments sr),
              sr_dns_framing := df_evict_stale now_ms (sr_dns_framing sr)\<rparr>)"

definition sr_drop_flow :: "flow_key \<Rightarrow> stream_reassembler \<Rightarrow> stream_reassembler" where
  "sr_drop_flow flow sr =
     sr\<lparr>sr_segments := tr_drop_flow flow (sr_segments sr),
        sr_dns_framing := df_drop_flow flow (sr_dns_framing sr)\<rparr>"

section \<open>Sniffing a segment\<close>

definition no_outcome :: sniff_outcome where
  "no_outcome = \<lparr>so_info = L7None, so_status = None, so_need_more_bytes = None, so_reassembled_packet = None\<rparr>"

text \<open>The three outcomes a sniff leads to, with the status of the buffer it read, if any.\<close>

fun outcome_of :: "reassembly_status option \<Rightarrow> l7_sniff \<Rightarrow> sniff_outcome" where
  "outcome_of status (Decided info) = no_outcome\<lparr>so_info := info, so_status := status\<rparr>"
| "outcome_of status (NeedMoreBytes at_least) = no_outcome\<lparr>so_status := status, so_need_more_bytes := Some at_least\<rparr>"
| "outcome_of status Undecided = no_outcome\<lparr>so_status := status\<rparr>"

definition stream_target :: "parsed_packet \<Rightarrow> flow_ref \<Rightarrow> (tcp_stream_key \<times> u32) option" where
  "stream_target p flow =
     (case (flow, pp_seq p) of
        (Some (flow_key, from_local), Some seq) \<Rightarrow>
          if pp_protocol p = Tcp then Some (\<lparr>tsk_flow = flow_key, tsk_from_local = from_local\<rparr>, seq) else None
      | _ \<Rightarrow> None)"

definition packet_dns_tcp :: "parsed_packet \<Rightarrow> bool" where
  "packet_dns_tcp p = is_dns_over_tcp (pp_protocol p) (pp_src_port p) (pp_dst_port p)"

definition packet_response_only :: "parsed_packet \<Rightarrow> bool" where
  "packet_response_only p \<longleftrightarrow> packet_dns_tcp p \<and> pp_dst_port p \<noteq> Some 53"

text \<open>
  The DNS-over-TCP screen before the payload is looked at: whether the segment is skipped, and
  the state afterwards.
\<close>

definition dns_screen ::
  "parsed_packet \<Rightarrow> (tcp_stream_key \<times> u32) option \<Rightarrow> nat \<Rightarrow> stream_reassembler \<Rightarrow> bool \<times> stream_reassembler" where
  "dns_screen p target now_ms sr =
     (case target of
        Some (key, seq) \<Rightarrow>
          if \<not> packet_dns_tcp p then (False, sr)
          else if (case pp_tcp_flags p of Some flags \<Rightarrow> tf_syn flags | None \<Rightarrow> False)
          then (False, sr\<lparr>sr_dns_framing := df_forget key (sr_dns_framing sr)\<rparr>)
          else if \<not> tr_has_buffer key (sr_segments sr) then
            (let (skipped, f) = skip_inside_message key seq (pp_payload p) (packet_response_only p) now_ms
                                  (sr_dns_framing sr)
             in (skipped, sr\<lparr>sr_dns_framing := f\<rparr>))
          else (False, sr)
      | None \<Rightarrow> (False, sr))"

definition sniff_bytes :: "(rstring \<Rightarrow> rstring) \<Rightarrow> parsed_packet \<Rightarrow> byte list \<Rightarrow> l7_sniff" where
  "sniff_bytes md5_hex p bytes = sniff_for_transport md5_hex bytes (pp_protocol p) (pp_src_port p) (pp_dst_port p)"

fun decided_other_protocol :: "l7_sniff \<Rightarrow> bool" where
  "decided_other_protocol (Decided info) = (\<not> is_dns_info info)"
| "decided_other_protocol _ = False"

text \<open>The boundary bookkeeping once a segment changed the buffer of a DNS-over-TCP direction.\<close>

definition dns_after_feed ::
  "parsed_packet \<Rightarrow> tcp_stream_key \<Rightarrow> u32 \<Rightarrow> nat \<Rightarrow> l7_sniff \<Rightarrow> reassembly_status \<Rightarrow> stream_reassembler
    \<Rightarrow> stream_reassembler" where
  "dns_after_feed p key seq now_ms sniffed status sr =
     (case tr_base_seq key (sr_segments sr) of
        None \<Rightarrow> sr
      | Some base_seq \<Rightarrow>
          let prefix = tr_prefix key (sr_segments sr);
              at_cap = length prefix \<ge> max_tcp_stream_bytes;
              ro = packet_response_only p;
              f1 = record_message key base_seq prefix (decided_other_protocol sniffed) ro now_ms (sr_dns_framing sr);
              f2 = (if at_cap then snd (skip_inside_message key seq (pp_payload p) ro now_ms f1) else f1)
          in sr\<lparr>sr_dns_framing := f2,
                sr_segments := (if sniffed = Undecided \<and> covers_first_message key base_seq prefix f2
                                then tr_finish key status (sr_segments sr) else sr_segments sr)\<rparr>)"

text \<open>The segment goes through the overlap-protected buffer of its direction.\<close>

definition sniff_buffered ::
  "(rstring \<Rightarrow> rstring) \<Rightarrow> parsed_packet \<Rightarrow> tcp_stream_key \<Rightarrow> u32 \<Rightarrow> nat \<Rightarrow> stream_reassembler
    \<Rightarrow> sniff_outcome \<times> stream_reassembler" where
  "sniff_buffered md5_hex p key seq now_ms sr =
     (let declared = pp_ip_declared_payload_len p - pp_transport_header_len p;
          (fed, segs) = tr_feed key seq (pp_payload p) declared now_ms (sr_segments sr);
          sr1 = sr\<lparr>sr_segments := segs\<rparr>
      in case fed of
           None \<Rightarrow>
             (no_outcome,
              if packet_dns_tcp p
              then sr1\<lparr>sr_dns_framing :=
                     note_consumed key seq (pp_payload p) (packet_response_only p) now_ms (sr_dns_framing sr1)\<rparr>
              else sr1)
         | Some raw_status \<Rightarrow>
             let status = attribute sr1 raw_status now_ms;
                 sniffed = sniff_bytes md5_hex p (tr_prefix key (sr_segments sr1));
                 sr2 = (if packet_dns_tcp p then dns_after_feed p key seq now_ms sniffed status sr1 else sr1);
                 sr3 = (case sniffed of
                          Decided _ \<Rightarrow> sr2\<lparr>sr_segments := tr_finish key status (sr_segments sr2)\<rparr>
                        | _ \<Rightarrow> sr2)
             in (outcome_of (Some status) sniffed, sr3))"

definition sniff_segment ::
  "(rstring \<Rightarrow> rstring) \<Rightarrow> parsed_packet \<Rightarrow> flow_ref \<Rightarrow> nat \<Rightarrow> stream_reassembler
    \<Rightarrow> sniff_outcome \<times> stream_reassembler" where
  "sniff_segment md5_hex p flow now_ms sr0 =
     (let target = stream_target p flow;
          (skipped, sr) = dns_screen p target now_ms sr0
      in if skipped then (no_outcome, sr)
         else let own = sniff_bytes md5_hex p (pp_payload p)
              in case target of
                   None \<Rightarrow> (outcome_of None own, sr)
                 | Some (key, seq) \<Rightarrow>
                     (case own of
                        Decided info \<Rightarrow>
                          if \<not> tr_has_buffer key (sr_segments sr) then
                            (outcome_of None own,
                             if packet_dns_tcp p
                             then sr\<lparr>sr_dns_framing :=
                                    record_message key seq (pp_payload p) (\<not> is_dns_info info)
                                      (packet_response_only p) now_ms (sr_dns_framing sr)\<rparr>
                             else sr)
                          else sniff_buffered md5_hex p key seq now_ms sr
                      | _ \<Rightarrow> sniff_buffered md5_hex p key seq now_ms sr))"

section \<open>Sniffing a frame\<close>

definition combined_status ::
  "reassembly_status \<Rightarrow> reassembly_status option \<Rightarrow> reassembly_status option" where
  "combined_status status tcp_status =
     (if status \<noteq> Reassembled then Some status else or_else tcp_status (Some status))"

text \<open>
  A fragment that completes its datagram sends the rebuilt packet through the function again;
  \<^const>\<open>None\<close> would be a chain of rebuilt datagrams that are fragments themselves.
\<close>

partial_function (option) sniff_inner ::
  "'h ipv4_codec \<Rightarrow> etherparse \<Rightarrow> (rstring \<Rightarrow> rstring) \<Rightarrow> (parsed_packet \<Rightarrow> flow_ref)
    \<Rightarrow> parsed_packet \<Rightarrow> flow_ref \<Rightarrow> nat \<Rightarrow> stream_reassembler
    \<Rightarrow> (sniff_outcome \<times> stream_reassembler) option" where
  "sniff_inner cd ep md5_hex resolve_flow p flow now_ms sr =
     (if pp_ip_fragment p \<noteq> None then
        (case fr_feed cd p now_ms (sr_fragments sr) of
           (None, frags) \<Rightarrow> Some (no_outcome, sr\<lparr>sr_fragments := frags\<rparr>)
         | (Some datagram, frags) \<Rightarrow>
             let sr1 = sr\<lparr>sr_fragments := frags\<rparr>;
                 status = attribute sr1 (rd_status datagram) now_ms
             in case parse_packet ep (rd_bytes datagram) RawIp of
                  None \<Rightarrow> Some (no_outcome\<lparr>so_status := combined_status status None\<rparr>, sr1)
                | Some rejoined \<Rightarrow>
                    Option.bind (sniff_inner cd ep md5_hex resolve_flow rejoined (resolve_flow rejoined) now_ms sr1)
                      (\<lambda>(tcp_outcome, sr2).
                         Some (\<lparr>so_info = so_info tcp_outcome,
                                so_status = combined_status status (so_status tcp_outcome),
                                so_need_more_bytes = so_need_more_bytes tcp_outcome,
                                so_reassembled_packet = Some rejoined\<rparr>, sr2)))
      else Some (sniff_segment md5_hex p flow now_ms sr))"

definition sniff_with_flow_resolver ::
  "'h ipv4_codec \<Rightarrow> etherparse \<Rightarrow> (rstring \<Rightarrow> rstring) \<Rightarrow> parsed_packet \<Rightarrow> flow_ref \<Rightarrow> nat
    \<Rightarrow> (parsed_packet \<Rightarrow> flow_ref) \<Rightarrow> stream_reassembler \<Rightarrow> (sniff_outcome \<times> stream_reassembler) option" where
  "sniff_with_flow_resolver cd ep md5_hex p flow now_ms resolve_flow sr =
     sniff_inner cd ep md5_hex resolve_flow p flow now_ms sr"

definition sniff ::
  "'h ipv4_codec \<Rightarrow> etherparse \<Rightarrow> (rstring \<Rightarrow> rstring) \<Rightarrow> parsed_packet \<Rightarrow> flow_ref \<Rightarrow> nat
    \<Rightarrow> stream_reassembler \<Rightarrow> (sniff_outcome \<times> stream_reassembler) option" where
  "sniff cd ep md5_hex p flow now_ms sr =
     sniff_with_flow_resolver cd ep md5_hex p flow now_ms (\<lambda>_. None) sr"

section \<open>Invariant\<close>

definition sr_inv :: "stream_reassembler \<Rightarrow> bool" where
  "sr_inv sr \<longleftrightarrow> frag_inv (sr_fragments sr) \<and> tcp_inv (sr_segments sr) \<and> framing_ok (sr_dns_framing sr)"

definition packet_bounds :: "parsed_packet \<Rightarrow> bool" where
  "packet_bounds p \<longleftrightarrow> frag_packet_ok p \<and> length (pp_payload p) < 2 ^ 63"

text \<open>The parser hands out slices of addressable memory and 32-bit lengths.\<close>

definition parser_bounds :: "etherparse \<Rightarrow> bool" where
  "parser_bounds ep \<longleftrightarrow> (\<forall>bytes p. parse_packet ep bytes RawIp = Some p \<longrightarrow> packet_bounds p)"

lemma sr_inv_new: "sr_inv stream_reassembler_new"
  by (simp add: sr_inv_def stream_reassembler_new_def frag_inv_new tcp_inv_new)

lemma sr_inv_reset: "sr_inv (sr_reset sr)"
  by (simp add: sr_inv_def sr_reset_def fr_clear_inv tr_clear_inv framing_ok_def)

lemma sr_inv_note_cut: "sr_inv sr \<Longrightarrow> sr_inv (note_frame_cut_at_snaplen t sr)"
  by (simp add: sr_inv_def note_frame_cut_at_snaplen_def)

lemma sr_inv_maybe_evict: "sr_inv sr \<Longrightarrow> sr_inv (maybe_evict cd t sr)"
  by (simp add: sr_inv_def maybe_evict_def fr_evict_stale_inv tr_evict_stale_inv framing_ok_evict)

lemma sr_inv_drop_flow: "sr_inv sr \<Longrightarrow> sr_inv (sr_drop_flow fl sr)"
  by (simp add: sr_inv_def sr_drop_flow_def tr_drop_flow_inv framing_ok_drop_flow)

lemma sr_inv_dns_screen: "sr_inv sr \<Longrightarrow> sr_inv (snd (dns_screen p tgt t sr))"
  by (auto simp: sr_inv_def dns_screen_def case_prod_unfold Let_def framing_ok_forget framing_ok_skip split: option.split)

lemma sr_inv_dns_after_feed: "sr_inv sr \<Longrightarrow> sr_inv (dns_after_feed p k s t sn st sr)"
  by (simp add: sr_inv_def dns_after_feed_def Let_def framing_ok_message framing_ok_skip tr_finish_inv split: option.split)

lemma sr_inv_finish: "sr_inv sr \<Longrightarrow> sr_inv (sr\<lparr>sr_segments := tr_finish k st (sr_segments sr)\<rparr>)"
  by (simp add: sr_inv_def tr_finish_inv)

lemma sr_inv_sniff_buffered:
  assumes "sr_inv sr" and "length (pp_payload p) < 2 ^ 63"
  shows "sr_inv (snd (sniff_buffered md5_hex p key seq t sr))"
proof -
  let ?d = "pp_ip_declared_payload_len p - pp_transport_header_len p"
  obtain fed segs where fed: "tr_feed key seq (pp_payload p) ?d t (sr_segments sr) = (fed, segs)"
    by (meson surj_pair)
  have "tcp_inv (snd (tr_feed key seq (pp_payload p) ?d t (sr_segments sr)))"
    using assms by (intro tr_feed_inv) (simp_all add: sr_inv_def)
  then have inv: "sr_inv (sr\<lparr>sr_segments := segs\<rparr>)"
    using assms(1) fed by (simp add: sr_inv_def)
  then show ?thesis
    using sr_inv_dns_after_feed [OF inv] sr_inv_finish [OF inv] sr_inv_finish [OF sr_inv_dns_after_feed [OF inv]]
    by (cases fed)
      (auto simp: sniff_buffered_def fed Let_def framing_ok_consumed sr_inv_def split: l7_sniff.split)
qed

lemma sr_inv_sniff_segment:
  assumes "sr_inv sr" and "length (pp_payload p) < 2 ^ 63"
  shows "sr_inv (snd (sniff_segment md5_hex p flow t sr))"
proof -
  obtain skipped sr1 where scr: "dns_screen p (stream_target p flow) t sr = (skipped, sr1)" by (meson surj_pair)
  have inv: "sr_inv sr1" using sr_inv_dns_screen [OF assms(1), of p "stream_target p flow" t] scr by simp
  moreover have "sr_inv (sr1\<lparr>sr_dns_framing := record_message k s bs op ro t (sr_dns_framing sr1)\<rparr>)" for k s bs op ro
    using inv by (simp add: sr_inv_def framing_ok_message)
  ultimately show ?thesis
    using sr_inv_sniff_buffered [OF inv assms(2)]
    by (auto simp: sniff_segment_def scr Let_def split: option.split l7_sniff.split)
qed

lemma sr_inv_sniff_inner:
  assumes "sniff_inner cd ep md5_hex rf p flow t sr = Some out"
    and "sr_inv sr" "packet_bounds p" "parser_bounds ep"
  shows "sr_inv (snd out)"
proof -
  have "sr_inv sr \<longrightarrow> packet_bounds p \<longrightarrow> parser_bounds ep \<longrightarrow> sr_inv (snd out)"
  proof (rule sniff_inner.raw_induct [where P = "\<lambda>cd ep md5_hex rf p flow t sr out.
      sr_inv sr \<longrightarrow> packet_bounds p \<longrightarrow> parser_bounds ep \<longrightarrow> sr_inv (snd out)", OF _ assms(1)], intro impI, goal_cases)
    case (1 sniff_rec cd ep md5_hex rf p flow t sr out)
    note IH = 1(1) and body = 1(2) and pre = 1(3-5)
    show ?case
    proof (cases "pp_ip_fragment p")
      case None
      with body pre show ?thesis using sr_inv_sniff_segment by (auto simp: packet_bounds_def)
    next
      case (Some f)
      obtain d frags where fed: "fr_feed cd p t (sr_fragments sr) = (d, frags)" by (meson surj_pair)
      have "frag_inv (snd (fr_feed cd p t (sr_fragments sr)))"
        using pre by (intro fr_feed_inv) (simp_all add: sr_inv_def packet_bounds_def)
      then have inv: "sr_inv (sr\<lparr>sr_fragments := frags\<rparr>)" using pre(1) fed by (simp add: sr_inv_def)
      with body Some fed pre(3) show ?thesis
        by (auto simp: Let_def bind_eq_Some_conv parser_bounds_def split: option.splits dest!: IH)
    qed
  qed
  with assms show ?thesis by blast
qed

section \<open>Requests split across segments\<close>

text \<open>A captured TCP segment of the message, away from the ports with detectors of their own.\<close>

definition carries_segment :: "parsed_packet \<Rightarrow> u32 \<Rightarrow> byte list \<Rightarrow> bool" where
  "carries_segment p seq bytes \<longleftrightarrow>
     pp_ip_fragment p = None \<and> pp_protocol p = Tcp \<and> pp_seq p = Some seq \<and> pp_payload p = bytes
     \<and> pp_ip_declared_payload_len p - pp_transport_header_len p = length bytes
     \<and> pp_src_port p \<noteq> Some 53 \<and> pp_dst_port p \<noteq> Some 53 \<and> pp_dst_port p \<noteq> Some 443"

lemma sniff_unfragmented:
  "pp_ip_fragment p = None \<Longrightarrow> sniff_inner cd ep md5_hex rf p flow t sr = Some (sniff_segment md5_hex p flow t sr)"
  by (simp add: sniff_inner.simps)

lemma carries_not_dns:
  assumes "carries_segment p seq bytes"
  shows "\<not> packet_dns_tcp p" "sniff_bytes md5_hex p bs = sniff_l7_desegmenting md5_hex bs (pp_dst_port p)"
  using assms
  by (simp_all add: carries_segment_def packet_dns_tcp_def sniff_bytes_def sniff_for_transport_def is_dns_over_tcp_def)

text \<open>A segment that is undecided on its own, or that meets a buffer, goes through the buffer.\<close>

lemma sniff_segment_buffered:
  assumes "carries_segment p seq bytes"
    and "tr_has_buffer \<lparr>tsk_flow = fl, tsk_from_local = d\<rparr> (sr_segments sr)
      \<or> (\<forall>info. sniff_l7_desegmenting md5_hex bytes (pp_dst_port p) \<noteq> Decided info)"
  shows "sniff_segment md5_hex p (Some (fl, d)) t sr
    = sniff_buffered md5_hex p \<lparr>tsk_flow = fl, tsk_from_local = d\<rparr> seq t sr"
proof -
  have p: "pp_payload p = bytes" "pp_seq p = Some seq" "pp_protocol p = Tcp"
    using assms(1) by (simp_all add: carries_segment_def)
  show ?thesis
    using assms(2) carries_not_dns [OF assms(1)]
    by (auto simp: sniff_segment_def stream_target_def dns_screen_def p Let_def split: l7_sniff.split)
qed

lemma sniff_buffered_tracked:
  assumes "carries_segment p (isn + of_nat off) bytes"
    and "tr_feed key (isn + of_nat off) bytes (length bytes) t (sr_segments sr) = (Some st, segs)"
  shows "sniff_buffered md5_hex p key (isn + of_nat off) t sr =
    (let sniffed = sniff_l7_desegmenting md5_hex (tr_prefix key segs) (pp_dst_port p)
     in (outcome_of (Some (attribute sr st t)) sniffed,
         sr\<lparr>sr_segments := (case sniffed of Decided _ \<Rightarrow> tr_finish key (attribute sr st t) segs | _ \<Rightarrow> segs)\<rparr>))"
proof -
  have p: "pp_payload p = bytes" "pp_ip_declared_payload_len p - pp_transport_header_len p = length bytes"
    using assms(1) by (simp_all add: carries_segment_def)
  have "attribute (sr\<lparr>sr_segments := segs\<rparr>) st t = attribute sr st t" by (simp add: attribute_def)
  then show ?thesis
    using assms(2) carries_not_dns [OF assms(1)]
    by (simp add: sniff_buffered_def p Let_def split: l7_sniff.split)
qed

text \<open>Nothing is buffered for the direction and the ceilings leave room for one more.\<close>

definition fresh_direction :: "tcp_stream_key \<Rightarrow> stream_reassembler \<Rightarrow> bool" where
  "fresh_direction key sr \<longleftrightarrow>
     map_of (tr_streams (sr_segments sr)) key = None
     \<and> length (tr_streams (sr_segments sr)) < max_tcp_streams
     \<and> tr_bytes_held (sr_segments sr) + 65552 \<le> max_tcp_bytes_total"

lemma fresh_direction_tracking:
  "sr_inv sr \<Longrightarrow> fresh_direction key sr \<Longrightarrow>
   tcp_tracking msg isn key t (tr_streams (sr_segments sr)) {} (sr_segments sr)"
  by (simp add: tcp_tracking_def fresh_direction_def sr_inv_def tcp_inv_def tcp_ok_def tr.balanced_def)

lemma prefix_tracked:
  "map_of (tr_streams r) key = Some st \<Longrightarrow> stream_tracks msg isn {..<n} st \<Longrightarrow> 0 < n \<Longrightarrow>
   n \<le> length msg \<Longrightarrow> length msg \<le> max_tcp_stream_bytes \<Longrightarrow> tr_prefix key r = take n msg"
  by (simp add: tr_prefix_def tracked_prefix)

lemma two_segments:
  assumes "tcp_tracking msg isn key t bs {} r" and "length msg \<le> max_tcp_stream_bytes" "0 < n" "n < length msg"
    and "t \<le> t'" "t' \<le> t + tcp_decision_window_ms"
    and "tr_feed key isn (take n msg) (length (take n msg)) t r = (fed1, r1)"
    and "tr_feed key (isn + of_nat n) (drop n msg) (length (drop n msg)) t' r1 = (fed2, r2)"
  shows "fed1 \<noteq> None \<and> tr_has_buffer key r1 \<and> tr_prefix key r1 = take n msg
    \<and> fed2 = Some Reassembled \<and> tr_has_buffer key r2 \<and> tr_prefix key r2 = msg"
proof -
  let ?p1 = "take n msg" and ?p2 = "drop n msg"
  have segs: "segment_of msg 0 ?p1" "segment_of msg n ?p2" using assms(3,4) by (auto simp: segment_of_def)
  have len: "{} \<union> {0..<0 + length ?p1} = {..<n}" "{..<n} \<union> {n..<n + length ?p2} = {..<length msg}"
    using assms(3,4) by auto
  have fresh: "\<not> {0..<0 + length ?p1} \<subseteq> {}" "\<not> {n..<n + length ?p2} \<subseteq> {..<n}"
    using assms(3,4) by (auto simp: subset_iff)
  have fed1: "tr_feed key (isn + of_nat 0) ?p1 (length ?p1) t r = (fed1, r1)" using assms(7) by simp
  obtain st1 where track1: "tcp_tracking msg isn key t bs {..<n} r1"
    and st1: "map_of (tr_streams r1) key = Some st1" "stream_tracks msg isn {..<n} st1" "fed1 = Some (ts_status st1)"
    using tcp_tracking_step [OF assms(1) order_refl le_add1 segs(1) assms(2) fed1, unfolded len(1)] fresh(1) by metis
  obtain st2 where st2: "map_of (tr_streams r2) key = Some st2" "stream_tracks msg isn {..<length msg} st2"
      "fed2 = Some (ts_status st2)"
    using tcp_tracking_step [OF track1 assms(5,6) segs(2) assms(2,8), unfolded len(2)] fresh(2) by metis
  have ne: "msg \<noteq> []" using assms(4) by auto
  then have "ts_status st2 = Reassembled" using tracked_status [OF st2(2)] assms(2) by auto
  then show ?thesis
    using prefix_tracked [OF st1(1,2)] prefix_tracked [OF st2(1,2)] assms(2,3,4) st1(1,3) st2(1,3) ne
    by (simp add: tr_has_buffer_def)
qed

text \<open>
  C1: A request cut anywhere in its start line and sent in two segments, whose sequence numbers
  may wrap between them, is recognised from the reassembled bytes: the first segment reports that
  more bytes are needed and no application data, the second the method and the whole path, with
  the buffer complete, whatever the second segment would look like on its own; nothing stays
  buffered.
\<close>

theorem split_http_request_decodes:
  assumes "request_ok meth path proto" and "msg = request_line meth path proto @ [0x0D, 0x0A] @ rest"
    and "length msg \<le> max_tcp_stream_bytes"
    and "0 < n" "n \<le> length (request_line meth path proto) + 1" "n \<le> max_start_line_probe"
    and "carries_segment p1 isn (take n msg)" "carries_segment p2 (isn + of_nat n) (drop n msg)"
    and "sr_inv sr" "fresh_direction \<lparr>tsk_flow = fl, tsk_from_local = d\<rparr> sr"
    and "t \<le> t'" "t' \<le> t + tcp_decision_window_ms"
  shows "\<exists>out sr1 sr2.
    sniff cd ep md5_hex p1 (Some (fl, d)) t sr = Some (out, sr1)
    \<and> so_info out = L7None \<and> so_need_more_bytes out = Some 1
    \<and> sniff cd ep md5_hex p2 (Some (fl, d)) t' sr1 =
        Some (no_outcome\<lparr>so_info := Http meth path, so_status := Some Reassembled\<rparr>, sr2)
    \<and> \<not> tr_has_buffer \<lparr>tsk_flow = fl, tsk_from_local = d\<rparr> (sr_segments sr2)"
proof -
  let ?key = "\<lparr>tsk_flow = fl, tsk_from_local = d\<rparr>" and ?p1 = "take n msg" and ?p2 = "drop n msg"
  have n: "n < length msg" using assms(2,5) by simp
  have take_n: "?p1 = take n (request_line meth path proto @ [0x0D])"
    using assms(2,5) by (simp add: take_Cons' le_diff_conv)
  have first: "sniff_l7_desegmenting md5_hex ?p1 (pp_dst_port p1) = NeedMoreBytes 1"
    and whole: "sniff_l7_desegmenting md5_hex msg (pp_dst_port p2) = Decided (Http meth path)"
    using partial_request_needs_more [OF assms(1) _ _ assms(4,6), of "pp_dst_port p1" md5_hex]
      whole_request_decides [OF assms(1), of "pp_dst_port p2" md5_hex rest] assms(2,7,8) take_n
    by (simp_all add: carries_segment_def)
  obtain fed1 r1 where fed1: "tr_feed ?key isn ?p1 (length ?p1) t (sr_segments sr) = (fed1, r1)"
    by (meson surj_pair)
  obtain fed2 r2 where fed2: "tr_feed ?key (isn + of_nat n) ?p2 (length ?p2) t' r1 = (fed2, r2)"
    by (meson surj_pair)
  note two = two_segments [OF fresh_direction_tracking [OF assms(9,10)] assms(3,4) n assms(11,12) fed1 fed2]
  then obtain st1 where st1: "fed1 = Some st1" by blast
  let ?sr1 = "sr\<lparr>sr_segments := r1\<rparr>" and ?fin = "tr_finish ?key Reassembled r2"
  have step1: "sniff_segment md5_hex p1 (Some (fl, d)) t sr
      = (outcome_of (Some (attribute sr st1 t)) (NeedMoreBytes 1), ?sr1)"
    using sniff_buffered_tracked [of p1 isn 0 ?p1 ?key t sr st1 r1 md5_hex] assms(7) fed1 st1 first two
    by (subst sniff_segment_buffered [OF assms(7)]) simp_all
  have step2: "sniff_segment md5_hex p2 (Some (fl, d)) t' ?sr1
      = (outcome_of (Some Reassembled) (Decided (Http meth path)), ?sr1\<lparr>sr_segments := ?fin\<rparr>)"
    using sniff_buffered_tracked [OF assms(8), of ?key t' ?sr1 Reassembled r2 md5_hex] fed2 two whole
    by (subst sniff_segment_buffered [OF assms(8)]) (simp_all add: attribute_def)
  have "\<not> tr_has_buffer ?key ?fin"
    by (simp add: tr_has_buffer_def tr_finish_def tr_remove_def split: option.split)
  then show ?thesis
    using step1 step2 assms(7,8)
    by (simp add: sniff_def sniff_with_flow_resolver_def sniff_unfragmented carries_segment_def no_outcome_def)
qed

section \<open>Decisions rest on first-seen bytes\<close>

lemma sniff_bytes_empty: "sniff_bytes md5_hex p [] \<noteq> Decided info"
proof -
  have none: "sniff_http [] = None" "sniff_http_response [] = None" "sniff_dns [] = None"
    "sniff_tls_client_hello md5_hex [] = None"
    using sniff_http_needs_line [of "[]"] sniff_dns_needs_zero [of "[]"]
    by (simp_all add: sniff_tls_client_hello_def)
  have "need_or_undecided [] \<noteq> Decided info" by (simp add: need_or_undecided_def split: option.split)
  then show ?thesis
    by (simp add: sniff_bytes_def sniff_for_transport_def sniff_l7_desegmenting_def sniff_dns_tcp_def none Let_def
        split: option.split l7_sniff.split)
qed

lemma outcome_of_info: "so_info (outcome_of st sn) \<noteq> L7None \<Longrightarrow> sn = Decided (so_info (outcome_of st sn))"
  by (cases sn) (simp_all add: no_outcome_def)

lemma sniff_buffered_info:
  assumes "sniff_buffered md5_hex p key seq t sr = (out, sr')" and "so_info out \<noteq> L7None"
  obtains declared status r' where "tr_feed key seq (pp_payload p) declared t (sr_segments sr) = (Some status, r')"
    "sniff_bytes md5_hex p (tr_prefix key r') = Decided (so_info out)"
proof -
  let ?declared = "pp_ip_declared_payload_len p - pp_transport_header_len p"
  obtain fed r' where fed: "tr_feed key seq (pp_payload p) ?declared t (sr_segments sr) = (fed, r')" by (meson surj_pair)
  show thesis
  proof (cases fed)
    case None
    with assms show thesis by (auto simp: sniff_buffered_def fed Let_def no_outcome_def)
  next
    case (Some status)
    then have "out = outcome_of (Some (attribute (sr\<lparr>sr_segments := r'\<rparr>) status t)) (sniff_bytes md5_hex p (tr_prefix key r'))"
      using assms(1) by (simp add: sniff_buffered_def fed Let_def)
    with Some fed outcome_of_info assms(2) that show thesis by metis
  qed
qed

lemma sniff_segment_of_buffered_direction:
  assumes "stream_target p flow = Some (key, seq)" and "tr_has_buffer key (sr_segments sr)"
  shows "\<exists>sr1. sr_segments sr1 = sr_segments sr
    \<and> sniff_segment md5_hex p flow t sr = sniff_buffered md5_hex p key seq t sr1"
proof -
  have "\<not> fst (dns_screen p (Some (key, seq)) t sr)"
    "sr_segments (snd (dns_screen p (Some (key, seq)) t sr)) = sr_segments sr"
    using assms(2) by (simp_all add: dns_screen_def)
  then obtain sr1 where scr: "dns_screen p (Some (key, seq)) t sr = (False, sr1)" "sr_segments sr1 = sr_segments sr"
    by (metis (full_types) prod.collapse)
  then have "sniff_segment md5_hex p flow t sr = sniff_buffered md5_hex p key seq t sr1"
    using assms by (simp add: sniff_segment_def Let_def split: l7_sniff.split)
  with scr(2) show ?thesis by blast
qed

text \<open>
  C2: While a direction holds bytes, what a further segment makes the sniffer report is decided
  from the merged buffer, never from the segment alone: every byte of the decided prefix is the one
  seen first at its sequence number, and this segment's only where nothing was held.
\<close>

theorem decision_from_first_seen_bytes:
  assumes "sr_inv sr" and "pp_ip_fragment p = None" and "length (pp_payload p) < 2 ^ 63"
    and "stream_target p flow = Some (key, seq)" and "map_of (tr_streams (sr_segments sr)) key = Some st"
    and "\<not> ts_is_idle st t" "t - ts_first_seen_ms st \<le> tcp_decision_window_ms"
    and "sniff_inner cd ep md5_hex rf p flow t sr = Some (out, sr')" "so_info out \<noteq> L7None"
  shows "\<exists>prefix base. sniff_bytes md5_hex p prefix = Decided (so_info out)
    \<and> (\<forall>i < length prefix.
         Some (prefix ! i) = (segment_bytes seq (pp_payload p) ++ stream_bytes st) (base + of_nat i))"
proof -
  obtain sr1 where sr1: "sr_segments sr1 = sr_segments sr"
    "sniff_buffered md5_hex p key seq t sr1 = (out, sr')"
    using sniff_segment_of_buffered_direction [OF assms(4), of sr md5_hex t] assms(2,5,8)
    by (auto simp: sniff_unfragmented tr_has_buffer_def)
  from sniff_buffered_info [OF sr1(2) assms(9)] obtain declared status r'
    where fed: "tr_feed key seq (pp_payload p) declared t (sr_segments sr) = (Some status, r')"
      and dec: "sniff_bytes md5_hex p (tr_prefix key r') = Decided (so_info out)"
    unfolding sr1(1) by blast
  have "tr_prefix key r' \<noteq> []" using dec sniff_bytes_empty [of md5_hex p "so_info out"] by auto
  then obtain st' where st': "map_of (tr_streams r') key = Some st'"
    by (auto simp: tr_prefix_def split: option.splits)
  have "tcp_inv (sr_segments sr)" using assms(1) by (simp add: sr_inv_def)
  note merged = feed_merges [OF this assms(3,5-7) fed st']
  have "Some (tr_prefix key r' ! i) = (segment_bytes seq (pp_payload p) ++ stream_bytes st) (ts_base_seq st' + of_nat i)"
    if "i < length (tr_prefix key r')" for i
    using prefix_stream_bytes [OF _ st' that] merged by (metis domI map_le_def)
  with dec show ?thesis by blast
qed

section \<open>The recursion over rebuilt datagrams ends\<close>

text \<open>
  What the fragment path relies on from etherparse, for the two fields of a header that mark a fragment:
  setting one of them sets it and leaves the other alone, the other setters leave both alone, and a header
  that is written is sliced again with the values it has.
\<close>

definition fragment_fields :: "'h ipv4_codec \<Rightarrow> etherparse \<Rightarrow> ('h \<Rightarrow> bool) \<Rightarrow> ('h \<Rightarrow> nat) \<Rightarrow> bool" where
  "fragment_fields cd ep more_of offset_of \<longleftrightarrow>
     (\<forall>b h. more_of (ch_set_more_fragments cd b h) = b \<and> offset_of (ch_set_more_fragments cd b h) = offset_of h) \<and>
     (\<forall>n h h'. ch_set_fragment_offset cd n h = Some h' \<longrightarrow> offset_of h' = n \<and> more_of h' = more_of h) \<and>
     (\<forall>n h h'. ch_set_payload_len cd n h = Some h' \<longrightarrow> offset_of h' = offset_of h \<and> more_of h' = more_of h) \<and>
     (\<forall>h. offset_of (ch_refresh_checksum cd h) = offset_of h \<and> more_of (ch_refresh_checksum cd h) = more_of h) \<and>
     (\<forall>h out payload sliced. ch_write cd h = Some out \<longrightarrow> ep_from_ip ep (out @ payload) = Some sliced \<longrightarrow>
        (\<exists>s. sl_net sliced = Some (Ipv4Net s) \<and> v4_more_fragments s = more_of h \<and> v4_fragments_offset s = offset_of h))"

lemma rebuilt_not_fragment:
  assumes "fragment_fields cd ep more_of offset_of" "rebuild_ipv4_datagram cd header payload = Some bytes"
    and "parse_packet ep bytes RawIp = Some p"
  shows "pp_ip_fragment p = None"
proof -
  have set_more: "more_of (ch_set_more_fragments cd b h) = b" for b h using assms(1) by (simp add: fragment_fields_def)
  have set_offset: "ch_set_fragment_offset cd n h = Some h' \<Longrightarrow> offset_of h' = n \<and> more_of h' = more_of h" for n h h'
    using assms(1) by (simp add: fragment_fields_def)
  have others: "ch_set_payload_len cd n h = Some h' \<Longrightarrow> offset_of h' = offset_of h \<and> more_of h' = more_of h"
    "offset_of (ch_refresh_checksum cd h) = offset_of h" "more_of (ch_refresh_checksum cd h) = more_of h" for n h h'
    using assms(1) by (simp_all add: fragment_fields_def)
  have written: "ch_write cd h = Some out \<Longrightarrow> ep_from_ip ep (out @ payload) = Some sliced \<Longrightarrow>
      \<exists>s. sl_net sliced = Some (Ipv4Net s) \<and> v4_more_fragments s = more_of h \<and> v4_fragments_offset s = offset_of h" for h out sliced
    using assms(1) by (simp add: fragment_fields_def)
  obtain h0 h1 h2 out where steps: "ch_set_fragment_offset cd 0 (ch_set_more_fragments cd False h0) = Some h1"
    "ch_set_payload_len cd (length payload) h1 = Some h2" "ch_write cd (ch_refresh_checksum cd h2) = Some out" "bytes = out @ payload"
    using assms(2) by (auto simp: rebuild_ipv4_datagram_def bind_eq_Some_conv)
  have cleared: "more_of (ch_refresh_checksum cd h2) = False" "offset_of (ch_refresh_checksum cd h2) = 0"
    using set_more [of False h0] set_offset [OF steps(1)] others(1) [OF steps(2)] by (simp_all add: others(2,3))
  obtain sliced where sliced: "ep_from_ip ep (out @ payload) = Some sliced" "build_parsed_packet sliced no_mac no_mac None bytes = Some p"
    using assms(3) steps(4) by (auto simp: parse_packet_Some parse_packet_result_def parse_ip_def ok_or_def split: option.splits)
  obtain s where "sl_net sliced = Some (Ipv4Net s)" "v4_more_fragments s = False" "v4_fragments_offset s = 0"
    using written [OF steps(3) sliced(1)] cleared by auto
  then show ?thesis using build_parsed_packet_not_fragment [OF sliced(2)] by blast
qed

lemma sniff_segment_no_packet: "so_reassembled_packet (fst (sniff_segment md5_hex p flow t sr)) = None"
proof -
  have oc: "so_reassembled_packet (outcome_of st sn) = None" "so_reassembled_packet no_outcome = None" for st sn
    by (cases sn; simp add: no_outcome_def)+
  have "so_reassembled_packet (fst (sniff_buffered md5_hex p key seq t sr)) = None" for key seq sr
    by (simp add: sniff_buffered_def Let_def oc split: prod.split option.split)
  then show ?thesis
    by (simp add: sniff_segment_def Let_def oc split: prod.split option.split l7_sniff.split)
qed

lemma take_group_rebuilt:
  "fst (take_group cd k st r) = Some dg \<Longrightarrow> \<exists>h pl. rebuild_ipv4_datagram cd h pl = Some (rd_bytes dg)"
  by (auto simp: take_group_def Let_def bind_eq_Some_conv split: option.splits) blast+

lemma fr_feed_rebuilt:
  assumes "fr_feed cd p t r = (Some dg, r')"
  shows "\<exists>h pl. rebuild_ipv4_datagram cd h pl = Some (rd_bytes dg)"
proof -
  have "fst (frag_emit cd k st c r0) = Some dg \<Longrightarrow> \<exists>h pl. rebuild_ipv4_datagram cd h pl = Some (rd_bytes dg)"
    for k st c r0
    by (cases st) (auto simp: frag_emit_def dest: take_group_rebuilt)
  with assms show ?thesis
    by (auto simp: fr_feed_def fr_feed_fragment_def Let_def split: option.splits if_splits prod.splits)
      (metis fst_conv)
qed

text \<open>
  What sniffing a frame comes to, without recursion: a frame that is no fragment is a segment; a fragment
  is fed, and when it completes its datagram the rebuilt packet is a segment, with the flow the resolver
  gives it, in the state after the fragment, and the datagram's status joins that of the segment.
\<close>

definition sniff_once ::
  "'h ipv4_codec \<Rightarrow> etherparse \<Rightarrow> (rstring \<Rightarrow> rstring) \<Rightarrow> parsed_packet \<Rightarrow> flow_ref \<Rightarrow> nat
    \<Rightarrow> (parsed_packet \<Rightarrow> flow_ref) \<Rightarrow> stream_reassembler \<Rightarrow> sniff_outcome \<times> stream_reassembler" where
  "sniff_once cd ep md5_hex p flow now_ms resolve_flow sr =
     (if pp_ip_fragment p = None then sniff_segment md5_hex p flow now_ms sr
      else
        let (emitted, frags) = fr_feed cd p now_ms (sr_fragments sr);
            sr1 = sr\<lparr>sr_fragments := frags\<rparr>
        in (case emitted of
              None \<Rightarrow> (no_outcome, sr1)
            | Some datagram \<Rightarrow>
                let status = attribute sr1 (rd_status datagram) now_ms
                in (case parse_packet ep (rd_bytes datagram) RawIp of
                      None \<Rightarrow> (no_outcome\<lparr>so_status := combined_status status None\<rparr>, sr1)
                    | Some rejoined \<Rightarrow>
                        let (seg, sr2) = sniff_segment md5_hex rejoined (resolve_flow rejoined) now_ms sr1
                        in (\<lparr>so_info = so_info seg, so_status = combined_status status (so_status seg),
                             so_need_more_bytes = so_need_more_bytes seg, so_reassembled_packet = Some rejoined\<rparr>, sr2))))"

text \<open>
  C31: Sniffing a frame always returns, whatever the state. Given only how etherparse sets, writes and reads
  the fragment fields of a header, a rebuilt packet is no fragment, because rebuilding clears both fields;
  so the recursion is one step deep, and what is reported and kept for the completing fragment is what the
  rebuilt packet gives as a segment of its own, once the fragment has been taken in.
\<close>

theorem sniff_returns:
  assumes "fragment_fields cd ep more_of offset_of"
  shows "sniff_with_flow_resolver cd ep md5_hex p flow t rf sr = Some (sniff_once cd ep md5_hex p flow t rf sr)
    \<and> (\<forall>q. so_reassembled_packet (fst (sniff_once cd ep md5_hex p flow t rf sr)) = Some q \<longrightarrow>
         pp_ip_fragment p \<noteq> None \<and> pp_ip_fragment q = None)"
proof (cases "pp_ip_fragment p")
  case None
  with sniff_segment_no_packet [of md5_hex p flow t sr] show ?thesis
    by (simp add: sniff_with_flow_resolver_def sniff_unfragmented sniff_once_def)
next
  case (Some f)
  obtain dg frags where fed: "fr_feed cd p t (sr_fragments sr) = (dg, frags)" by (meson surj_pair)
  show ?thesis
  proof (cases "Option.bind dg (\<lambda>dg. parse_packet ep (rd_bytes dg) RawIp)")
    case none: None
    with Some fed show ?thesis
      by (cases dg) (simp_all add: sniff_with_flow_resolver_def sniff_inner.simps sniff_once_def no_outcome_def Let_def)
  next
    case q: (Some q)
    then obtain d where d: "dg = Some d" "parse_packet ep (rd_bytes d) RawIp = Some q" by (auto simp: bind_eq_Some_conv)
    obtain h pl where "rebuild_ipv4_datagram cd h pl = Some (rd_bytes d)" using fr_feed_rebuilt fed d(1) by blast
    then have unfrag: "pp_ip_fragment q = None" using rebuilt_not_fragment [OF assms _ d(2)] by blast
    obtain seg sr2 where seg: "sniff_segment md5_hex q (rf q) t (sr\<lparr>sr_fragments := frags\<rparr>) = (seg, sr2)"
      by (meson surj_pair)
    show ?thesis
      using Some d unfrag seg fed
      by (subst sniff_with_flow_resolver_def, subst sniff_inner.simps) (auto simp: sniff_unfragmented sniff_once_def Let_def)
  qed
qed

section \<open>Reachable states\<close>

inductive sr_reachable :: "'h ipv4_codec \<Rightarrow> etherparse \<Rightarrow> (rstring \<Rightarrow> rstring) \<Rightarrow> stream_reassembler \<Rightarrow> bool"
  for cd ep md5_hex where
  start: "sr_reachable cd ep md5_hex stream_reassembler_new"
| sniffed: "sr_reachable cd ep md5_hex sr \<Longrightarrow> packet_bounds p \<Longrightarrow>
    sniff_with_flow_resolver cd ep md5_hex p flow t rf sr = Some (out, sr') \<Longrightarrow> sr_reachable cd ep md5_hex sr'"
| noted: "sr_reachable cd ep md5_hex sr \<Longrightarrow> sr_reachable cd ep md5_hex (note_frame_cut_at_snaplen t sr)"
| evicted: "sr_reachable cd ep md5_hex sr \<Longrightarrow> sr_reachable cd ep md5_hex (maybe_evict cd t sr)"
| dropped: "sr_reachable cd ep md5_hex sr \<Longrightarrow> sr_reachable cd ep md5_hex (sr_drop_flow fl sr)"
| reset: "sr_reachable cd ep md5_hex sr \<Longrightarrow> sr_reachable cd ep md5_hex (sr_reset sr)"

lemma sr_reachable_inv:
  assumes "sr_reachable cd ep md5_hex sr" and "parser_bounds ep"
  shows "sr_inv sr"
  using assms(1)
proof (induction rule: sr_reachable.induct)
  case (sniffed sr p flow t rf out sr')
  then show ?case
    using sr_inv_sniff_inner [of cd ep md5_hex rf p flow t sr "(out, sr')"] assms(2)
    by (simp add: sniff_with_flow_resolver_def)
qed (simp_all add: sr_inv_new sr_inv_note_cut sr_inv_maybe_evict sr_inv_drop_flow sr_inv_reset)

text \<open>
  C30: Whatever frames arrive, in whatever order with evictions, dropped flows, snap-length cuts and
  resets, the memory of the whole reassembler stays within the documented ceilings: the accounted
  bytes of both reassemblers together, and the number of recorded DNS boundaries.
\<close>

theorem reassembly_memory_bounded:
  assumes "sr_reachable cd ep md5_hex sr" and "parser_bounds ep"
  shows "sr_bytes_held sr \<le> max_fragment_bytes_total + max_tcp_bytes_total
    \<and> dns_framing_len sr \<le> max_tcp_streams"
  using sr_reachable_inv [OF assms]
  by (simp add: sr_inv_def sr_bytes_held_def dns_framing_len_def frag_inv_def fr_within_def tcp_inv_def tr_within_def
      framing_ok_def add_mono)

section \<open>Witnesses\<close>

text \<open>A parser that reads every datagram as a UDP packet with at most a hundred bytes of payload.\<close>

definition demo_ep :: etherparse where
  "demo_ep = \<lparr>ep_from_ethernet = (\<lambda>_. None),
     ep_from_ip = (\<lambda>bytes. Some \<lparr>sl_link = None, sl_link_exts = [],
       sl_net = Some (Ipv6Net \<lparr>v6_header = [], v6_extensions = [], v6_payload_length = 8, v6_source = replicate 16 0,
         v6_destination = replicate 16 0, v6_hop_limit = 1\<rparr>),
       sl_transport = Some (UdpTransport \<lparr>us_source_port = 1, us_destination_port = 2,
         us_payload = take 100 bytes, us_header = []\<rparr>),
       sl_payload_ether_type = None, sl_ether_payload = None\<rparr>)\<rparr>"

definition demo_segment :: "u32 \<Rightarrow> byte list \<Rightarrow> parsed_packet" where
  "demo_segment seq bytes =
     (demo_packet (lit ''h'') 4000 (lit ''r'') 80)\<lparr>pp_seq := Some seq, pp_payload := bytes,
        pp_ip_declared_payload_len := 20 + length bytes\<rparr>"

lemma demo_ep_parse:
  assumes "parse_packet demo_ep bytes RawIp = Some p"
  shows "pp_ip_fragment p = None" and "packet_bounds p"
  using assms
  by (auto simp: parse_packet_def parse_packet_result_def parse_ip_def demo_ep_def ok_or_def build_parsed_packet_def
      ipv6_view_def packet_bounds_def frag_packet_ok_def Let_def u32_cast_def)

lemma demo_ep_ok: "parser_bounds demo_ep"
  using demo_ep_parse by (auto simp: parser_bounds_def)

text \<open>
  Headers of two bytes, the more-fragments bit and the offset. The datagram waits for its second half,
  with the header of its first half, which has the bit set.
\<close>

definition field_codec :: "(bool \<times> nat) ipv4_codec" where
  "field_codec = \<lparr>ch_from_slice = (\<lambda>bs. if length bs = 2 then Some (bs ! 0 \<noteq> 0, unat (bs ! 1)) else None),
     ch_set_more_fragments = (\<lambda>b (_, offset). (b, offset)), ch_set_fragment_offset = (\<lambda>n (b, _). Some (b, n)),
     ch_set_payload_len = (\<lambda>_. Some), ch_refresh_checksum = id,
     ch_write = (\<lambda>(b, offset). if offset < 256 then Some [if b then 1 else 0, of_nat offset] else None)\<rparr>"

definition field_ep :: etherparse where
  "field_ep = \<lparr>ep_from_ethernet = (\<lambda>_. None),
     ep_from_ip = (\<lambda>bytes. if length bytes < 2 then None else Some \<lparr>sl_link = None, sl_link_exts = [],
       sl_net = Some (Ipv4Net \<lparr>v4_header = take 2 bytes, v4_auth = None, v4_total_len = length bytes,
         v4_fragments_offset = unat (bytes ! 1), v4_more_fragments = (bytes ! 0 \<noteq> 0), v4_identification = 7,
         v4_protocol = 17, v4_source = [1, 1, 1, 1], v4_destination = [2, 2, 2, 2], v4_ttl = 1, v4_checksum = 0,
         v4_payload = drop 2 bytes\<rparr>),
       sl_transport = Some (UdpTransport \<lparr>us_source_port = 1, us_destination_port = 2, us_payload = drop 2 bytes, us_header = []\<rparr>),
       sl_payload_ether_type = None, sl_ether_payload = None\<rparr>)\<rparr>"

lemma field_codec_ok: "fragment_fields field_codec field_ep fst snd"
  by (auto simp: fragment_fields_def field_codec_def field_ep_def unat_of_nat split: if_splits)

definition half_datagram :: stream_reassembler where
  "half_datagram = stream_reassembler_new\<lparr>sr_fragments := demo_state\<lparr>fr_groups := [(demo_key, demo_group\<lparr>fg_header := Some [1, 0]\<rparr>)]\<rparr>\<rparr>"

theorem sniff_returns_witness:
  "\<exists>out sr' q. sniff_with_flow_resolver field_codec field_ep id (demo_fragment 8 [4, 5] False) None 6 (\<lambda>_. None) half_datagram
       = Some (out, sr')
     \<and> so_reassembled_packet out = Some q \<and> pp_payload q = [1, 2, 3, 3, 3, 3, 3, 3, 4, 5] \<and> pp_ip_fragment q = None"
proof -
  let ?once = "sniff_once field_codec field_ep id (demo_fragment 8 [4, 5] False) None 6 (\<lambda>_. None) half_datagram"
  have "map_option rd_bytes (fst (fr_feed field_codec (demo_fragment 8 [4, 5] False) 6 (sr_fragments half_datagram))) =
      Some [0, 0, 1, 2, 3, 3, 3, 3, 3, 3, 4, 5]"
    by (simp add: half_datagram_def demo_defs field_codec_def frag_eval take_group_def rebuild_ipv4_datagram_def slice_get_def vec_simps)
       (simp add: numeral_2_eq_2)
  then obtain dg frags where fed: "fr_feed field_codec (demo_fragment 8 [4, 5] False) 6 (sr_fragments half_datagram) = (Some dg, frags)"
    "rd_bytes dg = [0, 0, 1, 2, 3, 3, 3, 3, 3, 3, 4, 5]"
    by (cases "fr_feed field_codec (demo_fragment 8 [4, 5] False) 6 (sr_fragments half_datagram)") auto
  obtain q where q: "parse_packet field_ep (rd_bytes dg) RawIp = Some q" "pp_payload q = [1, 2, 3, 3, 3, 3, 3, 3, 4, 5]"
    by (simp add: fed(2) parse_packet_def parse_packet_result_def parse_ip_def field_ep_def ok_or_def build_parsed_packet_def Let_def)
  obtain f where f: "pp_ip_fragment (demo_fragment 8 [4, 5] False) = Some f" by (simp add: demo_fragment_def)
  have "so_reassembled_packet (fst ?once) = Some q"
    by (simp add: sniff_once_def f fed(1) q(1) Let_def split: prod.splits)
  then show ?thesis
    using sniff_returns [OF field_codec_ok, of id "demo_fragment 8 [4, 5] False" None 6 "\<lambda>_. None" half_datagram] q(2)
    by (metis prod.collapse)
qed

theorem reassembly_memory_bounded_witness:
  "sr_bytes_held (snd (sniff_segment id (demo_segment 10 [0x47]) (Some (demo_flow, True)) 0 stream_reassembler_new))
     \<le> max_fragment_bytes_total + max_tcp_bytes_total"
proof -
  let ?p = "demo_segment 10 [0x47]" and ?fl = "Some (demo_flow, True)"
  have p: "pp_ip_fragment ?p = None" "packet_bounds ?p"
    by (simp_all add: demo_segment_def demo_packet_def packet_bounds_def frag_packet_ok_def)
  obtain out sr' where s: "sniff_segment id ?p ?fl 0 stream_reassembler_new = (out, sr')" by (meson surj_pair)
  then have "sniff_with_flow_resolver demo_codec demo_ep id ?p ?fl 0 (\<lambda>_. None) stream_reassembler_new = Some (out, sr')"
    by (simp add: sniff_with_flow_resolver_def sniff_unfragmented p(1))
  from reassembly_memory_bounded [OF sr_reachable.sniffed [OF sr_reachable.start p(2) this] demo_ep_ok] s
  show ?thesis by simp
qed

definition demo_request :: "byte list" where
  "demo_request = request_line (lit ''GET'') (lit ''/a'') (lit ''HTTP/1.1'') @ [0x0D, 0x0A] @ []"

lemma demo_request_ok: "request_ok (lit ''GET'') (lit ''/a'') (lit ''HTTP/1.1'')"
  by (simp add: request_ok_def http_methods_def starts_with_def lit_def graphic_def printable_ascii_def)

theorem split_http_request_decodes_witness:
  "\<exists>out sr1 sr2.
     sniff demo_codec demo_ep id (demo_segment 0xFFFFFFFE (take 6 demo_request)) (Some (demo_flow, True)) 5 stream_reassembler_new
       = Some (out, sr1)
     \<and> so_info out = L7None \<and> so_need_more_bytes out = Some 1
     \<and> sniff demo_codec demo_ep id (demo_segment (0xFFFFFFFE + of_nat 6) (drop 6 demo_request)) (Some (demo_flow, True)) 9 sr1
       = Some (no_outcome\<lparr>so_info := Http (lit ''GET'') (lit ''/a''), so_status := Some Reassembled\<rparr>, sr2)
     \<and> \<not> tr_has_buffer \<lparr>tsk_flow = demo_flow, tsk_from_local = True\<rparr> (sr_segments sr2)"
  by (rule split_http_request_decodes [OF demo_request_ok demo_request_def, where n = 6 and isn = "0xFFFFFFFE"])
    (simp_all add: demo_request_def request_line_def lit_def max_tcp_stream_bytes_def max_start_line_probe_def
      carries_segment_def demo_segment_def demo_packet_def sr_inv_new fresh_direction_def stream_reassembler_new_def
      tcp_reassembler_new_def max_tcp_streams_def max_tcp_bytes_total_def tcp_decision_window_ms_def
      sr_inv_new [unfolded stream_reassembler_new_def tcp_reassembler_new_def])

text \<open>The direction holds the first six bytes of a request; a forged segment offers another path.\<close>

definition demo_held :: tcp_stream where
  "demo_held = \<lparr>ts_base_seq = 10, ts_data = \<lparr>elems = [0x47, 0x45, 0x54, 0x20, 0x2F, 0x61], capacity = 8\<rparr>,
     ts_filled = \<lparr>elems = [True, True, True, True, True, True], capacity = 8\<rparr>, ts_prefix_len = 6, ts_short_captured_at = None,
     ts_finished = False, ts_first_seen_ms = 0, ts_last_seen_ms = 0\<rparr>"

definition demo_sr :: stream_reassembler where
  "demo_sr = stream_reassembler_new\<lparr>sr_segments :=
     \<lparr>tr_streams = [(demo_stream_key, demo_held)], tr_bytes_held = 16, tr_counters = counters_zero\<rparr>\<rparr>"

definition forged_request :: "byte list" where
  "forged_request = request_line (lit ''GET'') (lit ''/b'') (lit ''HTTP/1.1'') @ [0x0D, 0x0A]"

lemmas demo_bytes = demo_request_def forged_request_def request_line_def lit_def

lemma demo_sr_inv: "sr_inv demo_sr"
  using sr_inv_new
  by (simp add: sr_inv_def demo_sr_def stream_reassembler_new_def demo_held_def tcp_inv_def tcp_ok_def tr.balanced_def
      tr_within_def stream_ok_def buffer_ok_def vec_ok_def held_prefix_len_def ts_accounted_bytes_def
      sat_add_def usize_max_def max_tcp_streams_def max_tcp_bytes_total_def max_tcp_stream_bytes_def)

lemma forged_feed:
  "\<exists>st r'. tr_feed demo_stream_key 10 forged_request 17 1 (sr_segments demo_sr) = (Some st, r')
    \<and> tr_prefix demo_stream_key r' = demo_request"
  by (simp add: tcp_eval demo_sr_def demo_held_def demo_bytes tr_prefix_def slice_get_def)

lemma forged_sniff:
  "\<exists>out sr'. sniff_inner demo_codec demo_ep id (\<lambda>_. None) (demo_segment 10 forged_request)
     (Some (demo_flow, True)) 1 demo_sr = Some (out, sr') \<and> so_info out = Http (lit ''GET'') (lit ''/a'')"
proof -
  let ?p = "demo_segment 10 forged_request"
  obtain st r' where fed: "tr_feed demo_stream_key 10 forged_request 17 1 (sr_segments demo_sr) = (Some st, r')"
    "tr_prefix demo_stream_key r' = demo_request" using forged_feed by blast
  have len: "length forged_request = 17" by (simp add: demo_bytes)
  have carries: "carries_segment ?p (10 + of_nat 0) forged_request"
    by (simp add: carries_segment_def demo_segment_def demo_packet_def)
  have buffered: "tr_has_buffer \<lparr>tsk_flow = demo_flow, tsk_from_local = True\<rparr> (sr_segments demo_sr)"
    by (simp add: tr_has_buffer_def demo_sr_def demo_stream_key_def)
  have dec: "sniff_l7_desegmenting id demo_request (pp_dst_port ?p) = Decided (Http (lit ''GET'') (lit ''/a''))"
    unfolding demo_request_def
    by (rule whole_request_decides [OF demo_request_ok]) (simp_all add: demo_segment_def demo_packet_def)
  show ?thesis
    using sniff_segment_buffered [OF carries, of demo_flow True demo_sr id 1] buffered dec fed len
      sniff_buffered_tracked [OF carries, of demo_stream_key 1 demo_sr st r' id] carries
    by (simp add: sniff_unfragmented carries_segment_def demo_stream_key_def no_outcome_def)
qed

theorem decision_from_first_seen_bytes_witness:
  "\<exists>prefix base. sniff_bytes id (demo_segment 10 forged_request) prefix = Decided (Http (lit ''GET'') (lit ''/a''))
    \<and> (\<forall>i < length prefix.
         Some (prefix ! i) = (segment_bytes 10 forged_request ++ stream_bytes demo_held) (base + of_nat i))"
proof -
  let ?p = "demo_segment 10 forged_request"
  obtain out sr' where s: "sniff_inner demo_codec demo_ep id (\<lambda>_. None) ?p (Some (demo_flow, True)) 1 demo_sr = Some (out, sr')"
    and info: "so_info out = Http (lit ''GET'') (lit ''/a'')" using forged_sniff by blast
  have p: "pp_ip_fragment ?p = None" "pp_payload ?p = forged_request"
    "stream_target ?p (Some (demo_flow, True)) = Some (demo_stream_key, 10)"
    by (simp_all add: demo_segment_def demo_packet_def stream_target_def demo_stream_key_def)
  have st: "map_of (tr_streams (sr_segments demo_sr)) demo_stream_key = Some demo_held" by (simp add: demo_sr_def)
  show ?thesis
    using decision_from_first_seen_bytes [OF demo_sr_inv p(1) _ p(3) st _ _ s] info p(2)
    by (simp add: demo_held_def ts_is_idle_def tcp_stream_idle_ms_def tcp_decision_window_ms_def demo_bytes)
qed

end
