(* ===== verification/DnsNames.thy ===== *)
theory DnsNames
  imports L7Types "HOL-Library.List_Lexorder" "HOL-Library.Product_Lexorder"
begin

text \<open>
  Names observed in DNS responses (\<open>dns_names.rs\<close>). The hash map is an association list with
  distinct keys, the \<open>BTreeSet\<close> of (expiry, sequence, address) a sorted list. Times are
  \<open>u64\<close> milliseconds as naturals, with saturating addition.
\<close>

section \<open>Definitions\<close>

definition min_name_retention_ms :: nat where "min_name_retention_ms = 3600000"
definition max_name_retention_ms :: nat where "max_name_retention_ms = 86400000"
definition max_name_bytes :: nat where "max_name_bytes = 253"

record dns_name_entry =
  dne_name :: rstring
  dne_expires_ms :: nat
  dne_seq :: nat

type_synonym expiry_key = "nat \<times> nat \<times> rstring"

record observed_dns_names =
  odn_capacity :: nat
  odn_entries :: "(rstring \<times> dns_name_entry) list"
  odn_by_expiry :: "expiry_key list"
  odn_next_seq :: nat
  odn_evictions :: nat

definition observed_dns_names_new :: "nat \<Rightarrow> observed_dns_names" where
  "observed_dns_names_new cap =
     \<lparr>odn_capacity = cap, odn_entries = [], odn_by_expiry = [], odn_next_seq = 0, odn_evictions = 0\<rparr>"

definition last_label :: "rstring \<Rightarrow> rstring" where
  "last_label name = rev (takeWhile (\<lambda>b. b \<noteq> 0x2E) (dropWhile (\<lambda>b. b = 0x2E) (rev name)))"

definition is_learnable_name :: "rstring \<Rightarrow> bool" where
  "is_learnable_name name \<longleftrightarrow>
     name \<noteq> [] \<and> length name \<le> max_name_bytes
     \<and> list_all (\<lambda>b. ascii_alphanumeric b \<or> b = 0x2D \<or> b = 0x5F \<or> b = 0x2E) name
     \<and> (last_label name = [] \<or> \<not> list_all ascii_digit (last_label name))"

definition owner_reached :: "rstring list \<Rightarrow> dns_answer \<Rightarrow> bool" where
  "owner_reached reachable a \<longleftrightarrow> list_ex (\<lambda>n. eq_ignore_ascii_case (da_name a) n) reachable"

definition cname_step :: "dns_answer \<Rightarrow> rstring list \<Rightarrow> rstring list" where
  "cname_step a reachable =
     (let target = to_ascii_lowercase (da_data a)
      in if owner_reached reachable a \<and> target \<notin> set reachable then reachable @ [target] else reachable)"

definition cname_pass :: "dns_answer list \<Rightarrow> rstring list \<Rightarrow> rstring list" where
  "cname_pass answers reachable = fold cname_step (filter (\<lambda>a. da_rtype a = 5) answers) reachable"

fun cname_loop :: "nat \<Rightarrow> dns_answer list \<Rightarrow> rstring list \<Rightarrow> rstring list" where
  "cname_loop 0 answers reachable = reachable"
| "cname_loop (Suc passes) answers reachable =
     (let after = cname_pass answers reachable
      in if length after = length reachable then after else cname_loop passes answers after)"

definition reachable_names :: "rstring \<Rightarrow> dns_answer list \<Rightarrow> rstring list" where
  "reachable_names name answers = cname_loop (length answers) answers [name]"

fun purge_loop ::
  "nat \<Rightarrow> expiry_key list \<Rightarrow> (rstring \<times> dns_name_entry) list
    \<Rightarrow> expiry_key list \<times> (rstring \<times> dns_name_entry) list" where
  "purge_loop now_ms [] es = ([], es)"
| "purge_loop now_ms ((expires, seq, addr) # index) es =
     (if expires > now_ms then ((expires, seq, addr) # index, es)
      else purge_loop now_ms index (AList.delete addr es))"

definition purge_expired :: "nat \<Rightarrow> observed_dns_names \<Rightarrow> observed_dns_names" where
  "purge_expired now_ms d =
     (let (index, es) = purge_loop now_ms (odn_by_expiry d) (odn_entries d)
      in d\<lparr>odn_by_expiry := index, odn_entries := es\<rparr>)"

text \<open>What \<open>insert\<close> does before it stores: drop the old entry, or make room.\<close>

definition names_make_room :: "rstring \<Rightarrow> observed_dns_names \<Rightarrow> observed_dns_names" where
  "names_make_room addr d =
     (case map_of (odn_entries d) addr of
        Some old \<Rightarrow>
          d\<lparr>odn_entries := AList.delete addr (odn_entries d),
            odn_by_expiry := remove1 (dne_expires_ms old, dne_seq old, addr) (odn_by_expiry d)\<rparr>
      | None \<Rightarrow>
          if length (odn_entries d) \<ge> odn_capacity d then
            (case odn_by_expiry d of
               [] \<Rightarrow> d
             | (_, _, victim) # index \<Rightarrow>
                 d\<lparr>odn_by_expiry := index, odn_entries := AList.delete victim (odn_entries d),
                   odn_evictions := odn_evictions d + 1\<rparr>)
          else d)"

definition names_insert :: "rstring \<Rightarrow> rstring \<Rightarrow> nat \<Rightarrow> observed_dns_names \<Rightarrow> observed_dns_names" where
  "names_insert addr name expires_ms d0 =
     (let d = names_make_room addr d0
      in if odn_capacity d = 0 then d
         else d\<lparr>odn_next_seq := odn_next_seq d + 1,
                odn_by_expiry := insort_insert (expires_ms, odn_next_seq d, addr) (odn_by_expiry d),
                odn_entries := AList.update addr
                  \<lparr>dne_name = name, dne_expires_ms = expires_ms, dne_seq = odn_next_seq d\<rparr> (odn_entries d)\<rparr>)"

definition name_retention :: "nat \<Rightarrow> nat" where
  "name_retention ttl = max min_name_retention_ms (min (ttl * 1000) max_name_retention_ms)"

definition learns_address :: "rstring list \<Rightarrow> dns_answer \<Rightarrow> bool" where
  "learns_address reachable a \<longleftrightarrow>
     (da_rtype a = 1 \<or> da_rtype a = 28) \<and> da_data a \<noteq> [] \<and> owner_reached reachable a"

definition learn_response :: "rstring \<Rightarrow> dns_answer list \<Rightarrow> nat \<Rightarrow> observed_dns_names \<Rightarrow> observed_dns_names" where
  "learn_response query_name answers now_ms d =
     (if \<not> is_learnable_name query_name then d
      else let name = to_ascii_lowercase query_name; reachable = reachable_names name answers
           in fold (\<lambda>a d. if learns_address reachable a
                          then names_insert (da_data a) name (sat_add now_ms (name_retention (da_ttl a))) d else d)
                answers (purge_expired now_ms d))"

definition names_lookup :: "rstring \<Rightarrow> nat \<Rightarrow> observed_dns_names \<Rightarrow> rstring option" where
  "names_lookup addr now_ms d =
     (case map_of (odn_entries d) addr of
        Some e \<Rightarrow> if dne_expires_ms e > now_ms then Some (dne_name e) else None
      | None \<Rightarrow> None)"

definition names_clear :: "observed_dns_names \<Rightarrow> observed_dns_names" where
  "names_clear d = d\<lparr>odn_entries := [], odn_by_expiry := []\<rparr>"

section \<open>CNAME chains\<close>

text \<open>The declarative reading: the question, and every alias of a name already reached.\<close>

inductive cname_reach :: "dns_answer list \<Rightarrow> rstring \<Rightarrow> rstring \<Rightarrow> bool" for answers q where
  question: "cname_reach answers q q"
| via_cname: "cname_reach answers q n \<Longrightarrow> a \<in> set answers \<Longrightarrow> da_rtype a = 5 \<Longrightarrow>
    eq_ignore_ascii_case (da_name a) n \<Longrightarrow> cname_reach answers q (to_ascii_lowercase (da_data a))"

definition cname_closed :: "dns_answer list \<Rightarrow> rstring list \<Rightarrow> bool" where
  "cname_closed answers r \<longleftrightarrow>
     (\<forall>a \<in> set answers. da_rtype a = 5 \<longrightarrow> owner_reached r a \<longrightarrow> to_ascii_lowercase (da_data a) \<in> set r)"

lemma cname_step_extends: "set r \<subseteq> set (cname_step a r)" "length r \<le> length (cname_step a r)"
  by (auto simp: cname_step_def Let_def)

lemma fold_step_extends:
  "set r \<subseteq> set (fold cname_step as r)" "length r \<le> length (fold cname_step as r)"
proof (induction as arbitrary: r)
  case (Cons a as)
  {
    case 1
    show ?case using Cons(1) [of "cname_step a r"] cname_step_extends(1) [of r a] by auto
  next
    case 2
    show ?case using Cons(2) [of "cname_step a r"] cname_step_extends(2) [of r a] by auto
  }
qed simp_all

lemma fold_step_distinct: "distinct r \<Longrightarrow> distinct (fold cname_step as r)"
  by (induction as arbitrary: r) (simp_all add: cname_step_def Let_def)

lemma fold_step_closed:
  assumes "a \<in> set as" and "owner_reached r a"
  shows "to_ascii_lowercase (da_data a) \<in> set (fold cname_step as r)"
  using assms
proof (induction as arbitrary: r)
  case (Cons b as)
  have mono: "owner_reached (cname_step b r) a"
    using Cons.prems(2) cname_step_extends(1) [of r b] by (auto simp: owner_reached_def list_ex_iff)
  show ?case
  proof (cases "a = b")
    case True
    then have "to_ascii_lowercase (da_data a) \<in> set (cname_step b r)"
      using Cons.prems(2) by (auto simp: cname_step_def Let_def)
    then show ?thesis using fold_step_extends(1) by auto
  next
    case False
    then show ?thesis using Cons mono by simp
  qed
qed simp

lemma fold_step_reach:
  assumes "\<forall>n \<in> set r. cname_reach answers q n" and "\<forall>a \<in> set as. a \<in> set answers \<and> da_rtype a = 5"
  shows "\<forall>n \<in> set (fold cname_step as r). cname_reach answers q n"
  using assms
proof (induction as arbitrary: r)
  case (Cons a as)
  have "\<forall>n \<in> set (cname_step a r). cname_reach answers q n"
    using Cons.prems by (auto simp: cname_step_def Let_def owner_reached_def list_ex_iff intro: cname_reach.via_cname)
  then show ?case using Cons by simp
qed simp

lemma cname_loop_reach:
  "\<forall>n \<in> set r. cname_reach answers q n \<Longrightarrow> \<forall>n \<in> set (cname_loop k answers r). cname_reach answers q n"
proof (induction k arbitrary: r)
  case (Suc k)
  have "\<forall>n \<in> set (cname_pass answers r). cname_reach answers q n"
    unfolding cname_pass_def by (rule fold_step_reach [OF Suc.prems]) simp
  then show ?case using Suc.IH by (simp add: Let_def)
qed simp

lemma cname_pass_stops:
  assumes "length (cname_pass answers r) = length r" and "distinct r"
  shows "cname_closed answers (cname_pass answers r)"
proof -
  have "set r = set (cname_pass answers r)"
    using assms fold_step_extends(1) [of r] fold_step_distinct [OF assms(2)]
    unfolding cname_pass_def by (metis card_subset_eq distinct_card finite_set)
  then have own: "owner_reached (cname_pass answers r) a = owner_reached r a" for a
    by (simp add: owner_reached_def list_ex_iff)
  show ?thesis
    unfolding cname_closed_def own
    using fold_step_closed [of _ "filter (\<lambda>a. da_rtype a = 5) answers" r] by (auto simp: cname_pass_def)
qed

definition cname_targets :: "dns_answer list \<Rightarrow> rstring set" where
  "cname_targets answers = (\<lambda>a. to_ascii_lowercase (da_data a)) ` set answers"

lemma fold_step_targets: "set as \<subseteq> set answers \<Longrightarrow> set (fold cname_step as r) \<subseteq> set r \<union> cname_targets answers"
proof (induction as arbitrary: r)
  case (Cons a as)
  have "set (cname_step a r) \<subseteq> set r \<union> cname_targets answers"
    using Cons.prems by (auto simp: cname_step_def Let_def cname_targets_def)
  then show ?case using Cons by fastforce
qed simp

lemma cname_loop_closed:
  assumes "distinct r" "set r \<subseteq> insert q (cname_targets answers)" "length answers < k + length r"
  shows "cname_closed answers (cname_loop k answers r)"
  using assms
proof (induction k arbitrary: r)
  case 0
  have "card (insert q (cname_targets answers)) \<le> Suc (length answers)"
    by (metis (no_types) card_image_le card_length cname_targets_def finite_set card_insert_le_m1 Suc_le_mono
        card_insert_if finite_imageI le_SucI order_trans)
  then have "insert q (cname_targets answers) = set r"
    using 0 by (intro card_seteq [symmetric]) (auto simp: distinct_card cname_targets_def)
  then show ?case by (auto simp: cname_closed_def cname_targets_def)
next
  case (Suc k)
  let ?r = "cname_pass answers r"
  have r: "distinct ?r" "set ?r \<subseteq> insert q (cname_targets answers)" "length r \<le> length ?r"
    using Suc.prems fold_step_distinct fold_step_extends(2)
      fold_step_targets [of "filter (\<lambda>a. da_rtype a = 5) answers" answers r]
    unfolding cname_pass_def by auto
  show ?case
  proof (cases "length ?r = length r")
    case True
    then show ?thesis using cname_pass_stops Suc.prems(1) by simp
  next
    case False
    then show ?thesis using Suc r by (simp add: Let_def)
  qed
qed

lemma reachable_names_closed: "cname_closed answers (reachable_names q answers)"
  unfolding reachable_names_def by (rule cname_loop_closed [of _ q]) auto

lemma cname_loop_extends: "set r \<subseteq> set (cname_loop k answers r)"
proof (induction k arbitrary: r)
  case (Suc k)
  then show ?case
    using fold_step_extends(1) [of r] unfolding cname_pass_def [symmetric]
    by (fastforce simp: cname_pass_def Let_def)
qed simp

lemma question_reached: "q \<in> set (reachable_names q answers)"
  using cname_loop_extends [of "[q]"] by (auto simp: reachable_names_def)

lemma closure_complete: "{n. cname_reach answers q n} \<subseteq> set (reachable_names q answers)"
proof (intro subsetI)
  fix n
  assume "n \<in> {n. cname_reach answers q n}"
  then have "cname_reach answers q n" by simp
  then show "n \<in> set (reachable_names q answers)"
  proof (induction rule: cname_reach.induct)
    case (via_cname n a)
    then have "owner_reached (reachable_names q answers) a" by (auto simp: owner_reached_def list_ex_iff)
    with via_cname reachable_names_closed [of answers q] show ?case by (auto simp: cname_closed_def)
  qed (rule question_reached)
qed

text \<open>
  The bounded passes over the answer section compute exactly the names reachable from the
  question through the response's CNAME records, whatever order they come in and whether or not
  they form a loop.
\<close>

lemma cname_closure_exact:
  "set (reachable_names q answers) = {n. cname_reach answers q n}"
  using closure_complete [of answers q] cname_loop_reach [of "[q]" answers q "length answers"]
  by (auto simp: reachable_names_def cname_reach.question)

section \<open>The index mirrors the entries\<close>

definition expiry_of :: "rstring \<times> dns_name_entry \<Rightarrow> expiry_key" where
  "expiry_of x = (dne_expires_ms (snd x), dne_seq (snd x), fst x)"

definition names_inv :: "observed_dns_names \<Rightarrow> bool" where
  "names_inv d \<longleftrightarrow>
     distinct (map fst (odn_entries d)) \<and> sorted (odn_by_expiry d) \<and> distinct (odn_by_expiry d)
     \<and> set (odn_by_expiry d) = expiry_of ` set (odn_entries d)
     \<and> length (odn_entries d) \<le> odn_capacity d"

lemma image_filter_diff: "(\<And>x. x \<in> S \<Longrightarrow> (f x = c) = (\<not> P x)) \<Longrightarrow> f ` {x \<in> S. P x} = f ` S - {c}"
  by auto

lemma delete_image:
  assumes "distinct (map fst es)" and "(a, e) \<in> set es"
  shows "expiry_of ` set (AList.delete a es) = expiry_of ` set es - {expiry_of (a, e)}"
proof -
  have eq: "set (AList.delete a es) = {x \<in> set es. fst x \<noteq> a}" by (auto simp: AList.delete_eq)
  show ?thesis
    unfolding eq
  proof (rule image_filter_diff)
    fix x
    assume "x \<in> set es"
    then have "fst x = a \<Longrightarrow> snd x = e" using assms by (metis eq_key_imp_eq_value prod.collapse)
    then show "(expiry_of x = expiry_of (a, e)) = (\<not> fst x \<noteq> a)" by (auto simp: expiry_of_def)
  qed
qed

text \<open>Removing the entry an index element stands for, together with that element.\<close>

lemma mirror_delete:
  assumes "distinct (map fst es)" and "distinct ix" "set ix = expiry_of ` set es" "(x, s, a) \<in> set ix"
  shows "set (remove1 (x, s, a) ix) = expiry_of ` set (AList.delete a es)"
    and "Suc (length (AList.delete a es)) = length es"
proof -
  obtain e where e: "(a, e) \<in> set es" "expiry_of (a, e) = (x, s, a)"
    using assms(3,4) by (auto simp: expiry_of_def)
  show "set (remove1 (x, s, a) ix) = expiry_of ` set (AList.delete a es)"
    using assms delete_image [OF assms(1) e(1)] e(2) by (simp add: set_remove1_eq)
  show "Suc (length (AList.delete a es)) = length es"
    using e(1) assms(1) by (intro length_delete_member [of _ _ e]) auto
qed

lemma purge_loop_inv:
  assumes "distinct (map fst es)" "sorted ix" "distinct ix" "set ix = expiry_of ` set es"
    and "purge_loop now_ms ix es = (ix', es')"
  shows "distinct (map fst es') \<and> sorted ix' \<and> distinct ix' \<and> set ix' = expiry_of ` set es'
    \<and> length es' \<le> length es \<and> set es' = {x \<in> set es. now_ms < dne_expires_ms (snd x)}"
  using assms
proof (induction now_ms ix es rule: purge_loop.induct)
  case (2 now_ms x s a ix es)
  show ?case
  proof (cases "x > now_ms")
    case True
    have "now_ms < dne_expires_ms (snd y)" if "y \<in> set es" for y
    proof -
      have "expiry_of y \<in> set ((x, s, a) # ix)" using that 2(5) by blast
      then have "x \<le> dne_expires_ms (snd y)"
        using 2(3) by (auto simp: expiry_of_def less_eq_prod_def)
      with True show ?thesis by simp
    qed
    with True 2 show ?thesis by auto
  next
    case False
    have ix: "set ix = expiry_of ` set (AList.delete a es)" "Suc (length (AList.delete a es)) = length es"
      using mirror_delete [OF 2(2,4,5), of x s a] by simp_all
    have "(x, s, a) \<in> expiry_of ` set es" using 2(5) by (metis list.set_intros(1))
    then obtain e where e: "(a, e) \<in> set es" "dne_expires_ms e = x" by (auto simp: expiry_of_def)
    have del: "set (AList.delete a es) = set es - {(a, e)}"
      using 2(2) e(1) by (auto simp: AList.delete_eq) (metis eq_key_imp_eq_value)
    have "purge_loop now_ms ix (AList.delete a es) = (ix', es')" using 2(6) False by simp
    from 2(1) [OF False _ _ _ ix(1) this] 2(2,3,4) ix(2) del e(2) False show ?thesis by auto
  qed
qed auto

lemma purge_expired_inv:
  assumes "names_inv d"
  shows "names_inv (purge_expired now_ms d)"
    and "set (odn_entries (purge_expired now_ms d)) \<subseteq> set (odn_entries d)"
    and "\<forall>(a, e) \<in> set (odn_entries (purge_expired now_ms d)). now_ms < dne_expires_ms e"
proof -
  obtain ix es where p: "purge_loop now_ms (odn_by_expiry d) (odn_entries d) = (ix, es)" by (meson surj_pair)
  have "names_inv d" by (rule assms)
  then have "distinct (map fst es) \<and> sorted ix \<and> distinct ix \<and> set ix = expiry_of ` set es
    \<and> length es \<le> length (odn_entries d) \<and> set es = {x \<in> set (odn_entries d). now_ms < dne_expires_ms (snd x)}"
    unfolding names_inv_def by (intro purge_loop_inv [OF _ _ _ _ p]) blast+
  then show "names_inv (purge_expired now_ms d)"
    "set (odn_entries (purge_expired now_ms d)) \<subseteq> set (odn_entries d)"
    "\<forall>(a, e) \<in> set (odn_entries (purge_expired now_ms d)). now_ms < dne_expires_ms e"
    using assms by (auto simp: purge_expired_def p names_inv_def)
qed

lemma names_make_room_inv:
  assumes "names_inv d"
  shows "names_inv (names_make_room a d)" and "map_of (odn_entries (names_make_room a d)) a = None"
    and "set (odn_entries (names_make_room a d)) \<subseteq> set (odn_entries d)"
    and "odn_capacity d \<noteq> 0 \<Longrightarrow> length (odn_entries (names_make_room a d)) < odn_capacity d"
    and "odn_capacity (names_make_room a d) = odn_capacity d"
proof -
  have d: "distinct (map fst (odn_entries d))" "sorted (odn_by_expiry d)" "distinct (odn_by_expiry d)"
    "set (odn_by_expiry d) = expiry_of ` set (odn_entries d)" "length (odn_entries d) \<le> odn_capacity d"
    using assms by (simp_all add: names_inv_def)
  have goal: "names_inv (names_make_room a d) \<and> map_of (odn_entries (names_make_room a d)) a = None
    \<and> set (odn_entries (names_make_room a d)) \<subseteq> set (odn_entries d)
    \<and> (odn_capacity d \<noteq> 0 \<longrightarrow> length (odn_entries (names_make_room a d)) < odn_capacity d)
    \<and> odn_capacity (names_make_room a d) = odn_capacity d"
  proof (cases "map_of (odn_entries d) a")
    case (Some old)
    then have "expiry_of (a, old) \<in> set (odn_by_expiry d)" using d(4) map_of_in_set by fastforce
    then have "(dne_expires_ms old, dne_seq old, a) \<in> set (odn_by_expiry d)" by (simp add: expiry_of_def)
    from mirror_delete [OF d(1,3,4) this] Some d show ?thesis
      using set_delete_subset [of a "odn_entries d"]
      by (auto simp: names_make_room_def names_inv_def sorted_remove1)
  next
    case None
    show ?thesis
    proof (cases "length (odn_entries d) \<ge> odn_capacity d \<and> odn_by_expiry d \<noteq> []")
      case True
      then obtain x s v ix where ix: "odn_by_expiry d = (x, s, v) # ix" by (cases "odn_by_expiry d") auto
      have "set ix = expiry_of ` set (AList.delete v (odn_entries d))"
        "Suc (length (AList.delete v (odn_entries d))) = length (odn_entries d)"
        using mirror_delete [OF d(1,3,4), of x s v] by (simp_all add: ix)
      moreover have "names_make_room a d = d\<lparr>odn_by_expiry := ix, odn_entries := AList.delete v (odn_entries d),
          odn_evictions := odn_evictions d + 1\<rparr>"
        using True None ix by (simp add: names_make_room_def)
      moreover have "map_of (AList.delete v (odn_entries d)) a = None" using None by (cases "v = a") simp_all
      ultimately show ?thesis
        using d(1,5) d(2,3) [unfolded ix] set_delete_subset [of v "odn_entries d"] by (simp add: names_inv_def)
    next
      case False
      then have "names_make_room a d = d" using None by (auto simp: names_make_room_def)
      moreover have "odn_capacity d \<noteq> 0 \<Longrightarrow> length (odn_entries d) < odn_capacity d"
        using False d(4) by (cases "odn_by_expiry d = []") auto
      ultimately show ?thesis using None assms by simp
    qed
  qed
  then show "names_inv (names_make_room a d)" "map_of (odn_entries (names_make_room a d)) a = None"
    "set (odn_entries (names_make_room a d)) \<subseteq> set (odn_entries d)"
    "odn_capacity d \<noteq> 0 \<Longrightarrow> length (odn_entries (names_make_room a d)) < odn_capacity d"
    "odn_capacity (names_make_room a d) = odn_capacity d" by blast+
qed

lemma update_new: "map_of es a = None \<Longrightarrow> AList.update a e es = es @ [(a, e)]"
  by (induction es) auto

lemma names_insert_inv:
  assumes "names_inv d"
  shows "names_inv (names_insert a n x d)"
    and "set (odn_entries (names_insert a n x d))
      \<subseteq> set (odn_entries d) \<union> {(a, \<lparr>dne_name = n, dne_expires_ms = x, dne_seq = odn_next_seq (names_make_room a d)\<rparr>)}"
proof -
  let ?d = "names_make_room a d"
  note room = names_make_room_inv [OF assms, of a]
  have d: "distinct (map fst (odn_entries ?d))" "sorted (odn_by_expiry ?d)" "distinct (odn_by_expiry ?d)"
    "set (odn_by_expiry ?d) = expiry_of ` set (odn_entries ?d)"
    using room(1) by (simp_all add: names_inv_def)
  have new: "AList.update a e (odn_entries ?d) = odn_entries ?d @ [(a, e)]" for e
    using room(2) by (rule update_new)
  show "names_inv (names_insert a n x d)"
    using d room by (auto simp: names_insert_def Let_def names_inv_def new set_insort_insert map_of_eq_None_iff
        sorted_insort_insert distinct_insort_insert expiry_of_def)
  show "set (odn_entries (names_insert a n x d))
      \<subseteq> set (odn_entries d) \<union> {(a, \<lparr>dne_name = n, dne_expires_ms = x, dne_seq = odn_next_seq ?d\<rparr>)}"
    using room(3) by (auto simp: names_insert_def Let_def new)
qed

section \<open>Every name shown was learned\<close>

text \<open>Why an address has a name until a time: some response named it, directly or through aliases.\<close>

definition justified :: "(rstring \<times> dns_answer list \<times> nat) list \<Rightarrow> rstring \<Rightarrow> rstring \<Rightarrow> nat \<Rightarrow> bool" where
  "justified responses addr name expires_ms \<longleftrightarrow>
     (\<exists>(q, answers, now_ms) \<in> set responses. \<exists>a \<in> set answers.
        is_learnable_name q \<and> name = to_ascii_lowercase q
        \<and> (da_rtype a = 1 \<or> da_rtype a = 28) \<and> da_data a = addr
        \<and> (\<exists>n. cname_reach answers name n \<and> eq_ignore_ascii_case (da_name a) n)
        \<and> expires_ms \<le> now_ms + name_retention (da_ttl a))"

definition all_justified :: "(rstring \<times> dns_answer list \<times> nat) list \<Rightarrow> observed_dns_names \<Rightarrow> bool" where
  "all_justified responses d \<longleftrightarrow>
     (\<forall>(addr, e) \<in> set (odn_entries d). justified responses addr (dne_name e) (dne_expires_ms e))"

fun learn_all :: "(rstring \<times> dns_answer list \<times> nat) list \<Rightarrow> observed_dns_names \<Rightarrow> observed_dns_names" where
  "learn_all [] d = d"
| "learn_all ((q, answers, now_ms) # rs) d = learn_all rs (learn_response q answers now_ms d)"

lemma reached_owner:
  "owner_reached (reachable_names q answers) a \<longleftrightarrow> (\<exists>n. cname_reach answers q n \<and> eq_ignore_ascii_case (da_name a) n)"
proof -
  have "set (reachable_names q answers) = {n. cname_reach answers q n}"
    using cname_loop_reach [of "[q]" answers q "length answers"] closure_complete [of answers q]
    by (auto simp: reachable_names_def cname_reach.question)
  then show ?thesis by (auto simp: owner_reached_def list_ex_iff)
qed

lemma learn_answers:
  assumes "names_inv d" and "all_justified rs d" and "(q, answers, now_ms) \<in> set rs" and "is_learnable_name q"
    and "set as \<subseteq> set answers" and "name = to_ascii_lowercase q"
  shows "names_inv (fold (\<lambda>a d. if learns_address (reachable_names name answers) a
            then names_insert (da_data a) name (sat_add now_ms (name_retention (da_ttl a))) d else d) as d)
    \<and> all_justified rs (fold (\<lambda>a d. if learns_address (reachable_names name answers) a
            then names_insert (da_data a) name (sat_add now_ms (name_retention (da_ttl a))) d else d) as d)"
  using assms(1,2,5)
proof (induction as arbitrary: d)
  case (Cons a as)
  let ?d = "names_insert (da_data a) name (sat_add now_ms (name_retention (da_ttl a))) d"
  have "all_justified rs ?d" if "learns_address (reachable_names name answers) a"
  proof -
    have "justified rs (da_data a) name (sat_add now_ms (name_retention (da_ttl a)))"
      unfolding justified_def using assms(3,4,6) that Cons.prems(3) sat_add_le
      by (intro bexI [OF _ assms(3)]) (auto simp: learns_address_def reached_owner intro!: bexI [of _ a])
    then show ?thesis
      using names_insert_inv(2) [OF Cons.prems(1), of "da_data a" name] Cons.prems(2)
      unfolding all_justified_def by fastforce
  qed
  then show ?case using Cons names_insert_inv(1) by simp
qed simp

lemma learn_response_inv:
  assumes "names_inv d" and "all_justified rs d" and "(q, answers, now_ms) \<in> set rs"
  shows "names_inv (learn_response q answers now_ms d) \<and> all_justified rs (learn_response q answers now_ms d)"
proof -
  note purge = purge_expired_inv [OF assms(1), of now_ms]
  have "all_justified rs (purge_expired now_ms d)" using assms(2) purge(2) by (auto simp: all_justified_def)
  then show ?thesis
    using learn_answers [OF purge(1) _ assms(3) _ subset_refl refl] assms(1,2)
    by (auto simp: learn_response_def Let_def)
qed

lemma learn_all_inv:
  "names_inv d \<Longrightarrow> all_justified rs0 d \<Longrightarrow> set rs \<subseteq> set rs0 \<Longrightarrow>
   names_inv (learn_all rs d) \<and> all_justified rs0 (learn_all rs d)"
proof (induction rs arbitrary: d)
  case (Cons r rs)
  obtain q answers now_ms where r: "r = (q, answers, now_ms)" by (cases r)
  with Cons learn_response_inv [of d rs0 q answers now_ms] show ?case by simp
qed simp

lemma names_inv_new: "names_inv (observed_dns_names_new cap)" "all_justified rs (observed_dns_names_new cap)"
  by (simp_all add: names_inv_def observed_dns_names_new_def all_justified_def)

lemma capacity_kept:
  "odn_capacity (names_insert a n x d) = odn_capacity d" "odn_capacity (purge_expired t d) = odn_capacity d"
  by (simp_all add: names_insert_def names_make_room_def purge_expired_def Let_def split: option.split list.split prod.split)

lemma fold_capacity:
  "odn_capacity (fold (\<lambda>a d. if P a then names_insert (f a) n (g a) d else d) as d) = odn_capacity d"
  by (induction as arbitrary: d) (simp_all add: capacity_kept)

lemma learn_all_capacity: "odn_capacity (learn_all rs d) = odn_capacity d"
  by (induction rs d rule: learn_all.induct) (simp_all add: learn_response_def Let_def fold_capacity capacity_kept)

text \<open>
  After any sequence of responses the table never holds more than its capacity, holds one
  name per address, and the expiry index lists exactly its entries in order of expiry, so that
  eviction takes the entry expiring soonest; clearing keeps all of this.
\<close>

lemma observed_names_bounded:
  "let d = learn_all rs (observed_dns_names_new cap)
   in length (odn_entries d) \<le> cap \<and> distinct (map fst (odn_entries d))
      \<and> sorted (odn_by_expiry d) \<and> distinct (odn_by_expiry d)
      \<and> set (odn_by_expiry d) = (\<lambda>(addr, e). (dne_expires_ms e, dne_seq e, addr)) ` set (odn_entries d)
      \<and> names_inv (names_clear d)"
proof -
  let ?d = "learn_all rs (observed_dns_names_new cap)"
  have "names_inv ?d" using learn_all_inv [OF names_inv_new subset_refl] by blast
  moreover have "odn_capacity ?d = cap" by (simp add: learn_all_capacity observed_dns_names_new_def)
  moreover have "expiry_of = (\<lambda>(addr, e). (dne_expires_ms e, dne_seq e, addr))" by (auto simp: expiry_of_def)
  ultimately show ?thesis unfolding Let_def by (simp add: names_inv_def names_clear_def)
qed

text \<open>
  C37: A name is shown for an address only if some answered response justifies it: its question was
  a plain hostname, one of its address records carries that address, that record's owner is the
  question or an alias reached from it, and the retention of the record has not run out.
\<close>

theorem observed_name_justified:
  assumes "names_lookup addr t (learn_all rs (observed_dns_names_new cap)) = Some name"
  shows "\<exists>(q, answers, now_ms) \<in> set rs. \<exists>a \<in> set answers.
    is_learnable_name q \<and> name = to_ascii_lowercase q \<and> (da_rtype a = 1 \<or> da_rtype a = 28) \<and> da_data a = addr
    \<and> (\<exists>n. cname_reach answers name n \<and> eq_ignore_ascii_case (da_name a) n)
    \<and> t < now_ms + name_retention (da_ttl a)"
proof -
  let ?d = "learn_all rs (observed_dns_names_new cap)"
  obtain e where e: "(addr, e) \<in> set (odn_entries ?d)" "t < dne_expires_ms e" "dne_name e = name"
    using assms by (auto simp: names_lookup_def split: option.splits if_splits intro: map_of_in_set)
  have "all_justified rs ?d" using learn_all_inv [OF names_inv_new subset_refl] by blast
  with e(1,3) have "justified rs addr name (dne_expires_ms e)" by (auto simp: all_justified_def)
  with e(2) show ?thesis unfolding justified_def by (fastforce intro: less_le_trans)
qed

definition demo_answer :: dns_answer where
  "demo_answer = \<lparr>da_name = lit ''A.b'', da_rtype = 1, da_ttl = 60, da_data = lit ''1.2.3.4'', da_data_truncated = False\<rparr>"

lemmas names_eval = names_lookup_def learn_response_def observed_dns_names_new_def is_learnable_name_def lit_def
  max_name_bytes_def ascii_alphanumeric_def ascii_upper_def ascii_lower_letter_def ascii_digit_def last_label_def
  purge_expired_def reachable_names_def cname_pass_def learns_address_def owner_reached_def eq_ignore_ascii_case_def
  to_ascii_lowercase_def to_lower_byte_def names_insert_def names_make_room_def insort_insert_key_def
  name_retention_def min_name_retention_ms_def max_name_retention_ms_def sat_add_def usize_max_def demo_answer_def

theorem observed_name_justified_witness:
  "\<exists>n. cname_reach [demo_answer] (lit ''a.b'') n \<and> eq_ignore_ascii_case (da_name demo_answer) n"
proof -
  have "names_lookup (lit ''1.2.3.4'') 5 (learn_all [(lit ''a.B'', [demo_answer], 0)] (observed_dns_names_new 2))
    = Some (lit ''a.b'')"
    by (simp add: names_eval)
  from observed_name_justified [OF this] show ?thesis by auto
qed

end
