(* ===== verification/FlowTable.thy ===== *)
theory FlowTable
  imports FlowKey DnsNames Eviction Complex_Main
begin

text \<open>
  The flow table (\<open>flow.rs\<close>). Hash maps are association lists with distinct keys, the
  \<open>BTreeMap\<close> of a protocol node a list sorted by name, \<open>HashMap<bool, u32>\<close> a map from the
  direction. Byte and packet totals are naturals (the source's \<open>u64\<close> sums do not overflow within
  the lifetime of a capture), speeds and ratios exact rationals where the source rounds to \<open>f64\<close>.
\<close>

section \<open>State\<close>

record flow_state =
  fs_app_layer_protocol :: rstring
  fs_encryption :: rstring
  fs_established :: bool
  fs_fin_seen :: bool
  fs_rst_seen :: bool
  fs_syn_sent_at_ms :: "nat option"
  fs_rtt_ms :: "nat option"
  fs_rx_bytes_total :: nat
  fs_tx_bytes_total :: nat
  fs_rx_bytes_this_tick :: nat
  fs_tx_bytes_this_tick :: nat
  fs_max_seq_seen :: "bool \<Rightarrow> u32 option"
  fs_retransmits :: nat
  fs_segments :: nat
  fs_last_seen_ms :: nat
  fs_ja3_fingerprint :: "rstring option"
  fs_ja3_label :: "rstring option"
  fs_client_random :: "byte list option"
  fs_client_is_outbound :: "bool option"
  fs_syn_sequences :: "bool \<Rightarrow> u32 option"
  fs_connection_id :: rstring

definition flow_state_default :: flow_state where
  "flow_state_default =
     \<lparr>fs_app_layer_protocol = lit ''Unknown'', fs_encryption = lit ''None'', fs_established = False,
      fs_fin_seen = False, fs_rst_seen = False, fs_syn_sent_at_ms = None, fs_rtt_ms = None,
      fs_rx_bytes_total = 0, fs_tx_bytes_total = 0, fs_rx_bytes_this_tick = 0, fs_tx_bytes_this_tick = 0,
      fs_max_seq_seen = Map.empty, fs_retransmits = 0, fs_segments = 0, fs_last_seen_ms = 0,
      fs_ja3_fingerprint = None, fs_ja3_label = None, fs_client_random = None, fs_client_is_outbound = None,
      fs_syn_sequences = Map.empty, fs_connection_id = []\<rparr>"

datatype protocol_node =
  ProtocolNode (pn_bytes: nat) (pn_packets: nat) (pn_children: "(rstring \<times> protocol_node) list")

definition protocol_node_default :: protocol_node where
  "protocol_node_default = ProtocolNode 0 0 []"

record rollup_state =
  ru_rx_bytes_total :: nat
  ru_tx_bytes_total :: nat
  ru_rx_packets_total :: nat
  ru_tx_packets_total :: nat
  ru_rx_bytes_this_tick :: nat
  ru_tx_bytes_this_tick :: nat
  ru_flow_count :: nat
  ru_first_seen_ms :: "nat option"
  ru_last_seen_ms :: nat
  ru_ja3_label :: "rstring option"

definition rollup_state_default :: rollup_state where
  "rollup_state_default =
     \<lparr>ru_rx_bytes_total = 0, ru_tx_bytes_total = 0, ru_rx_packets_total = 0, ru_tx_packets_total = 0,
      ru_rx_bytes_this_tick = 0, ru_tx_bytes_this_tick = 0, ru_flow_count = 0, ru_first_seen_ms = None,
      ru_last_seen_ms = 0, ru_ja3_label = None\<rparr>"

record flow_table =
  ft_local_addrs :: "rstring list"
  ft_flows :: "(flow_key \<times> flow_state) list"
  ft_last_snapshot_ms :: nat
  ft_max_flows :: nat
  ft_total_flows_observed :: nat
  ft_capacity_evictions :: nat
  ft_idle_evictions :: nat
  ft_protocol_tree :: protocol_node
  ft_endpoint_rollups :: "(rstring \<times> rollup_state) list"
  ft_conversation_rollups :: "((rstring \<times> rstring) \<times> rollup_state) list"
  ft_last_endpoint_snapshot_ms :: nat
  ft_last_conversation_snapshot_ms :: nat
  ft_observed_names :: observed_dns_names

record evicted_flows =
  ef_idle :: "flow_key list"
  ef_capacity :: "flow_key list"

record observe_result =
  or_is_outbound :: bool
  or_is_retransmit :: bool
  or_rst_transitioned :: bool
  or_connection_id :: "rstring option"
  or_closed_connection_id :: "rstring option"

definition default_max_flows :: nat where "default_max_flows = 10000"
definition default_max_observed_dns_names :: nat where "default_max_observed_dns_names = 16384"

definition flow_table_new_with_capacity :: "rstring list \<Rightarrow> nat \<Rightarrow> flow_table" where
  "flow_table_new_with_capacity local_addrs max_flows =
     \<lparr>ft_local_addrs = local_addrs, ft_flows = [], ft_last_snapshot_ms = 0, ft_max_flows = max_flows,
      ft_total_flows_observed = 0, ft_capacity_evictions = 0, ft_idle_evictions = 0,
      ft_protocol_tree = protocol_node_default, ft_endpoint_rollups = [], ft_conversation_rollups = [],
      ft_last_endpoint_snapshot_ms = 0, ft_last_conversation_snapshot_ms = 0,
      ft_observed_names = observed_dns_names_new default_max_observed_dns_names\<rparr>"

definition flow_table_new :: "rstring list \<Rightarrow> flow_table" where
  "flow_table_new local_addrs = flow_table_new_with_capacity local_addrs default_max_flows"

definition with_observed_name_capacity :: "nat \<Rightarrow> flow_table \<Rightarrow> flow_table" where
  "with_observed_name_capacity cap ft = ft\<lparr>ft_observed_names := observed_dns_names_new cap\<rparr>"

definition learn_dns_response :: "rstring \<Rightarrow> dns_answer list \<Rightarrow> nat \<Rightarrow> flow_table \<Rightarrow> flow_table" where
  "learn_dns_response query_name answers now_ms ft =
     ft\<lparr>ft_observed_names := learn_response query_name answers now_ms (ft_observed_names ft)\<rparr>"

section \<open>The protocol hierarchy and the rollups\<close>

text \<open>\<open>children.entry(name).or_default()\<close> followed by an update of the child.\<close>

fun child_update ::
  "rstring \<Rightarrow> (protocol_node \<Rightarrow> protocol_node) \<Rightarrow> (rstring \<times> protocol_node) list \<Rightarrow> (rstring \<times> protocol_node) list" where
  "child_update h f [] = [(h, f protocol_node_default)]"
| "child_update h f ((k, n) # cs) =
     (if h = k then (k, f n) # cs
      else if h < k then (h, f protocol_node_default) # (k, n) # cs
      else (k, n) # child_update h f cs)"

primrec protocol_node_add :: "rstring list \<Rightarrow> nat \<Rightarrow> protocol_node \<Rightarrow> protocol_node" where
  "protocol_node_add [] len n = ProtocolNode (pn_bytes n + len) (pn_packets n + 1) (pn_children n)"
| "protocol_node_add (h # rest) len n =
     ProtocolNode (pn_bytes n + len) (pn_packets n + 1)
       (child_update h (protocol_node_add rest len) (pn_children n))"

definition rollup_record :: "bool \<Rightarrow> nat \<Rightarrow> nat \<Rightarrow> bool \<Rightarrow> rollup_state \<Rightarrow> rollup_state" where
  "rollup_record is_outbound len now_ms is_new_flow r =
     (let r1 = (if is_outbound
                then r\<lparr>ru_tx_bytes_total := ru_tx_bytes_total r + len,
                       ru_tx_bytes_this_tick := ru_tx_bytes_this_tick r + len,
                       ru_tx_packets_total := ru_tx_packets_total r + 1\<rparr>
                else r\<lparr>ru_rx_bytes_total := ru_rx_bytes_total r + len,
                       ru_rx_bytes_this_tick := ru_rx_bytes_this_tick r + len,
                       ru_rx_packets_total := ru_rx_packets_total r + 1\<rparr>)
      in r1\<lparr>ru_first_seen_ms := (case ru_first_seen_ms r1 of None \<Rightarrow> Some now_ms | Some t \<Rightarrow> Some t),
            ru_last_seen_ms := now_ms,
            ru_flow_count := (if is_new_flow then ru_flow_count r1 + 1 else ru_flow_count r1)\<rparr>)"

text \<open>\<open>map.entry(k).or_default()\<close> followed by an update of the value, and \<open>get_mut\<close>.\<close>

definition entry_update :: "'k \<Rightarrow> 'v \<Rightarrow> ('v \<Rightarrow> 'v) \<Rightarrow> ('k \<times> 'v) list \<Rightarrow> ('k \<times> 'v) list" where
  "entry_update k dflt f xs = AList.update k (f (case map_of xs k of None \<Rightarrow> dflt | Some v \<Rightarrow> v)) xs"

definition entry_get_mut :: "'k \<Rightarrow> ('v \<Rightarrow> 'v) \<Rightarrow> ('k \<times> 'v) list \<Rightarrow> ('k \<times> 'v) list" where
  "entry_get_mut k f xs = (case map_of xs k of None \<Rightarrow> xs | Some v \<Rightarrow> AList.update k (f v) xs)"

section \<open>Status and idleness\<close>

definition well_known_protocol :: "nat \<Rightarrow> rstring option" where
  "well_known_protocol port =
     map_of [(20, lit ''FTP-DATA''), (21, lit ''FTP''), (25, lit ''SMTP''), (80, lit ''HTTP''),
       (443, lit ''HTTPS/TLS''), (53, lit ''DNS''), (22, lit ''SSH''), (67, lit ''DHCP''), (68, lit ''DHCP''),
       (110, lit ''POP3''), (123, lit ''NTP''), (143, lit ''IMAP''), (445, lit ''SMB''), (993, lit ''IMAPS''),
       (995, lit ''POP3S''), (1433, lit ''Microsoft SQL Server''), (3306, lit ''MySQL''), (3389, lit ''RDP''),
       (5353, lit ''mDNS''), (5432, lit ''PostgreSQL'')] port"

definition status_for :: "flow_state \<Rightarrow> transport_protocol \<Rightarrow> rstring" where
  "status_for st protocol =
     (if fs_fin_seen st \<or> fs_rst_seen st then lit ''TIME_WAIT''
      else if fs_established st then lit ''ESTABLISHED''
      else if fs_syn_sent_at_ms st \<noteq> None then lit ''SYN_SENT''
      else if protocol \<noteq> Tcp then lit ''ESTABLISHED''
      else lit ''CLOSE_WAIT'')"

definition idle_threshold_ms :: "flow_state \<Rightarrow> transport_protocol \<Rightarrow> nat" where
  "idle_threshold_ms st protocol =
     (let status = status_for st protocol
      in if status = lit ''TIME_WAIT'' \<or> status = lit ''CLOSE_WAIT'' then 120000
         else if status = lit ''SYN_SENT'' then 30000
         else if protocol \<noteq> Tcp then 60000
         else 1800000)"

definition flow_is_stale :: "nat \<Rightarrow> flow_key \<Rightarrow> flow_state \<Rightarrow> bool" where
  "flow_is_stale now_ms key st \<longleftrightarrow> now_ms - fs_last_seen_ms st > idle_threshold_ms st (flk_protocol key)"

definition evict_idle_flow_key :: "flow_key \<Rightarrow> nat \<Rightarrow> flow_table \<Rightarrow> rstring option \<times> flow_table" where
  "evict_idle_flow_key key now_ms ft =
     (case map_of (ft_flows ft) key of
        None \<Rightarrow> (None, ft)
      | Some st \<Rightarrow>
          if flow_is_stale now_ms key st
          then (Some (fs_connection_id st),
                ft\<lparr>ft_flows := AList.delete key (ft_flows ft), ft_idle_evictions := ft_idle_evictions ft + 1\<rparr>)
          else (None, ft))"

section \<open>Observing a packet\<close>

fun transport_label :: "transport_protocol \<Rightarrow> rstring" where
  "transport_label Tcp = lit ''TCP''"
| "transport_label Udp = lit ''UDP''"
| "transport_label Icmp = lit ''ICMP''"
| "transport_label OtherProtocol = lit ''Other''"

definition hierarchy_add :: "rstring list \<Rightarrow> nat \<Rightarrow> flow_table \<Rightarrow> flow_table" where
  "hierarchy_add labels len ft =
     ft\<lparr>ft_protocol_tree := protocol_node_add (lit ''Ethernet'' # lit ''IP'' # labels) len (ft_protocol_tree ft)\<rparr>"

text \<open>Time stamp, first SYN sequence number per direction, and byte totals.\<close>

definition flow_touch :: "parsed_packet \<Rightarrow> bool \<Rightarrow> nat \<Rightarrow> flow_state \<Rightarrow> flow_state" where
  "flow_touch p is_outbound now_ms st =
     (let st1 = st\<lparr>fs_last_seen_ms := now_ms\<rparr>;
          syn = (case pp_tcp_flags p of Some flags \<Rightarrow> tf_syn flags | None \<Rightarrow> False);
          st2 = (case (syn, pp_seq p) of
                   (True, Some sequence) \<Rightarrow>
                     (if fs_syn_sequences st1 is_outbound = None
                      then st1\<lparr>fs_syn_sequences := (fs_syn_sequences st1)(is_outbound \<mapsto> sequence)\<rparr> else st1)
                 | _ \<Rightarrow> st1)
      in if is_outbound
         then st2\<lparr>fs_tx_bytes_total := fs_tx_bytes_total st2 + pp_total_len p,
                  fs_tx_bytes_this_tick := fs_tx_bytes_this_tick st2 + pp_total_len p\<rparr>
         else st2\<lparr>fs_rx_bytes_total := fs_rx_bytes_total st2 + pp_total_len p,
                  fs_rx_bytes_this_tick := fs_rx_bytes_this_tick st2 + pp_total_len p\<rparr>)"

fun flow_l7 :: "l7_info \<Rightarrow> bool \<Rightarrow> nat \<Rightarrow> flow_state \<Rightarrow> flow_state" where
  "flow_l7 (Http _ _) is_outbound remote_port st = st\<lparr>fs_app_layer_protocol := lit ''HTTP''\<rparr>"
| "flow_l7 (HttpResponse _ _ _ _) is_outbound remote_port st = st\<lparr>fs_app_layer_protocol := lit ''HTTP''\<rparr>"
| "flow_l7 (Dns _ _ _) is_outbound remote_port st = st\<lparr>fs_app_layer_protocol := lit ''DNS''\<rparr>"
| "flow_l7 (DnsResponse _ _ _ _ _ _) is_outbound remote_port st = st\<lparr>fs_app_layer_protocol := lit ''DNS''\<rparr>"
| "flow_l7 (TlsClientHello _ ja3 ja3_label client_random _ _) is_outbound remote_port st =
     (let st1 = st\<lparr>fs_app_layer_protocol := lit ''HTTPS/TLS'', fs_encryption := lit ''TLS''\<rparr>
      in if fs_ja3_fingerprint st1 = None
         then st1\<lparr>fs_ja3_fingerprint := ja3, fs_ja3_label := ja3_label, fs_client_random := client_random,
                  fs_client_is_outbound := Some is_outbound\<rparr>
         else st1)"
| "flow_l7 L7None is_outbound remote_port st =
     (if fs_app_layer_protocol st = lit ''Unknown''
      then (case well_known_protocol remote_port of
              Some name \<Rightarrow> st\<lparr>fs_app_layer_protocol := name\<rparr>
            | None \<Rightarrow> st)
      else st)"

fun rollup_label :: "l7_info \<Rightarrow> rstring \<Rightarrow> rstring \<Rightarrow> flow_table \<Rightarrow> flow_table" where
  "rollup_label (TlsClientHello _ ja3 (Some ja3_label) client_random _ _) local_addr remote_addr ft =
     ft\<lparr>ft_endpoint_rollups :=
          entry_get_mut remote_addr (ru_ja3_label_update (\<lambda>_. Some ja3_label)) (ft_endpoint_rollups ft),
        ft_conversation_rollups :=
          entry_get_mut (local_addr, remote_addr) (ru_ja3_label_update (\<lambda>_. Some ja3_label))
            (ft_conversation_rollups ft)\<rparr>"
| "rollup_label _ local_addr remote_addr ft = ft"

definition seq_not_newer :: "u32 \<Rightarrow> u32 \<Rightarrow> bool" where
  "seq_not_newer seq max_seen \<longleftrightarrow> sint (seq - max_seen) \<le> 0"

text \<open>Retransmission detection of one data segment: the verdict and the state after it.\<close>

definition flow_segment :: "u32 \<Rightarrow> bool \<Rightarrow> flow_state \<Rightarrow> bool \<times> flow_state" where
  "flow_segment seq is_outbound st =
     (let st1 = st\<lparr>fs_segments := fs_segments st + 1\<rparr>;
          is_retransmit = (case fs_max_seq_seen st1 is_outbound of
                             Some max_seen \<Rightarrow> seq_not_newer seq max_seen
                           | None \<Rightarrow> False)
      in (is_retransmit,
          if is_retransmit then st1\<lparr>fs_retransmits := fs_retransmits st1 + 1\<rparr>
          else st1\<lparr>fs_max_seq_seen := (fs_max_seq_seen st1)(is_outbound \<mapsto> seq)\<rparr>))"

text \<open>The handshake and closing flags; second component: whether this packet reset the flow.\<close>

definition flow_flags :: "tcp_flags \<Rightarrow> bool \<Rightarrow> nat \<Rightarrow> flow_state \<Rightarrow> flow_state \<times> bool" where
  "flow_flags flags is_outbound now_ms st =
     (let st1 = (if tf_syn flags \<and> \<not> tf_ack flags then st\<lparr>fs_syn_sent_at_ms := Some now_ms\<rparr> else st);
          st2 = (if tf_syn flags \<and> tf_ack flags \<and> \<not> is_outbound
                 then (case fs_syn_sent_at_ms st1 of
                         Some sent_at \<Rightarrow> st1\<lparr>fs_rtt_ms := Some (now_ms - sent_at)\<rparr>
                       | None \<Rightarrow> st1)
                 else st1);
          st3 = (if tf_ack flags then st2\<lparr>fs_established := True\<rparr> else st2);
          st4 = (if tf_fin flags then st3\<lparr>fs_fin_seen := True\<rparr> else st3)
      in if tf_rst flags then (st4\<lparr>fs_established := False, fs_rst_seen := True\<rparr>, \<not> fs_rst_seen st4)
         else (st4, False))"

definition flow_tcp :: "parsed_packet \<Rightarrow> bool \<Rightarrow> nat \<Rightarrow> flow_state \<Rightarrow> bool \<times> bool \<times> flow_state" where
  "flow_tcp p is_outbound now_ms st =
     (case pp_tcp_flags p of
        None \<Rightarrow> (False, False, st)
      | Some flags \<Rightarrow>
          let (st1, rst_transitioned) = flow_flags flags is_outbound now_ms st
          in case pp_seq p of
               Some seq \<Rightarrow>
                 if pp_payload p \<noteq> []
                 then (let (is_retransmit, st2) = flow_segment seq is_outbound st1
                       in (is_retransmit, rst_transitioned, st2))
                 else (False, rst_transitioned, st1)
             | None \<Rightarrow> (False, rst_transitioned, st1))"

definition record_rollups :: "flow_key \<Rightarrow> bool \<Rightarrow> nat \<Rightarrow> nat \<Rightarrow> bool \<Rightarrow> flow_table \<Rightarrow> flow_table" where
  "record_rollups key is_outbound len now_ms is_new ft =
     ft\<lparr>ft_total_flows_observed := (if is_new then ft_total_flows_observed ft + 1 else ft_total_flows_observed ft),
        ft_endpoint_rollups :=
          entry_update (flk_remote_addr key) rollup_state_default (rollup_record is_outbound len now_ms is_new)
            (ft_endpoint_rollups ft),
        ft_conversation_rollups :=
          entry_update (flk_local_addr key, flk_remote_addr key) rollup_state_default
            (rollup_record is_outbound len now_ms is_new) (ft_conversation_rollups ft)\<rparr>"

text \<open>The part of \<open>observe_inner\<close> after the packet's flow is known.\<close>

definition observe_flow ::
  "parsed_packet \<Rightarrow> l7_info \<Rightarrow> nat \<Rightarrow> bool \<Rightarrow> flow_key \<Rightarrow> bool \<Rightarrow> rstring option \<Rightarrow> flow_table
    \<Rightarrow> observe_result \<times> flow_table" where
  "observe_flow p l7 now_ms account_protocol_hierarchy key is_outbound closed_id ft =
     (let is_new = (map_of (ft_flows ft) key = None);
          ft1 = record_rollups key is_outbound (pp_total_len p) now_ms is_new ft;
          st0 = (case map_of (ft_flows ft) key of
                   Some st \<Rightarrow> st
                 | None \<Rightarrow> flow_state_default\<lparr>fs_connection_id := connection_id key\<rparr>);
          st1 = flow_l7 l7 is_outbound (flk_remote_port key) (flow_touch p is_outbound now_ms st0);
          ft2 = rollup_label l7 (flk_local_addr key) (flk_remote_addr key) ft1;
          ft3 = (if account_protocol_hierarchy
                 then hierarchy_add [transport_label (pp_protocol p), fs_app_layer_protocol st1] (pp_total_len p) ft2
                 else ft2);
          (is_retransmit, rst_transitioned, st2) = flow_tcp p is_outbound now_ms st1
      in (\<lparr>or_is_outbound = is_outbound, or_is_retransmit = is_retransmit, or_rst_transitioned = rst_transitioned,
           or_connection_id = (if rst_transitioned then Some (fs_connection_id st2) else None),
           or_closed_connection_id = closed_id\<rparr>,
          ft3\<lparr>ft_flows := AList.update key st2 (ft_flows ft3)\<rparr>))"

definition observe_inner ::
  "parsed_packet \<Rightarrow> l7_info \<Rightarrow> nat \<Rightarrow> bool \<Rightarrow> bool \<Rightarrow> flow_table \<Rightarrow> observe_result option \<times> flow_table" where
  "observe_inner p l7 now_ms account_protocol_hierarchy expire_idle_on_arrival ft0 =
     (let ft = (if account_protocol_hierarchy \<and> pp_protocol p \<noteq> Tcp \<and> pp_protocol p \<noteq> Udp
                then hierarchy_add [transport_label (pp_protocol p)] (pp_total_len p) ft0 else ft0)
      in case key_for (ft_local_addrs ft) p of
           None \<Rightarrow> (None, ft)
         | Some (key, is_outbound) \<Rightarrow>
             let (closed_id, ft1) = (if expire_idle_on_arrival then evict_idle_flow_key key now_ms ft else (None, ft));
                 (result, ft2) = observe_flow p l7 now_ms account_protocol_hierarchy key is_outbound closed_id ft1
             in (Some result, ft2))"

definition observe :: "parsed_packet \<Rightarrow> l7_info \<Rightarrow> nat \<Rightarrow> flow_table \<Rightarrow> observe_result option \<times> flow_table" where
  "observe p l7 now_ms ft = observe_inner p l7 now_ms True False ft"

definition observe_replay :: "parsed_packet \<Rightarrow> l7_info \<Rightarrow> nat \<Rightarrow> flow_table \<Rightarrow> observe_result option \<times> flow_table" where
  "observe_replay p l7 now_ms ft = observe_inner p l7 now_ms True True ft"

definition observe_reassembled ::
  "parsed_packet \<Rightarrow> parsed_packet \<Rightarrow> l7_info \<Rightarrow> nat \<Rightarrow> flow_table \<Rightarrow> observe_result option \<times> flow_table" where
  "observe_reassembled fragment reassembled l7 now_ms ft =
     (if pp_ip_fragment fragment = None then observe fragment l7 now_ms ft
      else observe_inner reassembled l7 now_ms False False (snd (observe fragment L7None now_ms ft)))"

definition observe_reassembled_replay ::
  "parsed_packet \<Rightarrow> parsed_packet \<Rightarrow> l7_info \<Rightarrow> nat \<Rightarrow> flow_table \<Rightarrow> observe_result option \<times> flow_table" where
  "observe_reassembled_replay fragment reassembled l7 now_ms ft =
     (if pp_ip_fragment fragment = None then observe_replay fragment l7 now_ms ft
      else observe_inner reassembled l7 now_ms False True (snd (observe_replay fragment L7None now_ms ft)))"

section \<open>Queries and snapshots\<close>

definition client_random_for :: "flow_key \<Rightarrow> flow_table \<Rightarrow> byte list option" where
  "client_random_for key ft = Option.bind (map_of (ft_flows ft) key) fs_client_random"

definition client_is_outbound_for :: "flow_key \<Rightarrow> flow_table \<Rightarrow> bool option" where
  "client_is_outbound_for key ft = Option.bind (map_of (ft_flows ft) key) fs_client_is_outbound"

definition tcp_syn_sequence_for :: "flow_key \<Rightarrow> bool \<Rightarrow> flow_table \<Rightarrow> u32 option" where
  "tcp_syn_sequence_for key local_is_sender ft =
     Option.bind (map_of (ft_flows ft) key) (\<lambda>st. fs_syn_sequences st local_is_sender)"

record flow_snapshot =
  fsn_key :: flow_key
  fsn_app_layer_protocol :: rstring
  fsn_status :: rstring
  fsn_encryption :: rstring
  fsn_rx_speed :: rat
  fsn_tx_speed :: rat
  fsn_rx_bytes_total :: nat
  fsn_tx_bytes_total :: nat
  fsn_latency_ms :: "nat option"
  fsn_packet_loss :: rat
  fsn_ja3_fingerprint :: "rstring option"
  fsn_ja3_label :: "rstring option"
  fsn_last_seen_ms :: nat
  fsn_client_random :: "byte list option"

definition elapsed_s :: "nat \<Rightarrow> nat \<Rightarrow> rat" where
  "elapsed_s now_ms last_ms = of_nat (max (now_ms - last_ms) 1) / 1000"

definition packet_loss_of :: "flow_state \<Rightarrow> rat" where
  "packet_loss_of st =
     min (if fs_segments st > 0 then of_nat (fs_retransmits st) / of_nat (fs_segments st) * 100 else 0) 100"

definition flow_snapshot_of :: "rat \<Rightarrow> flow_key \<times> flow_state \<Rightarrow> flow_snapshot" where
  "flow_snapshot_of elapsed entry =
     (let (key, st) = entry
      in \<lparr>fsn_key = key, fsn_app_layer_protocol = fs_app_layer_protocol st,
          fsn_status = status_for st (flk_protocol key), fsn_encryption = fs_encryption st,
          fsn_rx_speed = of_nat (fs_rx_bytes_this_tick st) / elapsed,
          fsn_tx_speed = of_nat (fs_tx_bytes_this_tick st) / elapsed,
          fsn_rx_bytes_total = fs_rx_bytes_total st, fsn_tx_bytes_total = fs_tx_bytes_total st,
          fsn_latency_ms = fs_rtt_ms st, fsn_packet_loss = packet_loss_of st,
          fsn_ja3_fingerprint = fs_ja3_fingerprint st, fsn_ja3_label = fs_ja3_label st,
          fsn_last_seen_ms = fs_last_seen_ms st, fsn_client_random = fs_client_random st\<rparr>)"

definition flow_drain_tick :: "flow_state \<Rightarrow> flow_state" where
  "flow_drain_tick st = st\<lparr>fs_rx_bytes_this_tick := 0, fs_tx_bytes_this_tick := 0\<rparr>"

definition ft_snapshot :: "nat \<Rightarrow> flow_table \<Rightarrow> flow_snapshot list \<times> flow_table" where
  "ft_snapshot now_ms ft =
     (map (flow_snapshot_of (elapsed_s now_ms (ft_last_snapshot_ms ft))) (ft_flows ft),
      ft\<lparr>ft_last_snapshot_ms := now_ms, ft_flows := map (\<lambda>(k, st). (k, flow_drain_tick st)) (ft_flows ft)\<rparr>)"

record endpoint_snapshot =
  esn_host :: rstring
  esn_rx_bytes_total :: nat
  esn_tx_bytes_total :: nat
  esn_rx_packets_total :: nat
  esn_tx_packets_total :: nat
  esn_rx_speed :: rat
  esn_tx_speed :: rat
  esn_flow_count :: nat
  esn_first_seen_ms :: nat
  esn_last_seen_ms :: nat
  esn_ja3_label :: "rstring option"
  esn_observed_name :: "rstring option"

definition rollup_drain_tick :: "rollup_state \<Rightarrow> rollup_state" where
  "rollup_drain_tick r = r\<lparr>ru_rx_bytes_this_tick := 0, ru_tx_bytes_this_tick := 0\<rparr>"

definition first_seen_or_zero :: "rollup_state \<Rightarrow> nat" where
  "first_seen_or_zero r = (case ru_first_seen_ms r of Some t \<Rightarrow> t | None \<Rightarrow> 0)"

definition ft_endpoint_snapshot :: "nat \<Rightarrow> flow_table \<Rightarrow> endpoint_snapshot list \<times> flow_table" where
  "ft_endpoint_snapshot now_ms ft =
     (let elapsed = elapsed_s now_ms (ft_last_endpoint_snapshot_ms ft)
      in (map (\<lambda>(host, r).
              \<lparr>esn_host = host, esn_rx_bytes_total = ru_rx_bytes_total r, esn_tx_bytes_total = ru_tx_bytes_total r,
               esn_rx_packets_total = ru_rx_packets_total r, esn_tx_packets_total = ru_tx_packets_total r,
               esn_rx_speed = of_nat (ru_rx_bytes_this_tick r) / elapsed,
               esn_tx_speed = of_nat (ru_tx_bytes_this_tick r) / elapsed,
               esn_flow_count = ru_flow_count r, esn_first_seen_ms = first_seen_or_zero r,
               esn_last_seen_ms = ru_last_seen_ms r, esn_ja3_label = ru_ja3_label r,
               esn_observed_name = names_lookup host now_ms (ft_observed_names ft)\<rparr>) (ft_endpoint_rollups ft),
          ft\<lparr>ft_last_endpoint_snapshot_ms := now_ms,
             ft_endpoint_rollups := map (\<lambda>(k, r). (k, rollup_drain_tick r)) (ft_endpoint_rollups ft)\<rparr>))"

record conversation_snapshot =
  csn_local_addr :: rstring
  csn_remote_addr :: rstring
  csn_rx_bytes_total :: nat
  csn_tx_bytes_total :: nat
  csn_rx_packets_total :: nat
  csn_tx_packets_total :: nat
  csn_rx_speed :: rat
  csn_tx_speed :: rat
  csn_flow_count :: nat
  csn_first_seen_ms :: nat
  csn_last_seen_ms :: nat
  csn_duration_ms :: nat
  csn_ja3_label :: "rstring option"

definition ft_conversation_snapshot :: "nat \<Rightarrow> flow_table \<Rightarrow> conversation_snapshot list \<times> flow_table" where
  "ft_conversation_snapshot now_ms ft =
     (let elapsed = elapsed_s now_ms (ft_last_conversation_snapshot_ms ft)
      in (map (\<lambda>((local_addr, remote_addr), r).
              \<lparr>csn_local_addr = local_addr, csn_remote_addr = remote_addr,
               csn_rx_bytes_total = ru_rx_bytes_total r, csn_tx_bytes_total = ru_tx_bytes_total r,
               csn_rx_packets_total = ru_rx_packets_total r, csn_tx_packets_total = ru_tx_packets_total r,
               csn_rx_speed = of_nat (ru_rx_bytes_this_tick r) / elapsed,
               csn_tx_speed = of_nat (ru_tx_bytes_this_tick r) / elapsed,
               csn_flow_count = ru_flow_count r, csn_first_seen_ms = first_seen_or_zero r,
               csn_last_seen_ms = ru_last_seen_ms r,
               csn_duration_ms = ru_last_seen_ms r - first_seen_or_zero r, csn_ja3_label = ru_ja3_label r\<rparr>) (ft_conversation_rollups ft),
          ft\<lparr>ft_last_conversation_snapshot_ms := now_ms,
             ft_conversation_rollups := map (\<lambda>(k, r). (k, rollup_drain_tick r)) (ft_conversation_rollups ft)\<rparr>))"

section \<open>Eviction and reset\<close>

definition ft_evict_stale :: "nat \<Rightarrow> flow_table \<Rightarrow> evicted_flows \<times> flow_table" where
  "ft_evict_stale now_ms ft =
     (let idle = map fst (filter (\<lambda>(k, st). flow_is_stale now_ms k st) (ft_flows ft));
          live = filter (\<lambda>(k, st). \<not> flow_is_stale now_ms k st) (ft_flows ft);
          excess = length live - ft_max_flows ft;
          over = (if length live > ft_max_flows ft then take excess (keys_by_age fs_last_seen_ms live) else [])
      in (\<lparr>ef_idle = idle, ef_capacity = over\<rparr>,
          ft\<lparr>ft_flows := fold AList.delete over live,
             ft_idle_evictions := ft_idle_evictions ft + length idle,
             ft_capacity_evictions := ft_capacity_evictions ft + length over\<rparr>))"

definition ft_reset :: "rstring list \<Rightarrow> flow_table \<Rightarrow> flow_key list \<times> flow_table" where
  "ft_reset local_addrs ft =
     (map fst (ft_flows ft),
      ft\<lparr>ft_local_addrs := local_addrs, ft_observed_names := names_clear (ft_observed_names ft), ft_flows := []\<rparr>)"

end
