(* ===== verification/FlowCorrect.thy ===== *)
theory FlowCorrect
  imports FlowTable
begin

text \<open>
  What the flow table promises: retransmissions are told apart from new data across the wrap of
  the sequence space, eviction keeps the table within its ceiling and takes the oldest flows,
  and the per-host totals are those of the traffic log whatever is
  evicted, drained or reset in between.
\<close>

section \<open>Retransmissions\<close>

lemma max_seq_touch [simp]: "fs_max_seq_seen (flow_touch p out t st) = fs_max_seq_seen st"
  by (simp add: flow_touch_def Let_def split: option.split bool.split)

lemma max_seq_l7 [simp]: "fs_max_seq_seen (flow_l7 l7 out port st) = fs_max_seq_seen st"
  by (cases l7) (simp_all add: Let_def split: option.split)

lemma max_seq_flags [simp]: "fs_max_seq_seen (fst (flow_flags flags out t st)) = fs_max_seq_seen st"
  by (simp add: flow_flags_def Let_def split: option.split)

lemma flow_segment_offsets:
  assumes "fs_max_seq_seen st out = Some (isn + of_nat m)" and "s < 2 ^ 31" "m < 2 ^ 31"
  shows "fst (flow_segment (isn + of_nat s) out st) \<longleftrightarrow> s \<le> m"
    and "fs_max_seq_seen (snd (flow_segment (isn + of_nat s) out st)) out = Some (isn + of_nat (max s m))"
  using assms sint_small_diff [of s m] by (auto simp: flow_segment_def seq_not_newer_def Let_def max_def)

lemma flow_tcp_data:
  assumes "pp_tcp_flags p = Some flags" "pp_seq p = Some seq" "pp_payload p \<noteq> []"
  shows "flow_tcp p out t st =
    (let st1 = fst (flow_flags flags out t st)
     in (fst (flow_segment seq out st1), snd (flow_flags flags out t st), snd (flow_segment seq out st1)))"
  using assms by (simp add: flow_tcp_def case_prod_unfold Let_def)

lemma observe_flow_state:
  assumes "observe p l7 t ft = (Some r, ft')"
    and "key_for (ft_local_addrs ft) p = Some (key, out)" and "map_of (ft_flows ft) key = Some st"
  shows "or_is_retransmit r = fst (flow_tcp p out t (flow_l7 l7 out (flk_remote_port key) (flow_touch p out t st)))"
    and "map_of (ft_flows ft') key =
      Some (snd (snd (flow_tcp p out t (flow_l7 l7 out (flk_remote_port key) (flow_touch p out t st)))))"
proof -
  have "ft_flows (hierarchy_add ls n ft) = ft_flows ft" "ft_local_addrs (hierarchy_add ls n ft) = ft_local_addrs ft" for ls n ft
    by (simp_all add: hierarchy_add_def)
  then show "or_is_retransmit r = fst (flow_tcp p out t (flow_l7 l7 out (flk_remote_port key) (flow_touch p out t st)))"
    "map_of (ft_flows ft') key =
      Some (snd (snd (flow_tcp p out t (flow_l7 l7 out (flk_remote_port key) (flow_touch p out t st)))))"
    using assms by (auto simp: observe_def observe_inner_def observe_flow_def Let_def update_conv case_prod_unfold
        split: if_splits)
qed

text \<open>
  Data segments are told apart from retransmissions by their position in the stream, across
  the wrap of the 32-bit sequence space: with the highest segment so far at offset \<open>m\<close>, a segment
  at offset \<open>s\<close> is reported as a retransmission exactly when it is not beyond it, and the highest
  offset becomes the larger of the two, so one wrap never turns later data into retransmissions.
\<close>

lemma retransmit_wrap_safe:
  assumes "observe p l7 t ft = (Some r, ft')"
    and "key_for (ft_local_addrs ft) p = Some (key, out)" "map_of (ft_flows ft) key = Some st"
    and "pp_tcp_flags p = Some flags" "pp_seq p = Some (isn + of_nat s)" "pp_payload p \<noteq> []"
    and "fs_max_seq_seen st out = Some (isn + of_nat m)" "s < 2 ^ 31" "m < 2 ^ 31"
  shows "(or_is_retransmit r \<longleftrightarrow> s \<le> m)
    \<and> (\<exists>st'. map_of (ft_flows ft') key = Some st' \<and> fs_max_seq_seen st' out = Some (isn + of_nat (max s m)))"
proof -
  let ?st = "fst (flow_flags flags out t (flow_l7 l7 out (flk_remote_port key) (flow_touch p out t st)))"
  have "fs_max_seq_seen ?st out = Some (isn + of_nat m)" using assms(7) by simp
  note seg = flow_segment_offsets [OF this assms(8,9)]
  show ?thesis
    using observe_flow_state [OF assms(1-3)] flow_tcp_data [OF assms(4-6)] seg by (simp add: Let_def)
qed

lemma retransmit_wrap_safe_witness:
  "\<exists>p ft r ft'. observe p L7None 7 ft = (Some r, ft') \<and> pp_seq p = Some 24 \<and> \<not> or_is_retransmit r"
proof -
  define flags where "flags = \<lparr>tf_syn = False, tf_ack = True, tf_fin = False, tf_rst = False,
    tf_window_size = 9, tf_ack_number = 1\<rparr>"
  define p where "p = \<lparr>pp_src_mac = no_mac, pp_dst_mac = no_mac, pp_src_ip = lit ''a'', pp_dst_ip = lit ''b'',
    pp_protocol = Tcp, pp_src_port = Some 50000, pp_dst_port = Some 443, pp_tcp_flags = Some flags,
    pp_seq = Some (0xFFFFFFF0 + of_nat 40 :: u32), pp_ttl = 64, pp_total_len = 44, pp_payload = [1, 2], pp_header_bytes = [],
    pp_ip_header_len = 20, pp_transport_header_len = 20, pp_ip_version = 4, pp_ip_checksum = None,
    pp_vlan_tag = None, pp_ip_declared_payload_len = 22, pp_ip_fragment = None\<rparr>"
  define key where "key = \<lparr>flk_protocol = Tcp, flk_local_addr = lit ''a'', flk_local_port = 50000,
    flk_remote_addr = lit ''b'', flk_remote_port = 443\<rparr>"
  define st where "st = flow_state_default\<lparr>fs_max_seq_seen := [True \<mapsto> 0xFFFFFFF0 + of_nat 10 :: u32]\<rparr>"
  define ft where "ft = (flow_table_new_with_capacity [lit ''a''] 4)\<lparr>ft_flows := [(key, st)]\<rparr>"
  have key: "key_for (ft_local_addrs ft) p = Some (key, True)"
    by (simp add: key_for_def ft_def flow_table_new_with_capacity_def p_def is_local_def src_local_key_def key_def)
  obtain r ft' where obs: "observe p L7None 7 ft = (Some r, ft')"
    using key by (simp add: observe_def observe_inner_def p_def Let_def case_prod_unfold)
  have "\<not> or_is_retransmit r"
    using retransmit_wrap_safe [OF obs key, of st flags "0xFFFFFFF0" 40 10]
    by (simp add: ft_def st_def) (simp add: p_def)
  moreover have "pp_seq p = Some 24" by (simp add: p_def)
  ultimately show ?thesis using obs by blast
qed

section \<open>Eviction\<close>

interpretation fl: capacity_store "\<lambda>flows :: (flow_key \<times> flow_state) list. flows" "\<lambda>_. 0" "\<lambda>_. 0" AList.delete
  by unfold_locales simp_all

text \<open>Taking the excess off the age order is the shared eviction loop, stopped by the ceiling.\<close>

lemma take_excess_is_evict_loop:
  assumes "distinct ks" and "set ks \<subseteq> fst ` set es" and "distinct (map fst es)"
  shows "fold AList.delete (take (length es - n) ks) es = evict_loop (fl.within n b) AList.delete ks es"
  using assms
proof (induction ks arbitrary: es)
  case (Cons k ks)
  show ?case
  proof (cases "length es \<le> n")
    case True
    then show ?thesis by (simp add: fl.within_def)
  next
    case False
    obtain e where e: "map_of es k = Some e" using Cons.prems by (auto simp: image_iff dest: weak_map_of_SomeI)
    have len: "Suc (length (AList.delete k es)) = length es"
      by (rule length_delete_member [OF Cons.prems(3) e])
    then have "length es - n = Suc (length (AList.delete k es) - n)" using False by simp
    then have "take (length es - n) (k # ks) = k # take (length (AList.delete k es) - n) ks" by simp
    moreover have "set ks \<subseteq> fst ` set (AList.delete k es)"
      using Cons.prems by (force simp: AList.delete_eq image_iff)
    moreover have "\<not> fl.within n b es" using False by (simp add: fl.within_def)
    ultimately show ?thesis using Cons by simp
  qed
qed simp

definition live_flows :: "nat \<Rightarrow> flow_table \<Rightarrow> (flow_key \<times> flow_state) list" where
  "live_flows now_ms ft = filter (\<lambda>(k, st). \<not> flow_is_stale now_ms k st) (ft_flows ft)"

lemma distinct_live: "distinct (map fst (ft_flows ft)) \<Longrightarrow> distinct (map fst (live_flows t ft))"
  by (simp add: live_flows_def distinct_map_filter)

lemma evict_stale_flows:
  assumes "distinct (map fst (ft_flows ft))"
  shows "ft_flows (snd (ft_evict_stale t ft)) =
    evict_loop (fl.within (ft_max_flows ft) 0) AList.delete (keys_by_age fs_last_seen_ms (live_flows t ft)) (live_flows t ft)"
proof -
  have "ft_flows (snd (ft_evict_stale t ft)) =
      fold AList.delete (take (length (live_flows t ft) - ft_max_flows ft) (keys_by_age fs_last_seen_ms (live_flows t ft)))
        (live_flows t ft)"
    by (simp add: ft_evict_stale_def Let_def live_flows_def)
  then show ?thesis
    using take_excess_is_evict_loop [of "keys_by_age fs_last_seen_ms (live_flows t ft)" "live_flows t ft" "ft_max_flows ft" 0]
      distinct_live [OF assms, of t] distinct_keys_by_age [of "live_flows t ft"] by simp
qed

lemma fold_delete: "fold AList.delete ks es = filter (\<lambda>x. fst x \<notin> set ks) es"
proof (induction ks arbitrary: es)
  case (Cons k ks)
  then show ?case by (auto simp: AList.delete_eq case_prod_unfold conj_commute intro: filter_cong)
qed simp

lemma evict_stale_parts:
  assumes "distinct (map fst (ft_flows ft))" and "ft_evict_stale t ft = (ev, ft')"
  shows "map_of (ft_flows ft) k = Some st \<Longrightarrow> k \<in> set (ef_idle ev) \<longleftrightarrow> flow_is_stale t k st"
    and "ft_flows ft' = fold AList.delete (ef_capacity ev) (live_flows t ft)"
    and "set (ef_capacity ev) \<subseteq> fst ` set (live_flows t ft)"
proof -
  show "k \<in> set (ef_idle ev) \<longleftrightarrow> flow_is_stale t k st" if "map_of (ft_flows ft) k = Some st"
  proof -
    have "(k, st') \<in> set (ft_flows ft) \<longleftrightarrow> st' = st" for st'
      using that assms(1) by (metis Some_eq_map_of_iff option.inject)
    then show ?thesis using assms(2) by (auto simp: ft_evict_stale_def Let_def image_iff)
  qed
  show "ft_flows ft' = fold AList.delete (ef_capacity ev) (live_flows t ft)"
    using assms(2) by (auto simp: ft_evict_stale_def Let_def live_flows_def)
  have "ef_capacity ev = take (length (live_flows t ft) - ft_max_flows ft) (keys_by_age fs_last_seen_ms (live_flows t ft))"
    using assms(2) by (auto simp: ft_evict_stale_def Let_def live_flows_def)
  then show "set (ef_capacity ev) \<subseteq> fst ` set (live_flows t ft)"
    by (metis set_keys_by_age set_take_subset)
qed

lemma live_lookup:
  "distinct (map fst (ft_flows ft)) \<Longrightarrow> map_of (live_flows t ft) k =
    (case map_of (ft_flows ft) k of Some st \<Rightarrow> if flow_is_stale t k st then None else Some st | None \<Rightarrow> None)"
  by (auto simp: live_flows_def map_of_filter_distinct split: option.split)

text \<open>
  A sweep leaves at most the configured number of flows. It reports as idle exactly the flows
  past the threshold of their status, as evicted for capacity only flows that were seen no later
  than every flow it keeps, keeps every other flow unchanged, and counts both kinds.
\<close>

lemma flow_eviction_oldest_first:
  assumes "distinct (map fst (ft_flows ft))" and "ft_evict_stale t ft = (ev, ft')"
  shows "length (ft_flows ft') \<le> ft_max_flows ft
    \<and> (\<forall>k st. map_of (ft_flows ft) k = Some st \<longrightarrow>
         (k \<in> set (ef_idle ev) \<longleftrightarrow> flow_is_stale t k st)
         \<and> map_of (ft_flows ft') k = (if k \<in> set (ef_idle ev) \<union> set (ef_capacity ev) then None else Some st))
    \<and> (\<forall>k st k' st'. k \<in> set (ef_capacity ev) \<longrightarrow> map_of (ft_flows ft) k = Some st \<longrightarrow>
         map_of (ft_flows ft') k' = Some st' \<longrightarrow> fs_last_seen_ms st \<le> fs_last_seen_ms st')
    \<and> ft_idle_evictions ft' = ft_idle_evictions ft + length (ef_idle ev)
    \<and> ft_capacity_evictions ft' = ft_capacity_evictions ft + length (ef_capacity ev)"
proof -
  let ?live = "live_flows t ft" and ?ks = "keys_by_age fs_last_seen_ms (live_flows t ft)"
  have dist: "distinct (map fst ?live)" by (rule distinct_live [OF assms(1)])
  have flows': "ft_flows ft' = evict_loop (fl.within (ft_max_flows ft) 0) AList.delete ?ks ?live"
    using evict_stale_flows [OF assms(1), of t] assms(2) by simp
  note parts = evict_stale_parts [OF assms]
  have kept: "map_of (ft_flows ft') k = (if k \<in> set (ef_capacity ev) then None else map_of ?live k)" for k
    using dist by (simp add: parts(2) fold_delete map_of_filter_distinct split: option.split)
  have "length (ft_flows ft') \<le> ft_max_flows ft"
    unfolding flows' using fl.evict_loop_within [of ?live ?ks "ft_max_flows ft" 0] dist
    by (simp add: fl.balanced_def fl.within_def)
  moreover have "(k \<in> set (ef_idle ev) \<longleftrightarrow> flow_is_stale t k st)
      \<and> map_of (ft_flows ft') k = (if k \<in> set (ef_idle ev) \<union> set (ef_capacity ev) then None else Some st)"
    if "map_of (ft_flows ft) k = Some st" for k st
    using that parts(1) [OF that] by (simp add: kept live_lookup [OF assms(1)])
  moreover have "fs_last_seen_ms st \<le> fs_last_seen_ms st'"
    if k: "k \<in> set (ef_capacity ev)" "map_of (ft_flows ft) k = Some st" "map_of (ft_flows ft') k' = Some st'" for k st k' st'
  proof (rule fl.evict_oldest_first [OF dist])
    have "map_of ?live k \<noteq> None" using k(1) parts(3) by (auto simp: map_of_eq_None_iff)
    then show "map_of ?live k = Some st" using k(2) by (simp add: live_lookup [OF assms(1)] split: if_splits)
    show "map_of ?live k' = Some st'" using k(3) by (simp add: kept split: if_splits)
    show "map_of (evict_loop (fl.within (ft_max_flows ft) 0) AList.delete ?ks ?live) k' = Some st'"
      "map_of (evict_loop (fl.within (ft_max_flows ft) 0) AList.delete ?ks ?live) k = None"
      using k kept [of k] by (simp_all flip: flows')
  qed
  moreover have "ft_idle_evictions ft' = ft_idle_evictions ft + length (ef_idle ev)"
    "ft_capacity_evictions ft' = ft_capacity_evictions ft + length (ef_capacity ev)"
    using assms(2) by (auto simp: ft_evict_stale_def Let_def)
  ultimately show ?thesis by blast
qed

lemma flow_eviction_oldest_first_witness:
  "\<exists>ft ev ft'. length (ft_flows ft) = 2 \<and> ft_evict_stale 50 ft = (ev, ft') \<and> length (ft_flows ft') \<le> 1"
proof -
  define key where "key port = \<lparr>flk_protocol = Udp, flk_local_addr = lit ''a'', flk_local_port = port,
    flk_remote_addr = lit ''b'', flk_remote_port = 53\<rparr>" for port
  define ft where "ft = (flow_table_new_with_capacity [] 1)\<lparr>ft_flows :=
    [(key 1, flow_state_default\<lparr>fs_last_seen_ms := 30\<rparr>), (key 2, flow_state_default\<lparr>fs_last_seen_ms := 20\<rparr>)]\<rparr>"
  have "distinct (map fst (ft_flows ft))" by (simp add: ft_def key_def)
  from flow_eviction_oldest_first [OF this, of 50] have "length (ft_flows (snd (ft_evict_stale 50 ft))) \<le> ft_max_flows ft"
    by (metis prod.collapse)
  moreover have "ft_max_flows ft = 1" "length (ft_flows ft) = 2"
    by (simp_all add: ft_def flow_table_new_with_capacity_def)
  ultimately show ?thesis by (metis prod.collapse)
qed

section \<open>Runs of the table\<close>

datatype flow_event =
    Observe parsed_packet l7_info nat
  | ObserveReplay parsed_packet l7_info nat
  | ObserveReassembled parsed_packet parsed_packet l7_info nat
  | ObserveReassembledReplay parsed_packet parsed_packet l7_info nat
  | EvictStale nat
  | TakeSnapshot nat
  | TakeEndpointSnapshot nat
  | TakeConversationSnapshot nat
  | LearnDns rstring "dns_answer list" nat
  | ResetTable "rstring list"

fun flow_step :: "flow_event \<Rightarrow> flow_table \<Rightarrow> flow_table" where
  "flow_step (Observe p l7 t) ft = snd (observe p l7 t ft)"
| "flow_step (ObserveReplay p l7 t) ft = snd (observe_replay p l7 t ft)"
| "flow_step (ObserveReassembled p q l7 t) ft = snd (observe_reassembled p q l7 t ft)"
| "flow_step (ObserveReassembledReplay p q l7 t) ft = snd (observe_reassembled_replay p q l7 t ft)"
| "flow_step (EvictStale t) ft = snd (ft_evict_stale t ft)"
| "flow_step (TakeSnapshot t) ft = snd (ft_snapshot t ft)"
| "flow_step (TakeEndpointSnapshot t) ft = snd (ft_endpoint_snapshot t ft)"
| "flow_step (TakeConversationSnapshot t) ft = snd (ft_conversation_snapshot t ft)"
| "flow_step (LearnDns q answers t) ft = learn_dns_response q answers t ft"
| "flow_step (ResetTable addrs) ft = snd (ft_reset addrs ft)"

fun flow_run :: "flow_event list \<Rightarrow> flow_table \<Rightarrow> flow_table" where
  "flow_run [] ft = ft"
| "flow_run (ev # evs) ft = flow_run evs (flow_step ev ft)"

text \<open>The packets an event hands to \<^const>\<open>observe_inner\<close>, with its two switches.\<close>

fun inner_calls :: "flow_event \<Rightarrow> (parsed_packet \<times> l7_info \<times> nat \<times> bool \<times> bool) list" where
  "inner_calls (Observe p l7 t) = [(p, l7, t, True, False)]"
| "inner_calls (ObserveReplay p l7 t) = [(p, l7, t, True, True)]"
| "inner_calls (ObserveReassembled p q l7 t) =
     (if pp_ip_fragment p = None then [(p, l7, t, True, False)] else [(p, L7None, t, True, False), (q, l7, t, False, False)])"
| "inner_calls (ObserveReassembledReplay p q l7 t) =
     (if pp_ip_fragment p = None then [(p, l7, t, True, True)] else [(p, L7None, t, True, True), (q, l7, t, False, True)])"
| "inner_calls _ = []"

definition inner_call :: "parsed_packet \<times> l7_info \<times> nat \<times> bool \<times> bool \<Rightarrow> flow_table \<Rightarrow> flow_table" where
  "inner_call c ft = (case c of (p, l7, t, acct, expire) \<Rightarrow> snd (observe_inner p l7 t acct expire ft))"

lemmas observe_defs = observe_def observe_replay_def observe_reassembled_def observe_reassembled_replay_def

lemma flow_step_calls:
  "inner_calls ev \<noteq> [] \<Longrightarrow> flow_step ev ft = fold inner_call (inner_calls ev) ft"
  by (cases ev) (auto simp: observe_defs inner_call_def)

section \<open>Totals are those of the traffic log\<close>

text \<open>
  The specification of a rollup: an accumulator of bytes and packets sent and received over the
  log of attributed packets, which knows nothing of flows, evictions, snapshots or resets other
  than the list of local addresses they change.
\<close>

type_synonym traffic_totals = "nat \<times> nat \<times> nat \<times> nat"

fun add_traffic :: "bool \<Rightarrow> nat \<Rightarrow> traffic_totals \<Rightarrow> traffic_totals" where
  "add_traffic True len (tx, rx, txp, rxp) = (tx + len, rx, txp + 1, rxp)"
| "add_traffic False len (tx, rx, txp, rxp) = (tx, rx + len, txp, rxp + 1)"

definition packet_log :: "rstring list \<Rightarrow> parsed_packet \<Rightarrow> (rstring \<times> rstring \<times> bool \<times> nat) list" where
  "packet_log addrs p =
     (case key_for addrs p of
        None \<Rightarrow> []
      | Some (key, out) \<Rightarrow> [(flk_local_addr key, flk_remote_addr key, out, pp_total_len p)])"

fun traffic_log :: "rstring list \<Rightarrow> flow_event list \<Rightarrow> (rstring \<times> rstring \<times> bool \<times> nat) list" where
  "traffic_log addrs [] = []"
| "traffic_log addrs (ResetTable addrs' # evs) = traffic_log addrs' evs"
| "traffic_log addrs (ev # evs) =
     concat (map (\<lambda>(p, l7, t, acct, expire). packet_log addrs p) (inner_calls ev)) @ traffic_log addrs evs"

definition totals_of ::
  "(rstring \<Rightarrow> rstring \<Rightarrow> bool) \<Rightarrow> (rstring \<times> rstring \<times> bool \<times> nat) list \<Rightarrow> traffic_totals \<Rightarrow> traffic_totals" where
  "totals_of P tlog start =
     fold (\<lambda>(l, r, out, len) tot. if P l r then add_traffic out len tot else tot) tlog start"

definition rollup_totals :: "'k \<Rightarrow> ('k \<times> rollup_state) list \<Rightarrow> traffic_totals" where
  "rollup_totals k rs =
     (let r = (case map_of rs k of Some r \<Rightarrow> r | None \<Rightarrow> rollup_state_default)
      in (ru_tx_bytes_total r, ru_rx_bytes_total r, ru_tx_packets_total r, ru_rx_packets_total r))"

lemma rollup_totals_record:
  "rollup_totals k (entry_update k' rollup_state_default (rollup_record out len t new) rs) =
     (if k = k' then add_traffic out len (rollup_totals k rs) else rollup_totals k rs)"
  by (cases out) (simp_all add: rollup_totals_def entry_update_def rollup_record_def Let_def update_conv)

lemma rollup_totals_label: "rollup_totals k (entry_get_mut k' (ru_ja3_label_update f) rs) = rollup_totals k rs"
  by (simp add: rollup_totals_def entry_get_mut_def Let_def update_conv split: option.split)

lemma rollup_totals_drain: "rollup_totals k (map (\<lambda>(k, r). (k, rollup_drain_tick r)) rs) = rollup_totals k rs"
proof -
  have "map_of (map (\<lambda>(k, r). (k, rollup_drain_tick r)) rs) k = map_option rollup_drain_tick (map_of rs k)"
    by (induction rs) auto
  then show ?thesis by (simp add: rollup_totals_def Let_def rollup_drain_tick_def split: option.split)
qed

lemma hierarchy_add_frame [simp]:
  "ft_flows (hierarchy_add ls n ft) = ft_flows ft" "ft_local_addrs (hierarchy_add ls n ft) = ft_local_addrs ft"
  "ft_endpoint_rollups (hierarchy_add ls n ft) = ft_endpoint_rollups ft"
  "ft_conversation_rollups (hierarchy_add ls n ft) = ft_conversation_rollups ft"
  by (simp_all add: hierarchy_add_def)

lemma evict_key_frame [simp]:
  "ft_local_addrs (snd (evict_idle_flow_key key t ft)) = ft_local_addrs ft"
  "ft_endpoint_rollups (snd (evict_idle_flow_key key t ft)) = ft_endpoint_rollups ft"
  "ft_conversation_rollups (snd (evict_idle_flow_key key t ft)) = ft_conversation_rollups ft"
  "ft_protocol_tree (snd (evict_idle_flow_key key t ft)) = ft_protocol_tree ft"
  by (simp_all add: evict_idle_flow_key_def split: option.split)

lemma rollup_label_frame [simp]:
  "ft_local_addrs (rollup_label l7 la ra ft) = ft_local_addrs ft"
  "ft_protocol_tree (rollup_label l7 la ra ft) = ft_protocol_tree ft"
  "rollup_totals h (ft_endpoint_rollups (rollup_label l7 la ra ft)) = rollup_totals h (ft_endpoint_rollups ft)"
  "rollup_totals pr (ft_conversation_rollups (rollup_label l7 la ra ft)) = rollup_totals pr (ft_conversation_rollups ft)"
  by (cases "(l7, la, ra, ft)" rule: rollup_label.cases; simp add: rollup_totals_label)+

lemma observe_flow_totals:
  fixes p l7 t acct key out cid ft
  defines "ft' \<equiv> snd (observe_flow p l7 t acct key out cid ft)"
  shows "ft_local_addrs ft' = ft_local_addrs ft"
    and "rollup_totals h (ft_endpoint_rollups ft') =
      (if h = flk_remote_addr key then add_traffic out (pp_total_len p) (rollup_totals h (ft_endpoint_rollups ft))
       else rollup_totals h (ft_endpoint_rollups ft))"
    and "rollup_totals pr (ft_conversation_rollups ft') =
      (if pr = (flk_local_addr key, flk_remote_addr key)
       then add_traffic out (pp_total_len p) (rollup_totals pr (ft_conversation_rollups ft))
       else rollup_totals pr (ft_conversation_rollups ft))"
  by (simp_all add: ft'_def observe_flow_def Let_def case_prod_unfold record_rollups_def rollup_totals_record)

lemma inner_call_totals:
  assumes "c = (p, l7, t, acct, expire)"
  shows "ft_local_addrs (inner_call c ft) = ft_local_addrs ft"
    and "rollup_totals h (ft_endpoint_rollups (inner_call c ft)) =
      totals_of (\<lambda>l r. r = h) (packet_log (ft_local_addrs ft) p) (rollup_totals h (ft_endpoint_rollups ft))"
    and "rollup_totals pr (ft_conversation_rollups (inner_call c ft)) =
      totals_of (\<lambda>l r. (l, r) = pr) (packet_log (ft_local_addrs ft) p) (rollup_totals pr (ft_conversation_rollups ft))"
  by (simp_all add: assms inner_call_def observe_inner_def packet_log_def totals_of_def Let_def case_prod_unfold
      observe_flow_totals split: option.split)

lemma totals_of_append: "totals_of P (xs @ ys) start = totals_of P ys (totals_of P xs start)"
  by (simp add: totals_of_def)

lemma inner_calls_totals:
  defines "calls_log addrs cs \<equiv> concat (map (\<lambda>(p, l7, t, acct, expire). packet_log addrs p) cs)"
  shows "ft_local_addrs (fold inner_call cs ft) = ft_local_addrs ft"
    and "rollup_totals h (ft_endpoint_rollups (fold inner_call cs ft)) =
      totals_of (\<lambda>l r. r = h) (calls_log (ft_local_addrs ft) cs) (rollup_totals h (ft_endpoint_rollups ft))"
    and "rollup_totals pr (ft_conversation_rollups (fold inner_call cs ft)) =
      totals_of (\<lambda>l r. (l, r) = pr) (calls_log (ft_local_addrs ft) cs) (rollup_totals pr (ft_conversation_rollups ft))"
proof (induction cs arbitrary: ft)
  case (Cons c cs)
  obtain p l7 t acct expire where c: "c = (p, l7, t, acct, expire)" by (cases c)
  note step = inner_call_totals [OF c]
  { case 1 show ?case using Cons.IH(1) step(1) by simp }
  { case 2 show ?case using Cons.IH(2) step(1,2) by (simp add: calls_log_def c totals_of_append) }
  { case 3 show ?case using Cons.IH(3) step(1,3) by (simp add: calls_log_def c totals_of_append) }
qed (simp_all add: calls_log_def totals_of_def)

text \<open>The events that hand no packet to the table leave the totals alone.\<close>

lemma quiet_step_totals:
  assumes "inner_calls ev = []"
  shows "rollup_totals h (ft_endpoint_rollups (flow_step ev ft)) = rollup_totals h (ft_endpoint_rollups ft)"
    and "rollup_totals pr (ft_conversation_rollups (flow_step ev ft)) = rollup_totals pr (ft_conversation_rollups ft)"
    and "ft_local_addrs (flow_step ev ft) = (case ev of ResetTable addrs \<Rightarrow> addrs | _ \<Rightarrow> ft_local_addrs ft)"
    and "ft_protocol_tree (flow_step ev ft) = ft_protocol_tree ft"
  using assms
  by (cases ev; simp add: ft_evict_stale_def ft_snapshot_def ft_endpoint_snapshot_def ft_conversation_snapshot_def
      learn_dns_response_def ft_reset_def Let_def rollup_totals_drain split: if_splits)+

lemma traffic_log_Cons:
  "traffic_log addrs (ev # evs) =
     concat (map (\<lambda>(p, l7, t, acct, expire). packet_log addrs p) (inner_calls ev))
     @ traffic_log (case ev of ResetTable addrs' \<Rightarrow> addrs' | _ \<Rightarrow> addrs) evs"
  by (cases ev) simp_all

lemma flow_step_addrs:
  "ft_local_addrs (flow_step ev ft) = (case ev of ResetTable addrs \<Rightarrow> addrs | _ \<Rightarrow> ft_local_addrs ft)"
proof (cases "inner_calls ev = []")
  case False
  then show ?thesis using inner_calls_totals(1) [of "inner_calls ev" ft] flow_step_calls [OF False]
    by (cases ev) simp_all
qed (rule quiet_step_totals)

lemma flow_step_totals:
  fixes ev ft
  defines "step_log \<equiv> concat (map (\<lambda>(p, l7, t, acct, expire). packet_log (ft_local_addrs ft) p) (inner_calls ev))"
  shows "rollup_totals h (ft_endpoint_rollups (flow_step ev ft)) =
      totals_of (\<lambda>l r. r = h) step_log (rollup_totals h (ft_endpoint_rollups ft))"
    and "rollup_totals pr (ft_conversation_rollups (flow_step ev ft)) =
      totals_of (\<lambda>l r. (l, r) = pr) step_log (rollup_totals pr (ft_conversation_rollups ft))"
  using quiet_step_totals(1,2) [of ev _ ft] inner_calls_totals(2,3) [of _ "inner_calls ev" ft] flow_step_calls [of ev ft]
  by (cases "inner_calls ev = []"; simp add: totals_of_def step_log_def)+

lemma flow_run_totals:
  shows "rollup_totals h (ft_endpoint_rollups (flow_run evs ft)) =
      totals_of (\<lambda>l r. r = h) (traffic_log (ft_local_addrs ft) evs) (rollup_totals h (ft_endpoint_rollups ft))"
    and "rollup_totals pr (ft_conversation_rollups (flow_run evs ft)) =
      totals_of (\<lambda>l r. (l, r) = pr) (traffic_log (ft_local_addrs ft) evs) (rollup_totals pr (ft_conversation_rollups ft))"
proof (induction evs arbitrary: ft)
  case (Cons ev evs)
  { case 1 show ?case
      by (simp only: flow_run.simps traffic_log_Cons totals_of_append flow_step_addrs Cons.IH(1) flow_step_totals) }
  { case 2 show ?case
      by (simp only: flow_run.simps traffic_log_Cons totals_of_append flow_step_addrs Cons.IH(2) flow_step_totals) }
qed (simp_all add: totals_of_def)

text \<open>
  C25: Whatever mix of live and replayed packets, reassembled datagrams, idle sweeps, snapshots,
  DNS answers and resets a table has gone through, the bytes and packets it has for a remote host
  and for a (local, remote) pair are exactly those of the packets attributed to them, each counted
  once and in its own direction: nothing a closing flow, an eviction, a snapshot or a reset does
  takes away from them or adds to them.
\<close>

theorem rollups_refine_traffic_log:
  "rollup_totals h (ft_endpoint_rollups (flow_run evs (flow_table_new_with_capacity addrs n))) =
     totals_of (\<lambda>l r. r = h) (traffic_log addrs evs) (0, 0, 0, 0)
   \<and> rollup_totals pr (ft_conversation_rollups (flow_run evs (flow_table_new_with_capacity addrs n))) =
     totals_of (\<lambda>l r. (l, r) = pr) (traffic_log addrs evs) (0, 0, 0, 0)"
  by (simp add: flow_run_totals) (simp add: flow_table_new_with_capacity_def rollup_totals_def rollup_state_default_def)

end
