(* ===== verification/FlowHierarchy.thy ===== *)
theory FlowHierarchy
  imports FlowCorrect
begin

text \<open>
  The measured protocol hierarchy of the flow table: every node with children has exactly the
  bytes and packets of its children, the children stay sorted by name, and the root has every
  frame that was accounted for, whatever happens to the flows in between.
\<close>

section \<open>Consistent trees\<close>

abbreviation child_bytes :: "(rstring \<times> protocol_node) list \<Rightarrow> nat" where
  "child_bytes cs \<equiv> sum_list (map (pn_bytes \<circ> snd) cs)"

abbreviation child_packets :: "(rstring \<times> protocol_node) list \<Rightarrow> nat" where
  "child_packets cs \<equiv> sum_list (map (pn_packets \<circ> snd) cs)"

fun node_consistent :: "protocol_node \<Rightarrow> bool" where
  "node_consistent (ProtocolNode b n cs) \<longleftrightarrow>
     sorted_wrt (<) (map fst cs) \<and> (cs \<noteq> [] \<longrightarrow> b = child_bytes cs \<and> n = child_packets cs)
     \<and> (\<forall>c\<in>set cs. node_consistent (snd c))"

lemma add_totals [simp]:
  "pn_bytes (protocol_node_add path len n) = pn_bytes n + len"
  "pn_packets (protocol_node_add path len n) = pn_packets n + 1"
  by (cases path; simp)+

lemma child_update_totals:
  "child_bytes (child_update h (protocol_node_add path len) cs) = child_bytes cs + len"
  "child_packets (child_update h (protocol_node_add path len) cs) = child_packets cs + 1"
  by (induction cs) (auto simp: protocol_node_default_def)

lemma child_update_all:
  assumes "\<forall>c\<in>set cs. P c" and "P (h, protocol_node_default)" and "\<And>n. P (h, n) \<Longrightarrow> P (h, f n)"
  shows "\<forall>c\<in>set (child_update h f cs). P c"
  using assms(1) by (induction cs) (auto simp: assms(2,3) split: if_splits)

lemma child_update_names: "fst ` set (child_update h f cs) = insert h (fst ` set cs)"
  by (induction h f cs rule: child_update.induct) (simp_all add: insert_commute)

lemma child_update_sorted:
  "sorted_wrt (<) (map fst cs) \<Longrightarrow> sorted_wrt (<) (map fst (child_update h f cs))"
proof (induction cs)
  case (Cons c cs)
  have "x \<in> fst ` set (child_update h f cs) \<Longrightarrow> x = h \<or> x \<in> fst ` set cs" for x
    by (simp add: child_update_names)
  with Cons show ?case by (cases c) (force simp: image_iff)
qed simp

section \<open>Levels\<close>

text \<open>
  A level of the hierarchy: a node whose totals are those of its children, which satisfy \<open>P\<close>. The
  hierarchy has three such levels above the transport protocols, and a fourth below TCP and UDP.
\<close>

definition level :: "(rstring \<times> protocol_node \<Rightarrow> bool) \<Rightarrow> protocol_node \<Rightarrow> bool" where
  "level P n \<longleftrightarrow> sorted_wrt (<) (map fst (pn_children n)) \<and> (\<forall>c\<in>set (pn_children n). P c)
     \<and> pn_bytes n = child_bytes (pn_children n) \<and> pn_packets n = child_packets (pn_children n)"

definition leaf :: "protocol_node \<Rightarrow> bool" where "leaf n \<longleftrightarrow> pn_children n = []"

definition transport_level :: "rstring \<times> protocol_node \<Rightarrow> bool" where
  "transport_level c \<longleftrightarrow>
     (if fst c = transport_label Tcp \<or> fst c = transport_label Udp then level (leaf \<circ> snd) (snd c) else leaf (snd c))"

definition hierarchy_levels :: "protocol_node \<Rightarrow> bool" where
  "hierarchy_levels = level (level (level transport_level \<circ> snd) \<circ> snd)"

lemma transport_level_default: "transport_level (h, protocol_node_default)"
  by (simp add: transport_level_def level_def leaf_def protocol_node_default_def)

lemma level_default: "level P protocol_node_default"
  by (simp add: level_def protocol_node_default_def)

lemma leaf_default: "leaf protocol_node_default"
  by (simp add: leaf_def protocol_node_default_def)

lemma leaf_add: "leaf n \<Longrightarrow> leaf (protocol_node_add [] len n)"
  by (simp add: leaf_def)

lemma level_add:
  assumes "level P n" and "P (h, protocol_node_default)" and "\<And>n. P (h, n) \<Longrightarrow> P (h, protocol_node_add rest len n)"
  shows "level P (protocol_node_add (h # rest) len n)"
  using assms(1) child_update_all [of "pn_children n" P h "protocol_node_add rest len", OF _ assms(2,3)]
  by (simp add: level_def child_update_sorted child_update_totals)

lemma level_consistent: "level P n \<Longrightarrow> (\<And>c. P c \<Longrightarrow> node_consistent (snd c)) \<Longrightarrow> node_consistent n"
  by (cases n) (auto simp: level_def)

lemma leaf_consistent: "leaf n \<Longrightarrow> node_consistent n"
  by (cases n) (simp add: leaf_def)

lemma hierarchy_levels_consistent:
  assumes "hierarchy_levels n"
  shows "node_consistent n"
proof -
  have "node_consistent (snd c)" if "transport_level c" for c
    using that level_consistent [of "leaf \<circ> snd" "snd c"] by (simp add: transport_level_def leaf_consistent split: if_splits)
  then have "node_consistent (snd c)" if "(level transport_level \<circ> snd) c" for c
    using that by (auto intro: level_consistent)
  then have "node_consistent (snd c)" if "(level (level transport_level \<circ> snd) \<circ> snd) c" for c
    using that by (auto intro: level_consistent)
  then show ?thesis using assms unfolding hierarchy_levels_def by (rule level_consistent [rotated])
qed

lemma hierarchy_levels_add:
  assumes "hierarchy_levels n" and "\<And>m. transport_level (h, m) \<Longrightarrow> transport_level (h, protocol_node_add rest len m)"
  shows "hierarchy_levels (protocol_node_add (lit ''Ethernet'' # lit ''IP'' # h # rest) len n)"
proof -
  have transport: "level transport_level (protocol_node_add (h # rest) len m)" if "level transport_level m" for m
    by (rule level_add [OF that transport_level_default assms(2)])
  have ip: "level (level transport_level \<circ> snd) (protocol_node_add (lit ''IP'' # h # rest) len m)"
    if "level (level transport_level \<circ> snd) m" for m
    by (rule level_add [OF that]) (simp_all only: o_apply snd_conv level_default transport)
  show ?thesis
    using assms(1) unfolding hierarchy_levels_def
    by (rule level_add) (simp_all only: o_apply snd_conv level_default ip)
qed

lemma hierarchy_add_levels:
  assumes "hierarchy_levels (ft_protocol_tree ft)"
    and "rest = [] \<and> pr \<noteq> Tcp \<and> pr \<noteq> Udp \<or> rest = [app] \<and> (pr = Tcp \<or> pr = Udp)"
  shows "hierarchy_levels (ft_protocol_tree (hierarchy_add (transport_label pr # rest) len ft))"
proof -
  have labels: "transport_label q = transport_label q' \<longleftrightarrow> q = q'" for q q'
    by (cases q; cases q') (simp_all add: lit_def)
  have "transport_level (transport_label pr, m) \<Longrightarrow> transport_level (transport_label pr, protocol_node_add rest len m)" for m
    using assms(2) level_add [of "leaf \<circ> snd" m app "[]" len]
    by (auto simp: transport_level_def labels leaf_add leaf_default simp del: protocol_node_add.simps transport_label.simps)
  then show ?thesis
    using hierarchy_levels_add [OF assms(1)] by (simp add: hierarchy_add_def del: protocol_node_add.simps)
qed

section \<open>Runs\<close>

text \<open>The frames the hierarchy accounts for: the physical ones with a flow, or without ports.\<close>

definition accounted :: "rstring list \<Rightarrow> parsed_packet \<times> l7_info \<times> nat \<times> bool \<times> bool \<Rightarrow> bool" where
  "accounted addrs c = (case c of (p, l7, t, acct, expire) \<Rightarrow>
     acct \<and> (pp_protocol p \<noteq> Tcp \<and> pp_protocol p \<noteq> Udp \<or> key_for addrs p \<noteq> None))"

fun accounted_lengths :: "rstring list \<Rightarrow> flow_event list \<Rightarrow> nat list" where
  "accounted_lengths addrs [] = []"
| "accounted_lengths addrs (ResetTable addrs' # evs) = accounted_lengths addrs' evs"
| "accounted_lengths addrs (ev # evs) =
     map (pp_total_len \<circ> fst) (filter (accounted addrs) (inner_calls ev)) @ accounted_lengths addrs evs"

definition ports_mean_transport :: "parsed_packet \<Rightarrow> bool" where
  "ports_mean_transport p \<longleftrightarrow> (pp_src_port p \<noteq> None \<longrightarrow> pp_protocol p = Tcp \<or> pp_protocol p = Udp)"

lemma parse_packet_ports:
  assumes "parse_packet ep d lt = Some p"
  shows "ports_mean_transport p"
proof -
  have "ports_mean_transport q" if "build_parsed_packet sl src dst vlan frame = Some q" for sl src dst vlan frame q
    using that by (cases "sl_transport sl" rule: transport_layer.cases)
      (auto simp: build_parsed_packet_def ports_mean_transport_def bare_transport_def Let_def split: option.splits)
  then show ?thesis
    using assms unfolding parse_packet_Some
    by (auto simp: parse_packet_result_def parse_ip_def ok_or_def
        split: link_type.splits option.splits if_splits link_slice.splits)
qed

lemma key_for_transport:
  "ports_mean_transport p \<Longrightarrow> key_for addrs p = Some k \<Longrightarrow> pp_protocol p = Tcp \<or> pp_protocol p = Udp"
  by (auto simp: ports_mean_transport_def key_for_def bind_eq_Some_conv)

definition tree_totals :: "flow_table \<Rightarrow> nat \<times> nat" where
  "tree_totals ft = (pn_bytes (ft_protocol_tree ft), pn_packets (ft_protocol_tree ft))"

definition add_frames :: "nat list \<Rightarrow> nat \<times> nat \<Rightarrow> nat \<times> nat" where
  "add_frames lens tot = (fst tot + sum_list lens, snd tot + length lens)"

lemma add_frames_simps [simp]:
  "add_frames [] tot = tot" "add_frames (xs @ ys) tot = add_frames ys (add_frames xs tot)"
  by (simp_all add: add_frames_def)

lemma observe_flow_tree:
  "\<exists>app. ft_protocol_tree (snd (observe_flow p l7 t acct key out cid ft)) =
    (if acct then ft_protocol_tree (hierarchy_add [transport_label (pp_protocol p), app] (pp_total_len p) ft)
     else ft_protocol_tree ft)"
  by (auto simp: observe_flow_def Let_def case_prod_unfold record_rollups_def hierarchy_add_def)

lemma inner_call_tree:
  assumes "ports_mean_transport p" and "hierarchy_levels (ft_protocol_tree ft)" and "c = (p, l7, t, acct, expire)"
  shows "hierarchy_levels (ft_protocol_tree (inner_call c ft))
    \<and> tree_totals (inner_call c ft) =
      add_frames (if accounted (ft_local_addrs ft) c then [pp_total_len p] else []) (tree_totals ft)"
proof (cases "key_for (ft_local_addrs ft) p")
  case None
  then show ?thesis
    using hierarchy_add_levels [OF assms(2), of "[]" "pp_protocol p"] assms(2,3)
    by (simp add: inner_call_def observe_inner_def accounted_def tree_totals_def add_frames_def hierarchy_add_def
        del: protocol_node_add.simps)
next
  case (Some k)
  obtain key out where k: "k = (key, out)" by (cases k)
  have pr: "pp_protocol p = Tcp \<or> pp_protocol p = Udp" by (rule key_for_transport [OF assms(1) Some])
  define ft1 where "ft1 = (if expire then snd (evict_idle_flow_key key t ft) else ft)"
  define cid where "cid = (if expire then fst (evict_idle_flow_key key t ft) else None)"
  have tree: "ft_protocol_tree ft1 = ft_protocol_tree ft" by (simp add: ft1_def)
  have "inner_call c ft = snd (observe_flow p l7 t acct key out cid ft1)"
    using pr Some k assms(3)
    by (auto simp: inner_call_def observe_inner_def ft1_def cid_def case_prod_unfold Let_def)
  then obtain app where app: "ft_protocol_tree (inner_call (p, l7, t, acct, expire) ft) =
      (if acct then ft_protocol_tree (hierarchy_add [transport_label (pp_protocol p), app] (pp_total_len p) ft1)
       else ft_protocol_tree ft1)"
    using observe_flow_tree unfolding assms(3) by metis
  show ?thesis
    using hierarchy_add_levels [of ft1 "[app]" "pp_protocol p" app] assms(2) pr Some
    unfolding assms(3) tree_totals_def app accounted_def
    by (simp add: tree add_frames_def hierarchy_add_def del: protocol_node_add.simps)
qed

lemma inner_calls_tree:
  assumes "\<forall>c\<in>set cs. ports_mean_transport (fst c)" and "hierarchy_levels (ft_protocol_tree ft)"
  shows "hierarchy_levels (ft_protocol_tree (fold inner_call cs ft))
    \<and> tree_totals (fold inner_call cs ft) =
      add_frames (map (pp_total_len \<circ> fst) (filter (accounted (ft_local_addrs ft)) cs)) (tree_totals ft)"
  using assms
proof (induction cs arbitrary: ft)
  case (Cons c cs)
  obtain p l7 t acct expire where c: "c = (p, l7, t, acct, expire)" by (cases c)
  have "hierarchy_levels (ft_protocol_tree (inner_call c ft))
    \<and> tree_totals (inner_call c ft) =
      add_frames (if accounted (ft_local_addrs ft) c then [pp_total_len p] else []) (tree_totals ft)"
    using Cons.prems c by (intro inner_call_tree) simp_all
  moreover have "ft_local_addrs (inner_call c ft) = ft_local_addrs ft" by (rule inner_call_totals(1) [OF c])
  moreover have "map (pp_total_len \<circ> fst) (filter (accounted (ft_local_addrs ft)) (c # cs)) =
      (if accounted (ft_local_addrs ft) c then [pp_total_len p] else [])
      @ map (pp_total_len \<circ> fst) (filter (accounted (ft_local_addrs ft)) cs)"
    by (simp add: c)
  ultimately show ?case
    using Cons.IH [of "inner_call c ft"] Cons.prems(1) by (simp only: list.set ball_simps fold_simps add_frames_simps simp_thms) blast
qed simp

lemma accounted_lengths_Cons:
  "accounted_lengths addrs (ev # evs) =
     map (pp_total_len \<circ> fst) (filter (accounted addrs) (inner_calls ev))
     @ accounted_lengths (case ev of ResetTable addrs' \<Rightarrow> addrs' | _ \<Rightarrow> addrs) evs"
  by (cases ev) simp_all

lemma flow_run_tree:
  assumes "\<forall>ev\<in>set evs. \<forall>c\<in>set (inner_calls ev). ports_mean_transport (fst c)"
    and "hierarchy_levels (ft_protocol_tree ft)"
  shows "hierarchy_levels (ft_protocol_tree (flow_run evs ft))
    \<and> tree_totals (flow_run evs ft) = add_frames (accounted_lengths (ft_local_addrs ft) evs) (tree_totals ft)"
  using assms
proof (induction evs arbitrary: ft)
  case (Cons ev evs)
  have "hierarchy_levels (ft_protocol_tree (flow_step ev ft)) \<and> tree_totals (flow_step ev ft) =
      add_frames (map (pp_total_len \<circ> fst) (filter (accounted (ft_local_addrs ft)) (inner_calls ev))) (tree_totals ft)"
  proof (cases "inner_calls ev = []")
    case True
    then show ?thesis using quiet_step_totals(4) [OF True, of ft] Cons.prems(2) by (simp add: tree_totals_def)
  next
    case False
    then show ?thesis using inner_calls_tree [of "inner_calls ev" ft] flow_step_calls [OF False] Cons.prems by simp
  qed
  then show ?case
    using Cons.IH [of "flow_step ev ft"] Cons.prems(1)
    by (simp add: accounted_lengths_Cons flow_step_addrs del: accounted_lengths.simps)
qed simp

text \<open>
  C26: In every state of a table fed with parsed packets, each node of the measured protocol
  hierarchy that has children has exactly their bytes and packets, with the children sorted by
  name, and the root has the bytes and the number of all physical frames that belong to a flow or
  carry no ports: each once, and none forgotten by an eviction or a reset.
\<close>

theorem protocol_hierarchy_adds_up:
  assumes "\<forall>ev\<in>set evs. \<forall>c\<in>set (inner_calls ev). \<exists>ep d lt. parse_packet ep d lt = Some (fst c)"
  shows "node_consistent (ft_protocol_tree (flow_run evs (flow_table_new_with_capacity addrs n)))
    \<and> tree_totals (flow_run evs (flow_table_new_with_capacity addrs n)) =
        (sum_list (accounted_lengths addrs evs), length (accounted_lengths addrs evs))"
proof -
  let ?ft = "flow_table_new_with_capacity addrs n"
  have new: "hierarchy_levels (ft_protocol_tree ?ft)" "tree_totals ?ft = (0, 0)" "ft_local_addrs ?ft = addrs"
    by (simp_all add: flow_table_new_with_capacity_def hierarchy_levels_def level_default tree_totals_def)
       (simp_all add: protocol_node_default_def)
  have "\<forall>ev\<in>set evs. \<forall>c\<in>set (inner_calls ev). ports_mean_transport (fst c)"
    using assms parse_packet_ports by blast
  from flow_run_tree [OF this new(1)] show ?thesis
    by (simp add: new hierarchy_levels_consistent add_frames_def)
qed

theorem protocol_hierarchy_adds_up_witness:
  "\<exists>p. tree_totals (flow_run [Observe p L7None 3, EvictStale 9] (flow_table_new_with_capacity [] 4)) = (5, 1)"
proof -
  define sl where "sl = \<lparr>sl_link = None, sl_link_exts = [],
    sl_net = Some (Ipv6Net \<lparr>v6_header = [], v6_extensions = [], v6_payload_length = 0, v6_source = [],
      v6_destination = [], v6_hop_limit = 1\<rparr>),
    sl_transport = Some Icmpv6Transport, sl_payload_ether_type = None, sl_ether_payload = None\<rparr>"
  define ep where "ep = \<lparr>ep_from_ethernet = (\<lambda>_. None), ep_from_ip = (\<lambda>_. Some sl)\<rparr>"
  obtain p where p: "parse_packet ep [1, 2, 3, 4, 5] RawIp = Some p" "pp_total_len p = 5" "pp_protocol p = Icmp"
    by (simp add: parse_packet_def parse_packet_result_def parse_ip_def ep_def sl_def ok_or_def build_parsed_packet_def
        bare_transport_def u16_cast_def Let_def)
  have "\<exists>ep d lt. parse_packet ep d lt = Some p" using p(1) by blast
  then have "\<forall>ev\<in>set [Observe p L7None 3, EvictStale 9]. \<forall>c\<in>set (inner_calls ev).
      \<exists>ep d lt. parse_packet ep d lt = Some (fst c)"
    by simp
  from protocol_hierarchy_adds_up [OF this, of "[]" 4] show ?thesis
    using p(2,3) by (intro exI [of _ p]) (simp add: accounted_def)
qed

end
