(* ===== verification/Transaction.thy ===== *)
theory Transaction
  imports FlowKey IpText L7Dns
begin

text \<open>
  Matching of DNS and HTTP/1.x responses to their requests and service response times
  (\<open>transaction.rs\<close>). Timestamps are microseconds as naturals, the statistics shared behind a
  mutex with the emitter are a component of the tracker's state, a \<open>VecDeque\<close> is a list whose
  head is its front.
\<close>

section \<open>Data\<close>

definition dns_timeout_us :: nat where "dns_timeout_us = 5000000"
definition http_timeout_us :: nat where "http_timeout_us = 30000000"
definition max_pending :: nat where "max_pending = 4096"
definition max_http_pipeline :: nat where "max_http_pipeline = 32"
definition recent_samples :: nat where "recent_samples = 1024"
definition sweep_interval_us :: nat where "sweep_interval_us = 500000"
definition max_label_chars :: nat where "max_label_chars = 120"

datatype txn_protocol = TxnDns | TxnHttp

fun txn_label :: "txn_protocol \<Rightarrow> rstring" where
  "txn_label TxnDns = lit ''DNS''"
| "txn_label TxnHttp = lit ''HTTP''"

fun timeout_us :: "txn_protocol \<Rightarrow> nat" where
  "timeout_us TxnDns = dns_timeout_us"
| "timeout_us TxnHttp = http_timeout_us"

datatype request_ref = DnsRef flow_key nat | HttpRef flow_key nat

datatype txn_event =
    TxnNone
  | TxnRequest request_ref
  | Untracked
  | RetransmittedRequest
  | Answered txn_protocol nat "rstring option"
  | DuplicateResponse
  | Informational
  | Unmatched

record unanswered =
  ua_protocol :: txn_protocol
  ua_flow_id :: rstring
  ua_request_frame_id :: "rstring option"
  ua_description :: rstring

definition unanswered_summary :: "unanswered \<Rightarrow> rstring" where
  "unanswered_summary u =
     lit ''no '' @ txn_label (ua_protocol u) @ lit '' response to '' @ ua_description u @ lit '' within ''
     @ show_nat (timeout_us (ua_protocol u) div 1000000) @ lit '' s''"

record pending_request =
  pr_sent_at_us :: nat
  pr_request_is_outbound :: bool
  pr_description :: rstring
  pr_frame_id :: "rstring option"
  pr_dns_qname :: "rstring option"
  pr_http_seq :: nat

section \<open>Statistics\<close>

record protocol_stats =
  ps_answered :: nat
  ps_unanswered :: nat
  ps_untracked :: nat
  ps_min_us :: "nat option"
  ps_max_us :: "nat option"
  ps_recent :: "nat list"

definition protocol_stats_default :: protocol_stats where
  "protocol_stats_default =
     \<lparr>ps_answered = 0, ps_unanswered = 0, ps_untracked = 0, ps_min_us = None, ps_max_us = None, ps_recent = []\<rparr>"

definition stats_record :: "nat \<Rightarrow> protocol_stats \<Rightarrow> protocol_stats" where
  "stats_record service_time_us s =
     s\<lparr>ps_answered := ps_answered s + 1,
       ps_min_us := Some (case ps_min_us s of None \<Rightarrow> service_time_us | Some m \<Rightarrow> min m service_time_us),
       ps_max_us := Some (case ps_max_us s of None \<Rightarrow> service_time_us | Some m \<Rightarrow> max m service_time_us),
       ps_recent := (if length (ps_recent s) = recent_samples then tl (ps_recent s) else ps_recent s)
                    @ [service_time_us]\<rparr>"

definition nearest_rank :: "nat list \<Rightarrow> nat \<Rightarrow> nat option" where
  "nearest_rank sorted_samples percent =
     (if sorted_samples = [] then None
      else let rank = max ((percent * length sorted_samples + 99) div 100) 1
           in byte_at sorted_samples (rank - 1))"

record service_time_summary =
  sts_protocol :: rstring
  sts_answered :: nat
  sts_unanswered :: nat
  sts_untracked :: nat
  sts_min_us :: "nat option"
  sts_max_us :: "nat option"
  sts_sample_count :: nat
  sts_median_us :: "nat option"
  sts_p95_us :: "nat option"

definition stats_summary :: "txn_protocol \<Rightarrow> protocol_stats \<Rightarrow> service_time_summary" where
  "stats_summary protocol s =
     (let sorted_samples = sort (ps_recent s)
      in \<lparr>sts_protocol = txn_label protocol, sts_answered = ps_answered s, sts_unanswered = ps_unanswered s,
          sts_untracked = ps_untracked s, sts_min_us = ps_min_us s, sts_max_us = ps_max_us s,
          sts_sample_count = length sorted_samples, sts_median_us = nearest_rank sorted_samples 50,
          sts_p95_us = nearest_rank sorted_samples 95\<rparr>)"

record service_time_stats =
  st_dns :: protocol_stats
  st_http :: protocol_stats

definition service_time_stats_default :: service_time_stats where
  "service_time_stats_default = \<lparr>st_dns = protocol_stats_default, st_http = protocol_stats_default\<rparr>"

fun for_protocol :: "txn_protocol \<Rightarrow> (protocol_stats \<Rightarrow> protocol_stats) \<Rightarrow> service_time_stats \<Rightarrow> service_time_stats" where
  "for_protocol TxnDns f s = s\<lparr>st_dns := f (st_dns s)\<rparr>"
| "for_protocol TxnHttp f s = s\<lparr>st_http := f (st_http s)\<rparr>"

definition stats_snapshot :: "service_time_stats \<Rightarrow> service_time_summary list" where
  "stats_snapshot s = [stats_summary TxnDns (st_dns s), stats_summary TxnHttp (st_http s)]"

section \<open>Display-safe text\<close>

text \<open>The scalar values of a UTF-8 string (\<open>str::chars\<close>).\<close>

fun utf8_chars :: "rstring \<Rightarrow> nat list" where
  "utf8_chars [] = []"
| "utf8_chars (b # bs) =
     (if b < 0x80 then unat b # utf8_chars bs
      else if b < 0xE0 then
        (case bs of c1 # r \<Rightarrow> (unat (b AND 0x1F) * 64 + unat (c1 AND 0x3F)) # utf8_chars r | _ \<Rightarrow> [])
      else if b < 0xF0 then
        (case bs of c1 # c2 # r \<Rightarrow>
             (unat (b AND 0x0F) * 4096 + unat (c1 AND 0x3F) * 64 + unat (c2 AND 0x3F)) # utf8_chars r
         | _ \<Rightarrow> [])
      else
        (case bs of c1 # c2 # c3 # r \<Rightarrow>
             (unat (b AND 0x07) * 262144 + unat (c1 AND 0x3F) * 4096 + unat (c2 AND 0x3F) * 64
              + unat (c3 AND 0x3F)) # utf8_chars r
         | _ \<Rightarrow> []))"

definition escape_unicode :: "nat \<Rightarrow> rstring" where
  "escape_unicode c = lit [CHR 0x5C, CHR ''u'', CHR 0x7B] @ show_hex c @ lit [CHR 0x7D]"

definition safe_char :: "nat \<Rightarrow> rstring" where
  "safe_char c = (if 0x20 \<le> c \<and> c \<le> 0x7E then [of_nat c] else escape_unicode c)"

definition ellipsis :: rstring where "ellipsis = [0xE2, 0x80, 0xA6]"

fun display_loop :: "nat \<Rightarrow> nat list \<Rightarrow> rstring" where
  "display_loop n [] = []"
| "display_loop n (c # cs) = (if n = max_label_chars then ellipsis else safe_char c @ display_loop (Suc n) cs)"

definition display_safe :: "rstring \<Rightarrow> rstring" where
  "display_safe text = display_loop 0 (utf8_chars text)"

section \<open>The tracker\<close>

record transaction_tracker =
  tt_dns :: "((flow_key \<times> nat) \<times> pending_request) list"
  tt_http :: "(flow_key \<times> pending_request list) list"
  tt_answered_dns :: "((flow_key \<times> nat) \<times> nat) list"
  tt_pending_total :: nat
  tt_next_http_seq :: nat
  tt_last_sweep_us :: "nat option"
  tt_stats :: service_time_stats

definition tracker_new :: "service_time_stats \<Rightarrow> transaction_tracker" where
  "tracker_new stats =
     \<lparr>tt_dns = [], tt_http = [], tt_answered_dns = [], tt_pending_total = 0, tt_next_http_seq = 0,
      tt_last_sweep_us = None, tt_stats = stats\<rparr>"

definition tracker_reset :: "transaction_tracker \<Rightarrow> transaction_tracker" where
  "tracker_reset st =
     st\<lparr>tt_dns := [], tt_http := [], tt_answered_dns := [], tt_pending_total := 0, tt_last_sweep_us := None\<rparr>"

definition count_untracked :: "txn_protocol \<Rightarrow> transaction_tracker \<Rightarrow> txn_event \<times> transaction_tracker" where
  "count_untracked protocol st =
     (Untracked, st\<lparr>tt_stats := for_protocol protocol (\<lambda>s. s\<lparr>ps_untracked := ps_untracked s + 1\<rparr>) (tt_stats st)\<rparr>)"

definition answer_request ::
  "txn_protocol \<Rightarrow> pending_request \<Rightarrow> nat \<Rightarrow> transaction_tracker \<Rightarrow> txn_event \<times> transaction_tracker" where
  "answer_request protocol pending ts_us st =
     (let service_time_us = ts_us - pr_sent_at_us pending
      in (Answered protocol service_time_us (pr_frame_id pending),
          st\<lparr>tt_pending_total := tt_pending_total st - 1,
             tt_stats := for_protocol protocol (stats_record service_time_us) (tt_stats st)\<rparr>))"

definition is_dns_service :: "flow_key \<Rightarrow> bool \<Rightarrow> bool" where
  "is_dns_service key server_is_remote \<longleftrightarrow>
     flk_protocol key = Udp \<and> (if server_is_remote then flk_remote_port key else flk_local_port key) = 53"

definition dns_query ::
  "flow_key \<Rightarrow> bool \<Rightarrow> rstring \<Rightarrow> nat \<Rightarrow> nat \<Rightarrow> nat \<Rightarrow> transaction_tracker \<Rightarrow> txn_event \<times> transaction_tracker" where
  "dns_query key is_outbound qname ident qtype ts_us st =
     (if \<not> is_dns_service key is_outbound then (TxnNone, st)
      else if map_of (tt_dns st) (key, ident) \<noteq> None then (RetransmittedRequest, st)
      else if tt_pending_total st \<ge> max_pending then count_untracked TxnDns st
      else
        (TxnRequest (DnsRef key ident),
         st\<lparr>tt_answered_dns := AList.delete (key, ident) (tt_answered_dns st),
            tt_dns := AList.update (key, ident)
              \<lparr>pr_sent_at_us = ts_us, pr_request_is_outbound = is_outbound,
               pr_description = [0x22] @ display_safe qname @ [0x22] @ lit '' '' @ dns_type_name qtype,
               pr_frame_id = None, pr_dns_qname = Some (to_ascii_lowercase qname), pr_http_seq = 0\<rparr> (tt_dns st),
            tt_pending_total := tt_pending_total st + 1\<rparr>))"

definition dns_answer_matches :: "bool \<Rightarrow> rstring \<Rightarrow> pending_request \<Rightarrow> bool" where
  "dns_answer_matches is_outbound qname pending \<longleftrightarrow>
     pr_request_is_outbound pending \<noteq> is_outbound \<and> pr_dns_qname pending = Some (to_ascii_lowercase qname)"

definition txn_dns_response ::
  "flow_key \<Rightarrow> bool \<Rightarrow> rstring \<Rightarrow> nat \<Rightarrow> nat \<Rightarrow> transaction_tracker \<Rightarrow> txn_event \<times> transaction_tracker" where
  "txn_dns_response key is_outbound qname ident ts_us st =
     (if \<not> is_dns_service key (\<not> is_outbound) then (TxnNone, st)
      else case map_of (tt_dns st) (key, ident) of
          Some pending \<Rightarrow>
            if dns_answer_matches is_outbound qname pending
            then answer_request TxnDns pending ts_us
                   (st\<lparr>tt_dns := AList.delete (key, ident) (tt_dns st),
                       tt_answered_dns :=
                         (if length (tt_answered_dns st) < max_pending
                          then AList.update (key, ident) ts_us (tt_answered_dns st) else tt_answered_dns st)\<rparr>)
            else (Unmatched, st)
        | None \<Rightarrow>
            if map_of (tt_answered_dns st) (key, ident) \<noteq> None then (DuplicateResponse, st) else (Unmatched, st))"

definition http_queue :: "flow_key \<Rightarrow> transaction_tracker \<Rightarrow> pending_request list" where
  "http_queue key st = (case map_of (tt_http st) key of Some queue \<Rightarrow> queue | None \<Rightarrow> [])"

definition http_request ::
  "flow_key \<Rightarrow> bool \<Rightarrow> rstring \<Rightarrow> rstring \<Rightarrow> nat \<Rightarrow> transaction_tracker \<Rightarrow> txn_event \<times> transaction_tracker" where
  "http_request key is_outbound verb path ts_us st =
     (if tt_pending_total st \<ge> max_pending
         \<or> (\<exists>queue \<in> set_option (map_of (tt_http st) key). length queue \<ge> max_http_pipeline)
      then count_untracked TxnHttp st
      else
        let seq = tt_next_http_seq st
        in (TxnRequest (HttpRef key seq),
            st\<lparr>tt_next_http_seq := seq + 1,
               tt_http := AList.update key
                 (http_queue key st @
                  [\<lparr>pr_sent_at_us = ts_us, pr_request_is_outbound = is_outbound,
                    pr_description = display_safe (verb @ lit '' '' @ path), pr_frame_id = None,
                    pr_dns_qname = None, pr_http_seq = seq\<rparr>]) (tt_http st),
               tt_pending_total := tt_pending_total st + 1\<rparr>))"

definition is_interim_status :: "rstring \<Rightarrow> bool" where
  "is_interim_status status \<longleftrightarrow> starts_with status (lit ''1'') \<and> status \<noteq> lit ''101''"

definition http_response ::
  "flow_key \<Rightarrow> bool \<Rightarrow> rstring \<Rightarrow> nat \<Rightarrow> transaction_tracker \<Rightarrow> txn_event \<times> transaction_tracker" where
  "http_response key is_outbound status ts_us st =
     (case map_of (tt_http st) key of
        None \<Rightarrow> (Unmatched, st)
      | Some [] \<Rightarrow> (Unmatched, st)
      | Some (front # rest) \<Rightarrow>
          if pr_request_is_outbound front = is_outbound then (Unmatched, st)
          else if is_interim_status status then (Informational, st)
          else answer_request TxnHttp front ts_us
                 (st\<lparr>tt_http := (if rest = [] then AList.delete key (tt_http st)
                                else AList.update key rest (tt_http st))\<rparr>))"

definition observe_frame ::
  "(flow_key \<times> bool) option \<Rightarrow> l7_info \<Rightarrow> nat \<Rightarrow> bool \<Rightarrow> transaction_tracker \<Rightarrow> txn_event \<times> transaction_tracker" where
  "observe_frame flow l7 ts_us is_tcp_retransmit st =
     (if is_tcp_retransmit then (TxnNone, st)
      else case flow of
          None \<Rightarrow> (TxnNone, st)
        | Some (key, is_outbound) \<Rightarrow>
            (case l7 of
               Dns qname ident qtype \<Rightarrow> dns_query key is_outbound qname ident qtype ts_us st
             | DnsResponse qname ident _ _ _ _ \<Rightarrow> txn_dns_response key is_outbound qname ident ts_us st
             | Http verb path \<Rightarrow> http_request key is_outbound verb path ts_us st
             | HttpResponse status _ _ _ \<Rightarrow> http_response key is_outbound status ts_us st
             | TlsClientHello _ _ _ _ _ _ \<Rightarrow> (TxnNone, st)
             | L7None \<Rightarrow> (TxnNone, st)))"

text \<open>\<open>queue.iter_mut().find(|p| p.http_seq == seq)\<close> followed by the assignment.\<close>

fun set_frame_id :: "nat \<Rightarrow> rstring \<Rightarrow> pending_request list \<Rightarrow> pending_request list" where
  "set_frame_id seq frame_id [] = []"
| "set_frame_id seq frame_id (p # ps) =
     (if pr_http_seq p = seq then p\<lparr>pr_frame_id := Some frame_id\<rparr> # ps else p # set_frame_id seq frame_id ps)"

fun attach_frame_id :: "request_ref \<Rightarrow> rstring \<Rightarrow> transaction_tracker \<Rightarrow> transaction_tracker" where
  "attach_frame_id (DnsRef key ident) frame_id st =
     (case map_of (tt_dns st) (key, ident) of
        None \<Rightarrow> st
      | Some p \<Rightarrow> st\<lparr>tt_dns := AList.update (key, ident) (p\<lparr>pr_frame_id := Some frame_id\<rparr>) (tt_dns st)\<rparr>)"
| "attach_frame_id (HttpRef key seq) frame_id st =
     (case map_of (tt_http st) key of
        None \<Rightarrow> st
      | Some queue \<Rightarrow> st\<lparr>tt_http := AList.update key (set_frame_id seq frame_id queue) (tt_http st)\<rparr>)"

section \<open>Timeouts\<close>

definition timed_out :: "nat \<Rightarrow> txn_protocol \<Rightarrow> pending_request \<Rightarrow> bool" where
  "timed_out now_us protocol pending \<longleftrightarrow> now_us - pr_sent_at_us pending \<ge> timeout_us protocol"

definition unanswered_of :: "txn_protocol \<Rightarrow> flow_key \<Rightarrow> pending_request \<Rightarrow> unanswered" where
  "unanswered_of protocol key pending =
     \<lparr>ua_protocol = protocol, ua_flow_id = connection_id key, ua_request_frame_id = pr_frame_id pending,
      ua_description = pr_description pending\<rparr>"

fun expire_dns_keys ::
  "(flow_key \<times> nat) list \<Rightarrow> ((flow_key \<times> nat) \<times> pending_request) list
    \<Rightarrow> unanswered list \<times> ((flow_key \<times> nat) \<times> pending_request) list" where
  "expire_dns_keys [] dns = ([], dns)"
| "expire_dns_keys (key # keys) dns =
     (case map_of dns key of
        None \<Rightarrow> expire_dns_keys keys dns
      | Some pending \<Rightarrow>
          let (expired, dns') = expire_dns_keys keys (AList.delete key dns)
          in (unanswered_of TxnDns (fst key) pending # expired, dns'))"

fun expire_queue :: "nat \<Rightarrow> flow_key \<Rightarrow> pending_request list \<Rightarrow> unanswered list \<times> pending_request list" where
  "expire_queue now_us key [] = ([], [])"
| "expire_queue now_us key (p # ps) =
     (if timed_out now_us TxnHttp p
      then (let (expired, rest) = expire_queue now_us key ps in (unanswered_of TxnHttp key p # expired, rest))
      else ([], p # ps))"

definition expire_http ::
  "nat \<Rightarrow> (flow_key \<times> pending_request list) list \<Rightarrow> unanswered list \<times> (flow_key \<times> pending_request list) list" where
  "expire_http now_us http =
     (concat (map (\<lambda>(key, queue). fst (expire_queue now_us key queue)) http),
      filter (\<lambda>(key, queue). queue \<noteq> []) (map (\<lambda>(key, queue). (key, snd (expire_queue now_us key queue))) http))"

definition count_unanswered :: "unanswered list \<Rightarrow> service_time_stats \<Rightarrow> service_time_stats" where
  "count_unanswered expired stats =
     fold (\<lambda>u. for_protocol (ua_protocol u) (\<lambda>s. s\<lparr>ps_unanswered := ps_unanswered s + 1\<rparr>)) expired stats"

definition sweep :: "nat \<Rightarrow> transaction_tracker \<Rightarrow> unanswered list \<times> transaction_tracker" where
  "sweep now_us st =
     (let dns_keys = map fst (filter (\<lambda>(key, pending). timed_out now_us TxnDns pending) (tt_dns st));
          (dns_expired, dns') = expire_dns_keys dns_keys (tt_dns st);
          (http_expired, http') = expire_http now_us (tt_http st);
          expired = dns_expired @ http_expired
      in (expired,
          st\<lparr>tt_last_sweep_us := Some now_us, tt_dns := dns', tt_http := http',
             tt_answered_dns := filter (\<lambda>(key, answered_at). now_us - answered_at < dns_timeout_us) (tt_answered_dns st),
             tt_pending_total := tt_pending_total st - length expired,
             tt_stats := count_unanswered expired (tt_stats st)\<rparr>))"

definition expire :: "nat \<Rightarrow> transaction_tracker \<Rightarrow> unanswered list \<times> transaction_tracker" where
  "expire now_us st =
     (case tt_last_sweep_us st of
        Some last_us \<Rightarrow> if now_us - last_us < sweep_interval_us then ([], st) else sweep now_us st
      | None \<Rightarrow> sweep now_us st)"

end
