(* ===== verification/TransactionCorrect.thy ===== *)
theory TransactionCorrect
  imports Transaction "HOL-Library.Multiset"
begin

text \<open>
  What the transaction tracker promises whatever happens: everything it holds is bounded, and every
  request it waits on is settled exactly once.
\<close>

section \<open>Runs\<close>

datatype txn_op =
    Frame "(flow_key \<times> bool) option" l7_info nat bool
  | AttachId request_ref rstring
  | ExpireAt nat
  | ResetTracker

fun txn_step :: "txn_op \<Rightarrow> transaction_tracker \<Rightarrow> transaction_tracker" where
  "txn_step (Frame flow l7 ts retransmit) st = snd (observe_frame flow l7 ts retransmit st)"
| "txn_step (AttachId ref frame_id) st = attach_frame_id ref frame_id st"
| "txn_step (ExpireAt now_us) st = snd (expire now_us st)"
| "txn_step ResetTracker st = tracker_reset st"

fun txn_run :: "txn_op list \<Rightarrow> transaction_tracker \<Rightarrow> transaction_tracker" where
  "txn_run [] st = st"
| "txn_run (op # ops) st = txn_run ops (txn_step op st)"

section \<open>Invariant\<close>

definition queue_ok :: "nat \<Rightarrow> pending_request list \<Rightarrow> bool" where
  "queue_ok next_seq q \<longleftrightarrow> q \<noteq> [] \<and> length q \<le> max_http_pipeline \<and> sorted_wrt (<) (map pr_http_seq q)
     \<and> (\<forall>p\<in>set q. pr_http_seq p < next_seq)"

definition stats_ok :: "service_time_stats \<Rightarrow> bool" where
  "stats_ok s \<longleftrightarrow> length (ps_recent (st_dns s)) \<le> recent_samples \<and> length (ps_recent (st_http s)) \<le> recent_samples"

definition txn_inv :: "transaction_tracker \<Rightarrow> bool" where
  "txn_inv st \<longleftrightarrow>
     distinct (map fst (tt_dns st)) \<and> distinct (map fst (tt_http st)) \<and> distinct (map fst (tt_answered_dns st))
     \<and> tt_pending_total st = length (tt_dns st) + weigh length (tt_http st) \<and> tt_pending_total st \<le> max_pending
     \<and> (\<forall>(key, q) \<in> set (tt_http st). queue_ok (tt_next_http_seq st) q)
     \<and> length (tt_answered_dns st) \<le> max_pending \<and> stats_ok (tt_stats st)"

definition settled :: "transaction_tracker \<Rightarrow> nat" where
  "settled st = ps_answered (st_dns (tt_stats st)) + ps_unanswered (st_dns (tt_stats st))
     + ps_answered (st_http (tt_stats st)) + ps_unanswered (st_http (tt_stats st))"

lemma for_protocol_record:
  "stats_ok s \<Longrightarrow> stats_ok (for_protocol pr (stats_record t) s)"
  by (cases pr) (auto simp: stats_ok_def stats_record_def recent_samples_def)

lemma for_protocol_counter:
  "stats_ok (for_protocol pr (ps_untracked_update f) s) = stats_ok s"
  "stats_ok (for_protocol pr (ps_unanswered_update f) s) = stats_ok s"
  by (cases pr; simp add: stats_ok_def)+

lemma count_untracked_state:
  "txn_inv (snd (count_untracked pr st)) = txn_inv st" "fst (count_untracked pr st) = Untracked"
  "settled (snd (count_untracked pr st)) = settled st"
  "tt_pending_total (snd (count_untracked pr st)) = tt_pending_total st"
  by (cases pr; simp add: count_untracked_def txn_inv_def for_protocol_counter settled_def stats_ok_def)+

lemma answer_request_settles:
  "settled (snd (answer_request pr p t st)) = settled st + 1"
  by (cases pr) (simp_all add: answer_request_def settled_def stats_record_def Let_def)

lemma answer_request_frame [simp]:
  "tt_dns (snd (answer_request pr p t st)) = tt_dns st" "tt_http (snd (answer_request pr p t st)) = tt_http st"
  "tt_answered_dns (snd (answer_request pr p t st)) = tt_answered_dns st"
  "tt_next_http_seq (snd (answer_request pr p t st)) = tt_next_http_seq st"
  "tt_pending_total (snd (answer_request pr p t st)) = tt_pending_total st - 1"
  by (simp_all add: answer_request_def Let_def)

lemma answer_request_stats:
  "stats_ok (tt_stats st) \<Longrightarrow> stats_ok (tt_stats (snd (answer_request pr p t st)))"
  by (simp add: answer_request_def Let_def for_protocol_record)

lemma settled_cong: "tt_stats st = tt_stats st' \<Longrightarrow> settled st = settled st'"
  by (simp add: settled_def)

lemma length_update_new: "map_of xs k = None \<Longrightarrow> length (AList.update k v xs) = Suc (length xs)"
  by (simp add: length_update map_of_eq_None_iff)

lemma length_update_old: "map_of xs k = Some e \<Longrightarrow> length (AList.update k v xs) = length xs"
  by (force simp: length_update image_iff dest: map_of_SomeD)

lemma length_update_le: "length (AList.update k v xs) \<le> Suc (length xs)"
  by (simp add: length_update)

text \<open>One step: the invariant, and where the pending requests go.\<close>

definition accepts :: "txn_event \<Rightarrow> nat" where
  "accepts ev = (case ev of TxnRequest _ \<Rightarrow> 1 | _ \<Rightarrow> 0)"

definition step_ok :: "transaction_tracker \<Rightarrow> txn_event \<times> transaction_tracker \<Rightarrow> bool" where
  "step_ok st r \<longleftrightarrow> txn_inv (snd r)
     \<and> accepts (fst r) + tt_pending_total st + settled st = tt_pending_total (snd r) + settled (snd r)"

lemma step_ok_quiet: "txn_inv st \<Longrightarrow> accepts ev = 0 \<Longrightarrow> step_ok st (ev, st)"
  by (simp add: step_ok_def)

lemma step_ok_untracked: "txn_inv st \<Longrightarrow> step_ok st (count_untracked pr st)"
  by (simp add: step_ok_def count_untracked_state accepts_def)

lemma step_ok_answer:
  assumes "txn_inv (snd (answer_request pr p t st'))" and "tt_stats st' = tt_stats st"
    and "tt_pending_total st' = tt_pending_total st" "0 < tt_pending_total st"
  shows "step_ok st (answer_request pr p t st')"
  using assms settled_cong [OF assms(2)]
  by (simp add: step_ok_def answer_request_settles) (simp add: answer_request_def accepts_def Let_def)

lemma dns_query_ok: "txn_inv st \<Longrightarrow> step_ok st (dns_query key out qn i qt ts st)"
  by (auto simp: dns_query_def step_ok_quiet step_ok_untracked accepts_def)
     (auto simp: step_ok_def accepts_def txn_inv_def settled_def length_update_new
       intro: order_trans [OF length_delete_le])

lemma dns_response_ok:
  assumes "txn_inv st"
  shows "step_ok st (txn_dns_response key out qn i ts st)"
proof (cases "map_of (tt_dns st) (key, i)")
  case (Some p)
  let ?st = "st\<lparr>tt_dns := AList.delete (key, i) (tt_dns st),
    tt_answered_dns := (if length (tt_answered_dns st) < max_pending
      then AList.update (key, i) ts (tt_answered_dns st) else tt_answered_dns st)\<rparr>"
  have len: "Suc (length (AList.delete (key, i) (tt_dns st))) = length (tt_dns st)"
    using assms Some by (intro length_delete_member) (simp_all add: txn_inv_def)
  have "txn_inv (snd (answer_request TxnDns p ts ?st))"
    using assms len answer_request_stats [of ?st] length_update_le [of "(key, i)" ts "tt_answered_dns st"]
    by (auto simp: txn_inv_def)
  then have "step_ok st (answer_request TxnDns p ts ?st)"
    by (rule step_ok_answer) (use assms len in \<open>auto simp: txn_inv_def\<close>)
  then show ?thesis using assms Some by (simp add: txn_dns_response_def step_ok_quiet accepts_def)
qed (use assms in \<open>simp add: txn_dns_response_def step_ok_quiet accepts_def\<close>)

lemma queue_ok_mono: "queue_ok n q \<Longrightarrow> n \<le> m \<Longrightarrow> queue_ok m q"
  by (auto simp: queue_ok_def)

lemma http_request_ok:
  assumes "txn_inv st"
  shows "step_ok st (http_request key out verb path ts st)"
proof (cases "tt_pending_total st \<ge> max_pending
    \<or> (\<exists>queue \<in> set_option (map_of (tt_http st) key). length queue \<ge> max_http_pipeline)")
  case False
  let ?n = "tt_next_http_seq st"
  let ?st = "snd (http_request key out verb path ts st)"
  define p where "p = \<lparr>pr_sent_at_us = ts, pr_request_is_outbound = out, pr_description = display_safe (verb @ lit '' '' @ path),
    pr_frame_id = None, pr_dns_qname = None, pr_http_seq = ?n\<rparr>"
  have p: "pr_http_seq p = ?n" "tt_http ?st = AList.update key (http_queue key st @ [p]) (tt_http st)"
    using False by (simp_all add: http_request_def Let_def p_def)
  have q: "queue_ok ?n (http_queue key st)" if "map_of (tt_http st) key \<noteq> None"
    using that assms by (auto simp: txn_inv_def http_queue_def dest: map_of_SomeD)
  then have "queue_ok (?n + 1) (http_queue key st @ [p])"
    using False p(1) by (cases "map_of (tt_http st) key")
      (auto simp: queue_ok_def http_queue_def max_http_pipeline_def sorted_wrt_append less_Suc_eq)
  then have "\<forall>(k, q)\<in>set (tt_http ?st). queue_ok (?n + 1) q"
    using assms by (auto simp: p(2) txn_inv_def dest!: set_update_values intro: queue_ok_mono)
  moreover have "weigh length (tt_http ?st) = weigh length (tt_http st) + 1"
    using assms weigh_update [of "tt_http st" length key "http_queue key st @ [p]"]
    by (cases "map_of (tt_http st) key") (simp_all add: p(2) txn_inv_def http_queue_def)
  ultimately show ?thesis
    using assms False by (simp add: step_ok_def txn_inv_def accepts_def settled_def http_request_def Let_def)
qed (use assms in \<open>auto simp: http_request_def step_ok_untracked\<close>)

lemma http_response_ok:
  assumes "txn_inv st"
  shows "step_ok st (http_response key out status ts st)"
proof (cases "map_of (tt_http st) key")
  case (Some q)
  then have q: "queue_ok (tt_next_http_seq st) q" "(key, q) \<in> set (tt_http st)"
    using assms by (auto simp: txn_inv_def dest: map_of_SomeD)
  then obtain front rest where fr: "q = front # rest" by (cases q) (auto simp: queue_ok_def)
  let ?http = "if rest = [] then AList.delete key (tt_http st) else AList.update key rest (tt_http st)"
  let ?st = "st\<lparr>tt_http := ?http\<rparr>"
  have dist: "distinct (map fst (tt_http st))" using assms by (simp add: txn_inv_def)
  have "weigh length ?http + 1 = weigh length (tt_http st)"
    using weigh_update [OF dist, of length key rest] weigh_delete [OF dist, of length key] Some fr by auto
  moreover have "\<forall>(k, q)\<in>set ?http. queue_ok (tt_next_http_seq st) q"
  proof (cases "rest = []")
    case True
    then show ?thesis using assms set_delete_subset [of key "tt_http st"] by (auto simp: txn_inv_def)
  next
    case False
    then have "queue_ok (tt_next_http_seq st) rest" using q(1) fr by (simp add: queue_ok_def)
    then show ?thesis using assms False by (auto simp: txn_inv_def dest!: set_update_values)
  qed
  ultimately have "txn_inv (snd (answer_request TxnHttp front ts ?st))" "0 < tt_pending_total st"
    using assms answer_request_stats [of ?st] by (auto simp: txn_inv_def)
  then have "step_ok st (answer_request TxnHttp front ts ?st)" by (intro step_ok_answer) simp_all
  then show ?thesis using assms Some fr by (simp add: http_response_def step_ok_quiet accepts_def)
qed (use assms in \<open>simp add: http_response_def step_ok_quiet accepts_def\<close>)

lemma observe_frame_ok: "txn_inv st \<Longrightarrow> step_ok st (observe_frame flow l7 ts r st)"
  by (auto simp: observe_frame_def step_ok_quiet accepts_def dns_query_ok dns_response_ok http_request_ok http_response_ok
      split: option.split l7_info.split)

section \<open>Sweeps\<close>

lemma expire_dns_keys_exact:
  assumes "distinct (map fst es)" and "\<forall>(key, p)\<in>set es. map_of dns key = Some p"
  shows "expire_dns_keys (map fst es) dns =
    (map (\<lambda>(key, p). unanswered_of TxnDns (fst key) p) es, filter (\<lambda>x. fst x \<notin> fst ` set es) dns)"
  using assms
proof (induction es arbitrary: dns)
  case (Cons e es)
  obtain key p where e: "e = (key, p)" by (cases e)
  have "\<forall>(key', p)\<in>set es. map_of (AList.delete key dns) key' = Some p"
    using Cons.prems e by (force simp: delete_conv' image_iff)
  from Cons.IH [OF _ this] show ?case
    using Cons.prems e by (auto simp: AList.delete_eq case_prod_unfold conj_commute intro: filter_cong)
qed (simp add: filter_id_conv)

lemma sweep_dns:
  assumes "distinct (map fst dns)"
  shows "expire_dns_keys (map fst (filter (\<lambda>(key, p). P p) dns)) dns =
    (map (\<lambda>(key, p). unanswered_of TxnDns (fst key) p) (filter (\<lambda>(key, p). P p) dns), filter (\<lambda>(key, p). \<not> P p) dns)"
proof -
  have mem: "fst x \<notin> fst ` set (filter (\<lambda>(key, p). P p) dns) \<longleftrightarrow> \<not> P (snd x)" if "x \<in> set dns" for x
    using that assms eq_key_imp_eq_value [of dns "fst x" "snd x"] by (auto simp: image_iff) (metis surjective_pairing)
  have "filter (\<lambda>x. fst x \<notin> fst ` set (filter (\<lambda>(key, p). P p) dns)) dns = filter (\<lambda>(key, p). \<not> P p) dns"
    by (rule filter_cong [OF refl]) (use mem in auto)
  then show ?thesis
    using assms by (subst expire_dns_keys_exact) (auto simp: distinct_map_filter)
qed

lemma expire_queue_exact:
  "expire_queue now_us key q =
    (map (unanswered_of TxnHttp key) (takeWhile (timed_out now_us TxnHttp) q), dropWhile (timed_out now_us TxnHttp) q)"
  by (induction q) (simp_all add: Let_def)

lemma expire_http_lengths:
  "length (fst (expire_http now_us http)) + weigh length (snd (expire_http now_us http)) = weigh length http"
proof (induction http)
  case (Cons e http)
  obtain key q where e: "e = (key, q)" by (cases e)
  let ?r = "dropWhile (timed_out now_us TxnHttp) q"
  have "length (takeWhile (timed_out now_us TxnHttp) q) + length ?r = length q"
    by (metis length_append takeWhile_dropWhile_id)
  then show ?case using Cons e by (cases "?r = []") (simp_all add: expire_http_def expire_queue_exact del: dropWhile_eq_Nil_conv)
qed (simp add: expire_http_def)

lemma queue_ok_dropWhile: "queue_ok n q \<Longrightarrow> dropWhile P q \<noteq> [] \<Longrightarrow> queue_ok n (dropWhile P q)"
  unfolding queue_ok_def
  by (metis length_dropWhile_le map_append order_trans set_dropWhileD sorted_wrt_append takeWhile_dropWhile_id)

lemma expire_http_queues:
  "\<forall>(k, q)\<in>set http. queue_ok n q \<Longrightarrow> \<forall>(k, q)\<in>set (snd (expire_http now_us http)). queue_ok n q"
  by (auto simp: expire_http_def expire_queue_exact intro: queue_ok_dropWhile)

lemma expire_http_distinct:
  "distinct (map fst http) \<Longrightarrow> distinct (map fst (snd (expire_http now_us http)))"
  by (simp add: expire_http_def distinct_map_filter o_def case_prod_unfold)

lemma count_unanswered_stats:
  "stats_ok (count_unanswered es s) = stats_ok s"
  "settled (st\<lparr>tt_stats := count_unanswered es s\<rparr>) = settled (st\<lparr>tt_stats := s\<rparr>) + length es"
proof (induction es arbitrary: s)
  case (Cons u es)
  { case 1 show ?case using Cons.IH(1) by (cases "ua_protocol u") (simp_all add: count_unanswered_def stats_ok_def) }
  { case 2 show ?case using Cons.IH(2) by (cases "ua_protocol u") (simp_all add: count_unanswered_def settled_def) }
qed (simp_all add: count_unanswered_def)

definition sweep_reports :: "nat \<Rightarrow> transaction_tracker \<Rightarrow> unanswered list" where
  "sweep_reports now_us st =
     map (\<lambda>(key, p). unanswered_of TxnDns (fst key) p) (filter (\<lambda>(key, p). timed_out now_us TxnDns p) (tt_dns st))
     @ fst (expire_http now_us (tt_http st))"

lemma sweep_exact:
  assumes "distinct (map fst (tt_dns st))"
  shows "sweep now_us st =
    (sweep_reports now_us st,
     st\<lparr>tt_last_sweep_us := Some now_us, tt_dns := filter (\<lambda>(key, p). \<not> timed_out now_us TxnDns p) (tt_dns st),
        tt_http := snd (expire_http now_us (tt_http st)),
        tt_answered_dns := filter (\<lambda>(key, answered_at). now_us - answered_at < dns_timeout_us) (tt_answered_dns st),
        tt_pending_total := tt_pending_total st - length (sweep_reports now_us st),
        tt_stats := count_unanswered (sweep_reports now_us st) (tt_stats st)\<rparr>)"
  by (cases "expire_http now_us (tt_http st)") (simp add: sweep_def sweep_dns [OF assms] sweep_reports_def Let_def)

lemma sweep_ok:
  assumes "txn_inv st"
  shows "txn_inv (snd (sweep now_us st))
    \<and> tt_pending_total st + settled st = tt_pending_total (snd (sweep now_us st)) + settled (snd (sweep now_us st))"
proof -
  let ?P = "\<lambda>(key :: flow_key \<times> nat, p). timed_out now_us TxnDns p"
  have dist: "distinct (map fst (tt_dns st))" "distinct (map fst (tt_http st))" using assms by (simp_all add: txn_inv_def)
  have dns: "length (filter ?P (tt_dns st)) + length (filter (\<lambda>(key, p). \<not> timed_out now_us TxnDns p) (tt_dns st)) = length (tt_dns st)"
    using sum_length_filter_compl [of ?P "tt_dns st"] by (simp add: case_prod_unfold)
  note http = expire_http_lengths [of now_us "tt_http st"]
  have "txn_inv (snd (sweep now_us st))"
    using assms dns http expire_http_queues [of "tt_http st"] expire_http_distinct [of "tt_http st"]
    by (auto simp: sweep_exact [OF dist(1)] txn_inv_def distinct_map_filter count_unanswered_stats sweep_reports_def
        intro: order_trans [OF length_filter_le])
  moreover have "length (sweep_reports now_us st) \<le> tt_pending_total st"
    using assms dns http by (simp add: sweep_reports_def txn_inv_def)
  moreover have "settled (snd (sweep now_us st)) = settled st + length (sweep_reports now_us st)"
    using count_unanswered_stats(2) [where st = st and es = "sweep_reports now_us st" and s = "tt_stats st"]
    by (simp add: sweep_exact [OF dist(1)] settled_def)
  ultimately show ?thesis by (simp add: sweep_exact [OF dist(1)])
qed

lemma expire_ok:
  "txn_inv st \<Longrightarrow> txn_inv (snd (expire now_us st))
    \<and> tt_pending_total st + settled st = tt_pending_total (snd (expire now_us st)) + settled (snd (expire now_us st))"
  using sweep_ok [of st now_us] by (simp add: expire_def split: option.split)

section \<open>The whole run\<close>

lemma set_frame_id_seqs: "map pr_http_seq (set_frame_id seq i q) = map pr_http_seq q"
  by (induction q) auto

definition seqs_ok :: "nat \<Rightarrow> nat list \<Rightarrow> bool" where
  "seqs_ok n seqs \<longleftrightarrow> seqs \<noteq> [] \<and> length seqs \<le> max_http_pipeline \<and> sorted_wrt (<) seqs \<and> (\<forall>s\<in>set seqs. s < n)"

lemma queue_ok_seqs: "queue_ok n q = seqs_ok n (map pr_http_seq q)"
  by (simp add: queue_ok_def seqs_ok_def)

lemma attach_ok:
  assumes "txn_inv st"
  shows "txn_inv (attach_frame_id ref i st)
    \<and> tt_pending_total (attach_frame_id ref i st) + settled (attach_frame_id ref i st) = tt_pending_total st + settled st"
proof (cases ref)
  case (DnsRef key ident)
  then show ?thesis
    using assms by (auto simp: txn_inv_def settled_def length_update_old split: option.split)
next
  case (HttpRef key seq)
  show ?thesis
  proof (cases "map_of (tt_http st) key")
    case (Some q)
    let ?q = "set_frame_id seq i q"
    have len: "length ?q = length q" using set_frame_id_seqs [of seq i q] by (metis length_map)
    have q: "queue_ok (tt_next_http_seq st) ?q"
      using assms Some by (auto simp: txn_inv_def queue_ok_seqs set_frame_id_seqs dest: map_of_SomeD)
    have dist: "distinct (map fst (tt_http st))" using assms by (simp add: txn_inv_def)
    have "weigh length (AList.update key ?q (tt_http st)) = weigh length (tt_http st)"
      using weigh_update [OF dist, of length key ?q] Some len by simp
    then show ?thesis
      using assms Some q HttpRef by (auto simp: txn_inv_def settled_def dest!: set_update_values)
  qed (use assms HttpRef in simp)
qed

text \<open>The requests a run waited on, and those a reset dropped.\<close>

fun accepted :: "txn_op list \<Rightarrow> transaction_tracker \<Rightarrow> nat" where
  "accepted [] st = 0"
| "accepted (op # ops) st =
     (case op of Frame flow l7 ts r \<Rightarrow> accepts (fst (observe_frame flow l7 ts r st)) | _ \<Rightarrow> 0)
     + accepted ops (txn_step op st)"

fun dropped :: "txn_op list \<Rightarrow> transaction_tracker \<Rightarrow> nat" where
  "dropped [] st = 0"
| "dropped (op # ops) st = (case op of ResetTracker \<Rightarrow> tt_pending_total st | _ \<Rightarrow> 0) + dropped ops (txn_step op st)"

lemma reset_inv: "txn_inv st \<Longrightarrow> txn_inv (tracker_reset st)"
  by (simp add: txn_inv_def tracker_reset_def)

lemma txn_step_accounts:
  assumes "txn_inv st"
  shows "txn_inv (txn_step op st)
    \<and> accepted [op] st + tt_pending_total st + settled st =
        tt_pending_total (txn_step op st) + settled (txn_step op st) + dropped [op] st"
proof (cases op)
  case (Frame flow l7 ts r)
  then show ?thesis using observe_frame_ok [OF assms, of flow l7 ts r] by (simp add: step_ok_def)
next
  case (AttachId ref i)
  then show ?thesis using attach_ok [OF assms, of ref i] by simp
next
  case (ExpireAt now_us)
  then show ?thesis using expire_ok [OF assms, of now_us] by simp
next
  case ResetTracker
  then show ?thesis using reset_inv [OF assms] by (simp add: tracker_reset_def settled_def)
qed

lemma txn_run_accounts:
  "txn_inv st \<Longrightarrow> txn_inv (txn_run ops st)
    \<and> accepted ops st + tt_pending_total st + settled st =
        tt_pending_total (txn_run ops st) + settled (txn_run ops st) + dropped ops st"
proof (induction ops arbitrary: st)
  case (Cons op ops)
  have "accepted (op # ops) st = accepted [op] st + accepted ops (txn_step op st)"
    "dropped (op # ops) st = dropped [op] st + dropped ops (txn_step op st)"
    by simp_all
  then show ?case using txn_step_accounts [OF Cons.prems, of op] Cons.IH [of "txn_step op st"] by simp
qed simp

lemma tracker_new_inv: "txn_inv (tracker_new service_time_stats_default)"
  by (simp add: txn_inv_def tracker_new_def stats_ok_def service_time_stats_default_def protocol_stats_default_def)

section \<open>Every request by itself\<close>

text \<open>
  A ticket is a request the tracker waits on: its reference, the time it was sent and its description. The
  reports are the answers it measured, each with the flow and the time of the response, and the requests it
  gave up waiting for, each with the time of the sweep.
\<close>

type_synonym ticket = "request_ref \<times> nat \<times> rstring"

datatype txn_report = AnsweredAt flow_key txn_protocol nat nat | SilentAt nat unanswered

fun ref_flow :: "request_ref \<Rightarrow> flow_key" where
  "ref_flow (DnsRef key _) = key"
| "ref_flow (HttpRef key _) = key"

fun ref_protocol :: "request_ref \<Rightarrow> txn_protocol" where
  "ref_protocol (DnsRef _ _) = TxnDns"
| "ref_protocol (HttpRef _ _) = TxnHttp"

text \<open>A report settles a ticket of its flow and protocol: the service time runs from the ticket's time, or the timeout has passed since.\<close>

fun settles :: "txn_report \<Rightarrow> ticket \<Rightarrow> bool" where
  "settles (AnsweredAt key protocol service_time_us ts_us) (ref, sent_us, description) \<longleftrightarrow>
     ref_flow ref = key \<and> ref_protocol ref = protocol \<and> service_time_us = ts_us - sent_us"
| "settles (SilentAt now_us u) (ref, sent_us, description) \<longleftrightarrow>
     ua_protocol u = ref_protocol ref \<and> ua_flow_id u = connection_id (ref_flow ref) \<and> ua_description u = description \<and>
     timeout_us (ref_protocol ref) \<le> now_us - sent_us"

fun request_description :: "l7_info \<Rightarrow> rstring" where
  "request_description (Dns qname ident qtype) = [0x22] @ display_safe qname @ [0x22] @ lit '' '' @ dns_type_name qtype"
| "request_description (Http verb path) = display_safe (verb @ lit '' '' @ path)"
| "request_description _ = []"

fun tickets_issued :: "txn_op \<Rightarrow> transaction_tracker \<Rightarrow> ticket list" where
  "tickets_issued (Frame flow l7 ts r) st =
     (case fst (observe_frame flow l7 ts r st) of TxnRequest ref \<Rightarrow> [(ref, ts, request_description l7)] | _ \<Rightarrow> [])"
| "tickets_issued _ st = []"

fun reports_made :: "txn_op \<Rightarrow> transaction_tracker \<Rightarrow> txn_report list" where
  "reports_made (Frame flow l7 ts r) st =
     (case (flow, fst (observe_frame flow l7 ts r st)) of
        (Some (key, _), Answered protocol service_time_us _) \<Rightarrow> [AnsweredAt key protocol service_time_us ts]
      | _ \<Rightarrow> [])"
| "reports_made (ExpireAt now_us) st = map (SilentAt now_us) (fst (expire now_us st))"
| "reports_made _ st = []"

definition dns_ticket :: "(flow_key \<times> nat) \<times> pending_request \<Rightarrow> ticket list" where
  "dns_ticket = (\<lambda>((key, ident), p). [(DnsRef key ident, pr_sent_at_us p, pr_description p)])"

definition http_tickets :: "flow_key \<times> pending_request list \<Rightarrow> ticket list" where
  "http_tickets = (\<lambda>(key, q). map (\<lambda>p. (HttpRef key (pr_http_seq p), pr_sent_at_us p, pr_description p)) q)"

definition tickets_pending :: "transaction_tracker \<Rightarrow> ticket list" where
  "tickets_pending st = concat (map dns_ticket (tt_dns st)) @ concat (map http_tickets (tt_http st))"

fun tickets_dropped :: "txn_op \<Rightarrow> transaction_tracker \<Rightarrow> ticket list" where
  "tickets_dropped ResetTracker st = tickets_pending st"
| "tickets_dropped _ st = []"

text \<open>What the operations of a run give one after the other.\<close>

fun along :: "(txn_op \<Rightarrow> transaction_tracker \<Rightarrow> 'a list) \<Rightarrow> txn_op list \<Rightarrow> transaction_tracker \<Rightarrow> 'a list" where
  "along f [] st = []"
| "along f (op # ops) st = f op st @ along f ops (txn_step op st)"

text \<open>Some pairing of reports and tickets settles each report's ticket, and no ticket is lost or made up.\<close>

definition conserved :: "ticket list \<Rightarrow> txn_report list \<Rightarrow> ticket list \<Rightarrow> transaction_tracker \<Rightarrow> transaction_tracker \<Rightarrow> bool" where
  "conserved issued reports gone st st' \<longleftrightarrow>
     (\<exists>closed. list_all2 settles reports closed \<and>
        mset (tickets_pending st) + mset issued = mset (tickets_pending st') + mset closed + mset gone)"

lemma conserved_refl [simp]: "tickets_pending st' = tickets_pending st \<Longrightarrow> conserved [] [] [] st st'"
  by (simp add: conserved_def)

lemma conserved_trans:
  assumes "conserved i r g st st'" "conserved i' r' g' st' st''"
  shows "conserved (i @ i') (r @ r') (g @ g') st st''"
proof -
  obtain c c' where "list_all2 settles r c" "list_all2 settles r' c'"
    and eqs: "mset (tickets_pending st) + mset i = mset (tickets_pending st') + mset c + mset g"
      "mset (tickets_pending st') + mset i' = mset (tickets_pending st'') + mset c' + mset g'"
    using assms unfolding conserved_def by blast
  then have "list_all2 settles (r @ r') (c @ c')" by (simp add: list_all2_appendI)
  moreover have "mset (tickets_pending st) + mset (i @ i') = mset (tickets_pending st'') + mset (c @ c') + mset (g @ g')"
  proof -
    have "mset (tickets_pending st) + mset (i @ i') = (mset (tickets_pending st) + mset i) + mset i'" by (simp add: add.assoc)
    also have "\<dots> = (mset (tickets_pending st') + mset i') + mset c + mset g" unfolding eqs(1) by (simp add: ac_simps)
    also have "\<dots> = mset (tickets_pending st'') + mset (c @ c') + mset (g @ g')" unfolding eqs(2) by (simp add: ac_simps)
    finally show ?thesis .
  qed
  ultimately show ?thesis unfolding conserved_def by blast
qed

lemma mset_delete_entry:
  assumes "distinct (map fst xs)" "map_of xs k = Some v"
  shows "mset (concat (map f xs)) = mset (f (k, v)) + mset (concat (map f (AList.delete k xs)))"
  using assms by (induction xs) (auto simp: delete_id image_iff)

lemma mset_update_entry:
  assumes "distinct (map fst xs)"
  shows "mset (concat (map f (AList.update k v xs))) + (case map_of xs k of None \<Rightarrow> {#} | Some u \<Rightarrow> mset (f (k, u))) =
    mset (f (k, v)) + mset (concat (map f xs))"
  using assms by (induction xs) (auto simp: ac_simps split: option.splits)

lemma mset_update_same:
  assumes "distinct (map fst xs)" "map_of xs k = Some u" "f (k, v) = f (k, u)"
  shows "mset (concat (map f (AList.update k v xs))) = mset (concat (map f xs))"
  using mset_update_entry [OF assms(1), of f k v] assms(2,3) by (simp add: add.commute)

lemma http_tickets_nil: "http_tickets (key, []) = []"
  by (simp add: http_tickets_def)

lemma http_tickets_append: "http_tickets (key, q @ r) = http_tickets (key, q) @ http_tickets (key, r)"
  by (simp add: http_tickets_def)

text \<open>One operation after the other.\<close>

lemma dns_query_conserved:
  assumes "txn_inv st" "dns_query key out qn ident qt ts st = (ev, st')"
  shows "conserved (case ev of TxnRequest ref \<Rightarrow> [(ref, ts, request_description (Dns qn ident qt))] | _ \<Rightarrow> []) [] [] st st'
    \<and> (\<forall>pr t i. ev \<noteq> Answered pr t i)"
proof (cases "is_dns_service key out \<and> map_of (tt_dns st) (key, ident) = None \<and> tt_pending_total st < max_pending")
  case True
  have "distinct (map fst (tt_dns st))" using assms(1) by (simp add: txn_inv_def)
  from mset_update_entry [OF this, of dns_ticket "(key, ident)"] True
  have "mset (concat (map dns_ticket (AList.update (key, ident) p (tt_dns st)))) =
      mset (dns_ticket ((key, ident), p)) + mset (concat (map dns_ticket (tt_dns st)))" for p by simp
  then show ?thesis
    using assms(2) True by (auto simp: dns_query_def conserved_def tickets_pending_def dns_ticket_def)
next
  case False
  then have "tickets_pending st' = tickets_pending st \<and> (\<forall>ref. ev \<noteq> TxnRequest ref) \<and> (\<forall>pr t i. ev \<noteq> Answered pr t i)"
    using assms(2) by (auto simp: dns_query_def count_untracked_def tickets_pending_def split: if_splits)
  then show ?thesis by (auto split: txn_event.splits)
qed

lemma http_request_conserved:
  assumes "txn_inv st" "http_request key out verb path ts st = (ev, st')"
  shows "conserved (case ev of TxnRequest ref \<Rightarrow> [(ref, ts, request_description (Http verb path))] | _ \<Rightarrow> []) [] [] st st'
    \<and> (\<forall>pr t i. ev \<noteq> Answered pr t i)"
proof (cases "tt_pending_total st \<ge> max_pending
    \<or> (\<exists>queue \<in> set_option (map_of (tt_http st) key). length queue \<ge> max_http_pipeline)")
  case True
  then have "tickets_pending st' = tickets_pending st \<and> ev = Untracked"
    using assms(2) by (auto simp: http_request_def count_untracked_def tickets_pending_def)
  then show ?thesis by auto
next
  case False
  have "distinct (map fst (tt_http st))" using assms(1) by (simp add: txn_inv_def)
  then have "mset (concat (map http_tickets (AList.update key (http_queue key st @ [p]) (tt_http st)))) + mset (http_tickets (key, http_queue key st)) =
      mset (http_tickets (key, http_queue key st @ [p])) + mset (concat (map http_tickets (tt_http st)))" for p
    using mset_update_entry [of "tt_http st" http_tickets key "http_queue key st @ [p]"]
    by (cases "map_of (tt_http st) key") (simp_all add: http_queue_def http_tickets_nil)
  then have "mset (concat (map http_tickets (AList.update key (http_queue key st @ [p]) (tt_http st)))) =
      mset (http_tickets (key, [p])) + mset (concat (map http_tickets (tt_http st)))" for p
    by (simp add: http_tickets_append ac_simps)
  then show ?thesis
    using assms(2) False by (auto simp: http_request_def Let_def conserved_def tickets_pending_def http_tickets_def)
qed

lemma dns_response_conserved:
  assumes "txn_inv st" "txn_dns_response key out qn ident ts st = (ev, st')"
  shows "conserved [] (case ev of Answered protocol time _ \<Rightarrow> [AnsweredAt key protocol time ts] | _ \<Rightarrow> []) [] st st'
    \<and> (\<forall>ref. ev \<noteq> TxnRequest ref)"
proof (cases "\<exists>p. is_dns_service key (\<not> out) \<and> map_of (tt_dns st) (key, ident) = Some p \<and> dns_answer_matches out qn p")
  case True
  then obtain p where p: "is_dns_service key (\<not> out)" "map_of (tt_dns st) (key, ident) = Some p" "dns_answer_matches out qn p" by blast
  have "distinct (map fst (tt_dns st))" using assms(1) by (simp add: txn_inv_def)
  note rest = mset_delete_entry [OF this p(2), of dns_ticket]
  have "ev = Answered TxnDns (ts - pr_sent_at_us p) (pr_frame_id p)" "tt_dns st' = AList.delete (key, ident) (tt_dns st)"
    "tt_http st' = tt_http st"
    using assms(2) p by (auto simp: txn_dns_response_def answer_request_def Let_def)
  then show ?thesis
    using rest by (auto simp: conserved_def tickets_pending_def dns_ticket_def list_all2_Cons1)
next
  case False
  then have "st' = st \<and> (\<forall>ref. ev \<noteq> TxnRequest ref) \<and> (\<forall>pr t i. ev \<noteq> Answered pr t i)"
    using assms(2) by (auto simp: txn_dns_response_def split: if_splits option.splits)
  then show ?thesis by (auto split: txn_event.splits)
qed

lemma http_response_conserved:
  assumes "txn_inv st" "http_response key out status ts st = (ev, st')"
  shows "conserved [] (case ev of Answered protocol time _ \<Rightarrow> [AnsweredAt key protocol time ts] | _ \<Rightarrow> []) [] st st'
    \<and> (\<forall>ref. ev \<noteq> TxnRequest ref)"
proof (cases "\<exists>front rest. map_of (tt_http st) key = Some (front # rest) \<and> pr_request_is_outbound front \<noteq> out \<and> \<not> is_interim_status status")
  case True
  then obtain front rest where q: "map_of (tt_http st) key = Some (front # rest)" "pr_request_is_outbound front \<noteq> out"
    "\<not> is_interim_status status" by blast
  have dist: "distinct (map fst (tt_http st))" using assms(1) by (simp add: txn_inv_def)
  have "mset (concat (map http_tickets (tt_http st))) =
      mset (http_tickets (key, [front])) + mset (concat (map http_tickets (tt_http st')))"
    using assms(2) q mset_delete_entry [OF dist q(1), of http_tickets] mset_update_entry [OF dist, of http_tickets key rest]
    by (auto simp: http_response_def answer_request_def Let_def http_tickets_def split: if_splits)
  moreover have "ev = Answered TxnHttp (ts - pr_sent_at_us front) (pr_frame_id front)" "tt_dns st' = tt_dns st"
    using assms(2) q by (auto simp: http_response_def answer_request_def Let_def)
  ultimately show ?thesis
    by (auto simp: conserved_def tickets_pending_def http_tickets_def list_all2_Cons1)
next
  case False
  then have "st' = st \<and> (\<forall>ref. ev \<noteq> TxnRequest ref) \<and> (\<forall>pr t i. ev \<noteq> Answered pr t i)"
    using assms(2) by (auto simp: http_response_def split: if_splits option.splits list.splits)
  then show ?thesis by (auto split: txn_event.splits)
qed

lemma frame_conserved:
  assumes "txn_inv st"
  shows "conserved (tickets_issued (Frame flow l7 ts r) st) (reports_made (Frame flow l7 ts r) st) [] st (txn_step (Frame flow l7 ts r) st)"
proof (cases "r \<or> flow = None")
  case True
  then show ?thesis by (auto simp: observe_frame_def split: option.splits)
next
  case False
  then obtain key out where flow: "flow = Some (key, out)" "\<not> r" by auto
  obtain ev st' where run: "observe_frame flow l7 ts r st = (ev, st')" by force
  have shape: "conserved (case ev of TxnRequest ref \<Rightarrow> [(ref, ts, request_description l7)] | _ \<Rightarrow> [])
      (case ev of Answered protocol time _ \<Rightarrow> [AnsweredAt key protocol time ts] | _ \<Rightarrow> []) [] st st'"
  proof (cases l7)
    case (Dns qn ident qt)
    then show ?thesis
      using dns_query_conserved [OF assms, of key out qn ident qt ts ev st'] run flow
      by (auto simp: observe_frame_def split: txn_event.splits)
  next
    case (DnsResponse qn ident)
    then show ?thesis
      using dns_response_conserved [OF assms, of key out qn ident ts ev st'] run flow
      by (auto simp: observe_frame_def split: txn_event.splits)
  next
    case (Http verb path)
    then show ?thesis
      using http_request_conserved [OF assms, of key out verb path ts ev st'] run flow
      by (auto simp: observe_frame_def split: txn_event.splits)
  next
    case (HttpResponse status)
    then show ?thesis
      using http_response_conserved [OF assms, of key out status ts ev st'] run flow
      by (auto simp: observe_frame_def split: txn_event.splits)
  qed (use run flow in \<open>auto simp: observe_frame_def\<close>)
  then show ?thesis by (simp add: run flow(1) [symmetric]) (simp add: flow(1))
qed

lemma set_frame_id_tickets: "http_tickets (key, set_frame_id seq i q) = http_tickets (key, q)"
  by (induction q) (auto simp: http_tickets_def)

lemma attach_conserved:
  assumes "txn_inv st"
  shows "conserved [] [] [] st (attach_frame_id ref i st)"
proof -
  have dist: "distinct (map fst (tt_dns st))" "distinct (map fst (tt_http st))" using assms by (simp_all add: txn_inv_def)
  have "mset (tickets_pending (attach_frame_id ref i st)) = mset (tickets_pending st)"
  proof (cases ref)
    case (DnsRef key ident)
    then show ?thesis
      by (auto simp: tickets_pending_def dns_ticket_def intro: mset_update_same [OF dist(1)] split: option.split)
  next
    case (HttpRef key seq)
    then show ?thesis
      by (auto simp: tickets_pending_def set_frame_id_tickets intro: mset_update_same [OF dist(2)] split: option.split)
  qed
  then show ?thesis by (simp add: conserved_def)
qed

text \<open>A sweep reports, for each ticket it takes away, that its time has passed.\<close>

lemma sweep_dns_settles:
  "\<exists>closed. list_all2 settles (map (SilentAt now_us) (map (\<lambda>(key, p). unanswered_of TxnDns (fst key) p) (filter (\<lambda>(key, p). timed_out now_us TxnDns p) dns))) closed \<and>
     mset (concat (map dns_ticket dns)) = mset (concat (map dns_ticket (filter (\<lambda>(key, p). \<not> timed_out now_us TxnDns p) dns))) + mset closed"
proof (induction dns)
  case (Cons e dns)
  then obtain closed where IH: "list_all2 settles (map (SilentAt now_us) (map (\<lambda>(key, p). unanswered_of TxnDns (fst key) p)
      (filter (\<lambda>(key, p). timed_out now_us TxnDns p) dns))) closed"
    "mset (concat (map dns_ticket dns)) = mset (concat (map dns_ticket (filter (\<lambda>(key, p). \<not> timed_out now_us TxnDns p) dns))) + mset closed"
    by blast
  obtain key ident p where e: "e = ((key, ident), p)" by (cases e) auto
  show ?case
  proof (cases "timed_out now_us TxnDns p")
    case True
    then have "settles (SilentAt now_us (unanswered_of TxnDns key p)) (DnsRef key ident, pr_sent_at_us p, pr_description p)"
      by (simp add: unanswered_of_def timed_out_def)
    then show ?thesis
      using IH True e by (intro exI [of _ "(DnsRef key ident, pr_sent_at_us p, pr_description p) # closed"]) (simp add: dns_ticket_def)
  next
    case False
    then show ?thesis using IH e by (intro exI [of _ closed]) simp
  qed
qed simp

lemma sweep_queue_settles:
  "list_all2 settles (map (SilentAt now_us) (fst (expire_queue now_us key q))) (http_tickets (key, takeWhile (timed_out now_us TxnHttp) q))"
  unfolding expire_queue_exact by (induction q) (auto simp: http_tickets_def unanswered_of_def timed_out_def)

lemma sweep_http_settles:
  "\<exists>closed. list_all2 settles (map (SilentAt now_us) (fst (expire_http now_us http))) closed \<and>
     mset (concat (map http_tickets http)) = mset (concat (map http_tickets (snd (expire_http now_us http)))) + mset closed"
proof (induction http)
  case (Cons e http)
  then obtain closed where IH: "list_all2 settles (map (SilentAt now_us) (fst (expire_http now_us http))) closed"
    "mset (concat (map http_tickets http)) = mset (concat (map http_tickets (snd (expire_http now_us http)))) + mset closed"
    by blast
  obtain key q where e: "e = (key, q)" by (cases e)
  let ?late = "takeWhile (timed_out now_us TxnHttp) q" and ?rest = "dropWhile (timed_out now_us TxnHttp) q"
  have "http_tickets (key, q) = http_tickets (key, ?late) @ http_tickets (key, ?rest)"
    by (simp flip: http_tickets_append)
  moreover have "mset (concat (map http_tickets (snd (expire_http now_us (e # http))))) =
      mset (http_tickets (key, ?rest)) + mset (concat (map http_tickets (snd (expire_http now_us http))))"
    by (cases "?rest = []") (simp_all add: e expire_http_def expire_queue_exact http_tickets_nil del: dropWhile_eq_Nil_conv)
  moreover have "fst (expire_http now_us (e # http)) = fst (expire_queue now_us key q) @ fst (expire_http now_us http)"
    by (simp add: e expire_http_def)
  ultimately show ?case
    using IH sweep_queue_settles [of now_us key q]
    by (intro exI [of _ "http_tickets (key, ?late) @ closed"]) (simp add: e list_all2_appendI)
qed (simp add: expire_http_def)

lemma sweep_conserved:
  assumes "txn_inv st"
  shows "conserved [] (map (SilentAt now_us) (fst (sweep now_us st))) [] st (snd (sweep now_us st))"
proof -
  have "distinct (map fst (tt_dns st))" using assms by (simp add: txn_inv_def)
  note exact = sweep_exact [OF this, of now_us]
  obtain c c' where c: "list_all2 settles (map (SilentAt now_us) (map (\<lambda>(key, p). unanswered_of TxnDns (fst key) p)
      (filter (\<lambda>(key, p). timed_out now_us TxnDns p) (tt_dns st)))) c"
    "mset (concat (map dns_ticket (tt_dns st))) = mset (concat (map dns_ticket (filter (\<lambda>(key, p). \<not> timed_out now_us TxnDns p) (tt_dns st)))) + mset c"
    "list_all2 settles (map (SilentAt now_us) (fst (expire_http now_us (tt_http st)))) c'"
    "mset (concat (map http_tickets (tt_http st))) = mset (concat (map http_tickets (snd (expire_http now_us (tt_http st))))) + mset c'"
    using sweep_dns_settles sweep_http_settles by blast
  then show ?thesis
    unfolding conserved_def exact
    by (intro exI [of _ "c @ c'"]) (simp add: sweep_reports_def tickets_pending_def list_all2_appendI)
qed

lemma txn_step_conserved:
  assumes "txn_inv st"
  shows "conserved (tickets_issued op st) (reports_made op st) (tickets_dropped op st) st (txn_step op st)"
proof (cases op)
  case (Frame flow l7 ts r)
  then show ?thesis using frame_conserved [OF assms, of flow l7 ts r] by simp
next
  case (AttachId ref i)
  then show ?thesis using attach_conserved [OF assms, of ref i] by simp
next
  case (ExpireAt now_us)
  then show ?thesis using sweep_conserved [OF assms, of now_us] by (simp add: expire_def split: option.splits)
next
  case ResetTracker
  then show ?thesis by (simp add: conserved_def tickets_pending_def tracker_reset_def)
qed

lemma txn_run_conserved:
  "txn_inv st \<Longrightarrow> conserved (along tickets_issued ops st) (along reports_made ops st) (along tickets_dropped ops st) st (txn_run ops st)"
proof (induction ops arbitrary: st)
  case (Cons op ops)
  have "txn_inv (txn_step op st)" using txn_step_accounts [OF Cons.prems] by blast
  from conserved_trans [OF txn_step_conserved [OF Cons.prems, of op] Cons.IH [OF this]] show ?case by simp
qed simp

text \<open>A sweep that is due leaves no query over its time, and no connection whose oldest request is.\<close>

lemma sweep_leaves_none_late:
  assumes "txn_inv st"
  shows "list_all (\<lambda>(key, p). now_us - pr_sent_at_us p < dns_timeout_us) (tt_dns (snd (sweep now_us st)))"
    "list_all (\<lambda>(key, q). q \<noteq> [] \<and> now_us - pr_sent_at_us (hd q) < http_timeout_us) (tt_http (snd (sweep now_us st)))"
proof -
  have "distinct (map fst (tt_dns st))" using assms by (simp add: txn_inv_def)
  note exact = sweep_exact [OF this, of now_us]
  show "list_all (\<lambda>(key, p). now_us - pr_sent_at_us p < dns_timeout_us) (tt_dns (snd (sweep now_us st)))"
    by (auto simp: exact timed_out_def list_all_iff not_le)
  have "now_us - pr_sent_at_us (hd (dropWhile (timed_out now_us TxnHttp) q)) < http_timeout_us"
    if "dropWhile (timed_out now_us TxnHttp) q \<noteq> []" for q
    using hd_dropWhile [OF that] by (simp add: timed_out_def not_le)
  then show "list_all (\<lambda>(key, q). q \<noteq> [] \<and> now_us - pr_sent_at_us (hd q) < http_timeout_us) (tt_http (snd (sweep now_us st)))"
    by (auto simp: exact expire_http_def expire_queue_exact list_all_iff)
qed


end
