(* ===== verification/TransactionMatching.thy ===== *)
theory TransactionMatching
  imports TransactionCorrect
begin

text \<open>
  Which response a request is matched with: DNS by flow, identifier, direction and question, from
  the first attempt on; HTTP in pipeline order. Also what a sweep reports, and the percentiles.
\<close>

section \<open>DNS\<close>

text \<open>
  The operations that may happen between a query and its answer: anything but a matching answer,
  a reset, another frame identifier for the same request, or a sweep past its timeout.
\<close>

fun undisturbed :: "flow_key \<Rightarrow> bool \<Rightarrow> rstring \<Rightarrow> nat \<Rightarrow> nat \<Rightarrow> txn_op \<Rightarrow> bool" where
  "undisturbed key out qname ident t0 (Frame flow l7 ts retransmit) \<longleftrightarrow>
     (case l7 of
        DnsResponse qname' ident' _ _ _ _ \<Rightarrow>
          flow = Some (key, \<not> out) \<longrightarrow> ident' = ident \<longrightarrow> \<not> eq_ignore_ascii_case qname' qname
      | _ \<Rightarrow> True)"
| "undisturbed key out qname ident t0 (AttachId ref frame_id) \<longleftrightarrow> ref \<noteq> DnsRef key ident"
| "undisturbed key out qname ident t0 (ExpireAt now_us) \<longleftrightarrow> now_us - t0 < dns_timeout_us"
| "undisturbed key out qname ident t0 ResetTracker \<longleftrightarrow> False"

definition awaiting :: "flow_key \<Rightarrow> bool \<Rightarrow> rstring \<Rightarrow> nat \<Rightarrow> nat \<Rightarrow> rstring option \<Rightarrow> transaction_tracker \<Rightarrow> bool" where
  "awaiting key out qname ident t0 frame_id st \<longleftrightarrow>
     (\<exists>p. map_of (tt_dns st) (key, ident) = Some p \<and> pr_sent_at_us p = t0 \<and> pr_request_is_outbound p = out
        \<and> pr_dns_qname p = Some (to_ascii_lowercase qname) \<and> pr_frame_id p = frame_id)"

lemma awaiting_cong: "tt_dns st = tt_dns st' \<Longrightarrow> awaiting k out qn i t f st = awaiting k out qn i t f st'"
  by (simp add: awaiting_def)

lemma untracked_dns [simp]: "tt_dns (snd (count_untracked pr st)) = tt_dns st"
  by (simp add: count_untracked_def)

lemma frame_keeps_awaiting:
  assumes "awaiting key out qn i t0 f st" and "undisturbed key out qn i t0 (Frame flow l7 ts r)"
  shows "awaiting key out qn i t0 f (snd (observe_frame flow l7 ts r st))"
proof (cases "r \<or> flow = None")
  case False
  then obtain k d where flow: "\<not> r" "flow = Some (k, d)" by auto
  obtain p where p: "map_of (tt_dns st) (key, i) = Some p" using assms(1) by (auto simp: awaiting_def)
  show ?thesis
  proof (cases l7)
    case (Dns qn' i' qt)
    then show ?thesis
      using assms(1) p flow by (auto simp: observe_frame_def dns_query_def awaiting_def update_conv)
  next
    case (DnsResponse qn' i' qt rc n as)
    then have "(k, i') = (key, i) \<Longrightarrow> \<not> dns_answer_matches d qn' p"
      using assms p flow by (auto simp: awaiting_def dns_answer_matches_def eq_ignore_ascii_case_def)
    then show ?thesis
      using assms(1) p flow DnsResponse
      by (cases "(k, i') = (key, i)") (auto simp: observe_frame_def txn_dns_response_def awaiting_def delete_conv' split: option.split)
  next
    case (Http verb path)
    then show ?thesis
      using assms(1) flow awaiting_cong [of "snd (http_request k d verb path ts st)" st]
      by (simp add: observe_frame_def) (simp add: http_request_def Let_def)
  next
    case (HttpResponse status rs ct cl)
    then show ?thesis
      using assms(1) flow awaiting_cong [of "snd (http_response k d status ts st)" st]
      by (simp add: observe_frame_def) (simp add: http_response_def split: option.split list.split)
  qed (use assms(1) flow in \<open>simp_all add: observe_frame_def\<close>)
qed (use assms(1) in \<open>auto simp: observe_frame_def\<close>)

lemma op_keeps_awaiting:
  assumes "awaiting key out qn i t0 f st" "undisturbed key out qn i t0 op" "txn_inv st"
  shows "awaiting key out qn i t0 f (txn_step op st)"
proof (cases op)
  case (Frame flow l7 ts r)
  then show ?thesis using frame_keeps_awaiting assms by simp
next
  case (AttachId ref fid)
  then show ?thesis
    using assms by (cases ref) (auto simp: awaiting_def update_conv split: option.split)
next
  case (ExpireAt now_us)
  obtain p where p: "map_of (tt_dns st) (key, i) = Some p" "pr_sent_at_us p = t0" using assms(1) by (auto simp: awaiting_def)
  have dist: "distinct (map fst (tt_dns st))" using assms(3) by (simp add: txn_inv_def)
  have "\<not> timed_out now_us TxnDns p" using assms(2) ExpireAt p(2) by (simp add: timed_out_def)
  then have "map_of (tt_dns (snd (sweep now_us st))) (key, i) = Some p"
    using p(1) by (simp only: sweep_exact [OF dist] map_of_filter_distinct [OF dist] snd_conv) (simp add: map_of_filter_distinct [OF dist])
  then show ?thesis
    using assms(1) p(1) ExpireAt by (simp add: awaiting_def expire_def split: option.splits)
qed (use assms in simp)

lemma run_keeps_awaiting:
  "awaiting key out qn i t0 f st \<Longrightarrow> list_all (undisturbed key out qn i t0) ops \<Longrightarrow> txn_inv st
    \<Longrightarrow> awaiting key out qn i t0 f (txn_run ops st)"
proof (induction ops arbitrary: st)
  case (Cons op ops)
  then show ?case using op_keeps_awaiting txn_step_accounts [OF Cons.prems(3), of op] by simp
qed simp

lemma query_awaits:
  assumes "observe_frame (Some (key, out)) (Dns qn i qt) t0 False st = (TxnRequest ref, st1)"
  shows "ref = DnsRef key i \<and> awaiting key out qn i t0 None st1 \<and> is_dns_service key out"
  using assms by (auto simp: observe_frame_def dns_query_def count_untracked_def awaiting_def update_conv split: if_splits)

lemma attach_awaits:
  "awaiting key out qn i t0 f st \<Longrightarrow> awaiting key out qn i t0 (Some fid) (attach_frame_id (DnsRef key i) fid st)"
  by (auto simp: awaiting_def update_conv)

text \<open>
  C28: A DNS query the tracker waits on is answered by the first response on its flow that comes
  back the other way, with its identifier and its question up to case, and the service time runs
  from that first attempt, whatever happens in between short of its timeout: repeated queries,
  responses with another question or from the wrong side, traffic of other flows, sweeps. The
  answer names the request's own frame, and a repeated response is never a second answer.
\<close>

theorem dns_answer_measured_from_first_attempt:
  fixes ops0 ops
  defines "st0 \<equiv> txn_run ops0 (tracker_new service_time_stats_default)"
  assumes "observe_frame (Some (key, out)) (Dns qn i qt) t0 False st0 = (TxnRequest ref, st1)"
    and "list_all (undisturbed key out qn i t0) ops" and "eq_ignore_ascii_case qn' qn"
    and "observe_frame (Some (key, \<not> out)) (DnsResponse qn' i qt' rc n as) t1 False
      (txn_run ops (attach_frame_id ref fid st1)) = (ev, st2)"
  shows "ev = Answered TxnDns (t1 - t0) (Some fid)
    \<and> fst (observe_frame (Some (key, \<not> out)) (DnsResponse qn' i qt' rc n as) t2 False st2) \<in> {DuplicateResponse, Unmatched}"
proof -
  note q = query_awaits [OF assms(2)]
  have inv: "txn_inv st1"
    using txn_run_accounts [OF tracker_new_inv, of ops0] observe_frame_ok [of st0] assms(2)
    by (metis st0_def step_ok_def snd_conv)
  have "txn_inv (attach_frame_id ref fid st1)" using attach_ok [OF inv] by blast
  then have "awaiting key out qn i t0 (Some fid) (txn_run ops (attach_frame_id ref fid st1))"
    using run_keeps_awaiting assms(3) q attach_awaits by blast
  then show ?thesis
    using assms(4,5) q
    by (auto simp: awaiting_def observe_frame_def txn_dns_response_def dns_answer_matches_def eq_ignore_ascii_case_def
        answer_request_def Let_def)
qed

theorem dns_answer_measured_from_first_attempt_witness:
  "\<exists>key st1 ref. observe_frame (Some (key, True)) (Dns (lit ''a.Com'') 7 1) 100 False
       (txn_run [] (tracker_new service_time_stats_default)) = (TxnRequest ref, st1)
     \<and> fst (observe_frame (Some (key, False)) (DnsResponse (lit ''A.com'') 7 1 0 0 []) 350 False
         (txn_run [Frame (Some (key, True)) (Dns (lit ''a.com'') 7 1) 200 False, ExpireAt 300]
           (attach_frame_id ref (lit ''pkt'') st1))) = Answered TxnDns 250 (Some (lit ''pkt''))"
proof -
  define key where "key = \<lparr>flk_protocol = Udp, flk_local_addr = lit ''l'', flk_local_port = 5000,
    flk_remote_addr = lit ''r'', flk_remote_port = 53\<rparr>"
  define ops where "ops = [Frame (Some (key, True)) (Dns (lit ''a.com'') 7 1) 200 False, ExpireAt 300]"
  obtain ref st1 where q: "observe_frame (Some (key, True)) (Dns (lit ''a.Com'') 7 1) 100 False
      (txn_run [] (tracker_new service_time_stats_default)) = (TxnRequest ref, st1)"
    by (simp add: observe_frame_def dns_query_def is_dns_service_def key_def tracker_new_def max_pending_def)
  have ops: "list_all (undisturbed key True (lit ''a.Com'') 7 100) ops"
    by (simp add: ops_def dns_timeout_us_def)
  have name: "eq_ignore_ascii_case (lit ''A.com'') (lit ''a.Com'')"
    by (simp add: eq_ignore_ascii_case_def to_ascii_lowercase_def lit_def to_lower_byte_def ascii_upper_def)
  let ?resp = "observe_frame (Some (key, \<not> True)) (DnsResponse (lit ''A.com'') 7 1 0 0 []) 350 False
    (txn_run ops (attach_frame_id ref (lit ''pkt'') st1))"
  have "?resp = (fst ?resp, snd ?resp)" by simp
  from dns_answer_measured_from_first_attempt [OF q ops name this]
  have "fst ?resp = Answered TxnDns 250 (Some (lit ''pkt''))" by simp
  then show ?thesis using q unfolding ops_def by (intro exI [of _ key] exI [of _ st1] exI [of _ ref]) simp
qed

section \<open>HTTP pipelines\<close>

text \<open>A request as a client sends it: method, path, capture time, and the identifier of its frame.\<close>

type_synonym http_req = "rstring \<times> rstring \<times> nat \<times> rstring"

fun send_pipeline :: "flow_key \<Rightarrow> bool \<Rightarrow> http_req list \<Rightarrow> transaction_tracker \<Rightarrow> transaction_tracker" where
  "send_pipeline key out [] st = st"
| "send_pipeline key out ((verb, path, ts, fid) # rs) st =
     (case observe_frame (Some (key, out)) (Http verb path) ts False st of
        (TxnRequest ref, st') \<Rightarrow> send_pipeline key out rs (attach_frame_id ref fid st')
      | (_, st') \<Rightarrow> send_pipeline key out rs st')"

fun answer_pipeline ::
  "flow_key \<Rightarrow> bool \<Rightarrow> (rstring \<times> nat) list \<Rightarrow> transaction_tracker \<Rightarrow> txn_event list \<times> transaction_tracker" where
  "answer_pipeline key out [] st = ([], st)"
| "answer_pipeline key out ((status, ts) # rs) st =
     (let (ev, st') = observe_frame (Some (key, \<not> out)) (HttpResponse status None None None) ts False st;
          (evs, st'') = answer_pipeline key out rs st'
      in (ev # evs, st''))"

text \<open>What of a pending request its answer depends on.\<close>

definition view :: "pending_request \<Rightarrow> nat \<times> bool \<times> rstring option" where
  "view p = (pr_sent_at_us p, pr_request_is_outbound p, pr_frame_id p)"

definition queue_view :: "flow_key \<Rightarrow> transaction_tracker \<Rightarrow> (nat \<times> bool \<times> rstring option) list" where
  "queue_view key st = map view (http_queue key st)"

definition req_view :: "bool \<Rightarrow> http_req \<Rightarrow> nat \<times> bool \<times> rstring option" where
  "req_view out r = (case r of (verb, path, ts, fid) \<Rightarrow> (ts, out, Some fid))"

lemma set_frame_id_last:
  "\<forall>q\<in>set qs. pr_http_seq q < pr_http_seq p \<Longrightarrow>
   set_frame_id (pr_http_seq p) i (qs @ [p]) = qs @ [p\<lparr>pr_frame_id := Some i\<rparr>]"
  by (induction qs) auto

lemma queue_seqs_below: "txn_inv st \<Longrightarrow> p \<in> set (http_queue key st) \<Longrightarrow> pr_http_seq p < tt_next_http_seq st"
  by (auto simp: txn_inv_def http_queue_def queue_ok_def split: option.splits dest!: map_of_SomeD)

lemma send_tracked:
  assumes "txn_inv st" "length (queue_view key st) < max_http_pipeline" "tt_pending_total st < max_pending"
    and "observe_frame (Some (key, out)) (Http verb path) ts False st = (ev, st1)"
  obtains ref where "ev = TxnRequest ref" "txn_inv (attach_frame_id ref fid st1)"
    "queue_view key (attach_frame_id ref fid st1) = queue_view key st @ [(ts, out, Some fid)]"
    "tt_pending_total (attach_frame_id ref fid st1) = tt_pending_total st + 1"
proof -
  let ?ref = "HttpRef key (tt_next_http_seq st)"
  have room: "\<not> (tt_pending_total st \<ge> max_pending
      \<or> (\<exists>queue \<in> set_option (map_of (tt_http st) key). length queue \<ge> max_http_pipeline))"
    using assms(2,3) by (auto simp: queue_view_def http_queue_def)
  define p where "p = \<lparr>pr_sent_at_us = ts, pr_request_is_outbound = out, pr_description = display_safe (verb @ lit '' '' @ path),
    pr_frame_id = None, pr_dns_qname = None, pr_http_seq = tt_next_http_seq st\<rparr>"
  have ev: "ev = TxnRequest ?ref"
    and st1: "tt_http st1 = AList.update key (http_queue key st @ [p]) (tt_http st)"
      "tt_pending_total st1 = tt_pending_total st + 1"
    using assms(4) room by (auto simp: observe_frame_def http_request_def Let_def p_def)
  have "set_frame_id (tt_next_http_seq st) fid (http_queue key st @ [p]) =
      http_queue key st @ [p\<lparr>pr_frame_id := Some fid\<rparr>]"
    using set_frame_id_last [of "http_queue key st" p fid] queue_seqs_below [OF assms(1)] by (simp add: p_def)
  then have "queue_view key (attach_frame_id ?ref fid st1) = queue_view key st @ [(ts, out, Some fid)]"
    "tt_pending_total (attach_frame_id ?ref fid st1) = tt_pending_total st + 1"
    by (simp_all add: queue_view_def http_queue_def st1 update_conv view_def p_def)
  moreover have "txn_inv st1" using observe_frame_ok [OF assms(1)] assms(4) by (metis step_ok_def snd_conv)
  ultimately show thesis using ev that attach_ok by blast
qed

lemma send_pipeline_queue:
  "txn_inv st \<Longrightarrow> length (queue_view key st) + length rs \<le> max_http_pipeline
    \<Longrightarrow> tt_pending_total st + length rs \<le> max_pending
    \<Longrightarrow> txn_inv (send_pipeline key out rs st)
      \<and> queue_view key (send_pipeline key out rs st) = queue_view key st @ map (req_view out) rs
      \<and> tt_pending_total (send_pipeline key out rs st) = tt_pending_total st + length rs"
proof (induction rs arbitrary: st)
  case (Cons r rs)
  obtain verb path ts fid where r: "r = (verb, path, ts, fid)" by (cases r)
  obtain ev st1 where obs: "observe_frame (Some (key, out)) (Http verb path) ts False st = (ev, st1)" by fastforce
  obtain ref where ref: "ev = TxnRequest ref" "txn_inv (attach_frame_id ref fid st1)"
    "queue_view key (attach_frame_id ref fid st1) = queue_view key st @ [(ts, out, Some fid)]"
    "tt_pending_total (attach_frame_id ref fid st1) = tt_pending_total st + 1"
  proof (rule send_tracked [OF Cons.prems(1) _ _ obs])
    show "length (queue_view key st) < max_http_pipeline" "tt_pending_total st < max_pending" using Cons.prems(2,3) by simp_all
  qed
  then show ?case using Cons.IH [OF ref(2)] Cons.prems by (simp add: r obs req_view_def)
qed simp

lemma answer_front:
  assumes "queue_view key st = (t, out, f) # vs" and "\<not> is_interim_status status" and "txn_inv st"
  obtains st' where "observe_frame (Some (key, \<not> out)) (HttpResponse status None None None) ts False st =
      (Answered TxnHttp (ts - t) f, st')"
    "queue_view key st' = vs" "txn_inv st'" "tt_pending_total st' < tt_pending_total st"
proof -
  obtain p rest where q: "map_of (tt_http st) key = Some (p # rest)" "view p = (t, out, f)" "map view rest = vs"
    using assms(1) by (auto simp: queue_view_def http_queue_def split: option.splits)
  let ?r = "observe_frame (Some (key, \<not> out)) (HttpResponse status None None None) ts False st"
  have ok: "step_ok st ?r" by (rule observe_frame_ok [OF assms(3)])
  have ans: "?r = answer_request TxnHttp p ts (st\<lparr>tt_http := (if rest = [] then AList.delete key (tt_http st)
      else AList.update key rest (tt_http st))\<rparr>)"
    using q assms(2) by (auto simp: observe_frame_def http_response_def view_def)
  have "0 < tt_pending_total st"
    using q(1) assms(3) weigh_member_le [OF q(1), of length] by (simp add: txn_inv_def)
  then have "tt_pending_total (snd ?r) < tt_pending_total st" unfolding ans by simp
  moreover have "queue_view key (snd ?r) = vs"
    unfolding ans using q by (auto simp: queue_view_def http_queue_def update_conv)
  moreover have "fst ?r = Answered TxnHttp (ts - t) f"
    unfolding ans using q(2) by (simp add: answer_request_def view_def Let_def)
  ultimately show thesis using that ok by (metis step_ok_def prod.collapse)
qed

lemma answer_pipeline_queue:
  assumes "queue_view key st = map (req_view out) rs @ vs" "length resps = length rs"
    and "\<forall>(status, ts)\<in>set resps. \<not> is_interim_status status" "txn_inv st"
  shows "fst (answer_pipeline key out resps st) =
      map2 (\<lambda>(verb, path, t, fid) (status, t'). Answered TxnHttp (t' - t) (Some fid)) rs resps
    \<and> queue_view key (snd (answer_pipeline key out resps st)) = vs \<and> txn_inv (snd (answer_pipeline key out resps st))
    \<and> (resps \<noteq> [] \<longrightarrow> tt_pending_total (snd (answer_pipeline key out resps st)) < tt_pending_total st)"
  using assms
proof (induction resps arbitrary: rs st)
  case (Cons resp resps)
  obtain status ts where resp: "resp = (status, ts)" by (cases resp)
  obtain r rs' where r: "rs = r # rs'" using Cons.prems(2) by (cases rs) auto
  obtain verb path t fid where r': "r = (verb, path, t, fid)" by (cases r)
  have "queue_view key st = (t, out, Some fid) # (map (req_view out) rs' @ vs)"
    using Cons.prems(1) by (simp add: r r' req_view_def)
  then obtain st' where st': "observe_frame (Some (key, \<not> out)) (HttpResponse status None None None) ts False st =
      (Answered TxnHttp (ts - t) (Some fid), st')"
    "queue_view key st' = map (req_view out) rs' @ vs" "txn_inv st'" "tt_pending_total st' < tt_pending_total st"
    using answer_front Cons.prems(3,4) resp by (metis case_prodD list.set_intros(1))
  from Cons.IH [OF st'(2) _ _ st'(3)] Cons.prems(2,3) st'(1,4) show ?case
    by (cases resps) (auto simp: resp r r' case_prod_unfold Let_def)
qed simp

text \<open>
  C29: Up to 32 requests pipelined on an HTTP/1.x connection are matched in order: the i-th final
  response is reported as the answer to the i-th request, with the time between the two and the
  identifier of that request's own frame, from any state in which the connection has nothing
  outstanding and the tracker has room.
\<close>

theorem pipelined_http_answered_in_order:
  fixes ops
  defines "st \<equiv> txn_run ops (tracker_new service_time_stats_default)"
  assumes "http_queue key st = []" and "length reqs \<le> max_http_pipeline" and "tt_pending_total st + length reqs \<le> max_pending"
    and "length resps = length reqs" and "\<forall>(status, ts)\<in>set resps. \<not> is_interim_status status"
  shows "fst (answer_pipeline key out resps (send_pipeline key out reqs st)) =
    map2 (\<lambda>(verb, path, t, fid) (status, t'). Answered TxnHttp (t' - t) (Some fid)) reqs resps"
proof -
  have inv: "txn_inv st" using txn_run_accounts [OF tracker_new_inv] by (simp add: st_def)
  have "queue_view key st = []" using assms(2) by (simp add: queue_view_def)
  then show ?thesis
    using send_pipeline_queue [OF inv, of key reqs out] assms(3-6)
      answer_pipeline_queue [of key "send_pipeline key out reqs st" out reqs "[]" resps]
    by simp
qed

theorem pipelined_http_answered_in_order_witness:
  "\<forall>key. fst (answer_pipeline key True [(lit ''200'', 50), (lit ''404'', 70)]
     (send_pipeline key True [(lit ''GET'', lit ''/a'', 10, lit ''p1''), (lit ''GET'', lit ''/b'', 20, lit ''p2'')]
       (txn_run [] (tracker_new service_time_stats_default)))) =
   [Answered TxnHttp 40 (Some (lit ''p1'')), Answered TxnHttp 50 (Some (lit ''p2''))]"
proof -
  have "\<not> is_interim_status (lit ''200'')" "\<not> is_interim_status (lit ''404'')"
    by (simp_all add: is_interim_status_def starts_with_def lit_def)
  then show ?thesis
    using pipelined_http_answered_in_order [of _ "[]" "[(lit ''GET'', lit ''/a'', 10, lit ''p1''), (lit ''GET'', lit ''/b'', 20, lit ''p2'')]"
        "[(lit ''200'', 50), (lit ''404'', 70)]" True]
    by (simp add: http_queue_def tracker_new_def max_http_pipeline_def max_pending_def)
qed

lemma send_pipeline_append: "send_pipeline key out (xs @ ys) st = send_pipeline key out ys (send_pipeline key out xs st)"
  by (induction key out xs st rule: send_pipeline.induct) (auto split: prod.split txn_event.split)

lemma send_when_full:
  assumes "length (queue_view key st) = max_http_pipeline" and "txn_inv st"
  shows "queue_view key (send_pipeline key out [r] st) = queue_view key st \<and> txn_inv (send_pipeline key out [r] st)
    \<and> tt_pending_total (send_pipeline key out [r] st) = tt_pending_total st
    \<and> fst (observe_frame (Some (key, out)) (Http (fst r) (fst (snd r))) (fst (snd (snd r))) False st) = Untracked"
proof -
  obtain verb path ts fid where r: "r = (verb, path, ts, fid)" by (cases r)
  have full: "\<exists>queue \<in> set_option (map_of (tt_http st) key). length queue \<ge> max_http_pipeline"
    using assms(1) by (auto simp: queue_view_def http_queue_def max_http_pipeline_def split: option.splits)
  then have "observe_frame (Some (key, out)) (Http verb path) ts False st = count_untracked TxnHttp st"
    by (simp add: observe_frame_def http_request_def)
  moreover have "queue_view key (snd (count_untracked TxnHttp st)) = queue_view key st"
    by (simp add: queue_view_def http_queue_def count_untracked_def)
  ultimately show ?thesis
    using assms(2) count_untracked_state [of TxnHttp st] by (auto simp: r case_prod_unfold split: txn_event.split)
qed

text \<open>
  C38: An HTTP request that was not tracked because its connection already had 32 outstanding
  requests is not the end of it: with the responses still coming in order, the response to the
  untracked request is reported as the answer to the next request of the connection that was
  tracked, with a service time measured from the wrong request and its frame identifier.
\<close>

theorem untracked_http_response_misattributed:
  fixes key out reqs lost status1 t1
  defines "full \<equiv> send_pipeline key out reqs (tracker_new service_time_stats_default)"
    and "freed \<equiv> snd (answer_pipeline key out [(status1, t1)]
      (send_pipeline key out (reqs @ [lost]) (tracker_new service_time_stats_default)))"
  assumes "length reqs = max_http_pipeline" and "length resps = max_http_pipeline"
    and "\<forall>(status, ts)\<in>set ((status1, t1) # resps). \<not> is_interim_status status"
  shows "fst (observe_frame (Some (key, out)) (Http (fst lost) (fst (snd lost))) (fst (snd (snd lost))) False full) = Untracked
    \<and> last (fst (answer_pipeline key out resps (send_pipeline key out [(verb, path, t, fid)] freed))) =
        Answered TxnHttp (snd (last resps) - t) (Some fid)"
proof -
  let ?new = "tracker_new service_time_stats_default" and ?later = "(verb, path, t, fid)"
  obtain r1 rs where reqs: "reqs = r1 # rs" using assms(3) by (cases reqs) (simp_all add: max_http_pipeline_def)
  have new: "queue_view key ?new = []" "tt_pending_total ?new = 0"
    by (simp_all add: queue_view_def http_queue_def tracker_new_def)
  have full: "txn_inv full" "queue_view key full = map (req_view out) reqs" "tt_pending_total full = length reqs"
    using send_pipeline_queue [OF tracker_new_inv, of key reqs out] assms(3) new
    by (simp_all add: full_def max_http_pipeline_def max_pending_def)
  define st where "st = send_pipeline key out (reqs @ [lost]) ?new"
  have st_full: "st = send_pipeline key out [lost] full" by (simp add: st_def full_def send_pipeline_append)
  have st: "txn_inv st" "queue_view key st = map (req_view out) [r1] @ map (req_view out) rs" "tt_pending_total st = length reqs"
    and lost: "fst (observe_frame (Some (key, out)) (Http (fst lost) (fst (snd lost))) (fst (snd (snd lost))) False full) = Untracked"
    using send_when_full [of key full out lost, folded st_full] full assms(3) by (simp_all add: reqs)
  have freed: "txn_inv freed" "queue_view key freed = map (req_view out) rs" "tt_pending_total freed < length reqs"
    using answer_pipeline_queue [OF st(2) _ _ st(1), of "[(status1, t1)]"] assms(5) st(3)
    by (simp_all add: freed_def flip: st_def)
  have "txn_inv (send_pipeline key out [?later] freed)
      \<and> queue_view key (send_pipeline key out [?later] freed) = map (req_view out) (rs @ [?later])"
    using send_pipeline_queue [OF freed(1), of key "[?later]" out] freed(2,3) assms(3) reqs
    by (simp add: max_pending_def max_http_pipeline_def)
  then have "fst (answer_pipeline key out resps (send_pipeline key out [?later] freed)) =
      map2 (\<lambda>(verb, path, t, fid) (status, t'). Answered TxnHttp (t' - t) (Some fid)) (rs @ [?later]) resps"
    using answer_pipeline_queue [of key "send_pipeline key out [?later] freed" out "rs @ [?later]" "[]" resps] assms(3-5) reqs
    by simp
  moreover have "last (map2 (\<lambda>(verb, path, t, fid) (status, t'). Answered TxnHttp (t' - t) (Some fid)) (rs @ [?later]) resps) =
      Answered TxnHttp (snd (last resps) - t) (Some fid)"
  proof -
    obtain ys y where "resps = ys @ [y]" "length ys = length rs"
      using assms(3,4) reqs by (cases resps rule: rev_cases) (auto simp: max_http_pipeline_def)
    then show ?thesis by (simp add: case_prod_unfold)
  qed
  ultimately show ?thesis using lost by simp
qed

theorem untracked_http_response_misattributed_witness:
  "\<forall>key. last (fst (answer_pipeline key True (replicate 32 (lit ''200'', 90)) (send_pipeline key True [(lit ''GET'', lit ''/34'', 80, lit ''p34'')]
     (snd (answer_pipeline key True [(lit ''200'', 70)]
        (send_pipeline key True (replicate 32 (lit ''GET'', lit ''/'', 10, lit ''p'') @ [(lit ''GET'', lit ''/33'', 60, lit ''p33'')])
           (tracker_new service_time_stats_default))))))) = Answered TxnHttp 10 (Some (lit ''p34''))"
proof
  fix key
  have "\<not> is_interim_status (lit ''200'')" by (simp add: is_interim_status_def starts_with_def lit_def)
  then have "\<forall>(status, ts)\<in>set ((lit ''200'', 70) # replicate 32 (lit ''200'', 90)). \<not> is_interim_status status" by auto
  moreover have "last (replicate 32 x) = x" for x :: "rstring \<times> nat" by (rule last_replicate) simp
  ultimately show "last (fst (answer_pipeline key True (replicate 32 (lit ''200'', 90)) (send_pipeline key True [(lit ''GET'', lit ''/34'', 80, lit ''p34'')]
     (snd (answer_pipeline key True [(lit ''200'', 70)]
        (send_pipeline key True (replicate 32 (lit ''GET'', lit ''/'', 10, lit ''p'') @ [(lit ''GET'', lit ''/33'', 60, lit ''p33'')])
           (tracker_new service_time_stats_default))))))) = Answered TxnHttp 10 (Some (lit ''p34''))"
    using untracked_http_response_misattributed [of "replicate 32 (lit ''GET'', lit ''/'', 10, lit ''p'')" "replicate 32 (lit ''200'', 90)"
        "lit ''200''" 70 key True "(lit ''GET'', lit ''/33'', 60, lit ''p33'')" "lit ''GET''" "lit ''/34''" 80 "lit ''p34''"]
    by (simp only: length_replicate max_http_pipeline_def snd_conv) simp
qed

section \<open>Sweeps\<close>

text \<open>
  A sweep that is due reports every DNS request whose timeout has passed and every overdue
  request at the front of an HTTP pipeline, and forgets exactly those: the other requests stay as
  they are, nothing younger than its timeout is reported, and each report is of one request.
\<close>

lemma overdue_requests_reported:
  fixes ops
  defines "st \<equiv> txn_run ops (tracker_new service_time_stats_default)"
  assumes "\<forall>last_us. tt_last_sweep_us st = Some last_us \<longrightarrow> sweep_interval_us \<le> now_us - last_us"
    and "expire now_us st = (reports, st')"
  shows "(\<forall>k p. map_of (tt_dns st) k = Some p \<longrightarrow>
        (if timed_out now_us TxnDns p then unanswered_of TxnDns (fst k) p \<in> set reports \<and> map_of (tt_dns st') k = None
         else map_of (tt_dns st') k = Some p))
    \<and> (\<forall>key. http_queue key st' = dropWhile (timed_out now_us TxnHttp) (http_queue key st)
        \<and> unanswered_of TxnHttp key ` set (takeWhile (timed_out now_us TxnHttp) (http_queue key st)) \<subseteq> set reports)
    \<and> (\<forall>u\<in>set reports. \<exists>key p. timed_out now_us (ua_protocol u) p \<and> u = unanswered_of (ua_protocol u) key p)
    \<and> length reports + tt_pending_total st' = tt_pending_total st"
proof -
  have inv: "txn_inv st" using txn_run_accounts [OF tracker_new_inv] by (simp add: st_def)
  then have dist: "distinct (map fst (tt_dns st))" "distinct (map fst (tt_http st))" by (simp_all add: txn_inv_def)
  have "sweep now_us st = (reports, st')" using assms(2,3) by (auto simp: expire_def split: option.splits)
  note sw = this [unfolded sweep_exact [OF dist(1)]]
  have reports: "reports = sweep_reports now_us st" and dns': "tt_dns st' = filter (\<lambda>(key, p). \<not> timed_out now_us TxnDns p) (tt_dns st)"
    and http': "tt_http st' = snd (expire_http now_us (tt_http st))"
    and total': "tt_pending_total st' = tt_pending_total st - length reports"
    using sw by auto
  have dns: "unanswered_of TxnDns (fst k) p \<in> set reports" if "map_of (tt_dns st) k = Some p" "timed_out now_us TxnDns p" for k p
    using map_of_SomeD [OF that(1)] that(2) by (force simp: reports sweep_reports_def)
  have "http_queue key st' = dropWhile (timed_out now_us TxnHttp) (http_queue key st)" for key
  proof -
    have "map_of (map (\<lambda>(key, queue). (key, f queue)) xs) key = map_option f (map_of xs key)"
      for f :: "pending_request list \<Rightarrow> pending_request list" and xs
      by (induction xs) auto
    note mapped = this [of "dropWhile (timed_out now_us TxnHttp)" "tt_http st"]
    have "distinct (map fst (map (\<lambda>(key, queue). (key, dropWhile (timed_out now_us TxnHttp) queue)) (tt_http st)))"
      using dist(2) by (simp add: o_def case_prod_unfold)
    from map_of_filter_distinct [OF this, of "\<lambda>(key, queue). queue \<noteq> []" key] show ?thesis
      by (cases "map_of (tt_http st) key") (simp_all add: http_queue_def http' expire_http_def expire_queue_exact mapped
          del: dropWhile_eq_Nil_conv)
  qed
  moreover have "unanswered_of TxnHttp key ` set (takeWhile (timed_out now_us TxnHttp) (http_queue key st)) \<subseteq> set reports" for key
    by (force simp: http_queue_def reports sweep_reports_def expire_http_def expire_queue_exact dest: map_of_SomeD split: option.splits)
  moreover have "\<exists>key p. timed_out now_us (ua_protocol u) p \<and> u = unanswered_of (ua_protocol u) key p" if "u \<in> set reports" for u
    using that by (fastforce simp: reports sweep_reports_def expire_http_def expire_queue_exact unanswered_of_def dest: set_takeWhileD)
  moreover have "length reports \<le> tt_pending_total st"
    using sweep_ok [OF inv, of now_us] expire_http_lengths [of now_us "tt_http st"] inv length_filter_le
    by (simp add: reports sweep_reports_def txn_inv_def add_mono)
  ultimately show ?thesis
    using total' dns by (fastforce simp: dns' map_of_filter_distinct [OF dist(1)])
qed

lemma overdue_requests_reported_witness:
  "\<exists>key. fst (expire 6000000 (txn_run [Frame (Some (key, True)) (Dns (lit ''a'') 7 1) 100 False]
     (tracker_new service_time_stats_default))) \<noteq> []"
proof -
  define key where "key = \<lparr>flk_protocol = Udp, flk_local_addr = lit ''l'', flk_local_port = 5000,
    flk_remote_addr = lit ''r'', flk_remote_port = 53\<rparr>"
  let ?ops = "[Frame (Some (key, True)) (Dns (lit ''a'') 7 1) 100 False]"
  let ?st = "txn_run ?ops (tracker_new service_time_stats_default)"
  have st: "tt_last_sweep_us ?st = None"
    "\<exists>p. map_of (tt_dns ?st) (key, 7) = Some p \<and> pr_sent_at_us p = 100"
    by (simp_all add: observe_frame_def dns_query_def is_dns_service_def key_def tracker_new_def max_pending_def)
  then obtain p where p: "map_of (tt_dns ?st) (key, 7) = Some p" "timed_out 6000000 TxnDns p"
    by (auto simp: timed_out_def dns_timeout_us_def)
  have "\<forall>last_us. tt_last_sweep_us ?st = Some last_us \<longrightarrow> sweep_interval_us \<le> 6000000 - last_us" unfolding st(1) by simp
  from overdue_requests_reported [OF this surjective_pairing, THEN conjunct1, rule_format, OF p(1)]
  have "unanswered_of TxnDns (fst (key, 7::nat)) p \<in> set (fst (expire 6000000 ?st))" by (simp only: p(2) if_True)
  then have "fst (expire 6000000 ?st) \<noteq> []" by (metis empty_iff list.set(1))
  then show ?thesis by blast
qed

section \<open>Percentiles\<close>

text \<open>
  The percentile shown for a protocol is the nearest-rank one: an observed value with at least
  that share of the samples at or below it, and no smaller observed value has.
\<close>

lemma nearest_rank_is_percentile:
  assumes "samples \<noteq> []" and "percent \<le> 100"
  shows "\<exists>v\<in>set samples. nearest_rank (sort samples) percent = Some v
    \<and> percent * length samples \<le> 100 * length (filter (\<lambda>x. x \<le> v) samples)
    \<and> (\<forall>w\<in>set samples. w < v \<longrightarrow> 100 * length (filter (\<lambda>x. x \<le> w) samples) < percent * length samples)"
proof -
  let ?s = "sort samples" and ?n = "length samples"
  define rank where "rank = max ((percent * ?n + 99) div 100) 1"
  have n: "0 < ?n" using assms(1) by simp
  have "percent * ?n \<le> 100 * ?n" using assms(2) by (rule mult_right_mono) simp
  then have "(percent * ?n + 99) div 100 \<le> ?n" by linarith
  then have rank: "1 \<le> rank" "rank \<le> ?n" using n by (simp_all add: rank_def Suc_le_eq)
  have cover: "percent * ?n \<le> 100 * rank" by (simp add: rank_def)
  have tight: "100 * (rank - 1) < percent * ?n" if "1 < rank" using that by (simp add: rank_def max_def split: if_splits)
  define v where "v = ?s ! (rank - 1)"
  have count_eq: "length (filter P ?s) = length (filter P samples)" for P
    by (simp add: filter_sort)
  have "set (take rank ?s) \<subseteq> {x. x \<le> v}"
    using rank by (auto simp: v_def in_set_conv_nth intro!: sorted_nth_mono) arith+
  then have "filter (\<lambda>x. x \<le> v) (take rank ?s) = take rank ?s" by (auto simp: filter_id_conv)
  then have "rank \<le> length (filter (\<lambda>x. x \<le> v) ?s)"
    using rank by (metis append_take_drop_id filter_append length_append length_sort length_take le_add1 min.absorb2)
  moreover have "length (filter (\<lambda>x. x \<le> w) ?s) \<le> rank - 1" if "w < v" for w
  proof -
    have "\<not> x \<le> w" if x: "x \<in> set (drop (rank - 1) ?s)" for x
    proof -
      obtain j where "x = ?s ! (rank - 1 + j)" "rank - 1 + j < ?n" using x rank by (auto simp: in_set_conv_nth)
      then have "v \<le> x" by (auto simp: v_def intro: sorted_nth_mono)
      then show ?thesis using \<open>w < v\<close> by simp
    qed
    then have "filter (\<lambda>x. x \<le> w) (drop (rank - 1) ?s) = []" by (simp add: filter_empty_conv)
    then show ?thesis
      by (metis append_Nil2 append_take_drop_id filter_append length_filter_le length_take min.cobounded2 order_trans)
  qed
  moreover have "w \<in> set samples \<Longrightarrow> 0 < length (filter (\<lambda>x. x \<le> w) samples)" for w
    by (auto simp: filter_empty_conv)
  moreover have ix: "rank - 1 < length ?s" using rank by simp
  moreover have "nearest_rank ?s percent = Some v"
  proof -
    have "?s \<noteq> []" using assms(1) by (metis length_0_conv length_sort)
    then show ?thesis using ix unfolding nearest_rank_def byte_at_def v_def rank_def by (simp add: Let_def)
  qed
  moreover have "v \<in> set samples" using nth_mem [OF ix] by (simp add: v_def)
  ultimately show ?thesis
    using cover tight by (intro bexI [of _ v]) (auto simp: count_eq, fastforce)
qed

lemma nearest_rank_is_percentile_witness:
  "\<exists>v\<in>{30, 10, 20}. nearest_rank (sort [30, 10, 20]) 50 = Some v
    \<and> 50 * 3 \<le> 100 * length (filter (\<lambda>x. x \<le> v) [30, 10, 20 :: nat])"
proof -
  have "[30, 10, 20 :: nat] \<noteq> []" and "(50 :: nat) \<le> 100" by simp_all
  from nearest_rank_is_percentile [OF this] show ?thesis by (auto simp del: sort_key_simps)
qed

end
