(* ===== verification/Pcapng.thy ===== *)
theory Pcapng
  imports Packet
begin

text \<open>
  The pcapng codec (\<open>pcapng.rs\<close>). An open file is the list of its bytes: writing appends, reading
  consumes from the front; failures of the operating system's own reads and writes are not
  modelled, an error is the kind of the \<open>io::Error\<close>. Timestamps are nanoseconds relative to the
  Unix epoch, as integers. Unsigned fields are naturals, with the source's casts written out.
\<close>

section \<open>Little- and big-endian integers\<close>

primrec le_bytes :: "nat \<Rightarrow> nat \<Rightarrow> byte list" where
  "le_bytes 0 x = []"
| "le_bytes (Suc n) x = of_nat x # le_bytes n (x div 256)"

primrec le_nat :: "byte list \<Rightarrow> nat" where
  "le_nat [] = 0"
| "le_nat (b # bs) = unat b + 256 * le_nat bs"

datatype byte_order = Little | Big

definition order_nat :: "byte_order \<Rightarrow> byte list \<Rightarrow> nat" where
  "order_nat order bs = (case order of Little \<Rightarrow> le_nat bs | Big \<Rightarrow> le_nat (rev bs))"

definition order_i64 :: "byte_order \<Rightarrow> byte list \<Rightarrow> int" where
  "order_i64 order bs = (let n = order_nat order bs in if n < 2 ^ 63 then int n else int n - 2 ^ 64)"

definition sub_slice :: "nat \<Rightarrow> nat \<Rightarrow> 'a list \<Rightarrow> 'a list" where
  "sub_slice a b xs = take (b - a) (drop a xs)"

section \<open>Writing blocks\<close>

definition byte_order_magic :: nat where "byte_order_magic = 0x1A2B3C4D"
definition bt_section_header :: nat where "bt_section_header = 0x0A0D0D0A"
definition bt_interface_description :: nat where "bt_interface_description = 1"
definition bt_enhanced_packet :: nat where "bt_enhanced_packet = 6"
definition bt_interface_statistics :: nat where "bt_interface_statistics = 5"
definition opt_end_of_opt :: nat where "opt_end_of_opt = 0"
definition shb_userappl :: nat where "shb_userappl = 4"
definition if_name :: nat where "if_name = 2"
definition if_tsresol :: nat where "if_tsresol = 9"
definition epb_flags :: nat where "epb_flags = 2"
definition isb_ifrecv :: nat where "isb_ifrecv = 4"
definition isb_ifdrop :: nat where "isb_ifdrop = 5"

definition pad4 :: "nat \<Rightarrow> nat" where
  "pad4 n = (n + 3) div 4 * 4"

definition write_option :: "nat \<Rightarrow> byte list \<Rightarrow> byte list" where
  "write_option code v =
     le_bytes 2 code @ le_bytes 2 (u16_cast (length v)) @ v @ replicate (pad4 (length v) - length v) 0"

definition write_end_of_opt :: "byte list" where
  "write_end_of_opt = le_bytes 2 opt_end_of_opt @ le_bytes 2 0"

definition write_block :: "nat \<Rightarrow> byte list \<Rightarrow> byte list" where
  "write_block block_type body =
     (let total_len = 12 + u32_cast (length body)
      in le_bytes 4 block_type @ le_bytes 4 total_len @ body @ le_bytes 4 total_len)"

definition section_header_block :: "rstring \<Rightarrow> rstring \<Rightarrow> byte list" where
  "section_header_block hostname agent_version =
     (let userappl = lit ''capture-agent/'' @ agent_version @ lit '' on '' @ hostname;
          body = le_bytes 4 byte_order_magic @ le_bytes 2 1 @ le_bytes 2 0 @ replicate 8 0xFF
                 @ write_option shb_userappl userappl @ write_end_of_opt
      in write_block bt_section_header body)"

fun pcapng_linktype :: "link_type \<Rightarrow> nat" where
  "pcapng_linktype Ethernet = 1"
| "pcapng_linktype NullLoopback = 0"
| "pcapng_linktype RawIp = 101"

record interface_description_block =
  idb_interface_name :: rstring
  idb_link_type :: link_type
  idb_snaplen :: nat

definition writer_tsresol :: byte where "writer_tsresol = 9"

definition idb_write :: "interface_description_block \<Rightarrow> byte list" where
  "idb_write idb =
     write_block bt_interface_description
       (le_bytes 2 (pcapng_linktype (idb_link_type idb)) @ le_bytes 2 0 @ le_bytes 4 (idb_snaplen idb)
        @ write_option if_name (idb_interface_name idb) @ write_option if_tsresol [writer_tsresol]
        @ write_end_of_opt)"

datatype packet_direction = Inbound | Outbound | UnknownDirection

fun epb_flags_bits :: "packet_direction \<Rightarrow> nat" where
  "epb_flags_bits UnknownDirection = 0"
| "epb_flags_bits Inbound = 1"
| "epb_flags_bits Outbound = 2"

definition interface_id :: nat where "interface_id = 0"

definition epb_timestamp_halves :: "int \<Rightarrow> nat \<times> nat" where
  "epb_timestamp_halves timestamp =
     (let ts_ns = nat timestamp mod 2 ^ 64 in (u32_cast (ts_ns div 2 ^ 32), ts_ns mod 2 ^ 32))"

definition write_enhanced_packet_block :: "int \<Rightarrow> packet_direction \<Rightarrow> byte list \<Rightarrow> byte list" where
  "write_enhanced_packet_block timestamp dir data =
     (let (ts_high, ts_low) = epb_timestamp_halves timestamp
      in write_block bt_enhanced_packet
           (le_bytes 4 interface_id @ le_bytes 4 ts_high @ le_bytes 4 ts_low
            @ le_bytes 4 (u32_cast (length data)) @ le_bytes 4 (u32_cast (length data))
            @ data @ replicate (pad4 (length data) - length data) 0
            @ write_option epb_flags (le_bytes 4 (epb_flags_bits dir)) @ write_end_of_opt))"

definition write_interface_statistics_block :: "int \<Rightarrow> nat \<Rightarrow> nat \<Rightarrow> byte list" where
  "write_interface_statistics_block timestamp received dropped =
     (let (ts_high, ts_low) = epb_timestamp_halves timestamp
      in write_block bt_interface_statistics
           (le_bytes 4 interface_id @ le_bytes 4 ts_high @ le_bytes 4 ts_low
            @ write_option isb_ifrecv (le_bytes 8 received) @ write_option isb_ifdrop (le_bytes 8 dropped)
            @ write_end_of_opt))"

record pcapng_writer =
  wr_file :: "byte list"
  wr_bytes_written :: nat

definition writer_create :: "interface_description_block \<Rightarrow> rstring \<Rightarrow> rstring \<Rightarrow> pcapng_writer" where
  "writer_create idb hostname agent_version =
     \<lparr>wr_file = section_header_block hostname agent_version @ idb_write idb, wr_bytes_written = 0\<rparr>"

definition writer_write_packet :: "int \<Rightarrow> packet_direction \<Rightarrow> byte list \<Rightarrow> pcapng_writer \<Rightarrow> pcapng_writer" where
  "writer_write_packet timestamp dir data w =
     w\<lparr>wr_file := wr_file w @ write_enhanced_packet_block timestamp dir data,
       wr_bytes_written := wr_bytes_written w + (20 + pad4 (length data) + 4 + 4 + 4 + 12)\<rparr>"

definition writer_write_interface_stats :: "int \<Rightarrow> nat \<Rightarrow> nat \<Rightarrow> pcapng_writer \<Rightarrow> pcapng_writer" where
  "writer_write_interface_stats now_ns received dropped w =
     w\<lparr>wr_file := wr_file w @ write_interface_statistics_block now_ns received dropped\<rparr>"

section \<open>Reading blocks\<close>

datatype io_error = UnexpectedEof | InvalidData | Unsupported

definition linktype_from_pcapng :: "nat \<Rightarrow> link_type option" where
  "linktype_from_pcapng v =
     (if v = 1 then Some Ethernet else if v = 0 then Some NullLoopback else if v = 101 then Some RawIp else None)"

text \<open>\<open>read_exact_or_eof\<close> and \<open>read_exact\<close> on the bytes that are left.\<close>

definition read_exact_or_eof :: "nat \<Rightarrow> byte list \<Rightarrow> io_error + (byte list \<times> byte list) option" where
  "read_exact_or_eof n inp =
     (if inp = [] \<and> 0 < n then Inr None
      else if length inp < n then Inl UnexpectedEof
      else Inr (Some (take n inp, drop n inp)))"

definition read_exact :: "nat \<Rightarrow> byte list \<Rightarrow> io_error + (byte list \<times> byte list)" where
  "read_exact n inp = (if length inp < n then Inl UnexpectedEof else Inr (take n inp, drop n inp))"

definition max_block_len :: nat where "max_block_len = 16 * 1024 * 1024"

definition io_bind :: "io_error + 'a \<Rightarrow> ('a \<Rightarrow> io_error + 'b) \<Rightarrow> io_error + 'b" where
  "io_bind r f = (case r of Inl e \<Rightarrow> Inl e | Inr x \<Rightarrow> f x)"

definition magic_order :: "byte list \<Rightarrow> io_error + byte_order" where
  "magic_order magic =
     (if magic = [0x4D, 0x3C, 0x2B, 0x1A] then Inr Little
      else if magic = [0x1A, 0x2B, 0x3C, 0x4D] then Inr Big
      else Inl InvalidData)"

text \<open>The block after its header: its length is checked, then body and trailer are read.\<close>

definition read_block_rest ::
  "bool \<Rightarrow> byte_order \<Rightarrow> byte list \<Rightarrow> byte list \<Rightarrow> byte list \<Rightarrow> io_error + (nat \<times> byte list) \<times> byte list" where
  "read_block_rest is_section order header magic inp =
     (let block_type = order_nat order (sub_slice 0 4 header);
          total_len = order_nat order (sub_slice 4 8 header);
          minimum = (if is_section then 28 else 12)
      in if \<not> (minimum \<le> total_len \<and> total_len \<le> max_block_len) \<or> total_len mod 4 \<noteq> 0 then Inl InvalidData
         else io_bind (read_exact (total_len - 12 - length magic) inp) (\<lambda>(body, inp1).
              io_bind (read_exact 4 inp1) (\<lambda>(trailer, inp2).
              if order_nat order trailer \<noteq> total_len then Inl InvalidData
              else Inr ((block_type, magic @ body), inp2))))"

definition read_section_block ::
  "byte list \<Rightarrow> byte_order option \<Rightarrow> io_error + ((nat \<times> byte list) \<times> byte list \<times> byte_order) option" where
  "read_section_block inp order =
     io_bind (read_exact_or_eof 8 inp) (\<lambda>hd_opt.
     case hd_opt of
       None \<Rightarrow> Inr None
     | Some (header, inp1) \<Rightarrow>
         if take 4 header = le_bytes 4 bt_section_header then
           io_bind (read_exact 4 inp1) (\<lambda>(magic, inp2).
           io_bind (magic_order magic) (\<lambda>current_order.
           io_bind (read_block_rest True current_order header magic inp2) (\<lambda>(block, inp3).
           Inr (Some (block, inp3, current_order)))))
         else
           case order of
             None \<Rightarrow> Inl InvalidData
           | Some current_order \<Rightarrow>
               io_bind (read_block_rest False current_order header [] inp1) (\<lambda>(block, inp3).
               Inr (Some (block, inp3, current_order))))"

text \<open>
  The options of a block body, in the order the callback of \<open>for_each_ordered_option\<close> sees them;
  when the walk fails, its result is the error and what the callback had stored is dropped.
\<close>

function ordered_options :: "byte_order \<Rightarrow> byte list \<Rightarrow> io_error + (nat \<times> byte list) list" where
  "ordered_options order body =
     (if body = [] then Inr []
      else if length body < 4 then Inl InvalidData
      else let code = order_nat order (sub_slice 0 2 body); len = order_nat order (sub_slice 2 4 body)
           in if code = opt_end_of_opt then (if len \<noteq> 0 then Inl InvalidData else Inr [])
              else if length body < 4 + pad4 len then Inl InvalidData
              else io_bind (ordered_options order (drop (4 + pad4 len) body)) (\<lambda>opts.
                   Inr ((code, sub_slice 4 (4 + len) body) # opts)))"
  by pat_completeness auto
termination
  by (relation "measure (length \<circ> snd)") auto

declare ordered_options.simps [simp del]

record parsed_interface =
  pi_interface_name :: "rstring option"
  pi_link_type :: link_type
  pi_snaplen :: nat
  pi_timestamp_resolution :: byte

definition default_tsresol :: byte where "default_tsresol = 6"

definition u128_max :: nat where "u128_max = 2 ^ 128 - 1"

definition epb_timestamp :: "nat \<Rightarrow> byte \<Rightarrow> io_error + int" where
  "epb_timestamp counter tsresol =
     (let exponent = unat (tsresol AND 0x7F);
          units_per_second = (if tsresol AND 0x80 = 0 then 10 ^ exponent else 2 ^ exponent)
      in if units_per_second > u128_max then Inl InvalidData
         else let nanos = counter * 1000000000 div units_per_second
              in if nanos > u64_max then Inl InvalidData else Inr (int nanos))"

record stored_interface =
  si_linktype_raw :: nat
  si_interface_name :: "rstring option"
  si_snaplen :: nat
  si_timestamp_resolution :: byte

definition stored_supported :: "stored_interface \<Rightarrow> io_error + parsed_interface" where
  "stored_supported s =
     (case linktype_from_pcapng (si_linktype_raw s) of
        None \<Rightarrow> Inl Unsupported
      | Some lt \<Rightarrow> Inr \<lparr>pi_interface_name = si_interface_name s, pi_link_type = lt, pi_snaplen = si_snaplen s,
                        pi_timestamp_resolution = si_timestamp_resolution s\<rparr>)"

definition interface_option ::
  "nat \<times> byte list \<Rightarrow> rstring option \<times> byte \<times> bool \<Rightarrow> rstring option \<times> byte \<times> bool" where
  "interface_option opt acc =
     (case (opt, acc) of ((code, v), (name, tsresol, bad)) \<Rightarrow>
        if code = if_name then (Some (from_utf8_lossy v), tsresol, bad)
        else if code = if_tsresol then (if length v = 1 then (name, hd v, bad) else (name, tsresol, True))
        else acc)"

definition parse_ordered_interface :: "byte list \<Rightarrow> byte_order \<Rightarrow> io_error + stored_interface" where
  "parse_ordered_interface body order =
     (if length body < 8 then Inl InvalidData
      else io_bind (ordered_options order (drop 8 body)) (\<lambda>opts.
           let (name, tsresol, bad) = fold interface_option opts (None, default_tsresol, False)
           in if bad then Inl InvalidData
              else Inr \<lparr>si_linktype_raw = order_nat order (sub_slice 0 2 body), si_interface_name = name,
                        si_snaplen = order_nat order (sub_slice 4 8 body), si_timestamp_resolution = tsresol\<rparr>))"

record pcap_packet =
  pk_link_type :: link_type
  pk_timestamp :: int
  pk_direction :: packet_direction
  pk_original_len :: nat
  pk_data :: "byte list"

definition flags_direction :: "nat \<Rightarrow> packet_direction" where
  "flags_direction flags =
     (if flags mod 4 = 1 then Inbound else if flags mod 4 = 2 then Outbound else UnknownDirection)"

definition packet_option :: "byte_order \<Rightarrow> nat \<times> byte list \<Rightarrow> packet_direction \<times> bool \<Rightarrow> packet_direction \<times> bool" where
  "packet_option order opt acc =
     (case (opt, acc) of ((code, v), (dir, bad)) \<Rightarrow>
        if code = epb_flags then
          (if length v \<noteq> 4 then (dir, True) else (flags_direction (order_nat order v), bad))
        else acc)"

definition parse_ordered_packet :: "byte list \<Rightarrow> byte_order \<Rightarrow> byte \<Rightarrow> link_type \<Rightarrow> io_error + pcap_packet" where
  "parse_ordered_packet body order tsresol lt =
     (if length body < 20 then Inl InvalidData
      else
        let ts_high = order_nat order (sub_slice 4 8 body); ts_low = order_nat order (sub_slice 8 12 body);
            cap_len = order_nat order (sub_slice 12 16 body); original_len = order_nat order (sub_slice 16 20 body)
        in if cap_len > length body - 20 then Inl InvalidData
           else if length body < 20 + pad4 cap_len then Inl InvalidData
           else io_bind (epb_timestamp (ts_high * 2 ^ 32 + ts_low) tsresol) (\<lambda>timestamp.
                io_bind (ordered_options order (drop (20 + pad4 cap_len) body)) (\<lambda>opts.
                let (dir, bad) = fold (packet_option order) opts (UnknownDirection, False)
                in if bad then Inl InvalidData
                   else Inr \<lparr>pk_link_type = lt, pk_timestamp = timestamp, pk_direction = dir,
                             pk_original_len = original_len, pk_data = sub_slice 20 (20 + cap_len) body\<rparr>)))"

section \<open>The reader\<close>

definition max_interfaces :: nat where "max_interfaces = 4096"
definition max_interface_name_bytes :: nat where "max_interface_name_bytes = 16 * 1024 * 1024"

record pcapng_reader =
  rd_inner :: "byte list"
  rd_order :: "byte_order option"
  rd_supported_section :: bool
  rd_interfaces :: "stored_interface list"
  rd_interface_name_bytes :: nat

definition reader_init :: "byte list \<Rightarrow> pcapng_reader" where
  "reader_init inner =
     \<lparr>rd_inner = inner, rd_order = None, rd_supported_section = False, rd_interfaces = [],
      rd_interface_name_bytes = 0\<rparr>"

text \<open>\<open>self.order.unwrap()\<close>: set by the block that was just read.\<close>

definition the_order :: "pcapng_reader \<Rightarrow> byte_order" where
  "the_order r = (case rd_order r of Some order \<Rightarrow> order | None \<Rightarrow> Little)"

definition reader_next_block :: "pcapng_reader \<Rightarrow> io_error + (nat \<times> byte list \<times> pcapng_reader) option" where
  "reader_next_block r =
     io_bind (read_section_block (rd_inner r) (rd_order r)) (\<lambda>blk.
     case blk of
       None \<Rightarrow> Inr None
     | Some ((kind, body), inner, order) \<Rightarrow> Inr (Some (kind, body, r\<lparr>rd_inner := inner, rd_order := Some order\<rparr>)))"

definition start_section :: "byte list \<Rightarrow> pcapng_reader \<Rightarrow> io_error + pcapng_reader" where
  "start_section body r =
     (let order = the_order r;
          major = order_nat order (sub_slice 4 6 body); minor = order_nat order (sub_slice 6 8 body);
          supported = (major = 1 \<and> (minor = 0 \<or> minor = 2));
          r1 = r\<lparr>rd_supported_section := supported, rd_interfaces := [], rd_interface_name_bytes := 0\<rparr>
      in if supported then
           (let section_length = order_i64 order (sub_slice 8 16 body)
            in if section_length < -1 \<or> (section_length \<ge> 0 \<and> section_length mod 4 \<noteq> 0) then Inl InvalidData
               else io_bind (ordered_options order (drop 16 body)) (\<lambda>_. Inr r1))
         else Inr r1)"

definition add_interface :: "byte list \<Rightarrow> pcapng_reader \<Rightarrow> io_error + pcapng_reader" where
  "add_interface body r =
     (if length (rd_interfaces r) \<ge> max_interfaces then Inl InvalidData
      else io_bind (parse_ordered_interface body (the_order r)) (\<lambda>entry.
           let n = (case si_interface_name entry of None \<Rightarrow> 0 | Some name \<Rightarrow> length name)
           in if n > max_interface_name_bytes - rd_interface_name_bytes r then Inl InvalidData
              else Inr (r\<lparr>rd_interface_name_bytes := rd_interface_name_bytes r + n,
                         rd_interfaces := rd_interfaces r @ [entry]\<rparr>)))"

definition decode_packet :: "byte list \<Rightarrow> pcapng_reader \<Rightarrow> io_error + pcap_packet" where
  "decode_packet body r =
     (if length body < 20 then Inl InvalidData
      else let order = the_order r; i = order_nat order (sub_slice 0 4 body)
           in case byte_at (rd_interfaces r) i of
                None \<Rightarrow> Inl InvalidData
              | Some entry \<Rightarrow>
                  (case linktype_from_pcapng (si_linktype_raw entry) of
                     None \<Rightarrow> Inl Unsupported
                   | Some lt \<Rightarrow> parse_ordered_packet body order (si_timestamp_resolution entry) lt))"

lemma read_block_rest_shrinks:
  "read_block_rest s order header magic inp = Inr (block, inp') \<Longrightarrow> length inp' < length inp"
  by (auto simp: read_block_rest_def read_exact_def io_bind_def Let_def split: if_splits)

lemma reader_next_block_shrinks:
  assumes "reader_next_block r = Inr (Some (kind, body, r1))"
  shows "length (rd_inner r1) < length (rd_inner r)"
  using assms
  by (auto simp: reader_next_block_def read_section_block_def read_exact_or_eof_def read_exact_def io_bind_def
      split: sum.splits option.splits if_splits prod.splits dest!: read_block_rest_shrinks)

lemma start_section_inner: "start_section body r = Inr r' \<Longrightarrow> rd_inner r' = rd_inner r"
  by (auto simp: start_section_def io_bind_def Let_def split: if_splits sum.splits)

lemma add_interface_inner: "add_interface body r = Inr r' \<Longrightarrow> rd_inner r' = rd_inner r"
  by (auto simp: add_interface_def io_bind_def Let_def split: if_splits sum.splits)

function reader_new_loop :: "pcapng_reader \<Rightarrow> io_error + (pcapng_reader \<times> parsed_interface)" where
  "reader_new_loop r =
     (case reader_next_block r of
        Inl e \<Rightarrow> Inl e
      | Inr None \<Rightarrow> Inl UnexpectedEof
      | Inr (Some (kind, body, r1)) \<Rightarrow>
          if kind = bt_section_header then
            (case start_section body r1 of Inl e \<Rightarrow> Inl e | Inr r2 \<Rightarrow> reader_new_loop r2)
          else if rd_supported_section r1 then
            (if kind = bt_interface_description then
               (case add_interface body r1 of
                  Inl e \<Rightarrow> Inl e
                | Inr r2 \<Rightarrow>
                    (case stored_supported (last (rd_interfaces r2)) of
                       Inr intf \<Rightarrow> Inr (r2, intf)
                     | Inl _ \<Rightarrow> reader_new_loop r2))
             else if kind = bt_enhanced_packet then
               (case decode_packet body r1 of Inl e \<Rightarrow> Inl e | Inr _ \<Rightarrow> reader_new_loop r1)
             else if kind = 2 \<or> kind = 3 then Inl Unsupported
             else reader_new_loop r1)
          else reader_new_loop r1)"
  by pat_completeness auto
termination
  by (relation "measure (length \<circ> rd_inner)")
     (auto dest!: reader_next_block_shrinks start_section_inner add_interface_inner)

declare reader_new_loop.simps [simp del]

definition reader_new :: "byte list \<Rightarrow> io_error + (pcapng_reader \<times> parsed_interface)" where
  "reader_new inner = reader_new_loop (reader_init inner)"

function next_packet :: "pcapng_reader \<Rightarrow> io_error + (pcap_packet option \<times> pcapng_reader)" where
  "next_packet r =
     (case reader_next_block r of
        Inl e \<Rightarrow> Inl e
      | Inr None \<Rightarrow> Inr (None, r)
      | Inr (Some (kind, body, r1)) \<Rightarrow>
          if kind = bt_section_header then
            (case start_section body r1 of Inl e \<Rightarrow> Inl e | Inr r2 \<Rightarrow> next_packet r2)
          else if \<not> rd_supported_section r1 then next_packet r1
          else if kind = bt_interface_description then
            (case add_interface body r1 of Inl e \<Rightarrow> Inl e | Inr r2 \<Rightarrow> next_packet r2)
          else if kind = bt_enhanced_packet then
            (case decode_packet body r1 of Inl e \<Rightarrow> Inl e | Inr p \<Rightarrow> Inr (Some p, r1))
          else if kind = 2 \<or> kind = 3 then Inl Unsupported
          else next_packet r1)"
  by pat_completeness auto
termination
  by (relation "measure (length \<circ> rd_inner)")
     (auto dest!: reader_next_block_shrinks start_section_inner add_interface_inner)

declare next_packet.simps [simp del]

end
