(* ===== verification/PcapngCorrect.thy ===== *)
theory PcapngCorrect
  imports Pcapng
begin

text \<open>
  The pcapng codec is faithful: what the writer puts in a file the reader gets back, packet for
  packet, and on any input at all the reader ends and keeps its memory bounded.
\<close>

named_theorems pcapng_simps \<open>evaluation of the codec's integers and slices\<close>

section \<open>Integers and slices\<close>

lemma length_le_bytes [simp]: "length (le_bytes n x) = n"
  by (induction n arbitrary: x) simp_all

lemma le_bytes_Nil [simp]: "le_bytes n x = [] \<longleftrightarrow> n = 0"
  by (cases n) simp_all

lemma le_bytes_4: "le_bytes 4 x = [of_nat x, of_nat (x div 256), of_nat (x div 65536), of_nat (x div 16777216)]"
proof -
  have "(4 :: nat) = Suc (Suc (Suc (Suc 0)))" by simp
  then show ?thesis by (simp only: le_bytes.simps) (simp flip: div_mult2_eq)
qed

lemma le_nat_le_bytes: "le_nat (le_bytes n x) = x mod 256 ^ n"
proof (induction n arbitrary: x)
  case (Suc n)
  have "unat (of_nat x :: byte) = x mod 256" by (simp add: unat_of_nat)
  then show ?case using Suc by (simp add: mod_mult2_eq)
qed simp

lemma le_nat_exact [pcapng_simps]: "x < 256 ^ n \<Longrightarrow> le_nat (le_bytes n x) = x"
  by (simp add: le_nat_le_bytes)

lemma le_nat_all_ones: "le_nat (replicate n 0xFF) = 256 ^ n - 1"
proof (induction n)
  case (Suc n)
  have "(1 :: nat) \<le> 256 ^ n" by simp
  with Suc show ?case by (simp add: right_diff_distrib')
qed simp

lemma order_nat_little [pcapng_simps]: "order_nat Little bs = le_nat bs"
  by (simp add: order_nat_def)

lemma sub_slice_skip: "length xs = n \<Longrightarrow> sub_slice (n + a) (n + b) (xs @ ys) = sub_slice a b ys"
  by (simp add: sub_slice_def)

lemma sub_slice_here: "length xs = n \<Longrightarrow> sub_slice 0 n (xs @ ys) = xs"
  by (simp add: sub_slice_def)

lemma pad4_bounds: "n \<le> pad4 n" "pad4 n < n + 4" "pad4 n mod 4 = 0"
  unfolding pad4_def by presburger+

lemma length_write_option [simp]: "length (write_option code v) = 4 + pad4 (length v)"
  using pad4_bounds(1) [of "length v"] by (simp add: write_option_def)

lemma length_end_of_opt [simp]: "length write_end_of_opt = 4"
  by (simp add: write_end_of_opt_def)

lemma options_nonempty [simp]: "write_option code v \<noteq> []" "write_end_of_opt \<noteq> []"
  by (simp_all add: write_option_def write_end_of_opt_def)

lemma length_write_block [simp]: "length (write_block kind body) = 12 + length body"
  by (simp add: write_block_def Let_def)

section \<open>Options\<close>

lemma ordered_options_end: "ordered_options Little (write_end_of_opt @ rest) = Inr []"
proof -
  have "sub_slice 0 2 (write_end_of_opt @ rest) = le_bytes 2 0" "sub_slice 2 4 (write_end_of_opt @ rest) = le_bytes 2 0"
    by (simp_all add: write_end_of_opt_def sub_slice_def opt_end_of_opt_def)
  moreover have "le_nat (le_bytes 2 0) = 0" by (simp add: le_nat_le_bytes)
  ultimately show ?thesis
    by (subst ordered_options.simps) (simp add: order_nat_little opt_end_of_opt_def Let_def)
qed

lemma ordered_options_write:
  assumes "code \<noteq> 0" "code < 65536" "length v < 65536"
  shows "ordered_options Little (write_option code v @ rest) =
    io_bind (ordered_options Little rest) (\<lambda>opts. Inr ((code, v) # opts))"
proof -
  let ?body = "write_option code v @ rest"
  have cast: "u16_cast (length v) = length v" using assms(3) by (simp add: u16_cast_def)
  have "sub_slice 0 2 ?body = le_bytes 2 code" "sub_slice 2 4 ?body = le_bytes 2 (length v)"
    "sub_slice 4 (4 + length v) ?body = v"
    by (simp_all add: write_option_def sub_slice_def cast)
  moreover have "le_nat (le_bytes 2 code) = code" "le_nat (le_bytes 2 (length v)) = length v"
    using assms by (simp_all add: le_nat_le_bytes)
  moreover have "length ?body = 4 + pad4 (length v) + length rest" "drop (4 + pad4 (length v)) ?body = rest" by simp_all
  moreover have "?body \<noteq> []" using \<open>length ?body = _\<close> by fastforce
  ultimately show ?thesis
    using assms(1) by (subst ordered_options.simps) (simp add: order_nat_little opt_end_of_opt_def Let_def)
qed

lemma io_bind_Inr [simp]: "io_bind (Inr x) f = f x"
  by (simp add: io_bind_def)

section \<open>Blocks\<close>

definition body_ok :: "byte list \<Rightarrow> bool" where
  "body_ok body \<longleftrightarrow> length body mod 4 = 0 \<and> 12 + length body \<le> max_block_len"

lemma block_header:
  assumes "body_ok body" "kind < 2 ^ 32"
  shows "write_block kind body = (le_bytes 4 kind @ le_bytes 4 (12 + length body)) @ body @ le_bytes 4 (12 + length body)"
    and "le_nat (le_bytes 4 kind) = kind" "le_nat (le_bytes 4 (12 + length body)) = 12 + length body"
proof -
  have "12 + length body < 2 ^ 32" using assms(1) by (simp add: body_ok_def max_block_len_def)
  then show "write_block kind body = (le_bytes 4 kind @ le_bytes 4 (12 + length body)) @ body @ le_bytes 4 (12 + length body)"
    "le_nat (le_bytes 4 (12 + length body)) = 12 + length body"
    by (simp_all add: write_block_def Let_def u32_cast_def le_nat_le_bytes)
  show "le_nat (le_bytes 4 kind) = kind" using assms(2) by (simp add: le_nat_le_bytes)
qed

lemma read_block_rest_written:
  assumes "body_ok (magic @ body)" "kind < 2 ^ 32" "s \<Longrightarrow> 16 \<le> length (magic @ body)"
  shows "read_block_rest s Little (le_bytes 4 kind @ le_bytes 4 (12 + length (magic @ body))) magic
      (body @ le_bytes 4 (12 + length (magic @ body)) @ rest) = Inr ((kind, magic @ body), rest)"
proof -
  let ?n = "12 + length (magic @ body)"
  note h = block_header(2,3) [OF assms(1,2)]
  have "sub_slice 0 4 (le_bytes 4 kind @ le_bytes 4 ?n) = le_bytes 4 kind"
    "sub_slice 4 8 (le_bytes 4 kind @ le_bytes 4 ?n) = le_bytes 4 ?n"
    by (simp_all add: sub_slice_def)
  moreover have "?n mod 4 = 0" "?n \<le> max_block_len" using assms(1) unfolding body_ok_def by presburger+
  moreover have "(if s then 28 else 12) \<le> ?n" using assms(3) by auto
  moreover have "?n - 12 - length magic = length body" by simp
  ultimately show ?thesis
    using h unfolding read_block_rest_def order_nat_little Let_def by (simp add: read_exact_def)
qed

lemma next_block_written:
  assumes "body_ok body" "kind < 2 ^ 32" "kind \<noteq> bt_section_header"
    and "rd_inner r = write_block kind body @ rest" "rd_order r = Some Little"
  shows "reader_next_block r = Inr (Some (kind, body, r\<lparr>rd_inner := rest\<rparr>))"
proof -
  let ?header = "le_bytes 4 kind @ le_bytes 4 (12 + length body)"
  have inner: "rd_inner r = ?header @ body @ le_bytes 4 (12 + length body) @ rest"
    using block_header(1) [OF assms(1,2)] assms(4) by simp
  have "le_bytes 4 kind \<noteq> le_bytes 4 bt_section_header"
    using le_nat_exact [of kind 4] le_nat_exact [of bt_section_header 4] assms(2,3) by (auto simp: bt_section_header_def)
  moreover have "read_block_rest False Little ?header [] (body @ le_bytes 4 (12 + length body) @ rest) = Inr ((kind, body), rest)"
    using read_block_rest_written [of "[]" body kind False rest] assms(1,2) by simp
  ultimately have "read_section_block (rd_inner r) (rd_order r) = Inr (Some ((kind, body), rest, Little))"
    unfolding inner by (simp add: read_section_block_def read_exact_or_eof_def assms(5))
  then show ?thesis using assms(5) by (cases r) (simp add: reader_next_block_def)
qed

lemma next_section_written:
  assumes "body_ok body" "16 \<le> length body" "take 4 body = le_bytes 4 byte_order_magic"
    and "rd_inner r = write_block bt_section_header body @ rest"
  shows "reader_next_block r = Inr (Some (bt_section_header, body, r\<lparr>rd_inner := rest, rd_order := Some Little\<rparr>))"
proof -
  define magic where "magic = le_bytes 4 byte_order_magic"
  define body' where "body' = drop 4 body"
  have body: "body = magic @ body'" using assms(3) append_take_drop_id [of 4 body] by (simp add: magic_def body'_def)
  let ?header = "le_bytes 4 bt_section_header @ le_bytes 4 (12 + length body)"
  have kind: "bt_section_header < 2 ^ 32" by (simp add: bt_section_header_def)
  have inner: "rd_inner r = ?header @ magic @ body' @ le_bytes 4 (12 + length body) @ rest"
    using block_header(1) [OF assms(1) kind] assms(4) body by simp
  have "magic_order magic = Inr Little"
    by (simp add: magic_def magic_order_def byte_order_magic_def le_bytes_4)
  moreover have "length magic = 4" by (simp add: magic_def)
  moreover have "read_block_rest True Little ?header magic (body' @ le_bytes 4 (12 + length body) @ rest) =
      Inr ((bt_section_header, body), rest)"
    using read_block_rest_written [of magic body' bt_section_header True rest] assms(1,2) kind body by simp
  ultimately have "read_section_block (rd_inner r) (rd_order r) = Inr (Some ((bt_section_header, body), rest, Little))"
    unfolding inner by (simp add: read_section_block_def read_exact_or_eof_def read_exact_def)
  then show ?thesis by (simp add: reader_next_block_def)
qed

section \<open>The file header\<close>

definition names_ok :: "interface_description_block \<Rightarrow> rstring \<Rightarrow> rstring \<Rightarrow> bool" where
  "names_ok idb hostname agent_version \<longleftrightarrow>
     length agent_version + length hostname < 65000 \<and> length (idb_interface_name idb) < 65536
     \<and> utf8_valid (idb_interface_name idb) \<and> idb_snaplen idb < 2 ^ 32"

abbreviation section_body :: "rstring \<Rightarrow> rstring \<Rightarrow> byte list" where
  "section_body hostname agent_version \<equiv>
     le_bytes 4 byte_order_magic @ le_bytes 2 1 @ le_bytes 2 0 @ replicate 8 0xFF
     @ write_option shb_userappl (lit ''capture-agent/'' @ agent_version @ lit '' on '' @ hostname) @ write_end_of_opt"

lemma section_body_ok:
  assumes "names_ok idb hostname agent_version"
  shows "body_ok (section_body hostname agent_version)"
proof -
  let ?n = "length (lit ''capture-agent/'' @ agent_version @ lit '' on '' @ hostname)"
  have "?n < 65100" using assms by (simp add: names_ok_def lit_def)
  then have "pad4 ?n < 65104" using pad4_bounds(2) [of ?n] by simp
  moreover have "(24 + pad4 ?n) mod 4 = 0" using pad4_bounds(3) [of ?n] by presburger
  ultimately show ?thesis by (simp add: body_ok_def max_block_len_def)
qed

lemma section_started:
  assumes "names_ok idb hostname agent_version" and "rd_order r = Some Little"
  shows "start_section (section_body hostname agent_version) r =
    Inr (r\<lparr>rd_supported_section := True, rd_interfaces := [], rd_interface_name_bytes := 0\<rparr>)"
proof -
  let ?body = "section_body hostname agent_version"
  let ?appl = "lit ''capture-agent/'' @ agent_version @ lit '' on '' @ hostname"
  have "sub_slice 4 6 ?body = le_bytes 2 1" "sub_slice 6 8 ?body = le_bytes 2 0" "sub_slice 8 16 ?body = replicate 8 0xFF"
    by (simp_all add: sub_slice_def)
  moreover have "le_nat (le_bytes 2 1) = 1" "le_nat (le_bytes 2 0) = 0" by (simp_all add: le_nat_le_bytes)
  moreover have "order_i64 Little (replicate 8 0xFF) = -1"
    by (simp add: order_i64_def order_nat_little le_nat_all_ones Let_def)
  moreover have "ordered_options Little (drop 16 ?body) = Inr [(shb_userappl, ?appl)]"
    using assms(1) ordered_options_write [of shb_userappl ?appl write_end_of_opt] ordered_options_end [of "[]"]
    by (simp add: names_ok_def shb_userappl_def lit_def)
  ultimately show ?thesis using assms(2) by (simp add: start_section_def the_order_def order_nat_little Let_def)
qed

abbreviation interface_body :: "interface_description_block \<Rightarrow> byte list" where
  "interface_body idb \<equiv>
     le_bytes 2 (pcapng_linktype (idb_link_type idb)) @ le_bytes 2 0 @ le_bytes 4 (idb_snaplen idb)
     @ write_option if_name (idb_interface_name idb) @ write_option if_tsresol [writer_tsresol] @ write_end_of_opt"

lemma interface_body_ok:
  assumes "names_ok idb hostname agent_version"
  shows "body_ok (interface_body idb)"
proof -
  let ?n = "length (idb_interface_name idb)"
  have "pad4 ?n < 65540" using assms pad4_bounds(2) [of ?n] by (simp add: names_ok_def)
  moreover have "pad4 ?n mod 4 = 0" "pad4 1 = 4" using pad4_bounds(3) by (simp_all add: pad4_def)
  moreover from this have "(24 + pad4 ?n) mod 4 = 0" by presburger
  ultimately show ?thesis by (simp add: body_ok_def max_block_len_def)
qed

definition stored_of :: "interface_description_block \<Rightarrow> stored_interface" where
  "stored_of idb = \<lparr>si_linktype_raw = pcapng_linktype (idb_link_type idb), si_interface_name = Some (idb_interface_name idb),
     si_snaplen = idb_snaplen idb, si_timestamp_resolution = writer_tsresol\<rparr>"

lemma interface_parsed:
  assumes "names_ok idb hostname agent_version"
  shows "parse_ordered_interface (interface_body idb) Little = Inr (stored_of idb)"
proof -
  let ?body = "interface_body idb"
  have "sub_slice 0 2 ?body = le_bytes 2 (pcapng_linktype (idb_link_type idb))" "sub_slice 4 8 ?body = le_bytes 4 (idb_snaplen idb)"
    by (simp_all add: sub_slice_def)
  moreover have "le_nat (le_bytes 2 (pcapng_linktype (idb_link_type idb))) = pcapng_linktype (idb_link_type idb)"
    "le_nat (le_bytes 4 (idb_snaplen idb)) = idb_snaplen idb"
    using assms by (cases "idb_link_type idb"; simp add: le_nat_le_bytes names_ok_def)+
  moreover have "ordered_options Little (drop 8 ?body) = Inr [(if_name, idb_interface_name idb), (if_tsresol, [writer_tsresol])]"
    using assms ordered_options_end [of "[]"]
    by (simp add: ordered_options_write if_name_def if_tsresol_def names_ok_def)
  ultimately show ?thesis
    using assms
    by (simp add: parse_ordered_interface_def order_nat_little interface_option_def stored_of_def names_ok_def
        if_name_def if_tsresol_def from_utf8_lossy_valid)
qed

lemma linktype_back: "linktype_from_pcapng (pcapng_linktype lt) = Some lt"
  by (cases lt) (simp_all add: linktype_from_pcapng_def)

text \<open>The reader after the file header, with the rest of the file in front of it.\<close>

definition opened :: "interface_description_block \<Rightarrow> byte list \<Rightarrow> pcapng_reader" where
  "opened idb rest =
     \<lparr>rd_inner = rest, rd_order = Some Little, rd_supported_section = True, rd_interfaces = [stored_of idb],
      rd_interface_name_bytes = length (idb_interface_name idb)\<rparr>"

lemma reader_opens:
  assumes "names_ok idb hostname agent_version"
  shows "reader_new (wr_file (writer_create idb hostname agent_version) @ rest) =
    Inr (opened idb rest, \<lparr>pi_interface_name = Some (idb_interface_name idb), pi_link_type = idb_link_type idb,
      pi_snaplen = idb_snaplen idb, pi_timestamp_resolution = writer_tsresol\<rparr>)"
proof -
  let ?r = "reader_init (wr_file (writer_create idb hostname agent_version) @ rest)"
  define r1 where "r1 = ?r\<lparr>rd_inner := idb_write idb @ rest, rd_order := Some Little, rd_supported_section := True\<rparr>"
  have "reader_next_block ?r = Inr (Some (bt_section_header, section_body hostname agent_version,
      ?r\<lparr>rd_inner := idb_write idb @ rest, rd_order := Some Little\<rparr>))"
    using section_body_ok [OF assms]
    by (intro next_section_written) (simp_all add: reader_init_def writer_create_def section_header_block_def Let_def)
  then have "reader_new_loop ?r = reader_new_loop r1"
    using section_started [OF assms, of "?r\<lparr>rd_inner := idb_write idb @ rest, rd_order := Some Little\<rparr>"]
    by (subst reader_new_loop.simps) (simp add: r1_def reader_init_def)
  moreover have "reader_next_block r1 = Inr (Some (bt_interface_description, interface_body idb, r1\<lparr>rd_inner := rest\<rparr>))"
    using interface_body_ok [OF assms]
    by (intro next_block_written) (simp_all add: r1_def idb_write_def bt_interface_description_def bt_section_header_def)
  moreover have "add_interface (interface_body idb) (r1\<lparr>rd_inner := rest\<rparr>) = Inr (opened idb rest)"
    using interface_parsed [OF assms] assms
    by (simp add: add_interface_def r1_def the_order_def max_interfaces_def max_interface_name_bytes_def stored_of_def
        names_ok_def opened_def reader_init_def)
  ultimately show ?thesis
    by (simp add: reader_new_def)
       (subst reader_new_loop.simps, simp add: r1_def reader_init_def bt_interface_description_def bt_section_header_def
          opened_def stored_supported_def stored_of_def linktype_back)
qed

section \<open>Packets\<close>

lemma timestamp_back:
  assumes "0 \<le> ts" "ts < 2 ^ 64" "epb_timestamp_halves ts = (hi, lo)"
  shows "hi < 2 ^ 32" "lo < 2 ^ 32" "epb_timestamp (hi * 2 ^ 32 + lo) writer_tsresol = Inr ts"
proof -
  have n: "nat ts < 2 ^ 64" using assms(1,2) by (simp add: nat_less_iff)
  then have "nat ts div 2 ^ 32 < 2 ^ 32" by (simp add: less_mult_imp_div_less)
  then have halves: "hi = nat ts div 2 ^ 32" "lo = nat ts mod 2 ^ 32"
    using assms(3) n by (simp_all add: epb_timestamp_halves_def u32_cast_def Let_def)
  then show "hi < 2 ^ 32" "lo < 2 ^ 32" using \<open>nat ts div 2 ^ 32 < 2 ^ 32\<close> by simp_all
  have "hi * 2 ^ 32 + lo = nat ts" by (simp add: halves)
  moreover have "writer_tsresol AND 0x7F = 9" "writer_tsresol AND 0x80 = 0" by (simp_all add: writer_tsresol_def)
  ultimately show "epb_timestamp (hi * 2 ^ 32 + lo) writer_tsresol = Inr ts"
    using n assms(1) unfolding epb_timestamp_def by (simp add: u128_max_def u64_max_def)
qed

lemma direction_back: "flags_direction (le_nat (le_bytes 4 (epb_flags_bits dir))) = dir"
  by (cases dir) (simp_all add: le_nat_le_bytes flags_direction_def)

definition packet_ok :: "int \<Rightarrow> byte list \<Rightarrow> bool" where
  "packet_ok ts data \<longleftrightarrow> 0 \<le> ts \<and> ts < 2 ^ 64 \<and> length data \<le> 65535"

lemma packet_written:
  fixes dir
  assumes "packet_ok ts data" "epb_timestamp_halves ts = (hi, lo)"
  defines "body \<equiv> le_bytes 4 interface_id @ le_bytes 4 hi @ le_bytes 4 lo
    @ le_bytes 4 (length data) @ le_bytes 4 (length data)
    @ data @ replicate (pad4 (length data) - length data) 0
    @ write_option epb_flags (le_bytes 4 (epb_flags_bits dir)) @ write_end_of_opt"
  shows "write_enhanced_packet_block ts dir data = write_block bt_enhanced_packet body" "body_ok body"
    and "decode_packet body (opened idb rest) = Inr \<lparr>pk_link_type = idb_link_type idb, pk_timestamp = ts,
      pk_direction = dir, pk_original_len = length data, pk_data = data\<rparr>"
proof -
  let ?n = "length data"
  have len: "?n < 2 ^ 32" using assms(1) by (simp add: packet_ok_def)
  have pad: "?n \<le> pad4 ?n" "pad4 ?n < 65540" "(32 + pad4 ?n) mod 4 = 0" "pad4 4 = 4"
    using assms(1) pad4_bounds [of ?n] unfolding packet_ok_def by (simp_all, presburger, simp add: pad4_def)
  have blen: "length body = 32 + pad4 ?n" using pad by (simp add: body_def)
  show "write_enhanced_packet_block ts dir data = write_block bt_enhanced_packet body"
    using assms(2) len by (simp add: write_enhanced_packet_block_def body_def u32_cast_def)
  show "body_ok body" using pad blen by (simp add: body_ok_def max_block_len_def)
  have ts: "0 \<le> ts" "ts < 2 ^ 64" using assms(1) by (simp_all add: packet_ok_def)
  note t = timestamp_back [OF ts assms(2)]
  have slices: "sub_slice 0 4 body = le_bytes 4 0" "sub_slice 4 8 body = le_bytes 4 hi" "sub_slice 8 12 body = le_bytes 4 lo"
    "sub_slice 12 16 body = le_bytes 4 ?n" "sub_slice 16 20 body = le_bytes 4 ?n" "sub_slice 20 (20 + ?n) body = data"
    by (simp_all add: body_def sub_slice_def interface_id_def)
  have ints: "le_nat (le_bytes 4 0) = 0" "le_nat (le_bytes 4 hi) = hi" "le_nat (le_bytes 4 lo) = lo" "le_nat (le_bytes 4 ?n) = ?n"
    using t(1,2) len by (simp_all add: le_nat_le_bytes)
  have "drop (20 + pad4 ?n) body = write_option epb_flags (le_bytes 4 (epb_flags_bits dir)) @ write_end_of_opt"
    using pad(1) by (simp add: body_def)
  then have opts: "ordered_options Little (drop (20 + pad4 ?n) body) = Inr [(epb_flags, le_bytes 4 (epb_flags_bits dir))]"
    using ordered_options_end [of "[]"] by (simp add: ordered_options_write epb_flags_def)
  have "parse_ordered_packet body Little writer_tsresol (idb_link_type idb) = Inr \<lparr>pk_link_type = idb_link_type idb,
      pk_timestamp = ts, pk_direction = dir, pk_original_len = ?n, pk_data = data\<rparr>"
    unfolding parse_ordered_packet_def order_nat_little slices ints Let_def
    using blen pad(1) t(3) opts by (simp add: slices packet_option_def order_nat_little direction_back)
  then show "decode_packet body (opened idb rest) = Inr \<lparr>pk_link_type = idb_link_type idb, pk_timestamp = ts,
      pk_direction = dir, pk_original_len = length data, pk_data = data\<rparr>"
    using blen by (simp add: decode_packet_def opened_def the_order_def order_nat_little slices ints byte_at_def stored_of_def linktype_back)
qed

section \<open>Whole files\<close>

lemma next_packet_shrinks: "next_packet r = Inr (Some p, r') \<Longrightarrow> length (rd_inner r') < length (rd_inner r)"
proof (induction r rule: next_packet.induct)
  case (1 r)
  show ?case
  proof (cases "reader_next_block r")
    case (Inr blk)
    then obtain kind body r1 where blk: "blk = Some (kind, body, r1)"
      using "1.prems" by (cases blk) (auto simp: next_packet.simps [of r])
    have lt: "length (rd_inner r1) < length (rd_inner r)" using reader_next_block_shrinks Inr blk by blast
    show ?thesis
      using "1.prems" lt 1 Inr blk
      by (subst (asm) next_packet.simps) (fastforce dest: start_section_inner add_interface_inner split: if_splits sum.splits)
  qed (use "1.prems" in \<open>simp add: next_packet.simps [of r]\<close>)
qed

text \<open>Reading a file to its end, as the replay loop does.\<close>

function read_all :: "pcapng_reader \<Rightarrow> io_error + pcap_packet list" where
  "read_all r =
     (case next_packet r of
        Inl e \<Rightarrow> Inl e
      | Inr (None, _) \<Rightarrow> Inr []
      | Inr (Some p, r') \<Rightarrow> io_bind (read_all r') (\<lambda>ps. Inr (p # ps)))"
  by pat_completeness auto
termination
  by (relation "measure (length \<circ> rd_inner)") (auto dest: next_packet_shrinks)

declare read_all.simps [simp del]

datatype capture_item = PacketItem int packet_direction "byte list" | StatsItem int nat nat

fun item_bytes :: "capture_item \<Rightarrow> byte list" where
  "item_bytes (PacketItem ts dir data) = write_enhanced_packet_block ts dir data"
| "item_bytes (StatsItem ts received dropped) = write_interface_statistics_block ts received dropped"

fun write_item :: "capture_item \<Rightarrow> pcapng_writer \<Rightarrow> pcapng_writer" where
  "write_item (PacketItem ts dir data) w = writer_write_packet ts dir data w"
| "write_item (StatsItem ts received dropped) w = writer_write_interface_stats ts received dropped w"

fun item_ok :: "capture_item \<Rightarrow> bool" where
  "item_ok (PacketItem ts dir data) = packet_ok ts data"
| "item_ok (StatsItem ts received dropped) = True"

fun item_packets :: "link_type \<Rightarrow> capture_item \<Rightarrow> pcap_packet list" where
  "item_packets lt (PacketItem ts dir data) =
     [\<lparr>pk_link_type = lt, pk_timestamp = ts, pk_direction = dir, pk_original_len = length data, pk_data = data\<rparr>]"
| "item_packets lt (StatsItem ts received dropped) = []"

lemma written_file: "wr_file (fold write_item items w) = wr_file w @ concat (map item_bytes items)"
proof (induction items arbitrary: w)
  case (Cons i items)
  then show ?case by (cases i) (simp_all add: writer_write_packet_def writer_write_interface_stats_def)
qed simp

lemma packet_item_read:
  assumes "packet_ok ts data"
  shows "next_packet (opened idb (write_enhanced_packet_block ts dir data @ rest)) =
    Inr (Some \<lparr>pk_link_type = idb_link_type idb, pk_timestamp = ts, pk_direction = dir,
      pk_original_len = length data, pk_data = data\<rparr>, opened idb rest)"
proof -
  obtain hi lo where h: "epb_timestamp_halves ts = (hi, lo)" by fastforce
  obtain body where pw: "write_enhanced_packet_block ts dir data = write_block bt_enhanced_packet body" "body_ok body"
    "decode_packet body (opened idb rest) = Inr \<lparr>pk_link_type = idb_link_type idb, pk_timestamp = ts,
      pk_direction = dir, pk_original_len = length data, pk_data = data\<rparr>"
    using packet_written [OF assms h, where dir = dir] by blast
  let ?r = "opened idb (write_enhanced_packet_block ts dir data @ rest)"
  have "reader_next_block ?r = Inr (Some (bt_enhanced_packet, body, ?r\<lparr>rd_inner := rest\<rparr>))"
    by (rule next_block_written [OF pw(2)])
       (simp_all add: opened_def pw(1) bt_enhanced_packet_def bt_section_header_def)
  moreover have "?r\<lparr>rd_inner := rest\<rparr> = opened idb rest" by (simp add: opened_def)
  ultimately show ?thesis
    using pw(3)
    by (subst next_packet.simps) (simp add: bt_enhanced_packet_def bt_section_header_def bt_interface_description_def opened_def)
qed

lemma stats_item_skipped:
  "next_packet (opened idb (write_interface_statistics_block ts received dropped @ rest)) = next_packet (opened idb rest)"
proof -
  obtain hi lo where h: "epb_timestamp_halves ts = (hi, lo)" by fastforce
  let ?body = "le_bytes 4 interface_id @ le_bytes 4 hi @ le_bytes 4 lo
    @ write_option isb_ifrecv (le_bytes 8 received) @ write_option isb_ifdrop (le_bytes 8 dropped) @ write_end_of_opt"
  let ?r = "opened idb (write_interface_statistics_block ts received dropped @ rest)"
  have "body_ok ?body" by (simp add: body_ok_def max_block_len_def pad4_def)
  then have "reader_next_block ?r = Inr (Some (bt_interface_statistics, ?body, ?r\<lparr>rd_inner := rest\<rparr>))"
    by (rule next_block_written)
       (simp_all add: opened_def write_interface_statistics_block_def h bt_interface_statistics_def bt_section_header_def)
  then show ?thesis
    by (subst next_packet.simps)
       (simp add: bt_interface_statistics_def bt_section_header_def bt_interface_description_def bt_enhanced_packet_def opened_def)
qed

lemma next_packet_end: "next_packet (opened idb []) = Inr (None, opened idb [])"
  by (subst next_packet.simps) (simp add: reader_next_block_def opened_def read_section_block_def read_exact_or_eof_def)

lemma items_read:
  "list_all item_ok items \<Longrightarrow>
   read_all (opened idb (concat (map item_bytes items))) = Inr (concat (map (item_packets (idb_link_type idb)) items))"
proof (induction items)
  case Nil
  then show ?case by (subst read_all.simps) (simp add: next_packet_end)
next
  case (Cons i items)
  show ?case
  proof (cases i)
    case (PacketItem ts dir data)
    then show ?thesis using Cons by (subst read_all.simps) (simp add: packet_item_read)
  next
    case (StatsItem ts received dropped)
    have "read_all (opened idb (concat (map item_bytes (i # items)))) = read_all (opened idb (concat (map item_bytes items)))"
      using StatsItem by (subst (1 2) read_all.simps) (simp add: stats_item_skipped)
    then show ?thesis using Cons StatsItem by simp
  qed
qed

text \<open>
  C24: A capture file reads back as it was written: the reader finds the interface with its name,
  link type, snap length and nanosecond resolution, and then exactly the written packets in order,
  each with its timestamp to the nanosecond, its direction, its length and its bytes; the
  statistics blocks in between are skipped and the end of the file is clean.
\<close>

theorem capture_file_round_trip:
  assumes "names_ok idb hostname agent_version" and "list_all item_ok items"
  shows "\<exists>r. reader_new (wr_file (fold write_item items (writer_create idb hostname agent_version))) =
      Inr (r, \<lparr>pi_interface_name = Some (idb_interface_name idb), pi_link_type = idb_link_type idb,
        pi_snaplen = idb_snaplen idb, pi_timestamp_resolution = 9\<rparr>)
    \<and> read_all r = Inr (concat (map (item_packets (idb_link_type idb)) items))"
  using reader_opens [OF assms(1)] items_read [OF assms(2)]
  by (simp add: written_file writer_tsresol_def)

theorem capture_file_round_trip_witness:
  "\<exists>idb r. reader_new (wr_file (fold write_item [PacketItem 5 Outbound [1, 2, 3], StatsItem 7 1 0, PacketItem 9 Inbound [4]]
      (writer_create idb (lit ''h'') (lit ''1'')))) =
      Inr (r, \<lparr>pi_interface_name = Some (lit ''en0''), pi_link_type = Ethernet, pi_snaplen = 65535, pi_timestamp_resolution = 9\<rparr>)
    \<and> map_sum id (map pk_data) (read_all r) = Inr [[1, 2, 3], [4]]"
proof -
  define idb where "idb = \<lparr>idb_interface_name = lit ''en0'', idb_link_type = Ethernet, idb_snaplen = 65535\<rparr>"
  have "names_ok idb (lit ''h'') (lit ''1'')" by (simp add: names_ok_def idb_def lit_def)
  moreover have "list_all item_ok [PacketItem 5 Outbound [1, 2, 3], StatsItem 7 1 0, PacketItem 9 Inbound [4]]"
    by (simp add: packet_ok_def)
  ultimately show ?thesis using capture_file_round_trip by (fastforce simp: idb_def)
qed

text \<open>
  The byte count shown for a capture is exactly what its packet blocks take in the file.
\<close>

lemma bytes_written_exact:
  "wr_bytes_written (writer_write_packet ts dir data w) = wr_bytes_written w + length (write_enhanced_packet_block ts dir data)"
proof -
  have "pad4 4 = 4" by (simp add: pad4_def)
  then show ?thesis
    using pad4_bounds(1) [of "length data"] by (simp add: writer_write_packet_def write_enhanced_packet_block_def case_prod_unfold Let_def)
qed

section \<open>Hostile input\<close>

definition name_bytes :: "stored_interface list \<Rightarrow> nat" where
  "name_bytes xs = sum_list (map (\<lambda>s. case si_interface_name s of None \<Rightarrow> 0 | Some n \<Rightarrow> length n) xs)"

definition reader_ok :: "pcapng_reader \<Rightarrow> bool" where
  "reader_ok r \<longleftrightarrow> length (rd_interfaces r) \<le> max_interfaces \<and> rd_interface_name_bytes r = name_bytes (rd_interfaces r)
     \<and> rd_interface_name_bytes r \<le> max_interface_name_bytes"

lemma start_section_ok: "start_section body r = Inr r' \<Longrightarrow> reader_ok r'"
  by (auto simp: start_section_def io_bind_def Let_def reader_ok_def name_bytes_def split: if_splits sum.splits)

lemma add_interface_ok: "add_interface body r = Inr r' \<Longrightarrow> reader_ok r \<Longrightarrow> reader_ok r'"
  by (auto simp: add_interface_def io_bind_def Let_def reader_ok_def name_bytes_def split: if_splits sum.splits option.splits)

lemma next_block_ok:
  assumes "reader_next_block r = Inr (Some (kind, body, r1))"
  shows "reader_ok r1 = reader_ok r" "length body \<le> max_block_len" "length body \<le> length (rd_inner r)"
proof -
  have rest: "length b \<le> max_block_len \<and> length b \<le> length inp + length magic"
    if "read_block_rest s order header magic inp = Inr ((k, b), inp')" "length magic \<le> 4" "s \<or> magic = []" for s order header magic inp k b inp'
    using that by (auto simp: read_block_rest_def read_exact_def io_bind_def Let_def max_block_len_def split: if_splits)
  show "reader_ok r1 = reader_ok r"
    using assms by (auto simp: reader_next_block_def io_bind_def reader_ok_def split: sum.splits option.splits)
  show "length body \<le> max_block_len" "length body \<le> length (rd_inner r)"
    using assms
    by (auto simp: reader_next_block_def read_section_block_def read_exact_or_eof_def read_exact_def io_bind_def
        split: sum.splits option.splits if_splits prod.splits dest!: rest)
qed

lemma decode_packet_bound: "decode_packet body r = Inr p \<Longrightarrow> length (pk_data p) \<le> length body"
  by (auto simp: decode_packet_def parse_ordered_packet_def io_bind_def Let_def sub_slice_def
      split: if_splits option.splits sum.splits prod.splits)

lemma next_packet_ok:
  "next_packet r = Inr (x, r') \<Longrightarrow> reader_ok r \<Longrightarrow>
   reader_ok r' \<and> (\<forall>p. x = Some p \<longrightarrow> length (pk_data p) \<le> max_block_len \<and> length (pk_data p) \<le> length (rd_inner r))"
proof (induction r rule: next_packet.induct)
  case (1 r)
  show ?case
  proof (cases "reader_next_block r")
    case (Inr blk)
    show ?thesis
    proof (cases blk)
      case (Some b)
      obtain kind body r1 where b: "b = (kind, body, r1)" by (cases b)
      note blk = Inr [unfolded Some b]
      note ok = next_block_ok [OF blk] reader_next_block_shrinks [OF blk]
      show ?thesis
        using "1.prems" ok 1 blk
        by (subst (asm) next_packet.simps)
           (fastforce dest: start_section_inner add_interface_inner start_section_ok add_interface_ok decode_packet_bound
             split: if_splits sum.splits)
    qed (use "1.prems" Inr in \<open>simp add: next_packet.simps [of r]\<close>)
  qed (use "1.prems" in \<open>simp add: next_packet.simps [of r]\<close>)
qed

lemma reader_new_loop_ok: "reader_new_loop r = Inr (r', i) \<Longrightarrow> reader_ok r \<Longrightarrow> reader_ok r'"
proof (induction r rule: reader_new_loop.induct)
  case (1 r)
  show ?case
  proof (cases "reader_next_block r")
    case (Inr blk)
    then obtain kind body r1 where blk: "blk = Some (kind, body, r1)"
      using "1.prems" by (cases blk) (auto simp: reader_new_loop.simps [of r])
    show ?thesis
      using "1.prems" next_block_ok [OF Inr [unfolded blk]] 1 Inr blk
      by (subst (asm) reader_new_loop.simps)
         (fastforce dest: start_section_ok add_interface_ok split: if_splits sum.splits)
  qed (use "1.prems" in \<open>simp add: reader_new_loop.simps [of r]\<close>)
qed

inductive reader_reach :: "byte list \<Rightarrow> pcapng_reader \<Rightarrow> bool" for inp :: "byte list" where
  reach_new: "reader_new inp = Inr (r, i) \<Longrightarrow> reader_reach inp r"
| reach_next: "reader_reach inp r \<Longrightarrow> next_packet r = Inr (x, r') \<Longrightarrow> reader_reach inp r'"

lemma reader_reach_ok: "reader_reach inp r \<Longrightarrow> reader_ok r"
proof (induction rule: reader_reach.induct)
  case (reach_new r i)
  moreover have "reader_ok (reader_init inp)"
    by (simp add: reader_ok_def reader_init_def name_bytes_def max_interfaces_def max_interface_name_bytes_def)
  ultimately show ?case unfolding reader_new_def by (rule reader_new_loop_ok)
next
  case (reach_next r x r')
  then show ?case using next_packet_ok by blast
qed

text \<open>
  Whatever bytes a file to replay holds, the reader keeps at most 4096 interfaces and 16 MiB of
  interface names, its running count of them is exact, and every packet it hands out fits in one
  block of at most 16 MiB and in the bytes that were left: no length field drives an allocation
  beyond that.
\<close>

lemma reader_memory_bounded:
  assumes "reader_reach inp r"
  shows "length (rd_interfaces r) \<le> 4096 \<and> name_bytes (rd_interfaces r) \<le> 16777216
    \<and> rd_interface_name_bytes r = name_bytes (rd_interfaces r)
    \<and> (\<forall>p r'. next_packet r = Inr (Some p, r') \<longrightarrow>
         length (pk_data p) \<le> 16777216 \<and> length (pk_data p) \<le> length (rd_inner r) \<and> length (rd_inner r') < length (rd_inner r))"
  using reader_reach_ok [OF assms] next_packet_ok [of r] next_packet_shrinks [of r]
  by (auto simp: reader_ok_def max_interfaces_def max_interface_name_bytes_def max_block_len_def)

lemma reader_memory_bounded_witness:
  "\<exists>inp r. reader_reach inp r \<and> length (rd_interfaces r) = 1 \<and> name_bytes (rd_interfaces r) \<le> 16777216"
proof -
  define idb where "idb = \<lparr>idb_interface_name = lit ''en0'', idb_link_type = Ethernet, idb_snaplen = 65535\<rparr>"
  have "names_ok idb (lit ''h'') (lit ''1'')" by (simp add: names_ok_def idb_def lit_def)
  from reader_opens [OF this, of "[]"]
  have "reader_reach (wr_file (writer_create idb (lit ''h'') (lit ''1''))) (opened idb [])" by (auto intro: reach_new)
  moreover from reader_memory_bounded [OF this] have "name_bytes (rd_interfaces (opened idb [])) \<le> 16777216" by blast
  moreover have "length (rd_interfaces (opened idb [])) = 1" by (simp add: opened_def)
  ultimately show ?thesis by blast
qed

end
