(* ===== verification/CaptureFile.thy ===== *)
theory CaptureFile
  imports PcapngCorrect
begin

text \<open>
  Capture to file: rotation, autostop and the disk guard (\<open>ring.rs\<close>) and the writer thread that
  drives them (\<open>main.rs\<close>). The file system is a map from paths to contents. A path is a pair of its
  directory and its file name, and the base path names a file. Opening a file fails when it exists
  (\<open>create_new\<close>) or when the operating system refuses, a parameter; flushing, syncing and renaming a
  file that exists succeed. The monotonic clock is a parameter in milliseconds, the wall clock in
  nanoseconds.
\<close>

section \<open>State\<close>

type_synonym fpath = "rstring \<times> rstring"
type_synonym file_system = "fpath \<Rightarrow> byte list option"

definition default_low_disk_floor_bytes :: nat where
  "default_low_disk_floor_bytes = 500 * 1024 * 1024"

record ring_config =
  rc_mode :: rstring
  rc_threshold :: nat

record autostop_config =
  ac_mode :: rstring
  ac_threshold :: nat

record ring_state =
  rs_writer :: pcapng_writer
  rs_base_path :: fpath
  rs_idb :: interface_description_block
  rs_hostname :: rstring
  rs_agent_version :: rstring
  rs_ring :: "ring_config option"
  rs_autostop :: "autostop_config option"
  rs_current_index :: nat
  rs_started_at :: nat
  rs_file_started_at :: nat
  rs_packets_this_file :: nat
  rs_bytes_before_current_file :: nat

record capture_file_status =
  cfs_writing :: bool
  cfs_path :: "fpath option"
  cfs_bytes_written :: nat
  cfs_ring_file :: "nat option"
  cfs_ring_total :: "nat option"
  cfs_autostop_reason :: "rstring option"
  cfs_backpressure_drops :: nat

section \<open>Names\<close>

text \<open>
  \<open>Path::file_stem\<close> and \<open>Path::extension\<close>: the name is split at its last dot, unless that is its
  first character.
\<close>

definition last_dot :: "rstring \<Rightarrow> nat option" where
  "last_dot name =
     (let before = length name - length (takeWhile (\<lambda>b. b \<noteq> 0x2E) (rev name))
      in if before \<le> 1 then None else Some (before - 1))"

definition file_stem :: "rstring \<Rightarrow> rstring" where
  "file_stem name = (case last_dot name of None \<Rightarrow> name | Some i \<Rightarrow> take i name)"

definition file_extension :: "rstring \<Rightarrow> rstring" where
  "file_extension name = (case last_dot name of None \<Rightarrow> [] | Some i \<Rightarrow> drop (i + 1) name)"

definition zero_padded :: "nat \<Rightarrow> rstring" where
  "zero_padded n = replicate (4 - length (show_nat n)) 0x30 @ show_nat n"

definition member_path :: "fpath \<Rightarrow> ring_config option \<Rightarrow> nat \<Rightarrow> fpath" where
  "member_path base ring index =
     (if ring = None then base
      else let stem = file_stem (snd base); ext = file_extension (snd base)
           in if ext = [] then (fst base, stem @ lit ''-'' @ zero_padded index)
              else (fst base, stem @ lit ''-'' @ zero_padded index @ lit ''.'' @ ext))"

definition partial_path :: "fpath \<Rightarrow> fpath" where
  "partial_path p = (fst p, snd p @ lit ''.partial'')"

section \<open>Opening and finishing files\<close>

definition open_next ::
  "bool \<Rightarrow> fpath \<Rightarrow> ring_config option \<Rightarrow> nat \<Rightarrow> interface_description_block \<Rightarrow> rstring \<Rightarrow> rstring
    \<Rightarrow> file_system \<Rightarrow> (pcapng_writer \<times> file_system) option" where
  "open_next os_ok base ring index idb hostname agent_version fs =
     (let part = partial_path (member_path base ring index); w = writer_create idb hostname agent_version
      in if os_ok \<and> fs part = None then Some (w, fs(part \<mapsto> wr_file w)) else None)"

definition finish_and_rename :: "fpath \<Rightarrow> file_system \<Rightarrow> file_system" where
  "finish_and_rename final_path fs =
     (let part = partial_path final_path
      in case fs part of None \<Rightarrow> fs | Some content \<Rightarrow> (fs(part := None))(final_path \<mapsto> content))"

definition current_member :: "ring_state \<Rightarrow> fpath" where
  "current_member rs = member_path (rs_base_path rs) (rs_ring rs) (rs_current_index rs)"

datatype start_error = FreeSpaceUnknown | LowDisk | OpenFailed

text \<open>\<open>free\<close> is the answer of the free-space query, \<^const>\<open>None\<close> when it fails.\<close>

definition ring_start ::
  "nat option \<Rightarrow> bool \<Rightarrow> nat \<Rightarrow> fpath \<Rightarrow> ring_config option \<Rightarrow> autostop_config option
    \<Rightarrow> interface_description_block \<Rightarrow> rstring \<Rightarrow> rstring \<Rightarrow> ring_state option \<times> file_system
    \<Rightarrow> start_error option \<times> ring_state option \<times> file_system" where
  "ring_start free os_ok now_ms base ring autostop idb hostname agent_version s =
     (case s of (state, fs) \<Rightarrow>
      case free of
        None \<Rightarrow> (Some FreeSpaceUnknown, state, fs)
      | Some n \<Rightarrow>
          if n < default_low_disk_floor_bytes then (Some LowDisk, state, fs)
          else case open_next os_ok base ring 1 idb hostname agent_version fs of
                 None \<Rightarrow> (Some OpenFailed, state, fs)
               | Some (w, fs1) \<Rightarrow>
                   (None,
                    Some \<lparr>rs_writer = w, rs_base_path = base, rs_idb = idb, rs_hostname = hostname,
                      rs_agent_version = agent_version, rs_ring = ring, rs_autostop = autostop, rs_current_index = 1,
                      rs_started_at = now_ms, rs_file_started_at = now_ms, rs_packets_this_file = 0,
                      rs_bytes_before_current_file = 0\<rparr>, fs1))"

definition ring_stop :: "ring_state option \<times> file_system \<Rightarrow> ring_state option \<times> file_system" where
  "ring_stop s =
     (case s of (None, fs) \<Rightarrow> (None, fs) | (Some rs, fs) \<Rightarrow> (None, finish_and_rename (current_member rs) fs))"

text \<open>A write through the open handle of the current file.\<close>

definition with_writer :: "(pcapng_writer \<Rightarrow> pcapng_writer) \<Rightarrow> ring_state \<times> file_system \<Rightarrow> ring_state \<times> file_system" where
  "with_writer f s =
     (case s of (rs, fs) \<Rightarrow>
      let w = f (rs_writer rs)
      in (rs\<lparr>rs_writer := w\<rparr>, fs(partial_path (current_member rs) \<mapsto> wr_file w)))"

definition ring_write_packet ::
  "int \<Rightarrow> packet_direction \<Rightarrow> byte list \<Rightarrow> ring_state \<times> file_system \<Rightarrow> ring_state \<times> file_system" where
  "ring_write_packet timestamp dir data s =
     (let (rs, fs) = with_writer (writer_write_packet timestamp dir data) s
      in (rs\<lparr>rs_packets_this_file := rs_packets_this_file rs + 1\<rparr>, fs))"

definition ring_bytes_written :: "ring_state \<Rightarrow> nat" where
  "ring_bytes_written rs = rs_bytes_before_current_file rs + wr_bytes_written (rs_writer rs)"

section \<open>The periodic tick\<close>

definition elapsed_secs :: "nat \<Rightarrow> nat \<Rightarrow> nat" where
  "elapsed_secs now_ms since_ms = (now_ms - since_ms) div 1000"

definition should_rotate :: "nat \<Rightarrow> ring_state \<Rightarrow> bool" where
  "should_rotate now_ms rs =
     (case rs_ring rs of
        None \<Rightarrow> False
      | Some cfg \<Rightarrow>
          if rc_mode cfg = lit ''size'' then wr_bytes_written (rs_writer rs) \<ge> rc_threshold cfg
          else if rc_mode cfg = lit ''duration'' then elapsed_secs now_ms (rs_file_started_at rs) \<ge> rc_threshold cfg
          else if rc_mode cfg = lit ''count'' then rs_packets_this_file rs \<ge> rc_threshold cfg
          else False)"

definition autostop_reason :: "nat \<Rightarrow> ring_state \<Rightarrow> rstring option" where
  "autostop_reason now_ms rs =
     (case rs_autostop rs of
        None \<Rightarrow> None
      | Some cfg \<Rightarrow>
          if ac_mode cfg = lit ''duration'' \<and> elapsed_secs now_ms (rs_started_at rs) \<ge> ac_threshold cfg
          then Some (lit ''duration'')
          else if ac_mode cfg = lit ''totalSize'' then
            (if rs_bytes_before_current_file rs + wr_bytes_written (rs_writer rs) \<ge> ac_threshold cfg
             then Some (lit ''totalSize'') else None)
          else None)"

definition rotate :: "bool \<Rightarrow> nat \<Rightarrow> ring_state \<times> file_system \<Rightarrow> ring_state \<times> file_system" where
  "rotate os_ok now_ms s =
     (case s of (rs, fs) \<Rightarrow>
      let old_final = current_member rs; next_index = rs_current_index rs + 1
      in case open_next os_ok (rs_base_path rs) (rs_ring rs) next_index (rs_idb rs) (rs_hostname rs) (rs_agent_version rs) fs of
           None \<Rightarrow> (rs, fs)
         | Some (new_writer, fs1) \<Rightarrow>
             (rs\<lparr>rs_writer := new_writer,
                 rs_bytes_before_current_file := rs_bytes_before_current_file rs + wr_bytes_written (rs_writer rs),
                 rs_packets_this_file := 0, rs_file_started_at := now_ms, rs_current_index := next_index\<rparr>,
              finish_and_rename old_final fs1))"

definition low_disk :: "nat option \<Rightarrow> bool" where
  "low_disk free = (case free of Some n \<Rightarrow> n < default_low_disk_floor_bytes | None \<Rightarrow> False)"

definition tick_stop_reason :: "nat option \<Rightarrow> nat \<Rightarrow> ring_state \<Rightarrow> rstring option" where
  "tick_stop_reason free now_ms rs =
     (case autostop_reason now_ms rs of
        Some reason \<Rightarrow> Some reason
      | None \<Rightarrow> if low_disk free then Some (lit ''lowDisk'') else None)"

definition ring_on_tick ::
  "nat option \<Rightarrow> bool \<Rightarrow> int \<Rightarrow> nat \<Rightarrow> nat \<Rightarrow> nat \<Rightarrow> ring_state option \<times> file_system
    \<Rightarrow> capture_file_status option \<times> ring_state option \<times> file_system" where
  "ring_on_tick free os_ok now_ns now_ms received dropped_frames s =
     (case s of
        (None, fs) \<Rightarrow> (None, None, fs)
      | (Some rs0, fs0) \<Rightarrow>
          let (rs, fs) = with_writer (writer_write_interface_stats now_ns received dropped_frames) (rs0, fs0)
          in case tick_stop_reason free now_ms rs of
               Some reason \<Rightarrow>
                 (Some \<lparr>cfs_writing = False, cfs_path = Some (current_member rs), cfs_bytes_written = ring_bytes_written rs,
                    cfs_ring_file = None, cfs_ring_total = None, cfs_autostop_reason = Some reason, cfs_backpressure_drops = 0\<rparr>,
                  None, finish_and_rename (current_member rs) fs)
             | None \<Rightarrow>
                 let (rs1, fs1) = (if should_rotate now_ms rs then rotate os_ok now_ms (rs, fs) else (rs, fs))
                 in (Some \<lparr>cfs_writing = True, cfs_path = Some (current_member rs1), cfs_bytes_written = ring_bytes_written rs1,
                      cfs_ring_file = map_option (\<lambda>_. rs_current_index rs1) (rs_ring rs1), cfs_ring_total = None,
                      cfs_autostop_reason = None, cfs_backpressure_drops = 0\<rparr>,
                    Some rs1, fs1))"

section \<open>The writer thread\<close>

datatype writer_command =
    StartCommand fpath "ring_config option" "autostop_config option" interface_description_block rstring rstring
  | StopCommand
  | PacketCommand int packet_direction "byte list"
  | StatsCommand nat nat

record writer_shared =
  ws_active :: bool
  ws_path :: "fpath option"
  ws_bytes_written :: nat
  ws_ring_file :: "nat option"
  ws_autostop_reason :: "rstring option"
  ws_errors :: "start_error list"

definition apply_status :: "capture_file_status \<Rightarrow> writer_shared \<Rightarrow> writer_shared" where
  "apply_status status sh =
     sh\<lparr>ws_active := cfs_writing status, ws_path := cfs_path status, ws_bytes_written := cfs_bytes_written status,
        ws_ring_file := cfs_ring_file status, ws_autostop_reason := cfs_autostop_reason status\<rparr>"

text \<open>What the thread sees of the world when it handles a command.\<close>

record writer_env =
  we_free :: "nat option"
  we_os_ok :: bool
  we_now_ns :: int
  we_now_ms :: nat

definition writer_step ::
  "writer_env \<Rightarrow> writer_command \<Rightarrow> (ring_state option \<times> file_system) \<times> writer_shared
    \<Rightarrow> (ring_state option \<times> file_system) \<times> writer_shared" where
  "writer_step env cmd s =
     (case s of (run, sh) \<Rightarrow>
      case cmd of
        StartCommand path ring autostop idb hostname agent_version \<Rightarrow>
          (case ring_start (we_free env) (we_os_ok env) (we_now_ms env) path ring autostop idb hostname agent_version run of
             (None, run') \<Rightarrow>
               (run', sh\<lparr>ws_autostop_reason := None, ws_ring_file := None, ws_path := Some path, ws_bytes_written := 0,
                         ws_active := True\<rparr>)
           | (Some e, run') \<Rightarrow> (run', sh\<lparr>ws_errors := ws_errors sh @ [e]\<rparr>))
      | StopCommand \<Rightarrow> (ring_stop run, sh\<lparr>ws_active := False, ws_autostop_reason := None\<rparr>)
      | PacketCommand timestamp dir data \<Rightarrow>
          (case run of
             (None, fs) \<Rightarrow> (run, sh)
           | (Some rs, fs) \<Rightarrow>
               (case ring_write_packet timestamp dir data (rs, fs) of (rs', fs') \<Rightarrow>
                  ((Some rs', fs'), sh\<lparr>ws_bytes_written := ring_bytes_written rs'\<rparr>)))
      | StatsCommand received dropped_frames \<Rightarrow>
          (case ring_on_tick (we_free env) (we_os_ok env) (we_now_ns env) (we_now_ms env) received dropped_frames run of
             (None, run') \<Rightarrow> (run', sh)
           | (Some status, run') \<Rightarrow> (run', apply_status status sh)))"

fun writer_run ::
  "(writer_env \<times> writer_command) list \<Rightarrow> (ring_state option \<times> file_system) \<times> writer_shared
    \<Rightarrow> (ring_state option \<times> file_system) \<times> writer_shared" where
  "writer_run [] s = s"
| "writer_run ((env, cmd) # cmds) s = writer_run cmds (writer_step env cmd s)"

section \<open>Validation of the request\<close>

definition validate_ring_config :: "ring_config \<Rightarrow> bool" where
  "validate_ring_config cfg \<longleftrightarrow>
     (rc_mode cfg = lit ''size'' \<or> rc_mode cfg = lit ''duration'' \<or> rc_mode cfg = lit ''count'') \<and> rc_threshold cfg \<noteq> 0"

definition validate_autostop_config :: "autostop_config \<Rightarrow> bool" where
  "validate_autostop_config cfg \<longleftrightarrow>
     (ac_mode cfg = lit ''duration'' \<or> ac_mode cfg = lit ''totalSize'') \<and> ac_threshold cfg \<noteq> 0"

end
