(* ===== verification/CaptureRun.thy ===== *)
theory CaptureRun
  imports CaptureFile
begin

text \<open>
  What a capture to file leaves on disk: rotation loses no packet, every file that has its final
  name is complete and reads back, and nothing else is touched.
\<close>

section \<open>Member names\<close>

text \<open>
  The laws the bookkeeping of a run needs of the names of its files: names of different members
  differ, and no name under which a file is being written is the final name of a member.
\<close>

locale member_names =
  fixes final :: "nat \<Rightarrow> 'p" and part :: "nat \<Rightarrow> 'p" and valid :: "nat \<Rightarrow> bool"
  assumes final_inj: "valid i \<Longrightarrow> valid j \<Longrightarrow> final i = final j \<Longrightarrow> i = j"
    and part_inj: "valid i \<Longrightarrow> valid j \<Longrightarrow> part i = part j \<Longrightarrow> i = j"
    and part_not_final: "part i \<noteq> final j"
begin

text \<open>A run in progress: \<open>n\<close> finished files, one open, the rest of the disk as before.\<close>

definition in_progress :: "('p \<Rightarrow> 'c option) \<Rightarrow> 'c list \<Rightarrow> 'c \<Rightarrow> ('p \<Rightarrow> 'c option) \<Rightarrow> bool" where
  "in_progress fs0 finished current fs \<longleftrightarrow>
     (\<forall>i\<le>length finished. valid (i + 1)) \<and> fs (part (length finished + 1)) = Some current
     \<and> (\<forall>i<length finished. fs (final (i + 1)) = Some (finished ! i))
     \<and> (\<forall>q. q \<notin> final ` {1..length finished} \<longrightarrow> q \<noteq> part (length finished + 1) \<longrightarrow> fs q = fs0 q)"

definition finished_run :: "('p \<Rightarrow> 'c option) \<Rightarrow> 'c list \<Rightarrow> ('p \<Rightarrow> 'c option) \<Rightarrow> bool" where
  "finished_run fs0 files fs \<longleftrightarrow>
     (\<forall>i<length files. fs (final (i + 1)) = Some (files ! i))
     \<and> (\<forall>q. q \<notin> final ` {1..length files} \<longrightarrow> fs q = fs0 q)"

lemma names_apart [simp]: "part i \<noteq> final j" "final j \<noteq> part i" "part i \<notin> final ` I"
  using part_not_final by (auto, metis)

lemma in_progress_start:
  "valid 1 \<Longrightarrow> in_progress fs [] c (fs(part 1 \<mapsto> c))"
  by (simp add: in_progress_def)

lemma in_progress_write:
  assumes "in_progress fs0 finished c fs"
  shows "in_progress fs0 finished c' (fs(part (length finished + 1) \<mapsto> c'))"
  using assms by (auto simp: in_progress_def)

lemma next_part_untouched:
  assumes "in_progress fs0 finished c fs" "valid (length finished + 2)"
  shows "fs (part (length finished + 2)) = fs0 (part (length finished + 2))"
proof -
  have "part (length finished + 2) \<noteq> part (length finished + 1)"
    using part_inj assms by (force simp: in_progress_def)
  then show ?thesis using assms(1) by (simp add: in_progress_def)
qed

lemma in_progress_finish:
  assumes "in_progress fs0 finished c fs" "fs0 (part (length finished + 1)) = None"
  defines "n \<equiv> length finished + 1"
  shows "finished_run fs0 (finished @ [c]) ((fs(part n := None))(final n \<mapsto> c))"
proof -
  have valid: "valid (i + 1)" if "i \<le> length finished" for i using assms(1) that by (simp add: in_progress_def)
  have "final (i + 1) \<noteq> final n" if "i < length finished" for i
    using final_inj [of "i + 1" n] valid [of i] valid [of "length finished"] that by (auto simp: n_def)
  then have files: "((fs(part n := None))(final n \<mapsto> c)) (final (i + 1)) = Some ((finished @ [c]) ! i)" if "i < n" for i
    using that assms(1) by (cases "i = length finished") (auto simp: in_progress_def n_def nth_append)
  have "final n \<in> final ` {1..n}" by (simp add: n_def)
  moreover have "final ` {1..length finished} \<subseteq> final ` {1..n}" by (intro image_mono) (auto simp: n_def)
  ultimately have "q \<noteq> final n \<and> q \<notin> final ` {1..length finished}" if "q \<notin> final ` {1..n}" for q
    using that by blast
  then have "((fs(part n := None))(final n \<mapsto> c)) q = fs0 q" if "q \<notin> final ` {1..n}" for q
    using that assms(1,2) by (auto simp: in_progress_def n_def)
  with files show ?thesis by (simp add: finished_run_def n_def)
qed

text \<open>Opening the next file and finishing the current one is progress by one file.\<close>

lemma in_progress_rotate:
  assumes "in_progress fs0 finished c fs" "valid (length finished + 2)" "fs0 (part (length finished + 1)) = None"
  defines "n \<equiv> length finished + 1"
  shows "in_progress fs0 (finished @ [c]) c' (((fs(part (n + 1) \<mapsto> c'))(part n := None))(final n \<mapsto> c))"
proof -
  have fin: "finished_run fs0 (finished @ [c]) ((fs(part n := None))(final n \<mapsto> c))"
    using in_progress_finish [OF assms(1,3)] by (simp add: n_def)
  have ne: "part (n + 1) \<noteq> part n" using part_inj assms(1,2) by (force simp: in_progress_def n_def)
  then have eq: "((fs(part (n + 1) \<mapsto> c'))(part n := None))(final n \<mapsto> c) =
      ((fs(part n := None))(final n \<mapsto> c))(part (n + 1) \<mapsto> c')"
    by (auto simp: fun_upd_def)
  have "valid (i + 1)" if "i \<le> n" for i
    using assms(1,2) that by (cases "i = n") (auto simp: in_progress_def n_def)
  then show ?thesis
    using fin unfolding eq by (auto simp: in_progress_def finished_run_def n_def)
qed

end

lemma read_digits_zeros: "read_digits 0 (replicate k 0x30 @ ds) = read_digits 0 ds"
  by (induction k) simp_all

lemma zero_padded_inj: "zero_padded i = zero_padded j \<Longrightarrow> i = j"
  by (metis read_digits_zeros read_show_nat zero_padded_def)

lemma zero_padded_digits: "list_all ascii_digit (zero_padded i)"
  using show_nat_digits [of i] by (auto simp: zero_padded_def ascii_digit_def list_all_iff)

definition valid_index :: "ring_config option \<Rightarrow> nat \<Rightarrow> bool" where
  "valid_index ring i \<longleftrightarrow> ring \<noteq> None \<or> i = 1"

lemma digits_then_dot:
  assumes "list_all ascii_digit a" "list_all ascii_digit b" "a @ 0x2E # x = b @ y"
  shows "y \<noteq> [] \<and> (hd y = 0x2E \<longrightarrow> a = b \<and> 0x2E # x = y)"
  using assms
proof (induction a arbitrary: b)
  case Nil
  then show ?case by (cases b) (auto simp: ascii_digit_def)
next
  case (Cons d a)
  then show ?case by (cases b) (auto simp: ascii_digit_def)
qed

interpretation mn: member_names "member_path base ring" "\<lambda>i. partial_path (member_path base ring i)" "valid_index ring"
  for base ring
proof
  fix i j
  show "i = j" if "valid_index ring i" "valid_index ring j" "member_path base ring i = member_path base ring j"
    using that zero_padded_inj by (auto simp: valid_index_def member_path_def Let_def split: if_splits)
  show "i = j" if "valid_index ring i" "valid_index ring j"
    "partial_path (member_path base ring i) = partial_path (member_path base ring j)"
    using that zero_padded_inj by (auto simp: partial_path_def valid_index_def member_path_def Let_def split: if_splits)
  show "partial_path (member_path base ring i) \<noteq> member_path base ring j"
  proof
    assume eq: "partial_path (member_path base ring i) = member_path base ring j"
    show False
    proof (cases "ring = None")
      case True
      then show False using eq by (cases base) (simp add: partial_path_def member_path_def lit_def)
    next
      case False
      let ?e = "file_extension (snd base)"
      have "zero_padded i @ (if ?e = [] then [] else lit ''.'' @ ?e) @ lit ''.partial'' =
          zero_padded j @ (if ?e = [] then [] else lit ''.'' @ ?e)"
        using eq False by (auto simp: partial_path_def member_path_def Let_def split: if_splits)
      then show False
        using digits_then_dot [OF zero_padded_digits zero_padded_digits, of i "tl (lit ''.partial'')" j "[]"]
          digits_then_dot [OF zero_padded_digits zero_padded_digits, of i "?e @ lit ''.partial''" j "0x2E # ?e"]
        by (auto simp: lit_def split: if_splits)
    qed
  qed
qed

section \<open>Runs\<close>

definition capture_bytes :: "ring_state \<Rightarrow> capture_item list \<Rightarrow> byte list" where
  "capture_bytes rs items = wr_file (fold write_item items (writer_create (rs_idb rs) (rs_hostname rs) (rs_agent_version rs)))"

text \<open>The run \<open>rs\<close> has written \<open>files\<close> and is writing \<open>items\<close>, on a disk that was \<open>fs0\<close> before.\<close>

definition run_inv :: "file_system \<Rightarrow> ring_state \<Rightarrow> capture_item list list \<Rightarrow> capture_item list \<Rightarrow> file_system \<Rightarrow> bool" where
  "run_inv fs0 rs files items fs \<longleftrightarrow>
     rs_writer rs = fold write_item items (writer_create (rs_idb rs) (rs_hostname rs) (rs_agent_version rs))
     \<and> rs_current_index rs = length files + 1
     \<and> mn.in_progress (rs_base_path rs) (rs_ring rs) fs0 (map (capture_bytes rs) files) (capture_bytes rs items) fs"

definition fresh_names :: "file_system \<Rightarrow> fpath \<Rightarrow> ring_config option \<Rightarrow> bool" where
  "fresh_names fs base ring \<longleftrightarrow> (\<forall>i. fs (partial_path (member_path base ring i)) = None)"

text \<open>The configuration of a run, which no operation changes.\<close>

definition same_run :: "ring_state \<Rightarrow> ring_state \<Rightarrow> bool" where
  "same_run rs rs' \<longleftrightarrow> rs_base_path rs' = rs_base_path rs \<and> rs_ring rs' = rs_ring rs \<and> rs_idb rs' = rs_idb rs
     \<and> rs_hostname rs' = rs_hostname rs \<and> rs_agent_version rs' = rs_agent_version rs"

lemma same_run_bytes: "same_run rs rs' \<Longrightarrow> capture_bytes rs' = capture_bytes rs"
  by (simp add: same_run_def capture_bytes_def fun_eq_iff)

lemma same_run_trans: "same_run a b \<Longrightarrow> same_run b c \<Longrightarrow> same_run a c"
  by (simp add: same_run_def)

lemma run_inv_write:
  assumes "run_inv fs0 rs files items fs" "with_writer (write_item item) (rs, fs) = (rs', fs')"
  shows "run_inv fs0 rs' files (items @ [item]) fs' \<and> same_run rs rs' \<and> rs_packets_this_file rs' = rs_packets_this_file rs"
proof -
  have rs': "rs' = rs\<lparr>rs_writer := write_item item (rs_writer rs)\<rparr>"
    and fs': "fs' = fs(partial_path (current_member rs) \<mapsto> wr_file (write_item item (rs_writer rs)))"
    using assms(2) by (auto simp: with_writer_def Let_def)
  have same: "same_run rs rs'" by (simp add: rs' same_run_def)
  have "wr_file (write_item item (rs_writer rs)) = capture_bytes rs (items @ [item])"
    using assms(1) by (simp add: run_inv_def capture_bytes_def)
  then have "mn.in_progress (rs_base_path rs) (rs_ring rs) fs0 (map (capture_bytes rs) files) (capture_bytes rs (items @ [item])) fs'"
    using assms(1) mn.in_progress_write [of "rs_base_path rs" "rs_ring rs" fs0 "map (capture_bytes rs) files" "capture_bytes rs items" fs]
    by (simp add: run_inv_def fs' current_member_def)
  then show ?thesis
    using assms(1) same same_run_bytes [OF same] by (simp add: run_inv_def rs')
qed

lemma write_packet_item: "ring_write_packet ts dir data s =
    (case with_writer (write_item (PacketItem ts dir data)) s of
       (rs, fs) \<Rightarrow> (rs\<lparr>rs_packets_this_file := rs_packets_this_file rs + 1\<rparr>, fs))"
proof -
  have "write_item (PacketItem ts dir data) = writer_write_packet ts dir data" by (simp add: fun_eq_iff)
  then show ?thesis by (simp add: ring_write_packet_def Let_def)
qed

lemma run_inv_counter [simp]: "run_inv fs0 (rs\<lparr>rs_packets_this_file := n\<rparr>) files items fs = run_inv fs0 rs files items fs"
  using same_run_bytes [of rs "rs\<lparr>rs_packets_this_file := n\<rparr>"] by (simp add: run_inv_def same_run_def)

lemma run_inv_finish:
  assumes "run_inv fs0 rs files items fs" "fresh_names fs0 (rs_base_path rs) (rs_ring rs)"
  shows "mn.finished_run (rs_base_path rs) (rs_ring rs) fs0 (map (capture_bytes rs) (files @ [items]))
    (finish_and_rename (current_member rs) fs)"
proof -
  let ?M = "member_path (rs_base_path rs) (rs_ring rs)"
  have p: "mn.in_progress (rs_base_path rs) (rs_ring rs) fs0 (map (capture_bytes rs) files) (capture_bytes rs items) fs"
    using assms(1) by (simp add: run_inv_def)
  have "current_member rs = ?M (length files + 1)" using assms(1) by (simp add: run_inv_def current_member_def)
  moreover from this have "fs (partial_path (current_member rs)) = Some (capture_bytes rs items)"
    using p by (simp add: mn.in_progress_def)
  ultimately show ?thesis
    using mn.in_progress_finish [OF p] assms(2) by (simp add: finish_and_rename_def fresh_names_def)
qed

lemma run_inv_rotate:
  assumes "run_inv fs0 rs files items fs" "fresh_names fs0 (rs_base_path rs) (rs_ring rs)" "rs_ring rs \<noteq> None"
    and "rotate os_ok now_ms (rs, fs) = (rs', fs')"
  shows "same_run rs rs' \<and> (\<exists>files' items'. run_inv fs0 rs' files' items' fs' \<and> concat files' @ items' = concat files @ items)"
proof -
  let ?M = "member_path (rs_base_path rs) (rs_ring rs)" and ?n = "length files + 1"
  let ?w = "writer_create (rs_idb rs) (rs_hostname rs) (rs_agent_version rs)"
  have p: "mn.in_progress (rs_base_path rs) (rs_ring rs) fs0 (map (capture_bytes rs) files) (capture_bytes rs items) fs"
    and ix: "rs_current_index rs = ?n" using assms(1) by (simp_all add: run_inv_def)
  have cur: "current_member rs = ?M ?n" using ix by (simp add: current_member_def)
  have "fs (partial_path (?M (?n + 1))) = None"
    using mn.next_part_untouched [OF p] assms(2,3) by (simp add: valid_index_def fresh_names_def)
  then have opened: "open_next os_ok (rs_base_path rs) (rs_ring rs) (rs_current_index rs + 1) (rs_idb rs) (rs_hostname rs)
      (rs_agent_version rs) fs = (if os_ok then Some (?w, fs(partial_path (?M (?n + 1)) \<mapsto> wr_file ?w)) else None)"
    by (simp add: open_next_def ix Let_def)
  show ?thesis
  proof (cases os_ok)
    case False
    then have "rs' = rs" "fs' = fs" using assms(4) opened by (simp_all add: rotate_def Let_def)
    then show ?thesis using assms(1) by (auto simp: same_run_def)
  next
    case True
    let ?fs1 = "fs(partial_path (?M (?n + 1)) \<mapsto> wr_file ?w)"
    have rs': "rs' = rs\<lparr>rs_writer := ?w, rs_bytes_before_current_file := rs_bytes_before_current_file rs + wr_bytes_written (rs_writer rs),
        rs_packets_this_file := 0, rs_file_started_at := now_ms, rs_current_index := ?n + 1\<rparr>"
      and fs': "fs' = finish_and_rename (?M ?n) ?fs1"
      using assms(4) opened True ix cur by (simp_all add: rotate_def Let_def)
    have same: "same_run rs rs'" by (simp add: rs' same_run_def)
    have "valid_index (rs_ring rs) (length files + 2)" using assms(3) by (simp add: valid_index_def)
    with p assms(2) have prog: "mn.in_progress (rs_base_path rs) (rs_ring rs) fs0 (map (capture_bytes rs) files @ [capture_bytes rs items]) (capture_bytes rs [])
        (((fs(partial_path (?M (?n + 1)) \<mapsto> capture_bytes rs []))(partial_path (?M ?n) := None))(?M ?n \<mapsto> capture_bytes rs items))"
      using mn.in_progress_rotate [OF p] by (simp add: fresh_names_def)
    have "partial_path (?M ?n) \<noteq> partial_path (?M (?n + 1))"
      using mn.part_inj [of "rs_ring rs" ?n "?n + 1" "rs_base_path rs"] assms(3) by (auto simp: valid_index_def)
    moreover have "fs (partial_path (?M ?n)) = Some (capture_bytes rs items)" using p by (simp add: mn.in_progress_def)
    ultimately have "?fs1 (partial_path (?M ?n)) = Some (capture_bytes rs items)" by simp
    then have "fs' = ((?fs1(partial_path (?M ?n) := None))(?M ?n \<mapsto> capture_bytes rs items))"
      unfolding fs' finish_and_rename_def Let_def by simp
    then have "run_inv fs0 rs' (files @ [items]) [] fs'"
      using prog same_run_bytes [OF same] by (simp add: run_inv_def rs' capture_bytes_def)
    moreover have "concat (files @ [items]) @ [] = concat files @ items" by simp
    ultimately show ?thesis using same by blast
  qed
qed

section \<open>The writer thread\<close>

text \<open>The data commands of a run, and what they record while the run is active.\<close>

fun data_command :: "writer_command \<Rightarrow> bool" where
  "data_command (PacketCommand ts dir data) = packet_ok ts data"
| "data_command (StatsCommand received dropped_frames) = True"
| "data_command _ = False"

fun command_item :: "writer_env \<Rightarrow> writer_command \<Rightarrow> capture_item list" where
  "command_item env (PacketCommand ts dir data) = [PacketItem ts dir data]"
| "command_item env (StatsCommand received dropped_frames) = [StatsItem (we_now_ns env) received dropped_frames]"
| "command_item env _ = []"

fun recorded ::
  "(writer_env \<times> writer_command) list \<Rightarrow> (ring_state option \<times> file_system) \<times> writer_shared \<Rightarrow> capture_item list" where
  "recorded [] s = []"
| "recorded ((env, cmd) # cmds) s =
     (if fst (fst s) = None then [] else command_item env cmd) @ recorded cmds (writer_step env cmd s)"

definition run_state ::
  "file_system \<Rightarrow> ring_state \<Rightarrow> capture_item list \<Rightarrow> ring_state option \<times> file_system \<Rightarrow> bool" where
  "run_state fs0 rs0 items s \<longleftrightarrow>
     (case s of
        (Some rs, fs) \<Rightarrow> same_run rs0 rs \<and> (\<exists>files current. run_inv fs0 rs files current fs \<and> concat files @ current = items)
      | (None, fs) \<Rightarrow> \<exists>files. files \<noteq> [] \<and> concat files = items
          \<and> mn.finished_run (rs_base_path rs0) (rs_ring rs0) fs0 (map (capture_bytes rs0) files) fs)"

lemma run_state_finish:
  assumes "same_run rs0 rs" "run_inv fs0 rs files current fs" "fresh_names fs0 (rs_base_path rs0) (rs_ring rs0)"
  shows "run_state fs0 rs0 (concat files @ current) (None, finish_and_rename (current_member rs) fs)"
proof -
  have "mn.finished_run (rs_base_path rs0) (rs_ring rs0) fs0 (map (capture_bytes rs0) (files @ [current]))
      (finish_and_rename (current_member rs) fs)"
    using run_inv_finish [OF assms(2)] assms(1,3) same_run_bytes [OF assms(1)] by (simp add: same_run_def)
  then show ?thesis unfolding run_state_def by (auto intro!: exI [of _ "files @ [current]"])
qed

lemma stats_item: "with_writer (writer_write_interface_stats ns received dropped_frames) s = with_writer (write_item (StatsItem ns received dropped_frames)) s"
proof -
  have "write_item (StatsItem ns received dropped_frames) = writer_write_interface_stats ns received dropped_frames"
    by (simp add: fun_eq_iff)
  then show ?thesis by simp
qed

lemma tick_run_state:
  assumes "run_state fs0 rs0 items (Some rs, fs)" and "fresh_names fs0 (rs_base_path rs0) (rs_ring rs0)"
  shows "run_state fs0 rs0 (items @ [StatsItem now_ns received dropped_frames])
    (snd (ring_on_tick free os_ok now_ns now_ms received dropped_frames (Some rs, fs)))"
proof -
  obtain files current where inv: "same_run rs0 rs" "run_inv fs0 rs files current fs" "concat files @ current = items"
    using assms(1) by (auto simp: run_state_def)
  let ?it = "StatsItem now_ns received dropped_frames"
  obtain rs1 fs1 where w: "with_writer (write_item ?it) (rs, fs) = (rs1, fs1)" by fastforce
  note w' = run_inv_write [OF inv(2) w]
  have same: "same_run rs0 rs1" using w' inv(1) same_run_trans by blast
  have items: "concat files @ (current @ [?it]) = items @ [?it]" using inv(3) by simp
  show ?thesis
  proof (cases "tick_stop_reason free now_ms rs1")
    case (Some reason)
    then show ?thesis
      using run_state_finish [OF same _ assms(2), of files "current @ [?it]" fs1] w' items
      by (simp add: ring_on_tick_def stats_item w)
  next
    case None
    show ?thesis
    proof (cases "should_rotate now_ms rs1")
      case True
      obtain rs2 fs2 where rot: "rotate os_ok now_ms (rs1, fs1) = (rs2, fs2)" by fastforce
      have "rs_ring rs1 \<noteq> None" using True by (auto simp: should_rotate_def split: option.splits)
      moreover have "fresh_names fs0 (rs_base_path rs1) (rs_ring rs1)" using assms(2) same by (simp add: same_run_def)
      ultimately obtain files' items' where "run_inv fs0 rs2 files' items' fs2" "concat files' @ items' = items @ [?it]" "same_run rs1 rs2"
        using run_inv_rotate [of fs0 rs1 files "current @ [?it]" fs1, OF _ _ _ rot] w' items by metis
      then show ?thesis
        using None True rot same same_run_trans by (auto simp: ring_on_tick_def stats_item w run_state_def)
    next
      case False
      have "\<exists>files current. run_inv fs0 rs1 files current fs1 \<and> concat files @ current = items @ [?it]"
        using w' items by blast
      then show ?thesis using None False same by (simp add: ring_on_tick_def stats_item w run_state_def)
    qed
  qed
qed

lemma step_run_state:
  assumes "run_state fs0 rs0 items (fst s)" "fresh_names fs0 (rs_base_path rs0) (rs_ring rs0)" "data_command cmd"
  shows "run_state fs0 rs0 (items @ (if fst (fst s) = None then [] else command_item env cmd)) (fst (writer_step env cmd s))"
proof -
  obtain run fs sh where s: "s = ((run, fs), sh)" by (metis surj_pair)
  show ?thesis
  proof (cases run)
    case None
    then show ?thesis using assms s by (cases cmd) (auto simp: writer_step_def ring_on_tick_def)
  next
    case (Some rs)
    show ?thesis
    proof (cases cmd)
      case (PacketCommand ts dir data)
      obtain files current where inv: "same_run rs0 rs" "run_inv fs0 rs files current fs" "concat files @ current = items"
        using assms(1) s Some by (auto simp: run_state_def)
      obtain rs1 fs1 where w: "with_writer (write_item (PacketItem ts dir data)) (rs, fs) = (rs1, fs1)" by fastforce
      note w' = run_inv_write [OF inv(2) w]
      have "same_run rs0 (rs1\<lparr>rs_packets_this_file := n\<rparr>)" for n using w' inv(1) by (simp add: same_run_def)
      moreover have "\<exists>files current. run_inv fs0 rs1 files current fs1 \<and> concat files @ current = items @ [PacketItem ts dir data]"
        using w' inv(3) by (metis append.assoc)
      ultimately show ?thesis
        using s Some PacketCommand by (simp add: writer_step_def write_packet_item w run_state_def)
    next
      case (StatsCommand received dropped_frames)
      then show ?thesis
        using tick_run_state [OF _ assms(2), of items rs fs "we_now_ns env" received dropped_frames "we_free env" "we_os_ok env" "we_now_ms env"]
          assms(1) s Some
        by (auto simp: writer_step_def split: prod.splits option.splits)
    qed (use assms(3) in simp_all)
  qed
qed

lemma run_run_state:
  assumes "run_state fs0 rs0 items (fst s)" "fresh_names fs0 (rs_base_path rs0) (rs_ring rs0)" "list_all (data_command \<circ> snd) cmds"
  shows "run_state fs0 rs0 (items @ recorded cmds s) (fst (writer_run cmds s))"
  using assms
proof (induction cmds arbitrary: s items)
  case (Cons c cmds)
  obtain env cmd where c: "c = (env, cmd)" by (cases c)
  have "run_state fs0 rs0 (items @ (if fst (fst s) = None then [] else command_item env cmd)) (fst (writer_step env cmd s))"
    using step_run_state Cons.prems c by simp
  from Cons.IH [OF this Cons.prems(2)] Cons.prems(3) show ?case by (simp add: c)
qed simp

text \<open>Opening a capture file and reading all its packets.\<close>

definition read_file :: "byte list \<Rightarrow> io_error + pcap_packet list" where
  "read_file content = io_bind (reader_new content) (\<lambda>(r, intf). read_all r)"

lemma read_capture_bytes:
  assumes "names_ok (rs_idb rs) (rs_hostname rs) (rs_agent_version rs)" "list_all item_ok items"
  shows "read_file (capture_bytes rs items) = Inr (concat (map (item_packets (idb_link_type (rs_idb rs))) items))"
  using reader_opens [OF assms(1)] items_read [OF assms(2)]
  by (simp add: read_file_def capture_bytes_def written_file)

lemma recorded_ok: "list_all (data_command \<circ> snd) cmds \<Longrightarrow> list_all item_ok (recorded cmds s)"
proof (induction cmds arbitrary: s)
  case (Cons c cmds)
  obtain env cmd where c: "c = (env, cmd)" by (cases c)
  have "list_all item_ok (command_item env cmd)" using Cons.prems c by (cases cmd) simp_all
  then show ?case using Cons c by simp
qed simp

lemma start_run_state:
  assumes "writer_step env (StartCommand base ring autostop idb hostname agent_version) ((None, fs0), sh) = ((Some rs, fs1), sh1)"
  shows "run_state fs0 rs [] (Some rs, fs1)" "rs_base_path rs = base" "rs_ring rs = ring"
    "rs_idb rs = idb" "rs_hostname rs = hostname" "rs_agent_version rs = agent_version"
proof -
  let ?w = "writer_create idb hostname agent_version" and ?p = "partial_path (member_path base ring 1)"
  have st: "rs_writer rs = ?w" "rs_base_path rs = base" "rs_ring rs = ring" "rs_idb rs = idb" "rs_hostname rs = hostname"
    "rs_agent_version rs = agent_version" "rs_current_index rs = 1" "fs1 = fs0(?p \<mapsto> wr_file ?w)"
    using assms by (auto simp: writer_step_def ring_start_def open_next_def Let_def split: option.splits if_splits)
  then show "rs_base_path rs = base" "rs_ring rs = ring" "rs_idb rs = idb" "rs_hostname rs = hostname"
    "rs_agent_version rs = agent_version" by simp_all
  have "mn.in_progress base ring fs0 [] (wr_file ?w) fs1"
    using mn.in_progress_start [where ring = ring and base = base and fs = fs0 and c = "wr_file ?w"] st(8) by (simp add: valid_index_def)
  then have "run_inv fs0 rs [] [] fs1" using st by (simp add: run_inv_def capture_bytes_def)
  then show "run_state fs0 rs [] (Some rs, fs1)"
    unfolding run_state_def by (auto simp: same_run_def intro!: exI [of _ "[]"])
qed

lemma stop_finishes:
  assumes "run_state fs0 rs0 items (fst s)" "fresh_names fs0 (rs_base_path rs0) (rs_ring rs0)"
  shows "fst (fst (writer_step env StopCommand s)) = None \<and> run_state fs0 rs0 items (fst (writer_step env StopCommand s))"
proof -
  obtain run fs sh where s: "s = ((run, fs), sh)" by (metis surj_pair)
  show ?thesis
  proof (cases run)
    case None
    then show ?thesis using assms s by (simp add: writer_step_def ring_stop_def)
  next
    case (Some rs)
    then obtain files current where "same_run rs0 rs" "run_inv fs0 rs files current fs" "concat files @ current = items"
      using assms(1) s by (auto simp: run_state_def)
    then show ?thesis
      using run_state_finish [OF _ _ assms(2)] s Some by (auto simp: writer_step_def ring_stop_def)
  qed
qed

lemma writer_run_append: "writer_run (xs @ ys) s = writer_run ys (writer_run xs s)"
  by (induction xs s rule: writer_run.induct) simp_all

text \<open>
  C23: A capture to file loses nothing. After a run that was started, fed any packets and ticks, and
  stopped, whether or not it rotated, failed to rotate, or ended itself on the way, the packets
  read back from its numbered files, in order, are exactly the packets it was given while it was
  active; every one of those files is a complete capture file under its final name, no partial file
  is left, and no other file on the disk has changed.
\<close>

theorem capture_run_loses_nothing:
  assumes "writer_step env (StartCommand base ring autostop idb hostname agent_version) ((None, fs0), sh) = ((Some rs, fs1), sh1)"
    and "fresh_names fs0 base ring" and "names_ok idb hostname agent_version" and "list_all (data_command \<circ> snd) cmds"
    and "writer_run (cmds @ [(env', StopCommand)]) ((Some rs, fs1), sh1) = ((run, fs2), sh2)"
  shows "run = None \<and> (\<exists>files. files \<noteq> []
    \<and> concat files = concat (map (item_packets (idb_link_type idb)) (recorded cmds ((Some rs, fs1), sh1)))
    \<and> (\<forall>i<length files. \<exists>content. fs2 (member_path base ring (i + 1)) = Some content \<and> read_file content = Inr (files ! i))
    \<and> (\<forall>q. q \<notin> member_path base ring ` {1..length files} \<longrightarrow> fs2 q = fs0 q))"
proof -
  let ?s = "((Some rs, fs1), sh1)" and ?packets = "\<lambda>items. concat (map (item_packets (idb_link_type idb)) items)"
  note st = start_run_state [OF assms(1)]
  have "run_state fs0 rs (recorded cmds ?s) (fst (writer_run cmds ?s))"
    using run_run_state [of fs0 rs "[]" ?s cmds] st assms(2,4) by simp
  from stop_finishes [OF this, of env'] assms(2,5) st(2,3)
  have run: "run = None \<and> run_state fs0 rs (recorded cmds ?s) (None, fs2)" by (auto simp: writer_run_append)
  obtain files where files: "files \<noteq> []" "concat files = recorded cmds ?s"
    "mn.finished_run base ring fs0 (map (capture_bytes rs) files) fs2"
    using run st(2,3) by (auto simp: run_state_def)
  have ok: "list_all item_ok (files ! i)" if "i < length files" for i
    using recorded_ok [OF assms(4), of ?s] nth_mem [OF that] unfolding files(2) [symmetric] list_all_iff by auto
  have "read_file (capture_bytes rs (files ! i)) = Inr (?packets (files ! i))" if "i < length files" for i
    using read_capture_bytes [of rs, OF _ ok [OF that]] assms(3) st(4-6) by simp
  moreover have "concat (map ?packets files) = ?packets (concat files)" by (induction files) simp_all
  ultimately show ?thesis
    using run files by (auto simp: mn.finished_run_def intro!: exI [of _ "map ?packets files"])
qed

theorem capture_run_loses_nothing_witness:
  "\<exists>env idb rs fs1 sh sh1. writer_step env (StartCommand (lit ''/tmp'', lit ''c.pcapng'') (Some \<lparr>rc_mode = lit ''count'', rc_threshold = 1\<rparr>)
       None idb (lit ''h'') (lit ''1'')) ((None, \<lambda>_. None), sh) = ((Some rs, fs1), sh1)
     \<and> (\<exists>fs2 content. fst (writer_run ([(env, PacketCommand 5 Inbound [1]), (env, StatsCommand 1 0), (env, PacketCommand 6 Outbound [2])]
          @ [(env, StopCommand)]) ((Some rs, fs1), sh1)) = (None, fs2)
        \<and> fs2 (member_path (lit ''/tmp'', lit ''c.pcapng'') (Some \<lparr>rc_mode = lit ''count'', rc_threshold = 1\<rparr>) 1) = Some content)"
proof -
  define env where "env = \<lparr>we_free = Some (2 ^ 40), we_os_ok = True, we_now_ns = 7, we_now_ms = 1000\<rparr>"
  define idb where "idb = \<lparr>idb_interface_name = lit ''en0'', idb_link_type = Ethernet, idb_snaplen = 65535\<rparr>"
  define sh where "sh = \<lparr>ws_active = False, ws_path = None, ws_bytes_written = 0, ws_ring_file = None, ws_autostop_reason = None, ws_errors = []\<rparr>"
  let ?base = "(lit ''/tmp'', lit ''c.pcapng'')" and ?ring = "Some \<lparr>rc_mode = lit ''count'', rc_threshold = 1\<rparr>"
  let ?cmds = "[(env, PacketCommand 5 Inbound [1]), (env, StatsCommand 1 0), (env, PacketCommand 6 Outbound [2])]"
  obtain rs fs1 sh1 where start: "writer_step env (StartCommand ?base ?ring None idb (lit ''h'') (lit ''1'')) ((None, \<lambda>_. None), sh) =
      ((Some rs, fs1), sh1)"
    by (simp add: writer_step_def ring_start_def env_def default_low_disk_floor_bytes_def open_next_def Let_def)
  have "fresh_names (\<lambda>_. None) ?base ?ring" by (simp add: fresh_names_def)
  moreover have "names_ok idb (lit ''h'') (lit ''1'')" by (simp add: names_ok_def idb_def lit_def)
  moreover have "list_all (data_command \<circ> snd) ?cmds" by (simp add: packet_ok_def)
  moreover obtain run fs2 sh2 where "writer_run (?cmds @ [(env, StopCommand)]) ((Some rs, fs1), sh1) = ((run, fs2), sh2)"
    by (metis surj_pair)
  ultimately have "run = None \<and> (\<exists>content. fs2 (member_path ?base ?ring 1) = Some content)"
    using capture_run_loses_nothing [OF start] by (metis add_0 length_greater_0_conv)
  with start \<open>writer_run _ _ = _\<close> show ?thesis by (metis fst_conv)
qed

section \<open>Where a capture is lost\<close>

lemma partial_differs: "partial_path p \<noteq> p" "p \<noteq> partial_path p"
  by (cases p; simp add: partial_path_def lit_def)+

text \<open>
  C39: The refusal to overwrite an existing file only looks at the partial name. When a file with the
  requested name is already on the disk and no partial one is, the capture starts, and stopping it
  replaces the existing file by the new capture.
\<close>

theorem existing_capture_replaced:
  assumes "fs base = Some old" and "fs (partial_path base) = None"
    and "free \<ge> default_low_disk_floor_bytes"
  shows "case ring_start (Some free) True now_ms base None autostop idb hostname agent_version (None, fs) of
      (error, run) \<Rightarrow> error = None
        \<and> snd (ring_stop run) base = Some (wr_file (writer_create idb hostname agent_version))"
  using assms partial_differs [of base]
  by (simp add: ring_start_def open_next_def member_path_def ring_stop_def current_member_def finish_and_rename_def Let_def)

theorem existing_capture_replaced_witness:
  "case ring_start (Some (2 ^ 40)) True 0 (lit ''d'', lit ''c'') None None \<lparr>idb_interface_name = [], idb_link_type = RawIp, idb_snaplen = 9\<rparr>
       [] [] (None, [(lit ''d'', lit ''c'') \<mapsto> [1, 2, 3]]) of
     (error, run) \<Rightarrow> error = None \<and> snd (ring_stop run) (lit ''d'', lit ''c'') \<noteq> Some [1, 2, 3]"
proof -
  let ?idb = "\<lparr>idb_interface_name = [], idb_link_type = RawIp, idb_snaplen = 9\<rparr>"
  have "wr_file (writer_create ?idb [] []) \<noteq> [1, 2, 3]"
  proof
    assume "wr_file (writer_create ?idb [] []) = [1, 2, 3]"
    then have "length (wr_file (writer_create ?idb [] [])) = 3" by simp
    then show False by (simp add: writer_create_def section_header_block_def idb_write_def Let_def)
  qed
  then show ?thesis
    using existing_capture_replaced [where fs = "[(lit ''d'', lit ''c'') \<mapsto> [1, 2, 3]]" and base = "(lit ''d'', lit ''c'')"
        and free = "2 ^ 40" and now_ms = 0 and autostop = None and idb = ?idb and hostname = "[]" and agent_version = "[]"]
      partial_differs [of "(lit ''d'', lit ''c'')"]
    by (auto simp: default_low_disk_floor_bytes_def split: prod.splits)
qed

text \<open>
  C40: A start command that reaches the writer while a run is active is carried out exactly when there is
  enough space on disk, the system lets the file be created and no partial file of that name exists; under
  the name of the active file it is therefore refused, and then the run goes on untouched. When it is carried
  out, under another name, the run in progress is dropped without being finished: its current file never
  gets its final name and stays behind as a partial file, even after the stop.
\<close>

theorem second_start_drops_active_run:
  assumes "fs (partial_path (current_member rs)) = Some content"
    and "member_path base ring 1 \<noteq> partial_path (current_member rs)"
    and "current_member rs \<noteq> partial_path (member_path base ring 1)"
  shows "case ring_start free os_ok now_ms base ring autostop idb hostname agent_version (Some rs, fs) of
      (error, run) \<Rightarrow>
        (error = None \<longleftrightarrow> (case free of None \<Rightarrow> False | Some n \<Rightarrow> default_low_disk_floor_bytes \<le> n) \<and> os_ok \<and> fs (partial_path (member_path base ring 1)) = None)
        \<and> (member_path base ring 1 = current_member rs \<longrightarrow> error \<noteq> None)
        \<and> (if error = None
           then snd (ring_stop run) (partial_path (current_member rs)) = Some content
             \<and> snd (ring_stop run) (current_member rs) = fs (current_member rs)
           else run = (Some rs, fs))"
proof (cases "(case free of None \<Rightarrow> False | Some n \<Rightarrow> default_low_disk_floor_bytes \<le> n) \<and> os_ok \<and> fs (partial_path (member_path base ring 1)) = None")
  case True
  then have "member_path base ring 1 \<noteq> current_member rs" using assms(1) by auto
  with True assms show ?thesis
    by (auto simp: ring_start_def open_next_def ring_stop_def current_member_def finish_and_rename_def Let_def split: option.splits)
next
  case False
  with assms(1) show ?thesis
    by (auto simp: ring_start_def open_next_def Let_def split: option.splits)
qed

theorem second_start_drops_active_run_witness:
  "\<forall>idb. case ring_start (Some (2 ^ 40)) True 0 (lit ''d'', lit ''b'') None None idb [] []
       (snd (ring_start (Some (2 ^ 40)) True 0 (lit ''d'', lit ''a'') None None idb [] [] (None, \<lambda>_. None))) of
     (error, run) \<Rightarrow> error = None \<and> snd (ring_stop run) (partial_path (lit ''d'', lit ''a'')) \<noteq> None
        \<and> snd (ring_stop run) (lit ''d'', lit ''a'') = None"
proof
  fix idb
  let ?a = "(lit ''d'', lit ''a'')" and ?b = "(lit ''d'', lit ''b'')"
  obtain rs fs where first: "snd (ring_start (Some (2 ^ 40)) True 0 ?a None None idb [] [] (None, \<lambda>_. None)) = (Some rs, fs)"
    "current_member rs = ?a" "fs = [partial_path ?a \<mapsto> wr_file (writer_create idb [] [])]"
    by (simp add: ring_start_def open_next_def default_low_disk_floor_bytes_def current_member_def member_path_def Let_def)
  have names: "?b \<noteq> ?a" "partial_path ?b \<noteq> partial_path ?a" "?b \<noteq> partial_path ?a" "?a \<noteq> partial_path ?b"
    by (simp_all add: partial_path_def lit_def)
  have member: "member_path ?b None 1 = ?b" by (simp add: member_path_def)
  have "fs (partial_path (current_member rs)) = Some (wr_file (writer_create idb [] []))" using first by simp
  moreover have "member_path ?b None 1 \<noteq> partial_path (current_member rs)" "current_member rs \<noteq> partial_path (member_path ?b None 1)"
    using names first(2) member by simp_all
  ultimately have drops: "case ring_start (Some (2 ^ 40)) True 0 ?b None None idb [] [] (Some rs, fs) of
      (error, run) \<Rightarrow>
        (error = None \<longleftrightarrow> (case Some (2 ^ 40) of None \<Rightarrow> False | Some n \<Rightarrow> default_low_disk_floor_bytes \<le> n) \<and> True \<and> fs (partial_path (member_path ?b None 1)) = None)
        \<and> (member_path ?b None 1 = current_member rs \<longrightarrow> error \<noteq> None)
        \<and> (if error = None
           then snd (ring_stop run) (partial_path (current_member rs)) = Some (wr_file (writer_create idb [] []))
             \<and> snd (ring_stop run) (current_member rs) = fs (current_member rs)
           else run = (Some rs, fs))"
    by (rule second_start_drops_active_run)
  moreover have "fs (partial_path (member_path ?b None 1)) = None" unfolding member using first(3) names(2) by simp
  moreover have "case Some (2 ^ 40) of None \<Rightarrow> False | Some n \<Rightarrow> default_low_disk_floor_bytes \<le> n" by (simp add: default_low_disk_floor_bytes_def)
  moreover have "fs ?a = None" using first(3) partial_differs [of ?a] by simp
  ultimately show "case ring_start (Some (2 ^ 40)) True 0 ?b None None idb [] []
       (snd (ring_start (Some (2 ^ 40)) True 0 ?a None None idb [] [] (None, \<lambda>_. None))) of
     (error, run) \<Rightarrow> error = None \<and> snd (ring_stop run) (partial_path ?a) \<noteq> None \<and> snd (ring_stop run) ?a = None"
    unfolding first(1) by (auto simp: first(2) split: prod.splits)
qed

end
