(* ===== verification/TlsStream.thy ===== *)
theory TlsStream
  imports Prelude
begin

text \<open>
  Ordering and framing of one TLS direction (\<open>tls_stream.rs\<close>): the sliding TCP consumer, the record
  framer and their composition. The presence markers, bytes 0 and 1 in the source, are truth values.
\<close>

section \<open>The TCP consumer\<close>

definition max_tls_record_body_bytes :: nat where "max_tls_record_body_bytes = 2 ^ 14 + 256"
definition max_tls_record_wire_bytes :: nat where "max_tls_record_wire_bytes = 5 + max_tls_record_body_bytes"
definition tls_reorder_window_bytes :: nat where "tls_reorder_window_bytes = max_tls_record_wire_bytes"

definition first_data_sequence :: "u32 \<Rightarrow> bool \<Rightarrow> u32" where
  "first_data_sequence tcp_sequence syn = tcp_sequence + (if syn then 1 else 0)"

datatype tls_stream_error = ReorderWindowExceeded | ConflictingOverlap | RecordTooLarge

record tls_tcp_stream =
  tts_next_seq :: u32
  tts_bytes :: "byte rvec"
  tts_present :: "bool rvec"

definition tls_tcp_stream_new :: "u32 \<Rightarrow> tls_tcp_stream" where
  "tls_tcp_stream_new initial_seq = \<lparr>tts_next_seq = initial_seq, tts_bytes = vec_new, tts_present = vec_new\<rparr>"

text \<open>The loop over the payload: whether it got through, and the two buffers as it left them.\<close>

fun tls_write :: "nat \<Rightarrow> byte list \<Rightarrow> byte list \<Rightarrow> bool list \<Rightarrow> bool \<times> byte list \<times> bool list" where
  "tls_write slot [] buf present = (True, buf, present)"
| "tls_write slot (b # bs) buf present =
     (if present ! slot then
        (if buf ! slot \<noteq> b then (False, buf, present) else tls_write (Suc slot) bs buf present)
      else tls_write (Suc slot) bs (buf[slot := b]) (present[slot := True]))"

definition tls_drain :: "tls_tcp_stream \<Rightarrow> byte list \<times> tls_tcp_stream" where
  "tls_drain s =
     (let contiguous = length (takeWhile id (elems (tts_present s)))
      in if contiguous = 0 then ([], s)
         else (take contiguous (elems (tts_bytes s)),
               s\<lparr>tts_bytes := (tts_bytes s)\<lparr>elems := drop contiguous (elems (tts_bytes s))\<rparr>,
                 tts_present := (tts_present s)\<lparr>elems := drop contiguous (elems (tts_present s))\<rparr>,
                 tts_next_seq := tts_next_seq s + of_nat contiguous\<rparr>))"

definition tls_place :: "nat \<Rightarrow> byte list \<Rightarrow> tls_tcp_stream \<Rightarrow> (tls_stream_error + byte list) \<times> tls_tcp_stream" where
  "tls_place offset payload s =
     (case checked_add offset (length payload) of
        None \<Rightarrow> (Inl ReorderWindowExceeded, s)
      | Some last_pos \<Rightarrow>
          if last_pos > tls_reorder_window_bytes then
            (if offset = 0 \<and> elems (tts_bytes s) = []
             then (Inr payload, s\<lparr>tts_next_seq := tts_next_seq s + of_nat (length payload)\<rparr>)
             else (Inl ReorderWindowExceeded, s))
          else
            let s1 = (if last_pos > length (elems (tts_bytes s))
                      then s\<lparr>tts_bytes := vec_grow_to last_pos 0 (tts_bytes s),
                             tts_present := vec_grow_to last_pos False (tts_present s)\<rparr>
                      else s);
                (ok, buf, present) = tls_write offset payload (elems (tts_bytes s1)) (elems (tts_present s1));
                s2 = s1\<lparr>tts_bytes := (tts_bytes s1)\<lparr>elems := buf\<rparr>, tts_present := (tts_present s1)\<lparr>elems := present\<rparr>\<rparr>
            in if \<not> ok then (Inl ConflictingOverlap, s2)
               else (let (out, s3) = tls_drain s2 in (Inr out, s3)))"

definition tls_tcp_feed :: "u32 \<Rightarrow> byte list \<Rightarrow> tls_tcp_stream \<Rightarrow> (tls_stream_error + byte list) \<times> tls_tcp_stream" where
  "tls_tcp_feed seq payload s =
     (if payload = [] then (Inr [], s)
      else let relative = sint (seq - tts_next_seq s)
           in if relative < 0 then
                (let overlap = nat (- relative)
                 in if overlap \<ge> length payload then (Inr [], s) else tls_place 0 (drop overlap payload) s)
              else tls_place (nat relative) payload s)"

definition tls_tcp_bytes_held :: "tls_tcp_stream \<Rightarrow> nat" where
  "tls_tcp_bytes_held s = capacity (tts_bytes s) + capacity (tts_present s)"

definition tls_has_pending_gap :: "tls_tcp_stream \<Rightarrow> bool" where
  "tls_has_pending_gap s \<longleftrightarrow> False \<in> set (elems (tts_present s)) \<and> True \<in> set (elems (tts_present s))"

section \<open>The record framer\<close>

datatype tls_record_error = FramerRecordTooLarge

definition record_body_len :: "byte list \<Rightarrow> nat" where
  "record_body_len buf = u16_be (buf ! 3) (buf ! 4)"

text \<open>
  The loop of \<open>TlsRecordFramer::feed\<close>: the result, and the buffer it leaves. A state from which it
  would not return has no value.
\<close>

partial_function (option) framer_loop ::
  "byte rvec \<Rightarrow> byte list \<Rightarrow> byte rvec list \<Rightarrow> ((tls_record_error + byte rvec list) \<times> byte rvec) option" where
  "framer_loop buf inp records =
     (if inp = [] then Some (Inr records, buf)
      else if 5 \<le> length (elems buf) \<and> record_body_len (elems buf) > max_tls_record_body_bytes
      then Some (Inl FramerRecordTooLarge, vec_new)
      else
        let target = (if length (elems buf) < 5 then 5 else 5 + record_body_len (elems buf));
            amount = min (target - length (elems buf)) (length inp);
            buf1 = vec_extend (take amount inp) buf;
            inp1 = drop amount inp
        in if length (elems buf1) = 5 then
             (if record_body_len (elems buf1) > max_tls_record_body_bytes then Some (Inl FramerRecordTooLarge, vec_new)
              else if record_body_len (elems buf1) = 0 then framer_loop vec_new inp1 (records @ [buf1])
              else framer_loop buf1 inp1 records)
           else if length (elems buf1) = target then framer_loop vec_new inp1 (records @ [buf1])
           else framer_loop buf1 inp1 records)"

definition framer_feed :: "byte list \<Rightarrow> byte rvec \<Rightarrow> ((tls_record_error + byte rvec list) \<times> byte rvec) option" where
  "framer_feed inp buf = framer_loop buf inp []"

section \<open>One direction\<close>

record tls_direction_stream =
  tds_tcp :: tls_tcp_stream
  tds_records :: "byte rvec"

definition tls_direction_stream_new :: "u32 \<Rightarrow> tls_direction_stream" where
  "tls_direction_stream_new initial_seq = \<lparr>tds_tcp = tls_tcp_stream_new initial_seq, tds_records = vec_new\<rparr>"

definition feed_segment ::
  "u32 \<Rightarrow> byte list \<Rightarrow> tls_direction_stream \<Rightarrow> ((tls_stream_error + byte rvec list) \<times> tls_direction_stream) option" where
  "feed_segment seq payload d =
     (case tls_tcp_feed seq payload (tds_tcp d) of
        (Inl e, tcp) \<Rightarrow> Some (Inl e, d\<lparr>tds_tcp := tcp\<rparr>)
      | (Inr contiguous, tcp) \<Rightarrow>
          (case framer_feed contiguous (tds_records d) of
             None \<Rightarrow> None
           | Some (Inl _, buf) \<Rightarrow> Some (Inl RecordTooLarge, d\<lparr>tds_tcp := tcp, tds_records := buf\<rparr>)
           | Some (Inr records, buf) \<Rightarrow> Some (Inr records, d\<lparr>tds_tcp := tcp, tds_records := buf\<rparr>)))"

definition direction_bytes_held :: "tls_direction_stream \<Rightarrow> nat" where
  "direction_bytes_held d = tls_tcp_bytes_held (tds_tcp d) + capacity (tds_records d)"

section \<open>Framing is independent of the chunks\<close>

text \<open>
  The reference: a byte stream cut into complete records and an open rest, or nothing when some
  record announces more than the protocol allows.
\<close>

definition open_record :: "byte list \<Rightarrow> bool" where
  "open_record buf \<longleftrightarrow> length buf < 5 \<or>
     record_body_len buf \<le> max_tls_record_body_bytes \<and> length buf < 5 + record_body_len buf"

fun frames :: "byte list \<Rightarrow> (byte list list \<times> byte list) option" where
  "frames s =
     (if length s < 5 then Some ([], s)
      else if record_body_len s > max_tls_record_body_bytes then None
      else if length s < 5 + record_body_len s then Some ([], s)
      else map_option (apfst ((#) (take (5 + record_body_len s) s))) (frames (drop (5 + record_body_len s) s)))"

declare frames.simps [simp del]

lemma record_body_len_append [simp]: "5 \<le> length s \<Longrightarrow> record_body_len (s @ t) = record_body_len s"
  by (simp add: record_body_len_def nth_append)

lemma record_body_len_take [simp]: "5 \<le> n \<Longrightarrow> record_body_len (take n s) = record_body_len s"
  by (simp add: record_body_len_def)

lemma frames_open: "open_record s \<Longrightarrow> frames s = Some ([], s)"
  by (subst frames.simps) (auto simp: open_record_def)

lemma frames_rest_open: "frames s = Some (rs, rest) \<Longrightarrow> open_record rest"
proof (induction s arbitrary: rs rule: frames.induct)
  case (1 s)
  show ?case
    using 1(2) 1(1) by (subst (asm) frames.simps) (auto simp: open_record_def split: if_splits)
qed

lemma frames_append:
  assumes "frames s = Some (rs, rest)"
  shows "frames (s @ t) = map_option (apfst ((@) rs)) (frames (rest @ t))"
  using assms
proof (induction s arbitrary: rs rule: frames.induct)
  case (1 s)
  let ?n = "5 + record_body_len s"
  consider (whole) rs' where "5 \<le> length s" "record_body_len s \<le> max_tls_record_body_bytes" "?n \<le> length s"
      "frames (drop ?n s) = Some (rs', rest)" "rs = take ?n s # rs'"
    | (part) "rs = []" "rest = s"
    using "1.prems" by (subst (asm) frames.simps) (auto split: if_splits)
  then show ?case
  proof cases
    case whole
    then have "frames (s @ t) = map_option (apfst ((#) (take ?n s))) (frames (drop ?n s @ t))"
      by (subst frames.simps) simp
    also have "\<dots> = map_option (apfst ((#) (take ?n s))) (map_option (apfst ((@) rs')) (frames (rest @ t)))"
      using "1.IH" whole by simp
    finally show ?thesis by (simp add: option.map_comp comp_def whole(5) apfst_compose)
  next
    case part
    then show ?thesis by (simp add: apfst_def map_prod_def option.map_ident split_def)
  qed
qed

lemma frames_too_large_append: "frames s = None \<Longrightarrow> frames (s @ t) = None"
proof (induction s rule: frames.induct)
  case (1 s)
  then show ?case
    by (subst frames.simps, subst (asm) (3) frames.simps) (auto split: if_splits)
qed

definition whole_record :: "byte list \<Rightarrow> bool" where
  "whole_record r \<longleftrightarrow> 5 \<le> length r \<and> length r = 5 + record_body_len r \<and> record_body_len r \<le> max_tls_record_body_bytes"

lemma frames_concat: "\<forall>r\<in>set rs. whole_record r \<Longrightarrow> frames (concat rs @ t) = map_option (apfst ((@) rs)) (frames t)"
proof (induction rs)
  case Nil
  then show ?case by (simp add: apfst_def map_prod_def option.map_ident split_def)
next
  case (Cons r rs)
  have "frames ((r @ concat rs) @ t) = map_option (apfst ((#) r)) (frames (concat rs @ t))"
    using Cons.prems by (subst frames.simps) (simp add: whole_record_def)
  with Cons show ?case by (simp add: option.map_comp comp_def apfst_compose)
qed


definition framed :: "(byte list list \<times> byte list) option \<Rightarrow> byte rvec list \<Rightarrow>
    ((tls_record_error + byte rvec list) \<times> byte rvec) option \<Rightarrow> bool" where
  "framed spec before res \<longleftrightarrow>
     (case spec of
        None \<Rightarrow> res = Some (Inl FramerRecordTooLarge, vec_new)
      | Some (rs, rest) \<Rightarrow> \<exists>recs buf. res = Some (Inr (before @ recs), buf) \<and> map elems recs = rs \<and> elems buf = rest)"

lemma framed_map: "framed spec (before @ [v]) res \<Longrightarrow> framed (map_option (apfst ((#) (elems v))) spec) before res"
  by (cases spec) (auto simp: framed_def intro: exI [of _ "v # _"] split: prod.splits)

text \<open>One turn of the loop: it reads on in an open record, or completes one.\<close>

lemma framer_step_partial:
  assumes "open_record (elems buf)" "inp \<noteq> []"
    and "length (elems buf) + length inp < (if length (elems buf) < 5 then 5 else 5 + record_body_len (elems buf))"
  shows "framer_loop buf inp before = Some (Inr before, vec_extend inp buf)"
proof -
  have "framer_loop buf inp before = framer_loop (vec_extend inp buf) [] before"
    using assms by (subst framer_loop.simps) (auto simp: Let_def vec_simps open_record_def min_def)
  then show ?thesis by (simp add: framer_loop.simps [of "vec_extend inp buf" "[]"])
qed

lemma framer_step_header:
  assumes "length (elems buf) < 5" "5 \<le> length (elems buf) + length inp"
  defines "buf1 \<equiv> vec_extend (take (5 - length (elems buf)) inp) buf"
    and "inp1 \<equiv> drop (5 - length (elems buf)) inp"
  shows "framer_loop buf inp before =
     (if record_body_len (elems buf1) > max_tls_record_body_bytes then Some (Inl FramerRecordTooLarge, vec_new)
      else if record_body_len (elems buf1) = 0 then framer_loop vec_new inp1 (before @ [buf1])
      else framer_loop buf1 inp1 before)"
  using assms(1,2) unfolding buf1_def inp1_def
  by (subst framer_loop.simps) (auto simp: Let_def vec_simps min_def)

lemma framer_step_body:
  assumes "open_record (elems buf)" "5 \<le> length (elems buf)"
    and "5 + record_body_len (elems buf) \<le> length (elems buf) + length inp"
  defines "n \<equiv> 5 + record_body_len (elems buf) - length (elems buf)"
  shows "framer_loop buf inp before = framer_loop vec_new (drop n inp) (before @ [vec_extend (take n inp) buf])"
  using assms(1-3) unfolding n_def
  by (subst framer_loop.simps) (auto simp: Let_def vec_simps min_def open_record_def)

lemma framer_loop_frames:
  "open_record (elems buf) \<Longrightarrow> framed (frames (elems buf @ inp)) before (framer_loop buf inp before)"
proof (induction "length inp" arbitrary: buf inp before rule: less_induct)
  case less
  let ?l = "length (elems buf)" and ?s = "elems buf @ inp"
  have new: "open_record (elems (vec_new :: byte rvec))" by (simp add: open_record_def vec_simps)
  consider (idle) "inp = []"
    | (partial) "inp \<noteq> []" "?l + length inp < (if ?l < 5 then 5 else 5 + record_body_len (elems buf))"
    | (header) "?l < 5" "5 \<le> ?l + length inp"
    | (body) "5 \<le> ?l" "5 + record_body_len (elems buf) \<le> ?l + length inp"
    by (cases "?l < 5"; cases "inp = []"; force)
  then show ?case
  proof cases
    case idle
    then show ?thesis using less.prems by (simp add: frames_open framer_loop.simps framed_def)
  next
    case partial
    then have "open_record ?s" using less.prems by (auto simp: open_record_def split: if_splits)
    then show ?thesis
      using framer_step_partial [OF less.prems partial] by (simp add: frames_open framed_def vec_simps)
  next
    case body
    define n where "n = 5 + record_body_len (elems buf) - ?l"
    have n: "n \<le> length inp" "0 < n" "5 + record_body_len (elems buf) = ?l + n"
      using body less.prems by (auto simp: n_def open_record_def)
    have "frames ?s = map_option (apfst ((#) (elems buf @ take n inp))) (frames (drop n inp))"
      using body n less.prems by (subst frames.simps) (auto simp: open_record_def)
    moreover have "framed (frames (elems (vec_new :: byte rvec) @ drop n inp)) (before @ [vec_extend (take n inp) buf])
        (framer_loop vec_new (drop n inp) (before @ [vec_extend (take n inp) buf]))"
      using n by (intro less.hyps new) simp
    ultimately show ?thesis
      using framer_step_body [OF less.prems body, folded n_def]
        framed_map [of "frames (drop n inp)" before "vec_extend (take n inp) buf"] by (simp add: vec_simps)
  next
    case header
    define n where "n = 5 - ?l"
    have n: "n \<le> length inp" "0 < n" "?l + n = 5" using header by (auto simp: n_def)
    let ?h = "elems buf @ take n inp"
    have h: "elems (vec_extend (take n inp) buf) = ?h" "length ?h = 5" using n by (simp_all add: vec_simps)
    have s: "?s = ?h @ drop n inp" by simp
    then have blen: "record_body_len ?s = record_body_len ?h"
      using h(2) by (metis record_body_len_append order_refl)
    note step = framer_step_header [OF header, folded n_def, unfolded h(1)]
    consider "record_body_len ?h > max_tls_record_body_bytes" | "record_body_len ?h = 0"
      | "0 < record_body_len ?h" "record_body_len ?h \<le> max_tls_record_body_bytes" by linarith
    then show ?thesis
    proof cases
      case 1
      then have "frames ?s = None" using n by (subst frames.simps) (simp only: blen, simp)
      with 1 show ?thesis by (simp add: step framed_def)
    next
      case 2
      then have "frames ?s = map_option (apfst ((#) ?h)) (frames (drop n inp))"
        using n by (subst frames.simps) (simp only: blen, simp flip: n_def)
      moreover have "framed (frames (elems (vec_new :: byte rvec) @ drop n inp)) (before @ [vec_extend (take n inp) buf])
          (framer_loop vec_new (drop n inp) (before @ [vec_extend (take n inp) buf]))"
        using n by (intro less.hyps new) simp
      ultimately show ?thesis
        using 2 framed_map [of "frames (drop n inp)" before "vec_extend (take n inp) buf"] by (simp add: step vec_simps h(1))
    next
      case 3
      then have "framed (frames (?h @ drop n inp)) before (framer_loop (vec_extend (take n inp) buf) (drop n inp) before)"
        using less.hyps [of "drop n inp" "vec_extend (take n inp) buf" before] n h by (simp add: open_record_def)
      with 3 show ?thesis by (simp add: step)
    qed
  qed
qed


section \<open>Writing agrees with the stream\<close>

lemma tls_write_agrees:
  assumes "\<forall>i<length data. present ! (slot + i) \<longrightarrow> buf ! (slot + i) = data ! i"
    and "slot + length data \<le> length buf" "length present = length buf"
  obtains buf' present' where "tls_write slot data buf present = (True, buf', present')"
    "length buf' = length buf" "length present' = length buf"
    "\<forall>j<length buf. present' ! j = (present ! j \<or> slot \<le> j \<and> j < slot + length data)"
    "\<forall>j<length buf. buf' ! j = (if slot \<le> j \<and> j < slot + length data then data ! (j - slot) else buf ! j)"
  using assms
proof (induction data arbitrary: slot buf present thesis)
  case (Cons b data)
  define buf1 where "buf1 = (if present ! slot then buf else buf[slot := b])"
  define present1 where "present1 = (if present ! slot then present else present[slot := True])"
  have here: "present ! slot \<longrightarrow> buf ! slot = b" using Cons.prems(2) by force
  have slot: "slot < length buf" using Cons.prems(3) by simp
  have step: "tls_write slot (b # data) buf present = tls_write (Suc slot) data buf1 present1"
    using here by (simp add: buf1_def present1_def)
  have one: "present1 ! j = (present ! j \<or> j = slot)" "buf1 ! j = (if j = slot then b else buf ! j)" for j
    using here slot Cons.prems(4) by (cases "j = slot"; simp add: present1_def buf1_def)+
  have len: "length buf1 = length buf" "length present1 = length buf" using Cons.prems(4) by (simp_all add: buf1_def present1_def)
  have agree: "\<forall>i<length data. present1 ! (Suc slot + i) \<longrightarrow> buf1 ! (Suc slot + i) = data ! i"
    using Cons.prems(2) by (force simp: one)
  have fits: "Suc slot + length data \<le> length buf1" "length present1 = length buf1"
    using Cons.prems(3) by (simp_all add: len)
  obtain buf' present' where rest: "tls_write (Suc slot) data buf1 present1 = (True, buf', present')"
    "length buf' = length buf1" "length present' = length buf1"
    "\<forall>j<length buf1. present' ! j = (present1 ! j \<or> Suc slot \<le> j \<and> j < Suc slot + length data)"
    "\<forall>j<length buf1. buf' ! j = (if Suc slot \<le> j \<and> j < Suc slot + length data then data ! (j - Suc slot) else buf1 ! j)"
    using Cons.IH [OF _ agree fits] by blast
  show ?case
  proof (rule Cons.prems(1))
    show "tls_write slot (b # data) buf present = (True, buf', present')" by (simp only: step rest(1))
  next
    show "\<forall>j<length buf. present' ! j = (present ! j \<or> slot \<le> j \<and> j < slot + length (b # data))"
      using rest(4) by (auto simp: len one)
    have "buf' ! j = (if slot \<le> j \<and> j < slot + length (b # data) then (b # data) ! (j - slot) else buf ! j)" if j: "j < length buf" for j
    proof (cases "slot < j")
      case True
      then have "(b # data) ! (j - slot) = data ! (j - Suc slot)" by (simp add: nth_Cons')
      with True show ?thesis using rest(5) j by (auto simp: len one)
    qed (use rest(5) j in \<open>auto simp: len one\<close>)
    then show "\<forall>j<length buf. buf' ! j = (if slot \<le> j \<and> j < slot + length (b # data) then (b # data) ! (j - slot) else buf ! j)"
      by blast
  qed (simp_all add: rest len)
next
  case Nil
  show ?case by (rule Nil.prems(1)) (use Nil.prems in auto)
qed

text \<open>
  The consumer of a stream \<open>M\<close> whose first byte has sequence number \<open>isn\<close>, with \<open>n\<close> bytes delivered:
  what is buffered is what the stream has there, and the next byte is missing.
\<close>

definition agrees :: "u32 \<Rightarrow> byte list \<Rightarrow> nat \<Rightarrow> tls_tcp_stream \<Rightarrow> bool" where
  "agrees isn M n s \<longleftrightarrow>
     tts_next_seq s = isn + of_nat n \<and>
     length (elems (tts_bytes s)) = length (elems (tts_present s)) \<and>
     n + length (elems (tts_present s)) \<le> length M \<and>
     (\<forall>j<length (elems (tts_present s)). elems (tts_present s) ! j \<longrightarrow> elems (tts_bytes s) ! j = M ! (n + j))"

definition follows :: "u32 \<Rightarrow> byte list \<Rightarrow> nat \<Rightarrow> tls_tcp_stream \<Rightarrow> bool" where
  "follows isn M n s \<longleftrightarrow> agrees isn M n s \<and> (elems (tts_present s) \<noteq> [] \<longrightarrow> \<not> elems (tts_present s) ! 0)"

text \<open>The positions of the stream the consumer has.\<close>

definition received :: "nat \<Rightarrow> tls_tcp_stream \<Rightarrow> nat set" where
  "received n s = {..<n} \<union> {n + j | j. j < length (elems (tts_present s)) \<and> elems (tts_present s) ! j}"

lemma follows_new: "follows isn M 0 (tls_tcp_stream_new isn)"
  by (simp add: follows_def agrees_def tls_tcp_stream_new_def vec_simps)

lemma received_new [simp]: "received 0 (tls_tcp_stream_new isn) = {}"
  by (simp add: received_def tls_tcp_stream_new_def vec_simps)

lemma received_iff:
  "k \<in> received n s \<longleftrightarrow>
     k < n \<or> n \<le> k \<and> k - n < length (elems (tts_present s)) \<and> elems (tts_present s) ! (k - n)"
  by (auto simp: received_def intro: exI [of _ "k - n"])

text \<open>A feed hands on the next bytes of the stream and adds the segment's positions.\<close>

definition advances ::
  "u32 \<Rightarrow> byte list \<Rightarrow> nat \<Rightarrow> tls_tcp_stream \<Rightarrow> nat set \<Rightarrow> (tls_stream_error + byte list) \<times> tls_tcp_stream \<Rightarrow> bool" where
  "advances isn M n s A res \<longleftrightarrow>
     (\<exists>n' s'. n \<le> n' \<and> res = (Inr (take (n' - n) (drop n M)), s') \<and> follows isn M n' s' \<and> received n' s' = received n s \<union> A)"

lemma tls_drain_advances:
  assumes "agrees isn M n s"
  shows "advances isn M n s {} (let (out, s') = tls_drain s in (Inr out, s'))"
proof -
  define P where "P = elems (tts_present s)"
  define c where "c = length (takeWhile id P)"
  have c: "c \<le> length P" "\<And>j. j < c \<Longrightarrow> P ! j" "c < length P \<Longrightarrow> \<not> P ! c"
    unfolding c_def using length_takeWhile_le [of id P] nth_length_takeWhile [of id P]
    by (auto, metis id_apply nth_mem set_takeWhileD takeWhile_nth)
  have out: "take c (elems (tts_bytes s)) = take c (drop n M)"
    using assms c by (intro nth_equalityI) (auto simp: agrees_def P_def)
  define s' where "s' = snd (tls_drain s)"
  have drain: "tls_drain s = (take c (drop n M), s')"
    by (simp add: s'_def tls_drain_def Let_def out flip: c_def P_def)
  have s': "tts_next_seq s' = tts_next_seq s + of_nat c" "elems (tts_bytes s') = drop c (elems (tts_bytes s))"
    "elems (tts_present s') = drop c P"
    by (simp_all add: s'_def tls_drain_def Let_def flip: c_def P_def)
  have "follows isn M (n + c) s'"
    using assms c by (auto simp: follows_def agrees_def s' add.assoc simp flip: P_def)
  moreover have "received (n + c) s' = received n s"
  proof (rule set_eqI)
    fix k
    have "n + c \<le> k \<Longrightarrow> c + (k - (n + c)) = k - n" by simp
    moreover have "n \<le> k \<Longrightarrow> k < n + c \<Longrightarrow> k - n < length P \<and> P ! (k - n)" using c(1) c(2) [of "k - n"] by auto
    ultimately show "k \<in> received (n + c) s' \<longleftrightarrow> k \<in> received n s"
      using c(1) by (auto simp: received_iff s' simp flip: P_def)
  qed
  ultimately show ?thesis unfolding advances_def by (intro exI [of _ "n + c"] exI [of _ s']) (simp add: drain)
qed


lemma advances_same:
  assumes "follows isn M n s" "A \<subseteq> received n s"
  shows "advances isn M n s A (Inr [], s)"
  using assms unfolding advances_def by (intro exI [of _ n] exI [of _ s]) auto

lemma advances_cong: "received n s1 = received n s \<union> B \<Longrightarrow> A = B \<union> C \<Longrightarrow> advances isn M n s1 C res \<Longrightarrow> advances isn M n s A res"
  unfolding advances_def by auto

lemma tls_place_advances:
  assumes "follows isn M n s" "n + offset + len \<le> length M" "0 < len" "length M < 2 ^ 31"
  defines "res \<equiv> tls_place offset (take len (drop (n + offset) M)) s"
  shows "res = (Inl ReorderWindowExceeded, s) \<and> tls_reorder_window_bytes < offset + len \<or>
    advances isn M n s {n + offset..<n + offset + len} res"
proof -
  let ?data = "take len (drop (n + offset) M)"
  have data: "length ?data = len" using assms(2) by simp
  have sum: "checked_add offset (length ?data) = Some (offset + len)"
    unfolding data using assms(2,4) by (intro checked_add_Some) (simp add: usize_max_def)
  consider (far) "offset + len > tls_reorder_window_bytes" "\<not> (offset = 0 \<and> elems (tts_bytes s) = [])"
    | (direct) "offset + len > tls_reorder_window_bytes" "offset = 0" "elems (tts_bytes s) = []"
    | (near) "offset + len \<le> tls_reorder_window_bytes" by linarith
  then show ?thesis
  proof cases
    case far
    then have "res = (Inl ReorderWindowExceeded, s)"
      unfolding res_def tls_place_def sum using data by simp
    with far(1) show ?thesis by blast
  next
    case direct
    then have "res = (Inr (take len (drop n M)), s\<lparr>tts_next_seq := tts_next_seq s + of_nat len\<rparr>)"
      unfolding res_def tls_place_def sum using data by simp
    moreover have "follows isn M (n + len) (s\<lparr>tts_next_seq := tts_next_seq s + of_nat len\<rparr>)"
      using assms(1,2) direct by (auto simp: follows_def agrees_def)
    moreover have "received (n + len) (s\<lparr>tts_next_seq := tts_next_seq s + of_nat len\<rparr>) = received n s \<union> {n..<n + len}"
      using assms(1) direct by (auto simp: received_iff follows_def agrees_def)
    ultimately show ?thesis
      using direct(2) unfolding advances_def
      by (intro disjI2 exI [of _ "n + len"] exI [of _ "s\<lparr>tts_next_seq := tts_next_seq s + of_nat len\<rparr>"]) simp
  next
    case near
    define s1 where "s1 = (if offset + len > length (elems (tts_bytes s))
      then s\<lparr>tts_bytes := vec_grow_to (offset + len) 0 (tts_bytes s),
             tts_present := vec_grow_to (offset + len) False (tts_present s)\<rparr> else s)"
    let ?B = "elems (tts_bytes s1)" and ?P = "elems (tts_present s1)"
    have ag: "agrees isn M n s1" "received n s1 = received n s" "offset + len \<le> length ?B"
      using assms(1,2) by (auto simp: s1_def agrees_def follows_def vec_simps nth_append received_iff set_eq_iff)
    have fits: "offset + length ?data \<le> length ?B" "length ?P = length ?B"
      using ag unfolding data by (auto simp: agrees_def)
    have keep: "\<forall>i<length ?data. ?P ! (offset + i) \<longrightarrow> ?B ! (offset + i) = ?data ! i"
      using ag(1) fits assms(2) by (auto simp: agrees_def add.assoc)
    obtain buf' present' where w: "tls_write offset ?data ?B ?P = (True, buf', present')"
      "length buf' = length ?B" "length present' = length ?B"
      "\<forall>j<length ?B. present' ! j = (?P ! j \<or> offset \<le> j \<and> j < offset + length ?data)"
      "\<forall>j<length ?B. buf' ! j = (if offset \<le> j \<and> j < offset + length ?data then ?data ! (j - offset) else ?B ! j)"
      using tls_write_agrees [OF keep fits] by blast
    define s2 where "s2 = s1\<lparr>tts_bytes := (tts_bytes s1)\<lparr>elems := buf'\<rparr>, tts_present := (tts_present s1)\<lparr>elems := present'\<rparr>\<rparr>"
    have "agrees isn M n s2"
      using ag(1) w(2-) assms(2) by (auto simp: s2_def agrees_def)
    from tls_drain_advances [OF this]
    have "advances isn M n s2 {} res"
      unfolding res_def tls_place_def sum using near w(1)
      by (simp add: Let_def split_def s2_def flip: s1_def)
    moreover have "received n s2 = received n s \<union> {n + offset..<n + offset + len}"
      using w(2-4) ag(3) unfolding ag(2) [symmetric] data
      by (auto simp: set_eq_iff received_iff s2_def fits)
    ultimately show ?thesis using advances_cong [of n s2 s _ _ "{}"] by blast
  qed
qed


lemma tls_tcp_feed_advances:
  assumes "follows isn M n s" "off + len \<le> length M" "length M < 2 ^ 31"
  defines "res \<equiv> tls_tcp_feed (isn + of_nat off) (take len (drop off M)) s"
  shows "res = (Inl ReorderWindowExceeded, s) \<and> n + tls_reorder_window_bytes < off + len \<or>
    advances isn M n s {off..<off + len} res"
proof -
  let ?data = "take len (drop off M)"
  have data: "length ?data = len" "?data = [] \<longleftrightarrow> len = 0" using assms(2) by auto
  have "n \<le> length M" "tts_next_seq s = isn + of_nat n" using assms(1) by (auto simp: follows_def agrees_def)
  then have rel: "sint (isn + of_nat off - tts_next_seq s) = int off - int n"
    using assms(2,3) sint_small_diff [of off n] by simp
  consider (none) "len = 0" | (old) "0 < len" "off + len \<le> n" | (overlap) "off < n" "n < off + len" | (new) "0 < len" "n \<le> off"
    by linarith
  then show ?thesis
  proof cases
    case none
    then show ?thesis
      using advances_same [OF assms(1), of "{}"] by (simp add: res_def tls_tcp_feed_def)
  next
    case old
    then have "len \<le> nat (int n - int off)" by simp
    then have "res = (Inr [], s)" unfolding res_def tls_tcp_feed_def rel using data old by (simp add: Let_def)
    moreover have "{off..<off + len} \<subseteq> received n s" using old by (auto simp: received_def)
    ultimately show ?thesis using advances_same [OF assms(1)] by simp
  next
    case overlap
    then have skip: "len - (n - off) = off + len - n" "\<not> len \<le> n - off" by simp_all
    from overlap have "res = tls_place 0 (take (off + len - n) (drop (n + 0) M)) s"
      unfolding res_def tls_tcp_feed_def rel using data skip by (simp add: Let_def drop_take nat_diff_distrib)
    moreover have "n + 0 + (off + len - n) \<le> length M" "0 < off + len - n" using overlap assms(2) by simp_all
    note tls_place_advances [OF assms(1) this assms(3)]
    moreover have "n + (off + len - n) = off + len" using overlap by simp
    moreover have "advances isn M n s {off..<off + len} res" if "advances isn M n s {n..<off + len} res"
    proof -
      have "received n s \<union> {off..<off + len} = received n s \<union> {n..<off + len}"
        using overlap by (auto simp: received_def)
      with that show ?thesis by (simp add: advances_def)
    qed
    ultimately show ?thesis by auto
  next
    case new
    then have "res = tls_place (off - n) (take len (drop (n + (off - n)) M)) s"
      unfolding res_def tls_tcp_feed_def rel using data by (simp add: nat_diff_distrib)
    then show ?thesis
      using tls_place_advances [OF assms(1), of "off - n" len] new assms(2,3) by auto
  qed
qed

section \<open>Records out of segments in any order\<close>

text \<open>Feeding a list of segments, each given by its sequence number and payload; the results in order.\<close>

fun feed_segments ::
  "(u32 \<times> byte list) list \<Rightarrow> tls_direction_stream \<Rightarrow> ((tls_stream_error + byte rvec list) list \<times> tls_direction_stream) option" where
  "feed_segments [] d = Some ([], d)"
| "feed_segments ((seq, payload) # segs) d =
     (case feed_segment seq payload d of
        None \<Rightarrow> None
      | Some (r, d1) \<Rightarrow> map_option (apfst ((#) r)) (feed_segments segs d1))"

text \<open>The bytes of the records the feeds returned.\<close>

fun records_of :: "(tls_stream_error + byte rvec list) list \<Rightarrow> byte list list" where
  "records_of [] = []"
| "records_of (Inl e # rs) = records_of rs"
| "records_of (Inr xs # rs) = map elems xs @ records_of rs"

text \<open>The direction after \<open>n\<close> delivered bytes of a stream whose records so far are \<open>rs\<close>.\<close>

definition dir_follows :: "u32 \<Rightarrow> byte list \<Rightarrow> nat \<Rightarrow> byte list list \<Rightarrow> tls_direction_stream \<Rightarrow> bool" where
  "dir_follows isn M n rs d \<longleftrightarrow>
     follows isn M n (tds_tcp d) \<and> frames (take n M) = Some (rs, elems (tds_records d))"

lemma feed_segment_follows:
  assumes "dir_follows isn M n rs d" "off + len \<le> length M" "length M < 2 ^ 31" "frames M \<noteq> None"
  obtains "feed_segment (isn + of_nat off) (take len (drop off M)) d = Some (Inl ReorderWindowExceeded, d)"
      "n + tls_reorder_window_bytes < off + len"
  | n' recs d' where "feed_segment (isn + of_nat off) (take len (drop off M)) d = Some (Inr recs, d')"
      "dir_follows isn M n' (rs @ map elems recs) d'" "received n' (tds_tcp d') = received n (tds_tcp d) \<union> {off..<off + len}"
proof -
  let ?res = "tls_tcp_feed (isn + of_nat off) (take len (drop off M)) (tds_tcp d)"
  have f: "follows isn M n (tds_tcp d)" and fr: "frames (take n M) = Some (rs, elems (tds_records d))"
    using assms(1) by (simp_all add: dir_follows_def)
  from tls_tcp_feed_advances [OF f assms(2,3)] consider "?res = (Inl ReorderWindowExceeded, tds_tcp d)" "n + tls_reorder_window_bytes < off + len"
    | n' s' where "n \<le> n'" "?res = (Inr (take (n' - n) (drop n M)), s')" "follows isn M n' s'"
      "received n' s' = received n (tds_tcp d) \<union> {off..<off + len}"
    unfolding advances_def by blast
  then show thesis
  proof cases
    case 1
    then show thesis using that(1) by (simp add: feed_segment_def)
  next
    case 2
    let ?out = "take (n' - n) (drop n M)"
    have cat: "take n' M = take n M @ ?out" using 2(1) by (metis le_add_diff_inverse take_add)
    have "frames (take n' M) \<noteq> None"
      using assms(4) frames_too_large_append [of "take n' M" "drop n' M"] append_take_drop_id [of n' M] by metis
    then obtain rs' rest where rs': "frames (elems (tds_records d) @ ?out) = Some (rs', rest)"
      "frames (take n' M) = Some (rs @ rs', rest)"
      unfolding cat frames_append [OF fr] by auto
    obtain recs buf where "framer_feed ?out (tds_records d) = Some (Inr recs, buf)" "map elems recs = rs'" "elems buf = rest"
      using framer_loop_frames [OF frames_rest_open [OF fr], of ?out "[]"] rs'(1)
      by (auto simp: framed_def framer_feed_def)
    then show thesis
      using 2 rs'(2) by (intro that(2) [of recs "d\<lparr>tds_tcp := s', tds_records := buf\<rparr>" n'])
        (simp_all add: feed_segment_def dir_follows_def)
  qed
qed


definition segment_of :: "u32 \<Rightarrow> byte list \<Rightarrow> nat \<times> nat \<Rightarrow> u32 \<times> byte list" where
  "segment_of isn M = (\<lambda>(off, len). (isn + of_nat off, take len (drop off M)))"

lemma feed_segments_follow:
  assumes "dir_follows isn M n rs d" "\<forall>(off, len)\<in>set cuts. off + len \<le> length M" "length M < 2 ^ 31" "frames M \<noteq> None"
  shows "\<exists>results n' d'. feed_segments (map (segment_of isn M) cuts) d = Some (results, d') \<and>
    dir_follows isn M n' (rs @ records_of results) d' \<and> set results \<subseteq> {Inl ReorderWindowExceeded} \<union> range Inr \<and>
    (length M \<le> tls_reorder_window_bytes \<longrightarrow> Inl ReorderWindowExceeded \<notin> set results) \<and>
    (Inl ReorderWindowExceeded \<notin> set results \<longrightarrow>
       received n' (tds_tcp d') = received n (tds_tcp d) \<union> (\<Union>(off, len)\<in>set cuts. {off..<off + len}))"
  using assms
proof (induction cuts arbitrary: n rs d)
  case Nil
  then show ?case by auto
next
  case (Cons c cuts)
  obtain off len where c: "c = (off, len)" by force
  have fits: "off + len \<le> length M" "\<forall>(off, len)\<in>set cuts. off + len \<le> length M" using Cons.prems(2) by (auto simp: c)
  show ?case
  proof (rule feed_segment_follows [OF Cons.prems(1) fits(1) Cons.prems(3,4)])
    assume "feed_segment (isn + of_nat off) (take len (drop off M)) d = Some (Inl ReorderWindowExceeded, d)"
      "n + tls_reorder_window_bytes < off + len"
    then show ?thesis
      using Cons.IH [OF Cons.prems(1) fits(2) Cons.prems(3,4)] fits(1) by (fastforce simp: c segment_of_def)
  next
    fix n1 rs1 d1
    assume s: "feed_segment (isn + of_nat off) (take len (drop off M)) d = Some (Inr rs1, d1)"
      "dir_follows isn M n1 (rs @ map elems rs1) d1" "received n1 (tds_tcp d1) = received n (tds_tcp d) \<union> {off..<off + len}"
    obtain results n' d' where r: "feed_segments (map (segment_of isn M) cuts) d1 = Some (results, d')"
      "dir_follows isn M n' ((rs @ map elems rs1) @ records_of results) d'" "set results \<subseteq> {Inl ReorderWindowExceeded} \<union> range Inr"
      "length M \<le> tls_reorder_window_bytes \<longrightarrow> Inl ReorderWindowExceeded \<notin> set results"
      "Inl ReorderWindowExceeded \<notin> set results \<longrightarrow>
         received n' (tds_tcp d') = received n1 (tds_tcp d1) \<union> (\<Union>(off, len)\<in>set cuts. {off..<off + len})"
      using Cons.IH [OF s(2) fits(2) Cons.prems(3,4)] by (elim exE conjE) (rule that)
    show ?thesis
      using r s(1,3) by (intro exI [of _ "Inr rs1 # results"] exI [of _ n'] exI [of _ d']) (auto simp: c segment_of_def)
  qed
qed

lemma frames_whole: "\<forall>r\<in>set rs. whole_record r \<Longrightarrow> frames (concat rs) = Some (rs, [])"
  using frames_concat [of rs "[]"] by (simp add: frames_open open_record_def)

lemma follows_complete:
  assumes "follows isn M n s" "{..<length M} \<subseteq> received n s"
  shows "n = length M"
proof (rule ccontr)
  assume "n \<noteq> length M"
  then have "n < length M" using assms(1) by (auto simp: follows_def agrees_def)
  then have "n \<in> received n s" using assms(2) by auto
  then show False using assms(1) by (auto simp: received_iff follows_def)
qed

lemma frames_prefix:
  assumes "frames (s @ t) = Some (rs, rest)" "frames s = Some (rs1, rest1)"
  shows "\<exists>rs2. rs = rs1 @ rs2"
  using assms(1) frames_append [OF assms(2), of t] by auto

text \<open>
  C6: Cut a stream of well-formed TLS records anywhere, and feed the pieces in any order, with
  repetitions and overlaps. Feeding always returns; the only possible refusal is that a piece lies
  beyond the reorder window, which cannot happen to a stream no longer than the window; the records emitted are a prefix of the records sent; and when no piece
  was refused and the pieces cover the stream, exactly the records sent come out, in order. Sequence
  numbers may wrap.
\<close>
theorem tls_records_in_any_order:
  assumes "\<forall>r\<in>set rs. whole_record r" "length (concat rs) < 2 ^ 31"
    and "\<forall>(off, len)\<in>set cuts. off + len \<le> length (concat rs)"
  shows "\<exists>results d. feed_segments (map (segment_of isn (concat rs)) cuts) (tls_direction_stream_new isn) = Some (results, d) \<and>
    (\<forall>r\<in>set results. r = Inl ReorderWindowExceeded \<or> r \<in> range Inr) \<and>
    (\<exists>later. rs = records_of results @ later) \<and>
    (length (concat rs) \<le> tls_reorder_window_bytes \<longrightarrow> Inl ReorderWindowExceeded \<notin> set results) \<and>
    (Inl ReorderWindowExceeded \<notin> set results \<and> {..<length (concat rs)} \<subseteq> (\<Union>(off, len)\<in>set cuts. {off..<off + len})
      \<longrightarrow> records_of results = rs)"
proof -
  let ?M = "concat rs"
  have fr: "frames ?M = Some (rs, [])" by (rule frames_whole [OF assms(1)])
  have "dir_follows isn ?M 0 [] (tls_direction_stream_new isn)"
    by (simp add: dir_follows_def tls_direction_stream_new_def follows_new frames_open open_record_def vec_simps)
  from feed_segments_follow [OF this assms(3,2)] fr obtain results n d where
    run: "feed_segments (map (segment_of isn ?M) cuts) (tls_direction_stream_new isn) = Some (results, d)"
    and inv: "dir_follows isn ?M n (records_of results) d" and kinds: "set results \<subseteq> {Inl ReorderWindowExceeded} \<union> range Inr"
    and small: "length ?M \<le> tls_reorder_window_bytes \<longrightarrow> Inl ReorderWindowExceeded \<notin> set results"
    and cover: "Inl ReorderWindowExceeded \<notin> set results \<longrightarrow>
       received n (tds_tcp d) = received 0 (tds_tcp (tls_direction_stream_new isn)) \<union> (\<Union>(off, len)\<in>set cuts. {off..<off + len})"
    by auto
  have got: "frames (take n ?M) = Some (records_of results, elems (tds_records d))" "follows isn ?M n (tds_tcp d)"
    using inv by (simp_all add: dir_follows_def)
  have "\<exists>later. rs = records_of results @ later"
    using frames_prefix [of "take n ?M" "drop n ?M"] fr got(1) by simp
  moreover have "records_of results = rs"
    if "Inl ReorderWindowExceeded \<notin> set results \<and> {..<length ?M} \<subseteq> (\<Union>(off, len)\<in>set cuts. {off..<off + len})"
  proof -
    have "{..<length ?M} \<subseteq> received n (tds_tcp d)"
      using cover that by (auto simp: tls_direction_stream_new_def)
    then have "n = length ?M" by (rule follows_complete [OF got(2)])
    then show ?thesis using got(1) fr by simp
  qed
  ultimately show ?thesis using run kinds small by blast
qed


theorem tls_records_in_any_order_witness:
  "\<exists>results d. feed_segments (map (segment_of 4294967294 (concat [[22, 3, 3, 0, 2, 1, 2], [23, 3, 3, 0, 0]])) [(7, 5), (3, 4), (0, 5)])
      (tls_direction_stream_new 4294967294) = Some (results, d) \<and>
    (\<forall>r\<in>set results. r = Inl ReorderWindowExceeded \<or> r \<in> range Inr) \<and>
    records_of results = [[22, 3, 3, 0, 2, 1, 2], [23, 3, 3, 0, 0]]"
proof -
  define rs where "rs = [[22, 3, 3, 0, 2, 1, 2], [23, 3, 3, 0, 0 :: byte]]"
  define cuts :: "(nat \<times> nat) list" where "cuts = [(7, 5), (3, 4), (0, 5)]"
  have hyps: "\<forall>r\<in>set rs. whole_record r" "length (concat rs) < 2 ^ 31" "\<forall>(off, len)\<in>set cuts. off + len \<le> length (concat rs)"
    by (simp_all add: rs_def cuts_def whole_record_def record_body_len_def u16_be_def max_tls_record_body_bytes_def)
  have cover: "{..<length (concat rs)} \<subseteq> (\<Union>(off, len)\<in>set cuts. {off..<off + len})" by (auto simp: rs_def cuts_def)
  have small: "length (concat rs) \<le> tls_reorder_window_bytes"
    by (simp add: rs_def tls_reorder_window_bytes_def max_tls_record_wire_bytes_def max_tls_record_body_bytes_def)
  from tls_records_in_any_order [OF hyps, of 4294967294] obtain results d where
    res: "feed_segments (map (segment_of 4294967294 (concat rs)) cuts) (tls_direction_stream_new 4294967294) = Some (results, d)"
      "\<forall>r\<in>set results. r = Inl ReorderWindowExceeded \<or> r \<in> range Inr"
      "length (concat rs) \<le> tls_reorder_window_bytes \<longrightarrow> Inl ReorderWindowExceeded \<notin> set results"
      "Inl ReorderWindowExceeded \<notin> set results \<and> {..<length (concat rs)} \<subseteq> (\<Union>(off, len)\<in>set cuts. {off..<off + len})
        \<longrightarrow> records_of results = rs" by blast
  have "Inl ReorderWindowExceeded \<notin> set results" using res(3) small by blast
  then have "records_of results = rs" using res(4) cover by blast
  then show ?thesis using res(1,2) unfolding rs_def cuts_def by blast
qed

section \<open>Memory\<close>

definition tcp_ok :: "tls_tcp_stream \<Rightarrow> bool" where
  "tcp_ok s \<longleftrightarrow> vec_ok tls_reorder_window_bytes (tts_bytes s) \<and> vec_ok tls_reorder_window_bytes (tts_present s) \<and>
     length (elems (tts_bytes s)) = length (elems (tts_present s))"

lemma tls_write_length:
  "tls_write slot data buf present = (ok, buf', present') \<Longrightarrow> length buf' = length buf \<and> length present' = length present"
  by (induction data arbitrary: slot buf present) (auto split: if_splits)

lemma vec_ok_shrink: "vec_ok m v \<Longrightarrow> length xs \<le> length (elems v) \<Longrightarrow> vec_ok m (v\<lparr>elems := xs\<rparr>)"
  by (auto simp: vec_ok_def)

lemma tls_drain_ok: "tcp_ok s \<Longrightarrow> tcp_ok (snd (tls_drain s))"
  by (auto simp: tls_drain_def tcp_ok_def Let_def intro!: vec_ok_shrink)

lemma tls_place_ok: "tcp_ok s \<Longrightarrow> tcp_ok (snd (tls_place offset payload s))"
proof -
  assume ok: "tcp_ok s"
  define s1 where "s1 n = (if n > length (elems (tts_bytes s))
      then s\<lparr>tts_bytes := vec_grow_to n 0 (tts_bytes s), tts_present := vec_grow_to n False (tts_present s)\<rparr> else s)" for n
  have s1: "tcp_ok (s1 n)" if "n \<le> tls_reorder_window_bytes" for n
    using ok that by (auto simp: s1_def tcp_ok_def vec_simps intro!: vec_ok_grow_to)
  have "tcp_ok (s1 n\<lparr>tts_bytes := (tts_bytes (s1 n))\<lparr>elems := buf\<rparr>, tts_present := (tts_present (s1 n))\<lparr>elems := present\<rparr>\<rparr>)"
    if "n \<le> tls_reorder_window_bytes" "tls_write offset payload (elems (tts_bytes (s1 n))) (elems (tts_present (s1 n))) = (b, buf, present)"
    for n b buf present
    using s1 [OF that(1)] tls_write_length [OF that(2)] by (auto simp: tcp_ok_def intro!: vec_ok_shrink)
  note written = this
  consider (far) "tts_bytes (snd (tls_place offset payload s)) = tts_bytes s" "tts_present (snd (tls_place offset payload s)) = tts_present s"
    | (near) n where "checked_add offset (length payload) = Some n" "n \<le> tls_reorder_window_bytes"
  proof (cases "checked_add offset (length payload)")
    case (Some n)
    then show thesis using that by (cases "n \<le> tls_reorder_window_bytes") (simp_all add: tls_place_def)
  qed (use that(1) in \<open>simp add: tls_place_def\<close>)
  then show ?thesis
  proof cases
    case far
    then show ?thesis using ok by (simp add: tcp_ok_def)
  next
    case near
    obtain b buf present where w: "tls_write offset payload (elems (tts_bytes (s1 n))) (elems (tts_present (s1 n))) = (b, buf, present)"
      using prod_cases3 by blast
    show ?thesis
      using written [OF near(2) w] tls_drain_ok [OF written [OF near(2) w]] near w
      by (simp add: tls_place_def Let_def split_def flip: s1_def)
  qed
qed

lemma tls_tcp_feed_ok: "tcp_ok s \<Longrightarrow> tcp_ok (snd (tls_tcp_feed seq payload s))"
  by (simp add: tls_tcp_feed_def Let_def tls_place_ok)


definition framer_ok :: "byte rvec \<Rightarrow> bool" where
  "framer_ok buf \<longleftrightarrow> open_record (elems buf) \<and> vec_ok max_tls_record_wire_bytes buf"

lemma framer_ok_new [simp]: "framer_ok vec_new"
  by (simp add: framer_ok_def open_record_def vec_simps)

lemma vec_ok_extend: "vec_ok m v \<Longrightarrow> length (elems v) + length ys \<le> m \<Longrightarrow> vec_ok m (vec_extend ys v)"
  using capacity_reserve_bounds [of m v "length ys"] by (simp add: vec_ok_def vec_extend_def)

lemma framer_ok_extend:
  "framer_ok buf \<Longrightarrow> open_record (elems buf @ ys) \<Longrightarrow> framer_ok (vec_extend ys buf)"
  unfolding framer_ok_def
  by (auto simp: vec_simps open_record_def max_tls_record_wire_bytes_def intro!: vec_ok_extend)

lemma framer_loop_ok: "framer_ok buf \<Longrightarrow> \<exists>r buf'. framer_loop buf inp before = Some (r, buf') \<and> framer_ok buf'"
proof (induction "length inp" arbitrary: buf inp before rule: less_induct)
  case less
  let ?l = "length (elems buf)"
  have op: "open_record (elems buf)" using less.prems by (simp add: framer_ok_def)
  consider (idle) "inp = []"
    | (partial) "inp \<noteq> []" "?l + length inp < (if ?l < 5 then 5 else 5 + record_body_len (elems buf))"
    | (header) "?l < 5" "5 \<le> ?l + length inp"
    | (body) "5 \<le> ?l" "5 + record_body_len (elems buf) \<le> ?l + length inp"
    by (cases "?l < 5"; cases "inp = []"; force)
  then show ?case
  proof cases
    case idle
    then show ?thesis using less.prems by (simp add: framer_loop.simps)
  next
    case partial
    then have "open_record (elems buf @ inp)" using op by (auto simp: open_record_def split: if_splits)
    then show ?thesis using framer_step_partial [OF op partial] framer_ok_extend [OF less.prems] by simp
  next
    case body
    have "5 + record_body_len (elems buf) - ?l > 0" using op body by (auto simp: open_record_def)
    then show ?thesis using framer_step_body [OF op body] less.hyps [OF _ framer_ok_new] body by simp
  next
    case header
    let ?b = "vec_extend (take (5 - ?l) inp) buf"
    have e: "length (elems ?b) = 5" using header by (simp add: vec_simps)
    have "framer_ok ?b" if "record_body_len (elems ?b) \<le> max_tls_record_body_bytes" "0 < record_body_len (elems ?b)"
      using e that by (intro framer_ok_extend less.prems) (simp add: open_record_def vec_simps)
    moreover have "length (drop (5 - ?l) inp) < length inp" using header by simp
    ultimately show ?thesis
      using framer_step_header [OF header, of before] less.hyps [OF _ framer_ok_new] less.hyps by (auto simp: not_less)
  qed
qed

definition direction_ok :: "tls_direction_stream \<Rightarrow> bool" where
  "direction_ok d \<longleftrightarrow> tcp_ok (tds_tcp d) \<and> framer_ok (tds_records d)"

lemma feed_segment_ok: "direction_ok d \<Longrightarrow> \<exists>r d'. feed_segment seq payload d = Some (r, d') \<and> direction_ok d'"
proof (cases "tls_tcp_feed seq payload (tds_tcp d)")
  case (Pair res tcp)
  assume ok: "direction_ok d"
  have tcp: "tcp_ok tcp" using tls_tcp_feed_ok [of "tds_tcp d" seq payload] ok Pair by (simp add: direction_ok_def)
  show ?thesis
  proof (cases res)
    case (Inr out)
    obtain r buf where "framer_loop (tds_records d) out [] = Some (r, buf)" "framer_ok buf"
      using framer_loop_ok ok unfolding direction_ok_def by blast
    then show ?thesis using Pair Inr tcp
      by (cases r) (simp_all add: feed_segment_def framer_feed_def direction_ok_def)
  qed (use ok tcp Pair in \<open>simp add: feed_segment_def direction_ok_def\<close>)
qed

lemma feed_segments_ok: "direction_ok d \<Longrightarrow> \<exists>rs d'. feed_segments segs d = Some (rs, d') \<and> direction_ok d'"
proof (induction segs arbitrary: d)
  case (Cons seg segs)
  obtain seq payload where "seg = (seq, payload)" by force
  then show ?case using feed_segment_ok [OF Cons.prems, of seq payload] Cons.IH by fastforce
qed simp

text \<open>
  C32: Whatever segments arrive, the two loops of a direction end and the direction never accounts
  for more than three buffers of twice a maximal record, so at most 100,006 bytes of capacity.
\<close>
theorem tls_direction_bounded:
  "\<exists>results d. feed_segments segs (tls_direction_stream_new isn) = Some (results, d) \<and>
     direction_bytes_held d \<le> 3 * (2 * max_tls_record_wire_bytes + 8)"
proof -
  have "direction_ok (tls_direction_stream_new isn)"
    by (simp add: direction_ok_def tcp_ok_def tls_direction_stream_new_def tls_tcp_stream_new_def vec_simps)
  from feed_segments_ok [OF this, of segs] show ?thesis
    by (auto simp: direction_ok_def tcp_ok_def framer_ok_def vec_ok_def direction_bytes_held_def
        tls_tcp_bytes_held_def tls_reorder_window_bytes_def)
qed

end
