(* ===== verification/KeyLog.thy ===== *)
theory KeyLog
  imports RustStr
begin

text \<open>
  The key log watcher (\<open>keylog.rs\<close>): per-process key log files read incrementally, the secrets found in
  them, and the caps on what is kept. Hex decoding is a third-party crate and an argument; a file is
  what opening, seeking and reading it gives. Instants are nanoseconds; hash maps are association
  lists. Zeroizing has no observable effect.
\<close>

section \<open>Lines\<close>

definition max_keylog_sessions_per_pid :: nat where "max_keylog_sessions_per_pid = 128"
definition max_keylog_secret_bytes :: nat where "max_keylog_secret_bytes = 1024 * 1024"
definition max_keylog_read_bytes_per_poll :: nat where "max_keylog_read_bytes_per_poll = 64 * 1024"
definition max_keylog_line_bytes :: nat where "max_keylog_line_bytes = 1024"
definition unused_secret_ttl :: nat where "unused_secret_ttl = 10 * 60 * 10 ^ 9"

definition secret_label_for_direction :: "bool \<Rightarrow> bool \<Rightarrow> bool \<Rightarrow> rstring" where
  "secret_label_for_direction client_is_outbound packet_is_outbound handshake =
     (let client_to_server = (client_is_outbound = packet_is_outbound)
      in case (handshake, client_to_server) of
           (True, True) \<Rightarrow> lit ''CLIENT_HANDSHAKE_TRAFFIC_SECRET''
         | (True, False) \<Rightarrow> lit ''SERVER_HANDSHAKE_TRAFFIC_SECRET''
         | (False, True) \<Rightarrow> lit ''CLIENT_TRAFFIC_SECRET_0''
         | (False, False) \<Rightarrow> lit ''SERVER_TRAFFIC_SECRET_0'')"

record session_secret =
  ss_client_random :: "byte list"
  ss_label :: rstring
  ss_secret :: "byte list"

definition parse_keylog_line :: "(rstring \<Rightarrow> byte list option) \<Rightarrow> rstring \<Rightarrow> session_secret option" where
  "parse_keylog_line hex_decode raw =
     (let line = str_trim raw
      in if line = [] \<or> hd line = 0x23 then None
         else
           case split_whitespace line of
             label # random_text # secret_text # parts \<Rightarrow>
               (case hex_decode random_text of
                  None \<Rightarrow> None
                | Some client_random \<Rightarrow>
                    (case hex_decode secret_text of
                       None \<Rightarrow> None
                     | Some secret \<Rightarrow>
                         if parts \<noteq> [] then None
                         else Some \<lparr>ss_client_random = client_random, ss_label = label, ss_secret = secret\<rparr>))
           | _ \<Rightarrow> None)"

section \<open>The watcher\<close>

record watched_file =
  wf_path :: rstring
  wf_offset :: nat
  wf_pending_line :: "byte list"
  wf_discarding_oversized_line :: bool

record stored_secret =
  st_value :: session_secret
  st_inserted_at :: nat
  st_order :: nat
  st_associated_with_flow :: bool

type_synonym secret_key = "nat \<times> byte list \<times> rstring"

record keylog_watcher =
  kw_eligible :: "(nat \<times> watched_file) list"
  kw_secrets :: "(secret_key \<times> stored_secret) list"
  kw_next_order :: nat
  kw_last_polled_pid :: nat

definition keylog_watcher_new :: keylog_watcher where
  "keylog_watcher_new = \<lparr>kw_eligible = [], kw_secrets = [], kw_next_order = 0, kw_last_polled_pid = 0\<rparr>"

definition register_eligible_pid :: "nat \<Rightarrow> rstring \<Rightarrow> keylog_watcher \<Rightarrow> keylog_watcher" where
  "register_eligible_pid pid keylog_path w =
     w\<lparr>kw_eligible := AList.update pid
         \<lparr>wf_path = keylog_path, wf_offset = 0, wf_pending_line = [], wf_discarding_oversized_line = False\<rparr>
         (kw_eligible w)\<rparr>"

definition unregister_pid :: "nat \<Rightarrow> keylog_watcher \<Rightarrow> keylog_watcher" where
  "unregister_pid pid w =
     w\<lparr>kw_eligible := AList.delete pid (kw_eligible w),
       kw_secrets := filter (\<lambda>((owner, _, _), _). owner \<noteq> pid) (kw_secrets w)\<rparr>"

definition is_eligible :: "nat \<Rightarrow> keylog_watcher \<Rightarrow> bool" where
  "is_eligible pid w \<longleftrightarrow> map_of (kw_eligible w) pid \<noteq> None"

text \<open>What the operating system does with a file: refuse to open it, to seek, to read, or give its bytes.\<close>

datatype file_state = CannotOpen | CannotSeek | CannotRead | Readable (file_bytes: "byte list")

fun scan_byte ::
  "(rstring \<Rightarrow> byte list option) \<Rightarrow> byte \<Rightarrow> watched_file \<times> session_secret list \<Rightarrow> watched_file \<times> session_secret list" where
  "scan_byte hex_decode b (wfile, found) =
     (if wf_discarding_oversized_line wfile then
        (if b = 0x0A then wfile\<lparr>wf_discarding_oversized_line := False\<rparr> else wfile, found)
      else if b = 0x0A then
        (wfile\<lparr>wf_pending_line := []\<rparr>,
         (case from_utf8 (wf_pending_line wfile) of
            None \<Rightarrow> found
          | Some line \<Rightarrow> (case parse_keylog_line hex_decode line of None \<Rightarrow> found | Some secret \<Rightarrow> found @ [secret])))
      else if length (wf_pending_line wfile) < max_keylog_line_bytes then
        (wfile\<lparr>wf_pending_line := wf_pending_line wfile @ [b]\<rparr>, found)
      else (wfile\<lparr>wf_pending_line := [], wf_discarding_oversized_line := True\<rparr>, found))"

definition scan_bytes ::
  "(rstring \<Rightarrow> byte list option) \<Rightarrow> byte list \<Rightarrow> watched_file \<Rightarrow> watched_file \<times> session_secret list" where
  "scan_bytes hex_decode bs wfile = fold (scan_byte hex_decode) bs (wfile, [])"

text \<open>The loop over the processes: the bytes still allowed, what was found, and the watcher.\<close>

fun poll_pids ::
  "(rstring \<Rightarrow> byte list option) \<Rightarrow> (rstring \<Rightarrow> file_state) \<Rightarrow> nat list \<Rightarrow> nat \<Rightarrow> (nat \<times> session_secret) list \<Rightarrow> keylog_watcher
    \<Rightarrow> (nat \<times> session_secret) list \<times> keylog_watcher" where
  "poll_pids hex_decode fs [] remaining found w = (found, w)"
| "poll_pids hex_decode fs (pid # pids) remaining found w =
     (if remaining = 0 then (found, w)
      else
        case map_of (kw_eligible w) pid of
          None \<Rightarrow> poll_pids hex_decode fs pids remaining found w
        | Some watched \<Rightarrow>
            (case fs (wf_path watched) of
               CannotOpen \<Rightarrow> poll_pids hex_decode fs pids remaining found (w\<lparr>kw_last_polled_pid := pid\<rparr>)
             | CannotSeek \<Rightarrow> poll_pids hex_decode fs pids remaining found (w\<lparr>kw_last_polled_pid := pid\<rparr>)
             | CannotRead \<Rightarrow> poll_pids hex_decode fs pids remaining found w
             | Readable content \<Rightarrow>
                 let buf = take remaining (drop (wf_offset watched) content);
                     (watched1, secrets) =
                       scan_bytes hex_decode buf (watched\<lparr>wf_offset := wf_offset watched + length buf\<rparr>)
                 in poll_pids hex_decode fs pids (remaining - length buf) (found @ map (Pair pid) secrets)
                      (w\<lparr>kw_last_polled_pid := pid, kw_eligible := AList.update pid watched1 (kw_eligible w)\<rparr>)))"

definition poll_order :: "keylog_watcher \<Rightarrow> nat list" where
  "poll_order w =
     (let pids = sort (map fst (kw_eligible w));
          start = length (takeWhile (\<lambda>pid. pid \<le> kw_last_polled_pid w) pids)
      in if length pids > 0 then rotate (start mod length pids) pids else pids)"

definition store_found :: "nat \<Rightarrow> nat \<times> session_secret \<Rightarrow> keylog_watcher \<Rightarrow> keylog_watcher" where
  "store_found now = (\<lambda>(pid, secret) w.
     let order = (kw_next_order w + 1) mod 2 ^ 64
     in w\<lparr>kw_next_order := order,
          kw_secrets := AList.update (pid, ss_client_random secret, ss_label secret)
            \<lparr>st_value = secret, st_inserted_at = now, st_order = order, st_associated_with_flow = False\<rparr>
            (kw_secrets w)\<rparr>)"

definition secret_for :: "nat \<Rightarrow> byte list \<Rightarrow> rstring \<Rightarrow> keylog_watcher \<Rightarrow> session_secret option" where
  "secret_for pid client_random label w = map_option st_value (map_of (kw_secrets w) (pid, client_random, label))"

definition mark_flow_seen :: "nat \<Rightarrow> byte list \<Rightarrow> keylog_watcher \<Rightarrow> keylog_watcher" where
  "mark_flow_seen pid client_random w =
     w\<lparr>kw_secrets := map (\<lambda>((owner, random, label), stored).
         ((owner, random, label),
          if owner = pid \<and> random = client_random then stored\<lparr>st_associated_with_flow := True\<rparr> else stored))
       (kw_secrets w)\<rparr>"

definition take_secret :: "nat \<Rightarrow> byte list \<Rightarrow> rstring \<Rightarrow> keylog_watcher \<Rightarrow> session_secret option \<times> keylog_watcher" where
  "take_secret pid client_random label w =
     (secret_for pid client_random label w,
      w\<lparr>kw_secrets := AList.delete (pid, client_random, label) (kw_secrets w)\<rparr>)"

definition remove_flow_secrets :: "nat \<Rightarrow> byte list \<Rightarrow> keylog_watcher \<Rightarrow> keylog_watcher" where
  "remove_flow_secrets pid client_random w =
     w\<lparr>kw_secrets := filter (\<lambda>((owner, random, _), _). owner \<noteq> pid \<or> random \<noteq> client_random) (kw_secrets w)\<rparr>"

section \<open>Caps\<close>

definition secret_bytes :: "(secret_key \<times> stored_secret) list \<Rightarrow> nat" where
  "secret_bytes secrets = weigh (\<lambda>s. length (ss_secret (st_value s))) secrets"

definition note_session :: "nat \<Rightarrow> secret_key \<times> stored_secret \<Rightarrow> (byte list \<times> nat) list \<Rightarrow> (byte list \<times> nat) list" where
  "note_session pid = (\<lambda>((owner, random, _), stored) sessions.
     if owner = pid then
       AList.update random
         (case map_of sessions random of None \<Rightarrow> st_order stored | Some order \<Rightarrow> min order (st_order stored)) sessions
     else sessions)"

definition pid_sessions :: "nat \<Rightarrow> (secret_key \<times> stored_secret) list \<Rightarrow> (byte list \<times> nat) list" where
  "pid_sessions pid secrets = fold (note_session pid) secrets []"

definition drop_session :: "nat \<Rightarrow> byte list \<Rightarrow> (secret_key \<times> stored_secret) list \<Rightarrow> (secret_key \<times> stored_secret) list" where
  "drop_session pid oldest_random secrets =
     filter (\<lambda>((owner, random, _), _). owner \<noteq> pid \<or> random \<noteq> oldest_random) secrets"

definition drop_expired :: "nat \<Rightarrow> (secret_key \<times> stored_secret) list \<Rightarrow> (secret_key \<times> stored_secret) list" where
  "drop_expired now secrets =
     filter (\<lambda>(_, stored). st_associated_with_flow stored \<or> now - st_inserted_at stored \<le> unused_secret_ttl) secrets"

definition session_of :: "secret_key \<times> stored_secret \<Rightarrow> nat \<times> byte list" where
  "session_of e = (fst (fst e), fst (snd (fst e)))"

definition sessions_held :: "nat \<Rightarrow> (secret_key \<times> stored_secret) list \<Rightarrow> byte list set" where
  "sessions_held pid secrets = {random. (pid, random) \<in> session_of ` set secrets}"

lemma note_session_keys:
  "fst ` set (note_session pid e acc) = fst ` set acc \<union> {random. session_of e = (pid, random)}"
  by (auto simp: note_session_def session_of_def dom_update split: prod.splits)

lemma note_session_distinct: "distinct (map fst acc) \<Longrightarrow> distinct (map fst (note_session pid e acc))"
  by (auto simp: note_session_def distinct_update split: prod.splits)

lemma pid_sessions_keys: "fst ` set (pid_sessions pid secrets) = sessions_held pid secrets"
proof -
  have "fst ` set (fold (note_session pid) secrets acc) = fst ` set acc \<union> sessions_held pid secrets" for acc
    by (induction secrets arbitrary: acc) (auto simp: note_session_keys sessions_held_def)
  then show ?thesis by (simp add: pid_sessions_def)
qed

lemma pid_sessions_distinct: "distinct (map fst (pid_sessions pid secrets))"
proof -
  have "distinct (map fst acc) \<Longrightarrow> distinct (map fst (fold (note_session pid) secrets acc))" for acc
    by (induction secrets arbitrary: acc) (simp_all add: note_session_distinct)
  then show ?thesis by (simp add: pid_sessions_def)
qed

lemma length_pid_sessions: "length (pid_sessions pid secrets) = card (sessions_held pid secrets)"
  using distinct_card [OF pid_sessions_distinct, of pid secrets] pid_sessions_keys [of pid secrets] by simp

lemma drop_session_eq: "drop_session pid random secrets = filter (\<lambda>e. session_of e \<noteq> (pid, random)) secrets"
  by (auto simp: drop_session_def session_of_def intro!: filter_cong)

lemma drop_session_shorter:
  assumes "(random, order) \<in> set (pid_sessions pid secrets)"
  shows "length (drop_session pid random secrets) < length secrets"
proof -
  have "random \<in> sessions_held pid secrets" using assms pid_sessions_keys by force
  then show ?thesis
    unfolding drop_session_eq by (auto simp: sessions_held_def intro!: length_filter_less)
qed

function cap_sessions :: "nat \<Rightarrow> (secret_key \<times> stored_secret) list \<Rightarrow> (secret_key \<times> stored_secret) list" where
  "cap_sessions pid secrets =
     (let sessions = pid_sessions pid secrets
      in if length sessions \<le> max_keylog_sessions_per_pid then secrets
         else case min_by_key snd sessions of
                None \<Rightarrow> secrets
              | Some (oldest_random, _) \<Rightarrow> cap_sessions pid (drop_session pid oldest_random secrets))"
  by pat_completeness auto
termination
  by (relation "measure (length \<circ> snd)") (auto dest!: min_by_key_Some(1) intro: drop_session_shorter)

function cap_bytes :: "(secret_key \<times> stored_secret) list \<Rightarrow> (secret_key \<times> stored_secret) list" where
  "cap_bytes secrets =
     (if secret_bytes secrets > max_keylog_secret_bytes then
        (case min_by_key (st_order \<circ> snd) secrets of
           None \<Rightarrow> secrets
         | Some (key, _) \<Rightarrow> cap_bytes (AList.delete key secrets))
      else secrets)"
  by pat_completeness auto
termination
  by (relation "measure length") (auto dest!: min_by_key_Some(1) simp: AList.delete_eq intro!: length_filter_less)

declare cap_sessions.simps [simp del] cap_bytes.simps [simp del]

definition enforce_caps :: "nat \<Rightarrow> keylog_watcher \<Rightarrow> keylog_watcher" where
  "enforce_caps now w =
     w\<lparr>kw_secrets := cap_bytes (fold cap_sessions (map fst (kw_eligible w)) (drop_expired now (kw_secrets w)))\<rparr>"

definition poll_at ::
  "(rstring \<Rightarrow> byte list option) \<Rightarrow> (rstring \<Rightarrow> file_state) \<Rightarrow> nat \<Rightarrow> keylog_watcher \<Rightarrow> keylog_watcher" where
  "poll_at hex_decode fs now w =
     (case poll_pids hex_decode fs (poll_order w) max_keylog_read_bytes_per_poll [] w of
        (found, w1) \<Rightarrow> enforce_caps now (fold (store_found now) found w1))"

section \<open>Every complete line is read\<close>

text \<open>The lines of a file as the format has them: what stands before each newline.\<close>

fun complete_lines :: "byte list \<Rightarrow> byte list \<Rightarrow> byte list list" where
  "complete_lines acc [] = []"
| "complete_lines acc (b # bs) = (if b = 0x0A then acc # complete_lines [] bs else complete_lines (acc @ [b]) bs)"

definition line_secret :: "(rstring \<Rightarrow> byte list option) \<Rightarrow> byte list \<Rightarrow> session_secret option" where
  "line_secret hex_decode line =
     (if length line \<le> max_keylog_line_bytes then Option.bind (from_utf8 line) (parse_keylog_line hex_decode) else None)"

definition file_secrets :: "(rstring \<Rightarrow> byte list option) \<Rightarrow> byte list \<Rightarrow> session_secret list" where
  "file_secrets hex_decode content = List.map_filter (line_secret hex_decode) (complete_lines [] content)"


fun unfinished_line :: "byte list \<Rightarrow> byte list \<Rightarrow> byte list" where
  "unfinished_line acc [] = acc"
| "unfinished_line acc (b # bs) = (if b = 0x0A then unfinished_line [] bs else unfinished_line (acc @ [b]) bs)"

lemma complete_lines_append:
  "complete_lines acc (xs @ ys) = complete_lines acc xs @ complete_lines (unfinished_line acc xs) ys"
  "unfinished_line acc (xs @ ys) = unfinished_line (unfinished_line acc xs) ys"
  by (induction xs arbitrary: acc) auto

text \<open>How a watched file remembers an unfinished line: itself while it fits, nothing once it is too long.\<close>

definition in_line :: "byte list \<Rightarrow> watched_file \<Rightarrow> watched_file" where
  "in_line acc wfile =
     wfile\<lparr>wf_pending_line := (if length acc \<le> max_keylog_line_bytes then acc else []),
           wf_discarding_oversized_line := length acc > max_keylog_line_bytes\<rparr>"

lemma in_line_simps [simp]:
  "wf_path (in_line acc wfile) = wf_path wfile" "wf_offset (in_line acc wfile) = wf_offset wfile"
  "in_line acc' (in_line acc wfile) = in_line acc' wfile"
  by (simp_all add: in_line_def)

lemma scan_byte_in_line:
  "scan_byte hex_decode b (in_line acc wfile, found) =
     (if b = 0x0A then (in_line [] wfile, found @ List.map_filter (line_secret hex_decode) [acc])
      else (in_line (acc @ [b]) wfile, found))"
  by (cases "length acc" max_keylog_line_bytes rule: linorder_cases)
     (auto simp: in_line_def line_secret_def map_filter_simps split: option.splits)

lemma scan_in_line:
  "fold (scan_byte hex_decode) bs (in_line acc wfile, found) =
     (in_line (unfinished_line acc bs) wfile, found @ List.map_filter (line_secret hex_decode) (complete_lines acc bs))"
proof (induction bs arbitrary: acc found)
  case (Cons b bs)
  then show ?case
    by (cases "b = 0x0A") (auto simp: scan_byte_in_line map_filter_simps simp del: scan_byte.simps split: option.splits)
qed (simp add: map_filter_simps)

definition tracks :: "byte list \<Rightarrow> watched_file \<Rightarrow> bool" where
  "tracks content wfile \<longleftrightarrow> wf_offset wfile \<le> length content \<and>
     in_line (unfinished_line [] (take (wf_offset wfile) content)) wfile = wfile"

lemma tracks_append: "tracks content wfile \<Longrightarrow> tracks (content @ more_bytes) wfile"
  by (auto simp: tracks_def)

lemma tracks_registered:
  "tracks content \<lparr>wf_path = p, wf_offset = 0, wf_pending_line = [], wf_discarding_oversized_line = False\<rparr>"
  by (simp add: tracks_def in_line_def)

lemma scan_bytes_tracks:
  fixes n :: nat
  assumes "tracks content wfile"
  defines "buf \<equiv> take n (drop (wf_offset wfile) content)"
  defines "off \<equiv> wf_offset wfile + length buf"
  obtains wfile' secrets where "scan_bytes hex_decode buf (wfile\<lparr>wf_offset := off\<rparr>) = (wfile', secrets)"
    "wf_offset wfile' = off" "wf_path wfile' = wf_path wfile" "tracks content wfile'"
    "file_secrets hex_decode (take off content) = file_secrets hex_decode (take (wf_offset wfile) content) @ secrets"
proof -
  let ?acc = "unfinished_line [] (take (wf_offset wfile) content)"
  have at: "take off content = take (wf_offset wfile) content @ buf"
    by (simp add: off_def buf_def take_add min_def)
  have off: "off \<le> length content" using assms(1) by (auto simp: tracks_def off_def buf_def)
  have "wfile\<lparr>wf_offset := off\<rparr> = in_line ?acc (wfile\<lparr>wf_offset := off\<rparr>)"
    using assms(1) by (cases wfile) (simp add: tracks_def in_line_def)
  then have "scan_bytes hex_decode buf (wfile\<lparr>wf_offset := off\<rparr>) =
      (in_line (unfinished_line ?acc buf) (wfile\<lparr>wf_offset := off\<rparr>),
       List.map_filter (line_secret hex_decode) (complete_lines ?acc buf))"
    by (metis scan_bytes_def scan_in_line append_Nil)
  then show thesis
    by (rule that) (simp_all add: tracks_def off at complete_lines_append file_secrets_def map_filter_def)
qed


lemma poll_order_perm:
  assumes "distinct (map fst (kw_eligible w))"
  shows "distinct (poll_order w)" "set (poll_order w) = fst ` set (kw_eligible w)"
  using assms by (auto simp: poll_order_def Let_def simp del: length_greater_0_conv)

text \<open>Every watched process has a readable file, and the watcher is in step with it.\<close>

definition in_step :: "(rstring \<Rightarrow> file_state) \<Rightarrow> (nat \<Rightarrow> byte list) \<Rightarrow> keylog_watcher \<Rightarrow> bool" where
  "in_step fs content w \<longleftrightarrow> (\<forall>pid wfile. map_of (kw_eligible w) pid = Some wfile \<longrightarrow>
     fs (wf_path wfile) = Readable (content pid) \<and> tracks (content pid) wfile)"

definition read_up_to :: "nat \<Rightarrow> keylog_watcher \<Rightarrow> nat" where
  "read_up_to pid w = (case map_of (kw_eligible w) pid of None \<Rightarrow> 0 | Some wfile \<Rightarrow> wf_offset wfile)"

definition unread :: "(nat \<Rightarrow> byte list) \<Rightarrow> nat \<Rightarrow> keylog_watcher \<Rightarrow> nat" where
  "unread content pid w = length (content pid) - read_up_to pid w"

definition found_for :: "nat \<Rightarrow> (nat \<times> session_secret) list \<Rightarrow> session_secret list" where
  "found_for pid found = map snd (filter (\<lambda>(p, _). p = pid) found)"

text \<open>What one pass over some of the processes does.\<close>

definition pass_ok ::
  "(rstring \<Rightarrow> byte list option) \<Rightarrow> (rstring \<Rightarrow> file_state) \<Rightarrow> (nat \<Rightarrow> byte list) \<Rightarrow> nat list \<Rightarrow> nat \<Rightarrow> keylog_watcher
    \<Rightarrow> (nat \<times> session_secret) list \<Rightarrow> keylog_watcher \<Rightarrow> bool" where
  "pass_ok hex_decode fs content pids remaining w found w' \<longleftrightarrow>
     in_step fs content w' \<and> kw_secrets w' = kw_secrets w \<and> map fst (kw_eligible w') = map fst (kw_eligible w) \<and>
     (\<forall>pid. read_up_to pid w \<le> read_up_to pid w' \<and>
        file_secrets hex_decode (take (read_up_to pid w') (content pid)) =
          file_secrets hex_decode (take (read_up_to pid w) (content pid)) @ found_for pid found) \<and>
     (\<forall>pid. pid \<notin> set pids \<longrightarrow> read_up_to pid w' = read_up_to pid w) \<and>
     (\<Sum>pid\<leftarrow>pids. unread content pid w) = (\<Sum>pid\<leftarrow>pids. unread content pid w') + min remaining (\<Sum>pid\<leftarrow>pids. unread content pid w)"

lemma pass_ok_none: "in_step fs content w \<Longrightarrow> remaining = 0 \<or> pids = [] \<Longrightarrow> pass_ok hex_decode fs content pids remaining w [] w"
  by (auto simp: pass_ok_def found_for_def)

lemma map_fst_update_member: "map_of xs k = Some v \<Longrightarrow> map fst (AList.update k v' xs) = map fst xs"
  by (induction xs) (auto split: if_splits)

lemma pass_step:
  fixes remaining :: nat
  assumes "in_step fs content w" "map_of (kw_eligible w) pid = Some watched"
  defines "buf \<equiv> take remaining (drop (wf_offset watched) (content pid))"
  obtains watched1 secrets where
    "scan_bytes hex_decode buf (watched\<lparr>wf_offset := wf_offset watched + length buf\<rparr>) = (watched1, secrets)"
    "pass_ok hex_decode fs content [pid] remaining w (map (Pair pid) secrets)
       (w\<lparr>kw_last_polled_pid := pid, kw_eligible := AList.update pid watched1 (kw_eligible w)\<rparr>)"
    "length buf = min remaining (unread content pid w)"
proof -
  have tr: "tracks (content pid) watched" and fs: "fs (wf_path watched) = Readable (content pid)"
    using assms(1,2) by (auto simp: in_step_def)
  obtain watched1 secrets where s:
    "scan_bytes hex_decode buf (watched\<lparr>wf_offset := wf_offset watched + length buf\<rparr>) = (watched1, secrets)"
    "wf_offset watched1 = wf_offset watched + length buf" "wf_path watched1 = wf_path watched" "tracks (content pid) watched1"
    "file_secrets hex_decode (take (wf_offset watched + length buf) (content pid)) =
       file_secrets hex_decode (take (wf_offset watched) (content pid)) @ secrets"
    unfolding buf_def by (rule scan_bytes_tracks [OF tr])
  let ?w' = "w\<lparr>kw_last_polled_pid := pid, kw_eligible := AList.update pid watched1 (kw_eligible w)\<rparr>"
  have at: "read_up_to pid w = wf_offset watched" using assms(2) by (simp add: read_up_to_def)
  have at': "read_up_to p ?w' = (if p = pid then wf_offset watched + length buf else read_up_to p w)" for p
    by (simp add: read_up_to_def update_conv' s(2))
  have len: "length buf = min remaining (unread content pid w)" by (simp add: buf_def unread_def at min.commute)
  have found: "found_for p (map (Pair pid) secrets) = (if p = pid then secrets else [])" for p
    by (simp add: found_for_def filter_map comp_def)
  have "in_step fs content ?w'"
    using assms(1) s(3,4) fs by (auto simp: in_step_def update_conv')
  moreover have "unread content pid w = unread content pid ?w' + length buf"
    using tr len by (auto simp: unread_def at at' tracks_def)
  ultimately have "pass_ok hex_decode fs content [pid] remaining w (map (Pair pid) secrets) ?w'"
    using s(5) assms(2) by (auto simp: pass_ok_def at' found len at map_fst_update_member min.commute)
  then show thesis using that s(1) len by blast
qed

lemma found_for_append [simp]: "found_for pid (f1 @ f2) = found_for pid f1 @ found_for pid f2"
  by (simp add: found_for_def)

lemma pass_ok_compose:
  assumes "pass_ok hex_decode fs content [pid] remaining w f1 w1" "pid \<notin> set pids"
    and "pass_ok hex_decode fs content pids (remaining - min remaining (unread content pid w)) w1 f2 w2"
  shows "pass_ok hex_decode fs content (pid # pids) remaining w (f1 @ f2) w2"
proof -
  have first: "read_up_to p w1 = read_up_to p w" if "p \<noteq> pid" for p using assms(1) that by (simp add: pass_ok_def)
  have second: "read_up_to pid w2 = read_up_to pid w1" using assms(2,3) by (simp add: pass_ok_def)
  have same: "(\<Sum>p\<leftarrow>pids. unread content p w1) = (\<Sum>p\<leftarrow>pids. unread content p w)"
    using assms(2) first by (intro arg_cong [where f = sum_list] map_cong refl) (metis unread_def)
  have "unread content pid w = unread content pid w2 + min remaining (unread content pid w)"
    using assms(1) second by (simp add: pass_ok_def unread_def)
  moreover have "(\<Sum>p\<leftarrow>pids. unread content p w) = (\<Sum>p\<leftarrow>pids. unread content p w2) +
      min (remaining - min remaining (unread content pid w)) (\<Sum>p\<leftarrow>pids. unread content p w)"
    using assms(3) by (simp add: pass_ok_def flip: same)
  ultimately have "(\<Sum>p\<leftarrow>pid # pids. unread content p w) =
      (\<Sum>p\<leftarrow>pid # pids. unread content p w2) + min remaining (\<Sum>p\<leftarrow>pid # pids. unread content p w)"
    by (auto simp: min_def split: if_splits)
  moreover have "read_up_to p w \<le> read_up_to p w2" for p
    using assms(1,3) unfolding pass_ok_def by (meson le_trans)
  ultimately show ?thesis using assms(1,3) unfolding pass_ok_def by simp
qed

lemma poll_pids_pass:
  assumes "in_step fs content w" "distinct pids" "set pids \<subseteq> fst ` set (kw_eligible w)"
  shows "\<exists>found' w'. poll_pids hex_decode fs pids remaining found w = (found @ found', w') \<and>
    pass_ok hex_decode fs content pids remaining w found' w'"
  using assms
proof (induction pids arbitrary: remaining found w)
  case Nil
  then show ?case by (simp add: pass_ok_none)
next
  case (Cons pid pids)
  show ?case
  proof (cases "remaining = 0")
    case True
    then show ?thesis using Cons.prems(1) by (simp add: pass_ok_none)
  next
    case False
    obtain watched where watched: "map_of (kw_eligible w) pid = Some watched"
      using Cons.prems(3) by (cases "map_of (kw_eligible w) pid") (auto simp: map_of_eq_None_iff)
    have fs: "fs (wf_path watched) = Readable (content pid)" using Cons.prems(1) watched by (simp add: in_step_def)
    let ?buf = "take remaining (drop (wf_offset watched) (content pid))"
    obtain watched1 secrets where s: "scan_bytes hex_decode ?buf (watched\<lparr>wf_offset := wf_offset watched + length ?buf\<rparr>) = (watched1, secrets)"
      and one: "pass_ok hex_decode fs content [pid] remaining w (map (Pair pid) secrets)
         (w\<lparr>kw_last_polled_pid := pid, kw_eligible := AList.update pid watched1 (kw_eligible w)\<rparr>)"
      and len: "length ?buf = min remaining (unread content pid w)"
      by (rule pass_step [OF Cons.prems(1) watched])
    let ?w1 = "w\<lparr>kw_last_polled_pid := pid, kw_eligible := AList.update pid watched1 (kw_eligible w)\<rparr>"
    have keys: "set pids \<subseteq> fst ` set (kw_eligible ?w1)" using Cons.prems(3) by (auto simp: dom_update)
    have "in_step fs content ?w1" using one by (simp add: pass_ok_def)
    then obtain found' w' where rest:
      "poll_pids hex_decode fs pids (remaining - length ?buf) (found @ map (Pair pid) secrets) ?w1 = ((found @ map (Pair pid) secrets) @ found', w')"
      "pass_ok hex_decode fs content pids (remaining - length ?buf) ?w1 found' w'"
      using Cons.IH [of ?w1 "remaining - length ?buf" "found @ map (Pair pid) secrets"] Cons.prems(2) keys by auto
    have "poll_pids hex_decode fs (pid # pids) remaining found w = (found @ map (Pair pid) secrets @ found', w')"
      using False watched fs s rest(1) by (simp add: Let_def)
    moreover have "pass_ok hex_decode fs content (pid # pids) remaining w (map (Pair pid) secrets @ found') w'"
      using one rest(2) Cons.prems(2) len by (intro pass_ok_compose) auto
    ultimately show ?thesis by blast
  qed
qed

section \<open>No process is kept waiting\<close>

lemma scan_byte_place: "wf_path (fst (scan_byte hex_decode b s)) = wf_path (fst s) \<and> wf_offset (fst (scan_byte hex_decode b s)) = wf_offset (fst s)"
  by (cases s) simp

lemma scan_bytes_place:
  "wf_path (fst (scan_bytes hex_decode bs wfile)) = wf_path wfile \<and> wf_offset (fst (scan_bytes hex_decode bs wfile)) = wf_offset wfile"
proof -
  have "wf_path (fst (fold (scan_byte hex_decode) bs s)) = wf_path (fst s) \<and> wf_offset (fst (fold (scan_byte hex_decode) bs s)) = wf_offset (fst s)" for s
    by (induction bs arbitrary: s) (simp_all add: scan_byte_place)
  then show ?thesis by (simp add: scan_bytes_def)
qed

text \<open>One process visited with bytes left to read: what stays of the others, and what is left to read.\<close>

lemma poll_visit:
  assumes "0 < remaining"
  obtains remaining' found' w1 where "poll_pids hex_decode fs (p # pids) remaining found w = poll_pids hex_decode fs pids remaining' found' w1"
    and "\<And>pid. pid \<noteq> p \<Longrightarrow> map_of (kw_eligible w1) pid = map_of (kw_eligible w) pid"
    and "remaining' = 0 \<Longrightarrow> kw_last_polled_pid w1 = p"
    and "\<And>wfile c. map_of (kw_eligible w) p = Some wfile \<Longrightarrow> fs (wf_path wfile) = Readable c \<Longrightarrow> wf_offset wfile < length c \<Longrightarrow>
      wf_offset wfile < read_up_to p w1"
proof (cases "map_of (kw_eligible w) p")
  case None
  with assms that [of remaining found w] show thesis by simp
next
  case (Some watched)
  show thesis
  proof (cases "fs (wf_path watched)")
    case (Readable content)
    let ?buf = "take remaining (drop (wf_offset watched) content)"
    obtain watched1 secrets where s: "scan_bytes hex_decode ?buf (watched\<lparr>wf_offset := wf_offset watched + length ?buf\<rparr>) = (watched1, secrets)"
      by force
    have "wf_offset watched1 = wf_offset watched + length ?buf"
      using scan_bytes_place [of hex_decode ?buf "watched\<lparr>wf_offset := wf_offset watched + length ?buf\<rparr>"] unfolding s by simp
    moreover have "0 < length ?buf" if "wf_offset watched < length content" using that assms by simp
    ultimately have read: "wf_offset watched < wf_offset watched1" if "wf_offset watched < length content" using that by simp
    have "poll_pids hex_decode fs (p # pids) remaining found w =
        poll_pids hex_decode fs pids (remaining - length ?buf) (found @ map (Pair p) secrets)
          (w\<lparr>kw_last_polled_pid := p, kw_eligible := AList.update p watched1 (kw_eligible w)\<rparr>)"
      using assms Some Readable s by (simp add: Let_def del: length_take length_drop)
    then show thesis
      by (rule that) (use Some Readable read in \<open>auto simp: update_conv' read_up_to_def\<close>)
  next
    case CannotOpen
    with assms Some show thesis by (intro that [of remaining found "w\<lparr>kw_last_polled_pid := p\<rparr>"]) auto
  next
    case CannotSeek
    with assms Some show thesis by (intro that [of remaining found "w\<lparr>kw_last_polled_pid := p\<rparr>"]) auto
  next
    case CannotRead
    with assms Some show thesis by (intro that [of remaining found w]) auto
  qed
qed

lemma poll_pids_keys: "map fst (kw_eligible (snd (poll_pids hex_decode fs pids remaining found w))) = map fst (kw_eligible w)"
proof (induction pids arbitrary: remaining found w)
  case (Cons p pids)
  then show ?case
    by (auto simp: Let_def map_fst_update_member split: option.splits file_state.splits prod.splits)
qed simp

lemma poll_pids_offset: "read_up_to pid w \<le> read_up_to pid (snd (poll_pids hex_decode fs pids remaining found w))"
proof (induction pids arbitrary: remaining found w)
  case (Cons p pids)
  show ?case
  proof (cases "remaining = 0 \<or> map_of (kw_eligible w) p = None")
    case False
    then obtain watched where watched: "map_of (kw_eligible w) p = Some watched" "0 < remaining" by auto
    have at: "read_up_to pid (w\<lparr>kw_last_polled_pid := p\<rparr>) = read_up_to pid w" by (simp add: read_up_to_def)
    have "wf_offset watched \<le> wf_offset (fst (scan_bytes hex_decode buf (watched\<lparr>wf_offset := wf_offset watched + length buf\<rparr>)))" for buf
      by (simp add: scan_bytes_place)
    then have "read_up_to pid w \<le> read_up_to pid (w\<lparr>kw_last_polled_pid := p, kw_eligible := AList.update p
        (fst (scan_bytes hex_decode buf (watched\<lparr>wf_offset := wf_offset watched + length buf\<rparr>))) (kw_eligible w)\<rparr>)" for buf
      using watched(1) by (simp add: read_up_to_def update_conv')
    then have visited: "read_up_to pid w \<le> read_up_to pid (snd (poll_pids hex_decode fs pids remaining' found' (w\<lparr>kw_last_polled_pid := p,
        kw_eligible := AList.update p (fst (scan_bytes hex_decode buf (watched\<lparr>wf_offset := wf_offset watched + length buf\<rparr>))) (kw_eligible w)\<rparr>)))"
      for buf remaining' found'
      using order_trans [OF _ Cons.IH] by blast
    then show ?thesis
      using watched Cons.IH [of "w\<lparr>kw_last_polled_pid := p\<rparr>"] at Cons.IH [of w]
      by (cases "fs (wf_path watched)") (simp_all add: Let_def split_def visited del: length_take length_drop)
  qed (auto simp: Cons.IH)
qed simp

lemma poll_pids_others:
  "pid \<notin> set pids \<Longrightarrow> map_of (kw_eligible (snd (poll_pids hex_decode fs pids remaining found w))) pid = map_of (kw_eligible w) pid"
proof (induction pids arbitrary: remaining found w)
  case (Cons p pids)
  show ?case
  proof (cases "remaining = 0")
    case False
    then obtain remaining' found' w1 where
      "poll_pids hex_decode fs (p # pids) remaining found w = poll_pids hex_decode fs pids remaining' found' w1"
      "map_of (kw_eligible w1) pid = map_of (kw_eligible w) pid"
      using Cons.prems by (elim poll_visit [of remaining hex_decode fs p pids found w, OF neq0_conv [THEN iffD1]]) auto
    then show ?thesis using Cons by simp
  qed simp
qed simp

text \<open>A poll reads a process with unread bytes, or stops at one that stands before it.\<close>

lemma poll_pids_reach:
  fixes hex_decode found
  assumes "distinct pids" "pid \<in> set pids" "0 < remaining"
    and "map_of (kw_eligible w) pid = Some wfile" "fs (wf_path wfile) = Readable c" "wf_offset wfile < length c"
  defines "w' \<equiv> snd (poll_pids hex_decode fs pids remaining found w)"
  shows "wf_offset wfile < read_up_to pid w' \<or>
    map_of (kw_eligible w') pid = Some wfile \<and>
    (\<exists>before after. pids = before @ kw_last_polled_pid w' # after \<and> pid \<in> set after)"
  using assms(1-4) unfolding w'_def
proof (induction pids arbitrary: remaining found w)
  case (Cons p pids)
  from Cons.prems(3) obtain remaining' found' w1 where step:
    "poll_pids hex_decode fs (p # pids) remaining found w = poll_pids hex_decode fs pids remaining' found' w1"
    and others: "\<And>pid. pid \<noteq> p \<Longrightarrow> map_of (kw_eligible w1) pid = map_of (kw_eligible w) pid"
    and stop: "remaining' = 0 \<Longrightarrow> kw_last_polled_pid w1 = p"
    and read: "\<And>wfile c. map_of (kw_eligible w) p = Some wfile \<Longrightarrow> fs (wf_path wfile) = Readable c \<Longrightarrow> wf_offset wfile < length c \<Longrightarrow>
      wf_offset wfile < read_up_to p w1"
    by (rule poll_visit [where hex_decode = hex_decode and fs = fs and p = p and pids = pids and found = found and w = w]) blast
  show ?case
  proof (cases "p = pid")
    case True
    then have "pid \<notin> set pids" using Cons.prems(1) by simp
    from poll_pids_others [OF this, of hex_decode fs remaining' found' w1]
    have "read_up_to pid (snd (poll_pids hex_decode fs pids remaining' found' w1)) = read_up_to pid w1"
      by (simp add: read_up_to_def)
    then show ?thesis using read [of wfile c] Cons.prems(4) assms(5,6) True step by simp
  next
    case False
    then have later: "pid \<in> set pids" "map_of (kw_eligible w1) pid = Some wfile" using Cons.prems(2,4) others by auto
    show ?thesis
    proof (cases "remaining' = 0")
      case True
      then have "poll_pids hex_decode fs pids remaining' found' w1 = (found', w1)" using later(1) by (cases pids) simp_all
      then have final: "snd (poll_pids hex_decode fs (p # pids) remaining found w) = w1" by (simp only: step snd_conv)
      have "p # pids = [] @ kw_last_polled_pid w1 # pids \<and> pid \<in> set pids" using stop [OF True] later(1) by simp
      then show ?thesis unfolding final using later(2) by blast
    next
      case False
      with Cons.IH [of remaining' w1 found'] Cons.prems(1) later
      have "wf_offset wfile < read_up_to pid (snd (poll_pids hex_decode fs pids remaining' found' w1)) \<or>
        map_of (kw_eligible (snd (poll_pids hex_decode fs pids remaining' found' w1))) pid = Some wfile \<and>
        (\<exists>before after. pids = before @ kw_last_polled_pid (snd (poll_pids hex_decode fs pids remaining' found' w1)) # after \<and> pid \<in> set after)"
        by simp
      then show ?thesis unfolding step by (metis append_Cons)
    qed
  qed
qed simp

lemma sorted_takeWhile_le:
  assumes "sorted xs" "distinct xs" "j < length xs"
  shows "length (takeWhile (\<lambda>x. x \<le> xs ! j) xs) = Suc j"
proof (rule order_antisym)
  show "length (takeWhile (\<lambda>x. x \<le> xs ! j) xs) \<le> Suc j"
  proof (rule ccontr)
    assume "\<not> ?thesis"
    then have more: "Suc j < length (takeWhile (\<lambda>x. x \<le> xs ! j) xs)" by simp
    then have "xs ! Suc j \<le> xs ! j" "Suc j < length xs"
      by (metis nth_mem set_takeWhileD takeWhile_nth, meson length_takeWhile_le less_le_trans more)
    moreover have "xs ! j \<le> xs ! Suc j" using assms(1) \<open>Suc j < length xs\<close> by (simp add: sorted_nth_mono)
    ultimately show False using assms(2) by (metis Suc_lessD nth_eq_iff_index_eq n_not_Suc_n order_antisym)
  qed
  show "Suc j \<le> length (takeWhile (\<lambda>x. x \<le> xs ! j) xs)"
  proof (rule ccontr)
    assume "\<not> ?thesis"
    then have le: "length (takeWhile (\<lambda>x. x \<le> xs ! j) xs) \<le> j" by simp
    then have "\<not> xs ! length (takeWhile (\<lambda>x. x \<le> xs ! j) xs) \<le> xs ! j"
      using assms(3) by (intro nth_length_takeWhile) simp
    then show False using assms(1,3) le by (simp add: sorted_nth_mono)
  qed
qed

text \<open>After a poll the order goes on behind the process that was polled last.\<close>

lemma poll_order_continues:
  assumes "distinct (map fst (kw_eligible w))" "poll_order w = before @ q # after"
    and "map fst (kw_eligible w') = map fst (kw_eligible w)" "kw_last_polled_pid w' = q"
  shows "poll_order w' = after @ before @ [q]"
proof -
  define pids where "pids = sort (map fst (kw_eligible w))"
  have pids: "sorted pids" "distinct pids" "sort (map fst (kw_eligible w')) = pids" using assms(1,3) by (simp_all add: pids_def)
  obtain k where k: "rotate k pids = before @ q # after"
    using assms(2) by (auto simp: poll_order_def pids_def Let_def split: if_splits intro: that [of 0])
  then have n: "length pids = Suc (length before + length after)" by (metis length_rotate length_append length_Cons add_Suc_right)
  define j where "j = (k + length before) mod length pids"
  have j: "j < length pids" using n by (simp add: j_def)
  have "pids ! j = rotate k pids ! length before" using n by (simp add: nth_rotate j_def)
  then have q: "pids ! j = q" by (simp add: k)
  have start: "length (takeWhile (\<lambda>pid. pid \<le> q) pids) = Suc j" using sorted_takeWhile_le [OF pids(1,2) j] q by simp
  have "rotate (Suc j mod length pids) pids = rotate (Suc (k + length before)) pids"
    by (metis j_def mod_Suc_eq rotate_conv_mod)
  also have "\<dots> = rotate (Suc (length before)) (rotate k pids)" by (simp add: rotate_rotate add.commute)
  also have "\<dots> = after @ before @ [q]" using rotate_append [of "before @ [q]" after] by (simp add: k)
  finally have "rotate (Suc j mod length pids) pids = after @ before @ [q]" .
  moreover have "pids \<noteq> []" using n by auto
  ultimately show ?thesis using pids(3) start assms(4) by (simp add: poll_order_def Let_def)
qed

lemma poll_at_rest [simp]:
  "kw_eligible (enforce_caps now w) = kw_eligible w" "kw_last_polled_pid (enforce_caps now w) = kw_last_polled_pid w"
  "kw_eligible (fold (store_found now) found w) = kw_eligible w"
  "kw_last_polled_pid (fold (store_found now) found w) = kw_last_polled_pid w"
proof -
  show "kw_eligible (enforce_caps now w) = kw_eligible w" "kw_last_polled_pid (enforce_caps now w) = kw_last_polled_pid w"
    by (simp_all add: enforce_caps_def)
  have "kw_eligible (fold (store_found now) found w) = kw_eligible w \<and>
      kw_last_polled_pid (fold (store_found now) found w) = kw_last_polled_pid w"
    by (induction found arbitrary: w) (auto simp: store_found_def Let_def)
  then show "kw_eligible (fold (store_found now) found w) = kw_eligible w"
    "kw_last_polled_pid (fold (store_found now) found w) = kw_last_polled_pid w" by simp_all
qed

text \<open>How many processes stand before one in the order.\<close>

definition waits_for :: "nat \<Rightarrow> keylog_watcher \<Rightarrow> nat" where
  "waits_for pid w = length (takeWhile (\<lambda>p. p \<noteq> pid) (poll_order w))"

lemma poll_at_progress:
  assumes "distinct (map fst (kw_eligible w))" "map_of (kw_eligible w) pid = Some wfile"
    and "fs (wf_path wfile) = Readable c" "wf_offset wfile < length c"
  shows "map fst (kw_eligible (poll_at hex_decode fs now w)) = map fst (kw_eligible w) \<and>
    (wf_offset wfile < read_up_to pid (poll_at hex_decode fs now w) \<or>
     map_of (kw_eligible (poll_at hex_decode fs now w)) pid = Some wfile \<and>
     waits_for pid (poll_at hex_decode fs now w) < waits_for pid w)"
proof -
  let ?w' = "poll_at hex_decode fs now w"
  define w1 where "w1 = snd (poll_pids hex_decode fs (poll_order w) max_keylog_read_bytes_per_poll [] w)"
  have same: "kw_eligible ?w' = kw_eligible w1" "kw_last_polled_pid ?w' = kw_last_polled_pid w1"
    by (simp_all add: poll_at_def w1_def split_def)
  have keys: "map fst (kw_eligible ?w') = map fst (kw_eligible w)"
    unfolding same(1) w1_def by (rule poll_pids_keys)
  have order: "distinct (poll_order w)" "pid \<in> set (poll_order w)"
    using poll_order_perm [OF assms(1)] assms(2) by (force dest: map_of_SomeD)+
  have "0 < max_keylog_read_bytes_per_poll" by (simp add: max_keylog_read_bytes_per_poll_def)
  from poll_pids_reach [where fs = fs and w = w and wfile = wfile and c = c, OF order this assms(2-4), of hex_decode "[]", folded w1_def]
  consider "wf_offset wfile < read_up_to pid w1" | before after where "map_of (kw_eligible w1) pid = Some wfile"
    "poll_order w = before @ kw_last_polled_pid w1 # after" "pid \<in> set after" by blast
  then show ?thesis
  proof cases
    case 1
    then show ?thesis using keys same by (simp add: read_up_to_def)
  next
    case 2
    have next_order: "poll_order ?w' = after @ before @ [kw_last_polled_pid w1]"
      using assms(1) 2(2) keys same(2) by (rule poll_order_continues)
    have "pid \<notin> set before" "pid \<noteq> kw_last_polled_pid w1" using order(1) 2(2,3) by auto
    then have "waits_for pid ?w' < waits_for pid w"
      using 2(3) by (auto simp: waits_for_def next_order 2(2) takeWhile_append less_Suc_eq_le trans_le_add2)
    then show ?thesis using keys same 2(1) by simp
  qed
qed

definition polls :: "(rstring \<Rightarrow> byte list option) \<Rightarrow> ((rstring \<Rightarrow> file_state) \<times> nat) list \<Rightarrow> keylog_watcher \<Rightarrow> keylog_watcher" where
  "polls hex_decode steps w = fold (\<lambda>(fs, now). poll_at hex_decode fs now) steps w"

text \<open>More bytes are in a process's file than have been read, at each of some polls.\<close>

definition more_to_read :: "watched_file \<Rightarrow> ((rstring \<Rightarrow> file_state) \<times> nat) list \<Rightarrow> bool" where
  "more_to_read wfile steps \<longleftrightarrow> (\<forall>(fs, now)\<in>set steps. \<exists>c. fs (wf_path wfile) = Readable c \<and> wf_offset wfile < length c)"

lemma poll_at_keeps_reading:
  "read_up_to pid w \<le> read_up_to pid (poll_at hex_decode fs now w)"
proof -
  have "read_up_to pid w \<le> read_up_to pid (snd (poll_pids hex_decode fs pids remaining found w))" for pids remaining found
    by (rule poll_pids_offset)
  then show ?thesis by (simp add: poll_at_def split_def read_up_to_def)
qed

lemma polls_keep_reading: "read_up_to pid w \<le> read_up_to pid (polls hex_decode steps w)"
proof (induction steps arbitrary: w)
  case (Cons step steps)
  obtain fs now where "step = (fs, now)" by (cases step)
  then have "polls hex_decode (step # steps) w = polls hex_decode steps (poll_at hex_decode fs now w)" by (simp add: polls_def)
  then show ?case using order_trans [OF poll_at_keeps_reading Cons.IH] by simp
qed (simp add: polls_def)

lemma polls_progress:
  assumes "distinct (map fst (kw_eligible w))" "map_of (kw_eligible w) pid = Some wfile" "more_to_read wfile steps"
    and "waits_for pid w < length steps"
  shows "wf_offset wfile < read_up_to pid (polls hex_decode steps w)"
  using assms
proof (induction steps arbitrary: w)
  case (Cons step steps)
  obtain fs now where step: "step = (fs, now)" by (cases step)
  let ?w = "poll_at hex_decode fs now w"
  have run: "polls hex_decode (step # steps) w = polls hex_decode steps ?w" by (simp add: polls_def step)
  obtain c where "fs (wf_path wfile) = Readable c" "wf_offset wfile < length c"
    using Cons.prems(3) by (auto simp: more_to_read_def step)
  from poll_at_progress [where fs = fs and now = now and hex_decode = hex_decode, OF Cons.prems(1,2) this]
  have keys: "map fst (kw_eligible ?w) = map fst (kw_eligible w)"
    and "wf_offset wfile < read_up_to pid ?w \<or> map_of (kw_eligible ?w) pid = Some wfile \<and> waits_for pid ?w < waits_for pid w" by blast+
  then show ?case
  proof (elim disjE conjE)
    assume "wf_offset wfile < read_up_to pid ?w"
    also have "\<dots> \<le> read_up_to pid (polls hex_decode steps ?w)" by (rule polls_keep_reading)
    finally show ?thesis by (simp add: run)
  next
    assume "map_of (kw_eligible ?w) pid = Some wfile" "waits_for pid ?w < waits_for pid w"
    moreover have "more_to_read wfile steps" using Cons.prems(3) by (simp add: more_to_read_def)
    ultimately show ?thesis
      unfolding run using Cons.prems(1,4) keys by (intro Cons.IH) simp_all
  qed
qed simp

lemma takeWhile_stops: "x \<in> set xs \<Longrightarrow> length (takeWhile (\<lambda>y. y \<noteq> x) xs) < length xs"
  by (induction xs) auto

lemma waits_for_less:
  assumes "distinct (map fst (kw_eligible w))" "map_of (kw_eligible w) pid = Some wfile"
  shows "waits_for pid w < length (kw_eligible w)"
proof -
  note perm = poll_order_perm [OF assms(1)]
  have "pid \<in> set (poll_order w)" using poll_order_perm(2) [OF assms(1)] assms(2) by (force dest: map_of_SomeD)
  then have "waits_for pid w < length (poll_order w)" unfolding waits_for_def by (rule takeWhile_stops)
  also have "length (poll_order w) = length (kw_eligible w)"
    using perm by (metis distinct_card length_map set_map assms(1))
  finally show ?thesis .
qed

text \<open>
  C16: One poll over the key log files of all watched processes, with the watcher in step with each
  file: for every process the secrets found are exactly those of the lines completed by the bytes
  read now, whatever chunks earlier polls read the file in; the watcher stays in step; and the poll
  reads 64 KiB, or all that is unread when that is less. Lines over 1024 bytes and lines that do not
  parse are skipped, and only they. And no process keeps another from being read: of as many polls
  as there are processes at least one reads on in a given process's file as long as there is more in
  it, whatever the other files hold, grow by or fail with, while no process is registered or withdrawn.
\<close>
theorem keylog_poll_reads_every_line:
  assumes "in_step fs content w" "distinct (map fst (kw_eligible w))"
    and "poll_pids hex_decode fs (poll_order w) max_keylog_read_bytes_per_poll [] w = (found, w')"
    and "map_of (kw_eligible w) waiting = Some wfile" "more_to_read wfile steps" "length (kw_eligible w) \<le> length steps"
  shows "in_step fs content w' \<and>
    (\<forall>pid. read_up_to pid w \<le> read_up_to pid w' \<and>
       file_secrets hex_decode (take (read_up_to pid w') (content pid)) =
         file_secrets hex_decode (take (read_up_to pid w) (content pid)) @ found_for pid found) \<and>
    (\<Sum>pid\<in>fst ` set (kw_eligible w). unread content pid w) =
      (\<Sum>pid\<in>fst ` set (kw_eligible w). unread content pid w') + min 65536 (\<Sum>pid\<in>fst ` set (kw_eligible w). unread content pid w) \<and>
    read_up_to waiting w < read_up_to waiting (polls hex_decode steps w)"
proof -
  note perm = poll_order_perm [OF assms(2)]
  have "pass_ok hex_decode fs content (poll_order w) max_keylog_read_bytes_per_poll w found w'"
    using poll_pids_pass [OF assms(1) perm(1), of hex_decode max_keylog_read_bytes_per_poll "[]"] perm(2) assms(3) by simp
  moreover have "sum_list (map f (poll_order w)) = sum f (fst ` set (kw_eligible w))" for f :: "nat \<Rightarrow> nat"
    using sum_list_distinct_conv_sum_set [OF perm(1)] perm(2) by metis
  moreover have "waits_for waiting w < length steps" using waits_for_less [OF assms(2,4)] assms(6) by simp
  then have "read_up_to waiting w < read_up_to waiting (polls hex_decode steps w)"
    using polls_progress [OF assms(2,4,5)] assms(4) by (simp add: read_up_to_def)
  ultimately show ?thesis by (simp add: pass_ok_def max_keylog_read_bytes_per_poll_def)
qed

definition demo_watcher :: keylog_watcher where
  "demo_watcher = register_eligible_pid 7 (lit ''k'') keylog_watcher_new"

definition demo_poll :: "(nat \<times> session_secret) list \<times> keylog_watcher" where
  "demo_poll = poll_pids (\<lambda>_. Some [1]) (\<lambda>_. Readable (lit ''A b c'' @ [10, 35])) (poll_order demo_watcher)
     max_keylog_read_bytes_per_poll [] demo_watcher"

theorem keylog_poll_reads_every_line_witness:
  "file_secrets (\<lambda>_. Some [1]) (lit ''A b c'' @ [10, 35]) = found_for 7 (fst demo_poll) \<and>
   unread (\<lambda>_. lit ''A b c'' @ [10, 35]) 7 (snd demo_poll) = 0 \<and>
   0 < read_up_to 7 (polls (\<lambda>_. Some [1]) [(\<lambda>_. Readable (lit ''A b c'' @ [10, 35]), 0)] demo_watcher)"
proof -
  let ?c = "lit ''A b c'' @ [10, 35]"
  have el: "kw_eligible demo_watcher = [(7, \<lparr>wf_path = lit ''k'', wf_offset = 0, wf_pending_line = [], wf_discarding_oversized_line = False\<rparr>)]"
    by (simp add: demo_watcher_def register_eligible_pid_def keylog_watcher_new_def)
  have "in_step (\<lambda>_. Readable ?c) (\<lambda>_. ?c) demo_watcher"
    by (auto simp: in_step_def el tracks_registered split: if_splits)
  moreover have "distinct (map fst (kw_eligible demo_watcher))" by (simp add: el)
  moreover have "poll_pids (\<lambda>_. Some [1]) (\<lambda>_. Readable ?c) (poll_order demo_watcher)
     max_keylog_read_bytes_per_poll [] demo_watcher = (fst demo_poll, snd demo_poll)" by (simp add: demo_poll_def)
  moreover have "map_of (kw_eligible demo_watcher) 7 =
      Some \<lparr>wf_path = lit ''k'', wf_offset = 0, wf_pending_line = [], wf_discarding_oversized_line = False\<rparr>" by (simp add: el)
  moreover have "more_to_read \<lparr>wf_path = lit ''k'', wf_offset = 0, wf_pending_line = [], wf_discarding_oversized_line = False\<rparr>
      [(\<lambda>_. Readable ?c, 0)]" by (simp add: more_to_read_def)
  moreover have "length (kw_eligible demo_watcher) \<le> length [(\<lambda>_ :: rstring. Readable ?c, 0 :: nat)]" by (simp add: el)
  ultimately have all: "in_step (\<lambda>_. Readable ?c) (\<lambda>_. ?c) (snd demo_poll) \<and>
    (\<forall>pid. read_up_to pid demo_watcher \<le> read_up_to pid (snd demo_poll) \<and>
       file_secrets (\<lambda>_. Some [1]) (take (read_up_to pid (snd demo_poll)) ?c) =
         file_secrets (\<lambda>_. Some [1]) (take (read_up_to pid demo_watcher) ?c) @ found_for pid (fst demo_poll)) \<and>
    (\<Sum>pid\<in>fst ` set (kw_eligible demo_watcher). unread (\<lambda>_. ?c) pid demo_watcher) =
      (\<Sum>pid\<in>fst ` set (kw_eligible demo_watcher). unread (\<lambda>_. ?c) pid (snd demo_poll)) +
      min 65536 (\<Sum>pid\<in>fst ` set (kw_eligible demo_watcher). unread (\<lambda>_. ?c) pid demo_watcher) \<and>
    read_up_to 7 demo_watcher < read_up_to 7 (polls (\<lambda>_. Some [1]) [(\<lambda>_. Readable ?c, 0)] demo_watcher)"
    by (rule keylog_poll_reads_every_line)
  have start: "read_up_to 7 demo_watcher = 0" by (simp add: read_up_to_def el)
  have len: "length (lit ''A b c'') = 5" by (simp add: lit_def)
  have left: "unread (\<lambda>_. ?c) 7 (snd demo_poll) = 0"
    using all by (simp add: el unread_def start len)
  then have "take (read_up_to 7 (snd demo_poll)) ?c = ?c" by (simp add: unread_def)
  moreover have "file_secrets (\<lambda>_. Some [1]) (take 0 ?c) = []" by (simp add: file_secrets_def map_filter_simps)
  moreover have "file_secrets (\<lambda>_. Some [1]) (take (read_up_to 7 (snd demo_poll)) ?c) =
      file_secrets (\<lambda>_. Some [1]) (take (read_up_to 7 demo_watcher) ?c) @ found_for 7 (fst demo_poll)"
    using all by blast
  moreover have "0 < read_up_to 7 (polls (\<lambda>_. Some [1]) [(\<lambda>_. Readable ?c, 0)] demo_watcher)"
    using all start by simp
  ultimately show ?thesis using left unfolding start by simp
qed

section \<open>What is kept is bounded\<close>

inductive keylog_reachable :: "(rstring \<Rightarrow> byte list option) \<Rightarrow> keylog_watcher \<Rightarrow> bool" for hex_decode where
  start: "keylog_reachable hex_decode keylog_watcher_new"
| register: "keylog_reachable hex_decode w \<Longrightarrow> keylog_reachable hex_decode (register_eligible_pid pid path w)"
| unregister: "keylog_reachable hex_decode w \<Longrightarrow> keylog_reachable hex_decode (unregister_pid pid w)"
| poll: "keylog_reachable hex_decode w \<Longrightarrow> keylog_reachable hex_decode (poll_at hex_decode fs now w)"
| mark: "keylog_reachable hex_decode w \<Longrightarrow> keylog_reachable hex_decode (mark_flow_seen pid random w)"
| taken: "keylog_reachable hex_decode w \<Longrightarrow> keylog_reachable hex_decode (snd (take_secret pid random label w))"
| removed: "keylog_reachable hex_decode w \<Longrightarrow> keylog_reachable hex_decode (remove_flow_secrets pid random w)"

definition watcher_ok :: "keylog_watcher \<Rightarrow> bool" where
  "watcher_ok w \<longleftrightarrow> distinct (map fst (kw_secrets w)) \<and> fst ` fst ` set (kw_secrets w) \<subseteq> fst ` set (kw_eligible w)"

definition within_caps :: "(secret_key \<times> stored_secret) list \<Rightarrow> bool" where
  "within_caps secrets \<longleftrightarrow> secret_bytes secrets \<le> max_keylog_secret_bytes \<and>
     (\<forall>pid. card (sessions_held pid secrets) \<le> max_keylog_sessions_per_pid)"

lemma finite_sessions_held: "finite (sessions_held pid secrets)"
proof -
  have "sessions_held pid secrets \<subseteq> snd ` session_of ` set secrets"
  proof
    fix random assume "random \<in> sessions_held pid secrets"
    then have "(pid, random) \<in> session_of ` set secrets" by (simp add: sessions_held_def)
    then show "random \<in> snd ` session_of ` set secrets" by (rule image_eqI [rotated]) simp
  qed
  then show ?thesis by (rule finite_subset) simp
qed

lemma sessions_held_mono: "set xs \<subseteq> set ys \<Longrightarrow> card (sessions_held pid xs) \<le> card (sessions_held pid ys)"
  by (intro card_mono finite_sessions_held) (auto simp: sessions_held_def)

lemma cap_sessions_filter: "\<exists>P. cap_sessions pid secrets = filter P secrets"
proof (induction pid secrets rule: cap_sessions.induct)
  case (1 pid secrets)
  show ?case
  proof (cases "length (pid_sessions pid secrets) \<le> max_keylog_sessions_per_pid")
    case True
    then show ?thesis by (subst cap_sessions.simps) (auto intro: exI [of _ "\<lambda>_. True"])
  next
    case False
    then have "pid_sessions pid secrets \<noteq> []" by auto
    then obtain oldest where oldest: "min_by_key snd (pid_sessions pid secrets) = Some oldest"
      by (cases "min_by_key snd (pid_sessions pid secrets)") auto
    obtain P where "cap_sessions pid (drop_session pid (fst oldest) secrets) = filter P (drop_session pid (fst oldest) secrets)"
      using "1.IH" [OF refl False oldest] by (cases oldest) auto
    then show ?thesis
      using False oldest by (subst cap_sessions.simps) (auto simp: drop_session_eq split: prod.splits)
  qed
qed

lemma cap_sessions_bound: "card (sessions_held pid (cap_sessions pid secrets)) \<le> max_keylog_sessions_per_pid"
proof (induction pid secrets rule: cap_sessions.induct)
  case (1 pid secrets)
  show ?case
  proof (cases "length (pid_sessions pid secrets) \<le> max_keylog_sessions_per_pid")
    case True
    then show ?thesis by (subst cap_sessions.simps) (simp add: length_pid_sessions)
  next
    case False
    then have "pid_sessions pid secrets \<noteq> []" by auto
    then obtain oldest where oldest: "min_by_key snd (pid_sessions pid secrets) = Some oldest"
      by (cases "min_by_key snd (pid_sessions pid secrets)") auto
    then show ?thesis
      using False "1.IH" [OF refl False oldest] by (subst cap_sessions.simps) (cases oldest, simp)
  qed
qed

lemma cap_bytes_filter: "\<exists>P. cap_bytes secrets = filter P secrets"
proof (induction secrets rule: cap_bytes.induct)
  case (1 secrets)
  show ?case
  proof (cases "secret_bytes secrets > max_keylog_secret_bytes")
    case False
    then show ?thesis by (subst cap_bytes.simps) (auto intro: exI [of _ "\<lambda>_. True"])
  next
    case True
    show ?thesis
    proof (cases "min_by_key (st_order \<circ> snd) secrets")
      case None
      then show ?thesis by (subst cap_bytes.simps) (auto intro: exI [of _ "\<lambda>_. True"])
    next
      case (Some oldest)
      obtain P where "cap_bytes (AList.delete (fst oldest) secrets) = filter P (AList.delete (fst oldest) secrets)"
        using "1.IH" [OF True Some] by (cases oldest) auto
      then show ?thesis
        using True Some by (subst cap_bytes.simps) (auto simp: AList.delete_eq split: prod.splits)
    qed
  qed
qed

lemma cap_bytes_bound: "secret_bytes (cap_bytes secrets) \<le> max_keylog_secret_bytes"
proof (induction secrets rule: cap_bytes.induct)
  case (1 secrets)
  show ?case
  proof (cases "secret_bytes secrets > max_keylog_secret_bytes")
    case True
    then have "secrets \<noteq> []" by (auto simp: secret_bytes_def)
    then obtain oldest where oldest: "min_by_key (st_order \<circ> snd) secrets = Some oldest"
      by (cases "min_by_key (st_order \<circ> snd) secrets") auto
    then show ?thesis using True "1.IH" [OF True oldest] by (subst cap_bytes.simps) (cases oldest, simp)
  qed (subst cap_bytes.simps, simp)
qed


lemma fold_cap_sessions:
  "set (fold cap_sessions pids secrets) \<subseteq> set secrets"
  "distinct (map fst secrets) \<Longrightarrow> distinct (map fst (fold cap_sessions pids secrets))"
  "pid \<in> set pids \<Longrightarrow> card (sessions_held pid (fold cap_sessions pids secrets)) \<le> max_keylog_sessions_per_pid"
proof -
  have sub: "set (cap_sessions pid secrets) \<subseteq> set secrets" for pid secrets
    using cap_sessions_filter [of pid secrets] by auto
  have subset: "set (fold cap_sessions pids secrets) \<subseteq> set secrets" for pids secrets
  proof (induction pids arbitrary: secrets)
    case (Cons p pids)
    have "set (fold cap_sessions pids (cap_sessions p secrets)) \<subseteq> set (cap_sessions p secrets)" by (rule Cons.IH)
    also have "\<dots> \<subseteq> set secrets" by (rule sub)
    finally show ?case by simp
  qed simp
  then show "set (fold cap_sessions pids secrets) \<subseteq> set secrets" .
  show "distinct (map fst secrets) \<Longrightarrow> distinct (map fst (fold cap_sessions pids secrets))"
  proof (induction pids arbitrary: secrets)
    case (Cons pid pids)
    obtain P where "cap_sessions pid secrets = filter P secrets" using cap_sessions_filter by blast
    then show ?case using Cons.IH [of "filter P secrets"] Cons.prems by (simp add: distinct_map_filter)
  qed simp
  show "pid \<in> set pids \<Longrightarrow> card (sessions_held pid (fold cap_sessions pids secrets)) \<le> max_keylog_sessions_per_pid"
  proof (induction pids arbitrary: secrets)
    case (Cons p pids)
    then show ?case
      using cap_sessions_bound [of p secrets] sessions_held_mono [OF subset, of p pids "cap_sessions p secrets"]
      by (auto intro: le_trans)
  qed simp
qed

lemma poll_pids_owners:
  assumes "poll_pids hex_decode fs pids remaining found w = (found', w')"
  shows "map fst (kw_eligible w') = map fst (kw_eligible w)" "kw_secrets w' = kw_secrets w"
    and "fst ` set found' \<subseteq> fst ` set found \<union> fst ` set (kw_eligible w)"
proof -
  have "map fst (kw_eligible w') = map fst (kw_eligible w) \<and> kw_secrets w' = kw_secrets w \<and>
      fst ` set found' \<subseteq> fst ` set found \<union> fst ` set (kw_eligible w)"
    using assms
  proof (induction pids arbitrary: remaining found w)
    case (Cons pid pids)
    consider (stop) "remaining = 0"
      | (skip) w1 where "poll_pids hex_decode fs pids remaining found w1 = (found', w')"
          "kw_eligible w1 = kw_eligible w" "kw_secrets w1 = kw_secrets w"
      | (reads) watched content where "map_of (kw_eligible w) pid = Some watched" "fs (wf_path watched) = Readable content" "remaining \<noteq> 0"
    proof (cases "remaining = 0")
      case False
      show thesis
      proof (cases "map_of (kw_eligible w) pid")
        case None
        then show thesis using Cons.prems False that(2) [of w] by simp
      next
        case (Some watched)
        then show thesis
          using Cons.prems False that(2) [of w] that(2) [of "w\<lparr>kw_last_polled_pid := pid\<rparr>"] that(3) [OF Some]
          by (cases "fs (wf_path watched)") simp_all
      qed
    qed (use that(1) in simp)
    then show ?case
    proof cases
      case stop
      then show ?thesis using Cons.prems by simp
    next
      case skip
      then show ?thesis using Cons.IH [OF skip(1)] by simp
    next
      case reads
      let ?buf = "take remaining (drop (wf_offset watched) content)"
      obtain watched1 secrets where "scan_bytes hex_decode ?buf (watched\<lparr>wf_offset := wf_offset watched + length ?buf\<rparr>) = (watched1, secrets)"
        by force
      then have step: "poll_pids hex_decode fs pids (remaining - length ?buf) (found @ map (Pair pid) secrets)
          (w\<lparr>kw_last_polled_pid := pid, kw_eligible := AList.update pid watched1 (kw_eligible w)\<rparr>) = (found', w')"
        using Cons.prems reads by (simp add: Let_def)
      have "map fst (AList.update pid watched1 (kw_eligible w)) = map fst (kw_eligible w)"
        using reads(1) by (rule map_fst_update_member)
      moreover from this have "fst ` set (AList.update pid watched1 (kw_eligible w)) = fst ` set (kw_eligible w)"
        by (metis set_map)
      moreover have within: "fst ` set (found @ map (Pair pid) secrets) \<subseteq> fst ` set found \<union> fst ` set (kw_eligible w)"
        using reads(1) by (force dest: map_of_SomeD)
      ultimately have "map fst (kw_eligible w') = map fst (kw_eligible w)" "kw_secrets w' = kw_secrets w"
        and after: "fst ` set found' \<subseteq> fst ` set (found @ map (Pair pid) secrets) \<union> fst ` set (kw_eligible w)"
        using Cons.IH [OF step] by simp_all
      moreover have "fst ` set found' \<subseteq> fst ` set found \<union> fst ` set (kw_eligible w)"
        by (rule subset_trans [OF after]) (intro Un_least within Un_upper2)
      ultimately show ?thesis by simp
    qed
  qed simp
  then show "map fst (kw_eligible w') = map fst (kw_eligible w)" "kw_secrets w' = kw_secrets w"
    "fst ` set found' \<subseteq> fst ` set found \<union> fst ` set (kw_eligible w)" by blast+
qed

lemma watcher_ok_store:
  assumes "watcher_ok w" "fst f \<in> fst ` set (kw_eligible w)"
  shows "watcher_ok (store_found now f w)" "kw_eligible (store_found now f w) = kw_eligible w"
  using assms by (auto simp: watcher_ok_def store_found_def Let_def distinct_update split_def dom_update)

lemma watcher_ok_fold_store:
  assumes "watcher_ok w" "fst ` set found \<subseteq> fst ` set (kw_eligible w)"
  shows "watcher_ok (fold (store_found now) found w) \<and> kw_eligible (fold (store_found now) found w) = kw_eligible w"
  using assms by (induction found arbitrary: w) (auto simp: watcher_ok_store)

lemma watcher_ok_smaller:
  assumes "watcher_ok w" "set secrets \<subseteq> set (kw_secrets w)" "distinct (map fst secrets)"
    and "fst ` set (kw_eligible w) \<subseteq> fst ` set (kw_eligible w')" "kw_secrets w' = secrets"
  shows "watcher_ok w'"
  using assms unfolding watcher_ok_def by (meson image_mono order_trans)

lemma enforce_caps_ok:
  assumes "watcher_ok w"
  shows "watcher_ok (enforce_caps now w)" "within_caps (kw_secrets (enforce_caps now w))"
proof -
  define base where "base = drop_expired now (kw_secrets w)"
  define capped where "capped = fold cap_sessions (map fst (kw_eligible w)) base"
  have base: "set base \<subseteq> set (kw_secrets w)" "distinct (map fst base)"
    using assms by (auto simp: base_def drop_expired_def watcher_ok_def intro: distinct_map_filter)
  have capped: "set capped \<subseteq> set base" "distinct (map fst capped)"
    using fold_cap_sessions(1) [of "map fst (kw_eligible w)" base] fold_cap_sessions(2) [OF base(2)]
    by (simp_all add: capped_def)
  obtain P where P: "cap_bytes capped = filter P capped" using cap_bytes_filter by blast
  have new: "kw_secrets (enforce_caps now w) = cap_bytes capped" by (simp add: enforce_caps_def base_def capped_def)
  have sub: "set (cap_bytes capped) \<subseteq> set capped" using P by auto
  show "watcher_ok (enforce_caps now w)"
  proof (rule watcher_ok_smaller [OF assms _ _ _ new])
    show "set (cap_bytes capped) \<subseteq> set (kw_secrets w)" using sub capped(1) base(1) by blast
    show "distinct (map fst (cap_bytes capped))" unfolding P using capped(2) by (rule distinct_map_filter)
  qed (simp add: enforce_caps_def)
  have "card (sessions_held pid (cap_bytes capped)) \<le> max_keylog_sessions_per_pid" for pid
  proof (cases "pid \<in> fst ` set (kw_eligible w)")
    case True
    then have "card (sessions_held pid capped) \<le> max_keylog_sessions_per_pid"
      unfolding capped_def by (intro fold_cap_sessions(3)) simp
    then show ?thesis using sessions_held_mono [OF sub] le_trans by blast
  next
    case False
    have "sessions_held pid (cap_bytes capped) = {}"
    proof (rule ccontr)
      assume "sessions_held pid (cap_bytes capped) \<noteq> {}"
      then obtain e where "e \<in> set (kw_secrets w)" "fst (fst e) = pid"
        using sub capped(1) base(1) unfolding sessions_held_def session_of_def
        by (smt (verit) Collect_empty_eq Pair_inject imageE subsetD)
      then show False using False assms by (force simp: watcher_ok_def)
    qed
    then show ?thesis by simp
  qed
  then show "within_caps (kw_secrets (enforce_caps now w))"
    using cap_bytes_bound [of capped] by (simp add: within_caps_def new)
qed

lemma poll_at_ok:
  assumes "watcher_ok w"
  shows "watcher_ok (poll_at hex_decode fs now w)" "within_caps (kw_secrets (poll_at hex_decode fs now w))"
proof -
  obtain found w1 where p: "poll_pids hex_decode fs (poll_order w) max_keylog_read_bytes_per_poll [] w = (found, w1)" by force
  note own = poll_pids_owners [OF p]
  have keys: "fst ` set (kw_eligible w1) = fst ` set (kw_eligible w)" using own(1) by (metis set_map)
  have "watcher_ok w1" using assms own(2) keys by (simp add: watcher_ok_def)
  moreover have "fst ` set found \<subseteq> fst ` set (kw_eligible w1)" using own(3) keys by simp
  ultimately have "watcher_ok (fold (store_found now) found w1)" using watcher_ok_fold_store by blast
  from enforce_caps_ok [OF this] show "watcher_ok (poll_at hex_decode fs now w)"
    "within_caps (kw_secrets (poll_at hex_decode fs now w))" by (simp_all add: poll_at_def p)
qed

lemma within_caps_smaller:
  assumes "within_caps xs" "set ys \<subseteq> set xs" "secret_bytes ys \<le> secret_bytes xs"
  shows "within_caps ys"
  using assms sessions_held_mono [OF assms(2)] unfolding within_caps_def by (meson le_trans)


lemma weigh_filter_le: "weigh w (filter P xs) \<le> weigh w xs"
  by (induction xs) (auto simp: weigh_def)

lemma filtered_ok:
  assumes "kw_secrets w' = filter P (kw_secrets w)" "kw_eligible w' = kw_eligible w"
    and "watcher_ok w" "within_caps (kw_secrets w)"
  shows "watcher_ok w' \<and> within_caps (kw_secrets w')"
proof
  show "watcher_ok w'"
    by (rule watcher_ok_smaller [of w "filter P (kw_secrets w)"])
       (use assms in \<open>simp_all add: watcher_ok_def distinct_map_filter\<close>)
  show "within_caps (kw_secrets w')"
    unfolding assms(1) by (rule within_caps_smaller [OF assms(4)]) (simp_all add: secret_bytes_def weigh_filter_le)
qed

lemma keylog_reachable_ok: "keylog_reachable hex_decode w \<Longrightarrow> watcher_ok w \<and> within_caps (kw_secrets w)"
proof (induction rule: keylog_reachable.induct)
  case start
  then show ?case
    by (simp add: keylog_watcher_new_def watcher_ok_def within_caps_def secret_bytes_def weigh_def sessions_held_def)
next
  case (register w pid path)
  have "watcher_ok (register_eligible_pid pid path w)"
    by (rule watcher_ok_smaller [of w "kw_secrets w"])
       (use register in \<open>simp_all add: register_eligible_pid_def dom_update watcher_ok_def subset_insertI\<close>)
  then show ?case using register by (simp add: register_eligible_pid_def)
next
  case (unregister w pid)
  let ?s = "kw_secrets (unregister_pid pid w)"
  have "watcher_ok (unregister_pid pid w)"
  proof -
    have own: "fst ` fst ` set ?s \<subseteq> fst ` fst ` set (kw_secrets w) - {pid}" by (auto simp: unregister_pid_def)
    have keys: "fst ` set (kw_eligible (unregister_pid pid w)) = fst ` set (kw_eligible w) - {pid}"
      by (simp add: unregister_pid_def flip: set_map) (simp add: delete_keys)
    have uniq: "distinct (map fst ?s)"
      using unregister by (simp add: watcher_ok_def unregister_pid_def distinct_map_filter)
    have sub: "fst ` fst ` set (kw_secrets w) - {pid} \<subseteq> fst ` set (kw_eligible w) - {pid}"
      using unregister by (intro Diff_mono) (simp_all add: watcher_ok_def)
    show ?thesis unfolding watcher_ok_def keys using uniq order_trans [OF own sub] by (rule conjI)
  qed
  moreover have "within_caps ?s"
    by (rule within_caps_smaller [of "kw_secrets w"])
       (use unregister in \<open>simp_all add: unregister_pid_def secret_bytes_def weigh_filter_le\<close>)
  ultimately show ?case ..
next
  case (poll w fs now)
  then show ?case using poll_at_ok by blast
next
  case (mark w pid random)
  let ?s = "kw_secrets (mark_flow_seen pid random w)"
  have keys: "map fst ?s = map fst (kw_secrets w)" by (auto simp: mark_flow_seen_def)
  then have firsts: "fst ` set ?s = fst ` set (kw_secrets w)" by (simp only: flip: set_map)
  have key: "session_of ` S = (\<lambda>k. (fst k, fst (snd k))) ` fst ` S" for S
    by (simp add: session_of_def image_image)
  have "session_of ` set ?s = session_of ` set (kw_secrets w)" by (simp only: key firsts)
  moreover have "secret_bytes ?s = secret_bytes (kw_secrets w)"
    by (auto simp: secret_bytes_def weigh_def mark_flow_seen_def intro!: arg_cong [where f = sum_list])
  moreover have "kw_eligible (mark_flow_seen pid random w) = kw_eligible w" by (simp add: mark_flow_seen_def)
  ultimately show ?case using mark keys firsts by (simp add: watcher_ok_def within_caps_def sessions_held_def)
next
  case (taken w pid random label)
  let ?w = "snd (take_secret pid random label w)"
  have s: "kw_secrets ?w = filter (\<lambda>(k', _). (pid, random, label) \<noteq> k') (kw_secrets w)" "kw_eligible ?w = kw_eligible w"
    by (simp_all add: take_secret_def AList.delete_eq)
  show ?case using filtered_ok [OF s(1)] s(2) taken by simp
next
  case (removed w pid random)
  let ?w = "remove_flow_secrets pid random w"
  have s: "kw_secrets ?w = filter (\<lambda>((owner, rnd, _), _). owner \<noteq> pid \<or> rnd \<noteq> random) (kw_secrets w)"
    "kw_eligible ?w = kw_eligible w"
    by (simp_all add: remove_flow_secrets_def)
  show ?case using filtered_ok [OF s(1)] s(2) removed by simp
qed

text \<open>
  In every state the watcher can reach, whatever the key log files hold, at most 128 sessions per
  process and one mebibyte of secrets are kept, and only for processes that are still registered.
\<close>
lemma keylog_secrets_bounded:
  assumes "keylog_reachable hex_decode w"
  shows "secret_bytes (kw_secrets w) \<le> 1048576 \<and> (\<forall>pid. card (sessions_held pid (kw_secrets w)) \<le> 128) \<and>
    (\<forall>pid random label. secret_for pid random label w \<noteq> None \<longrightarrow> is_eligible pid w)"
proof -
  have "watcher_ok w" "within_caps (kw_secrets w)" using keylog_reachable_ok [OF assms] by blast+
  moreover have "is_eligible pid w" if secret: "secret_for pid random label w \<noteq> None" for pid random label
  proof -
    obtain s where "map_of (kw_secrets w) (pid, random, label) = Some s" using secret by (auto simp: secret_for_def)
    then have "(pid, random, label) \<in> fst ` set (kw_secrets w)" by (force dest: map_of_SomeD)
    then have "pid \<in> fst ` set (kw_eligible w)" using \<open>watcher_ok w\<close> unfolding watcher_ok_def by force
    then show ?thesis by (simp add: is_eligible_def map_of_eq_None_iff)
  qed
  ultimately show ?thesis
    by (simp add: within_caps_def max_keylog_secret_bytes_def max_keylog_sessions_per_pid_def)
qed


lemma keylog_secrets_bounded_witness:
  "\<forall>hex_decode fs now. let w = poll_at hex_decode fs now (register_eligible_pid 7 (lit ''k'') keylog_watcher_new)
     in secret_bytes (kw_secrets w) \<le> 1048576 \<and> (\<forall>pid. card (sessions_held pid (kw_secrets w)) \<le> 128)"
  using keylog_secrets_bounded [OF keylog_reachable.poll [OF keylog_reachable.register [OF keylog_reachable.start]]]
  by (simp add: Let_def)

end
