(* ===== verification/TlsDecrypt.thy ===== *)
theory TlsDecrypt
  imports KeyLog
begin

text \<open>
  Decryption of one TLS 1.3 record (\<open>tls_decrypt.rs\<close>). The primitives of the \<open>ring\<close> crate, HKDF expansion
  and the AEAD, are third-party code: the fields of a record \<open>crypto\<close> that every definition takes.
\<close>

record crypto =
  hkdf_expand :: "byte list \<Rightarrow> byte list \<Rightarrow> nat \<Rightarrow> byte list option"
  aead_key_ok :: "byte list \<Rightarrow> bool"
  aead_tag_len :: nat
  aead_open :: "byte list \<Rightarrow> byte list \<Rightarrow> byte list \<Rightarrow> byte list \<Rightarrow> byte list option"

datatype decrypt_outcome =
  Plaintext (dec_content_type: byte) (dec_bytes: "byte list")
| Undecryptable (dec_reason: string)

definition be64 :: "nat \<Rightarrow> byte list" where
  "be64 n = map (\<lambda>i. of_nat (n div 256 ^ (7 - i))) [0..<8]"

definition nonce_for_sequence :: "byte list \<Rightarrow> nat \<Rightarrow> byte list" where
  "nonce_for_sequence iv sequence = take 4 iv @ map2 (XOR) (drop 4 iv) (be64 sequence)"

definition hkdf_label :: "rstring \<Rightarrow> nat \<Rightarrow> byte list" where
  "hkdf_label label out_len =
     (let full_label = lit ''tls13 '' @ label
      in [of_nat (out_len div 256), of_nat out_len] @ [of_nat (length full_label)] @ full_label @ [0])"

definition hkdf_expand_label :: "crypto \<Rightarrow> byte list \<Rightarrow> rstring \<Rightarrow> nat \<Rightarrow> byte list option" where
  "hkdf_expand_label cr secret label out_len = hkdf_expand cr secret (hkdf_label label out_len) out_len"

definition derive_key_and_iv :: "crypto \<Rightarrow> byte list \<Rightarrow> (byte list \<times> byte list) option" where
  "derive_key_and_iv cr traffic_secret =
     (case hkdf_expand_label cr traffic_secret (lit ''key'') 16 of
        None \<Rightarrow> None
      | Some key_bytes \<Rightarrow>
          (case hkdf_expand_label cr traffic_secret (lit ''iv'') 12 of
             None \<Rightarrow> None
           | Some iv_bytes \<Rightarrow> Some (key_bytes, iv_bytes)))"

definition next_traffic_secret :: "crypto \<Rightarrow> session_secret \<Rightarrow> byte list option" where
  "next_traffic_secret cr secret =
     hkdf_expand_label cr (ss_secret secret) (lit ''traffic upd'') (length (ss_secret secret))"

text \<open>The padding after the content type: the position behind the last byte that is not zero.\<close>

fun strip_padding :: "byte list \<Rightarrow> nat \<Rightarrow> nat" where
  "strip_padding plaintext 0 = 0"
| "strip_padding plaintext (Suc n) = (if plaintext ! n = 0 then strip_padding plaintext n else Suc n)"

definition decrypt_record :: "crypto \<Rightarrow> byte list \<Rightarrow> session_secret \<Rightarrow> nat \<Rightarrow> decrypt_outcome" where
  "decrypt_record cr rec secret sequence =
     (if length rec < 5 \<or> rec ! 0 \<noteq> 0x17 then Undecryptable ''not an application_data record''
      else
        let body = drop 5 rec
        in if length body < aead_tag_len cr then Undecryptable ''record too short for AEAD tag''
           else
             case derive_key_and_iv cr (ss_secret secret) of
               None \<Rightarrow> Undecryptable ''key derivation failed''
             | Some (key_bytes, iv) \<Rightarrow>
                 if \<not> aead_key_ok cr key_bytes then Undecryptable ''invalid key material''
                 else
                   (case aead_open cr key_bytes (nonce_for_sequence iv sequence) (take 5 rec) body of
                      None \<Rightarrow> Undecryptable ''AEAD authentication failed''
                    | Some plaintext \<Rightarrow>
                        let stop = strip_padding plaintext (length plaintext)
                        in if stop = 0 then Undecryptable ''empty plaintext after padding strip''
                           else
                             let content_type = plaintext ! (stop - 1)
                             in if content_type \<notin> {20, 21, 22, 23} then Undecryptable ''invalid TLS inner content type''
                                else Plaintext content_type (take (stop - 1) plaintext)))"

section \<open>Nonces\<close>

lemma length_be64 [simp]: "length (be64 n) = 8"
  by (simp add: be64_def)

lemma be64_inj:
  assumes "be64 m = be64 n" "m < 2 ^ 64" "n < 2 ^ 64"
  shows "m = n"
proof -
  have digit: "m div 256 ^ k mod 256 = n div 256 ^ k mod 256" if "k < 8" for k
  proof -
    have "be64 m ! (7 - k) = be64 n ! (7 - k)" using assms(1) by simp
    moreover have "be64 x ! (7 - k) = of_nat (x div 256 ^ k)" for x
    proof -
      have at: "[0..<8] ! (7 - k) = 7 - k" using nth_upt [of 0 "7 - k" 8] by simp
      have "be64 x ! (7 - k) = of_nat (x div 256 ^ (7 - [0..<8] ! (7 - k)))" unfolding be64_def by (rule nth_map) simp
      also have "7 - [0..<8] ! (7 - k) = k" unfolding at using that by simp
      finally show ?thesis .
    qed
    ultimately have "(of_nat (m div 256 ^ k) :: byte) = of_nat (n div 256 ^ k)" by metis
    then have "unat (of_nat (m div 256 ^ k) :: byte) = unat (of_nat (n div 256 ^ k) :: byte)" by simp
    then show ?thesis by (simp add: unat_of_nat)
  qed
  have "m mod 256 ^ k = n mod 256 ^ k" if "k \<le> 8" for k
    using that
  proof (induction k)
    case (Suc k)
    have "x mod 256 ^ Suc k = 256 ^ k * (x div 256 ^ k mod 256) + x mod 256 ^ k" for x :: nat
      using mod_mult2_eq [of x "256 ^ k" 256] by (simp add: mult.commute)
    then show ?case using Suc digit [of k] by simp
  qed simp
  from this [of 8] show ?thesis using assms(2,3) by simp
qed

lemma xor_bytes_cancel:
  "length a = length b \<Longrightarrow> length iv = length a \<Longrightarrow> map2 (XOR) iv a = map2 (XOR) iv (b :: byte list) \<Longrightarrow> a = b"
proof (induction iv arbitrary: a b)
  case (Cons x iv)
  then obtain y a' z b' where ab: "a = y # a'" "b = z # b'" by (metis length_Suc_conv)
  have "x XOR y = x XOR z" using Cons.prems(3) ab by simp
  then have "x XOR (x XOR y) = x XOR (x XOR z)" by simp
  then have "y = z" by (simp flip: xor.assoc)
  then show ?case using Cons ab by auto
qed simp

text \<open>Two records of a direction never use the same nonce.\<close>

lemma nonce_distinct:
  assumes "length iv = 12" "m < 2 ^ 64" "n < 2 ^ 64" "nonce_for_sequence iv m = nonce_for_sequence iv n"
  shows "m = n"
proof -
  have "map2 (XOR) (drop 4 iv) (be64 m) = map2 (XOR) (drop 4 iv) (be64 n)"
    using assms(4) by (simp add: nonce_for_sequence_def)
  then have "be64 m = be64 n" by (rule xor_bytes_cancel [rotated 2]) (simp_all add: assms(1))
  then show ?thesis using assms(2,3) by (rule be64_inj)
qed

section \<open>A sealed record opens\<close>

text \<open>What the AEAD promises: opening under the key, nonce and header a text was sealed with gives the text.\<close>

definition aead_opens_sealed :: "crypto \<Rightarrow> (byte list \<Rightarrow> byte list \<Rightarrow> byte list \<Rightarrow> byte list \<Rightarrow> byte list) \<Rightarrow> bool" where
  "aead_opens_sealed cr seal \<longleftrightarrow> (\<forall>key nonce aad ptext.
     aead_open cr key nonce aad (seal key nonce aad ptext) = Some ptext \<and>
     length (seal key nonce aad ptext) = length ptext + aead_tag_len cr)"

definition seal_record ::
  "crypto \<Rightarrow> (byte list \<Rightarrow> byte list \<Rightarrow> byte list \<Rightarrow> byte list \<Rightarrow> byte list) \<Rightarrow> byte list \<Rightarrow> byte list \<Rightarrow> nat \<Rightarrow> byte \<Rightarrow> byte list \<Rightarrow> nat \<Rightarrow> byte list" where
  "seal_record cr seal key iv sequence content_type content padding =
     (let ptext = content @ [content_type] @ replicate padding 0;
          total = length ptext + aead_tag_len cr;
          header = [0x17, 3, 3, of_nat (total div 256), of_nat total]
      in header @ seal key (nonce_for_sequence iv sequence) header ptext)"

lemma strip_padding_replicate:
  assumes "b \<noteq> 0" "n \<le> length xs + 1 + k" "length xs < n"
  shows "strip_padding (xs @ b # replicate k 0) n = Suc (length xs)"
  using assms
proof (induction n)
  case (Suc n)
  show ?case
  proof (cases "n = length xs")
    case False
    then have "length xs < n" using Suc.prems by simp
    then have "(xs @ b # replicate k 0) ! n = 0" using Suc.prems by (simp add: nth_append nth_Cons')
    then show ?thesis using Suc \<open>length xs < n\<close> by simp
  qed (use Suc.prems in simp)
qed simp

text \<open>
  A record sealed with the keys of a traffic secret, at a sequence number, with any padding, is
  decrypted at that sequence number to exactly its content and content type.
\<close>
lemma sealed_record_decrypts:
  assumes "aead_opens_sealed cr seal" "derive_key_and_iv cr (ss_secret secret) = Some (key, iv)" "aead_key_ok cr key"
    and "content_type \<in> {20, 21, 22, 23}"
  shows "decrypt_record cr (seal_record cr seal key iv sequence content_type content padding) secret sequence
    = Plaintext content_type content"
proof -
  define ptext where "ptext = content @ content_type # replicate padding 0"
  define header where "header = [0x17, 3, 3, of_nat ((length ptext + aead_tag_len cr) div 256), of_nat (length ptext + aead_tag_len cr) :: byte]"
  define ct where "ct = seal key (nonce_for_sequence iv sequence) header ptext"
  have rec: "seal_record cr seal key iv sequence content_type content padding = header @ ct"
    by (simp add: seal_record_def ptext_def header_def ct_def Let_def add.assoc)
  have open_ct: "aead_open cr key (nonce_for_sequence iv sequence) header ct = Some ptext" "aead_tag_len cr \<le> length ct"
    using assms(1) by (simp_all add: aead_opens_sealed_def ct_def)
  have five: "length header = 5" "header ! 0 = 0x17" by (simp_all add: header_def)
  have "content_type \<noteq> 0" using assms(4) by auto
  then have "strip_padding ptext (length ptext) = Suc (length content)"
    unfolding ptext_def by (intro strip_padding_replicate) simp_all
  moreover have "ptext ! length content = content_type" "take (length content) ptext = content" by (simp_all add: ptext_def)
  ultimately show ?thesis
    using assms(2,3,4) open_ct five by (simp add: decrypt_record_def rec nth_append)
qed

text \<open>An AEAD for the example: the text followed by a sixteen-byte tag that depends on nothing.\<close>

definition demo_seal :: "byte list \<Rightarrow> byte list \<Rightarrow> byte list \<Rightarrow> byte list \<Rightarrow> byte list" where
  "demo_seal key nonce aad ptext = ptext @ replicate 16 0"

definition demo_crypto :: crypto where
  "demo_crypto = \<lparr>hkdf_expand = (\<lambda>_ _ n. Some (replicate n 1)), aead_key_ok = (\<lambda>k. length k = 16), aead_tag_len = 16,
     aead_open = (\<lambda>_ _ _ ct. Some (take (length ct - 16) ct))\<rparr>"

lemma demo_crypto_ok:
  "aead_opens_sealed demo_crypto demo_seal" "derive_key_and_iv demo_crypto secret = Some (replicate 16 1, replicate 12 1)"
  "aead_key_ok demo_crypto (replicate 16 1)"
  by (simp_all add: aead_opens_sealed_def demo_crypto_def demo_seal_def derive_key_and_iv_def hkdf_expand_label_def)

end
