(* ===== verification/TlsHandshake.thy ===== *)
theory TlsHandshake
  imports Packet
begin

text \<open>
  The incremental parser of handshake messages (\<open>tls_handshake.rs\<close>): the messages the decryption
  state machine reacts to, read from a stream of handshake bytes that may be cut anywhere, with a
  bounded buffer. The reference \<open>hs_messages\<close> parses a whole stream at once; the theorems relate the
  incremental parser to it. Zeroizing the consumed bytes is not observable.
\<close>

section \<open>Messages\<close>

definition max_handshake_buffer :: nat where "max_handshake_buffer = 64 * 1024"

definition hrr_random :: "byte list" where
  "hrr_random =
     [0xcf, 0x21, 0xad, 0x74, 0xe5, 0x9a, 0x61, 0x11, 0xbe, 0x1d, 0x8c, 0x02, 0x1e, 0x65, 0xb8, 0x91,
      0xc2, 0xa2, 0x11, 0x16, 0x7a, 0xbb, 0x8c, 0x5e, 0x07, 0x9e, 0x09, 0xe2, 0xc8, 0xa8, 0x33, 0x9c]"

datatype handshake_event =
  HsClientHello (hs_early_data: bool)
| HsServerHello (hs_cipher_suite: nat) (hs_hello_retry_request: bool) (hs_tls13: bool)
| HsFinished
| HsKeyUpdate (hs_request_update: bool)
| HsOther

datatype handshake_parse_error = BufferTooLarge | MalformedMessage

text \<open>The question mark operator on \<open>Result\<close>.\<close>

definition try_ok :: "'e + 'a \<Rightarrow> ('a \<Rightarrow> 'e + 'b) \<Rightarrow> 'e + 'b" where
  "try_ok r f = (case r of Inl e \<Rightarrow> Inl e | Inr x \<Rightarrow> f x)"

lemma try_ok_simps [simp]: "try_ok (Inl e) f = Inl e" "try_ok (Inr x) f = f x"
  by (simp_all add: try_ok_def)

definition hs_read_u16 :: "byte list \<Rightarrow> nat \<Rightarrow> handshake_parse_error + nat" where
  "hs_read_u16 bs pos =
     try_ok (ok_or (checked_add pos 2) MalformedMessage) (\<lambda>stop.
     try_ok (ok_or (slice_get bs pos stop) MalformedMessage) (\<lambda>pair.
     Inr (u16_be (pair ! 0) (pair ! 1))))"

text \<open>One step of the walk over the extensions: the kind, the length and the value at the cursor.\<close>

definition hs_extension_at :: "byte list \<Rightarrow> nat \<Rightarrow> handshake_parse_error + (nat \<times> nat \<times> byte list)" where
  "hs_extension_at exts cursor =
     try_ok (ok_or (slice_get exts cursor (cursor + 4)) MalformedMessage) (\<lambda>header.
     let kind = u16_be (header ! 0) (header ! 1);
         len = u16_be (header ! 2) (header ! 3)
     in try_ok (ok_or (slice_get exts (cursor + 4) (cursor + 4 + len)) MalformedMessage) (\<lambda>val.
        Inr (kind, len, val)))"

function client_extension_loop :: "byte list \<Rightarrow> nat \<Rightarrow> bool \<Rightarrow> handshake_parse_error + bool" where
  "client_extension_loop exts cursor early_data =
     (if cursor < length exts then
        try_ok (hs_extension_at exts cursor) (\<lambda>(kind, len, val).
          if kind = 42 then
            (if len \<noteq> 0 then Inl MalformedMessage else client_extension_loop exts (cursor + 4 + len) True)
          else client_extension_loop exts (cursor + 4 + len) early_data)
      else Inr early_data)"
  by pat_completeness auto
termination by (relation "measure (\<lambda>(exts, cursor, _). length exts - cursor)") auto

function server_extension_loop :: "byte list \<Rightarrow> nat \<Rightarrow> bool \<Rightarrow> handshake_parse_error + bool" where
  "server_extension_loop exts cursor tls13 =
     (if cursor < length exts then
        try_ok (hs_extension_at exts cursor) (\<lambda>(kind, len, val).
          server_extension_loop exts (cursor + 4 + len) (if kind = 43 then val = [3, 4] else tls13))
      else Inr tls13)"
  by pat_completeness auto
termination by (relation "measure (\<lambda>(exts, cursor, _). length exts - cursor)") auto

declare client_extension_loop.simps [simp del] server_extension_loop.simps [simp del]

definition parse_client_hello :: "byte list \<Rightarrow> handshake_parse_error + handshake_event" where
  "parse_client_hello body =
     (if length body < 34 then Inl MalformedMessage
      else
        try_ok (ok_or (byte_at body 34) MalformedMessage) (\<lambda>session_len.
        try_ok (ok_or (checked_add 34 (1 + unat session_len)) MalformedMessage) (\<lambda>pos.
        try_ok (hs_read_u16 body pos) (\<lambda>cipher_len.
        try_ok (ok_or (checked_add pos (2 + cipher_len)) MalformedMessage) (\<lambda>pos.
        try_ok (ok_or (byte_at body pos) MalformedMessage) (\<lambda>compression_len.
        try_ok (ok_or (checked_add pos (1 + unat compression_len)) MalformedMessage) (\<lambda>pos.
        try_ok (hs_read_u16 body pos) (\<lambda>ext_len.
        try_ok (ok_or (checked_add pos 2) MalformedMessage) (\<lambda>pos.
        try_ok (ok_or (slice_get body pos (pos + ext_len)) MalformedMessage) (\<lambda>extensions.
        if pos + ext_len \<noteq> length body then Inl MalformedMessage
        else try_ok (client_extension_loop extensions 0 False) (\<lambda>early_data. Inr (HsClientHello early_data))))))))))))"

definition parse_server_hello :: "byte list \<Rightarrow> handshake_parse_error + handshake_event" where
  "parse_server_hello body =
     (if length body < 38 then Inl MalformedMessage
      else
        let hrr = (slice_get body 2 34 = Some hrr_random) in
        try_ok (ok_or (byte_at body 34) MalformedMessage) (\<lambda>session_len.
        try_ok (ok_or (checked_add 34 (1 + unat session_len)) MalformedMessage) (\<lambda>pos.
        try_ok (hs_read_u16 body pos) (\<lambda>cipher_suite.
        try_ok (ok_or (checked_add pos 2) MalformedMessage) (\<lambda>pos.
        try_ok (ok_or (byte_at body pos) MalformedMessage) (\<lambda>_.
        try_ok (ok_or (checked_add pos 1) MalformedMessage) (\<lambda>pos.
        if pos < length body then
          try_ok (hs_read_u16 body pos) (\<lambda>ext_len.
          try_ok (ok_or (checked_add pos 2) MalformedMessage) (\<lambda>pos.
          try_ok (ok_or (checked_add pos ext_len) MalformedMessage) (\<lambda>stop.
          try_ok (ok_or (slice_get body pos stop) MalformedMessage) (\<lambda>extensions.
          if stop \<noteq> length body then Inl MalformedMessage
          else try_ok (server_extension_loop extensions 0 False) (\<lambda>tls13.
            Inr (HsServerHello cipher_suite hrr tls13))))))
        else Inr (HsServerHello cipher_suite hrr False))))))))"

definition parse_message :: "byte \<Rightarrow> byte list \<Rightarrow> handshake_parse_error + handshake_event" where
  "parse_message kind body =
     (if kind = 1 then parse_client_hello body
      else if kind = 2 then parse_server_hello body
      else if kind = 20 then Inr HsFinished
      else if kind = 24 then
        (if length body = 1 \<and> body ! 0 \<le> 1 then Inr (HsKeyUpdate (body ! 0 = 1)) else Inl MalformedMessage)
      else Inr HsOther)"

section \<open>The incremental parser\<close>

definition u24_be :: "byte \<Rightarrow> byte \<Rightarrow> byte \<Rightarrow> nat" where
  "u24_be a b c = unat a * 65536 + unat b * 256 + unat c"

definition hs_compact :: "nat \<Rightarrow> byte rvec \<Rightarrow> byte rvec" where
  "hs_compact consumed buf = (if consumed > 0 then buf\<lparr>elems := drop consumed (elems buf)\<rparr> else buf)"

function hs_loop ::
  "byte rvec \<Rightarrow> nat \<Rightarrow> handshake_event list \<Rightarrow> (handshake_parse_error + handshake_event list) \<times> byte rvec" where
  "hs_loop buf consumed events =
     (let available = length (elems buf) - consumed
      in if available < 4 then (Inr events, hs_compact consumed buf)
         else
           let body_len = u24_be (elems buf ! (consumed + 1)) (elems buf ! (consumed + 2)) (elems buf ! (consumed + 3))
           in case checked_add body_len 4 of
                None \<Rightarrow> (Inl MalformedMessage, buf)
              | Some message_len \<Rightarrow>
                  if message_len > max_handshake_buffer then (Inl BufferTooLarge, vec_new)
                  else if available < message_len then (Inr events, hs_compact consumed buf)
                  else
                    (case parse_message (elems buf ! consumed)
                            (take (message_len - 4) (drop (consumed + 4) (elems buf))) of
                       Inl e \<Rightarrow> (Inl e, vec_new)
                     | Inr event \<Rightarrow> hs_loop buf (consumed + message_len) (events @ [event])))"
  by pat_completeness auto
termination
  by (relation "measure (\<lambda>(buf, consumed, _). length (elems buf) - consumed)")
     (auto simp: checked_add_def split: if_splits)

declare hs_loop.simps [simp del]

definition hs_feed :: "byte list \<Rightarrow> byte rvec \<Rightarrow> (handshake_parse_error + handshake_event list) \<times> byte rvec" where
  "hs_feed bs buf =
     (if sat_add (length (elems buf)) (length bs) > max_handshake_buffer then (Inl BufferTooLarge, vec_new)
      else hs_loop (vec_extend bs buf) 0 [])"

definition hs_bytes_held :: "byte rvec \<Rightarrow> nat" where
  "hs_bytes_held buf = capacity buf"


section \<open>Parsing a whole stream\<close>

fun hs_messages :: "byte list \<Rightarrow> handshake_parse_error + (handshake_event list \<times> byte list)" where
  "hs_messages s =
     (if length s < 4 then Inr ([], s)
      else let n = 4 + u24_be (s ! 1) (s ! 2) (s ! 3)
           in if n > max_handshake_buffer then Inl BufferTooLarge
              else if length s < n then Inr ([], s)
              else try_ok (parse_message (s ! 0) (take (n - 4) (drop 4 s)))
                     (\<lambda>event. map_sum id (apfst ((#) event)) (hs_messages (drop n s))))"

declare hs_messages.simps [simp del]

definition hs_open :: "byte list \<Rightarrow> bool" where
  "hs_open s \<longleftrightarrow> hs_messages s = Inr ([], s)"

lemma u24_be_bound: "u24_be a b c < 2 ^ 24"
proof -
  have "unat a < 256" "unat b < 256" "unat c < 256"
    using unsigned_less [of a] unsigned_less [of b] unsigned_less [of c] by simp_all
  then show ?thesis by (simp add: u24_be_def)
qed

lemma u24_checked [simp]: "checked_add (u24_be a b c) 4 = Some (4 + u24_be a b c)"
  using u24_be_bound [of a b c] by (simp add: checked_add_def usize_max_def)

lemma hs_open_Nil [simp]: "hs_open []"
  by (simp add: hs_open_def hs_messages.simps)

lemma hs_messages_whole:
  fixes s :: "byte list"
  defines "n \<equiv> 4 + u24_be (s ! 1) (s ! 2) (s ! 3)"
  assumes "4 \<le> length s" "n \<le> max_handshake_buffer" "n \<le> length s"
  shows "hs_messages (s @ t) = try_ok (parse_message (s ! 0) (take (n - 4) (drop 4 s)))
    (\<lambda>event. map_sum id (apfst ((#) event)) (hs_messages (drop n s @ t)))"
  using assms by (subst hs_messages.simps) (auto simp: Let_def nth_append)

lemmas hs_messages_whole' = hs_messages_whole [where t = "[]", unfolded append_Nil2]

lemma hs_messages_cases:
  fixes s :: "byte list"
  defines "n \<equiv> 4 + u24_be (s ! 1) (s ! 2) (s ! 3)"
  obtains (part) "hs_messages s = Inr ([], s)" "length s < 4 \<or> length s < n \<and> n \<le> max_handshake_buffer"
  | (big) "\<And>t. hs_messages (s @ t) = Inl BufferTooLarge" "4 \<le> length s" "max_handshake_buffer < n"
  | (whole) "4 \<le> length s" "n \<le> max_handshake_buffer" "n \<le> length s"
proof -
  consider "length s < 4 \<or> length s < n \<and> n \<le> max_handshake_buffer" | "4 \<le> length s" "max_handshake_buffer < n"
    | "4 \<le> length s" "n \<le> max_handshake_buffer" "n \<le> length s" by linarith
  then show thesis
  proof cases
    case 1
    then have "hs_messages s = Inr ([], s)" by (subst hs_messages.simps) (auto simp: Let_def n_def)
    then show thesis using 1 by (rule part)
  next
    case 2
    have "hs_messages (s @ t) = Inl BufferTooLarge" for t
      using 2 by (subst hs_messages.simps) (auto simp: Let_def n_def nth_append)
    then show thesis using 2 by (rule big)
  qed (rule whole)
qed

lemma hs_messages_append:
  "hs_messages (s @ t) = try_ok (hs_messages s) (\<lambda>(evs, rest). map_sum id (apfst ((@) evs)) (hs_messages (rest @ t)))"
proof (induction "length s" arbitrary: s rule: less_induct)
  case less
  show ?case
  proof (cases s rule: hs_messages_cases)
    case part
    then show ?thesis by (cases "hs_messages (s @ t)") (simp_all add: apfst_def map_prod_def split_def)
  next
    case big
    then show ?thesis using big(1) [of "[]"] by simp
  next
    case whole
    let ?n = "4 + u24_be (s ! 1) (s ! 2) (s ! 3)"
    note IH = less [of "drop ?n s"]
    have small: "length (drop ?n s) < length s" using whole by simp
    show ?thesis
      unfolding hs_messages_whole [OF whole] hs_messages_whole' [OF whole] IH [OF small]
      by (cases "parse_message (s ! 0) (take (?n - 4) (drop 4 s))"; cases "hs_messages (drop ?n s)")
         (auto simp: sum.map_comp comp_def apfst_compose split: prod.splits intro!: sum.map_cong0 arg_cong2 [where f = apfst])
  qed
qed

lemma hs_rest_open: "hs_messages s = Inr (evs, rest) \<Longrightarrow> hs_open rest"
proof (induction "length s" arbitrary: s evs rule: less_induct)
  case less
  show ?case
  proof (cases s rule: hs_messages_cases)
    case whole
    let ?n = "4 + u24_be (s ! 1) (s ! 2) (s ! 3)"
    have "\<exists>evs'. hs_messages (drop ?n s) = Inr (evs', rest)"
      using less.prems unfolding hs_messages_whole' [OF whole]
      by (cases "parse_message (s ! 0) (take (?n - 4) (drop 4 s))"; cases "hs_messages (drop ?n s)") auto
    moreover have "length (drop ?n s) < length s" using whole by simp
    ultimately show ?thesis using less.hyps by blast
  next
    case big
    then show ?thesis using big(1) [of "[]"] less.prems by simp
  qed (use less.prems in \<open>auto simp: hs_open_def\<close>)
qed

text \<open>The loop from any position is the reference on the rest of the buffer.\<close>

definition hs_result ::
  "handshake_parse_error + (handshake_event list \<times> byte list) \<Rightarrow> handshake_event list \<Rightarrow> nat \<Rightarrow>
    (handshake_parse_error + handshake_event list) \<times> byte rvec \<Rightarrow> bool" where
  "hs_result spec before cap res \<longleftrightarrow>
     (case spec of
        Inl e \<Rightarrow> res = (Inl e, vec_new)
      | Inr (evs, rest) \<Rightarrow> res = (Inr (before @ evs), \<lparr>elems = rest, capacity = cap\<rparr>))"

lemma hs_result_event:
  "hs_result (map_sum id (apfst ((#) ev)) spec) before cap res = hs_result spec (before @ [ev]) cap res"
  by (cases spec) (auto simp: hs_result_def split: prod.splits)

lemma hs_compact_eq: "hs_compact c buf = \<lparr>elems = drop c (elems buf), capacity = capacity buf\<rparr>"
  by (cases buf) (simp add: hs_compact_def)

lemma hs_loop_messages:
  "hs_result (hs_messages (drop consumed (elems buf))) before (capacity buf) (hs_loop buf consumed before)"
proof (induction "length (elems buf) - consumed" arbitrary: consumed before rule: less_induct)
  case less
  let ?s = "drop consumed (elems buf)"
  let ?n = "4 + u24_be (?s ! 1) (?s ! 2) (?s ! 3)"
  show ?case
  proof (cases "4 \<le> length ?s")
    case False
    then show ?thesis
      by (simp add: hs_loop.simps hs_messages.simps [of ?s] hs_result_def hs_compact_eq)
  next
    case True
    have nth: "elems buf ! consumed = ?s ! 0" "elems buf ! (consumed + 1) = ?s ! 1"
      "elems buf ! (consumed + 2) = ?s ! 2" "elems buf ! (consumed + 3) = ?s ! 3"
      "drop (consumed + 4) (elems buf) = drop 4 ?s"
      using True by (simp_all add: add.commute)
    have step: "hs_loop buf consumed before =
       (if ?n > max_handshake_buffer then (Inl BufferTooLarge, vec_new)
        else if length ?s < ?n then (Inr before, hs_compact consumed buf)
        else case parse_message (?s ! 0) (take (?n - 4) (drop 4 ?s)) of
               Inl e \<Rightarrow> (Inl e, vec_new) | Inr event \<Rightarrow> hs_loop buf (consumed + ?n) (before @ [event]))"
      using True by (subst hs_loop.simps) (simp only: nth Let_def u24_checked option.case length_drop, simp)
    show ?thesis
    proof (cases ?s rule: hs_messages_cases)
      case part
      then show ?thesis using True by (simp add: step hs_result_def hs_compact_eq)
    next
      case big
      then show ?thesis using big(1) [of "[]"] by (simp add: step hs_result_def)
    next
      case whole
      have "hs_result (hs_messages (drop (consumed + ?n) (elems buf))) (before @ [event]) (capacity buf)
          (hs_loop buf (consumed + ?n) (before @ [event]))" for event
        using whole by (intro less) simp
      then show ?thesis
        using whole step unfolding hs_messages_whole' [OF whole]
        by (cases "parse_message (?s ! 0) (take (?n - 4) (drop 4 ?s))")
           (simp_all add: hs_result_event hs_result_def [of "Inl _"] add.commute)
    qed
  qed
qed


section \<open>A stream of messages in chunks\<close>

text \<open>Feeding chunk after chunk, up to the first error, as the caller does.\<close>

fun hs_run :: "byte list list \<Rightarrow> byte rvec \<Rightarrow> (handshake_parse_error + handshake_event list) \<times> byte rvec" where
  "hs_run [] buf = (Inr [], buf)"
| "hs_run (c # cs) buf =
     (case hs_feed c buf of
        (Inl e, buf1) \<Rightarrow> (Inl e, buf1)
      | (Inr evs, buf1) \<Rightarrow> (case hs_run cs buf1 of (r, buf2) \<Rightarrow> (map_sum id ((@) evs) r, buf2)))"

lemma hs_feed_messages:
  assumes "length (elems buf) + length c \<le> max_handshake_buffer"
  shows "hs_result (hs_messages (elems buf @ c)) [] (capacity (vec_reserve (length c) buf)) (hs_feed c buf)"
proof -
  have "sat_add (length (elems buf)) (length c) = length (elems buf) + length c"
    using assms by (intro sat_add_exact) (simp add: max_handshake_buffer_def usize_max_def)
  then show ?thesis
    using assms hs_loop_messages [of 0 "vec_extend c buf" "[]"]
    by (simp add: hs_feed_def vec_simps) (simp add: vec_extend_def)
qed

lemma hs_run_messages:
  assumes "\<And>pre c post evs rest. chunks = pre @ c # post \<Longrightarrow> hs_messages (elems buf @ concat pre) = Inr (evs, rest)
      \<Longrightarrow> length rest + length c \<le> max_handshake_buffer"
    and "hs_open (elems buf)"
  shows "fst (hs_run chunks buf) = map_sum id fst (hs_messages (elems buf @ concat chunks))"
  using assms
proof (induction chunks arbitrary: buf)
  case Nil
  then show ?case by (simp add: hs_open_def)
next
  case (Cons c cs)
  have "length (elems buf) + length c \<le> max_handshake_buffer"
    using Cons.prems(1) [of "[]" c cs "[]" "elems buf"] Cons.prems(2) by (simp add: hs_open_def)
  note fed = hs_feed_messages [OF this]
  show ?case
  proof (cases "hs_messages (elems buf @ c)")
    case (Inl e)
    then show ?thesis
      using fed hs_messages_append [of "elems buf @ c" "concat cs"] by (simp add: hs_result_def)
  next
    case (Inr r)
    then obtain evs rest where spec: "hs_messages (elems buf @ c) = Inr (evs, rest)" by (cases r) auto
    then obtain buf1 where buf1: "hs_feed c buf = (Inr evs, buf1)" "elems buf1 = rest"
      using fed by (auto simp: hs_result_def)
    have whole: "hs_messages (elems buf @ c @ t) = map_sum id (apfst ((@) evs)) (hs_messages (elems buf1 @ t))" for t
      using hs_messages_append [of "elems buf @ c" t] spec buf1(2) by simp
    have "fst (hs_run cs buf1) = map_sum id fst (hs_messages (elems buf1 @ concat cs))"
    proof (rule Cons.IH)
      show "hs_open (elems buf1)" using hs_rest_open [OF spec] buf1(2) by simp
    next
      fix pre c' post evs' rest'
      assume "cs = pre @ c' # post" "hs_messages (elems buf1 @ concat pre) = Inr (evs', rest')"
      then show "length rest' + length c' \<le> max_handshake_buffer"
        using Cons.prems(1) [of "c # pre" c' post "evs @ evs'" rest'] by (simp add: whole)
    qed
    then show ?thesis
      by (cases "hs_messages (elems buf1 @ concat cs)")
         (auto simp: buf1(1) whole split_def)
  qed
qed

definition hs_encode :: "byte \<times> byte list \<Rightarrow> byte list" where
  "hs_encode = (\<lambda>(kind, body).
     kind # of_nat (length body div 65536) # of_nat (length body div 256) # of_nat (length body) # body)"

fun hs_events :: "(byte \<times> byte list) list \<Rightarrow> handshake_parse_error + handshake_event list" where
  "hs_events [] = Inr []"
| "hs_events ((kind, body) # ms) = try_ok (parse_message kind body) (\<lambda>e. map_sum id ((#) e) (hs_events ms))"

lemma u24_be_of_nat: "n < 2 ^ 24 \<Longrightarrow> u24_be (of_nat (n div 65536)) (of_nat (n div 256)) (of_nat n) = n"
proof -
  assume "n < 2 ^ 24"
  then have top: "n div 65536 mod 256 = n div 65536" by (simp add: div_less_iff_less_mult)
  have "n div 65536 = n div 256 div 256" by (simp flip: div_mult2_eq)
  then have "n div 65536 * 256 + n div 256 mod 256 = n div 256" by simp
  then have "(n div 65536 * 256 + n div 256 mod 256) * 256 + n mod 256 = n" by simp
  then show ?thesis by (simp add: u24_be_def unat_of_nat top algebra_simps)
qed

lemma hs_messages_encoded:
  assumes "length body + 4 \<le> max_handshake_buffer"
  shows "hs_messages (hs_encode (kind, body) @ t) =
    try_ok (parse_message kind body) (\<lambda>e. map_sum id (apfst ((#) e)) (hs_messages t))"
proof -
  let ?s = "hs_encode (kind, body)"
  have n: "u24_be (?s ! 1) (?s ! 2) (?s ! 3) = length body"
    using assms u24_be_of_nat [of "length body"] by (simp add: hs_encode_def max_handshake_buffer_def numeral_3_eq_3)
  show ?thesis
    using hs_messages_whole [of ?s t] assms unfolding n by (simp add: hs_encode_def)
qed

lemma hs_messages_stream:
  assumes "\<forall>(kind, body)\<in>set ms. length body + 4 \<le> max_handshake_buffer"
  shows "hs_messages (concat (map hs_encode ms)) = map_sum id (\<lambda>evs. (evs, [])) (hs_events ms)"
  using assms
proof (induction ms)
  case Nil
  then show ?case using hs_open_Nil by (simp add: hs_open_def)
next
  case (Cons m ms)
  obtain kind body where m: "m = (kind, body)" by force
  show ?case
    using Cons by (cases "parse_message kind body")
      (auto simp: m hs_messages_encoded sum.map_comp comp_def intro!: sum.map_cong0)
qed


lemma hs_rest_length: "hs_messages s = Inr (evs, rest) \<Longrightarrow> length rest \<le> length s"
proof (induction "length s" arbitrary: s evs rule: less_induct)
  case less
  show ?case
  proof (cases s rule: hs_messages_cases)
    case whole
    let ?n = "4 + u24_be (s ! 1) (s ! 2) (s ! 3)"
    have small: "length (drop ?n s) < length s" using whole by simp
    have "\<exists>evs'. hs_messages (drop ?n s) = Inr (evs', rest)"
      using less.prems unfolding hs_messages_whole' [OF whole]
      by (cases "parse_message (s ! 0) (take (?n - 4) (drop 4 s))"; cases "hs_messages (drop ?n s)") auto
    then show ?thesis using less.hyps [OF small] small by (meson le_trans less_imp_le)
  next
    case big
    then show ?thesis using big(1) [of "[]"] less.prems by simp
  qed (use less.prems in auto)
qed

lemma hs_prefix_rest:
  assumes "pre @ suf = concat (map hs_encode ms)" "\<forall>(kind, body)\<in>set ms. length body + 4 \<le> max_handshake_buffer"
    and "hs_messages pre = Inr (evs, rest)"
  shows "rest = [] \<or> (\<exists>(kind, body)\<in>set ms. length rest < length body + 4)"
  using assms
proof (induction ms arbitrary: pre evs)
  case Nil
  then show ?case using hs_open_Nil by (simp add: hs_open_def)
next
  case (Cons m ms)
  obtain kind body where m: "m = (kind, body)" by force
  have len: "length (hs_encode m) = length body + 4" by (simp add: m hs_encode_def)
  show ?case
  proof (cases "length pre < length (hs_encode m)")
    case True
    then have "length rest < length body + 4" using hs_rest_length [OF Cons.prems(3)] len by simp
    then show ?thesis by (auto simp: m)
  next
    case False
    define pre' where "pre' = drop (length (hs_encode m)) pre"
    have "take (length (hs_encode m)) pre = hs_encode m \<and> pre' @ suf = concat (map hs_encode ms)"
      using Cons.prems(1) False by (auto simp: append_eq_append_conv_if pre'_def split: if_splits)
    then have pre': "pre = hs_encode m @ pre'" "pre' @ suf = concat (map hs_encode ms)"
      unfolding pre'_def by (metis append_take_drop_id)+
    have "hs_messages pre = try_ok (parse_message kind body) (\<lambda>e. map_sum id (apfst ((#) e)) (hs_messages pre'))"
      using Cons.prems(2) unfolding pre'(1) m by (intro hs_messages_encoded) simp
    then obtain evs' where "hs_messages pre' = Inr (evs', rest)"
      using Cons.prems(3) by (cases "parse_message kind body"; cases "hs_messages pre'") auto
    with Cons.IH [OF pre'(2)] Cons.prems(2) show ?thesis by auto
  qed
qed

text \<open>
  C18: A stream of handshake messages, cut into chunks anywhere, parses to exactly the events of its
  messages in order, or to the error of the first malformed message; no message is refused for its
  size as long as it fits the buffer together with one chunk.
\<close>
theorem handshake_parses_in_any_chunks:
  assumes "concat chunks = concat (map hs_encode ms)"
    and "\<forall>(kind, body)\<in>set ms. length body + 4 \<le> max_handshake_buffer"
    and "\<forall>(kind, body)\<in>set ms. \<forall>c\<in>set chunks. length body + 4 + length c \<le> max_handshake_buffer + 1"
  shows "fst (hs_run chunks vec_new) = hs_events ms"
proof -
  have "fst (hs_run chunks vec_new) = map_sum id fst (hs_messages (elems (vec_new :: byte rvec) @ concat chunks))"
  proof (rule hs_run_messages)
    fix pre c post evs rest
    assume c: "chunks = pre @ c # post" and r: "hs_messages (elems (vec_new :: byte rvec) @ concat pre) = Inr (evs, rest)"
    have "concat pre @ (c @ concat post) = concat (map hs_encode ms)" using assms(1) c by simp
    from hs_prefix_rest [OF this assms(2)] r
    have "rest = [] \<or> (\<exists>(kind, body)\<in>set ms. length rest < length body + 4)" by (simp add: vec_simps)
    moreover have "length c \<le> max_handshake_buffer"
    proof (cases ms)
      case Nil
      then show ?thesis using assms(1) c by simp
    next
      case (Cons m ms')
      then show ?thesis using assms(3) c by (cases m) fastforce
    qed
    ultimately show "length rest + length c \<le> max_handshake_buffer"
      using assms(3) c by fastforce
  qed (simp add: vec_simps)
  also have "\<dots> = hs_events ms"
    using hs_messages_stream [OF assms(2)] assms(1)
    by (cases "hs_events ms") (simp_all add: vec_simps)
  finally show ?thesis .
qed

theorem handshake_parses_in_any_chunks_witness:
  "fst (hs_run [[20, 0], [0, 2, 7], [7, 24, 0, 0], [1, 1]] vec_new) = Inr [HsFinished, HsKeyUpdate True]"
proof -
  have "fst (hs_run [[20, 0], [0, 2, 7], [7, 24, 0, 0], [1, 1]] vec_new) = hs_events [(20, [7, 7]), (24, [1])]"
    by (rule handshake_parses_in_any_chunks) (auto simp: hs_encode_def max_handshake_buffer_def)
  then show ?thesis by (simp add: parse_message_def)
qed


section \<open>Hello messages\<close>

definition encode_extension :: "nat \<times> byte list \<Rightarrow> byte list" where
  "encode_extension = (\<lambda>(kind, val). u16_bytes kind @ u16_bytes (length val) @ val)"

definition encode_extensions :: "(nat \<times> byte list) list \<Rightarrow> byte list" where
  "encode_extensions exts = concat (map encode_extension exts)"

definition extensions_ok :: "(nat \<times> byte list) list \<Rightarrow> bool" where
  "extensions_ok exts \<longleftrightarrow> (\<forall>(kind, val)\<in>set exts. kind < 65536 \<and> length val < 65536)"

lemma hs_extension_at_encoded:
  assumes "kind < 65536" "length val < 65536"
  shows "hs_extension_at (pre @ encode_extension (kind, val) @ post) (length pre) = Inr (kind, length val, val)"
  using assms
  by (simp add: hs_extension_at_def slice_get_def ok_or_def encode_extension_def u16_bytes_def u16_be_bytes Let_def
      numeral_3_eq_3)

lemma server_extension_loop_encoded:
  assumes "extensions_ok exts"
  shows "server_extension_loop (pre @ encode_extensions exts) (length pre) b =
    Inr (fold (\<lambda>(kind, val) b. if kind = 43 then val = [3, 4] else b) exts b)"
  using assms
proof (induction exts arbitrary: pre b)
  case Nil
  then show ?case by (simp add: encode_extensions_def server_extension_loop.simps)
next
  case (Cons e exts)
  obtain kind val where e: "e = (kind, val)" by force
  have ok: "kind < 65536" "length val < 65536" "extensions_ok exts" using Cons.prems by (auto simp: extensions_ok_def e)
  have split: "pre @ encode_extensions (e # exts) = pre @ encode_extension (kind, val) @ encode_extensions exts"
    by (simp add: encode_extensions_def e)
  have len: "length (encode_extension (kind, val)) = 4 + length val" by (simp add: encode_extension_def u16_bytes_def)
  show ?case
    using Cons.IH [OF ok(3), of "pre @ encode_extension (kind, val)"] hs_extension_at_encoded [OF ok(1,2)]
    unfolding split by (subst server_extension_loop.simps) (simp add: len e add.assoc)
qed

lemma client_extension_loop_encoded:
  assumes "extensions_ok exts" "\<forall>(kind, val)\<in>set exts. kind = 42 \<longrightarrow> val = []"
  shows "client_extension_loop (pre @ encode_extensions exts) (length pre) b = Inr (b \<or> 42 \<in> fst ` set exts)"
  using assms
proof (induction exts arbitrary: pre b)
  case Nil
  then show ?case by (simp add: encode_extensions_def client_extension_loop.simps)
next
  case (Cons e exts)
  obtain kind val where e: "e = (kind, val)" by force
  have ok: "kind < 65536" "length val < 65536" "extensions_ok exts" "\<forall>(kind, val)\<in>set exts. kind = 42 \<longrightarrow> val = []"
    using Cons.prems by (auto simp: extensions_ok_def e)
  have split: "pre @ encode_extensions (e # exts) = pre @ encode_extension (kind, val) @ encode_extensions exts"
    by (simp add: encode_extensions_def e)
  have len: "length (encode_extension (kind, val)) = 4 + length val" by (simp add: encode_extension_def u16_bytes_def)
  show ?case
    using Cons.IH [OF ok(3,4), of "pre @ encode_extension (kind, val)"] hs_extension_at_encoded [OF ok(1,2)] Cons.prems(2)
    unfolding split by (subst client_extension_loop.simps) (auto simp: len e add.assoc)
qed

definition server_hello_body :: "byte list \<Rightarrow> byte list \<Rightarrow> nat \<Rightarrow> (nat \<times> byte list) list \<Rightarrow> byte list" where
  "server_hello_body random session suite exts =
     [3, 3] @ random @ of_nat (length session) # session @ u16_bytes suite @ [0] @
     u16_bytes (length (encode_extensions exts)) @ encode_extensions exts"

text \<open>
  A well-formed server hello is read back exactly: its cipher suite, whether its random is the
  hello retry request's, and whether its last supported-versions extension selects TLS 1.3.
\<close>
lemma server_hello_decodes:
  assumes "length random = 32" "length session < 256" "suite < 65536"
    and "extensions_ok exts" "length (encode_extensions exts) < 65536"
  shows "parse_message 2 (server_hello_body random session suite exts) =
    Inr (HsServerHello suite (random = hrr_random) (fold (\<lambda>(kind, val) b. if kind = 43 then val = [3, 4] else b) exts False))"
proof -
  let ?body = "server_hello_body random session suite exts" and ?e = "encode_extensions exts"
  define pre where "pre = [3, 3 :: byte] @ random @ [of_nat (length session)] @ session"
  have pre: "length pre = 35 + length session" using assms(1) by (simp add: pre_def)
  have body: "?body = pre @ u16_bytes suite @ [0] @ u16_bytes (length ?e) @ ?e" by (simp add: server_hello_body_def pre_def)
  have at: "byte_at ?body 34 = Some (of_nat (length session))" "slice_get ?body 2 34 = Some random"
    using assms(1) by (simp_all add: server_hello_body_def byte_at_def slice_get_def nth_append)
  have len: "length ?body = 40 + length session + length ?e" using pre by (simp add: body u16_bytes_def)
  have small: "35 + length session + 5 + length ?e < 2 ^ 63" using assms by simp
  let ?l = "length session"
  have ca: "checked_add a b = Some (a + b)" if "a + b < 2 ^ 64" for a b :: nat
    using that by (simp add: checked_add_def usize_max_def)
  have suite: "hs_read_u16 ?body (35 + ?l) = Inr suite"
    unfolding pre [symmetric] using small assms(3) pre
    by (simp add: hs_read_u16_def ca ok_or_def slice_get_def body u16_bytes_def u16_be_bytes)
  have comp: "byte_at ?body (37 + ?l) = Some 0"
    using pre by (simp add: byte_at_def body u16_bytes_def nth_append)
  have elen: "hs_read_u16 ?body (38 + ?l) = Inr (length ?e)"
    using small assms(5) pre
    by (simp add: hs_read_u16_def ca ok_or_def slice_get_def body u16_bytes_def u16_be_bytes)
  have exts: "slice_get ?body (40 + ?l) (40 + ?l + length ?e) = Some ?e"
    using pre by (simp add: slice_get_def body u16_bytes_def)
  have l: "unat (of_nat ?l :: byte) = ?l" using assms(2) by (simp add: unat_of_nat)
  have add: "checked_add 34 (1 + ?l) = Some (35 + ?l)" "checked_add (35 + ?l) 2 = Some (37 + ?l)"
    "checked_add (37 + ?l) 1 = Some (38 + ?l)" "checked_add (38 + ?l) 2 = Some (40 + ?l)"
    "checked_add (40 + ?l) (length ?e) = Some (40 + ?l + length ?e)"
    using small by (simp_all add: ca)
  have loop: "server_extension_loop ?e 0 False =
      Inr (fold (\<lambda>(kind, val) b. if kind = 43 then val = [3, 4] else b) exts False)"
    using server_extension_loop_encoded [OF assms(4), of "[]" False] by simp
  have "\<not> length ?body < 38" "38 + ?l < length ?body" using len by simp_all
  then show ?thesis
    by (simp only: parse_message_def parse_server_hello_def at l ok_or_def add suite comp elen exts loop len
        option.case try_ok_simps Let_def if_False if_True option.inject) simp
qed


lemma server_hello_decodes_witness:
  "parse_message 2 (server_hello_body hrr_random [] 0x1301 [(43, [3, 4])]) = Inr (HsServerHello 0x1301 True True)"
  by (subst server_hello_decodes) (simp_all add: hrr_random_def extensions_ok_def encode_extensions_def encode_extension_def u16_bytes_def)

end
