(* ===== verification/Http2.thy ===== *)
theory Http2
  imports Redact TlsHandshake
begin

text \<open>
  The HTTP/2 frame reader over decrypted bytes (\<open>http2.rs\<close>). The HPACK decoder is third-party code:
  its state is a type variable, and a record \<open>hpack\<close> holds its initial state, its decoding step (which
  fails when the decoder reports an error or panics) and its memory. Offsets are naturals; the long
  reason of a failed decode is abbreviated.
\<close>

record 'h hpack_ops =
  hpack_new :: 'h
  hpack_decode :: "byte list \<Rightarrow> 'h \<Rightarrow> (byte list \<times> byte list) list option \<times> 'h"
  hpack_held :: "'h \<Rightarrow> nat"

definition max_frame_len :: nat where "max_frame_len = 1024 * 1024"

datatype frame_outcome =
  Frame (fr_stream_id: nat) (fr_headers: "(rstring \<times> rstring) list") (fr_body: "byte list")
| DesyncFallback (fr_reason: string)
| NeedMoreData

record 'h http2_reassembler =
  h2_buffer :: "byte rvec"
  h2_next_expected_seq :: "nat option"
  h2_hpack :: 'h
  h2_desynced :: bool

definition http2_new :: "'h hpack_ops \<Rightarrow> 'h http2_reassembler" where
  "http2_new ops = \<lparr>h2_buffer = vec_new, h2_next_expected_seq = None, h2_hpack = hpack_new ops, h2_desynced = False\<rparr>"

definition http2_bytes_held :: "'h hpack_ops \<Rightarrow> 'h http2_reassembler \<Rightarrow> nat" where
  "http2_bytes_held ops r = sat_add (capacity (h2_buffer r)) (hpack_held ops (h2_hpack r))"

definition http2_desync :: "'h hpack_ops \<Rightarrow> 'h http2_reassembler \<Rightarrow> 'h http2_reassembler" where
  "http2_desync ops r = r\<lparr>h2_desynced := True, h2_buffer := vec_new, h2_hpack := hpack_new ops\<rparr>"

definition frame_stream_id :: "byte list \<Rightarrow> nat" where
  "frame_stream_id buf = (unat (buf ! 5) mod 128) * 16777216 + u24_be (buf ! 6) (buf ! 7) (buf ! 8)"

text \<open>Decoded header pairs as the strings that are shown, redacted.\<close>

definition shown_headers :: "(byte list \<times> byte list) list \<Rightarrow> (rstring \<times> rstring) list" where
  "shown_headers pairs = redact_headers (map (\<lambda>(name, val). (from_utf8_lossy name, from_utf8_lossy val)) pairs)"

function http2_loop :: "'h hpack_ops \<Rightarrow> 'h http2_reassembler \<Rightarrow> frame_outcome list \<Rightarrow> frame_outcome list \<times> 'h http2_reassembler" where
  "http2_loop ops r outcomes =
     (let buf = elems (h2_buffer r)
      in if length buf < 9 then (outcomes @ [NeedMoreData], r)
         else
           let len = u24_be (buf ! 0) (buf ! 1) (buf ! 2)
           in if len > max_frame_len
              then (outcomes @ [DesyncFallback ''declared frame length exceeds the defensive cap''], http2_desync ops r)
              else if length buf < 9 + len then (outcomes @ [NeedMoreData], r)
              else
                let payload = take len (drop 9 buf);
                    r1 = r\<lparr>h2_buffer := (h2_buffer r)\<lparr>elems := drop (9 + len) buf\<rparr>\<rparr>
                in if buf ! 3 = 1 then
                     (case hpack_decode ops payload (h2_hpack r1) of
                        (Some pairs, hpack') \<Rightarrow>
                          http2_loop ops (r1\<lparr>h2_hpack := hpack'\<rparr>) (outcomes @ [Frame (frame_stream_id buf) (shown_headers pairs) []])
                      | (None, hpack') \<Rightarrow>
                          (outcomes @ [DesyncFallback ''HPACK decode failed''], http2_desync ops (r1\<lparr>h2_hpack := hpack'\<rparr>)))
                   else if buf ! 3 = 0 then http2_loop ops r1 (outcomes @ [Frame (frame_stream_id buf) [] payload])
                   else http2_loop ops r1 outcomes)"
  by pat_completeness auto
termination
  by (relation "measure (\<lambda>(ops, r, outcomes). length (elems (h2_buffer r)))") auto

declare http2_loop.simps [simp del]

definition http2_feed :: "'h hpack_ops \<Rightarrow> nat \<Rightarrow> byte list \<Rightarrow> 'h http2_reassembler \<Rightarrow> frame_outcome list \<times> 'h http2_reassembler" where
  "http2_feed ops seq chunk r =
     (if h2_desynced r then ([DesyncFallback ''connection already desynced''], r)
      else if (case h2_next_expected_seq r of None \<Rightarrow> False | Some expected \<Rightarrow> seq \<noteq> expected)
      then ([DesyncFallback ''sequence gap or reorder detected''], http2_desync ops r)
      else http2_loop ops (r\<lparr>h2_next_expected_seq := Some (seq + length chunk), h2_buffer := vec_extend chunk (h2_buffer r)\<rparr>) [])"


section \<open>Frames of a whole stream\<close>

text \<open>
  The reference: the frames of a byte stream, with the decoder state and the bytes of the unfinished
  frame at the end, or nothing when the stream cannot be followed any further.
\<close>

function h2_frames :: "'h hpack_ops \<Rightarrow> 'h \<Rightarrow> byte list \<Rightarrow> frame_outcome list \<times> ('h \<times> byte list) option" where
  "h2_frames ops h s =
     (if length s < 9 then ([], Some (h, s))
      else
        let len = u24_be (s ! 0) (s ! 1) (s ! 2)
        in if len > max_frame_len then ([], None)
           else if length s < 9 + len then ([], Some (h, s))
           else if s ! 3 = 1 then
             (case hpack_decode ops (take len (drop 9 s)) h of
                (Some pairs, h') \<Rightarrow> apfst ((#) (Frame (frame_stream_id s) (shown_headers pairs) [])) (h2_frames ops h' (drop (9 + len) s))
              | (None, _) \<Rightarrow> ([], None))
           else if s ! 3 = 0
           then apfst ((#) (Frame (frame_stream_id s) [] (take len (drop 9 s)))) (h2_frames ops h (drop (9 + len) s))
           else h2_frames ops h (drop (9 + len) s))"
  by pat_completeness auto
termination
  by (relation "measure (\<lambda>(ops, h, s). length s)") auto

declare h2_frames.simps [simp del]

text \<open>What one frame of the stream adds, and the decoder state after it.\<close>

definition h2_frame :: "'h hpack_ops \<Rightarrow> 'h \<Rightarrow> byte list \<Rightarrow> (frame_outcome list \<times> 'h) option" where
  "h2_frame ops h s =
     (let len = u24_be (s ! 0) (s ! 1) (s ! 2)
      in if s ! 3 = 1 then
           (case hpack_decode ops (take len (drop 9 s)) h of
              (Some pairs, h') \<Rightarrow> Some ([Frame (frame_stream_id s) (shown_headers pairs) []], h')
            | (None, _) \<Rightarrow> None)
         else if s ! 3 = 0 then Some ([Frame (frame_stream_id s) [] (take len (drop 9 s))], h)
         else Some ([], h))"

lemma h2_frame_append: "9 + u24_be (s ! 0) (s ! 1) (s ! 2) \<le> length s \<Longrightarrow> h2_frame ops h (s @ t) = h2_frame ops h s"
proof -
  assume len: "9 + u24_be (s ! 0) (s ! 1) (s ! 2) \<le> length s"
  then have nth: "i < 9 \<Longrightarrow> (s @ t) ! i = s ! i" for i by (simp add: nth_append)
  have "take (u24_be (s ! 0) (s ! 1) (s ! 2)) (drop 9 (s @ t)) = take (u24_be (s ! 0) (s ! 1) (s ! 2)) (drop 9 s)"
    using len by simp
  moreover have "frame_stream_id (s @ t) = frame_stream_id s" by (simp add: frame_stream_id_def nth)
  ultimately show ?thesis using len by (simp add: h2_frame_def nth Let_def cong: option.case_cong prod.case_cong)
qed

lemma apfst_Cons_append: "apfst ((@) [x]) p = apfst ((#) x) p" "apfst ((@) []) p = p"
  by (cases p; simp)+

lemma h2_frames_whole:
  fixes s :: "byte list"
  defines "n \<equiv> 9 + u24_be (s ! 0) (s ! 1) (s ! 2)"
  assumes "9 \<le> length s" "n \<le> 9 + max_frame_len" "n \<le> length s"
  shows "h2_frames ops h (s @ t) =
    (case h2_frame ops h s of None \<Rightarrow> ([], None) | Some (fs, h') \<Rightarrow> apfst ((@) fs) (h2_frames ops h' (drop n s @ t)))"
proof -
  have "h2_frames ops h (s @ t) =
    (case h2_frame ops h (s @ t) of None \<Rightarrow> ([], None) | Some (fs, h') \<Rightarrow> apfst ((@) fs) (h2_frames ops h' (drop n s @ t)))"
    using assms
    by (subst h2_frames.simps)
       (auto simp: Let_def h2_frame_def nth_append frame_stream_id_def apfst_Cons_append split: option.splits prod.splits)
  then show ?thesis using h2_frame_append [of s ops h t] assms by simp
qed

lemmas h2_frames_whole' = h2_frames_whole [where t = "[]", unfolded append_Nil2]

lemma h2_frames_cases:
  fixes s :: "byte list" and ops :: "'h hpack_ops"
  defines "n \<equiv> 9 + u24_be (s ! 0) (s ! 1) (s ! 2)"
  obtains (part) "\<And>h. h2_frames ops h s = ([], Some (h, s))" "length s < 9 \<or> length s < n \<and> n \<le> 9 + max_frame_len"
  | (big) "\<And>h t. h2_frames ops h (s @ t) = ([], None)" "9 \<le> length s" "9 + max_frame_len < n"
  | (whole) "9 \<le> length s" "n \<le> 9 + max_frame_len" "n \<le> length s"
proof -
  consider "length s < 9 \<or> length s < n \<and> n \<le> 9 + max_frame_len" | "9 \<le> length s" "9 + max_frame_len < n"
    | "9 \<le> length s" "n \<le> 9 + max_frame_len" "n \<le> length s" by linarith
  then show thesis
  proof cases
    case 1
    have "h2_frames ops h s = ([], Some (h, s))" for h
      using 1 by (subst h2_frames.simps) (auto simp: Let_def n_def)
    then show thesis using 1 by (rule part)
  next
    case 2
    have "h2_frames ops h (s @ t) = ([], None)" for h t
      using 2 by (subst h2_frames.simps) (auto simp: Let_def n_def nth_append)
    then show thesis using 2 by (rule big)
  qed (rule whole)
qed


lemma h2_frames_append:
  "h2_frames ops h (s @ t) =
     (case h2_frames ops h s of
        (fs, None) \<Rightarrow> (fs, None)
      | (fs, Some (h', rest)) \<Rightarrow> apfst ((@) fs) (h2_frames ops h' (rest @ t)))"
proof (induction "length s" arbitrary: s h rule: less_induct)
  case less
  show ?case
  proof (cases rule: h2_frames_cases [where s = s and ops = ops])
    case part
    then show ?thesis by (simp add: part(1) apfst_Cons_append)
  next
    case big
    then show ?thesis using big(1) [of h "[]"] by simp
  next
    case whole
    let ?n = "9 + u24_be (s ! 0) (s ! 1) (s ! 2)"
    have small: "length (drop ?n s) < length s" using whole by simp
    show ?thesis
      unfolding h2_frames_whole [OF whole] h2_frames_whole' [OF whole] less [OF small]
      by (auto simp: apfst_def map_prod_def split: option.splits prod.splits)
  qed
qed

lemma h2_rest_open: "h2_frames ops h s = (fs, Some (h', rest)) \<Longrightarrow> h2_frames ops h' rest = ([], Some (h', rest))"
proof (induction "length s" arbitrary: s h fs rule: less_induct)
  case less
  show ?case
  proof (cases rule: h2_frames_cases [where s = s and ops = ops])
    case part
    then show ?thesis using less.prems part(1) by simp
  next
    case big
    then show ?thesis using big(1) [of h "[]"] less.prems by simp
  next
    case whole
    let ?n = "9 + u24_be (s ! 0) (s ! 1) (s ! 2)"
    have "\<exists>h1 fs1. h2_frames ops h1 (drop ?n s) = (fs1, Some (h', rest))"
      using less.prems unfolding h2_frames_whole' [OF whole]
      by (auto simp: apfst_def map_prod_def split: option.splits prod.splits)
    then show ?thesis using less.hyps [of "drop ?n s"] whole by auto
  qed
qed

definition h2_result ::
  "'h hpack_ops \<Rightarrow> frame_outcome list \<Rightarrow> frame_outcome list \<times> ('h \<times> byte list) option \<Rightarrow> 'h http2_reassembler
    \<Rightarrow> frame_outcome list \<times> 'h http2_reassembler \<Rightarrow> bool" where
  "h2_result ops before spec r res \<longleftrightarrow>
     (case spec of
        (fs, None) \<Rightarrow> \<exists>reason. fst res = before @ fs @ [DesyncFallback reason] \<and>
          h2_desynced (snd res) \<and> h2_buffer (snd res) = vec_new
      | (fs, Some (h, rest)) \<Rightarrow> fst res = before @ fs @ [NeedMoreData] \<and>
          snd res = r\<lparr>h2_hpack := h, h2_buffer := \<lparr>elems = rest, capacity = capacity (h2_buffer r)\<rparr>\<rparr>)"

lemma h2_result_frames:
  "h2_result ops before (apfst ((@) fs) spec) r res =
     h2_result ops (before @ fs) spec (r\<lparr>h2_hpack := h, h2_buffer := (h2_buffer r)\<lparr>elems := xs\<rparr>\<rparr>) res"
  by (auto simp: h2_result_def split: prod.splits option.splits)

lemma http2_loop_frames:
  "h2_result ops before (h2_frames ops (h2_hpack r) (elems (h2_buffer r))) r (http2_loop ops r before)"
proof (induction "length (elems (h2_buffer r))" arbitrary: r before rule: less_induct)
  case less
  let ?s = "elems (h2_buffer r)"
  let ?n = "9 + u24_be (?s ! 0) (?s ! 1) (?s ! 2)"
  show ?case
  proof (cases rule: h2_frames_cases [where s = ?s and ops = ops])
    case part
    then have "http2_loop ops r before = (before @ [NeedMoreData], r)"
      by (subst http2_loop.simps) (auto simp: Let_def)
    then show ?thesis by (simp add: part(1) h2_result_def)
  next
    case big
    then have "http2_loop ops r before =
        (before @ [DesyncFallback ''declared frame length exceeds the defensive cap''], http2_desync ops r)"
      by (subst http2_loop.simps) (auto simp: Let_def)
    then show ?thesis using big(1) [of "h2_hpack r" "[]"] by (simp add: h2_result_def http2_desync_def)
  next
    case whole
    define r1 where "r1 h = r\<lparr>h2_hpack := h, h2_buffer := (h2_buffer r)\<lparr>elems := drop ?n ?s\<rparr>\<rparr>" for h
    have IH: "h2_result ops b (h2_frames ops h (drop ?n ?s)) (r1 h) (http2_loop ops (r1 h) b)" for h b
      using less [of "r1 h" b] whole by (simp add: r1_def)
    have step: "http2_loop ops r before = (case h2_frame ops (h2_hpack r) ?s of
        None \<Rightarrow> (before @ [DesyncFallback ''HPACK decode failed''],
          http2_desync ops (r1 (snd (hpack_decode ops (take (?n - 9) (drop 9 ?s)) (h2_hpack r)))))
      | Some (fs, h') \<Rightarrow> http2_loop ops (r1 h') (before @ fs))"
    proof -
      have upd: "(r\<lparr>h2_buffer := (h2_buffer r)\<lparr>elems := drop ?n ?s\<rparr>\<rparr>)\<lparr>h2_hpack := h\<rparr> = r1 h" for h by (simp add: r1_def)
      have guards: "\<not> length ?s < 9" "\<not> max_frame_len < u24_be (?s ! 0) (?s ! 1) (?s ! 2)" "\<not> length ?s < ?n"
        using whole by simp_all
      consider "?s ! 3 = 1" | "?s ! 3 = 0" | "?s ! 3 \<noteq> 1" "?s ! 3 \<noteq> 0" by blast
      then show ?thesis
      proof cases
        case 1
        obtain res h' where dec: "hpack_decode ops (take (u24_be (?s ! 0) (?s ! 1) (?s ! 2)) (drop 9 ?s)) (h2_hpack r) = (res, h')" by force
        show ?thesis
          by (subst http2_loop.simps, unfold Let_def h2_frame_def)
             (cases res; simp only: 1 dec guards upd option.case prod.case if_False if_True http2_reassembler.simps refl;
              simp add: dec [unfolded One_nat_def])
      next
        case 2
        show ?thesis
          by (subst http2_loop.simps, unfold Let_def h2_frame_def)
             (simp only: 2 guards option.case prod.case if_False if_True refl; simp add: r1_def)
      next
        case 3
        show ?thesis
          by (subst http2_loop.simps, unfold Let_def h2_frame_def)
             (simp only: 3 guards option.case prod.case if_False if_True refl; simp add: r1_def)
      qed
    qed
    show ?thesis
    proof (cases "h2_frame ops (h2_hpack r) ?s")
      case None
      then show ?thesis
        unfolding h2_frames_whole' [OF whole] step by (simp add: h2_result_def http2_desync_def)
    next
      case (Some p)
      obtain fs h' where p: "p = (fs, h')" by force
      have "h2_result ops before (apfst ((@) fs) (h2_frames ops h' (drop ?n ?s))) r (http2_loop ops (r1 h') (before @ fs))"
        unfolding h2_result_frames [where h = h' and xs = "drop ?n ?s"] using IH by (simp add: r1_def)
      then show ?thesis unfolding h2_frames_whole' [OF whole] step Some p by simp
    qed
  qed
qed


section \<open>Chunks of a stream\<close>

text \<open>Feeding contiguous chunks from an offset on; all outcomes in order.\<close>

fun http2_run :: "'h hpack_ops \<Rightarrow> nat \<Rightarrow> byte list list \<Rightarrow> 'h http2_reassembler \<Rightarrow> frame_outcome list \<times> 'h http2_reassembler" where
  "http2_run ops seq [] r = ([], r)"
| "http2_run ops seq (c # cs) r =
     (case http2_feed ops seq c r of
        (os, r1) \<Rightarrow> (case http2_run ops (seq + length c) cs r1 of (os', r2) \<Rightarrow> (os @ os', r2)))"

definition frames_of :: "frame_outcome list \<Rightarrow> frame_outcome list" where
  "frames_of os = filter is_Frame os"

lemma frames_of_simps [simp]:
  "frames_of (xs @ ys) = frames_of xs @ frames_of ys" "frames_of [] = []"
  "frames_of (NeedMoreData # os) = frames_of os" "frames_of (DesyncFallback reason # os) = frames_of os"
  by (simp_all add: frames_of_def)

lemma frames_of_h2_frames: "frames_of (fst (h2_frames ops h s)) = fst (h2_frames ops h s)"
proof (induction ops h s rule: h2_frames.induct)
  case (1 ops h s)
  then show ?case
    by (subst (1 2) h2_frames.simps) (auto simp: frames_of_def Let_def split: option.splits prod.splits)
qed

lemma http2_run_desynced:
  "h2_desynced r \<Longrightarrow> frames_of (fst (http2_run ops seq cs r)) = [] \<and> snd (http2_run ops seq cs r) = r"
  by (induction cs arbitrary: seq) (auto simp: http2_feed_def split_def)

text \<open>The reader has consumed a stream up to an offset and waits for the rest of an open frame.\<close>

definition reads_at :: "'h hpack_ops \<Rightarrow> nat \<Rightarrow> 'h http2_reassembler \<Rightarrow> bool" where
  "reads_at ops seq r \<longleftrightarrow> \<not> h2_desynced r \<and> h2_next_expected_seq r \<in> {None, Some seq} \<and>
     h2_frames ops (h2_hpack r) (elems (h2_buffer r)) = ([], Some (h2_hpack r, elems (h2_buffer r)))"

lemma http2_feed_frames:
  fixes c :: "byte list"
  assumes "reads_at ops seq r"
  defines "spec \<equiv> h2_frames ops (h2_hpack r) (elems (h2_buffer r) @ c)"
  shows "frames_of (fst (http2_feed ops seq c r)) = fst spec"
    and "snd spec = None \<Longrightarrow> h2_desynced (snd (http2_feed ops seq c r))"
    and "snd spec = Some (h, rest) \<Longrightarrow> reads_at ops (seq + length c) (snd (http2_feed ops seq c r)) \<and>
      h2_hpack (snd (http2_feed ops seq c r)) = h \<and> elems (h2_buffer (snd (http2_feed ops seq c r))) = rest"
proof -
  let ?r = "r\<lparr>h2_next_expected_seq := Some (seq + length c), h2_buffer := vec_extend c (h2_buffer r)\<rparr>"
  have feed: "http2_feed ops seq c r = http2_loop ops ?r []"
    using assms(1) by (auto simp: http2_feed_def reads_at_def)
  have res: "h2_result ops [] spec ?r (http2_feed ops seq c r)"
    using http2_loop_frames [of ops "[]" ?r] unfolding feed spec_def by (simp add: vec_simps)
  obtain fs end_state where spec: "spec = (fs, end_state)" by force
  have frames: "frames_of fs = fs" using frames_of_h2_frames [of ops "h2_hpack r" "elems (h2_buffer r) @ c"] spec by (simp add: spec_def)
  show "frames_of (fst (http2_feed ops seq c r)) = fst spec"
    using res frames by (cases end_state) (auto simp: h2_result_def spec)
  show "snd spec = None \<Longrightarrow> h2_desynced (snd (http2_feed ops seq c r))"
    using res by (auto simp: h2_result_def spec)
  assume "snd spec = Some (h, rest)"
  then have "spec = (fs, Some (h, rest))" by (simp add: spec)
  moreover from this have "h2_frames ops h rest = ([], Some (h, rest))" unfolding spec_def by (rule h2_rest_open)
  ultimately show "reads_at ops (seq + length c) (snd (http2_feed ops seq c r)) \<and>
      h2_hpack (snd (http2_feed ops seq c r)) = h \<and> elems (h2_buffer (snd (http2_feed ops seq c r))) = rest"
    using res assms(1) by (auto simp: h2_result_def reads_at_def)
qed

lemma http2_run_frames:
  assumes "reads_at ops seq r"
  shows "frames_of (fst (http2_run ops seq cs r)) = fst (h2_frames ops (h2_hpack r) (elems (h2_buffer r) @ concat cs))"
  using assms
proof (induction cs arbitrary: seq r)
  case Nil
  then show ?case by (simp add: reads_at_def)
next
  case (Cons c cs)
  let ?s = "elems (h2_buffer r) @ c"
  note fed = http2_feed_frames [OF Cons.prems, of c]
  obtain os r1 where step: "http2_feed ops seq c r = (os, r1)" by force
  obtain fs end_state where spec: "h2_frames ops (h2_hpack r) ?s = (fs, end_state)" by force
  have whole: "h2_frames ops (h2_hpack r) (elems (h2_buffer r) @ concat (c # cs)) =
      (case end_state of None \<Rightarrow> (fs, None) | Some (h', rest) \<Rightarrow> apfst ((@) fs) (h2_frames ops h' (rest @ concat cs)))"
    using h2_frames_append [of ops "h2_hpack r" ?s "concat cs"] by (simp add: spec split: option.splits)
  show ?case
  proof (cases end_state)
    case None
    then show ?thesis
      using fed(1,2) http2_run_desynced [of r1 ops "seq + length c" cs] step spec whole by (simp add: split_def)
  next
    case (Some p)
    obtain h rest where p: "p = (h, rest)" by force
    have "reads_at ops (seq + length c) r1" "h2_hpack r1 = h" "elems (h2_buffer r1) = rest"
      using fed(3) [of h rest] step spec Some p by auto
    then show ?thesis
      using Cons.IH [of "seq + length c" r1] fed(1) step spec whole Some p by (simp add: split_def)
  qed
qed

lemma reads_at_new: "reads_at ops seq (http2_new ops)"
  by (simp add: reads_at_def http2_new_def vec_simps h2_frames.simps [of ops _ "[]"])

text \<open>
  C17: However a decrypted HTTP/2 stream is cut into contiguous chunks, the frames reported are those of
  the stream read as a whole: complete DATA and HEADERS frames in order, up to the first frame that
  is over the length cap or that the header decoder rejects; after that nothing more is reported.
\<close>
theorem http2_frames_in_any_chunks:
  "frames_of (fst (http2_run ops seq chunks (http2_new ops))) = fst (h2_frames ops (hpack_new ops) (concat chunks))"
  using http2_run_frames [OF reads_at_new, of ops seq chunks] by (simp add: http2_new_def vec_simps)

lemma shown_headers_redacted:
  "(name, val) \<in> set (shown_headers pairs) \<Longrightarrow>
     \<not> looks_like_bearer_token val \<and> (is_sensitive_header_name name \<longrightarrow> val = redacted_text)"
  by (auto simp: shown_headers_def redact_headers_def redact_header_def redacted_text_not_bearer split: if_splits)

lemma h2_frames_redacted:
  "f \<in> set (fst (h2_frames ops h s)) \<Longrightarrow> \<exists>stream_id pairs body. f = Frame stream_id (shown_headers pairs) body"
proof (induction "length s" arbitrary: s h rule: less_induct)
  case less
  have none: "shown_headers [] = []" by (simp add: shown_headers_def redact_headers_def)
  show ?case
  proof (cases rule: h2_frames_cases [where s = s and ops = ops])
    case part
    then show ?thesis using less.prems by simp
  next
    case big
    then show ?thesis using less.prems big(1) [of h "[]"] by simp
  next
    case whole
    let ?n = "9 + u24_be (s ! 0) (s ! 1) (s ! 2)"
    have small: "length (drop ?n s) < length s" using whole by simp
    obtain fs h' where fr: "h2_frame ops h s = Some (fs, h')" and f: "f \<in> set fs \<or> f \<in> set (fst (h2_frames ops h' (drop ?n s)))"
      using less.prems unfolding h2_frames_whole' [OF whole] by (auto split: option.splits)
    from f show ?thesis
    proof
      assume "f \<in> set fs"
      then show ?thesis
        using fr none by (auto simp: h2_frame_def Let_def split: if_splits option.splits prod.splits) metis
    next
      assume "f \<in> set (fst (h2_frames ops h' (drop ?n s)))"
      then show ?thesis using less.hyps [OF small] by blast
    qed
  qed
qed

lemma http2_feed_redacted:
  assumes "Frame stream_id headers body \<in> set (fst (http2_feed ops seq chunk r))"
  shows "\<exists>pairs. headers = shown_headers pairs"
proof -
  let ?r = "r\<lparr>h2_next_expected_seq := Some (seq + length chunk), h2_buffer := vec_extend chunk (h2_buffer r)\<rparr>"
  have "Frame stream_id headers body \<in> set (fst (http2_loop ops ?r []))"
    using assms by (auto simp: http2_feed_def split: if_splits)
  then have "Frame stream_id headers body \<in> set (fst (h2_frames ops (h2_hpack ?r) (elems (h2_buffer ?r))))"
    using http2_loop_frames [of ops "[]" ?r] by (auto simp: h2_result_def split: prod.splits option.splits)
  from h2_frames_redacted [OF this] show ?thesis by auto
qed


section \<open>The client's preface\<close>

text \<open>What every HTTP/2 client sends first on a connection (RFC 9113, section 3.4).\<close>

definition connection_preface :: "byte list" where
  "connection_preface = lit ''PRI * HTTP/2.0'' @ [0x0D, 0x0A, 0x0D, 0x0A] @ lit ''SM'' @ [0x0D, 0x0A, 0x0D, 0x0A]"

text \<open>
  C14: (code defect) The reader does not know the connection preface: its first three bytes read as a frame
  length over the cap. From a stream that begins with the preface, as every client-to-server stream does, no
  frame is ever reported, however the stream is cut, and once nine bytes have arrived the reader has given
  the connection up.
\<close>

theorem client_stream_never_shown:
  assumes "concat chunks = connection_preface @ frames"
  shows "frames_of (fst (http2_run ops seq chunks (http2_new ops))) = [] \<and>
    h2_desynced (snd (http2_feed ops seq (connection_preface @ frames) (http2_new ops)))"
proof -
  have bytes: "(connection_preface @ frames) ! 0 = 0x50" "(connection_preface @ frames) ! 1 = 0x52" "(connection_preface @ frames) ! 2 = 0x49"
    "9 \<le> length (connection_preface @ frames)"
    by (simp_all add: connection_preface_def lit_def)
  have given_up: "h2_frames ops h (connection_preface @ frames) = ([], None)" for h
    using bytes by (subst h2_frames.simps) (simp add: u24_be_def max_frame_len_def)
  then show ?thesis
    using http2_run_frames [OF reads_at_new, of ops seq chunks] http2_feed_frames(2) [OF reads_at_new, of ops "connection_preface @ frames" seq]
    by (simp add: assms http2_new_def vec_simps)
qed

theorem client_stream_never_shown_witness:
  "frames_of (fst (http2_run \<lparr>hpack_new = (), hpack_decode = (\<lambda>_ h. (Some [], h)), hpack_held = (\<lambda>_. 0)\<rparr> 0
     [connection_preface, [0, 0, 0, 1, 4, 0, 0, 0, 1]] (http2_new \<lparr>hpack_new = (), hpack_decode = (\<lambda>_ h. (Some [], h)), hpack_held = (\<lambda>_. 0)\<rparr>))) = []"
  using client_stream_never_shown [of "[connection_preface, [0, 0, 0, 1, 4, 0, 0, 0, 1]]" "[0, 0, 0, 1, 4, 0, 0, 0, 1]"
    "\<lparr>hpack_new = (), hpack_decode = (\<lambda>_ h. (Some [], h)), hpack_held = (\<lambda>_. 0)\<rparr>" 0]
  by simp

end
