(* ===== verification/TlsPipeline.thy ===== *)
theory TlsPipeline
  imports TlsStream TlsDecrypt Http2 RingBuffer RateLimit FlowTable
begin

text \<open>
  The decryption pipeline of the capture loop (\<open>main.rs\<close>): per connection and direction it orders TCP
  segments, frames TLS records, follows the handshake, decrypts with the logged secrets, reads HTTP/2
  and hands redacted headers and bodies to the ring and to the event channel.

  Each function returns what it sends to the channel beside the state it leaves; JSON and base64
  encoding are not modelled. The third-party primitives are the fields of \<open>tls_ops\<close>. The mutexes are
  not modelled: the capture thread and the sweep take them in turn. A loop that need not end is a
  partial function into \<open>option\<close>.
\<close>

section \<open>State\<close>

definition max_tls_buffer_bytes :: nat where "max_tls_buffer_bytes = 4 * 1024 * 1024"
definition max_tls_active_directions :: nat where "max_tls_active_directions = 1024"
definition max_tls_directions_per_pid :: nat where "max_tls_directions_per_pid = 64"
definition max_tls_key_wait_bytes :: nat where "max_tls_key_wait_bytes = 64 * 1024"
definition tls_key_wait_ms :: nat where "tls_key_wait_ms = 2000"
definition tls_gap_hold_ms :: nat where "tls_gap_hold_ms = 2000"
definition max_early_data_records :: nat where "max_early_data_records = 32"
definition max_early_data_bytes :: nat where "max_early_data_bytes = 256 * 1024"
definition decrypt_ring_cap_bytes :: nat where "decrypt_ring_cap_bytes = 256 * 1024"

datatype decryption_availability = Unavailable | Desynchronized

datatype decryption_reason =
  NoKey | UnsupportedCipher | HandshakeNotObserved | EvictedBudget | EarlyDataUnresolved | TcpGap
| CaptureTruncated | OverlapConflict | RecordInvalid | RecordOverflow

datatype decrypt_event =
  DecryptedPayload (dp_connection: rstring) (dp_direction: decryption_direction) (dp_stream_id: "nat option")
    (dp_redacted: bool) (dp_data: "byte list")
| DecryptionStatus (ds_connection: rstring) (ds_direction: decryption_direction) (ds_status: decryption_availability)
    (ds_reason: decryption_reason)

record 'h tls_ops =
  to_crypto :: crypto
  to_hpack :: "'h hpack_ops"
  to_zeroize :: "byte rvec \<Rightarrow> byte rvec"
  to_mlock_probe :: bool
  to_hex_decode :: "rstring \<Rightarrow> byte list option"

record 'h decrypt_direction_state =
  dd_stream :: "tls_direction_stream option"
  dd_handshake_secret :: "session_secret option"
  dd_handshake_sequence :: nat
  dd_handshake_parser :: "byte rvec"
  dd_handshake_epoch_started :: bool
  dd_handshake_epoch_complete :: bool
  dd_cipher_suite :: "nat option"
  dd_early_data_advertised :: bool
  dd_early_data_records :: nat
  dd_early_data_bytes :: nat
  dd_app_secret :: "session_secret option"
  dd_app_sequence :: nat
  dd_plaintext_sequence :: nat
  dd_http2 :: "'h http2_reassembler"
  dd_key_wait_records :: "byte rvec list"
  dd_key_wait_bytes :: nat
  dd_key_wait_since_ms :: "nat option"
  dd_gap_since_ms :: "nat option"
  dd_last_activity_ms :: nat
  dd_terminal :: "(decryption_availability \<times> decryption_reason) option"
  dd_terminal_status_emitted :: bool
  dd_clean_closed :: bool

definition direction_state_new :: "'h tls_ops \<Rightarrow> 'h decrypt_direction_state" where
  "direction_state_new ops =
     \<lparr>dd_stream = None, dd_handshake_secret = None, dd_handshake_sequence = 0, dd_handshake_parser = vec_new,
      dd_handshake_epoch_started = False, dd_handshake_epoch_complete = False, dd_cipher_suite = None,
      dd_early_data_advertised = False, dd_early_data_records = 0, dd_early_data_bytes = 0, dd_app_secret = None,
      dd_app_sequence = 0, dd_plaintext_sequence = 0, dd_http2 = http2_new (to_hpack ops), dd_key_wait_records = [],
      dd_key_wait_bytes = 0, dd_key_wait_since_ms = None, dd_gap_since_ms = None, dd_last_activity_ms = 0,
      dd_terminal = None, dd_terminal_status_emitted = False, dd_clean_closed = False\<rparr>"

definition direction_held_bytes :: "'h tls_ops \<Rightarrow> 'h decrypt_direction_state \<Rightarrow> nat" where
  "direction_held_bytes ops d =
     sat_add (sat_add (sat_add (case dd_stream d of None \<Rightarrow> 0 | Some s \<Rightarrow> direction_bytes_held s)
       (sum_list (map capacity (dd_key_wait_records d))))
       (hs_bytes_held (dd_handshake_parser d)))
       (http2_bytes_held (to_hpack ops) (dd_http2 d))"

record 'h decrypt_connection_state =
  dc_pid :: nat
  dc_client_random :: "byte list option"
  dc_client_is_outbound :: "bool option"
  dc_outbound :: "'h decrypt_direction_state"
  dc_inbound :: "'h decrypt_direction_state"
  dc_ring :: decrypted_ring_buffer

definition connection_state_new :: "'h tls_ops \<Rightarrow> nat \<Rightarrow> 'h decrypt_connection_state" where
  "connection_state_new ops pid =
     \<lparr>dc_pid = pid, dc_client_random = None, dc_client_is_outbound = None, dc_outbound = direction_state_new ops,
      dc_inbound = direction_state_new ops, dc_ring = ring_new (to_mlock_probe ops) decrypt_ring_cap_bytes\<rparr>"

definition connection_held_bytes :: "'h tls_ops \<Rightarrow> 'h decrypt_connection_state \<Rightarrow> nat" where
  "connection_held_bytes ops c =
     sat_add (sat_add (direction_held_bytes ops (dc_outbound c)) (direction_held_bytes ops (dc_inbound c)))
       (ring_bytes_held (dc_ring c))"

type_synonym 'h decrypt_state = "(rstring \<times> 'h decrypt_connection_state) list"

definition conn_direction :: "bool \<Rightarrow> 'h decrypt_connection_state \<Rightarrow> 'h decrypt_direction_state" where
  "conn_direction outbound c = (if outbound then dc_outbound c else dc_inbound c)"

definition set_direction :: "bool \<Rightarrow> 'h decrypt_direction_state \<Rightarrow> 'h decrypt_connection_state \<Rightarrow> 'h decrypt_connection_state" where
  "set_direction outbound d c = (if outbound then c\<lparr>dc_outbound := d\<rparr> else c\<lparr>dc_inbound := d\<rparr>)"

definition direction_name :: "bool \<Rightarrow> bool option \<Rightarrow> decryption_direction option" where
  "direction_name outbound client_is_outbound =
     map_option (\<lambda>client_outbound. if outbound = client_outbound then ClientToServer else ServerToClient) client_is_outbound"

section \<open>Ending a direction\<close>

definition emit_pending_decryption_status ::
  "rstring \<Rightarrow> decryption_direction option \<Rightarrow> 'h decrypt_direction_state \<Rightarrow> decrypt_event list \<times> 'h decrypt_direction_state" where
  "emit_pending_decryption_status conn dir d =
     (if dd_terminal_status_emitted d then ([], d)
      else case (dir, dd_terminal d) of
             (Some dir', Some (status, reason)) \<Rightarrow>
               ([DecryptionStatus conn dir' status reason], d\<lparr>dd_terminal_status_emitted := True\<rparr>)
           | _ \<Rightarrow> ([], d))"

definition terminate_decryption_direction ::
  "'h tls_ops \<Rightarrow> rstring \<Rightarrow> decryption_direction option \<Rightarrow> decryption_availability \<Rightarrow> decryption_reason
    \<Rightarrow> 'h decrypt_direction_state \<Rightarrow> decrypt_event list \<times> 'h decrypt_direction_state" where
  "terminate_decryption_direction ops conn dir status reason d =
     emit_pending_decryption_status conn dir
       (if dd_terminal d = None
        then d\<lparr>dd_terminal := Some (status, reason), dd_stream := None, dd_handshake_secret := None, dd_app_secret := None,
               dd_handshake_sequence := 0, dd_app_sequence := 0, dd_key_wait_records := [], dd_key_wait_bytes := 0,
               dd_key_wait_since_ms := None, dd_gap_since_ms := None, dd_handshake_parser := vec_new,
               dd_http2 := http2_new (to_hpack ops)\<rparr>
        else d)"

definition count_early_data_trial :: "nat \<Rightarrow> 'h decrypt_direction_state \<Rightarrow> bool \<times> 'h decrypt_direction_state" where
  "count_early_data_trial record_bytes d =
     (let d1 = d\<lparr>dd_early_data_records := min (dd_early_data_records d + 1) 255,
                 dd_early_data_bytes := sat_add (dd_early_data_bytes d) record_bytes\<rparr>
      in (dd_early_data_records d1 \<le> max_early_data_records \<and> dd_early_data_bytes d1 \<le> max_early_data_bytes, d1))"

definition key_wait_expired :: "nat \<Rightarrow> 'h decrypt_direction_state \<Rightarrow> bool" where
  "key_wait_expired capture_now_ms d =
     (case dd_key_wait_since_ms d of None \<Rightarrow> False | Some since \<Rightarrow> capture_now_ms - since \<ge> tls_key_wait_ms)"

definition expire_tls_direction_timers ::
  "'h tls_ops \<Rightarrow> rstring \<Rightarrow> decryption_direction option \<Rightarrow> nat \<Rightarrow> 'h decrypt_direction_state
    \<Rightarrow> decrypt_event list \<times> 'h decrypt_direction_state" where
  "expire_tls_direction_timers ops conn dir capture_now_ms d =
     (if dd_terminal d \<noteq> None then ([], d)
      else if key_wait_expired capture_now_ms d then terminate_decryption_direction ops conn dir Unavailable NoKey d
      else if (case dd_gap_since_ms d of None \<Rightarrow> False | Some since \<Rightarrow> capture_now_ms - since \<ge> tls_gap_hold_ms)
      then terminate_decryption_direction ops conn dir Desynchronized TcpGap d
      else ([], d))"

fun expire_tls_state_timers ::
  "'h tls_ops \<Rightarrow> nat \<Rightarrow> 'h decrypt_state \<Rightarrow> decrypt_event list \<times> 'h decrypt_state" where
  "expire_tls_state_timers ops capture_now_ms [] = ([], [])"
| "expire_tls_state_timers ops capture_now_ms ((conn, c) # state) =
     (let (e1, outb) = expire_tls_direction_timers ops conn (direction_name True (dc_client_is_outbound c)) capture_now_ms (dc_outbound c);
          (e2, inb) = expire_tls_direction_timers ops conn (direction_name False (dc_client_is_outbound c)) capture_now_ms (dc_inbound c);
          (e3, state') = expire_tls_state_timers ops capture_now_ms state
      in (e1 @ e2 @ e3, (conn, c\<lparr>dc_outbound := outb, dc_inbound := inb\<rparr>) # state'))"

definition mark_tls_capture_truncated ::
  "'h tls_ops \<Rightarrow> rstring \<Rightarrow> decryption_direction option \<Rightarrow> bool \<Rightarrow> 'h decrypt_direction_state
    \<Rightarrow> bool \<times> decrypt_event list \<times> 'h decrypt_direction_state" where
  "mark_tls_capture_truncated ops conn dir was_truncated d =
     (was_truncated,
      if was_truncated then terminate_decryption_direction ops conn dir Desynchronized CaptureTruncated d else ([], d))"

fun apply_plaintext_handshake_events ::
  "handshake_event list \<Rightarrow> nat option \<Rightarrow> 'h decrypt_direction_state \<Rightarrow> nat option \<times> 'h decrypt_direction_state" where
  "apply_plaintext_handshake_events [] negotiated d = (negotiated, d)"
| "apply_plaintext_handshake_events (e # es) negotiated d =
     (case e of
        HsClientHello early_data \<Rightarrow>
          apply_plaintext_handshake_events es negotiated
            (d\<lparr>dd_early_data_advertised := dd_early_data_advertised d \<or> early_data\<rparr>)
      | HsServerHello cipher_suite _ tls13 \<Rightarrow>
          (let suite = (if tls13 then cipher_suite else 0)
           in apply_plaintext_handshake_events es (Some suite) (d\<lparr>dd_cipher_suite := Some suite\<rparr>))
      | _ \<Rightarrow> apply_plaintext_handshake_events es negotiated d)"

section \<open>Limits on active directions and on memory\<close>

definition active_tls_directions :: "nat option \<Rightarrow> 'h decrypt_state \<Rightarrow> nat" where
  "active_tls_directions pid state =
     sum_list (map (\<lambda>(_, c). of_bool (dd_stream (dc_outbound c) \<noteq> None) + of_bool (dd_stream (dc_inbound c) \<noteq> None))
       (filter (\<lambda>(_, c). case pid of None \<Rightarrow> True | Some p \<Rightarrow> dc_pid c = p) state))"

definition mark_tls_direction_evicted ::
  "'h tls_ops \<Rightarrow> rstring \<Rightarrow> bool \<Rightarrow> 'h decrypt_state \<Rightarrow> decrypt_event list \<times> 'h decrypt_state" where
  "mark_tls_direction_evicted ops conn outbound state =
     (case map_of state conn of
        None \<Rightarrow> ([], state)
      | Some c \<Rightarrow>
          let (events, d) = terminate_decryption_direction ops conn (direction_name outbound (dc_client_is_outbound c))
                Unavailable EvictedBudget (conn_direction outbound c)
          in (events, AList.update conn ((set_direction outbound d c)\<lparr>dc_ring := ring_clear (to_zeroize ops) (dc_ring c)\<rparr>) state))"

text \<open>The active directions a search looks at, with their last activity.\<close>

definition active_directions :: "('h decrypt_connection_state \<Rightarrow> rstring \<Rightarrow> bool) \<Rightarrow> 'h decrypt_state \<Rightarrow> ((rstring \<times> bool) \<times> nat) list" where
  "active_directions allowed state =
     concat (map (\<lambda>(conn, c).
       if allowed c conn then
         (if dd_stream (dc_outbound c) \<noteq> None then [((conn, True), dd_last_activity_ms (dc_outbound c))] else []) @
         (if dd_stream (dc_inbound c) \<noteq> None then [((conn, False), dd_last_activity_ms (dc_inbound c))] else [])
       else []) state)"

definition room_victim :: "nat option \<Rightarrow> rstring \<Rightarrow> 'h decrypt_state \<Rightarrow> (rstring \<times> bool) option" where
  "room_victim scoped_pid current_id state =
     map_option fst (min_by_key snd (active_directions
       (\<lambda>c conn. conn \<noteq> current_id \<and> (case scoped_pid of None \<Rightarrow> True | Some p \<Rightarrow> dc_pid c = p)) state))"

partial_function (option) make_room_loop ::
  "'h tls_ops \<Rightarrow> nat option \<Rightarrow> nat \<Rightarrow> rstring \<Rightarrow> decrypt_event list \<Rightarrow> 'h decrypt_state \<Rightarrow> (decrypt_event list \<times> 'h decrypt_state) option" where
  "make_room_loop ops scoped_pid limit current_id events state =
     (if active_tls_directions scoped_pid state \<ge> limit then
        (case room_victim scoped_pid current_id state of
           None \<Rightarrow> Some (events, state)
         | Some (conn, outbound) \<Rightarrow>
             (case mark_tls_direction_evicted ops conn outbound state of
                (es, state') \<Rightarrow> make_room_loop ops scoped_pid limit current_id (events @ es) state'))
      else Some (events, state))"

definition make_tls_direction_room ::
  "'h tls_ops \<Rightarrow> nat \<Rightarrow> rstring \<Rightarrow> 'h decrypt_state \<Rightarrow> (decrypt_event list \<times> 'h decrypt_state) option" where
  "make_tls_direction_room ops pid current_id state =
     (case make_room_loop ops (Some pid) max_tls_directions_per_pid current_id [] state of
        None \<Rightarrow> None
      | Some (events, state1) \<Rightarrow> make_room_loop ops None max_tls_active_directions current_id events state1)"

definition total_held_bytes :: "'h tls_ops \<Rightarrow> 'h decrypt_state \<Rightarrow> nat" where
  "total_held_bytes ops state = sum_list (map (\<lambda>(_, c). connection_held_bytes ops c) state)"

definition ring_victim :: "'h decrypt_state \<Rightarrow> rstring option" where
  "ring_victim state =
     map_option fst (min_by_key
       (\<lambda>(_, c). max (dd_last_activity_ms (dc_outbound c)) (dd_last_activity_ms (dc_inbound c)))
       (filter (\<lambda>(_, c). ring_bytes_held (dc_ring c) > 0) state))"

partial_function (option) enforce_budget_loop ::
  "'h tls_ops \<Rightarrow> decrypt_event list \<Rightarrow> 'h decrypt_state \<Rightarrow> (decrypt_event list \<times> 'h decrypt_state) option" where
  "enforce_budget_loop ops events state =
     (if total_held_bytes ops state > max_tls_buffer_bytes then
        (case map_option fst (min_by_key snd (active_directions (\<lambda>_ _. True) state)) of
           Some (conn, outbound) \<Rightarrow>
             (case mark_tls_direction_evicted ops conn outbound state of
                (es, state') \<Rightarrow> enforce_budget_loop ops (events @ es) state')
         | None \<Rightarrow>
             (case ring_victim state of
                None \<Rightarrow> Some (events, state)
              | Some conn \<Rightarrow>
                  (case map_of state conn of
                     None \<Rightarrow> enforce_budget_loop ops events state
                   | Some c \<Rightarrow>
                       enforce_budget_loop ops events
                         (AList.update conn (c\<lparr>dc_ring := ring_clear (to_zeroize ops) (dc_ring c)\<rparr>) state))))
      else Some (events, state))"

definition enforce_tls_buffer_budget ::
  "'h tls_ops \<Rightarrow> 'h decrypt_state \<Rightarrow> (decrypt_event list \<times> 'h decrypt_state) option" where
  "enforce_tls_buffer_budget ops state = enforce_budget_loop ops [] state"

definition remove_decrypt_connection ::
  "rstring \<Rightarrow> 'h decrypt_state \<times> keylog_watcher \<Rightarrow> 'h decrypt_state \<times> keylog_watcher" where
  "remove_decrypt_connection conn = (\<lambda>(state, w).
     (AList.delete conn state,
      case Option.bind (map_of state conn) (\<lambda>c. map_option (Pair (dc_pid c)) (dc_client_random c)) of
        None \<Rightarrow> w
      | Some (pid, client_random) \<Rightarrow> remove_flow_secrets pid client_random w))"


section \<open>Processing records\<close>

text \<open>What the loop over the records of one direction changes.\<close>

record 'h record_loop =
  rl_dir :: "'h decrypt_direction_state"
  rl_ring :: decrypted_ring_buffer
  rl_suite :: "nat option"
  rl_limiter :: packet_event_limiter
  rl_deferred :: "byte rvec list"
  rl_events :: "decrypt_event list"

text \<open>The arguments of the loop that stay the same.\<close>

record record_context =
  rc_connection :: rstring
  rc_outbound :: bool
  rc_client_is_outbound :: "bool option"
  rc_direction :: "decryption_direction option"
  rc_event_now_ms :: nat
  rc_capture_now_ms :: nat

definition vec_of :: "'a list \<Rightarrow> 'a rvec" where
  "vec_of xs = \<lparr>elems = xs, capacity = length xs\<rparr>"

definition rl_terminate ::
  "'h tls_ops \<Rightarrow> record_context \<Rightarrow> decryption_availability \<Rightarrow> decryption_reason \<Rightarrow> 'h record_loop \<Rightarrow> 'h record_loop" where
  "rl_terminate ops rc status reason l =
     (let (es, d) = terminate_decryption_direction ops (rc_connection rc) (rc_direction rc) status reason (rl_dir l)
      in l\<lparr>rl_dir := d, rl_events := rl_events l @ es\<rparr>)"

definition defer_tls_record :: "'h tls_ops \<Rightarrow> record_context \<Rightarrow> byte rvec \<Rightarrow> 'h record_loop \<Rightarrow> 'h record_loop" where
  "defer_tls_record ops rc r l =
     (let d = rl_dir l;
          d1 = (if dd_key_wait_since_ms d = None then d\<lparr>dd_key_wait_since_ms := Some (rc_capture_now_ms rc)\<rparr> else d);
          l1 = l\<lparr>rl_dir := d1\<rparr>
      in if sat_add (dd_key_wait_bytes d1) (length (elems r)) > max_tls_key_wait_bytes
         then rl_terminate ops rc Unavailable NoKey l1
         else l1\<lparr>rl_dir := d1\<lparr>dd_key_wait_bytes := dd_key_wait_bytes d1 + length (elems r)\<rparr>,
                 rl_deferred := rl_deferred l @ [r]\<rparr>)"

definition feed_plaintext_to_http2 ::
  "'h tls_ops \<Rightarrow> byte list \<Rightarrow> 'h decrypt_direction_state \<Rightarrow> frame_outcome list \<times> 'h decrypt_direction_state" where
  "feed_plaintext_to_http2 ops bs d =
     (let (outcomes, h) = http2_feed (to_hpack ops) (dd_plaintext_sequence d) bs (dd_http2 d)
      in (outcomes, d\<lparr>dd_http2 := h, dd_plaintext_sequence := sat_add (dd_plaintext_sequence d) (length bs)\<rparr>))"

definition format_decrypted_headers :: "(rstring \<times> rstring) list \<Rightarrow> rstring" where
  "format_decrypted_headers headers = join_with [0x0A] (map (\<lambda>(name, val). name @ lit '': '' @ val) headers)"

definition emit_decrypted ::
  "record_context \<Rightarrow> decryption_direction \<Rightarrow> nat option \<Rightarrow> bool \<Rightarrow> byte list \<Rightarrow> 'h record_loop \<Rightarrow> 'h record_loop" where
  "emit_decrypted rc dir stream_id redacted data l =
     (let (allowed, limiter) = limiter_allow (rl_limiter l) (rc_event_now_ms rc)
      in l\<lparr>rl_limiter := limiter,
           rl_events := rl_events l @ (if allowed then [DecryptedPayload (rc_connection rc) dir stream_id redacted data] else [])\<rparr>)"

definition show_content ::
  "'h tls_ops \<Rightarrow> record_context \<Rightarrow> decryption_direction \<Rightarrow> nat \<Rightarrow> byte list \<Rightarrow> 'h record_loop \<Rightarrow> 'h record_loop" where
  "show_content ops rc dir stream_id data l =
     emit_decrypted rc dir (Some stream_id) False data
       (l\<lparr>rl_ring := push_for_direction (to_zeroize ops) dir (vec_of data) (rl_ring l)\<rparr>)"

fun show_outcome ::
  "'h tls_ops \<Rightarrow> record_context \<Rightarrow> decryption_direction \<Rightarrow> frame_outcome \<Rightarrow> 'h record_loop \<Rightarrow> 'h record_loop" where
  "show_outcome ops rc dir (Frame stream_id headers body) l =
     (let l1 = (if headers \<noteq> [] then show_content ops rc dir stream_id (format_decrypted_headers headers) l else l)
      in if body \<noteq> [] then show_content ops rc dir stream_id body l1 else l1)"
| "show_outcome ops rc dir (DesyncFallback reason) l = l"
| "show_outcome ops rc dir NeedMoreData l = l"

definition rsplit_first :: "byte \<Rightarrow> rstring \<Rightarrow> rstring" where
  "rsplit_first sep s = rev (takeWhile (\<lambda>b. b \<noteq> sep) (rev s))"

definition next_generation_label :: "bool \<Rightarrow> rstring \<Rightarrow> rstring" where
  "next_generation_label client label =
     (let generation = sat_add (case parse_u64 (rsplit_first 0x5F label) of None \<Rightarrow> 0 | Some n \<Rightarrow> n) 1
      in (if client then lit ''CLIENT'' else lit ''SERVER'') @ lit ''_TRAFFIC_SECRET_'' @ show_nat generation)"

definition apply_encrypted_event ::
  "'h tls_ops \<Rightarrow> record_context \<Rightarrow> bool \<Rightarrow> handshake_event \<Rightarrow> 'h decrypt_direction_state \<Rightarrow> 'h decrypt_direction_state" where
  "apply_encrypted_event ops rc handshake_epoch event d =
     (case event of
        HsFinished \<Rightarrow>
          (if handshake_epoch
           then d\<lparr>dd_handshake_epoch_complete := True, dd_handshake_secret := None, dd_handshake_sequence := 0\<rparr> else d)
      | HsKeyUpdate _ \<Rightarrow>
          (if handshake_epoch then d
           else case dd_app_secret d of
                  None \<Rightarrow> d
                | Some app_secret \<Rightarrow>
                    (case next_traffic_secret (to_crypto ops) app_secret of
                       None \<Rightarrow> d
                     | Some next_secret \<Rightarrow>
                         d\<lparr>dd_app_secret := Some (app_secret\<lparr>ss_secret := next_secret,
                             ss_label := next_generation_label (rc_client_is_outbound rc = Some (rc_outbound rc)) (ss_label app_secret)\<rparr>),
                           dd_app_sequence := 0\<rparr>))
      | _ \<Rightarrow> d)"

definition advance_sequence :: "bool \<Rightarrow> 'h decrypt_direction_state \<Rightarrow> 'h decrypt_direction_state" where
  "advance_sequence handshake_epoch d =
     (if handshake_epoch then d\<lparr>dd_handshake_sequence := sat_add (dd_handshake_sequence d) 1\<rparr>
      else d\<lparr>dd_app_sequence := sat_add (dd_app_sequence d) 1\<rparr>)"

text \<open>The match on the outcome of a decryption; whether the loop goes on.\<close>

definition process_plaintext ::
  "'h tls_ops \<Rightarrow> record_context \<Rightarrow> bool \<Rightarrow> byte \<Rightarrow> byte list \<Rightarrow> 'h record_loop \<Rightarrow> bool \<times> 'h record_loop" where
  "process_plaintext ops rc handshake_epoch content_type bs l =
     (let d = rl_dir l
      in if content_type = 21 then
           (False, l\<lparr>rl_dir := d\<lparr>dd_clean_closed := True, dd_app_secret := None, dd_handshake_secret := None,
                      dd_key_wait_records := [], dd_key_wait_bytes := 0\<rparr>\<rparr>)
         else if content_type = 22 then
           (let d1 = advance_sequence handshake_epoch
                  (if handshake_epoch then d\<lparr>dd_handshake_epoch_started := True\<rparr> else d);
                d2 = d1\<lparr>dd_key_wait_since_ms := None\<rparr>
            in case hs_feed bs (dd_handshake_parser d2) of
                 (Inr events, buf) \<Rightarrow>
                   (True, l\<lparr>rl_dir := fold (apply_encrypted_event ops rc handshake_epoch) events (d2\<lparr>dd_handshake_parser := buf\<rparr>)\<rparr>)
               | (Inl _, buf) \<Rightarrow>
                   (False, rl_terminate ops rc Desynchronized RecordInvalid (l\<lparr>rl_dir := d2\<lparr>dd_handshake_parser := buf\<rparr>\<rparr>)))
         else if content_type = 23 \<and> handshake_epoch then
           (True, l\<lparr>rl_dir := (advance_sequence True (d\<lparr>dd_handshake_epoch_started := True\<rparr>))\<lparr>dd_key_wait_since_ms := None\<rparr>\<rparr>)
         else if content_type = 23 then
           (let d1 = (advance_sequence False d)\<lparr>dd_key_wait_since_ms := None\<rparr>;
                (outcomes, d2) = feed_plaintext_to_http2 ops bs d1;
                l1 = l\<lparr>rl_dir := d2\<rparr>
            in case rc_direction rc of
                 None \<Rightarrow> (True, rl_terminate ops rc Unavailable HandshakeNotObserved l1)
               | Some dir \<Rightarrow> (True, fold (show_outcome ops rc dir) outcomes l1))
         else (True, l\<lparr>rl_dir := (advance_sequence handshake_epoch d)\<lparr>dd_key_wait_since_ms := None\<rparr>\<rparr>))"

definition process_undecryptable ::
  "'h tls_ops \<Rightarrow> record_context \<Rightarrow> bool \<Rightarrow> nat \<Rightarrow> 'h record_loop \<Rightarrow> bool \<times> 'h record_loop" where
  "process_undecryptable ops rc handshake_epoch record_len l =
     (if handshake_epoch \<and> \<not> dd_handshake_epoch_started (rl_dir l) \<and> rc_client_is_outbound rc = Some (rc_outbound rc) \<and>
         dd_early_data_advertised (rl_dir l)
      then (let (ok, d) = count_early_data_trial record_len (rl_dir l); l1 = l\<lparr>rl_dir := d\<rparr>
            in if \<not> ok then (False, rl_terminate ops rc Unavailable EarlyDataUnresolved l1) else (True, l1))
      else (False, rl_terminate ops rc Desynchronized RecordInvalid l))"

definition defer_and_go_on :: "'h tls_ops \<Rightarrow> record_context \<Rightarrow> byte rvec \<Rightarrow> 'h record_loop \<Rightarrow> bool \<times> 'h record_loop" where
  "defer_and_go_on ops rc r l =
     (let l1 = defer_tls_record ops rc r l in (dd_terminal (rl_dir l1) = None, l1))"

definition process_application_record ::
  "'h tls_ops \<Rightarrow> record_context \<Rightarrow> byte rvec \<Rightarrow> 'h record_loop \<Rightarrow> bool \<times> 'h record_loop" where
  "process_application_record ops rc r l =
     (case rl_suite l of
        None \<Rightarrow> defer_and_go_on ops rc r l
      | Some suite \<Rightarrow>
          if suite \<noteq> 0x1301 then (False, rl_terminate ops rc Unavailable UnsupportedCipher l)
          else
            let d = rl_dir l;
                (secret, sequence, handshake_epoch) =
                  (if dd_handshake_epoch_complete d then (dd_app_secret d, dd_app_sequence d, False)
                   else (dd_handshake_secret d, dd_handshake_sequence d, True))
            in case secret of
                 None \<Rightarrow> defer_and_go_on ops rc r l
               | Some s \<Rightarrow>
                   (case decrypt_record (to_crypto ops) (elems r) s sequence of
                      Undecryptable _ \<Rightarrow> process_undecryptable ops rc handshake_epoch (length (elems r)) l
                    | Plaintext content_type bs \<Rightarrow> process_plaintext ops rc handshake_epoch content_type bs l))"

definition process_tls_record ::
  "'h tls_ops \<Rightarrow> record_context \<Rightarrow> byte rvec \<Rightarrow> 'h record_loop \<Rightarrow> bool \<times> 'h record_loop" where
  "process_tls_record ops rc r l =
     (let bs = elems r
      in if bs \<noteq> [] \<and> hd bs = 0x14 then (True, l)
         else if bs \<noteq> [] \<and> hd bs = 0x16 \<and> length bs \<ge> 5 then
           (case hs_feed (drop 5 bs) (dd_handshake_parser (rl_dir l)) of
              (Inl _, buf) \<Rightarrow>
                (False, rl_terminate ops rc Desynchronized RecordInvalid (l\<lparr>rl_dir := (rl_dir l)\<lparr>dd_handshake_parser := buf\<rparr>\<rparr>))
            | (Inr events, buf) \<Rightarrow>
                (let (negotiated, d) = apply_plaintext_handshake_events events None ((rl_dir l)\<lparr>dd_handshake_parser := buf\<rparr>)
                 in (True, l\<lparr>rl_dir := d, rl_suite := (case negotiated of None \<Rightarrow> rl_suite l | Some suite \<Rightarrow> Some suite)\<rparr>)))
         else if bs \<noteq> [] \<and> hd bs = 0x17 \<and> length bs \<ge> 5 then process_application_record ops rc r l
         else (False, rl_terminate ops rc Desynchronized RecordInvalid l))"

fun process_records_loop :: "'h tls_ops \<Rightarrow> record_context \<Rightarrow> byte rvec list \<Rightarrow> 'h record_loop \<Rightarrow> 'h record_loop" where
  "process_records_loop ops rc [] l = l"
| "process_records_loop ops rc (r # rs) l =
     (case process_tls_record ops rc r l of
        (True, l1) \<Rightarrow> process_records_loop ops rc rs l1
      | (False, l1) \<Rightarrow> l1)"

definition process_tls_records :: "'h tls_ops \<Rightarrow> record_context \<Rightarrow> byte rvec list \<Rightarrow> 'h record_loop \<Rightarrow> 'h record_loop" where
  "process_tls_records ops rc records l =
     (let l1 = process_records_loop ops rc records (l\<lparr>rl_deferred := []\<rparr>)
      in if dd_terminal (rl_dir l1) = None
         then l1\<lparr>rl_dir := (rl_dir l1)\<lparr>dd_key_wait_records := rl_deferred l1\<rparr>\<rparr> else l1)"


section \<open>One packet\<close>

definition local_port_of :: "parsed_packet \<Rightarrow> rstring list \<Rightarrow> nat option" where
  "local_port_of p local_addrs =
     (if pp_src_ip p \<in> set local_addrs then pp_src_port p
      else if pp_dst_ip p \<in> set local_addrs then pp_dst_port p
      else None)"

definition build_flow_key :: "parsed_packet \<Rightarrow> rstring list \<Rightarrow> flow_key option" where
  "build_flow_key p local_addrs =
     (if pp_src_ip p \<in> set local_addrs then
        Option.bind (pp_src_port p) (\<lambda>src_port. Option.bind (pp_dst_port p) (\<lambda>dst_port.
          Some \<lparr>flk_protocol = pp_protocol p, flk_local_addr = pp_src_ip p, flk_local_port = src_port,
                flk_remote_addr = pp_dst_ip p, flk_remote_port = dst_port\<rparr>))
      else if pp_dst_ip p \<in> set local_addrs then
        Option.bind (pp_dst_port p) (\<lambda>dst_port. Option.bind (pp_src_port p) (\<lambda>src_port.
          Some \<lparr>flk_protocol = pp_protocol p, flk_local_addr = pp_dst_ip p, flk_local_port = dst_port,
                flk_remote_addr = pp_src_ip p, flk_remote_port = src_port\<rparr>))
      else None)"

text \<open>
  What the capture loop shares with the pipeline: the watcher, the decryption state, the limiter of
  decrypted events, and what has been sent.
\<close>

record 'h pipeline =
  pl_watcher :: keylog_watcher
  pl_state :: "'h decrypt_state"
  pl_limiter :: packet_event_limiter
  pl_events :: "decrypt_event list"

text \<open>What a packet brings along: the connection, the flow table's answers and the clocks.\<close>

record packet_context =
  pc_connection :: rstring
  pc_pid :: nat
  pc_outbound :: bool
  pc_client_random :: "byte list option"
  pc_client_is_outbound :: "bool option"
  pc_outbound_syn :: "u32 option"
  pc_inbound_syn :: "u32 option"
  pc_capture_truncated :: bool
  pc_event_now_ms :: nat
  pc_capture_now_ms :: nat

definition candidate_secrets ::
  "packet_context \<Rightarrow> keylog_watcher \<Rightarrow> session_secret option \<times> session_secret option \<times> keylog_watcher" where
  "candidate_secrets pc w =
     (case (pc_client_random pc, pc_client_is_outbound pc) of
        (Some client_random, Some client_is_outbound) \<Rightarrow>
          (let w1 = mark_flow_seen (pc_pid pc) client_random w;
               (secret, w2) = take_secret (pc_pid pc) client_random
                 (secret_label_for_direction client_is_outbound (pc_outbound pc) False) w1;
               (handshake_secret, w3) = take_secret (pc_pid pc) client_random
                 (secret_label_for_direction client_is_outbound (pc_outbound pc) True) w2
           in (secret, handshake_secret, w3))
      | _ \<Rightarrow> (None, None, w))"

definition needs_stream_slot :: "packet_context \<Rightarrow> 'h decrypt_state \<Rightarrow> bool" where
  "needs_stream_slot pc state =
     (case map_of state (pc_connection pc) of
        None \<Rightarrow> True
      | Some c \<Rightarrow> (pc_outbound_syn pc \<noteq> None \<and> dd_stream (dc_outbound c) = None) \<or>
                  (pc_inbound_syn pc \<noteq> None \<and> dd_stream (dc_inbound c) = None))"

definition open_stream :: "u32 option \<Rightarrow> 'h decrypt_direction_state \<Rightarrow> 'h decrypt_direction_state" where
  "open_stream syn d =
     (if dd_stream d = None then
        (case syn of
           None \<Rightarrow> d
         | Some syn_seq \<Rightarrow> d\<lparr>dd_stream := Some (tls_direction_stream_new (first_data_sequence syn_seq True))\<rparr>)
      else d)"

definition refresh_connection :: "packet_context \<Rightarrow> 'h decrypt_connection_state \<Rightarrow> 'h decrypt_connection_state" where
  "refresh_connection pc c =
     c\<lparr>dc_client_random := (if dc_client_random c = None then pc_client_random pc else dc_client_random c),
       dc_client_is_outbound := (if dc_client_is_outbound c = None then pc_client_is_outbound pc else dc_client_is_outbound c),
       dc_outbound := open_stream (pc_outbound_syn pc) (dc_outbound c),
       dc_inbound := open_stream (pc_inbound_syn pc) (dc_inbound c)\<rparr>"

definition stream_error_reason :: "tls_stream_error \<Rightarrow> decryption_reason" where
  "stream_error_reason e =
     (case e of ConflictingOverlap \<Rightarrow> OverlapConflict | RecordTooLarge \<Rightarrow> RecordOverflow | ReorderWindowExceeded \<Rightarrow> TcpGap)"

definition adopt_secrets ::
  "session_secret option \<Rightarrow> session_secret option \<Rightarrow> 'h decrypt_direction_state \<Rightarrow> 'h decrypt_direction_state" where
  "adopt_secrets secret handshake_secret d =
     d\<lparr>dd_app_secret := (if dd_app_secret d = None then secret else dd_app_secret d),
       dd_handshake_secret := (if dd_handshake_secret d = None then handshake_secret else dd_handshake_secret d)\<rparr>"

text \<open>Whether a gap has been open too long, with the moment it was first seen.\<close>

definition note_gap :: "nat \<Rightarrow> bool \<Rightarrow> 'h decrypt_direction_state \<Rightarrow> bool \<times> 'h decrypt_direction_state" where
  "note_gap now has_gap d =
     (if has_gap then
        (let since = (case dd_gap_since_ms d of None \<Rightarrow> now | Some t \<Rightarrow> t)
         in (now - since \<ge> tls_gap_hold_ms, d\<lparr>dd_gap_since_ms := Some since\<rparr>))
      else (False, d\<lparr>dd_gap_since_ms := None\<rparr>))"

text \<open>
  The packet's own direction, from the pending status on: what was sent, the direction, the ring and
  the limiter, and whether the end of the function was reached.
\<close>

definition feed_direction ::
  "'h tls_ops \<Rightarrow> packet_context \<Rightarrow> u32 \<Rightarrow> byte list \<Rightarrow> session_secret option \<Rightarrow> session_secret option \<Rightarrow> decryption_direction option \<Rightarrow> nat option
    \<Rightarrow> 'h record_loop \<Rightarrow> (bool \<times> 'h record_loop) option" where
  "feed_direction ops pc data_seq payload secret handshake_secret dir suite l0 =
     (let conn = pc_connection pc;
          d0 = (rl_dir l0)\<lparr>dd_last_activity_ms := pc_capture_now_ms pc\<rparr>;
          (e1, d1) = emit_pending_decryption_status conn dir d0;
          (truncated, e2, d2) = mark_tls_capture_truncated ops conn dir (pc_capture_truncated pc) d1;
          l1 = l0\<lparr>rl_dir := d2, rl_events := rl_events l0 @ e1 @ e2\<rparr>
      in if truncated then Some (False, l1)
         else
           let (e3, d3) = expire_tls_direction_timers ops conn dir (pc_capture_now_ms pc) d2;
               l2 = l1\<lparr>rl_dir := d3, rl_events := rl_events l1 @ e3\<rparr>
           in if dd_terminal d3 \<noteq> None then Some (False, l2)
              else
                let d4 = adopt_secrets secret handshake_secret d3; l3 = l2\<lparr>rl_dir := d4\<rparr>;
                    rc = \<lparr>rc_connection = conn, rc_outbound = pc_outbound pc, rc_client_is_outbound = pc_client_is_outbound pc,
                          rc_direction = dir, rc_event_now_ms = pc_event_now_ms pc, rc_capture_now_ms = pc_capture_now_ms pc\<rparr>
                in case dd_stream d4 of
                     None \<Rightarrow>
                       Some (False, if payload \<noteq> [] \<and> dd_terminal d4 = None
                                    then rl_terminate ops rc Unavailable HandshakeNotObserved l3 else l3)
                   | Some stream \<Rightarrow>
                       if dd_terminal d4 \<noteq> None \<or> dd_clean_closed d4 then Some (False, l3)
                       else
                         (case feed_segment data_seq payload stream of
                            None \<Rightarrow> None
                          | Some (Inl e, stream') \<Rightarrow>
                              Some (False, rl_terminate ops rc Desynchronized (stream_error_reason e)
                                (l3\<lparr>rl_dir := d4\<lparr>dd_stream := Some stream'\<rparr>\<rparr>))
                          | Some (Inr framed_records, stream') \<Rightarrow>
                              let (expired, d5) = note_gap (pc_capture_now_ms pc) (tls_has_pending_gap (tds_tcp stream'))
                                    (d4\<lparr>dd_stream := Some stream'\<rparr>)
                              in if expired
                                 then Some (False, rl_terminate ops rc Desynchronized TcpGap (l3\<lparr>rl_dir := d5\<rparr>))
                                 else Some (True, process_tls_records ops rc (dd_key_wait_records d5 @ framed_records)
                                   (l3\<lparr>rl_dir := d5\<lparr>dd_key_wait_records := [], dd_key_wait_bytes := 0\<rparr>, rl_suite := suite\<rparr>))))"

text \<open>Room for a new stream is made only when one of the directions can be given one.\<close>

definition stream_room ::
  "'h tls_ops \<Rightarrow> packet_context \<Rightarrow> 'h decrypt_state \<Rightarrow> (decrypt_event list \<times> 'h decrypt_state) option" where
  "stream_room ops pc state =
     (if needs_stream_slot pc state \<and> (pc_outbound_syn pc \<noteq> None \<or> pc_inbound_syn pc \<noteq> None)
      then make_tls_direction_room ops (pc_pid pc) (pc_connection pc) state
      else Some ([], state))"

definition connection_entry :: "'h tls_ops \<Rightarrow> packet_context \<Rightarrow> 'h decrypt_state \<Rightarrow> 'h decrypt_connection_state" where
  "connection_entry ops pc state =
     (case map_of state (pc_connection pc) of None \<Rightarrow> connection_state_new ops (pc_pid pc) | Some c \<Rightarrow> c)"

definition feed_connection ::
  "'h tls_ops \<Rightarrow> packet_context \<Rightarrow> u32 \<Rightarrow> byte list \<Rightarrow> session_secret option \<Rightarrow> session_secret option \<Rightarrow> packet_event_limiter
    \<Rightarrow> 'h decrypt_connection_state \<Rightarrow> (bool \<times> 'h decrypt_connection_state \<times> packet_event_limiter \<times> decrypt_event list) option" where
  "feed_connection ops pc data_seq payload secret handshake_secret limiter c =
     (let c1 = refresh_connection pc c;
          suite = (case dd_cipher_suite (dc_outbound c1) of None \<Rightarrow> dd_cipher_suite (dc_inbound c1) | Some s \<Rightarrow> Some s);
          dir = direction_name (pc_outbound pc) (dc_client_is_outbound c1)
      in map_option
           (\<lambda>(reached_end, l).
              (reached_end, (set_direction (pc_outbound pc) (rl_dir l) c1)\<lparr>dc_ring := rl_ring l\<rparr>, rl_limiter l, rl_events l))
           (feed_direction ops pc data_seq payload secret handshake_secret dir suite
              \<lparr>rl_dir = conn_direction (pc_outbound pc) c1, rl_ring = dc_ring c1, rl_suite = suite,
               rl_limiter = limiter, rl_deferred = [], rl_events = []\<rparr>))"

definition decrypt_packet ::
  "'h tls_ops \<Rightarrow> packet_context \<Rightarrow> u32 \<Rightarrow> byte list \<Rightarrow> 'h pipeline \<Rightarrow> 'h pipeline option" where
  "decrypt_packet ops pc data_seq payload pl =
     (let (secret, handshake_secret, w) = candidate_secrets pc (pl_watcher pl)
      in case stream_room ops pc (pl_state pl) of
           None \<Rightarrow> None
         | Some (e0, state0) \<Rightarrow>
             let c = connection_entry ops pc state0;
                 pl0 = pl\<lparr>pl_watcher := w, pl_state := AList.update (pc_connection pc) c state0, pl_events := pl_events pl @ e0\<rparr>
             in if dc_pid c \<noteq> pc_pid pc then Some pl0
                else case feed_connection ops pc data_seq payload secret handshake_secret (pl_limiter pl) c of
                       None \<Rightarrow> None
                     | Some (reached_end, c', limiter, es) \<Rightarrow>
                         let pl1 = pl0\<lparr>pl_state := AList.update (pc_connection pc) c' state0, pl_limiter := limiter,
                                       pl_events := pl_events pl0 @ es\<rparr>
                         in if \<not> reached_end then Some pl1
                            else case enforce_tls_buffer_budget ops (pl_state pl1) of
                                   None \<Rightarrow> None
                                 | Some (e9, state9) \<Rightarrow> Some (pl1\<lparr>pl_state := state9, pl_events := pl_events pl1 @ e9\<rparr>))"

definition try_decrypt_and_emit ::
  "'h tls_ops \<Rightarrow> (rstring \<Rightarrow> file_state) \<Rightarrow> nat \<Rightarrow> parsed_packet \<Rightarrow> bool \<Rightarrow> nat \<Rightarrow> nat \<Rightarrow> rstring list \<Rightarrow> (nat \<Rightarrow> nat option)
    \<Rightarrow> flow_table \<Rightarrow> 'h pipeline \<Rightarrow> 'h pipeline option" where
  "try_decrypt_and_emit ops fs instant p capture_truncated event_now_ms capture_now_ms local_addrs process_map ft pl =
     (if pp_protocol p \<noteq> Tcp then Some pl
      else case Option.bind (local_port_of p local_addrs) process_map of
             None \<Rightarrow> Some pl
           | Some pid \<Rightarrow>
               (case build_flow_key p local_addrs of
                  None \<Rightarrow> Some pl
                | Some key \<Rightarrow>
                    (case pp_seq p of
                       None \<Rightarrow> Some pl
                     | Some seq \<Rightarrow>
                         let syn = (case pp_tcp_flags p of None \<Rightarrow> False | Some flags \<Rightarrow> tf_syn flags);
                             w = poll_at (to_hex_decode ops) fs instant (pl_watcher pl);
                             pl1 = pl\<lparr>pl_watcher := w\<rparr>
                         in if \<not> is_eligible pid w then Some pl1
                            else decrypt_packet ops
                              \<lparr>pc_connection = connection_id key, pc_pid = pid, pc_outbound = pp_src_ip p \<in> set local_addrs,
                               pc_client_random = client_random_for key ft, pc_client_is_outbound = client_is_outbound_for key ft,
                               pc_outbound_syn = tcp_syn_sequence_for key True ft, pc_inbound_syn = tcp_syn_sequence_for key False ft,
                               pc_capture_truncated = capture_truncated, pc_event_now_ms = event_now_ms,
                               pc_capture_now_ms = capture_now_ms\<rparr>
                              (first_data_sequence seq syn) (pp_payload p) pl1)))"


section \<open>The sweep\<close>

text \<open>One direction of a connection when secrets have arrived late.\<close>

definition replay_direction ::
  "'h tls_ops \<Rightarrow> rstring \<Rightarrow> nat \<Rightarrow> nat \<Rightarrow> byte list \<Rightarrow> bool \<Rightarrow> bool \<Rightarrow> nat
    \<Rightarrow> keylog_watcher \<times> 'h record_loop \<Rightarrow> keylog_watcher \<times> 'h record_loop" where
  "replay_direction ops conn event_now_ms capture_now_ms client_random client_is_outbound outbound pid = (\<lambda>(w, l).
     let d = rl_dir l
     in if dd_terminal d \<noteq> None \<or> dd_clean_closed d then (w, l)
        else
          let (d1, w1) =
                (if dd_app_secret d = None
                 then (let (s, w') = take_secret pid client_random (secret_label_for_direction client_is_outbound outbound False) w
                       in (d\<lparr>dd_app_secret := s\<rparr>, w'))
                 else (d, w));
              (d2, w2) =
                (if \<not> dd_handshake_epoch_complete d1 \<and> dd_handshake_secret d1 = None
                 then (let (s, w') = take_secret pid client_random (secret_label_for_direction client_is_outbound outbound True) w1
                       in (d1\<lparr>dd_handshake_secret := s\<rparr>, w'))
                 else (d1, w1))
          in if dd_key_wait_records d2 = [] \<or> (dd_app_secret d2 = None \<and> dd_handshake_secret d2 = None)
             then (w2, l\<lparr>rl_dir := d2\<rparr>)
             else
               (w2, process_tls_records ops
                  \<lparr>rc_connection = conn, rc_outbound = outbound, rc_client_is_outbound = Some client_is_outbound,
                   rc_direction = Some (if outbound = client_is_outbound then ClientToServer else ServerToClient),
                   rc_event_now_ms = event_now_ms, rc_capture_now_ms = capture_now_ms\<rparr>
                  (dd_key_wait_records d2)
                  (l\<lparr>rl_dir := d2\<lparr>dd_last_activity_ms := capture_now_ms, dd_key_wait_records := [], dd_key_wait_bytes := 0\<rparr>\<rparr>)))"

definition replay_connection ::
  "'h tls_ops \<Rightarrow> nat \<Rightarrow> nat \<Rightarrow> rstring \<Rightarrow> 'h decrypt_connection_state \<Rightarrow> keylog_watcher \<Rightarrow> packet_event_limiter
    \<Rightarrow> 'h decrypt_connection_state \<times> keylog_watcher \<times> packet_event_limiter \<times> decrypt_event list" where
  "replay_connection ops event_now_ms capture_now_ms conn c w limiter =
     (case (dc_client_random c, dc_client_is_outbound c) of
        (Some client_random, Some client_is_outbound) \<Rightarrow>
          if \<not> is_eligible (dc_pid c) w then (c, w, limiter, [])
          else
            let w0 = mark_flow_seen (dc_pid c) client_random w;
                suite = (case dd_cipher_suite (dc_outbound c) of None \<Rightarrow> dd_cipher_suite (dc_inbound c) | Some s \<Rightarrow> Some s);
                (w1, l1) = replay_direction ops conn event_now_ms capture_now_ms client_random client_is_outbound True (dc_pid c)
                  (w0, \<lparr>rl_dir = dc_outbound c, rl_ring = dc_ring c, rl_suite = suite, rl_limiter = limiter,
                       rl_deferred = [], rl_events = []\<rparr>);
                c1 = c\<lparr>dc_outbound := rl_dir l1, dc_ring := rl_ring l1\<rparr>;
                (w2, l2) = replay_direction ops conn event_now_ms capture_now_ms client_random client_is_outbound False (dc_pid c)
                  (w1, l1\<lparr>rl_dir := dc_inbound c1\<rparr>)
            in (c1\<lparr>dc_inbound := rl_dir l2, dc_ring := rl_ring l2\<rparr>, w2, rl_limiter l2, rl_events l2)
      | _ \<Rightarrow> (c, w, limiter, []))"

fun replay_connections ::
  "'h tls_ops \<Rightarrow> nat \<Rightarrow> nat \<Rightarrow> 'h decrypt_state \<Rightarrow> 'h pipeline \<Rightarrow> 'h decrypt_state \<times> 'h pipeline" where
  "replay_connections ops event_now_ms capture_now_ms [] pl = ([], pl)"
| "replay_connections ops event_now_ms capture_now_ms ((conn, c) # state) pl =
     (case replay_connection ops event_now_ms capture_now_ms conn c (pl_watcher pl) (pl_limiter pl) of
        (c', w, limiter, es) \<Rightarrow>
          (case replay_connections ops event_now_ms capture_now_ms state
                  (pl\<lparr>pl_watcher := w, pl_limiter := limiter, pl_events := pl_events pl @ es\<rparr>) of
             (state', pl') \<Rightarrow> ((conn, c') # state', pl')))"

definition replay_pending_tls_keys :: "'h tls_ops \<Rightarrow> nat \<Rightarrow> nat \<Rightarrow> 'h pipeline \<Rightarrow> 'h pipeline" where
  "replay_pending_tls_keys ops event_now_ms capture_now_ms pl =
     (case replay_connections ops event_now_ms capture_now_ms (pl_state pl) pl of (state, pl') \<Rightarrow> pl'\<lparr>pl_state := state\<rparr>)"

definition expire_pipeline_timers :: "'h tls_ops \<Rightarrow> nat \<Rightarrow> 'h pipeline \<Rightarrow> 'h pipeline" where
  "expire_pipeline_timers ops capture_now_ms pl =
     (case expire_tls_state_timers ops capture_now_ms (pl_state pl) of
        (es, state) \<Rightarrow> pl\<lparr>pl_state := state, pl_events := pl_events pl @ es\<rparr>)"

definition remove_pipeline_connection :: "rstring \<Rightarrow> 'h pipeline \<Rightarrow> 'h pipeline" where
  "remove_pipeline_connection conn pl =
     (case remove_decrypt_connection conn (pl_state pl, pl_watcher pl) of
        (state, w) \<Rightarrow> pl\<lparr>pl_state := state, pl_watcher := w\<rparr>)"


text \<open>The periodic sweep: read the key logs, replay what waits for keys, expire the timers, enforce the budget.\<close>

definition tls_sweep :: "'h tls_ops \<Rightarrow> (rstring \<Rightarrow> file_state) \<Rightarrow> nat \<Rightarrow> nat \<Rightarrow> nat \<Rightarrow> 'h pipeline \<Rightarrow> 'h pipeline option" where
  "tls_sweep ops fs instant event_now_ms tls_now_ms pl =
     (let pl1 = replay_pending_tls_keys ops event_now_ms tls_now_ms
                  (pl\<lparr>pl_watcher := poll_at (to_hex_decode ops) fs instant (pl_watcher pl)\<rparr>);
          pl2 = expire_pipeline_timers ops tls_now_ms pl1
      in map_option (\<lambda>(es, state). pl2\<lparr>pl_state := state, pl_events := pl_events pl2 @ es\<rparr>)
           (enforce_tls_buffer_budget ops (pl_state pl2)))"


section \<open>Consent\<close>

text \<open>The state at start-up and the two control messages that grant and revoke decryption for a process.\<close>

definition pipeline_new :: "packet_event_limiter \<Rightarrow> 'h pipeline" where
  "pipeline_new limiter = \<lparr>pl_watcher = keylog_watcher_new, pl_state = [], pl_limiter = limiter, pl_events = []\<rparr>"

definition register_decrypt_eligible :: "nat \<Rightarrow> rstring \<Rightarrow> 'h pipeline \<Rightarrow> 'h pipeline" where
  "register_decrypt_eligible pid keylog_path pl =
     pl\<lparr>pl_watcher := register_eligible_pid pid keylog_path (pl_watcher pl)\<rparr>"

definition unregister_decrypt_eligible :: "nat \<Rightarrow> 'h pipeline \<Rightarrow> 'h pipeline" where
  "unregister_decrypt_eligible pid pl =
     pl\<lparr>pl_watcher := unregister_pid pid (pl_watcher pl),
        pl_state := filter (\<lambda>(_, c). dc_pid c \<noteq> pid) (pl_state pl)\<rparr>"

end
