(* ===== verification/TlsFailClosed.thy ===== *)
theory TlsFailClosed
  imports TlsPipeline
begin

text \<open>
  What the decryption pipeline guarantees of a direction that has ended, in every state it can reach,
  and that nothing is decrypted for a connection without consent.
\<close>

section \<open>Ended directions hold no secrets\<close>

definition dir_closed :: "'h decrypt_direction_state \<Rightarrow> bool" where
  "dir_closed d \<longleftrightarrow> (dd_terminal d \<noteq> None \<longrightarrow>
     dd_app_secret d = None \<and> dd_handshake_secret d = None \<and> dd_key_wait_records d = [])"

named_theorems closed_intros \<open>operations keep ended directions empty\<close>

lemma dir_closed_new [closed_intros]: "dir_closed (direction_state_new ops)"
  by (simp add: dir_closed_def direction_state_new_def)

lemma emit_pending_fields:
  "dd_terminal (snd (emit_pending_decryption_status conn dir d)) = dd_terminal d"
  "dd_app_secret (snd (emit_pending_decryption_status conn dir d)) = dd_app_secret d"
  "dd_handshake_secret (snd (emit_pending_decryption_status conn dir d)) = dd_handshake_secret d"
  "dd_key_wait_records (snd (emit_pending_decryption_status conn dir d)) = dd_key_wait_records d"
  "dd_stream (snd (emit_pending_decryption_status conn dir d)) = dd_stream d"
  "dd_last_activity_ms (snd (emit_pending_decryption_status conn dir d)) = dd_last_activity_ms d"
  by (auto simp: emit_pending_decryption_status_def split: option.splits)

lemma emit_pending_closed [closed_intros]: "dir_closed d \<Longrightarrow> dir_closed (snd (emit_pending_decryption_status conn dir d))"
  by (simp add: dir_closed_def emit_pending_fields)

lemma terminate_closed [closed_intros]:
  "dir_closed d \<Longrightarrow> dir_closed (snd (terminate_decryption_direction ops conn dir status reason d))"
  by (simp add: terminate_decryption_direction_def dir_closed_def emit_pending_fields)

lemma terminate_terminal: "dd_terminal (snd (terminate_decryption_direction ops conn dir status reason d)) \<noteq> None"
  by (simp add: terminate_decryption_direction_def emit_pending_fields)

lemma rl_terminate_closed [closed_intros]: "dir_closed (rl_dir l) \<Longrightarrow> dir_closed (rl_dir (rl_terminate ops rc status reason l))"
  by (simp add: rl_terminate_def split_def Let_def terminate_closed)

lemma expire_closed [closed_intros]:
  "dir_closed d \<Longrightarrow> dir_closed (snd (expire_tls_direction_timers ops conn dir now d))"
  by (simp add: expire_tls_direction_timers_def terminate_closed)

lemma defer_closed [closed_intros]: "dir_closed (rl_dir l) \<Longrightarrow> dir_closed (rl_dir (defer_tls_record ops rc r l))"
  by (auto simp: defer_tls_record_def Let_def intro!: rl_terminate_closed) (auto simp: dir_closed_def)

lemma show_content_dir [simp]: "rl_dir (show_content ops rc dir sid data l) = rl_dir l"
  by (simp add: show_content_def emit_decrypted_def split_def Let_def)

lemma show_outcome_dir [simp]: "rl_dir (show_outcome ops rc dir outcome l) = rl_dir l"
  by (cases outcome) (simp_all add: Let_def)

lemma fold_show_outcome_dir [simp]: "rl_dir (fold (show_outcome ops rc dir) outcomes l) = rl_dir l"
  by (induction outcomes arbitrary: l) simp_all

lemma apply_encrypted_closed: "dir_closed d \<Longrightarrow> dir_closed (apply_encrypted_event ops rc epoch event d)"
  by (auto simp: apply_encrypted_event_def dir_closed_def split: handshake_event.splits option.splits)

lemma fold_encrypted_closed: "dir_closed d \<Longrightarrow> dir_closed (fold (apply_encrypted_event ops rc epoch) events d)"
  by (induction events arbitrary: d) (simp_all add: apply_encrypted_closed)

lemma apply_plaintext_closed: "dir_closed d \<Longrightarrow> dir_closed (snd (apply_plaintext_handshake_events events negotiated d))"
  by (induction events arbitrary: d negotiated)
     (auto simp: dir_closed_def Let_def split: handshake_event.splits)

lemma http2_fed_closed: "dir_closed (snd (feed_plaintext_to_http2 ops bs d)) = dir_closed d"
  by (simp add: feed_plaintext_to_http2_def split_def Let_def dir_closed_def)

lemma advance_closed [simp]: "dir_closed (advance_sequence epoch d) = dir_closed d"
  by (simp add: advance_sequence_def dir_closed_def)

lemma dir_closed_update [simp]:
  "dir_closed (d\<lparr>dd_key_wait_since_ms := a\<rparr>) = dir_closed d"
  "dir_closed (d\<lparr>dd_handshake_parser := b\<rparr>) = dir_closed d"
  "dir_closed (d\<lparr>dd_handshake_epoch_started := e\<rparr>) = dir_closed d"
  "dir_closed (d\<lparr>dd_last_activity_ms := n\<rparr>) = dir_closed d"
  "dir_closed (d\<lparr>dd_stream := s\<rparr>) = dir_closed d"
  "dir_closed (d\<lparr>dd_gap_since_ms := a\<rparr>) = dir_closed d"
  by (simp_all add: dir_closed_def)

lemma process_plaintext_closed [closed_intros]:
  assumes closed: "dir_closed (rl_dir l)"
  shows "dir_closed (rl_dir (snd (process_plaintext ops rc epoch content_type bs l)))"
proof -
  consider "content_type = 21" | "content_type = 22" | "content_type = 23" | "content_type \<notin> {21, 22, 23}" by blast
  then show ?thesis
  proof cases
    case 1
    then show ?thesis by (simp add: process_plaintext_def dir_closed_def)
  next
    case 2
    show ?thesis
      by (auto simp: 2 process_plaintext_def Let_def closed intro!: rl_terminate_closed fold_encrypted_closed
          split: sum.split prod.split)
  next
    case 3
    show ?thesis
      by (auto simp: 3 process_plaintext_def Let_def split_def closed http2_fed_closed intro!: rl_terminate_closed
          split: option.split)
  next
    case 4
    then show ?thesis using closed by (auto simp: process_plaintext_def Let_def)
  qed
qed

lemma undecryptable_closed [closed_intros]:
  assumes closed: "dir_closed (rl_dir l)"
  shows "dir_closed (rl_dir (snd (process_undecryptable ops rc epoch n l)))"
proof -
  have "dir_closed (snd (count_early_data_trial n (rl_dir l)))"
    using closed by (simp add: count_early_data_trial_def Let_def dir_closed_def)
  then show ?thesis
    using closed by (simp add: process_undecryptable_def split_def Let_def rl_terminate_closed)
qed

lemma defer_and_go_on_closed [closed_intros]:
  "dir_closed (rl_dir l) \<Longrightarrow> dir_closed (rl_dir (snd (defer_and_go_on ops rc r l)))"
  by (simp add: defer_and_go_on_def Let_def defer_closed)

lemma application_record_closed [closed_intros]:
  "dir_closed (rl_dir l) \<Longrightarrow> dir_closed (rl_dir (snd (process_application_record ops rc r l)))"
  by (auto simp: process_application_record_def Let_def split_def intro!: closed_intros
      split: option.split decrypt_outcome.split)

lemma tls_record_closed [closed_intros]:
  "dir_closed (rl_dir l) \<Longrightarrow> dir_closed (rl_dir (snd (process_tls_record ops rc r l)))"
  by (auto simp: process_tls_record_def Let_def split_def intro!: closed_intros apply_plaintext_closed
      split: sum.split prod.split)

lemma records_loop_closed: "dir_closed (rl_dir l) \<Longrightarrow> dir_closed (rl_dir (process_records_loop ops rc rs l))"
proof (induction rs arbitrary: l)
  case (Cons r rs)
  then show ?case using tls_record_closed [OF Cons.prems, of ops rc r]
    by (auto split: prod.split bool.split)
qed simp

lemma records_closed [closed_intros]: "dir_closed (rl_dir l) \<Longrightarrow> dir_closed (rl_dir (process_tls_records ops rc rs l))"
  using records_loop_closed [of "l\<lparr>rl_deferred := []\<rparr>" ops rc rs]
  by (auto simp: process_tls_records_def Let_def dir_closed_def)


section \<open>Every connection\<close>

text \<open>A predicate on connections that holds throughout the table.\<close>

definition all_connections :: "('h decrypt_connection_state \<Rightarrow> bool) \<Rightarrow> 'h decrypt_state \<Rightarrow> bool" where
  "all_connections P state \<longleftrightarrow> (\<forall>c\<in>snd ` set state. P c)"

lemma all_connections_Nil [simp]: "all_connections P []"
  by (simp add: all_connections_def)

lemma all_connections_Cons [simp]: "all_connections P ((conn, c) # state) \<longleftrightarrow> P c \<and> all_connections P state"
  by (simp add: all_connections_def)

lemma all_connections_update: "all_connections P state \<Longrightarrow> P c \<Longrightarrow> all_connections P (AList.update conn c state)"
  by (induction state) auto

lemma all_connections_delete: "all_connections P state \<Longrightarrow> all_connections P (AList.delete conn state)"
  by (auto simp: all_connections_def AList.delete_eq)

lemma all_connections_filter: "all_connections P state \<Longrightarrow> all_connections P (filter Q state)"
  by (auto simp: all_connections_def)

lemma all_connections_lookup: "all_connections P state \<Longrightarrow> map_of state conn = Some c \<Longrightarrow> P c"
  by (force simp: all_connections_def dest: map_of_SomeD)

lemma all_connections_mono: "all_connections P state \<Longrightarrow> (\<And>c. P c \<Longrightarrow> Q c) \<Longrightarrow> all_connections Q state"
  by (auto simp: all_connections_def)

text \<open>Both directions are closed, and the process is still one of those allowed.\<close>

definition conn_ok :: "nat set \<Rightarrow> 'h decrypt_connection_state \<Rightarrow> bool" where
  "conn_ok pids c \<longleftrightarrow> dir_closed (dc_outbound c) \<and> dir_closed (dc_inbound c) \<and> dc_pid c \<in> pids"

lemma conn_ok_new: "pid \<in> pids \<Longrightarrow> conn_ok pids (connection_state_new ops pid)"
  by (simp add: conn_ok_def connection_state_new_def dir_closed_new)

lemma conn_ok_set_direction: "conn_ok pids c \<Longrightarrow> dir_closed d \<Longrightarrow> conn_ok pids (set_direction outbound d c)"
  by (simp add: conn_ok_def set_direction_def)

lemma conn_ok_direction: "conn_ok pids c \<Longrightarrow> dir_closed (conn_direction outbound c)"
  by (simp add: conn_ok_def conn_direction_def)

lemma conn_ok_ring [simp]: "conn_ok pids (c\<lparr>dc_ring := r\<rparr>) = conn_ok pids c"
  by (simp add: conn_ok_def)

lemma open_stream_closed [simp]: "dir_closed (open_stream syn d) = dir_closed d"
  by (simp add: open_stream_def split: option.splits)

lemma conn_ok_refresh [simp]: "conn_ok pids (refresh_connection pc c) = conn_ok pids c"
  by (simp add: conn_ok_def refresh_connection_def)

lemma mark_evicted_ok:
  "all_connections (conn_ok pids) state \<Longrightarrow> all_connections (conn_ok pids) (snd (mark_tls_direction_evicted ops conn outbound state))"
  by (auto simp: mark_tls_direction_evicted_def Let_def split_def
      intro!: all_connections_update conn_ok_set_direction terminate_closed conn_ok_direction
      dest: all_connections_lookup split: option.splits)

lemma clear_ring_ok:
  "all_connections (conn_ok pids) state \<Longrightarrow> map_of state conn = Some c \<Longrightarrow>
     all_connections (conn_ok pids) (AList.update conn (c\<lparr>dc_ring := r\<rparr>) state)"
  by (auto intro!: all_connections_update dest: all_connections_lookup)

text \<open>What evicting a direction keeps, the searches keep.\<close>

lemma make_room_loop_keeps:
  assumes "make_room_loop ops scoped_pid limit current_id events state = Some out"
    and "Q state" "\<And>conn outbound s. Q s \<Longrightarrow> Q (snd (mark_tls_direction_evicted ops conn outbound s))"
  shows "Q (snd out)"
proof -
  have "(\<forall>conn outbound s. Q s \<longrightarrow> Q (snd (mark_tls_direction_evicted ops conn outbound s))) \<longrightarrow> Q state \<longrightarrow> Q (snd out)"
  proof (rule make_room_loop.raw_induct [where P = "\<lambda>ops scoped_pid limit current_id events state out.
      (\<forall>conn outbound s. Q s \<longrightarrow> Q (snd (mark_tls_direction_evicted ops conn outbound s))) \<longrightarrow> Q state \<longrightarrow> Q (snd out)",
      OF _ assms(1)], intro impI, goal_cases)
    case (1 loop ops scoped_pid limit current_id events state out)
    note IH = 1(1) and body = 1(2) and keeps = 1(3) and Q = 1(4)
    show ?case
    proof (cases "limit \<le> active_tls_directions scoped_pid state \<and> room_victim scoped_pid current_id state \<noteq> None")
      case True
      then obtain conn outbound where "room_victim scoped_pid current_id state = Some (conn, outbound)" by auto
      with body True IH keeps Q show ?thesis by (auto simp: split_def)
    next
      case False
      with body Q show ?thesis by (auto split: if_splits option.splits)
    qed
  qed
  with assms show ?thesis by blast
qed

lemma enforce_budget_keeps:
  assumes "enforce_budget_loop ops events state = Some out"
    and "Q state" "\<And>conn outbound s. Q s \<Longrightarrow> Q (snd (mark_tls_direction_evicted ops conn outbound s))"
    and "\<And>conn c s r. Q s \<Longrightarrow> map_of s conn = Some c \<Longrightarrow> Q (AList.update conn (c\<lparr>dc_ring := r\<rparr>) s)"
  shows "Q (snd out)"
proof -
  have "(\<forall>conn outbound s. Q s \<longrightarrow> Q (snd (mark_tls_direction_evicted ops conn outbound s))) \<longrightarrow>
    (\<forall>conn c s r. Q s \<longrightarrow> map_of s conn = Some c \<longrightarrow> Q (AList.update conn (c\<lparr>dc_ring := r\<rparr>) s)) \<longrightarrow> Q state \<longrightarrow> Q (snd out)"
  proof (rule enforce_budget_loop.raw_induct [where P = "\<lambda>ops events state out.
      (\<forall>conn outbound s. Q s \<longrightarrow> Q (snd (mark_tls_direction_evicted ops conn outbound s))) \<longrightarrow>
      (\<forall>conn c s r. Q s \<longrightarrow> map_of s conn = Some c \<longrightarrow> Q (AList.update conn (c\<lparr>dc_ring := r\<rparr>) s)) \<longrightarrow> Q state \<longrightarrow> Q (snd out)",
      OF _ assms(1)], intro impI, goal_cases)
    case (1 loop ops events state out)
    note IH = 1(1) and body = 1(2) and keeps = 1(3,4) and Q = 1(5)
    have rec: "Q (snd out)" if "loop ops es s = Some out" "Q s" for es s
      using IH [OF that(1)] keeps that(2) by blast
    show ?case
      using body keeps Q by (auto simp: split_def split: if_splits option.splits intro: rec)
  qed
  with assms show ?thesis by blast
qed

lemma make_room_ok:
  assumes "make_tls_direction_room ops pid current_id state = Some out" "all_connections (conn_ok pids) state"
  shows "all_connections (conn_ok pids) (snd out)"
proof -
  have keeps: "all_connections (conn_ok pids) (snd out)"
    if "make_room_loop ops scope limit current_id es s = Some out" "all_connections (conn_ok pids) s" for scope limit es s out
    using that by (rule make_room_loop_keeps) (rule mark_evicted_ok)
  show ?thesis
    using assms by (fastforce simp: make_tls_direction_room_def split: option.splits dest: keeps)
qed

lemma enforce_budget_ok:
  assumes "enforce_tls_buffer_budget ops state = Some out" "all_connections (conn_ok pids) state"
  shows "all_connections (conn_ok pids) (snd out)"
  using assms unfolding enforce_tls_buffer_budget_def
  by (rule enforce_budget_keeps) (rule mark_evicted_ok clear_ring_ok; assumption)+

lemma expire_state_ok:
  "all_connections (conn_ok pids) state \<Longrightarrow> all_connections (conn_ok pids) (snd (expire_tls_state_timers ops now state))"
proof (induction state)
  case (Cons entry state)
  then show ?case by (cases entry) (auto simp: split_def Let_def conn_ok_def intro!: expire_closed)
qed simp

section \<open>One packet\<close>

lemma note_gap_closed: "dir_closed (snd (note_gap now gap d)) = dir_closed d"
  by (simp add: note_gap_def Let_def)

lemma adopt_secrets_closed: "dd_terminal d = None \<Longrightarrow> dir_closed (adopt_secrets s h d)"
  by (simp add: adopt_secrets_def dir_closed_def)

lemma emptied_closed: "dir_closed d \<Longrightarrow> dir_closed (d\<lparr>dd_key_wait_records := [], dd_key_wait_bytes := n\<rparr>)"
  by (simp add: dir_closed_def)

lemma feed_direction_closed:
  assumes "feed_direction ops pc data_seq payload secret handshake_secret dir suite l0 = Some (reached_end, l)"
    and "dir_closed (rl_dir l0)"
  shows "dir_closed (rl_dir l)"
proof -
  define d1 where "d1 = snd (emit_pending_decryption_status (pc_connection pc) dir ((rl_dir l0)\<lparr>dd_last_activity_ms := pc_capture_now_ms pc\<rparr>))"
  define marked where "marked = mark_tls_capture_truncated ops (pc_connection pc) dir (pc_capture_truncated pc) d1"
  define d3 where "d3 = snd (expire_tls_direction_timers ops (pc_connection pc) dir (pc_capture_now_ms pc) (snd (snd marked)))"
  have "dir_closed d1" using assms(2) by (simp add: d1_def emit_pending_closed)
  then have d2: "dir_closed (snd (snd marked))" by (simp add: marked_def mark_tls_capture_truncated_def terminate_closed)
  then have d3: "dir_closed d3" by (simp add: d3_def expire_closed)
  show ?thesis
  proof (cases "dd_terminal d3")
    case None
    with d2 assms(1) show ?thesis
      by (auto simp: feed_direction_def Let_def split_def d1_def [symmetric] marked_def [symmetric] d3_def [symmetric]
          adopt_secrets_closed note_gap_closed
          intro!: rl_terminate_closed records_closed emptied_closed split: if_splits option.splits sum.splits prod.splits)
  next
    case (Some ended)
    with d2 d3 assms(1) show ?thesis
      by (auto simp: feed_direction_def Let_def split_def d1_def [symmetric] marked_def [symmetric] d3_def [symmetric]
          split: if_splits)
  qed
qed


section \<open>The processes allowed\<close>

definition eligible_pids :: "keylog_watcher \<Rightarrow> nat set" where
  "eligible_pids w = fst ` set (kw_eligible w)"

lemma is_eligible_pids: "is_eligible pid w \<longleftrightarrow> pid \<in> eligible_pids w"
  by (auto simp: is_eligible_def eligible_pids_def map_of_eq_None_iff)

lemma eligible_update: "map_of (kw_eligible w) pid = Some f \<Longrightarrow>
  fst ` set (AList.update pid f' (kw_eligible w)) = fst ` set (kw_eligible w)"
  using map_of_SomeD [of "kw_eligible w" pid f] by (force simp: AList.dom_update image_iff)

lemma poll_pids_eligible: "eligible_pids (snd (poll_pids hex_decode fs pids remaining found w)) = eligible_pids w"
  by (induction hex_decode fs pids remaining found w rule: poll_pids.induct)
     (auto simp: Let_def split_def eligible_pids_def eligible_update split: option.split file_state.split)

lemma fold_store_eligible: "kw_eligible (fold (store_found now) found w) = kw_eligible w"
  by (induction found arbitrary: w) (auto simp: store_found_def Let_def split_def)

lemma poll_at_eligible [simp]: "eligible_pids (poll_at hex_decode fs now w) = eligible_pids w"
  using poll_pids_eligible [of hex_decode fs "poll_order w" max_keylog_read_bytes_per_poll "[]" w]
  by (simp add: poll_at_def enforce_caps_def eligible_pids_def fold_store_eligible split_def)

lemma secrets_eligible [simp]:
  "eligible_pids (mark_flow_seen pid random w) = eligible_pids w"
  "eligible_pids (snd (take_secret pid random label w)) = eligible_pids w"
  "eligible_pids (remove_flow_secrets pid random w) = eligible_pids w"
  by (simp_all add: eligible_pids_def mark_flow_seen_def take_secret_def remove_flow_secrets_def)

lemma register_eligible: "eligible_pids (register_eligible_pid pid path w) = insert pid (eligible_pids w)"
  by (simp add: eligible_pids_def register_eligible_pid_def AList.dom_update)

lemma unregister_eligible: "eligible_pids (unregister_pid pid w) = eligible_pids w - {pid}"
  by (auto simp: eligible_pids_def unregister_pid_def AList.delete_eq image_iff)

lemma candidate_eligible [simp]: "eligible_pids (snd (snd (candidate_secrets pc w))) = eligible_pids w"
  by (simp add: candidate_secrets_def Let_def split_def split: option.split)

section \<open>The pipeline in every reachable state\<close>

definition pipeline_ok :: "'h pipeline \<Rightarrow> bool" where
  "pipeline_ok pl \<longleftrightarrow> all_connections (conn_ok (eligible_pids (pl_watcher pl))) (pl_state pl)"

lemma feed_connection_ok:
  assumes "feed_connection ops pc data_seq payload secret handshake_secret limiter c = Some (reached_end, c', limiter', es)"
    and ok: "conn_ok pids c"
  shows "conn_ok pids c'"
proof -
  have c1: "conn_ok pids (refresh_connection pc c)" using ok by simp
  show ?thesis
    using assms(1) conn_ok_direction [OF c1]
    by (auto simp: feed_connection_def Let_def intro!: conn_ok_set_direction [OF c1] dest!: feed_direction_closed)
qed

lemma connection_entry_ok:
  "all_connections (conn_ok pids) state \<Longrightarrow> pc_pid pc \<in> pids \<Longrightarrow> conn_ok pids (connection_entry ops pc state)"
  by (auto simp: connection_entry_def conn_ok_new dest: all_connections_lookup split: option.split)

lemma stream_room_ok:
  assumes "stream_room ops pc state = Some (es, state')" "all_connections (conn_ok pids) state"
  shows "all_connections (conn_ok pids) state'"
  using assms make_room_ok [of ops "pc_pid pc" "pc_connection pc" state "(es, state')" pids]
  by (auto simp: stream_room_def split: if_splits)

lemma decrypt_packet_ok:
  assumes packet: "decrypt_packet ops pc data_seq payload pl = Some pl'"
    and ok: "pipeline_ok pl" and eligible: "pc_pid pc \<in> eligible_pids (pl_watcher pl)"
  shows "pipeline_ok pl'"
proof -
  let ?E = "eligible_pids (pl_watcher pl)"
  obtain secret handshake_secret w where secrets: "candidate_secrets pc (pl_watcher pl) = (secret, handshake_secret, w)"
    by (metis prod_cases3)
  have w: "eligible_pids w = ?E" using secrets candidate_eligible [of pc "pl_watcher pl"] by simp
  obtain e0 state0 where room: "stream_room ops pc (pl_state pl) = Some (e0, state0)"
    using packet by (auto simp: decrypt_packet_def secrets split: option.splits)
  have state0: "all_connections (conn_ok ?E) state0" using stream_room_ok [OF room] ok by (simp add: pipeline_ok_def)
  have c: "conn_ok ?E (connection_entry ops pc state0)" using connection_entry_ok [OF state0 eligible] .
  show ?thesis
  proof (cases "dc_pid (connection_entry ops pc state0) = pc_pid pc")
    case True
    then obtain reached_end c' limiter es where
      fed: "feed_connection ops pc data_seq payload secret handshake_secret (pl_limiter pl) (connection_entry ops pc state0)
        = Some (reached_end, c', limiter, es)"
      using packet by (auto simp: decrypt_packet_def secrets room Let_def split: option.splits)
    have "all_connections (conn_ok ?E) (AList.update (pc_connection pc) c' state0)"
      using all_connections_update [OF state0 feed_connection_ok [OF fed c]] .
    then show ?thesis
      using packet True enforce_budget_ok
      by (fastforce simp: decrypt_packet_def secrets room fed Let_def pipeline_ok_def w split: option.splits if_splits)
  next
    case False
    then show ?thesis
      using packet all_connections_update [OF state0 c]
      by (auto simp: decrypt_packet_def secrets room Let_def pipeline_ok_def w)
  qed
qed

lemma try_decrypt_ok:
  assumes "try_decrypt_and_emit ops fs instant p cut_short event_now now local_addrs process_map ft pl = Some pl'" "pipeline_ok pl"
  shows "pipeline_ok pl'"
proof -
  have polled: "pipeline_ok (pl\<lparr>pl_watcher := poll_at (to_hex_decode ops) fs instant (pl_watcher pl)\<rparr>)"
    using assms(2) by (simp add: pipeline_ok_def)
  show ?thesis
    using assms polled
    by (auto simp: try_decrypt_and_emit_def Let_def is_eligible_pids elim!: decrypt_packet_ok split: if_splits option.splits)
qed

section \<open>The sweep\<close>

lemma replay_direction_eligible [simp]:
  "eligible_pids (fst (replay_direction ops conn en cn random client outbound pid (w, l))) = eligible_pids w"
  by (simp add: replay_direction_def Let_def split_def)

lemma replay_direction_closed:
  assumes "dir_closed (rl_dir l)"
  shows "dir_closed (rl_dir (snd (replay_direction ops conn en cn random client outbound pid (w, l))))"
proof (cases "dd_terminal (rl_dir l) \<noteq> None \<or> dd_clean_closed (rl_dir l)")
  case True
  then show ?thesis using assms by (simp add: replay_direction_def)
next
  case False
  then have "dd_terminal (rl_dir l) = None" by blast
  then show ?thesis
    by (auto simp: replay_direction_def Let_def split_def intro!: records_closed) (simp_all add: dir_closed_def)
qed

lemma replay_connection_ok:
  assumes "replay_connection ops en cn conn c w limiter = (c', w', limiter', es)" "conn_ok pids c"
  shows "conn_ok pids c'" "eligible_pids w' = eligible_pids w"
  using assms
  by (auto simp: replay_connection_def Let_def split_def conn_ok_def split: option.splits if_splits
      intro!: replay_direction_closed)

lemma replay_connections_ok:
  assumes "replay_connections ops en cn state pl = (state', pl')" "all_connections (conn_ok pids) state"
  shows "all_connections (conn_ok pids) state'" "eligible_pids (pl_watcher pl') = eligible_pids (pl_watcher pl)"
proof -
  have "all_connections (conn_ok pids) state' \<and> eligible_pids (pl_watcher pl') = eligible_pids (pl_watcher pl)"
    using assms
  proof (induction state arbitrary: pl state' pl')
    case (Cons entry state)
    obtain conn c where entry: "entry = (conn, c)" by (cases entry)
    obtain c' w limiter es where now: "replay_connection ops en cn conn c (pl_watcher pl) (pl_limiter pl) = (c', w, limiter, es)"
      by (metis prod_cases4)
    with Cons.prems entry obtain rest where
      "replay_connections ops en cn state (pl\<lparr>pl_watcher := w, pl_limiter := limiter, pl_events := pl_events pl @ es\<rparr>) = (rest, pl')"
      "state' = (conn, c') # rest"
      by (auto split: prod.splits)
    with Cons.IH [OF this(1)] Cons.prems entry replay_connection_ok [OF now, of pids] show ?case by simp
  qed auto
  then show "all_connections (conn_ok pids) state'" "eligible_pids (pl_watcher pl') = eligible_pids (pl_watcher pl)" by blast+
qed

lemma replay_ok: "pipeline_ok pl \<Longrightarrow> pipeline_ok (replay_pending_tls_keys ops en cn pl)"
  by (auto simp: replay_pending_tls_keys_def pipeline_ok_def replay_connections_ok split: prod.split)

lemma expire_pipeline_ok: "pipeline_ok pl \<Longrightarrow> pipeline_ok (expire_pipeline_timers ops now pl)"
  using expire_state_ok [of "eligible_pids (pl_watcher pl)" "pl_state pl" ops now]
  by (simp add: expire_pipeline_timers_def pipeline_ok_def split_def)

lemma tls_sweep_ok:
  assumes "tls_sweep ops fs instant en cn pl = Some pl'" "pipeline_ok pl"
  shows "pipeline_ok pl'"
proof -
  let ?pl1 = "replay_pending_tls_keys ops en cn (pl\<lparr>pl_watcher := poll_at (to_hex_decode ops) fs instant (pl_watcher pl)\<rparr>)"
  have "pipeline_ok ?pl1" using assms(2) by (intro replay_ok) (simp add: pipeline_ok_def)
  then have "pipeline_ok (expire_pipeline_timers ops cn ?pl1)" by (rule expire_pipeline_ok)
  with assms(1) show ?thesis using enforce_budget_ok by (fastforce simp: tls_sweep_def Let_def pipeline_ok_def)
qed


lemma remove_pipeline_ok: "pipeline_ok pl \<Longrightarrow> pipeline_ok (remove_pipeline_connection conn pl)"
  by (auto simp: remove_pipeline_connection_def remove_decrypt_connection_def pipeline_ok_def all_connections_delete
      split: option.split)

lemma register_ok: "pipeline_ok pl \<Longrightarrow> pipeline_ok (register_decrypt_eligible pid path pl)"
  by (auto simp: register_decrypt_eligible_def pipeline_ok_def register_eligible conn_ok_def elim!: all_connections_mono)

lemma unregister_ok: "pipeline_ok pl \<Longrightarrow> pipeline_ok (unregister_decrypt_eligible pid pl)"
  by (auto simp: unregister_decrypt_eligible_def pipeline_ok_def unregister_eligible conn_ok_def all_connections_def)

text \<open>
  What can happen to the pipeline: a packet, the sweep, the end of a flow, and the two control messages.
  A packet or a sweep whose search never ends has no successor.
\<close>

inductive pipeline_step :: "'h tls_ops \<Rightarrow> 'h pipeline \<Rightarrow> 'h pipeline \<Rightarrow> bool" for ops where
  packet: "try_decrypt_and_emit ops fs instant p cut_short event_now now local_addrs process_map ft pl = Some pl'
    \<Longrightarrow> pipeline_step ops pl pl'"
| sweep: "tls_sweep ops fs instant event_now now pl = Some pl' \<Longrightarrow> pipeline_step ops pl pl'"
| flow_end: "pipeline_step ops pl (remove_pipeline_connection conn pl)"
| register: "pipeline_step ops pl (register_decrypt_eligible pid path pl)"
| unregister: "pipeline_step ops pl (unregister_decrypt_eligible pid pl)"

inductive pipeline_reachable :: "'h tls_ops \<Rightarrow> packet_event_limiter \<Rightarrow> 'h pipeline \<Rightarrow> bool" for ops limiter where
  start: "pipeline_reachable ops limiter (pipeline_new limiter)"
| step: "pipeline_reachable ops limiter pl \<Longrightarrow> pipeline_step ops pl pl' \<Longrightarrow> pipeline_reachable ops limiter pl'"

lemma pipeline_step_ok: "pipeline_step ops pl pl' \<Longrightarrow> pipeline_ok pl \<Longrightarrow> pipeline_ok pl'"
  by (induction rule: pipeline_step.induct)
     (blast intro: try_decrypt_ok tls_sweep_ok remove_pipeline_ok register_ok unregister_ok)+

lemma pipeline_reachable_ok: "pipeline_reachable ops limiter pl \<Longrightarrow> pipeline_ok pl"
proof (induction rule: pipeline_reachable.induct)
  case start
  then show ?case by (simp add: pipeline_ok_def pipeline_new_def)
next
  case (step pl pl')
  then show ?case by (blast intro: pipeline_step_ok)
qed

text \<open>
  C9: In every state the pipeline can reach, a direction that was given up, which has a terminal status,
  holds neither a handshake secret nor an application secret nor a record waiting for one, whatever
  packets, sweeps and key logs came after it was given up. (A direction the peer closed with a
  \<open>close_notify\<close> alert has no terminal status and is not meant: its secrets are cleared when the alert
  comes, but a later packet adopts what the key log offers before it looks at the closed mark.)
\<close>

theorem given_up_directions_hold_no_secrets:
  assumes "pipeline_reachable ops limiter pl" "(conn, c) \<in> set (pl_state pl)"
    and "dd_terminal (conn_direction outbound c) \<noteq> None"
  shows "dd_app_secret (conn_direction outbound c) = None \<and> dd_handshake_secret (conn_direction outbound c) = None \<and>
    dd_key_wait_records (conn_direction outbound c) = []"
proof -
  have "conn_ok (eligible_pids (pl_watcher pl)) c"
    using pipeline_reachable_ok [OF assms(1)] assms(2) by (force simp: pipeline_ok_def all_connections_def)
  then have "dir_closed (conn_direction outbound c)" by (rule conn_ok_direction)
  with assms(3) show ?thesis by (simp add: dir_closed_def)
qed

section \<open>No process, nothing decrypted\<close>

lemma no_process_sweep:
  assumes "pl_state pl = []"
  shows "tls_sweep ops fs instant en cn pl =
    Some (pl\<lparr>pl_watcher := poll_at (to_hex_decode ops) fs instant (pl_watcher pl)\<rparr>)"
  using assms
  by (simp add: tls_sweep_def replay_pending_tls_keys_def expire_pipeline_timers_def enforce_tls_buffer_budget_def
      enforce_budget_loop.simps total_held_bytes_def)

lemma no_process_packet:
  assumes "eligible_pids (pl_watcher pl) = {}"
    and "try_decrypt_and_emit ops fs instant p cut_short event_now now local_addrs process_map ft pl = Some pl'"
  shows "pl_events pl' = pl_events pl"
  using assms
  by (auto simp: try_decrypt_and_emit_def Let_def is_eligible_pids split: if_splits option.splits)

text \<open>
  C8: The pipeline keeps state only for connections of processes that are registered at that moment: a
  connection enters with a registered process and leaves with it when its consent is withdrawn. While no
  process is registered nothing is kept, and no step sends anything.
\<close>

theorem decryption_needs_consent:
  assumes "pipeline_reachable ops limiter pl"
  shows "(\<forall>c\<in>snd ` set (pl_state pl). is_eligible (dc_pid c) (pl_watcher pl)) \<and>
    (kw_eligible (pl_watcher pl) = [] \<longrightarrow>
       pl_state pl = [] \<and> (\<forall>pl'. pipeline_step ops pl pl' \<longrightarrow> pl_events pl' = pl_events pl))"
proof -
  have ok: "pipeline_ok pl" using assms by (rule pipeline_reachable_ok)
  then have pids: "is_eligible (dc_pid c) (pl_watcher pl)" if "c \<in> snd ` set (pl_state pl)" for c
    using that by (auto simp: pipeline_ok_def all_connections_def conn_ok_def is_eligible_pids)
  have quiet: "pl_state pl = []" "pipeline_step ops pl pl' \<Longrightarrow> pl_events pl' = pl_events pl"
    if none: "kw_eligible (pl_watcher pl) = []" for pl'
  proof -
    have empty: "eligible_pids (pl_watcher pl) = {}" using none by (simp add: eligible_pids_def)
    have "(conn, c) \<notin> set (pl_state pl)" for conn c using pids [of c] empty by (force simp: is_eligible_pids)
    then show state: "pl_state pl = []" by (cases "pl_state pl") auto
    show "pl_events pl' = pl_events pl" if "pipeline_step ops pl pl'"
      using that no_process_packet [OF empty] no_process_sweep [OF state]
      by (cases rule: pipeline_step.cases)
         (auto simp: remove_pipeline_connection_def register_decrypt_eligible_def unregister_decrypt_eligible_def
            split: prod.split)
  qed
  show ?thesis using pids quiet by blast
qed

end
