(* ===== verification/TlsRoom.thy ===== *)
theory TlsRoom
  imports TlsFailClosed
begin

text \<open>
  The search for a direction to evict: it ends and makes room as long as no direction that has ended was
  given a new stream, and it does not end once such a direction is the oldest one.
\<close>

section \<open>Evicting an active direction\<close>

definition no_revived :: "'h decrypt_connection_state \<Rightarrow> bool" where
  "no_revived c \<longleftrightarrow> (\<forall>outbound. dd_stream (conn_direction outbound c) \<noteq> None \<longrightarrow> dd_terminal (conn_direction outbound c) = None)"

definition active_of :: "'h decrypt_connection_state \<Rightarrow> nat" where
  "active_of c = of_bool (dd_stream (dc_outbound c) \<noteq> None) + of_bool (dd_stream (dc_inbound c) \<noteq> None)"

lemma active_tls_directions_simps [simp]:
  "active_tls_directions scope [] = 0"
  "active_tls_directions scope ((conn, c) # state) =
     (if (case scope of None \<Rightarrow> True | Some p \<Rightarrow> dc_pid c = p) then active_of c else 0) + active_tls_directions scope state"
  by (simp_all add: active_tls_directions_def active_of_def)

lemma active_directions_simps [simp]:
  "active_directions allowed [] = []"
  "active_directions allowed ((conn, c) # state) =
     (if allowed c conn then
        (if dd_stream (dc_outbound c) \<noteq> None then [((conn, True), dd_last_activity_ms (dc_outbound c))] else []) @
        (if dd_stream (dc_inbound c) \<noteq> None then [((conn, False), dd_last_activity_ms (dc_inbound c))] else [])
      else []) @ active_directions allowed state"
  by (simp_all add: active_directions_def)

text \<open>What a search looks at in a connection.\<close>

definition same_activity :: "'h decrypt_connection_state \<Rightarrow> 'h decrypt_connection_state \<Rightarrow> bool" where
  "same_activity c c' \<longleftrightarrow> dc_pid c = dc_pid c' \<and>
     (\<forall>outbound. dd_stream (conn_direction outbound c) = dd_stream (conn_direction outbound c') \<and>
        dd_last_activity_ms (conn_direction outbound c) = dd_last_activity_ms (conn_direction outbound c'))"

lemma same_activity_fields:
  assumes "same_activity c c'"
  shows "dc_pid c = dc_pid c'" "dd_stream (dc_outbound c) = dd_stream (dc_outbound c')"
    "dd_stream (dc_inbound c) = dd_stream (dc_inbound c')"
    "dd_last_activity_ms (dc_outbound c) = dd_last_activity_ms (dc_outbound c')"
    "dd_last_activity_ms (dc_inbound c) = dd_last_activity_ms (dc_inbound c')"
  using assms unfolding same_activity_def conn_direction_def by (metis (full_types))+

lemma same_activity_update:
  assumes "map_of state conn = Some c" "same_activity c c'"
  shows "active_tls_directions scope (AList.update conn c' state) = active_tls_directions scope state"
    and "room_victim scope current_id (AList.update conn c' state) = room_victim scope current_id state"
proof -
  note fields = same_activity_fields [OF assms(2)]
  let ?allowed = "\<lambda>c conn. conn \<noteq> current_id \<and> (case scope of None \<Rightarrow> True | Some p \<Rightarrow> dc_pid c = p)"
  have "active_tls_directions scope (AList.update conn c' state) = active_tls_directions scope state \<and>
    active_directions ?allowed (AList.update conn c' state) = active_directions ?allowed state"
    using assms(1)
  proof (induction state)
    case (Cons entry state)
    then show ?case by (cases entry) (auto simp: fields active_of_def split: if_splits option.splits)
  qed simp
  then show "active_tls_directions scope (AList.update conn c' state) = active_tls_directions scope state"
    and "room_victim scope current_id (AList.update conn c' state) = room_victim scope current_id state"
    by (simp_all add: room_victim_def fields)
qed

section \<open>A direction that has ended is evicted in vain\<close>

lemma mark_ended:
  assumes "map_of state conn = Some c" "dd_terminal (conn_direction outbound c) \<noteq> None"
  obtains c' where "snd (mark_tls_direction_evicted ops conn outbound state) = AList.update conn c' state"
    "same_activity c c'" "dd_terminal (conn_direction outbound c') \<noteq> None"
proof
  let ?d = "snd (terminate_decryption_direction ops conn (direction_name outbound (dc_client_is_outbound c))
    Unavailable EvictedBudget (conn_direction outbound c))"
  let ?c = "(set_direction outbound ?d c)\<lparr>dc_ring := ring_clear (to_zeroize ops) (dc_ring c)\<rparr>"
  have d: "dd_stream ?d = dd_stream (conn_direction outbound c)"
    "dd_last_activity_ms ?d = dd_last_activity_ms (conn_direction outbound c)" "dd_terminal ?d = dd_terminal (conn_direction outbound c)"
    using assms(2) by (auto simp: terminate_decryption_direction_def emit_pending_fields)
  show "snd (mark_tls_direction_evicted ops conn outbound state) = AList.update conn ?c state"
    using assms(1) by (simp add: mark_tls_direction_evicted_def split_def Let_def)
  show "same_activity c ?c" "dd_terminal (conn_direction outbound ?c) \<noteq> None"
    using d assms(2) by (auto simp: same_activity_def conn_direction_def set_direction_def)
qed

lemma make_room_loop_stuck:
  assumes "limit \<le> active_tls_directions scope state" "room_victim scope current_id state = Some (conn, outbound)"
    and "map_of state conn = Some c" "dd_terminal (conn_direction outbound c) \<noteq> None"
  shows "make_room_loop ops scope limit current_id events state = None"
proof (rule ccontr)
  let ?stuck = "\<lambda>scope limit current_id state. limit \<le> active_tls_directions scope state \<and>
    (\<exists>conn outbound c. room_victim scope current_id state = Some (conn, outbound) \<and> map_of state conn = Some c \<and>
       dd_terminal (conn_direction outbound c) \<noteq> None)"
  assume "make_room_loop ops scope limit current_id events state \<noteq> None"
  then obtain out where out: "make_room_loop ops scope limit current_id events state = Some out" by blast
  have "\<not> ?stuck scope limit current_id state"
  proof (rule make_room_loop.raw_induct [where P = "\<lambda>ops scope limit current_id events state out.
      \<not> ?stuck scope limit current_id state", OF _ out], rule notI, goal_cases)
    case (1 loop ops scope limit current_id events state out)
    then obtain conn outbound c where victim: "room_victim scope current_id state = Some (conn, outbound)"
      "map_of state conn = Some c" "dd_terminal (conn_direction outbound c) \<noteq> None" by blast
    obtain c' where marked: "snd (mark_tls_direction_evicted ops conn outbound state) = AList.update conn c' state"
      "same_activity c c'" "dd_terminal (conn_direction outbound c') \<noteq> None"
      using mark_ended [OF victim(2,3)] by metis
    have "?stuck scope limit current_id (AList.update conn c' state)"
      using 1(3) victim marked(3) by (auto simp: same_activity_update [OF victim(2) marked(2)] update_conv' intro!: exI)
    moreover have "\<exists>es. loop ops scope limit current_id es (AList.update conn c' state) = Some out"
      using 1(2,3) victim(1) marked(1) by (auto simp: split_def)
    ultimately show False using 1(1) by blast
  qed
  with assms show False by blast
qed

text \<open>
  C10: (code defect) The slots of a process are full and the oldest active direction has already ended but
  was given a new stream, as \<open>open_stream\<close> does whenever the initial sequence number is known: then a
  packet that opens a new connection of that process is never done, because ending the oldest direction
  again changes nothing and the search picks it forever.
\<close>

theorem room_search_hangs_on_revived_direction:
  assumes "map_of (pl_state pl) (pc_connection pc) = None" "pc_outbound_syn pc \<noteq> None \<or> pc_inbound_syn pc \<noteq> None"
    and "max_tls_directions_per_pid \<le> active_tls_directions (Some (pc_pid pc)) (pl_state pl)"
    and "room_victim (Some (pc_pid pc)) (pc_connection pc) (pl_state pl) = Some (conn, outbound)"
    and "map_of (pl_state pl) conn = Some c" "dd_terminal (conn_direction outbound c) \<noteq> None"
  shows "decrypt_packet ops pc data_seq payload pl = None"
proof -
  have "make_tls_direction_room ops (pc_pid pc) (pc_connection pc) (pl_state pl) = None"
    using make_room_loop_stuck [OF assms(3-6)] by (simp add: make_tls_direction_room_def)
  with assms(1,2) show ?thesis
    by (auto simp: decrypt_packet_def stream_room_def needs_stream_slot_def split: prod.split)
qed


section \<open>Without revived directions the search ends\<close>

lemma mark_active:
  assumes "map_of state conn = Some c" "dd_terminal (conn_direction outbound c) = None"
  obtains c' where "snd (mark_tls_direction_evicted ops conn outbound state) = AList.update conn c' state"
    "dc_pid c' = dc_pid c" "dd_stream (conn_direction outbound c') = None"
    "conn_direction (\<not> outbound) c' = conn_direction (\<not> outbound) c"
proof
  let ?d = "snd (terminate_decryption_direction ops conn (direction_name outbound (dc_client_is_outbound c))
    Unavailable EvictedBudget (conn_direction outbound c))"
  let ?c = "(set_direction outbound ?d c)\<lparr>dc_ring := ring_clear (to_zeroize ops) (dc_ring c)\<rparr>"
  have d: "dd_stream ?d = None"
    using assms(2) by (auto simp: terminate_decryption_direction_def emit_pending_fields)
  show "snd (mark_tls_direction_evicted ops conn outbound state) = AList.update conn ?c state"
    using assms(1) by (simp add: mark_tls_direction_evicted_def split_def Let_def)
  show "dc_pid ?c = dc_pid c" "dd_stream (conn_direction outbound ?c) = None"
    "conn_direction (\<not> outbound) ?c = conn_direction (\<not> outbound) c"
    using d by (auto simp: conn_direction_def set_direction_def)
qed

lemma active_update:
  assumes "map_of state conn = Some c" "dc_pid c' = dc_pid c" "case scope of None \<Rightarrow> True | Some p \<Rightarrow> dc_pid c = p"
  shows "active_tls_directions scope (AList.update conn c' state) + active_of c = active_tls_directions scope state + active_of c'"
  using assms by (induction state) (auto split: if_splits option.splits)

lemma active_directions_member:
  "((conn, outbound), n) \<in> set (active_directions allowed state) \<longleftrightarrow>
     (\<exists>c. (conn, c) \<in> set state \<and> allowed c conn \<and> dd_stream (conn_direction outbound c) \<noteq> None \<and>
        n = dd_last_activity_ms (conn_direction outbound c))"
  by (induction state) (auto simp: conn_direction_def split: if_splits)

lemma room_victim_Some:
  assumes "room_victim scope current_id state = Some (conn, outbound)" "distinct (map fst state)"
  obtains c where "map_of state conn = Some c" "conn \<noteq> current_id" "case scope of None \<Rightarrow> True | Some p \<Rightarrow> dc_pid c = p"
    "dd_stream (conn_direction outbound c) \<noteq> None"
proof -
  let ?allowed = "\<lambda>c conn. conn \<noteq> current_id \<and> (case scope of None \<Rightarrow> True | Some p \<Rightarrow> dc_pid c = p)"
  obtain n where "min_by_key snd (active_directions ?allowed state) = Some ((conn, outbound), n)"
    using assms(1) by (auto simp: room_victim_def)
  from min_by_key_Some(1) [OF this] assms(2) that show ?thesis
    by (auto simp: active_directions_member)
qed

lemma room_victim_None:
  assumes "room_victim scope current_id state = None" "distinct (map fst state)"
  shows "active_tls_directions scope state \<le> 2"
  using assms unfolding room_victim_def
proof (induction state)
  case (Cons entry state)
  obtain conn c where entry: "entry = (conn, c)" by (cases entry)
  have two: "active_of c \<le> 2" by (simp add: active_of_def)
  show ?case
  proof (cases "conn = current_id")
    case True
    then have "current_id \<notin> fst ` set state" using Cons.prems entry by simp
    then have "active_tls_directions scope state = 0"
      using Cons.prems(1) entry
      by (induction state) (auto simp: active_of_def split: if_splits option.splits)
    then show ?thesis using two entry by simp
  next
    case False
    then show ?thesis using Cons entry by (auto simp: active_of_def split: if_splits option.splits)
  qed
qed simp

lemma make_room_loop_returns:
  assumes "distinct (map fst state)" "all_connections no_revived state" "2 < limit"
  shows "\<exists>es state'. make_room_loop ops scope limit current_id events state = Some (es, state') \<and>
    active_tls_directions scope state' < limit \<and> distinct (map fst state') \<and> all_connections no_revived state' \<and>
    (\<forall>scope'. active_tls_directions scope' state' \<le> active_tls_directions scope' state)"
  using assms
proof (induction "active_tls_directions scope state" arbitrary: events state rule: less_induct)
  case less
  show ?case
  proof (cases "limit \<le> active_tls_directions scope state")
    case True
    with less.prems(1,3) obtain conn outbound where victim: "room_victim scope current_id state = Some (conn, outbound)"
      using room_victim_None [of scope current_id state] by fastforce
    obtain c where c: "map_of state conn = Some c" "case scope of None \<Rightarrow> True | Some p \<Rightarrow> dc_pid c = p"
      "dd_stream (conn_direction outbound c) \<noteq> None"
      by (rule room_victim_Some [OF victim less.prems(1)])
    have "no_revived c" using all_connections_lookup [OF less.prems(2) c(1)] .
    then have "dd_terminal (conn_direction outbound c) = None" using c(3) by (auto simp: no_revived_def)
    from mark_active [OF c(1) this, of ops] obtain c' where
      c': "snd (mark_tls_direction_evicted ops conn outbound state) = AList.update conn c' state" "dc_pid c' = dc_pid c"
        "dd_stream (conn_direction outbound c') = None" "conn_direction (\<not> outbound) c' = conn_direction (\<not> outbound) c" .
    let ?state = "AList.update conn c' state"
    have fewer: "active_of c = active_of c' + 1"
      using c(3) c'(3,4) by (auto simp: active_of_def conn_direction_def split: if_splits)
    have less_active: "active_tls_directions scope ?state < active_tls_directions scope state"
      using active_update [OF c(1) c'(2) c(2)] fewer by simp
    have le_active: "active_tls_directions scope' ?state \<le> active_tls_directions scope' state" for scope'
      using c(1) c'(2) fewer by (induction state) (auto split: if_splits option.splits)
    have "no_revived c'" using \<open>no_revived c\<close> c'(3,4) by (cases outbound) (auto simp: no_revived_def all_bool_eq)
    then have revived: "all_connections no_revived ?state" using less.prems(2) by (simp add: all_connections_update)
    have keys: "distinct (map fst ?state)" using less.prems(1) by (rule distinct_update)
    have "make_room_loop ops scope limit current_id events state =
      make_room_loop ops scope limit current_id (events @ fst (mark_tls_direction_evicted ops conn outbound state)) ?state"
      using True victim c'(1) by (subst make_room_loop.simps) (auto simp: split_def)
    moreover obtain es state' where
      "make_room_loop ops scope limit current_id (events @ fst (mark_tls_direction_evicted ops conn outbound state)) ?state = Some (es, state')"
      "active_tls_directions scope state' < limit" "distinct (map fst state')" "all_connections no_revived state'"
      "\<forall>scope'. active_tls_directions scope' state' \<le> active_tls_directions scope' ?state"
      using less.hyps [OF less_active keys revived less.prems(3)] by blast
    ultimately show ?thesis
      using le_active by (auto intro: order_trans)
  next
    case False
    then show ?thesis using less.prems by (subst make_room_loop.simps) auto
  qed
qed

text \<open>
  C11: As long as no direction that has ended holds a stream, making room ends, whatever the other
  connections hold, and leaves fewer active directions than the limit of the process and than the limit
  of the agent.
\<close>

theorem room_is_made:
  assumes "distinct (map fst state)"
    and "\<forall>c\<in>snd ` set state. \<forall>outbound. dd_stream (conn_direction outbound c) \<noteq> None \<longrightarrow>
           dd_terminal (conn_direction outbound c) = None"
  shows "\<exists>es state'. make_tls_direction_room ops pid current_id state = Some (es, state') \<and>
    active_tls_directions (Some pid) state' < max_tls_directions_per_pid \<and>
    active_tls_directions None state' < max_tls_active_directions"
proof -
  have "all_connections no_revived state" using assms(2) by (simp add: all_connections_def no_revived_def)
  from make_room_loop_returns [OF assms(1) this, of max_tls_directions_per_pid ops "Some pid" current_id "[]"]
  obtain es1 state1 where one: "make_room_loop ops (Some pid) max_tls_directions_per_pid current_id [] state = Some (es1, state1)"
    "active_tls_directions (Some pid) state1 < max_tls_directions_per_pid" "distinct (map fst state1)"
    "all_connections no_revived state1"
    by (auto simp: max_tls_directions_per_pid_def)
  from make_room_loop_returns [OF one(3,4), of max_tls_active_directions ops None current_id es1]
  obtain es2 state2 where two: "make_room_loop ops None max_tls_active_directions current_id es1 state1 = Some (es2, state2)"
    "active_tls_directions None state2 < max_tls_active_directions"
    "active_tls_directions (Some pid) state2 \<le> active_tls_directions (Some pid) state1"
    by (auto simp: max_tls_active_directions_def)
  have "make_tls_direction_room ops pid current_id state = Some (es2, state2)"
    using one(1) two(1) by (simp add: make_tls_direction_room_def)
  with one(2) two(2,3) show ?thesis by fastforce
qed


section \<open>A run into the defect\<close>

text \<open>
  A process opens connections whose packets are cut short by the capture: both directions of each end,
  and each gets a new stream with the next packet.
\<close>

definition demo_ops :: "unit tls_ops" where
  "demo_ops = \<lparr>to_crypto = demo_crypto, to_hpack = \<lparr>hpack_new = (), hpack_decode = (\<lambda>_ h. (None, h)), hpack_held = (\<lambda>_. 0)\<rparr>,
     to_zeroize = (\<lambda>v. v), to_mlock_probe = False, to_hex_decode = (\<lambda>_. None)\<rparr>"

definition demo_tls_packet :: "nat \<Rightarrow> bool \<Rightarrow> parsed_packet" where
  "demo_tls_packet port outbound =
     \<lparr>pp_src_mac = [], pp_dst_mac = [], pp_src_ip = (if outbound then lit ''l'' else lit ''r''),
      pp_dst_ip = (if outbound then lit ''r'' else lit ''l''), pp_protocol = Tcp,
      pp_src_port = Some (if outbound then port else 443), pp_dst_port = Some (if outbound then 443 else port),
      pp_tcp_flags = None, pp_seq = Some 1, pp_ttl = 64, pp_total_len = 60, pp_payload = [], pp_header_bytes = [],
      pp_ip_header_len = 20, pp_transport_header_len = 20, pp_ip_version = 4, pp_ip_checksum = None, pp_vlan_tag = None,
      pp_ip_declared_payload_len = 40, pp_ip_fragment = None\<rparr>"

definition demo_key :: "nat \<Rightarrow> flow_key" where
  "demo_key port = \<lparr>flk_protocol = Tcp, flk_local_addr = lit ''l'', flk_local_port = port, flk_remote_addr = lit ''r'', flk_remote_port = 443\<rparr>"

definition demo_table :: "nat \<Rightarrow> flow_table" where
  "demo_table port = (flow_table_new_with_capacity [lit ''l''] 1)\<lparr>ft_flows :=
     [(demo_key port, flow_state_default\<lparr>fs_syn_sequences := (\<lambda>_. Some 0)\<rparr>)]\<rparr>"

definition demo_feed :: "nat \<Rightarrow> bool \<Rightarrow> unit pipeline \<Rightarrow> unit pipeline option" where
  "demo_feed port outbound =
     try_decrypt_and_emit demo_ops (\<lambda>_. CannotOpen) 0 (demo_tls_packet port outbound) True 5 5 [lit ''l''] (\<lambda>_. Some 7)
       (demo_table port)"

definition demo_context :: "nat \<Rightarrow> bool \<Rightarrow> packet_context" where
  "demo_context port outbound =
     \<lparr>pc_connection = connection_id (demo_key port), pc_pid = 7, pc_outbound = outbound, pc_client_random = None,
      pc_client_is_outbound = None, pc_outbound_syn = Some 0, pc_inbound_syn = Some 0, pc_capture_truncated = True,
      pc_event_now_ms = 5, pc_capture_now_ms = 5\<rparr>"

definition demo_log :: keylog_watcher where
  "demo_log = register_eligible_pid 7 [] keylog_watcher_new"

lemma demo_log_polled: "poll_at hex_decode (\<lambda>_. CannotOpen) 0 (demo_log\<lparr>kw_last_polled_pid := n\<rparr>) = demo_log\<lparr>kw_last_polled_pid := 7\<rparr>"
  by (simp add: demo_log_def register_eligible_pid_def keylog_watcher_new_def poll_at_def poll_order_def
      max_keylog_read_bytes_per_poll_def enforce_caps_def drop_expired_def cap_sessions.simps cap_bytes.simps
      pid_sessions_def secret_bytes_def)

lemma demo_feed_eq:
  assumes "pl_watcher pl = demo_log\<lparr>kw_last_polled_pid := n\<rparr>"
  shows "demo_feed port outbound pl =
    decrypt_packet demo_ops (demo_context port outbound) 1 [] (pl\<lparr>pl_watcher := demo_log\<lparr>kw_last_polled_pid := 7\<rparr>\<rparr>)"
proof -
  have "is_eligible 7 (demo_log\<lparr>kw_last_polled_pid := m\<rparr>)" for m
    by (simp add: is_eligible_def demo_log_def register_eligible_pid_def keylog_watcher_new_def)
  then show ?thesis
    using assms
    by (simp add: demo_feed_def try_decrypt_and_emit_def demo_tls_packet_def local_port_of_def build_flow_key_def demo_table_def
        demo_key_def client_random_for_def client_is_outbound_for_def tcp_syn_sequence_for_def flow_state_default_def
        demo_log_polled demo_context_def first_data_sequence_def lit_def)
qed


text \<open>What a packet that was cut short leaves of a connection.\<close>

definition demo_cut :: "bool \<Rightarrow> unit decrypt_connection_state \<Rightarrow> unit decrypt_connection_state" where
  "demo_cut outbound c =
     (let c1 = refresh_connection (demo_context 0 outbound) c
      in set_direction outbound (snd (terminate_decryption_direction demo_ops [] None Desynchronized CaptureTruncated
           ((conn_direction outbound c1)\<lparr>dd_last_activity_ms := 5\<rparr>))) c1)"

lemma emit_pending_unnamed [simp]: "emit_pending_decryption_status conn None d = ([], d)"
  by (simp add: emit_pending_decryption_status_def)

lemma demo_feed_connection:
  assumes "dc_client_is_outbound c = None"
  shows "feed_connection demo_ops (demo_context port outbound) 1 [] None None limiter c = Some (False, demo_cut outbound c, limiter, [])"
  using assms
  by (simp add: feed_connection_def feed_direction_def demo_context_def refresh_connection_def direction_name_def
      mark_tls_capture_truncated_def terminate_decryption_direction_def demo_cut_def Let_def set_direction_def conn_direction_def)

lemma demo_feed_room:
  assumes "active_tls_directions (Some 7) state < 64" "active_tls_directions None state < 1024"
  shows "stream_room ops (demo_context port outbound) state = Some ([], state)"
  using assms
  by (simp add: stream_room_def make_tls_direction_room_def make_room_loop.simps demo_context_def
      max_tls_directions_per_pid_def max_tls_active_directions_def)

lemma demo_feed_step:
  assumes "pl_watcher pl = demo_log\<lparr>kw_last_polled_pid := n\<rparr>"
    and "active_tls_directions (Some 7) (pl_state pl) < 64" "active_tls_directions None (pl_state pl) < 1024"
    and "c = connection_entry demo_ops (demo_context port outbound) (pl_state pl)" "dc_client_is_outbound c = None" "dc_pid c = 7"
  shows "demo_feed port outbound pl = Some (pl\<lparr>pl_watcher := demo_log\<lparr>kw_last_polled_pid := 7\<rparr>,
    pl_state := AList.update (connection_id (demo_key port)) (demo_cut outbound c) (pl_state pl)\<rparr>)"
proof -
  let ?pc = "demo_context port outbound"
  have pc: "candidate_secrets ?pc w = (None, None, w)" "pc_pid ?pc = 7" "pc_connection ?pc = connection_id (demo_key port)" for w
    by (simp_all add: candidate_secrets_def demo_context_def)
  show ?thesis
    using demo_feed_room [OF assms(2,3), of demo_ops port outbound] demo_feed_connection [OF assms(5)]
    by (simp add: demo_feed_eq [OF assms(1)] decrypt_packet_def pc assms(4) [symmetric] assms(6))
qed

definition spent_direction :: "unit decrypt_direction_state" where
  "spent_direction = (direction_state_new demo_ops)\<lparr>dd_stream := Some (tls_direction_stream_new 1),
     dd_last_activity_ms := 5, dd_terminal := Some (Desynchronized, CaptureTruncated)\<rparr>"

definition spent_connection :: "unit decrypt_connection_state" where
  "spent_connection = (connection_state_new demo_ops 7)\<lparr>dc_outbound := spent_direction, dc_inbound := spent_direction\<rparr>"

lemma demo_cut_thrice: "demo_cut True (demo_cut False (demo_cut True (connection_state_new demo_ops 7))) = spent_connection"
  by (simp add: demo_cut_def refresh_connection_def demo_context_def open_stream_def direction_state_new_def connection_state_new_def
      conn_direction_def set_direction_def terminate_decryption_direction_def spent_connection_def spent_direction_def
      first_data_sequence_def)

lemma demo_cut_fields:
  "dc_pid (demo_cut outbound c) = dc_pid c" "dc_client_is_outbound (demo_cut outbound c) = dc_client_is_outbound c"
  "active_of (demo_cut True (connection_state_new demo_ops 7)) = 1"
  "active_of (demo_cut False (demo_cut True (connection_state_new demo_ops 7))) = 1"
  by (simp_all add: demo_cut_def refresh_connection_def demo_context_def open_stream_def direction_state_new_def connection_state_new_def
      conn_direction_def set_direction_def terminate_decryption_direction_def active_of_def Let_def)


lemma new_connection_fields: "dc_pid (connection_state_new ops pid) = pid" "dc_client_is_outbound (connection_state_new ops pid) = None"
  by (simp_all add: connection_state_new_def)

lemma active_append: "active_tls_directions scope (state @ rest) = active_tls_directions scope state + active_tls_directions scope rest"
  by (simp add: active_tls_directions_def)

lemma update_last: "conn \<notin> fst ` set state \<Longrightarrow> AList.update conn c (state @ [(conn, c')]) = state @ [(conn, c)]"
  by (induction state) auto

lemma alist_update_new: "conn \<notin> fst ` set state \<Longrightarrow> AList.update conn c state = state @ [(conn, c)]"
  by (induction state) auto

lemma demo_feed_reachable:
  "pipeline_reachable demo_ops limiter pl \<Longrightarrow> demo_feed port outbound pl = Some pl' \<Longrightarrow> pipeline_reachable demo_ops limiter pl'"
  unfolding demo_feed_def by (erule pipeline_reachable.step) (rule pipeline_step.packet)

text \<open>Three packets of a new connection leave both of its directions ended and with a stream.\<close>

lemma demo_connection_spent:
  assumes reach: "pipeline_reachable demo_ops limiter pl" and watcher: "pl_watcher pl = demo_log\<lparr>kw_last_polled_pid := n\<rparr>"
    and room: "active_tls_directions (Some 7) (pl_state pl) \<le> 62" "active_tls_directions None (pl_state pl) \<le> 62"
    and new: "connection_id (demo_key port) \<notin> fst ` set (pl_state pl)"
  shows "pipeline_reachable demo_ops limiter
    (pl\<lparr>pl_watcher := demo_log\<lparr>kw_last_polled_pid := 7\<rparr>, pl_state := pl_state pl @ [(connection_id (demo_key port), spent_connection)]\<rparr>)"
proof -
  let ?id = "connection_id (demo_key port)"
  let ?with = "\<lambda>c. pl\<lparr>pl_watcher := demo_log\<lparr>kw_last_polled_pid := 7\<rparr>, pl_state := pl_state pl @ [(?id, c)]\<rparr>"
  let ?c0 = "connection_state_new demo_ops 7"
  have id: "pc_connection (demo_context port b) = ?id" "pc_pid (demo_context port b) = 7" for b by (simp_all add: demo_context_def)
  have absent: "map_of (pl_state pl) ?id = None" using new by (simp add: map_of_eq_None_iff)
  have one: "demo_feed port True pl = Some (?with (demo_cut True ?c0))"
    using demo_feed_step [OF watcher, of ?c0 port True] room
    by (simp add: connection_entry_def id absent new_connection_fields alist_update_new [OF new])
  have later: "demo_feed port b (?with c) = Some (?with (demo_cut b c))"
    if "active_of c \<le> 1" "dc_pid c = 7" "dc_client_is_outbound c = None" for b c
    using demo_feed_step [of "?with c" 7 c port b] room that
    by (simp add: connection_entry_def id absent map_add_def active_append update_last [OF new])
  have two: "demo_feed port False (?with (demo_cut True ?c0)) = Some (?with (demo_cut False (demo_cut True ?c0)))"
    by (rule later) (simp_all add: demo_cut_fields new_connection_fields)
  have three: "demo_feed port True (?with (demo_cut False (demo_cut True ?c0))) = Some (?with spent_connection)"
    unfolding demo_cut_thrice [symmetric] by (rule later) (simp_all add: demo_cut_fields new_connection_fields)
  from reach one have "pipeline_reachable demo_ops limiter (?with (demo_cut True ?c0))" by (rule demo_feed_reachable)
  from this two have "pipeline_reachable demo_ops limiter (?with (demo_cut False (demo_cut True ?c0)))" by (rule demo_feed_reachable)
  from this three show ?thesis by (rule demo_feed_reachable)
qed

definition demo_connections :: "nat \<Rightarrow> unit decrypt_state" where
  "demo_connections n = map (\<lambda>port. (connection_id (demo_key port), spent_connection)) [0..<n]"

definition demo_pipeline :: "nat \<Rightarrow> unit pipeline" where
  "demo_pipeline n = \<lparr>pl_watcher = demo_log\<lparr>kw_last_polled_pid := if n = 0 then 0 else 7\<rparr>, pl_state = demo_connections n,
     pl_limiter = limiter_new 1 1, pl_events = []\<rparr>"

lemma demo_id_eq: "connection_id (demo_key m) = connection_id (demo_key n) \<longleftrightarrow> m = n"
proof -
  have "dashless (demo_key k)" for k by (simp add: demo_key_def dashless_def lit_def)
  then show ?thesis by (simp add: connection_id_unique) (simp add: demo_key_def)
qed

lemma spent_fields:
  "active_of spent_connection = 2" "dc_pid spent_connection = 7" "dd_stream spent_direction \<noteq> None"
  "dc_outbound spent_connection = spent_direction" "dc_inbound spent_connection = spent_direction"
  "dd_last_activity_ms spent_direction = 5" "dd_terminal spent_direction = Some (Desynchronized, CaptureTruncated)"
  by (simp_all add: spent_connection_def spent_direction_def active_of_def connection_state_new_def direction_state_new_def)

lemma demo_connections_Suc: "demo_connections (Suc n) = demo_connections n @ [(connection_id (demo_key n), spent_connection)]"
  by (simp add: demo_connections_def)

lemma demo_connections_active:
  "active_tls_directions (Some 7) (demo_connections n) = 2 * n" "active_tls_directions None (demo_connections n) = 2 * n"
  by (induction n) (simp_all add: demo_connections_Suc active_append spent_fields, simp_all add: demo_connections_def)

lemma demo_connections_new: "connection_id (demo_key n) \<notin> fst ` set (demo_connections n)"
  by (auto simp: demo_connections_def demo_id_eq)

lemma demo_pipeline_reachable: "n \<le> 32 \<Longrightarrow> pipeline_reachable demo_ops (limiter_new 1 1) (demo_pipeline n)"
proof (induction n)
  case 0
  have "demo_pipeline 0 = register_decrypt_eligible 7 [] (pipeline_new (limiter_new 1 1))"
    by (simp add: demo_pipeline_def register_decrypt_eligible_def pipeline_new_def demo_log_def demo_connections_def
        register_eligible_pid_def keylog_watcher_new_def)
  then show ?case
    using pipeline_reachable.step [OF pipeline_reachable.start pipeline_step.register] by metis
next
  case (Suc n)
  then have "pipeline_reachable demo_ops (limiter_new 1 1) (demo_pipeline n)" by simp
  from demo_connection_spent [OF this, of "if n = 0 then 0 else 7" n] Suc.prems show ?case
    by (simp add: demo_pipeline_def demo_connections_active demo_connections_Suc demo_connections_new)
qed

lemma min_by_key_same: "xs \<noteq> [] \<Longrightarrow> \<forall>x\<in>set xs. f x = k \<Longrightarrow> min_by_key f xs = Some (hd xs)"
  by (induction xs) (auto split: option.split dest: min_by_key_Some(1))

lemma demo_victim:
  assumes "0 < n"
  shows "room_victim (Some 7) (connection_id (demo_key n)) (demo_connections n) = Some (connection_id (demo_key 0), True)"
proof -
  let ?allowed = "\<lambda>c conn. conn \<noteq> connection_id (demo_key n) \<and> (case Some 7 of None \<Rightarrow> True | Some p \<Rightarrow> dc_pid c = p)"
  obtain rest where rest: "demo_connections n = (connection_id (demo_key 0), spent_connection) # rest"
    using assms by (simp add: demo_connections_def upt_conv_Cons)
  then have first: "\<exists>xs. active_directions ?allowed (demo_connections n) = ((connection_id (demo_key 0), True), 5) # xs"
    using assms by (auto simp: spent_fields demo_id_eq)
  have "snd x = 5" if "x \<in> set (active_directions ?allowed (demo_connections n))" for x
  proof -
    obtain conn outbound k where x: "x = ((conn, outbound), k)" by (metis prod.collapse)
    show ?thesis
      using that unfolding x active_directions_member by (auto simp: demo_connections_def conn_direction_def spent_fields)
  qed
  then have "min_by_key snd (active_directions ?allowed (demo_connections n)) = Some (hd (active_directions ?allowed (demo_connections n)))"
    using first by (intro min_by_key_same) auto
  then show ?thesis using first by (auto simp: room_victim_def)
qed

theorem room_search_hangs_on_revived_direction_witness:
  "\<exists>pl. pipeline_reachable demo_ops (limiter_new 1 1) pl \<and> decrypt_packet demo_ops (demo_context 32 True) 1 [] pl = None"
proof (intro exI conjI)
  show "pipeline_reachable demo_ops (limiter_new 1 1) (demo_pipeline 32)" by (rule demo_pipeline_reachable) simp
  have state: "pl_state (demo_pipeline 32) = demo_connections 32" by (simp add: demo_pipeline_def)
  have "map_of (demo_connections 32) (connection_id (demo_key 0)) = Some spent_connection"
    by (simp add: demo_connections_def upt_conv_Cons)
  then show "decrypt_packet demo_ops (demo_context 32 True) 1 [] (demo_pipeline 32) = None"
    using room_search_hangs_on_revived_direction [of "demo_pipeline 32" "demo_context 32 True" "connection_id (demo_key 0)" True spent_connection]
      demo_victim [of 32] demo_connections_new [of 32]
    by (simp add: state demo_context_def map_of_eq_None_iff demo_connections_active max_tls_directions_per_pid_def
        conn_direction_def spent_fields)
qed

theorem room_is_made_witness:
  "\<exists>es state'. make_tls_direction_room demo_ops 7 [] [([1], connection_state_new demo_ops 7)] = Some (es, state') \<and>
    active_tls_directions (Some 7) state' < max_tls_directions_per_pid \<and>
    active_tls_directions None state' < max_tls_active_directions"
  by (rule room_is_made) (simp_all add: connection_state_new_def direction_state_new_def conn_direction_def)

theorem given_up_directions_hold_no_secrets_witness:
  "pipeline_reachable demo_ops (limiter_new 1 1) (demo_pipeline 1) \<and>
   (connection_id (demo_key 0), spent_connection) \<in> set (pl_state (demo_pipeline 1)) \<and>
   dd_terminal (conn_direction True spent_connection) = Some (Desynchronized, CaptureTruncated) \<and>
   dd_app_secret (conn_direction True spent_connection) = None \<and> dd_handshake_secret (conn_direction True spent_connection) = None \<and>
   dd_key_wait_records (conn_direction True spent_connection) = []"
proof -
  have reach: "pipeline_reachable demo_ops (limiter_new 1 1) (demo_pipeline 1)" by (rule demo_pipeline_reachable) simp
  moreover have held: "(connection_id (demo_key 0), spent_connection) \<in> set (pl_state (demo_pipeline 1))"
    by (simp add: demo_pipeline_def demo_connections_def)
  moreover have up: "dd_terminal (conn_direction True spent_connection) = Some (Desynchronized, CaptureTruncated)"
    by (simp add: conn_direction_def spent_fields)
  ultimately show ?thesis using given_up_directions_hold_no_secrets [OF reach held, of True] by simp
qed

theorem decryption_needs_consent_witness:
  "pl_state (demo_pipeline 1) \<noteq> [] \<and> list_all (\<lambda>c. is_eligible (dc_pid c) (pl_watcher (demo_pipeline 1))) (map snd (pl_state (demo_pipeline 1)))"
  using decryption_needs_consent [OF demo_pipeline_reachable [of 1]]
  by (simp add: list_all_iff) (simp add: demo_pipeline_def demo_connections_def)

end
