(* ===== verification/TlsShown.thy ===== *)
theory TlsShown
  imports TlsRoom
begin

text \<open>
  From sealed records to what the user sees: the application records of a direction, decrypted one after
  the other, put the contents of the HTTP/2 frames they carry into the ring, which keeps the newest that fit,
  and offer them to the rate limiter in front of the event stream.
\<close>

section \<open>One application record\<close>

lemma show_outcome_set_dir: "show_outcome ops rc dir oc (l\<lparr>rl_dir := d\<rparr>) = (show_outcome ops rc dir oc l)\<lparr>rl_dir := d\<rparr>"
  by (cases oc) (simp_all add: show_content_def emit_decrypted_def Let_def split_def)

lemma fold_show_set_dir:
  "fold (show_outcome ops rc dir) outcomes (l\<lparr>rl_dir := d\<rparr>) = (fold (show_outcome ops rc dir) outcomes l)\<lparr>rl_dir := d\<rparr>"
  by (induction outcomes arbitrary: l) (simp_all add: show_outcome_set_dir)

lemma fold_show_frames: "fold (show_outcome ops rc dir) outcomes l = fold (show_outcome ops rc dir) (frames_of outcomes) l"
proof (induction outcomes arbitrary: l)
  case (Cons oc outcomes)
  then show ?case by (cases oc) (simp_all add: frames_of_def)
qed (simp add: frames_of_def)

lemma show_outcome_keeps [simp]:
  "rl_suite (show_outcome ops rc dir oc l) = rl_suite l" "rl_deferred (show_outcome ops rc dir oc l) = rl_deferred l"
  by (cases oc, simp_all add: show_content_def emit_decrypted_def Let_def split_def)+

lemma fold_show_keeps [simp]:
  "rl_suite (fold (show_outcome ops rc dir) outcomes l) = rl_suite l"
  "rl_deferred (fold (show_outcome ops rc dir) outcomes l) = rl_deferred l"
  by (induction outcomes arbitrary: l) simp_all

text \<open>The direction after a record of application data with this content.\<close>

definition after_data :: "'h tls_ops \<Rightarrow> byte list \<Rightarrow> 'h decrypt_direction_state \<Rightarrow> 'h decrypt_direction_state" where
  "after_data ops content d = snd (feed_plaintext_to_http2 ops content ((advance_sequence False d)\<lparr>dd_key_wait_since_ms := None\<rparr>))"

lemma after_data_fields:
  "dd_app_sequence (after_data ops content d) = sat_add (dd_app_sequence d) 1"
  "dd_plaintext_sequence (after_data ops content d) = sat_add (dd_plaintext_sequence d) (length content)"
  "dd_http2 (after_data ops content d) = snd (http2_feed (to_hpack ops) (dd_plaintext_sequence d) content (dd_http2 d))"
  "dd_app_secret (after_data ops content d) = dd_app_secret d"
  "dd_handshake_epoch_complete (after_data ops content d) = dd_handshake_epoch_complete d"
  "dd_terminal (after_data ops content d) = dd_terminal d"
  by (simp_all add: after_data_def feed_plaintext_to_http2_def advance_sequence_def Let_def split_def)

lemma data_record_shown:
  assumes "dd_handshake_epoch_complete (rl_dir l)" "dd_app_secret (rl_dir l) = Some secret" "rl_suite l = Some 0x1301"
    and "rc_direction rc = Some dir"
    and rec: "decrypt_record (to_crypto ops) rec secret (dd_app_sequence (rl_dir l)) = Plaintext 23 content"
  shows "process_tls_record ops rc (vec_of rec) l =
    (True, (fold (show_outcome ops rc dir)
       (fst (http2_feed (to_hpack ops) (dd_plaintext_sequence (rl_dir l)) content (dd_http2 (rl_dir l)))) l)
       \<lparr>rl_dir := after_data ops content (rl_dir l)\<rparr>)"
proof -
  have "5 \<le> length rec" "rec \<noteq> []" "hd rec = 0x17"
    using rec by (cases rec; auto simp: decrypt_record_def split: if_splits)+
  moreover have "fst (feed_plaintext_to_http2 ops content ((advance_sequence False (rl_dir l))\<lparr>dd_key_wait_since_ms := None\<rparr>)) =
    fst (http2_feed (to_hpack ops) (dd_plaintext_sequence (rl_dir l)) content (dd_http2 (rl_dir l)))"
    by (simp add: feed_plaintext_to_http2_def advance_sequence_def Let_def split_def)
  ultimately show ?thesis
    using assms
    by (simp add: process_tls_record_def vec_of_def process_application_record_def process_plaintext_def Let_def split_def
        after_data_def fold_show_set_dir)
qed

section \<open>A stream of records\<close>

text \<open>Application data sealed under consecutive sequence numbers, each record with its own padding.\<close>

fun sealed_stream ::
  "crypto \<Rightarrow> (byte list \<Rightarrow> byte list \<Rightarrow> byte list \<Rightarrow> byte list \<Rightarrow> byte list) \<Rightarrow> byte list \<Rightarrow> byte list \<Rightarrow> nat
    \<Rightarrow> (byte list \<times> nat) list \<Rightarrow> byte rvec list" where
  "sealed_stream cr seal key iv sequence [] = []"
| "sealed_stream cr seal key iv sequence ((content, padding) # items) =
     vec_of (seal_record cr seal key iv sequence 23 content padding) # sealed_stream cr seal key iv (sequence + 1) items"

lemma sealed_stream_run:
  assumes crypto: "aead_opens_sealed (to_crypto ops) seal" "derive_key_and_iv (to_crypto ops) (ss_secret secret) = Some (key, iv)"
      "aead_key_ok (to_crypto ops) key"
    and "dd_handshake_epoch_complete (rl_dir l)" "dd_app_secret (rl_dir l) = Some secret" "rl_suite l = Some 0x1301"
    and dir: "rc_direction rc = Some dir"
    and "dd_app_sequence (rl_dir l) + length items \<le> usize_max"
    and "dd_plaintext_sequence (rl_dir l) + length (concat (map fst items)) \<le> usize_max"
  shows "\<exists>d'. process_records_loop ops rc (sealed_stream (to_crypto ops) seal key iv (dd_app_sequence (rl_dir l)) items) l =
      (fold (show_outcome ops rc dir)
        (fst (http2_run (to_hpack ops) (dd_plaintext_sequence (rl_dir l)) (map fst items) (dd_http2 (rl_dir l)))) l)\<lparr>rl_dir := d'\<rparr> \<and>
    dd_app_sequence d' = dd_app_sequence (rl_dir l) + length items \<and> dd_terminal d' = dd_terminal (rl_dir l)"
  using assms(4-6,8-)
proof (induction items arbitrary: l)
  case Nil
  show ?case by (rule exI [of _ "rl_dir l"]) simp
next
  case (Cons item items)
  obtain content padding where item: "item = (content, padding)" by (cases item)
  let ?d = "rl_dir l"
  let ?fed = "http2_feed (to_hpack ops) (dd_plaintext_sequence ?d) content (dd_http2 ?d)"
  define l1 where "l1 = (fold (show_outcome ops rc dir) (fst ?fed) l)\<lparr>rl_dir := after_data ops content ?d\<rparr>"
  have opened: "decrypt_record (to_crypto ops) (seal_record (to_crypto ops) seal key iv (dd_app_sequence ?d) 23 content padding)
      secret (dd_app_sequence ?d) = Plaintext 23 content"
    by (rule sealed_record_decrypts [OF crypto]) simp
  have step: "process_tls_record ops rc (vec_of (seal_record (to_crypto ops) seal key iv (dd_app_sequence ?d) 23 content padding)) l = (True, l1)"
    unfolding l1_def by (rule data_record_shown [OF Cons.prems(1-3) dir opened])
  have l1: "rl_dir l1 = after_data ops content ?d" "rl_suite l1 = Some 0x1301" by (simp_all add: l1_def Cons.prems)
  have seqs: "dd_app_sequence (rl_dir l1) = dd_app_sequence ?d + 1"
    "dd_plaintext_sequence (rl_dir l1) = dd_plaintext_sequence ?d + length content"
    using Cons.prems(4,5) by (simp_all add: l1 after_data_fields item sat_simps)
  obtain d' where rest: "process_records_loop ops rc (sealed_stream (to_crypto ops) seal key iv (dd_app_sequence ?d + 1) items) l1 =
      (fold (show_outcome ops rc dir)
        (fst (http2_run (to_hpack ops) (dd_plaintext_sequence ?d + length content) (map fst items) (snd ?fed))) l1)\<lparr>rl_dir := d'\<rparr>"
    "dd_app_sequence d' = dd_app_sequence ?d + 1 + length items" "dd_terminal d' = dd_terminal ?d"
    using Cons.IH [of l1] Cons.prems seqs by (auto simp: l1 after_data_fields item)
  have "fold (show_outcome ops rc dir) outcomes l1 =
      (fold (show_outcome ops rc dir) outcomes (fold (show_outcome ops rc dir) (fst ?fed) l))\<lparr>rl_dir := after_data ops content ?d\<rparr>" for outcomes
    by (simp add: l1_def fold_show_set_dir)
  with rest step show ?case by (auto simp: item split_def)
qed

section \<open>What a list of frames puts into the ring and the event stream\<close>

text \<open>The contents of a frame: its header lines as one text, then its body, each with the stream.\<close>

fun frame_contents :: "frame_outcome \<Rightarrow> (nat \<times> byte list) list" where
  "frame_contents (Frame stream_id headers body) =
     (if headers \<noteq> [] then [(stream_id, format_decrypted_headers headers)] else []) @ (if body \<noteq> [] then [(stream_id, body)] else [])"
| "frame_contents _ = []"

definition shown_contents :: "frame_outcome list \<Rightarrow> (nat \<times> byte list) list" where
  "shown_contents shown = concat (map frame_contents shown)"

lemma fold_show_contents:
  "fold (show_outcome ops rc dir) shown l = fold (\<lambda>(stream_id, data). show_content ops rc dir stream_id data) (shown_contents shown) l"
proof (induction shown arbitrary: l)
  case (Cons f shown)
  then show ?case by (cases f) (simp_all add: shown_contents_def Let_def)
qed (simp add: shown_contents_def)

lemma fitting_suffix_again: "fitting_suffix cap (fitting_suffix cap es @ xs) = fitting_suffix cap (es @ xs)"
  by (induction es) auto

text \<open>A second event at the same time is always held back.\<close>

lemma limiter_allow_again:
  "min_interval_ms rate \<noteq> Some 0 \<Longrightarrow> limiter_allow (snd (limiter_allow rate t)) t = (False, snd (limiter_allow rate t))"
  "\<not> fst (limiter_allow rate t) \<Longrightarrow> snd (limiter_allow rate t) = rate"
  by (auto simp: limiter_allow_def Let_def split: option.splits)

definition ring_with :: "decryption_direction \<Rightarrow> (nat \<times> byte list) list \<Rightarrow> decrypted_ring_buffer \<Rightarrow> decrypted_ring_buffer" where
  "ring_with dir contents r =
     (let es = fitting_suffix (capacity_bytes r) (entries r @ map (\<lambda>(_, data). \<lparr>direction = Some dir, bytes = vec_of data\<rparr>) contents)
      in r\<lparr>entries := es, used_bytes := retained es\<rparr>)"

lemma ring_with_Cons:
  assumes "ring_ok r" "capacity_bytes r + length data \<le> usize_max"
  shows "ring_with dir contents (push_for_direction z dir (vec_of data) r) = ring_with dir ((stream_id, data) # contents) r"
    and "ring_ok (push_for_direction z dir (vec_of data) r)" "capacity_bytes (push_for_direction z dir (vec_of data) r) = capacity_bytes r"
  using assms push_entry_eq [OF assms(1), of "vec_of data" z "Some dir"]
  by (simp_all add: push_for_direction_def vec_of_def ring_with_def Let_def fitting_suffix_again ring_ok_def fitting_suffix_retained)

lemma ring_with_Nil: "ring_ok r \<Longrightarrow> ring_with dir [] r = r"
  by (simp add: ring_with_def ring_ok_def Let_def fitting_suffix_id)

definition payload_event :: "record_context \<Rightarrow> decryption_direction \<Rightarrow> nat \<times> byte list \<Rightarrow> decrypt_event" where
  "payload_event rc dir = (\<lambda>(stream_id, data). DecryptedPayload (rc_connection rc) dir (Some stream_id) False data)"

lemma fold_show_content:
  assumes "ring_ok (rl_ring l)" "list_all (\<lambda>(_, data). capacity_bytes (rl_ring l) + length data \<le> usize_max) contents"
    and "min_interval_ms (rl_limiter l) \<noteq> Some 0"
  shows "fold (\<lambda>(stream_id, data). show_content ops rc dir stream_id data) contents l =
    l\<lparr>rl_ring := ring_with dir contents (rl_ring l),
      rl_limiter := (if contents = [] then rl_limiter l else snd (limiter_allow (rl_limiter l) (rc_event_now_ms rc))),
      rl_events := rl_events l @ (if fst (limiter_allow (rl_limiter l) (rc_event_now_ms rc)) then map (payload_event rc dir) (take 1 contents) else [])\<rparr>"
  using assms
proof (induction contents arbitrary: l)
  case Nil
  then show ?case by (simp add: ring_with_Nil)
next
  case (Cons c contents)
  obtain stream_id data where c: "c = (stream_id, data)" by (cases c)
  let ?t = "rc_event_now_ms rc" and ?ring = "push_for_direction (to_zeroize ops) dir (vec_of data) (rl_ring l)"
  let ?l1 = "show_content ops rc dir stream_id data l"
  have fits: "capacity_bytes (rl_ring l) + length data \<le> usize_max" using Cons.prems(2) c by simp
  note ring = ring_with_Cons [where z = "to_zeroize ops" and dir = dir, OF Cons.prems(1) fits]
  have l1: "?l1 = l\<lparr>rl_ring := ?ring, rl_limiter := snd (limiter_allow (rl_limiter l) ?t),
      rl_events := rl_events l @ (if fst (limiter_allow (rl_limiter l) ?t) then [payload_event rc dir c] else [])\<rparr>"
    by (simp add: show_content_def emit_decrypted_def split_def Let_def payload_event_def c)
  have again: "limiter_allow (snd (limiter_allow (rl_limiter l) ?t)) ?t = (False, snd (limiter_allow (rl_limiter l) ?t))"
    using Cons.prems(3) by (rule limiter_allow_again)
  have "fold (\<lambda>(stream_id, data). show_content ops rc dir stream_id data) contents ?l1 =
    ?l1\<lparr>rl_ring := ring_with dir contents (rl_ring ?l1),
      rl_limiter := (if contents = [] then rl_limiter ?l1 else snd (limiter_allow (rl_limiter ?l1) ?t)),
      rl_events := rl_events ?l1 @ (if fst (limiter_allow (rl_limiter ?l1) ?t) then map (payload_event rc dir) (take 1 contents) else [])\<rparr>"
    using Cons.prems ring by (intro Cons.IH) (simp_all add: l1 limiter_allow_interval)
  then show ?case using again ring by (simp add: c l1)
qed

text \<open>
  C7: When a direction has its application secret and the handshake is complete, take the records that
  carry an HTTP/2 stream, sealed under consecutive sequence numbers and cut and padded in any way, as they
  come with one packet. The contents of all frames of that stream go into the ring in order, which keeps the
  newest entries that fit. Of the events at most one goes out, because all share the packet's time: the first
  content, when the rate limiter is due, and none otherwise. The direction is left ready for the next record.
\<close>

theorem sealed_stream_is_shown:
  fixes ops :: "'h tls_ops"
  defines "contents items \<equiv> shown_contents (fst (h2_frames (to_hpack ops) (hpack_new (to_hpack ops)) (concat (map fst items))))"
  assumes "aead_opens_sealed (to_crypto ops) seal" "derive_key_and_iv (to_crypto ops) (ss_secret secret) = Some (key, iv)"
      "aead_key_ok (to_crypto ops) key"
    and "dd_handshake_epoch_complete (rl_dir l)" "dd_app_secret (rl_dir l) = Some secret" "rl_suite l = Some 0x1301"
    and "rc_direction rc = Some dir" "dd_http2 (rl_dir l) = http2_new (to_hpack ops)" "rl_deferred l = []" "dd_terminal (rl_dir l) = None"
    and "dd_app_sequence (rl_dir l) + length items \<le> usize_max"
    and "dd_plaintext_sequence (rl_dir l) + length (concat (map fst items)) \<le> usize_max"
    and "ring_ok (rl_ring l)" "list_all (\<lambda>(_, data). capacity_bytes (rl_ring l) + length data \<le> usize_max) (contents items)"
    and "min_interval_ms (rl_limiter l) \<noteq> Some 0"
  shows "\<exists>l'. process_tls_records ops rc (sealed_stream (to_crypto ops) seal key iv (dd_app_sequence (rl_dir l)) items) l = l' \<and>
    entries (rl_ring l') = fitting_suffix (capacity_bytes (rl_ring l))
      (entries (rl_ring l) @ map (\<lambda>(_, data). \<lparr>direction = Some dir, bytes = vec_of data\<rparr>) (contents items)) \<and>
    rl_events l' = rl_events l @
      (if fst (limiter_allow (rl_limiter l) (rc_event_now_ms rc))
       then map (\<lambda>(stream_id, data). DecryptedPayload (rc_connection rc) dir (Some stream_id) False data) (take 1 (contents items)) else []) \<and>
    rl_deferred l' = [] \<and> rl_suite l' = Some 0x1301 \<and>
    dd_terminal (rl_dir l') = None \<and> dd_key_wait_records (rl_dir l') = [] \<and>
    dd_app_sequence (rl_dir l') = dd_app_sequence (rl_dir l) + length items"
proof -
  let ?frames = "fst (h2_frames (to_hpack ops) (hpack_new (to_hpack ops)) (concat (map fst items)))"
  let ?run = "http2_run (to_hpack ops) (dd_plaintext_sequence (rl_dir l)) (map fst items) (dd_http2 (rl_dir l))"
  let ?shown = "fold (show_outcome ops rc dir) ?frames l"
  have "reads_at (to_hpack ops) (dd_plaintext_sequence (rl_dir l)) (dd_http2 (rl_dir l))"
    by (simp add: assms(9) reads_at_new)
  from http2_run_frames [OF this, of "map fst items"] have frames: "frames_of (fst ?run) = ?frames"
    by (simp add: assms(9) http2_new_def vec_simps)
  have same: "l\<lparr>rl_deferred := []\<rparr> = l" using assms(10) by simp
  from sealed_stream_run [OF assms(2-8,12,13)] obtain d' where
    "process_records_loop ops rc (sealed_stream (to_crypto ops) seal key iv (dd_app_sequence (rl_dir l)) items) l =
      (fold (show_outcome ops rc dir) (fst ?run) l)\<lparr>rl_dir := d'\<rparr>"
    "dd_app_sequence d' = dd_app_sequence (rl_dir l) + length items" "dd_terminal d' = None" using assms(11) by auto
  then obtain d where d: "process_tls_records ops rc (sealed_stream (to_crypto ops) seal key iv (dd_app_sequence (rl_dir l)) items) l =
      ?shown\<lparr>rl_dir := d\<rparr>"
    "dd_terminal d = None" "dd_key_wait_records d = []" "dd_app_sequence d = dd_app_sequence (rl_dir l) + length items"
    using assms(10)
    by (auto simp: process_tls_records_def same frames fold_show_frames [of ops rc dir "fst ?run"]
        intro!: that [of "d'\<lparr>dd_key_wait_records := []\<rparr>"])
  note exact = fold_show_content [OF assms(14,15,16), of ops rc dir, unfolded contents_def, folded fold_show_contents]
  show ?thesis
    unfolding d(1) contents_def exact using d(2-4) assms(7,10)
    by (simp add: ring_with_def Let_def payload_event_def [abs_def])
qed

definition demo_secret :: session_secret where
  "demo_secret = \<lparr>ss_client_random = [], ss_label = [], ss_secret = [1]\<rparr>"

definition demo_loop :: "unit record_loop" where
  "demo_loop = \<lparr>rl_dir = (direction_state_new demo_ops)\<lparr>dd_handshake_epoch_complete := True, dd_app_secret := Some demo_secret\<rparr>,
     rl_ring = ring_new False decrypt_ring_cap_bytes, rl_suite = Some 0x1301, rl_limiter = limiter_new 1 1, rl_deferred = [], rl_events = []\<rparr>"

definition demo_rc :: record_context where
  "demo_rc = \<lparr>rc_connection = [], rc_outbound = True, rc_client_is_outbound = Some True, rc_direction = Some ClientToServer,
     rc_event_now_ms = 3, rc_capture_now_ms = 3\<rparr>"

text \<open>A DATA frame of stream 1 with two bytes, cut within its header and padded.\<close>

definition demo_items :: "(byte list \<times> nat) list" where
  "demo_items = [([0, 0, 2, 0], 3), ([0, 0, 0, 0, 1, 7, 8], 0)]"

lemma demo_items_frames: "fst (h2_frames (to_hpack demo_ops) (hpack_new (to_hpack demo_ops)) (concat (map fst demo_items))) = [Frame 1 [] [7, 8]]"
  by (simp add: demo_items_def demo_ops_def h2_frames.simps u24_be_def frame_stream_id_def max_frame_len_def)

lemma demo_loop_fields:
  "to_crypto demo_ops = demo_crypto" "dd_handshake_epoch_complete (rl_dir demo_loop)" "dd_app_secret (rl_dir demo_loop) = Some demo_secret"
  "rl_suite demo_loop = Some 0x1301" "rc_direction demo_rc = Some ClientToServer" "dd_http2 (rl_dir demo_loop) = http2_new (to_hpack demo_ops)"
  "rl_deferred demo_loop = []" "dd_terminal (rl_dir demo_loop) = None" "dd_app_sequence (rl_dir demo_loop) = 0"
  "dd_plaintext_sequence (rl_dir demo_loop) = 0" "length demo_items = 2" "length (concat (map fst demo_items)) = 11"
  by (simp_all add: demo_ops_def demo_loop_def demo_rc_def direction_state_new_def demo_items_def)

theorem sealed_stream_is_shown_witness:
  "\<exists>l'. process_tls_records demo_ops demo_rc (sealed_stream demo_crypto demo_seal (replicate 16 1) (replicate 12 1) 0 demo_items) demo_loop = l' \<and>
     entries (rl_ring l') = [\<lparr>direction = Some ClientToServer, bytes = vec_of [7, 8]\<rparr>] \<and>
     rl_events l' = [DecryptedPayload [] ClientToServer (Some 1) False [7, 8]] \<and>
     dd_terminal (rl_dir l') = None \<and> dd_app_sequence (rl_dir l') = 2"
proof -
  have contents: "shown_contents [Frame 1 [] [7, 8]] = [(1, [7, 8])]" by (simp add: shown_contents_def)
  have ring: "ring_ok (rl_ring demo_loop)" "Suc (Suc (capacity_bytes (rl_ring demo_loop))) \<le> usize_max" "entries (rl_ring demo_loop) = []"
    "capacity (vec_of [7, 8 :: byte]) \<le> capacity_bytes (rl_ring demo_loop)" "11 \<le> usize_max" "2 \<le> usize_max"
    by (simp_all add: demo_loop_def ring_new_def ring_ok_def decrypt_ring_cap_bytes_def usize_max_def vec_of_def)
  have limiter: "min_interval_ms (rl_limiter demo_loop) \<noteq> Some 0" "fst (limiter_allow (rl_limiter demo_loop) (rc_event_now_ms demo_rc))"
    "rl_events demo_loop = []" "rc_connection demo_rc = []"
    by (simp_all add: demo_loop_def limiter_new_def limiter_allow_def demo_rc_def)
  show ?thesis
    using sealed_stream_is_shown [of demo_ops demo_seal demo_secret "replicate 16 1" "replicate 12 1" demo_loop demo_rc ClientToServer demo_items]
    unfolding demo_items_frames demo_loop_fields contents
    by (simp add: demo_crypto_ok demo_loop_fields(2) ring limiter)
qed

end
