(* ===== verification/PacketFields.thy ===== *)
theory PacketFields
  imports L7Sniff Transaction
begin

text \<open>
  The field list of a packet event (\<open>fields.rs\<close>): the tree of decoded header and application fields the
  user interface shows, with the byte range of each. Offsets and lengths are naturals; the casts of the
  source to 32 bits are written out where a value may exceed them.
\<close>

section \<open>Fields\<close>

definition eth_header_len :: nat where "eth_header_len = 14"
definition vlan_tag_len :: nat where "vlan_tag_len = 4"
definition udp_header_len :: nat where "udp_header_len = 8"
definition max_exact_json_uint :: nat where "max_exact_json_uint = 2 ^ 53 - 1"

datatype field_type = GroupType | BoolType | UintType | StrType | AddrType | BytesType

datatype byte_region = HeaderRegion | PayloadRegion

datatype field_value = BoolValue bool | UintValue nat | StrValue rstring | BytesValue "byte list"

record field =
  fd_path :: rstring
  fd_label :: rstring
  fd_group :: "rstring option"
  fd_type :: field_type
  fd_value :: "field_value option"
  fd_region :: byte_region
  fd_offset :: nat
  fd_len :: nat

definition group_field :: "rstring \<Rightarrow> rstring \<Rightarrow> rstring option \<Rightarrow> byte_region \<Rightarrow> nat \<Rightarrow> nat \<Rightarrow> field" where
  "group_field path label parent region offset len =
     \<lparr>fd_path = path, fd_label = label, fd_group = parent, fd_type = GroupType, fd_value = None, fd_region = region,
      fd_offset = offset, fd_len = len\<rparr>"

definition leaf_field ::
  "rstring \<Rightarrow> rstring \<Rightarrow> rstring \<Rightarrow> field_type \<Rightarrow> field_value \<Rightarrow> byte_region \<Rightarrow> nat \<Rightarrow> nat \<Rightarrow> field" where
  "leaf_field path label parent ty v region offset len =
     \<lparr>fd_path = path, fd_label = label, fd_group = Some parent, fd_type = ty, fd_value = Some v, fd_region = region,
      fd_offset = offset, fd_len = len\<rparr>"

fun protocol_num :: "transport_protocol \<Rightarrow> nat" where
  "protocol_num Tcp = 6"
| "protocol_num Udp = 17"
| "protocol_num Icmp = 1"
| "protocol_num OtherProtocol = 0"

section \<open>Headers\<close>

definition eth_fields :: "parsed_packet \<Rightarrow> field list \<times> nat" where
  "eth_fields p =
     (let tagged = pp_vlan_tag p \<noteq> None;
          eth_len = eth_header_len + (if tagged then vlan_tag_len else 0);
          ethertype_offset = (if tagged then 16 else 12);
          ethertype_label = (if pp_ip_version p = 4 then lit ''IPv4'' else if pp_ip_version p = 6 then lit ''IPv6'' else lit ''Unknown'')
      in ([group_field (lit ''eth'') (lit ''Ethernet II'') None HeaderRegion 0 eth_len,
           leaf_field (lit ''eth.dst'') (lit ''Destination MAC'') (lit ''eth'') AddrType (StrValue (pp_dst_mac p)) HeaderRegion 0 6,
           leaf_field (lit ''eth.src'') (lit ''Source MAC'') (lit ''eth'') AddrType (StrValue (pp_src_mac p)) HeaderRegion 6 6] @
          (case pp_vlan_tag p of
             None \<Rightarrow> []
           | Some vlan_tag \<Rightarrow>
               [group_field (lit ''eth.vlan'') (lit ''802.1Q VLAN Tag'') (Some (lit ''eth'')) HeaderRegion 12 vlan_tag_len,
                leaf_field (lit ''eth.vlan.id'') (lit ''VLAN ID'') (lit ''eth.vlan'') UintType
                  (UintValue (case parse_u64 vlan_tag of None \<Rightarrow> 0 | Some n \<Rightarrow> n)) HeaderRegion 14 2]) @
          [leaf_field (lit ''eth.type'') (lit ''EtherType'') (lit ''eth'') StrType (StrValue ethertype_label) HeaderRegion ethertype_offset 2],
          eth_len))"

definition header_byte_or :: "parsed_packet \<Rightarrow> nat \<Rightarrow> nat" where
  "header_byte_or p i = (if i < length (pp_header_bytes p) then unat (pp_header_bytes p ! i) else protocol_num (pp_protocol p))"

definition ip_fields :: "parsed_packet \<Rightarrow> nat \<Rightarrow> field list \<times> nat" where
  "ip_fields p ip_start =
     (if pp_ip_version p = 6 then
        ([group_field (lit ''ip6'') (lit ''Internet Protocol Version 6'') None HeaderRegion ip_start (pp_ip_header_len p),
          leaf_field (lit ''ip6.src'') (lit ''Source Address'') (lit ''ip6'') AddrType (StrValue (pp_src_ip p)) HeaderRegion (ip_start + 8) 16,
          leaf_field (lit ''ip6.dst'') (lit ''Destination Address'') (lit ''ip6'') AddrType (StrValue (pp_dst_ip p)) HeaderRegion (ip_start + 24) 16,
          leaf_field (lit ''ip6.hop_limit'') (lit ''Hop Limit'') (lit ''ip6'') UintType (UintValue (pp_ttl p)) HeaderRegion (ip_start + 7) 1,
          leaf_field (lit ''ip6.next_header'') (lit ''Next Header'') (lit ''ip6'') UintType
            (UintValue (header_byte_or p (ip_start + 6))) HeaderRegion (ip_start + 6) 1],
         ip_start + pp_ip_header_len p)
      else
        ([group_field (lit ''ip'') (lit ''Internet Protocol Version 4'') None HeaderRegion ip_start (pp_ip_header_len p),
          leaf_field (lit ''ip.src'') (lit ''Source Address'') (lit ''ip'') AddrType (StrValue (pp_src_ip p)) HeaderRegion (ip_start + 12) 4,
          leaf_field (lit ''ip.dst'') (lit ''Destination Address'') (lit ''ip'') AddrType (StrValue (pp_dst_ip p)) HeaderRegion (ip_start + 16) 4,
          leaf_field (lit ''ip.ttl'') (lit ''Time to Live'') (lit ''ip'') UintType (UintValue (pp_ttl p)) HeaderRegion (ip_start + 8) 1,
          leaf_field (lit ''ip.protocol_num'') (lit ''Protocol'') (lit ''ip'') UintType
            (UintValue (header_byte_or p (ip_start + 9))) HeaderRegion (ip_start + 9) 1] @
         (case pp_ip_checksum p of
            None \<Rightarrow> []
          | Some checksum \<Rightarrow>
              [leaf_field (lit ''ip.checksum'') (lit ''Header Checksum'') (lit ''ip'') StrType
                 (StrValue (lit ''0x'' @ hex_byte (of_nat (checksum div 256)) @ hex_byte (of_nat checksum))) HeaderRegion (ip_start + 10) 2]),
         ip_start + pp_ip_header_len p))"

definition default_flags :: tcp_flags where
  "default_flags = \<lparr>tf_syn = False, tf_ack = False, tf_fin = False, tf_rst = False, tf_window_size = 0, tf_ack_number = 0\<rparr>"

definition port_value :: "nat option \<Rightarrow> field_value" where
  "port_value port = UintValue (case port of None \<Rightarrow> 0 | Some n \<Rightarrow> n)"

definition transport_fields :: "parsed_packet \<Rightarrow> nat \<Rightarrow> field list" where
  "transport_fields p start =
     (case pp_protocol p of
        Tcp \<Rightarrow>
          let flags = (case pp_tcp_flags p of None \<Rightarrow> default_flags | Some f \<Rightarrow> f)
          in [group_field (lit ''tcp'') (lit ''Transmission Control Protocol'') None HeaderRegion start (pp_transport_header_len p),
              leaf_field (lit ''tcp.src_port'') (lit ''Source Port'') (lit ''tcp'') UintType (port_value (pp_src_port p)) HeaderRegion start 2,
              leaf_field (lit ''tcp.dst_port'') (lit ''Destination Port'') (lit ''tcp'') UintType (port_value (pp_dst_port p)) HeaderRegion (start + 2) 2,
              leaf_field (lit ''tcp.seq'') (lit ''Sequence Number'') (lit ''tcp'') UintType
                (UintValue (case pp_seq p of None \<Rightarrow> 0 | Some s \<Rightarrow> unat s)) HeaderRegion (start + 4) 4,
              leaf_field (lit ''tcp.ack_number'') (lit ''Acknowledgment Number'') (lit ''tcp'') UintType
                (UintValue (unat (tf_ack_number flags))) HeaderRegion (start + 8) 4,
              group_field (lit ''tcp.flags'') (lit ''Flags'') (Some (lit ''tcp'')) HeaderRegion (start + 13) 1,
              leaf_field (lit ''tcp.flags.syn'') (lit ''SYN'') (lit ''tcp.flags'') BoolType (BoolValue (tf_syn flags)) HeaderRegion (start + 13) 1,
              leaf_field (lit ''tcp.flags.ack'') (lit ''ACK'') (lit ''tcp.flags'') BoolType (BoolValue (tf_ack flags)) HeaderRegion (start + 13) 1,
              leaf_field (lit ''tcp.flags.fin'') (lit ''FIN'') (lit ''tcp.flags'') BoolType (BoolValue (tf_fin flags)) HeaderRegion (start + 13) 1,
              leaf_field (lit ''tcp.flags.rst'') (lit ''RST'') (lit ''tcp.flags'') BoolType (BoolValue (tf_rst flags)) HeaderRegion (start + 13) 1,
              leaf_field (lit ''tcp.window_size'') (lit ''Window Size'') (lit ''tcp'') UintType (UintValue (tf_window_size flags)) HeaderRegion (start + 14) 2]
      | Udp \<Rightarrow>
          [group_field (lit ''udp'') (lit ''User Datagram Protocol'') None HeaderRegion start udp_header_len,
           leaf_field (lit ''udp.src_port'') (lit ''Source Port'') (lit ''udp'') UintType (port_value (pp_src_port p)) HeaderRegion start 2,
           leaf_field (lit ''udp.dst_port'') (lit ''Destination Port'') (lit ''udp'') UintType (port_value (pp_dst_port p)) HeaderRegion (start + 2) 2]
      | _ \<Rightarrow> [])"

section \<open>Application layer\<close>

definition payload_leaf :: "nat \<Rightarrow> rstring \<Rightarrow> rstring \<Rightarrow> rstring \<Rightarrow> field_type \<Rightarrow> field_value \<Rightarrow> field" where
  "payload_leaf payload_len path label parent ty v = leaf_field path label parent ty v PayloadRegion 0 payload_len"

definition answer_base :: "nat \<Rightarrow> rstring" where
  "answer_base i = lit ''dns.answer.'' @ show_nat i"

definition answer_fields :: "nat \<Rightarrow> nat \<Rightarrow> dns_answer \<Rightarrow> field list" where
  "answer_fields payload_len i answer =
     (let base = answer_base i; type_name = dns_type_name (da_rtype answer)
      in [group_field base (da_name answer @ lit '' '' @ type_name) (Some (lit ''dns.answers'')) PayloadRegion 0 payload_len,
          payload_leaf payload_len (base @ lit ''.name'') (lit ''Name'') base StrType (StrValue (da_name answer)),
          payload_leaf payload_len (base @ lit ''.type'') (lit ''Type'') base StrType (StrValue type_name),
          payload_leaf payload_len (base @ lit ''.ttl'') (lit ''Time to Live (s)'') base UintType (UintValue (da_ttl answer))] @
         (if da_data answer \<noteq> []
          then [payload_leaf payload_len (base @ lit ''.data'') (lit ''Data'') base
                  (if da_rtype answer \<in> {1, 28} then AddrType else StrType) (StrValue (da_data answer))]
          else []) @
         (if da_data_truncated answer
          then [payload_leaf payload_len (base @ lit ''.truncated'') (lit ''Data Truncated'') base BoolType (BoolValue True)] else []))"

fun answer_loop :: "nat \<Rightarrow> nat \<Rightarrow> dns_answer list \<Rightarrow> field list" where
  "answer_loop payload_len i [] = []"
| "answer_loop payload_len i (answer # answers) = answer_fields payload_len i answer @ answer_loop payload_len (Suc i) answers"

fun app_fields :: "l7_info \<Rightarrow> nat \<Rightarrow> nat \<Rightarrow> field list" where
  "app_fields (Http method path) payload_len dns_offset =
     [group_field (lit ''http'') (lit ''Hypertext Transfer Protocol'') None PayloadRegion 0 payload_len,
      payload_leaf payload_len (lit ''http.request.method'') (lit ''Request Method'') (lit ''http'') StrType (StrValue method),
      payload_leaf payload_len (lit ''http.request.uri'') (lit ''Request URI'') (lit ''http'') StrType (StrValue path)]"
| "app_fields (HttpResponse status reason content_type content_length) payload_len dns_offset =
     [group_field (lit ''http'') (lit ''Hypertext Transfer Protocol'') None PayloadRegion 0 payload_len,
      payload_leaf payload_len (lit ''http.response.code'') (lit ''Status Code'') (lit ''http'') UintType
        (UintValue (case parse_u64 status of None \<Rightarrow> 0 | Some n \<Rightarrow> n))] @
     (case reason of None \<Rightarrow> []
      | Some r \<Rightarrow> [payload_leaf payload_len (lit ''http.response.phrase'') (lit ''Response Phrase'') (lit ''http'') StrType (StrValue r)]) @
     (case content_type of None \<Rightarrow> []
      | Some ct \<Rightarrow> [payload_leaf payload_len (lit ''http.content_type'') (lit ''Content-Type'') (lit ''http'') StrType (StrValue ct)]) @
     (case content_length of None \<Rightarrow> []
      | Some n \<Rightarrow> [payload_leaf payload_len (lit ''http.content_length'') (lit ''Content-Length'') (lit ''http'') UintType
                    (if n > max_exact_json_uint then StrValue (show_nat n) else UintValue n)])"
| "app_fields (Dns query_name ident qtype) payload_len dns_offset =
     [group_field (lit ''dns'') (lit ''Domain Name System'') None PayloadRegion 0 payload_len,
      leaf_field (lit ''dns.id'') (lit ''Transaction ID'') (lit ''dns'') UintType (UintValue ident) PayloadRegion dns_offset 2,
      leaf_field (lit ''dns.flags.response'') (lit ''Response'') (lit ''dns'') BoolType (BoolValue False) PayloadRegion (dns_offset + 2) 1,
      payload_leaf payload_len (lit ''dns.qry.name'') (lit ''Query Name'') (lit ''dns'') StrType (StrValue query_name),
      payload_leaf payload_len (lit ''dns.qry.type'') (lit ''Query Type'') (lit ''dns'') StrType (StrValue (dns_type_name qtype))]"
| "app_fields (DnsResponse query_name ident qtype rcode answer_count answers) payload_len dns_offset =
     [group_field (lit ''dns'') (lit ''Domain Name System'') None PayloadRegion 0 payload_len,
      leaf_field (lit ''dns.id'') (lit ''Transaction ID'') (lit ''dns'') UintType (UintValue ident) PayloadRegion dns_offset 2,
      leaf_field (lit ''dns.flags.response'') (lit ''Response'') (lit ''dns'') BoolType (BoolValue True) PayloadRegion (dns_offset + 2) 1,
      leaf_field (lit ''dns.flags.rcode'') (lit ''Response Code'') (lit ''dns'') StrType (StrValue (dns_rcode_name rcode)) PayloadRegion (dns_offset + 3) 1,
      payload_leaf payload_len (lit ''dns.qry.name'') (lit ''Query Name'') (lit ''dns'') StrType (StrValue query_name),
      payload_leaf payload_len (lit ''dns.qry.type'') (lit ''Query Type'') (lit ''dns'') StrType (StrValue (dns_type_name qtype)),
      leaf_field (lit ''dns.count.answers'') (lit ''Answer RRs'') (lit ''dns'') UintType (UintValue answer_count) PayloadRegion (dns_offset + 6) 2] @
     (if answers \<noteq> [] then [group_field (lit ''dns.answers'') (lit ''Answers'') (Some (lit ''dns'')) PayloadRegion 0 payload_len] else []) @
     answer_loop payload_len 0 answers"
| "app_fields (TlsClientHello sni ja3 ja3_label _ sni_offset sni_len) payload_len dns_offset =
     [group_field (lit ''tls'') (lit ''Transport Layer Security'') None PayloadRegion 0 payload_len,
      leaf_field (lit ''tls.handshake.sni'') (lit ''Server Name'') (lit ''tls'') StrType (StrValue sni) PayloadRegion
        (u32_cast sni_offset) (u32_cast sni_len)] @
     (case ja3 of None \<Rightarrow> []
      | Some h \<Rightarrow> [payload_leaf payload_len (lit ''tls.ja3'') (lit ''JA3 Fingerprint'') (lit ''tls'') StrType (StrValue h)]) @
     (case ja3_label of None \<Rightarrow> []
      | Some label \<Rightarrow> [payload_leaf payload_len (lit ''tls.ja3_label'') (lit ''JA3 Label'') (lit ''tls'') StrType (StrValue label)])"
| "app_fields L7None payload_len dns_offset = []"

definition txn_group :: "txn_protocol \<Rightarrow> rstring" where
  "txn_group protocol = (case protocol of TxnDns \<Rightarrow> lit ''dns'' | TxnHttp \<Rightarrow> lit ''http'')"

definition transaction_fields :: "txn_event \<Rightarrow> field list" where
  "transaction_fields event =
     (case event of
        Answered protocol service_time_us request_frame_id \<Rightarrow>
          let parent = txn_group protocol
          in payload_leaf 0 (parent @ lit ''.time_us'') (lit ''Service Time ('' @ [0xC2, 0xB5] @ lit ''s)'') parent UintType (UintValue service_time_us) #
             (case request_frame_id of
                None \<Rightarrow> []
              | Some frame_id \<Rightarrow> [payload_leaf 0 (parent @ lit ''.response_to'') (lit ''Response To'') parent StrType (StrValue frame_id)])
      | DuplicateResponse \<Rightarrow>
          [payload_leaf 0 (lit ''dns.response.duplicate'') (lit ''Duplicate Response'') (lit ''dns'') BoolType (BoolValue True)]
      | _ \<Rightarrow> [])"

section \<open>The whole list\<close>

definition build_fields :: "parsed_packet \<Rightarrow> l7_info \<Rightarrow> link_type \<Rightarrow> field list" where
  "build_fields p l7 link =
     (let (eth, ip_start) = (if link = Ethernet then eth_fields p else ([], 0));
          (ip, transport_start) = ip_fields p ip_start;
          dns_offset = (if is_dns_over_tcp (pp_protocol p) (pp_src_port p) (pp_dst_port p) then 2 else 0)
      in eth @ ip @ transport_fields p transport_start @ app_fields l7 (u32_cast (length (pp_payload p))) dns_offset)"

definition build_packet_fields :: "parsed_packet \<Rightarrow> l7_info \<Rightarrow> link_type \<Rightarrow> bool \<Rightarrow> field list" where
  "build_packet_fields p l7 link l7_from_reassembly =
     (if l7_from_reassembly then
        build_fields p L7None link @
        (if pp_protocol p = Tcp \<and> is_dns_info l7 then map (\<lambda>f. f\<lparr>fd_offset := 0, fd_len := 0\<rparr>) (app_fields l7 0 0) else [])
      else build_fields p l7 link)"

text \<open>The layer and the fields of a packet event (\<open>main.rs\<close>).\<close>

definition packet_osi_layer :: "transport_protocol \<Rightarrow> l7_info \<Rightarrow> nat" where
  "packet_osi_layer protocol l7 = (if protocol \<in> {Tcp, Udp} \<and> l7 \<noteq> L7None then 7 else if protocol \<in> {Tcp, Udp} then 4 else 3)"

definition packet_event_fields :: "parsed_packet \<Rightarrow> l7_info \<Rightarrow> link_type \<Rightarrow> bool \<Rightarrow> txn_event \<Rightarrow> field list" where
  "packet_event_fields p l7 link l7_from_reassembly txn_event =
     build_packet_fields p l7 link l7_from_reassembly @ transaction_fields txn_event"


section \<open>Types and tree\<close>

fun fits :: "field_type \<Rightarrow> field_value option \<Rightarrow> bool" where
  "fits GroupType v \<longleftrightarrow> v = None"
| "fits BoolType v \<longleftrightarrow> (case v of Some (BoolValue _) \<Rightarrow> True | _ \<Rightarrow> False)"
| "fits UintType v \<longleftrightarrow> (case v of Some (UintValue _) \<Rightarrow> True | _ \<Rightarrow> False)"
| "fits StrType v \<longleftrightarrow> (case v of Some (StrValue _) \<Rightarrow> True | _ \<Rightarrow> False)"
| "fits AddrType v \<longleftrightarrow> (case v of Some (StrValue _) \<Rightarrow> True | _ \<Rightarrow> False)"
| "fits BytesType v \<longleftrightarrow> (case v of Some (BytesValue _) \<Rightarrow> True | _ \<Rightarrow> False)"

text \<open>The value has the shape its type announces; an integer too large for a JSON number is its decimal text.\<close>

definition well_typed :: "field \<Rightarrow> bool" where
  "well_typed f \<longleftrightarrow> fits (fd_type f) (fd_value f) \<or>
     fd_type f = UintType \<and> (\<exists>n>max_exact_json_uint. fd_value f = Some (StrValue (show_nat n)))"

text \<open>Every field that names a group has that group in the list.\<close>

definition has_group :: "field list \<Rightarrow> field \<Rightarrow> bool" where
  "has_group fs f = (case fd_group f of None \<Rightarrow> True | Some g \<Rightarrow> (\<exists>h\<in>set fs. fd_path h = g \<and> fd_type h = GroupType))"

lemma field_simps [simp]:
  "fd_path (group_field path label parent region offset len) = path" "fd_group (group_field path label parent region offset len) = parent"
  "fd_type (group_field path label parent region offset len) = GroupType" "fd_region (group_field path label parent region offset len) = region"
  "fd_value (group_field path label parent region offset len) = None" "fd_len (group_field path label parent region offset len) = len"
  "fd_path (leaf_field path label g ty v region offset len) = path" "fd_group (leaf_field path label g ty v region offset len) = Some g"
  "fd_type (leaf_field path label g ty v region offset len) = ty" "fd_region (leaf_field path label g ty v region offset len) = region"
  "fd_value (leaf_field path label g ty v region offset len) = Some v" "fd_len (leaf_field path label g ty v region offset len) = len"
  by (simp_all add: group_field_def leaf_field_def)

lemma well_typed_group [simp]: "well_typed (group_field path label parent region offset len)"
  by (simp add: well_typed_def)

lemma well_typed_leaf: "fits ty (Some v) \<Longrightarrow> well_typed (leaf_field path label parent ty v region offset len)"
  by (simp add: well_typed_def)

lemma well_typed_large: "max_exact_json_uint < n \<Longrightarrow> well_typed (leaf_field path label parent UintType (StrValue (show_nat n)) region offset len)"
  by (auto simp: well_typed_def)

lemma eth_typed: "list_all well_typed (fst (eth_fields p))"
  by (simp add: eth_fields_def Let_def well_typed_leaf split: option.split)

lemma ip_typed: "list_all well_typed (fst (ip_fields p s))"
  by (simp add: ip_fields_def well_typed_leaf split: option.split)

lemma transport_typed: "list_all well_typed (transport_fields p s)"
  by (simp add: transport_fields_def Let_def well_typed_leaf port_value_def split: transport_protocol.split)

lemma answer_typed: "list_all well_typed (answer_fields n i a)"
  by (simp add: answer_fields_def Let_def well_typed_leaf payload_leaf_def)

lemma app_typed: "list_all well_typed (app_fields l7 n k)"
proof (cases l7)
  case (DnsResponse query_name ident qtype rcode answer_count answers)
  have "list_all well_typed (answer_loop n i answers)" for i
    by (induction answers arbitrary: i) (simp_all add: answer_typed)
  then show ?thesis by (simp add: DnsResponse well_typed_leaf payload_leaf_def)
qed (auto simp: well_typed_leaf well_typed_large payload_leaf_def split: option.split)

lemma transaction_typed: "list_all well_typed (transaction_fields event)"
  by (auto simp: transaction_fields_def Let_def well_typed_leaf payload_leaf_def split: txn_event.split option.split)

lemma build_fields_split:
  "build_fields p l7 link = (if link = Ethernet then fst (eth_fields p) else []) @
     fst (ip_fields p (if link = Ethernet then snd (eth_fields p) else 0)) @
     transport_fields p (snd (ip_fields p (if link = Ethernet then snd (eth_fields p) else 0))) @
     app_fields l7 (u32_cast (length (pp_payload p))) (if is_dns_over_tcp (pp_protocol p) (pp_src_port p) (pp_dst_port p) then 2 else 0)"
  by (simp add: build_fields_def split_def Let_def)

lemma build_fields_typed: "list_all well_typed (build_fields p l7 link)"
  by (simp add: build_fields_split eth_typed ip_typed transport_typed app_typed)

lemma list_all_no_range: "list_all P (map (\<lambda>f. f\<lparr>fd_offset := a, fd_len := b\<rparr>) fs) \<longleftrightarrow> list_all (\<lambda>f. P (f\<lparr>fd_offset := a, fd_len := b\<rparr>)) fs"
  by (simp add: list_all_iff)

lemma well_typed_no_range [simp]: "well_typed (f\<lparr>fd_offset := a, fd_len := b\<rparr>) = well_typed f"
  by (simp add: well_typed_def)

lemma packet_fields_typed: "list_all well_typed (build_packet_fields p l7 link r)"
  by (simp add: build_packet_fields_def build_fields_typed list_all_no_range app_typed)

subsection \<open>Groups\<close>

lemma has_group_mono: "has_group xs f \<Longrightarrow> set xs \<subseteq> set ys \<Longrightarrow> has_group ys f"
  unfolding has_group_def by (cases "fd_group f") auto

lemma has_group_append: "list_all (has_group xs) xs \<Longrightarrow> list_all (has_group ys) ys \<Longrightarrow> list_all (has_group (xs @ ys)) (xs @ ys)"
  by (auto simp: list_all_iff intro: has_group_mono)

lemma eth_groups: "list_all (has_group (fst (eth_fields p))) (fst (eth_fields p))"
  by (simp add: eth_fields_def Let_def has_group_def split: option.split)

lemma ip_groups: "list_all (has_group (fst (ip_fields p s))) (fst (ip_fields p s))"
  by (simp add: ip_fields_def has_group_def split: option.split)

lemma transport_groups: "list_all (has_group (transport_fields p s)) (transport_fields p s)"
  by (simp add: transport_fields_def Let_def has_group_def split: transport_protocol.split)

lemma answer_groups:
  assumes "f \<in> set (answer_fields n i a)"
  shows "fd_group f = Some (lit ''dns.answers'') \<or>
    (\<exists>h\<in>set (answer_fields n i a). fd_group f = Some (fd_path h) \<and> fd_type h = GroupType)"
  using assms by (auto simp: answer_fields_def Let_def payload_leaf_def split: if_splits)

lemma answer_loop_member: "f \<in> set (answer_loop n k answers) \<longleftrightarrow>
    (\<exists>i<length answers. f \<in> set (answer_fields n (k + i) (answers ! i)))"
proof (induction answers arbitrary: k)
  case (Cons a answers)
  have "(\<exists>i<length (a # answers). f \<in> set (answer_fields n (k + i) ((a # answers) ! i))) \<longleftrightarrow>
      f \<in> set (answer_fields n k a) \<or> (\<exists>i<length answers. f \<in> set (answer_fields n (Suc k + i) (answers ! i)))"
    by (auto simp: less_Suc_eq_0_disj)
  with Cons.IH [of "Suc k"] show ?case by simp
qed simp

lemma app_groups: "list_all (has_group (app_fields l7 n k)) (app_fields l7 n k)"
proof (cases l7)
  case (DnsResponse query_name ident qtype rcode answer_count answers)
  have "has_group (app_fields l7 n k) f" if loop: "f \<in> set (answer_loop n 0 answers)" for f
  proof -
    obtain i where i: "i < length answers" "f \<in> set (answer_fields n i (answers ! i))" using loop by (auto simp: answer_loop_member)
    have sub: "set (answer_fields n i (answers ! i)) \<subseteq> set (app_fields l7 n k)"
      using i(1) by (auto simp: DnsResponse answer_loop_member)
    have "answers \<noteq> []" using i(1) by auto
    then have "\<exists>h\<in>set (app_fields l7 n k). fd_path h = lit ''dns.answers'' \<and> fd_type h = GroupType" by (simp add: DnsResponse)
    then show ?thesis using answer_groups [OF i(2)] sub by (fastforce simp: has_group_def)
  qed
  moreover have "has_group (app_fields l7 n k) f" if "f \<in> set (app_fields l7 n k)" "f \<notin> set (answer_loop n 0 answers)" for f
    using that by (auto simp: DnsResponse has_group_def payload_leaf_def split: if_splits)
  ultimately show ?thesis unfolding list_all_iff by blast
qed (auto simp: has_group_def payload_leaf_def split: option.split)

lemma build_fields_groups: "list_all (has_group (build_fields p l7 link)) (build_fields p l7 link)"
  unfolding build_fields_split
  by (intro has_group_append ip_groups transport_groups app_groups) (simp add: eth_groups)

lemma has_group_no_range:
  "list_all (has_group fs) fs \<Longrightarrow>
     list_all (has_group (map (\<lambda>f. f\<lparr>fd_offset := a, fd_len := b\<rparr>) fs)) (map (\<lambda>f. f\<lparr>fd_offset := a, fd_len := b\<rparr>) fs)"
  by (auto simp: list_all_iff has_group_def split: option.splits)

lemma packet_fields_groups: "list_all (has_group (build_packet_fields p l7 link r)) (build_packet_fields p l7 link r)"
proof -
  have "list_all (has_group (build_fields p L7None link @ map (\<lambda>f. f\<lparr>fd_offset := 0, fd_len := 0\<rparr>) (app_fields l7 0 0)))
      (build_fields p L7None link @ map (\<lambda>f. f\<lparr>fd_offset := 0, fd_len := 0\<rparr>) (app_fields l7 0 0))"
    by (rule has_group_append [OF build_fields_groups has_group_no_range [OF app_groups]])
  then show ?thesis unfolding build_packet_fields_def using build_fields_groups by (auto simp del: list_all_append)
qed


subsection \<open>Paths\<close>

text \<open>The first component of a path: the layer a field belongs to.\<close>

definition root_of :: "rstring \<Rightarrow> rstring" where
  "root_of path = takeWhile (\<lambda>b. b \<noteq> 0x2E) path"

lemma distinct_by_root:
  assumes "distinct (map fd_path xs)" "distinct (map fd_path ys)"
    and "\<forall>f\<in>set xs. root_of (fd_path f) \<in> A" "\<forall>f\<in>set ys. root_of (fd_path f) \<in> B" "A \<inter> B = {}"
  shows "distinct (map fd_path (xs @ ys))"
  using assms by (auto simp: disjoint_iff)

lemma eth_paths: "distinct (map fd_path (fst (eth_fields p)))" "\<forall>f\<in>set (fst (eth_fields p)). root_of (fd_path f) \<in> {lit ''eth''}"
  by (cases "pp_vlan_tag p"; simp add: eth_fields_def Let_def lit_def root_of_def)+

lemma ip_paths:
  "distinct (map fd_path (fst (ip_fields p s)))" "\<forall>f\<in>set (fst (ip_fields p s)). root_of (fd_path f) \<in> {lit ''ip'', lit ''ip6''}"
  by (cases "pp_ip_checksum p"; simp add: ip_fields_def lit_def root_of_def)+

lemma transport_paths:
  "distinct (map fd_path (transport_fields p s))" "\<forall>f\<in>set (transport_fields p s). root_of (fd_path f) \<in> {lit ''tcp'', lit ''udp''}"
  by (cases "pp_protocol p"; simp add: transport_fields_def Let_def lit_def root_of_def)+

lemma answer_path_digits:
  "takeWhile ascii_digit (show_nat i @ rest) = show_nat i" if "rest = [] \<or> hd rest = 0x2E"
  using show_nat_digits [of i] that by (cases rest) (auto simp: list_all_iff takeWhile_append ascii_digit_def)

lemma answer_paths: "distinct (map fd_path (answer_fields n i a))"
  by (simp add: answer_fields_def Let_def payload_leaf_def answer_base_def lit_def)

lemma answer_path_of:
  assumes "f \<in> set (answer_fields n i a)"
  obtains rest where "fd_path f = lit ''dns.answer.'' @ show_nat i @ rest" "rest = [] \<or> hd rest = 0x2E"
    "rest \<in> {[], lit ''.name'', lit ''.type'', lit ''.ttl'', lit ''.data'', lit ''.truncated''}"
  using assms that
  by (auto simp: answer_fields_def Let_def payload_leaf_def answer_base_def lit_def split: if_splits)

lemma answer_paths_disjoint:
  assumes "f \<in> set (answer_fields n i a)" "g \<in> set (answer_fields n j b)" "fd_path f = fd_path g"
  shows "i = j"
proof -
  obtain r where r: "fd_path f = lit ''dns.answer.'' @ show_nat i @ r" "r = [] \<or> hd r = 0x2E" using answer_path_of [OF assms(1)] by metis
  obtain s where s: "fd_path g = lit ''dns.answer.'' @ show_nat j @ s" "s = [] \<or> hd s = 0x2E" using answer_path_of [OF assms(2)] by metis
  from r(1) s(1) assms(3) have "show_nat i @ r = show_nat j @ s" by simp
  then have "show_nat i = show_nat j" using answer_path_digits [OF r(2), of i] answer_path_digits [OF s(2), of j] by simp
  then show ?thesis by (simp add: show_nat_inject)
qed

lemma all_answer_paths: "distinct (map fd_path (answer_loop n k answers))"
proof (induction answers arbitrary: k)
  case (Cons a answers)
  have "fd_path f \<noteq> fd_path g" if f: "f \<in> set (answer_fields n k a)" and g: "g \<in> set (answer_loop n (Suc k) answers)" for f g
  proof
    assume same: "fd_path f = fd_path g"
    obtain i where "g \<in> set (answer_fields n (Suc k + i) (answers ! i))" using g unfolding answer_loop_member by blast
    from answer_paths_disjoint [OF f this same] show False by simp
  qed
  with Cons.IH [of "Suc k"] show ?case by (auto simp: answer_paths)
qed simp

lemma answer_loop_paths:
  assumes "f \<in> set (answer_loop n k answers)"
  obtains rest where "fd_path f = lit ''dns.answer.'' @ rest"
  using assms unfolding answer_loop_member by (metis answer_path_of)

lemma other_paths: "take 11 path \<noteq> lit ''dns.answer.'' \<Longrightarrow> path \<notin> fd_path ` set (answer_loop n k answers)"
  by (auto elim!: answer_loop_paths simp: lit_def)

lemma app_paths: "distinct (map fd_path (app_fields l7 n k))"
proof (cases l7)
  case (HttpResponse status reason content_type content_length)
  then show ?thesis by (cases reason; cases content_type; cases content_length) (simp_all add: payload_leaf_def lit_def)
next
  case (DnsResponse query_name ident qtype rcode answer_count answers)
  show ?thesis
    using all_answer_paths [of n 0 answers]
    by (simp add: DnsResponse payload_leaf_def other_paths lit_def)
next
  case (TlsClientHello sni ja3 ja3_label client_random sni_offset sni_len)
  then show ?thesis by (cases ja3; cases ja3_label) (simp_all add: payload_leaf_def lit_def)
qed (simp_all add: payload_leaf_def lit_def)


lemma app_roots: "\<forall>f\<in>set (app_fields l7 n k). root_of (fd_path f) \<in> {lit ''http'', lit ''dns'', lit ''tls''}"
proof (cases l7)
  case (DnsResponse query_name ident qtype rcode answer_count answers)
  have "root_of (fd_path f) = lit ''dns''" if "f \<in> set (answer_loop n 0 answers)" for f
    using that by (auto elim!: answer_loop_paths simp: root_of_def lit_def)
  then show ?thesis by (cases "answers = []") (auto simp: DnsResponse payload_leaf_def root_of_def lit_def)
qed (auto simp: payload_leaf_def root_of_def lit_def split: option.splits)

text \<open>What request and response matching adds names paths of its own.\<close>

definition matching_paths :: "rstring set" where
  "matching_paths = {lit ''dns.time_us'', lit ''http.time_us'', lit ''dns.response_to'', lit ''http.response_to'', lit ''dns.response.duplicate''}"

lemma transaction_paths:
  "distinct (map fd_path (transaction_fields event))" "fd_path ` set (transaction_fields event) \<subseteq> matching_paths"
  by (cases event; auto simp: transaction_fields_def Let_def payload_leaf_def txn_group_def matching_paths_def lit_def
      split: option.splits txn_protocol.splits)+

lemma matching_roots: "path \<in> matching_paths \<Longrightarrow> root_of path \<in> {lit ''http'', lit ''dns'', lit ''tls''}"
  by (auto simp: matching_paths_def root_of_def lit_def)

lemma app_not_matching: "fd_path ` set (app_fields l7 n k) \<inter> matching_paths = {}"
proof (cases l7)
  case (HttpResponse status reason content_type content_length)
  then show ?thesis
    by (cases reason; cases content_type; cases content_length) (simp_all add: payload_leaf_def matching_paths_def lit_def)
next
  case (DnsResponse query_name ident qtype rcode answer_count answers)
  have "fd_path ` set (answer_loop n 0 answers) \<inter> matching_paths = {}"
    using other_paths [of _ n 0 answers] by (auto simp: matching_paths_def lit_def)
  then show ?thesis
    by (cases "answers = []") (simp_all add: DnsResponse payload_leaf_def Int_Un_distrib2 image_Un, simp_all add: matching_paths_def lit_def)
next
  case (TlsClientHello sni ja3 ja3_label client_random sni_offset sni_len)
  then show ?thesis by (cases ja3; cases ja3_label) (simp_all add: payload_leaf_def matching_paths_def lit_def)
qed (simp_all add: payload_leaf_def matching_paths_def lit_def)

text \<open>The fields of the headers, then those of the application layer, then those of the matching.\<close>

lemma event_paths:
  assumes "distinct (map fd_path app)" "\<forall>f\<in>set app. root_of (fd_path f) \<in> {lit ''http'', lit ''dns'', lit ''tls''}"
    and "fd_path ` set app \<inter> matching_paths = {}"
  shows "distinct (map fd_path (((if link = Ethernet then fst (eth_fields p) else []) @ fst (ip_fields p s) @ transport_fields p s' @ app)
    @ transaction_fields event))"
proof -
  let ?eth = "if link = Ethernet then fst (eth_fields p) else []"
  let ?app = "app @ transaction_fields event"
  have app: "distinct (map fd_path ?app)" using assms(1,3) transaction_paths [of event] by auto
  have app_root: "\<forall>f\<in>set ?app. root_of (fd_path f) \<in> {lit ''http'', lit ''dns'', lit ''tls''}"
    using assms(2) transaction_paths(2) [of event] matching_roots by (auto simp: image_subset_iff simp del: insert_iff)
  have transport: "distinct (map fd_path (transport_fields p s' @ ?app))"
    by (rule distinct_by_root [OF transport_paths(1) app transport_paths(2) app_root]) (simp add: lit_def)
  have transport_root: "\<forall>f\<in>set (transport_fields p s' @ ?app). root_of (fd_path f) \<in> {lit ''tcp'', lit ''udp'', lit ''http'', lit ''dns'', lit ''tls''}"
    using transport_paths(2) [of p s'] app_root by auto
  have ip: "distinct (map fd_path (fst (ip_fields p s) @ transport_fields p s' @ ?app))"
    by (rule distinct_by_root [OF ip_paths(1) transport ip_paths(2) transport_root]) (simp add: lit_def)
  have ip_root: "\<forall>f\<in>set (fst (ip_fields p s) @ transport_fields p s' @ ?app). root_of (fd_path f)
      \<in> {lit ''ip'', lit ''ip6'', lit ''tcp'', lit ''udp'', lit ''http'', lit ''dns'', lit ''tls''}"
    using ip_paths(2) [of p s] transport_root by auto
  have "distinct (map fd_path ?eth)" "\<forall>f\<in>set ?eth. root_of (fd_path f) \<in> {lit ''eth''}" using eth_paths [of p] by auto
  from distinct_by_root [OF this(1) ip this(2) ip_root] show ?thesis by (simp add: lit_def)
qed

lemma event_fields_distinct: "distinct (map fd_path (packet_event_fields p l7 link r event))"
proof (cases r)
  case True
  let ?app = "if pp_protocol p = Tcp \<and> is_dns_info l7 then map (\<lambda>f. f\<lparr>fd_offset := 0, fd_len := 0\<rparr>) (app_fields l7 0 0) else []"
  have paths: "map fd_path ?app = (if pp_protocol p = Tcp \<and> is_dns_info l7 then map fd_path (app_fields l7 0 0) else [])" by simp
  have "distinct (map fd_path ?app)" unfolding paths using app_paths by simp
  moreover have "\<forall>f\<in>set ?app. root_of (fd_path f) \<in> {lit ''http'', lit ''dns'', lit ''tls''}" using app_roots [of l7 0 0] by auto
  moreover have "fd_path ` set ?app \<inter> matching_paths = {}" using app_not_matching [of l7 0 0] by (auto simp: image_image)
  ultimately show ?thesis
    using event_paths [of ?app link p _ _ event] True
    by (simp only: packet_event_fields_def build_packet_fields_def build_fields_split if_True app_fields.simps append_Nil2 append_assoc)
next
  case False
  then show ?thesis
    using event_paths [OF app_paths app_roots app_not_matching, of link p]
    by (simp only: packet_event_fields_def build_packet_fields_def build_fields_split if_False append_assoc)
qed

text \<open>
  C15: Every packet event carries a well-formed field list, whatever the packet, the detected protocol and
  the outcome of the matching: no path occurs twice, each value has the shape its type announces (an
  integer a JSON number cannot carry exactly is its decimal text), every field of the packet that names a
  group has that group in the list, and when the application data was rebuilt from other frames no field
  claims bytes of this frame's payload.
\<close>

theorem packet_fields_well_formed:
  "distinct (map fd_path (packet_event_fields p l7 link l7_from_reassembly event)) \<and>
   list_all well_typed (packet_event_fields p l7 link l7_from_reassembly event) \<and>
   list_all (has_group (build_packet_fields p l7 link l7_from_reassembly)) (build_packet_fields p l7 link l7_from_reassembly) \<and>
   list_all (\<lambda>f. fd_region f = HeaderRegion \<or> fd_len f = 0) (build_packet_fields p l7 link True)"
proof (intro conjI)
  show "list_all well_typed (packet_event_fields p l7 link l7_from_reassembly event)"
    by (simp add: packet_event_fields_def packet_fields_typed transaction_typed)
  have "list_all (\<lambda>f. fd_region f = HeaderRegion) (fst (eth_fields p))"
    by (cases "pp_vlan_tag p") (simp_all add: eth_fields_def Let_def)
  moreover have "list_all (\<lambda>f. fd_region f = HeaderRegion) (fst (ip_fields p s))" for s
    by (cases "pp_ip_checksum p") (simp_all add: ip_fields_def)
  moreover have "list_all (\<lambda>f. fd_region f = HeaderRegion) (transport_fields p s)" for s
    by (simp add: transport_fields_def Let_def split: transport_protocol.split)
  ultimately show "list_all (\<lambda>f. fd_region f = HeaderRegion \<or> fd_len f = 0) (build_packet_fields p l7 link True)"
    by (auto simp: build_packet_fields_def build_fields_split list_all_iff)
qed (rule event_fields_distinct packet_fields_groups)+

end
