(* ===== verification/CaptureConfig.thy ===== *)
theory CaptureConfig
  imports StreamReassembler FlowTable Transaction
begin

text \<open>
  Changes to a running live capture (\<open>main.rs\<close>): a new filter, a new snap length, another interface. The
  session is the open handle and everything that has to agree with it. What libpcap answers is a parameter
  of each request; of a device and its link type only that they do not change while it is open.
\<close>

section \<open>Devices and handles\<close>

record pcap_device =
  dv_name :: rstring
  dv_addresses :: "rstring list"

record capture_handle =
  ch_device :: pcap_device
  ch_snaplen :: nat
  ch_filter :: rstring
  ch_datalink :: nat

text \<open>The link type of a device and libpcap's name of a link type.\<close>

record pcap_facts =
  px_datalink :: "pcap_device \<Rightarrow> nat"
  px_datalink_name :: "nat \<Rightarrow> rstring option"

text \<open>
  libpcap's answers while one request is handled: the list of devices, the error of opening a device with a
  snap length, the error of compiling a filter.
\<close>

record pcap_answers =
  pa_devices :: "rstring + pcap_device list"
  pa_open_error :: "pcap_device \<Rightarrow> nat \<Rightarrow> rstring option"
  pa_filter_error :: "capture_handle \<Rightarrow> rstring \<Rightarrow> rstring option"

definition find_device_by_name :: "pcap_device list \<Rightarrow> rstring \<Rightarrow> pcap_device option" where
  "find_device_by_name devices name = find (\<lambda>d. dv_name d = name) devices"

definition is_capturable :: "pcap_device \<Rightarrow> bool" where
  "is_capturable device \<longleftrightarrow> dv_addresses device \<noteq> []"

definition local_addrs_for :: "pcap_device \<Rightarrow> rstring list" where
  "local_addrs_for device = dv_addresses device"

definition datalink_to_link_type :: "pcap_facts \<Rightarrow> nat \<Rightarrow> link_type option" where
  "datalink_to_link_type px datalink =
     (if datalink = 1 then Some Ethernet
      else if datalink = 0 \<or> datalink = 108 then Some NullLoopback
      else if datalink = 101 then Some RawIp
      else if px_datalink_name px datalink = Some (lit ''RAW'') then Some RawIp
      else None)"

definition open_handle :: "pcap_facts \<Rightarrow> pcap_answers \<Rightarrow> pcap_device \<Rightarrow> nat \<Rightarrow> rstring + capture_handle" where
  "open_handle px pa device snaplen =
     (case pa_open_error pa device snaplen of
        Some e \<Rightarrow> Inl e
      | None \<Rightarrow> Inr \<lparr>ch_device = device, ch_snaplen = snaplen, ch_filter = [], ch_datalink = px_datalink px device\<rparr>)"

definition handle_filter :: "pcap_answers \<Rightarrow> rstring \<Rightarrow> capture_handle \<Rightarrow> rstring + capture_handle" where
  "handle_filter pa expr cap =
     (case pa_filter_error pa cap expr of Some e \<Rightarrow> Inl e | None \<Rightarrow> Inr (cap\<lparr>ch_filter := expr\<rparr>))"

section \<open>The session\<close>

definition max_capture_filter_len :: nat where "max_capture_filter_len = 1024"
definition default_snaplen :: nat where "default_snaplen = 65535"
definition max_interface_name_len :: nat where "max_interface_name_len = 256"

record capture_config =
  cc_filter :: "rstring option"
  cc_snaplen :: nat

datatype config_request = SetFilter rstring | SetSnaplen nat | SwitchInterface rstring

text \<open>Why a request is refused; the texts of the messages are not modelled.\<close>

datatype config_refusal =
    FilterTooLong nat | InvalidFilter rstring
  | SnaplenOutOfRange nat | SnaplenZero | SnaplenNotOpened nat rstring | FilterNotReapplied nat rstring
  | NameTooLong nat | NoDeviceList rstring | NoSuchInterface rstring | NoAddress rstring
  | InterfaceNotOpened rstring rstring | UnknownLinkType rstring | NotDuringReplay

datatype config_event =
    CaptureConfigError config_refusal | CaptureConfigEvent capture_config
  | InterfaceError config_refusal | ConnectionClosed rstring | InterfaceChanged rstring rstring

record capture_session =
  cs_cap :: capture_handle
  cs_device :: pcap_device
  cs_link_type :: link_type
  cs_local_addrs :: "rstring list"
  cs_current_interface :: "rstring \<times> rstring"
  cs_current_link_type :: link_type
  cs_config :: capture_config
  cs_flow_table :: flow_table
  cs_reassembly :: stream_reassembler
  cs_transactions :: transaction_tracker
  cs_events :: "config_event list"

definition send_event :: "config_event \<Rightarrow> capture_session \<Rightarrow> capture_session" where
  "send_event e s = s\<lparr>cs_events := cs_events s @ [e]\<rparr>"

definition validate_capture_filter_len :: "rstring \<Rightarrow> config_refusal option" where
  "validate_capture_filter_len filter_text =
     (if length filter_text > max_capture_filter_len then Some (FilterTooLong (length filter_text)) else None)"

definition validate_snaplen :: "nat \<Rightarrow> config_refusal + nat" where
  "validate_snaplen n =
     (if n > 2 ^ 31 - 1 then Inl (SnaplenOutOfRange n) else if n = 0 then Inl SnaplenZero else Inr n)"

definition validate_interface_name_len :: "rstring \<Rightarrow> config_refusal option" where
  "validate_interface_name_len name =
     (if length name > max_interface_name_len then Some (NameTooLong (length name)) else None)"

definition apply_set_filter :: "pcap_answers \<Rightarrow> rstring \<Rightarrow> capture_session \<Rightarrow> capture_session" where
  "apply_set_filter pa filter_text s =
     (case validate_capture_filter_len filter_text of
        Some why \<Rightarrow> send_event (CaptureConfigError why) s
      | None \<Rightarrow>
          (case handle_filter pa filter_text (cs_cap s) of
             Inl e \<Rightarrow> send_event (CaptureConfigError (InvalidFilter e)) s
           | Inr cap \<Rightarrow>
               let config = (cs_config s)\<lparr>cc_filter := (if filter_text = [] then None else Some filter_text)\<rparr>
               in send_event (CaptureConfigEvent config) (s\<lparr>cs_cap := cap, cs_config := config\<rparr>)))"

definition apply_set_snaplen :: "pcap_facts \<Rightarrow> pcap_answers \<Rightarrow> nat \<Rightarrow> capture_session \<Rightarrow> capture_session" where
  "apply_set_snaplen px pa n s =
     (case validate_snaplen n of
        Inl why \<Rightarrow> send_event (CaptureConfigError why) s
      | Inr snaplen \<Rightarrow>
          (case open_handle px pa (cs_device s) snaplen of
             Inl e \<Rightarrow> send_event (CaptureConfigError (SnaplenNotOpened n e)) s
           | Inr new_cap \<Rightarrow>
               (case (case cc_filter (cs_config s) of
                        Some expr \<Rightarrow> handle_filter pa expr new_cap
                      | None \<Rightarrow> Inr new_cap) of
                  Inl e \<Rightarrow> send_event (CaptureConfigError (FilterNotReapplied n e)) s
                | Inr cap \<Rightarrow>
                    let config = (cs_config s)\<lparr>cc_snaplen := n\<rparr>
                    in send_event (CaptureConfigEvent config) (s\<lparr>cs_cap := cap, cs_config := config\<rparr>))))"

text \<open>\<open>apply_capture_config_request\<close>; the capture loop never passes it an interface switch.\<close>

fun apply_capture_config_request ::
  "pcap_facts \<Rightarrow> pcap_answers \<Rightarrow> config_request \<Rightarrow> capture_session \<Rightarrow> capture_session option" where
  "apply_capture_config_request px pa (SetFilter filter_text) s = Some (apply_set_filter pa filter_text s)"
| "apply_capture_config_request px pa (SetSnaplen n) s = Some (apply_set_snaplen px pa n s)"
| "apply_capture_config_request px pa (SwitchInterface _) s = None"

definition install_interface ::
  "rstring \<Rightarrow> pcap_device \<Rightarrow> capture_handle \<Rightarrow> link_type \<Rightarrow> capture_session \<Rightarrow> capture_session" where
  "install_interface name device new_cap new_link_type s =
     (let addrs = local_addrs_for device;
          ip_address = (case addrs of [] \<Rightarrow> [] | a # _ \<Rightarrow> a);
          (closed, ft) = ft_reset addrs (cs_flow_table s)
      in s\<lparr>cs_cap := new_cap, cs_device := device, cs_link_type := new_link_type, cs_local_addrs := addrs,
           cs_current_interface := (name, ip_address), cs_current_link_type := new_link_type,
           cs_config := \<lparr>cc_filter = None, cc_snaplen = default_snaplen\<rparr>,
           cs_flow_table := ft, cs_reassembly := sr_reset (cs_reassembly s),
           cs_transactions := tracker_reset (cs_transactions s),
           cs_events := cs_events s @ map (\<lambda>k. ConnectionClosed (connection_id k)) closed @ [InterfaceChanged name ip_address]\<rparr>)"

definition apply_interface_switch_request ::
  "pcap_facts \<Rightarrow> pcap_answers \<Rightarrow> rstring \<Rightarrow> capture_session \<Rightarrow> capture_session" where
  "apply_interface_switch_request px pa name s =
     (case validate_interface_name_len name of
        Some why \<Rightarrow> send_event (InterfaceError why) s
      | None \<Rightarrow>
          (case pa_devices pa of
             Inl e \<Rightarrow> send_event (InterfaceError (NoDeviceList e)) s
           | Inr devices \<Rightarrow>
               (case find_device_by_name devices name of
                  None \<Rightarrow> send_event (InterfaceError (NoSuchInterface name)) s
                | Some device \<Rightarrow>
                    if \<not> is_capturable device then send_event (InterfaceError (NoAddress name)) s
                    else
                      (case open_handle px pa device default_snaplen of
                         Inl e \<Rightarrow> send_event (InterfaceError (InterfaceNotOpened name e)) s
                       | Inr new_cap \<Rightarrow>
                           (case datalink_to_link_type px (ch_datalink new_cap) of
                              None \<Rightarrow> send_event (InterfaceError (UnknownLinkType name)) s
                            | Some new_link_type \<Rightarrow> install_interface name device new_cap new_link_type s)))))"

text \<open>One request taken from the queue by the capture loop.\<close>

definition handle_request :: "pcap_facts \<Rightarrow> pcap_answers \<Rightarrow> bool \<Rightarrow> config_request \<Rightarrow> capture_session \<Rightarrow> capture_session option" where
  "handle_request px pa live request s =
     (if live then
        (case request of
           SwitchInterface name \<Rightarrow> Some (apply_interface_switch_request px pa name s)
         | _ \<Rightarrow> apply_capture_config_request px pa request s)
      else Some (send_event
        (case request of
           SwitchInterface _ \<Rightarrow> InterfaceError NotDuringReplay
         | _ \<Rightarrow> CaptureConfigError NotDuringReplay) s))"

text \<open>The session a live capture starts with, once a device was found; \<open>None\<close> where the agent refuses to start.\<close>

definition live_session ::
  "pcap_facts \<Rightarrow> pcap_answers \<Rightarrow> nat \<Rightarrow> service_time_stats \<Rightarrow> pcap_device \<Rightarrow> capture_session option" where
  "live_session px pa max_flows stats device =
     (case open_handle px pa device default_snaplen of
        Inl _ \<Rightarrow> None
      | Inr cap \<Rightarrow>
          (case datalink_to_link_type px (ch_datalink cap) of
             None \<Rightarrow> None
           | Some link \<Rightarrow>
               let addrs = local_addrs_for device in
               Some \<lparr>cs_cap = cap, cs_device = device, cs_link_type = link, cs_local_addrs = addrs,
                 cs_current_interface = (dv_name device, case addrs of [] \<Rightarrow> [] | a # _ \<Rightarrow> a),
                 cs_current_link_type = link, cs_config = \<lparr>cc_filter = None, cc_snaplen = default_snaplen\<rparr>,
                 cs_flow_table = flow_table_new_with_capacity addrs max_flows,
                 cs_reassembly = stream_reassembler_new, cs_transactions = tracker_new stats, cs_events = []\<rparr>))"

text \<open>Requests, and in between traffic, which may do anything to the tables but change the local addresses.\<close>

inductive session_reachable :: "pcap_facts \<Rightarrow> capture_session \<Rightarrow> bool" for px where
  opened: "live_session px pa max_flows stats device = Some s \<Longrightarrow> session_reachable px s"
| request: "session_reachable px s \<Longrightarrow> handle_request px pa True request s = Some s' \<Longrightarrow> session_reachable px s'"
| traffic: "session_reachable px s \<Longrightarrow> ft_local_addrs ft = ft_local_addrs (cs_flow_table s) \<Longrightarrow>
    session_reachable px (s\<lparr>cs_flow_table := ft, cs_reassembly := sr, cs_transactions := tt\<rparr>)"

section \<open>Never half applied\<close>

text \<open>What the agent says about its capture is what the handle does.\<close>

definition session_coherent :: "pcap_facts \<Rightarrow> capture_session \<Rightarrow> bool" where
  "session_coherent px s \<longleftrightarrow>
     ch_filter (cs_cap s) = (case cc_filter (cs_config s) of None \<Rightarrow> [] | Some f \<Rightarrow> f) \<and>
     ch_snaplen (cs_cap s) = cc_snaplen (cs_config s) \<and>
     ch_device (cs_cap s) = cs_device s \<and>
     ch_datalink (cs_cap s) = px_datalink px (cs_device s) \<and>
     datalink_to_link_type px (px_datalink px (cs_device s)) = Some (cs_link_type s) \<and>
     cs_current_link_type s = cs_link_type s \<and>
     cs_local_addrs s = dv_addresses (cs_device s) \<and>
     ft_local_addrs (cs_flow_table s) = cs_local_addrs s \<and>
     cs_current_interface s = (dv_name (cs_device s), case cs_local_addrs s of [] \<Rightarrow> [] | a # _ \<Rightarrow> a)"

text \<open>A request that is refused: nothing but one error event.\<close>

definition refused :: "capture_session \<Rightarrow> capture_session \<Rightarrow> bool" where
  "refused s s' \<longleftrightarrow>
     (\<exists>why. s' = send_event (CaptureConfigError why) s \<or> s' = send_event (InterfaceError why) s)"

text \<open>A request that is granted, and what it leaves as it was.\<close>

definition grant_config :: "capture_handle \<Rightarrow> capture_config \<Rightarrow> capture_session \<Rightarrow> capture_session" where
  "grant_config cap config s = send_event (CaptureConfigEvent config) (s\<lparr>cs_cap := cap, cs_config := config\<rparr>)"

fun granted :: "config_request \<Rightarrow> capture_session \<Rightarrow> capture_session \<Rightarrow> bool" where
  "granted (SetFilter f) s s' \<longleftrightarrow>
     length f \<le> max_capture_filter_len \<and>
     s' = grant_config ((cs_cap s)\<lparr>ch_filter := f\<rparr>) ((cs_config s)\<lparr>cc_filter := (if f = [] then None else Some f)\<rparr>) s"
| "granted (SetSnaplen n) s s' \<longleftrightarrow>
     0 < n \<and> n < 2 ^ 31 \<and> s' = grant_config ((cs_cap s)\<lparr>ch_snaplen := n\<rparr>) ((cs_config s)\<lparr>cc_snaplen := n\<rparr>) s"
| "granted (SwitchInterface name) s s' \<longleftrightarrow>
     fst (cs_current_interface s') = name \<and> cs_local_addrs s' \<noteq> [] \<and>
     cs_config s' = \<lparr>cc_filter = None, cc_snaplen = default_snaplen\<rparr> \<and>
     ft_flows (cs_flow_table s') = [] \<and> cs_reassembly s' = sr_reset (cs_reassembly s) \<and>
     cs_transactions s' = tracker_reset (cs_transactions s) \<and>
     cs_events s' = cs_events s @ map (\<lambda>(k, _). ConnectionClosed (connection_id k)) (ft_flows (cs_flow_table s)) @
       [InterfaceChanged name (snd (cs_current_interface s'))]"

lemma coherent_grant:
  assumes "session_coherent px s" "ch_filter cap = (case cc_filter config of None \<Rightarrow> [] | Some f \<Rightarrow> f)"
    and "ch_snaplen cap = cc_snaplen config" "ch_device cap = ch_device (cs_cap s)" "ch_datalink cap = ch_datalink (cs_cap s)"
  shows "session_coherent px (grant_config cap config s)"
  using assms unfolding session_coherent_def grant_config_def send_event_def by simp

lemma coherent_parts:
  assumes "session_coherent px s"
  shows "ch_filter (cs_cap s) = (case cc_filter (cs_config s) of None \<Rightarrow> [] | Some f \<Rightarrow> f)"
    "ch_snaplen (cs_cap s) = cc_snaplen (cs_config s)" "ch_device (cs_cap s) = cs_device s"
    "ch_datalink (cs_cap s) = px_datalink px (cs_device s)"
  using assms unfolding session_coherent_def by simp_all

lemma refused_events: "refused s (send_event (CaptureConfigError why) s)" "refused s (send_event (InterfaceError why) s)"
  by (auto simp: refused_def)

lemma set_filter_outcome:
  assumes "session_coherent px s"
  shows "refused s (apply_set_filter pa f s) \<or>
    granted (SetFilter f) s (apply_set_filter pa f s) \<and> session_coherent px (apply_set_filter pa f s)"
proof (cases "length f \<le> max_capture_filter_len \<and> pa_filter_error pa (cs_cap s) f = None")
  case True
  then have "apply_set_filter pa f s =
      grant_config ((cs_cap s)\<lparr>ch_filter := f\<rparr>) ((cs_config s)\<lparr>cc_filter := (if f = [] then None else Some f)\<rparr>) s"
    by (simp add: apply_set_filter_def handle_filter_def validate_capture_filter_len_def grant_config_def Let_def)
  moreover have "session_coherent px (grant_config ((cs_cap s)\<lparr>ch_filter := f\<rparr>)
      ((cs_config s)\<lparr>cc_filter := (if f = [] then None else Some f)\<rparr>) s)"
    using assms by (rule coherent_grant) (simp_all add: coherent_parts(2) [OF assms])
  ultimately show ?thesis using True by simp
next
  case False
  then show ?thesis
    by (auto simp: apply_set_filter_def handle_filter_def validate_capture_filter_len_def refused_events split: option.splits)
qed

lemma set_snaplen_outcome:
  assumes "session_coherent px s"
  shows "refused s (apply_set_snaplen px pa n s) \<or>
    granted (SetSnaplen n) s (apply_set_snaplen px pa n s) \<and> session_coherent px (apply_set_snaplen px pa n s)"
proof -
  let ?new = "\<lparr>ch_device = cs_device s, ch_snaplen = n, ch_filter = [], ch_datalink = px_datalink px (cs_device s)\<rparr>"
  let ?filtered = "case cc_filter (cs_config s) of Some expr \<Rightarrow> handle_filter pa expr ?new | None \<Rightarrow> Inr ?new"
  have cap: "cap = (cs_cap s)\<lparr>ch_snaplen := n\<rparr>" if "?filtered = Inr cap" for cap
    using that coherent_parts [OF assms] by (cases "cs_cap s") (auto simp: handle_filter_def split: option.splits)
  have "session_coherent px (grant_config ((cs_cap s)\<lparr>ch_snaplen := n\<rparr>) ((cs_config s)\<lparr>cc_snaplen := n\<rparr>) s)"
    using assms by (rule coherent_grant) (simp_all add: coherent_parts(1) [OF assms])
  then have "granted (SetSnaplen n) s (grant_config cap ((cs_config s)\<lparr>cc_snaplen := n\<rparr>) s) \<and>
      session_coherent px (grant_config cap ((cs_config s)\<lparr>cc_snaplen := n\<rparr>) s)"
    if "?filtered = Inr cap" "0 < n" "n < 2 ^ 31" for cap
    using that cap [OF that(1)] by simp
  then show ?thesis
    by (auto simp: apply_set_snaplen_def open_handle_def validate_snaplen_def refused_events Let_def grant_config_def [symmetric]
        simp del: granted.simps split: option.splits sum.splits if_splits)
qed

lemma found_device: "find_device_by_name devices name = Some device \<Longrightarrow> dv_name device = name"
  by (auto simp: find_device_by_name_def find_Some_iff)

lemma install_outcome:
  assumes "dv_name device = name" "is_capturable device" "open_handle px pa device default_snaplen = Inr cap"
    and "datalink_to_link_type px (ch_datalink cap) = Some link"
  shows "granted (SwitchInterface name) s (install_interface name device cap link s) \<and>
    session_coherent px (install_interface name device cap link s)"
proof -
  have cap: "cap = \<lparr>ch_device = device, ch_snaplen = default_snaplen, ch_filter = [], ch_datalink = px_datalink px device\<rparr>"
    using assms(3) by (simp add: open_handle_def split: option.splits)
  show ?thesis
    using assms(1,2,4)
    by (simp add: cap install_interface_def ft_reset_def session_coherent_def is_capturable_def local_addrs_for_def
        Let_def case_prod_beta comp_def)
qed

lemma switch_outcome:
  "refused s (apply_interface_switch_request px pa name s) \<or>
    granted (SwitchInterface name) s (apply_interface_switch_request px pa name s) \<and>
    session_coherent px (apply_interface_switch_request px pa name s)"
proof (cases "\<exists>why. apply_interface_switch_request px pa name s = send_event (InterfaceError why) s")
  case True
  then show ?thesis by (auto simp: refused_events)
next
  case False
  then obtain devices device cap link where "find_device_by_name devices name = Some device" "is_capturable device"
    "open_handle px pa device default_snaplen = Inr cap" "datalink_to_link_type px (ch_datalink cap) = Some link"
    "apply_interface_switch_request px pa name s = install_interface name device cap link s"
    by (auto simp: apply_interface_switch_request_def split: option.splits sum.splits if_splits)
  with install_outcome [OF found_device] show ?thesis by metis
qed

lemma refused_coherent: "refused s s' \<Longrightarrow> session_coherent px s \<Longrightarrow> session_coherent px s'"
  unfolding refused_def send_event_def session_coherent_def by (elim exE disjE) simp_all

lemma request_outcome:
  assumes "session_coherent px s" "handle_request px pa True request s = Some s'"
  shows "session_coherent px s' \<and> (refused s s' \<or> granted request s s')"
proof (cases request)
  case (SetFilter f)
  with assms(2) have "s' = apply_set_filter pa f s" by (simp add: handle_request_def)
  with SetFilter set_filter_outcome [OF assms(1), of pa f] refused_coherent [OF _ assms(1)] show ?thesis by metis
next
  case (SetSnaplen n)
  with assms(2) have "s' = apply_set_snaplen px pa n s" by (simp add: handle_request_def)
  with SetSnaplen set_snaplen_outcome [OF assms(1), of pa n] refused_coherent [OF _ assms(1)] show ?thesis by metis
next
  case (SwitchInterface name)
  with assms(2) have "s' = apply_interface_switch_request px pa name s" by (simp add: handle_request_def)
  with SwitchInterface switch_outcome [of s px pa name] refused_coherent [OF _ assms(1)] show ?thesis by metis
qed

lemma session_reachable_coherent: "session_reachable px s \<Longrightarrow> session_coherent px s"
proof (induction rule: session_reachable.induct)
  case (opened pa max_flows stats device s)
  then show ?case
    by (auto simp: live_session_def open_handle_def session_coherent_def local_addrs_for_def Let_def
        flow_table_new_with_capacity_def split: option.splits sum.splits)
next
  case (request s pa req s')
  then show ?case using request_outcome by blast
next
  case (traffic s ft sr tt)
  from traffic(3,2) show ?case unfolding session_coherent_def by simp
qed

text \<open>
  C12: At every moment of a live capture what the agent reports and works with (filter, snap length,
  interface, link type, local addresses) is what the open handle does, and a request to change it is always
  handled: it is either granted as a whole, leaving the rest alone, so that a new snap length keeps the
  filter and an interface switch closes every flow and starts the tables anew, or refused with one error
  and no other effect.
\<close>

theorem capture_requests_all_or_nothing:
  assumes "session_reachable px s"
  shows "session_coherent px s \<and>
    (\<exists>s'. handle_request px pa True request s = Some s' \<and> (refused s s' \<or> granted request s s'))"
proof -
  have ok: "session_coherent px s" using assms by (rule session_reachable_coherent)
  obtain s' where "handle_request px pa True request s = Some s'" by (cases request) (auto simp: handle_request_def)
  with ok request_outcome [OF ok] show ?thesis by blast
qed

definition demo_device :: pcap_device where
  "demo_device = \<lparr>dv_name = lit ''en0'', dv_addresses = [lit ''10.0.0.5'']\<rparr>"

definition demo_facts :: pcap_facts where
  "demo_facts = \<lparr>px_datalink = (\<lambda>_. 1), px_datalink_name = (\<lambda>_. None)\<rparr>"

definition demo_answers :: pcap_answers where
  "demo_answers = \<lparr>pa_devices = Inr [demo_device], pa_open_error = (\<lambda>_ _. None), pa_filter_error = (\<lambda>_ _. None)\<rparr>"

theorem capture_requests_all_or_nothing_witness:
  "\<exists>s s'. live_session demo_facts demo_answers 5 service_time_stats_default demo_device = Some s \<and> session_coherent demo_facts s \<and>
     handle_request demo_facts demo_answers True (SetFilter (lit ''tcp'')) s = Some s' \<and>
     (refused s s' \<or> granted (SetFilter (lit ''tcp'')) s s')"
proof -
  have "live_session demo_facts demo_answers 5 service_time_stats_default demo_device \<noteq> None"
    by (simp add: live_session_def demo_facts_def demo_answers_def open_handle_def datalink_to_link_type_def Let_def)
  then obtain s where s: "live_session demo_facts demo_answers 5 service_time_stats_default demo_device = Some s" by blast
  show ?thesis
    using s capture_requests_all_or_nothing [OF session_reachable.opened [OF s], of demo_answers "SetFilter (lit ''tcp'')"] by blast
qed

end
