(* ===== verification/ControlAuth.thy ===== *)
theory ControlAuth
  imports RustStr
begin

text \<open>
  Who may control the agent (\<open>control_auth.rs\<close> and the accept loop of \<open>main.rs\<close>): the check of a peer's
  first line against the token of this launch, the budgets for peers that wait and peers that are served,
  and the file the token is published in. HMAC-SHA256, hexadecimal coding and the JSON decoder are
  parameters, as are the answers of the operating system.
\<close>

section \<open>The token\<close>

record auth_ops =
  ao_hex_encode :: "byte list \<Rightarrow> rstring"
  ao_hex_decode :: "rstring \<Rightarrow> byte list option"
  ao_hmac :: "byte list \<Rightarrow> byte list \<Rightarrow> byte list"
  ao_authenticate :: "byte list \<Rightarrow> rstring option"

type_synonym agent_token = "byte list"

definition to_hex :: "auth_ops \<Rightarrow> agent_token \<Rightarrow> rstring" where
  "to_hex ops token = ao_hex_encode ops token"

definition lower_hex_digit :: "byte \<Rightarrow> bool" where
  "lower_hex_digit b \<longleftrightarrow> ascii_digit b \<or> (0x61 \<le> b \<and> b \<le> 0x66)"

definition auth_domain :: "byte list" where
  "auth_domain = lit ''network-monitor-agent-auth-v1''"

definition matches_hex :: "auth_ops \<Rightarrow> agent_token \<Rightarrow> rstring \<Rightarrow> bool" where
  "matches_hex ops token candidate_text =
     (if length candidate_text \<noteq> 64 \<or> \<not> list_all lower_hex_digit candidate_text then False
      else case ao_hex_decode ops candidate_text of
        None \<Rightarrow> False
      | Some candidate \<Rightarrow>
          if length candidate \<noteq> 32 then False
          else let tag = ao_hmac ops token auth_domain in ao_hmac ops candidate auth_domain = tag)"

section \<open>The first line of a peer\<close>

text \<open>
  What the socket answers to a read: bytes (none at the end of the stream) or an error. A reader holds the
  bytes it has buffered and the answers that come within the time limit.
\<close>

datatype read_answer = ReadBytes "byte list" | ReadError

record peer_reader =
  rd_buffer :: "byte list"
  rd_incoming :: "read_answer list"

datatype auth_error = UnsafeCredential | ReadFailed | AuthTimedOut

definition auth_line_limit :: nat where "auth_line_limit = 256"

text \<open>\<open>BufReader::fill_buf\<close>: \<open>AuthTimedOut\<close> when nothing more comes in time.\<close>

definition fill_buf :: "peer_reader \<Rightarrow> auth_error + peer_reader" where
  "fill_buf rd =
     (if rd_buffer rd \<noteq> [] then Inr rd
      else case rd_incoming rd of
        [] \<Rightarrow> Inl AuthTimedOut
      | ReadError # _ \<Rightarrow> Inl ReadFailed
      | ReadBytes bs # rest \<Rightarrow> Inr \<lparr>rd_buffer = bs, rd_incoming = rest\<rparr>)"

definition consume :: "nat \<Rightarrow> peer_reader \<Rightarrow> peer_reader" where
  "consume n rd = rd\<lparr>rd_buffer := drop n (rd_buffer rd)\<rparr>"

definition reader_measure :: "peer_reader \<Rightarrow> nat" where
  "reader_measure rd = 2 * length (rd_incoming rd) + (if rd_buffer rd = [] then 0 else 1)"

lemma fill_buf_incoming:
  "fill_buf rd = Inr rd' \<Longrightarrow> rd_buffer rd' \<noteq> [] \<Longrightarrow> 2 * length (rd_incoming rd') < reader_measure rd"
  by (auto simp: fill_buf_def reader_measure_def split: if_splits list.splits read_answer.splits)

function read_auth_line :: "byte list \<Rightarrow> peer_reader \<Rightarrow> auth_error + byte list \<times> peer_reader" where
  "read_auth_line line rd =
     (case fill_buf rd of
        Inl e \<Rightarrow> Inl e
      | Inr rd1 \<Rightarrow>
          let available = rd_buffer rd1
          in if available = [] then Inl UnsafeCredential
             else
               let newline = position (\<lambda>b. b = 0x0A) available;
                   amount = (case newline of None \<Rightarrow> length available | Some n \<Rightarrow> n + 1)
               in if length line + amount > auth_line_limit then Inl UnsafeCredential
                  else
                    let line1 = line @ take amount available;
                        rd2 = consume amount rd1
                    in (case newline of Some _ \<Rightarrow> Inr (line1, rd2) | None \<Rightarrow> read_auth_line line1 rd2))"
  by pat_completeness auto
termination
proof (relation "measure (\<lambda>(line, rd). reader_measure rd)", goal_cases)
  case (2 line rd rd1 available newline amount line1 rd2)
  then have "2 * length (rd_incoming rd1) < reader_measure rd" by (auto intro: fill_buf_incoming)
  then show ?case using 2 by (simp add: consume_def reader_measure_def)
qed simp

declare read_auth_line.simps [simp del]

definition verify_peer :: "auth_ops \<Rightarrow> agent_token \<Rightarrow> peer_reader \<Rightarrow> auth_error + peer_reader" where
  "verify_peer ops token rd =
     (case read_auth_line [] rd of
        Inl e \<Rightarrow> Inl e
      | Inr (line, rd1) \<Rightarrow>
          (case ao_authenticate ops line of
             None \<Rightarrow> Inl UnsafeCredential
           | Some candidate \<Rightarrow> if matches_hex ops token candidate then Inr rd1 else Inl UnsafeCredential))"

section \<open>Admission\<close>

record admission =
  ad_pending :: nat
  ad_authenticated :: nat

definition admission_new :: admission where
  "admission_new = \<lparr>ad_pending = 16, ad_authenticated = 64\<rparr>"

text \<open>A permit taken is one less; \<open>None\<close> when there is none. Dropping a permit gives it back.\<close>

definition try_pending :: "admission \<Rightarrow> admission option" where
  "try_pending a = (if ad_pending a = 0 then None else Some (a\<lparr>ad_pending := ad_pending a - 1\<rparr>))"

definition try_authenticated :: "admission \<Rightarrow> admission option" where
  "try_authenticated a = (if ad_authenticated a = 0 then None else Some (a\<lparr>ad_authenticated := ad_authenticated a - 1\<rparr>))"

definition drop_pending :: "admission \<Rightarrow> admission" where
  "drop_pending a = a\<lparr>ad_pending := ad_pending a + 1\<rparr>"

definition drop_authenticated :: "admission \<Rightarrow> admission" where
  "drop_authenticated a = a\<lparr>ad_authenticated := ad_authenticated a + 1\<rparr>"

text \<open>
  The task of one peer: its token is being checked, its acknowledgement is being written, or its control
  lines are read. \<open>pt_sent\<close> is what its socket delivers.
\<close>

datatype peer_phase = Verifying | Acknowledging | Serving

record peer_task =
  pt_sent :: peer_reader
  pt_reader :: peer_reader
  pt_phase :: peer_phase

record control_listener =
  cl_admission :: admission
  cl_peers :: "(nat \<times> peer_task) list"

definition listener_new :: control_listener where
  "listener_new = \<lparr>cl_admission = admission_new, cl_peers = []\<rparr>"

definition accept_peer :: "nat \<Rightarrow> peer_reader \<Rightarrow> control_listener \<Rightarrow> control_listener" where
  "accept_peer i sent cl =
     (case try_pending (cl_admission cl) of
        None \<Rightarrow> cl
      | Some a \<Rightarrow>
          cl\<lparr>cl_admission := a,
             cl_peers := AList.update i \<lparr>pt_sent = sent, pt_reader = sent, pt_phase = Verifying\<rparr> (cl_peers cl)\<rparr>)"

definition close_peer :: "nat \<Rightarrow> control_listener \<Rightarrow> control_listener" where
  "close_peer i cl = cl\<lparr>cl_peers := AList.delete i (cl_peers cl)\<rparr>"

definition peer_verified :: "auth_ops \<Rightarrow> agent_token \<Rightarrow> nat \<Rightarrow> peer_task \<Rightarrow> control_listener \<Rightarrow> control_listener" where
  "peer_verified ops token i t cl =
     (case verify_peer ops token (pt_reader t) of
        Inl _ \<Rightarrow> (close_peer i cl)\<lparr>cl_admission := drop_pending (cl_admission cl)\<rparr>
      | Inr rd \<Rightarrow>
          (case try_authenticated (cl_admission cl) of
             None \<Rightarrow> (close_peer i cl)\<lparr>cl_admission := drop_pending (cl_admission cl)\<rparr>
           | Some a \<Rightarrow>
               cl\<lparr>cl_admission := a,
                  cl_peers := AList.update i (t\<lparr>pt_reader := rd, pt_phase := Acknowledging\<rparr>) (cl_peers cl)\<rparr>))"

definition peer_acknowledged :: "bool \<Rightarrow> nat \<Rightarrow> peer_task \<Rightarrow> control_listener \<Rightarrow> control_listener" where
  "peer_acknowledged written i t cl =
     (if \<not> written
      then (close_peer i cl)\<lparr>cl_admission := drop_pending (drop_authenticated (cl_admission cl))\<rparr>
      else cl\<lparr>cl_admission := drop_pending (cl_admission cl),
              cl_peers := AList.update i (t\<lparr>pt_phase := Serving\<rparr>) (cl_peers cl)\<rparr>)"

definition peer_done :: "nat \<Rightarrow> control_listener \<Rightarrow> control_listener" where
  "peer_done i cl = (close_peer i cl)\<lparr>cl_admission := drop_authenticated (cl_admission cl)\<rparr>"

text \<open>The tasks run in any order.\<close>

inductive control_step :: "auth_ops \<Rightarrow> agent_token \<Rightarrow> control_listener \<Rightarrow> control_listener \<Rightarrow> bool" for ops token where
  accepted: "i \<notin> fst ` set (cl_peers cl) \<Longrightarrow> control_step ops token cl (accept_peer i sent cl)"
| verified: "map_of (cl_peers cl) i = Some t \<Longrightarrow> pt_phase t = Verifying \<Longrightarrow>
    control_step ops token cl (peer_verified ops token i t cl)"
| acknowledged: "map_of (cl_peers cl) i = Some t \<Longrightarrow> pt_phase t = Acknowledging \<Longrightarrow>
    control_step ops token cl (peer_acknowledged written i t cl)"
| finished: "map_of (cl_peers cl) i = Some t \<Longrightarrow> pt_phase t = Serving \<Longrightarrow> control_step ops token cl (peer_done i cl)"

inductive control_reachable :: "auth_ops \<Rightarrow> agent_token \<Rightarrow> control_listener \<Rightarrow> bool" for ops token where
  start: "control_reachable ops token listener_new"
| step: "control_reachable ops token cl \<Longrightarrow> control_step ops token cl cl' \<Longrightarrow> control_reachable ops token cl'"

section \<open>The published token\<close>

datatype file_kind = RegularFile | DirectoryFile | OtherFile

record file_stat =
  st_uid :: nat
  st_kind :: file_kind
  st_perm :: nat
  st_nlink :: nat
  st_id :: "nat \<times> nat"

type_synonym directory = "(byte list \<times> file_stat \<times> byte list) list"

datatype publish_error = UnsafeEntry | OsError | NonceFailed

datatype publish_step = OpenDir | StatDir | StatTarget | DrawNonce | CreateTemp | ChmodTemp | WriteToken
  | WriteNewline | SyncTemp | StatTemp | RestatTarget | RenameTemp | UnlinkTemp

text \<open>
  What the system does: which calls fail, who the process is, what \<open>fstat\<close> says of the directory, the
  nonce, the identity and permissions a new file gets, how much of a failing write reaches the file, and
  what other processes do to the directory before the target is looked at again.
\<close>

record publish_env =
  pe_fails :: "publish_step \<Rightarrow> bool"
  pe_euid :: nat
  pe_dir_stat :: file_stat
  pe_nonce :: "byte list"
  pe_new_id :: "nat \<times> nat"
  pe_new_perm :: nat
  pe_written :: nat
  pe_meanwhile :: "directory \<Rightarrow> directory"

datatype stat_result = Found file_stat | NotFound | StatFailed

definition stat_at :: "bool \<Rightarrow> directory \<Rightarrow> byte list \<Rightarrow> stat_result" where
  "stat_at fails dir name =
     (if fails then StatFailed else case map_of dir name of None \<Rightarrow> NotFound | Some (s, _) \<Rightarrow> Found s)"

definition safe_stat :: "nat \<Rightarrow> file_stat \<Rightarrow> bool \<Rightarrow> bool" where
  "safe_stat euid s dir \<longleftrightarrow>
     st_uid s = euid \<and> st_kind s = (if dir then DirectoryFile else RegularFile) \<and>
     st_perm s = (if dir then 448 else 384) \<and> (dir \<or> st_nlink s = 1)"

definition check_target :: "publish_env \<Rightarrow> publish_step \<Rightarrow> directory \<Rightarrow> byte list \<Rightarrow> publish_error option" where
  "check_target env step dir name =
     (case stat_at (pe_fails env step) dir name of
        Found s \<Rightarrow> if \<not> safe_stat (pe_euid env) s False then Some UnsafeEntry else None
      | NotFound \<Rightarrow> None
      | StatFailed \<Rightarrow> Some OsError)"

definition append_file :: "byte list \<Rightarrow> byte list \<Rightarrow> directory \<Rightarrow> directory" where
  "append_file name bs dir = AList.map_entry name (\<lambda>(s, content). (s, content @ bs)) dir"

definition chmod_file :: "byte list \<Rightarrow> nat \<Rightarrow> directory \<Rightarrow> directory" where
  "chmod_file name perm dir = AList.map_entry name (\<lambda>(s, content). (s\<lparr>st_perm := perm\<rparr>, content)) dir"

definition rename_at :: "byte list \<Rightarrow> byte list \<Rightarrow> directory \<Rightarrow> directory" where
  "rename_at old new dir =
     (case map_of dir old of None \<Rightarrow> dir | Some e \<Rightarrow> AList.update new e (AList.delete old dir))"

definition temp_name :: "auth_ops \<Rightarrow> publish_env \<Rightarrow> byte list" where
  "temp_name ops env = lit ''.agent-token-'' @ ao_hex_encode ops (pe_nonce env)"

definition publish_temp ::
  "auth_ops \<Rightarrow> publish_env \<Rightarrow> agent_token \<Rightarrow> byte list \<Rightarrow> byte list \<Rightarrow> directory \<Rightarrow> (publish_error + nat \<times> nat) \<times> directory" where
  "publish_temp ops env token temp name dir =
     (if pe_fails env ChmodTemp then (Inl OsError, dir)
      else let dir1 = chmod_file temp 384 dir in
      if pe_fails env WriteToken then (Inl OsError, append_file temp (take (pe_written env) (to_hex ops token)) dir1)
      else let dir2 = append_file temp (to_hex ops token) dir1 in
      if pe_fails env WriteNewline then (Inl OsError, dir2)
      else let dir3 = append_file temp [0x0A] dir2 in
      if pe_fails env SyncTemp then (Inl OsError, dir3)
      else let dir4 = pe_meanwhile env dir3 in
      case stat_at (pe_fails env StatTemp) dir4 temp of
        Found s \<Rightarrow>
          (case check_target env RestatTarget dir4 name of
             Some e \<Rightarrow> (Inl e, dir4)
           | None \<Rightarrow>
               if pe_fails env RenameTemp then (Inl OsError, dir4)
               else (Inr (st_id s), rename_at temp name dir4))
      | NotFound \<Rightarrow> (Inl OsError, dir4)
      | StatFailed \<Rightarrow> (Inl OsError, dir4))"

record published_credential =
  pc_name :: "byte list"
  pc_identity :: "nat \<times> nat"
  pc_token :: agent_token

definition publish ::
  "auth_ops \<Rightarrow> publish_env \<Rightarrow> agent_token \<Rightarrow> byte list \<Rightarrow> directory \<Rightarrow> (publish_error + published_credential) \<times> directory" where
  "publish ops env token name dir =
     (if pe_fails env OpenDir then (Inl OsError, dir)
      else if pe_fails env StatDir then (Inl OsError, dir)
      else if \<not> safe_stat (pe_euid env) (pe_dir_stat env) True then (Inl UnsafeEntry, dir)
      else case check_target env StatTarget dir name of
        Some e \<Rightarrow> (Inl e, dir)
      | None \<Rightarrow>
          if pe_fails env DrawNonce then (Inl NonceFailed, dir)
          else
            let temp = temp_name ops env in
            if pe_fails env CreateTemp \<or> map_of dir temp \<noteq> None then (Inl OsError, dir)
            else
              let s = \<lparr>st_uid = pe_euid env, st_kind = RegularFile, st_perm = pe_new_perm env, st_nlink = 1, st_id = pe_new_id env\<rparr>
              in (case publish_temp ops env token temp name (AList.update temp (s, []) dir) of
                    (Inr identity, dir1) \<Rightarrow> (Inr \<lparr>pc_name = name, pc_identity = identity, pc_token = token\<rparr>, dir1)
                  | (Inl e, dir1) \<Rightarrow> (Inl e, if pe_fails env UnlinkTemp then dir1 else AList.delete temp dir1)))"

definition credential_drop :: "bool \<Rightarrow> bool \<Rightarrow> published_credential \<Rightarrow> directory \<Rightarrow> directory" where
  "credential_drop stat_fails unlink_fails pc dir =
     (case stat_at stat_fails dir (pc_name pc) of
        Found s \<Rightarrow>
          if st_id s = pc_identity pc then (if unlink_fails then dir else AList.delete (pc_name pc) dir) else dir
      | _ \<Rightarrow> dir)"

section \<open>The first line, however it is cut\<close>

definition first_line :: "byte list \<Rightarrow> byte list" where
  "first_line stream = takeWhile (\<lambda>b. b \<noteq> 0x0A) stream"

text \<open>The same check on the bytes the peer sends, with no regard to how they arrive.\<close>

definition peer_spec :: "auth_ops \<Rightarrow> agent_token \<Rightarrow> byte list \<Rightarrow> auth_error + byte list" where
  "peer_spec ops token stream =
     (let line = first_line stream in
      if length line < length stream \<and> length line < auth_line_limit
      then (case ao_authenticate ops (line @ [0x0A]) of
              None \<Rightarrow> Inl UnsafeCredential
            | Some candidate \<Rightarrow>
                if matches_hex ops token candidate then Inr (drop (Suc (length line)) stream) else Inl UnsafeCredential)
      else if auth_line_limit < length stream then Inl UnsafeCredential
      else Inl AuthTimedOut)"

definition unread :: "peer_reader \<Rightarrow> byte list" where
  "unread rd = rd_buffer rd @ concat (map (\<lambda>a. case a of ReadBytes bs \<Rightarrow> bs | ReadError \<Rightarrow> []) (rd_incoming rd))"

definition arrives :: "byte list list \<Rightarrow> peer_reader" where
  "arrives chunks = \<lparr>rd_buffer = [], rd_incoming = map ReadBytes chunks\<rparr>"

lemma takeWhile_lines:
  "takeWhile (\<lambda>b. b \<noteq> (0x0A :: byte)) (c @ s) =
     (if 0x0A \<in> set c then takeWhile (\<lambda>b. b \<noteq> 0x0A) c else c @ takeWhile (\<lambda>b. b \<noteq> 0x0A) s)"
  by (induction c) auto

lemma newline_position:
  "position (\<lambda>b. b = (0x0A :: byte)) c =
     (if 0x0A \<in> set c then Some (length (takeWhile (\<lambda>b. b \<noteq> 0x0A) c)) else None)"
proof -
  have "length (takeWhile (\<lambda>b. b \<noteq> (0x0A :: byte)) c) < length c \<longleftrightarrow> 0x0A \<in> set c" by (induction c) auto
  then show ?thesis by (simp add: position_def)
qed

lemma take_first_line:
  "0x0A \<in> set c \<Longrightarrow> take (Suc (length (takeWhile (\<lambda>b. b \<noteq> (0x0A :: byte)) c))) c = takeWhile (\<lambda>b. b \<noteq> 0x0A) c @ [0x0A]"
  by (induction c) auto

lemma first_line_shorter: "0x0A \<in> set c \<Longrightarrow> length (takeWhile (\<lambda>b. b \<noteq> (0x0A :: byte)) c) < length c"
  by (induction c) auto

lemma unread_arrives [simp]: "unread (arrives chunks) = concat chunks"
  by (simp add: unread_def arrives_def comp_def)

lemma read_auth_line_chunk:
  assumes "c \<noteq> []"
  shows "read_auth_line line (arrives (c # cs)) =
    (if 0x0A \<in> set c
     then (if length line + Suc (length (first_line c)) > auth_line_limit then Inl UnsafeCredential
           else Inr (line @ first_line c @ [0x0A],
                     \<lparr>rd_buffer = drop (Suc (length (first_line c))) c, rd_incoming = map ReadBytes cs\<rparr>))
     else if length line + length c > auth_line_limit then Inl UnsafeCredential
     else read_auth_line (line @ c) (arrives cs))"
  using assms
  by (subst read_auth_line.simps)
     (simp add: arrives_def fill_buf_def newline_position Let_def consume_def first_line_def take_first_line)

lemma read_auth_line_chunks:
  assumes "list_all (\<lambda>c. c \<noteq> []) chunks" "length line \<le> auth_line_limit"
  shows "map_sum id (\<lambda>(l, rd). (l, unread rd)) (read_auth_line line (arrives chunks)) =
    (let stream = concat chunks; l = first_line stream in
     if length l < length stream \<and> length line + length l < auth_line_limit
     then Inr (line @ l @ [0x0A], drop (Suc (length l)) stream)
     else if auth_line_limit < length line + length stream then Inl UnsafeCredential
     else Inl AuthTimedOut)"
  using assms
proof (induction chunks arbitrary: line)
  case Nil
  then show ?case by (subst read_auth_line.simps) (simp add: arrives_def fill_buf_def first_line_def)
next
  case (Cons c cs)
  show ?case
  proof (cases "0x0A \<in> set c")
    case True
    then have "length (first_line c) < length c" by (simp add: first_line_def first_line_shorter)
    moreover have "unread \<lparr>rd_buffer = drop n c, rd_incoming = map ReadBytes cs\<rparr> = drop n c @ concat cs" for n
      by (simp add: unread_def comp_def)
    ultimately show ?thesis
      using True Cons.prems by (auto simp: read_auth_line_chunk first_line_def takeWhile_lines Let_def)
  next
    case False
    have IH: "map_sum id (\<lambda>(l, rd). (l, unread rd)) (read_auth_line (line @ c) (arrives cs)) =
        (let stream = concat cs; l = first_line stream in
         if length l < length stream \<and> length (line @ c) + length l < auth_line_limit
         then Inr ((line @ c) @ l @ [0x0A], drop (Suc (length l)) stream)
         else if auth_line_limit < length (line @ c) + length stream then Inl UnsafeCredential
         else Inl AuthTimedOut)" if "length (line @ c) \<le> auth_line_limit"
      using Cons.prems(1) that by (intro Cons.IH) simp_all
    show ?thesis
    proof (cases "length (line @ c) \<le> auth_line_limit")
      case True
      with IH [OF True] False Cons.prems(1) show ?thesis
        by (simp add: read_auth_line_chunk first_line_def takeWhile_lines Let_def add.assoc id_def cong: if_cong)
    next
      case late: False
      with False Cons.prems(1) show ?thesis
        by (simp add: read_auth_line_chunk first_line_def takeWhile_lines Let_def)
    qed
  qed
qed

text \<open>
  C20: The check of a peer depends on the bytes it sends and not on how they arrive: the first line decides,
  when it ends within 256 bytes, and what follows it is left for the control loop to the byte; a longer
  first line is refused, and a peer that sends no whole line is timed out.
\<close>

theorem first_line_decides:
  assumes "list_all (\<lambda>c. c \<noteq> []) chunks"
  shows "map_sum id unread (verify_peer ops token (arrives chunks)) = peer_spec ops token (concat chunks)"
  using read_auth_line_chunks [OF assms, of "[]"]
  by (auto simp: verify_peer_def peer_spec_def Let_def split: sum.splits option.splits if_splits)

definition demo_auth :: auth_ops where
  "demo_auth =
     \<lparr>ao_hex_encode = (\<lambda>bs. concat (map (\<lambda>b. [0x61 + b div 16, 0x61 + b mod 16]) bs)),
      ao_hex_decode = (\<lambda>s. if s = replicate 64 0x61 then Some (replicate 32 0) else None),
      ao_hmac = (\<lambda>key data. key),
      ao_authenticate = (\<lambda>line. Some (butlast line))\<rparr>"

theorem first_line_decides_witness:
  "map_sum id unread (verify_peer demo_auth (replicate 32 0) (arrives [replicate 60 0x61, replicate 4 0x61 @ [0x0A, 1], [2]])) = Inr [1, 2]"
proof -
  have "peer_spec demo_auth (replicate 32 0) (concat [replicate 60 0x61, replicate 4 0x61 @ [0x0A, 1], [2]]) = Inr [1, 2]"
    by code_simp
  then show ?thesis
    using first_line_decides [of "[replicate 60 0x61, replicate 4 0x61 @ [0x0A, 1], [2]]" demo_auth "replicate 32 0"]
    by (simp add: eval_nat_numeral)
qed

section \<open>Who is served\<close>

definition holds_pending :: "peer_task \<Rightarrow> nat" where
  "holds_pending t = (if pt_phase t = Serving then 0 else 1)"

definition holds_authenticated :: "peer_task \<Rightarrow> nat" where
  "holds_authenticated t = (if pt_phase t = Verifying then 0 else 1)"

definition peer_ok :: "auth_ops \<Rightarrow> agent_token \<Rightarrow> peer_task \<Rightarrow> bool" where
  "peer_ok ops token t \<longleftrightarrow>
     (if pt_phase t = Verifying then pt_reader t = pt_sent t
      else verify_peer ops token (pt_sent t) = Inr (pt_reader t))"

definition listener_ok :: "auth_ops \<Rightarrow> agent_token \<Rightarrow> control_listener \<Rightarrow> bool" where
  "listener_ok ops token cl \<longleftrightarrow>
     distinct (map fst (cl_peers cl)) \<and>
     ad_pending (cl_admission cl) + weigh holds_pending (cl_peers cl) = 16 \<and>
     ad_authenticated (cl_admission cl) + weigh holds_authenticated (cl_peers cl) = 64 \<and>
     (\<forall>i t. map_of (cl_peers cl) i = Some t \<longrightarrow> peer_ok ops token t)"

lemmas admission_defs = try_pending_def try_authenticated_def drop_pending_def drop_authenticated_def

lemma listener_update:
  assumes "listener_ok ops token cl" "peer_ok ops token t"
    and "ad_pending a + holds_pending t = ad_pending (cl_admission cl) + (case map_of (cl_peers cl) i of None \<Rightarrow> 0 | Some u \<Rightarrow> holds_pending u)"
    and "ad_authenticated a + holds_authenticated t =
      ad_authenticated (cl_admission cl) + (case map_of (cl_peers cl) i of None \<Rightarrow> 0 | Some u \<Rightarrow> holds_authenticated u)"
  shows "listener_ok ops token (cl\<lparr>cl_admission := a, cl_peers := AList.update i t (cl_peers cl)\<rparr>)"
proof -
  have d: "distinct (map fst (cl_peers cl))" using assms(1) by (simp add: listener_ok_def)
  show ?thesis
    using assms weigh_update [OF d, of holds_pending i t] weigh_update [OF d, of holds_authenticated i t]
    by (simp add: listener_ok_def distinct_update update_conv' del: fun_upd_apply) (auto split: if_splits)
qed

lemma listener_close:
  assumes "listener_ok ops token cl" "map_of (cl_peers cl) i = Some t"
    and "ad_pending a = ad_pending (cl_admission cl) + holds_pending t"
    and "ad_authenticated a = ad_authenticated (cl_admission cl) + holds_authenticated t"
  shows "listener_ok ops token ((close_peer i cl)\<lparr>cl_admission := a\<rparr>)"
proof -
  have d: "distinct (map fst (cl_peers cl))" using assms(1) by (simp add: listener_ok_def)
  show ?thesis
    using assms weigh_delete [OF d, of holds_pending i] weigh_delete [OF d, of holds_authenticated i]
    by (auto simp: listener_ok_def close_peer_def distinct_delete delete_conv' split: if_splits)
qed

lemma control_step_ok:
  assumes "control_step ops token cl cl'" "listener_ok ops token cl"
  shows "listener_ok ops token cl'"
  using assms
proof (induction rule: control_step.induct)
  case (accepted i cl sent)
  then have "map_of (cl_peers cl) i = None" by (simp add: map_of_eq_None_iff)
  with accepted show ?case
    by (auto simp: accept_peer_def admission_defs peer_ok_def holds_pending_def holds_authenticated_def
        split: option.splits if_splits intro!: listener_update)
next
  case (verified cl i t)
  then have "peer_ok ops token t" by (auto simp: listener_ok_def)
  with verified show ?case
    by (auto simp: peer_verified_def admission_defs peer_ok_def holds_pending_def holds_authenticated_def
        split: sum.splits option.splits if_splits intro!: listener_update listener_close)
next
  case (acknowledged cl i t written)
  then have "peer_ok ops token t" by (auto simp: listener_ok_def)
  with acknowledged show ?case
    by (auto simp: peer_acknowledged_def admission_defs peer_ok_def holds_pending_def holds_authenticated_def
        intro!: listener_update listener_close)
next
  case (finished cl i t)
  then show ?case
    by (auto simp: peer_done_def admission_defs holds_pending_def holds_authenticated_def intro!: listener_close)
qed

lemma control_reachable_ok: "control_reachable ops token cl \<Longrightarrow> listener_ok ops token cl"
proof (induction rule: control_reachable.induct)
  case start
  show ?case by (simp add: listener_new_def admission_new_def listener_ok_def)
next
  case (step cl cl')
  from step(2,3) show ?case by (rule control_step_ok)
qed

lemma weigh_filter: "weigh (\<lambda>t. if P t then 0 else 1) xs = length (filter (\<lambda>(i, t). \<not> P t) xs)"
  by (induction xs) auto

text \<open>What is read as the first line is the first line that was sent, and the rest is left.\<close>

lemma unread_fill_buf: "fill_buf rd = Inr rd' \<Longrightarrow> unread rd' = unread rd"
  by (auto simp: fill_buf_def unread_def split: if_splits list.splits read_answer.splits)

lemma read_auth_line_sound:
  "read_auth_line line rd = Inr (l, rd') \<Longrightarrow>
   \<exists>new. l = line @ new @ [0x0A] \<and> 0x0A \<notin> set new \<and> unread rd = new @ [0x0A] @ unread rd' \<and> length l \<le> auth_line_limit"
proof (induction line rd rule: read_auth_line.induct)
  case (1 line rd)
  obtain rd1 where fill: "fill_buf rd = Inr rd1" using "1.prems" by (subst (asm) read_auth_line.simps) (auto split: sum.splits)
  have avail: "rd_buffer rd1 \<noteq> []" using "1.prems" fill by (subst (asm) read_auth_line.simps) auto
  obtain tail where tail: "unread rd = rd_buffer rd1 @ tail" "\<And>bs. unread (rd1\<lparr>rd_buffer := bs\<rparr>) = bs @ tail"
    using unread_fill_buf [OF fill]
    by (intro that [of "concat (map (\<lambda>a. case a of ReadBytes bs \<Rightarrow> bs | ReadError \<Rightarrow> []) (rd_incoming rd1))"]) (simp_all add: unread_def)
  show ?case
  proof (cases "0x0A \<in> set (rd_buffer rd1)")
    case True
    let ?new = "takeWhile (\<lambda>b. b \<noteq> 0x0A) (rd_buffer rd1)"
    have "l = line @ ?new @ [0x0A]" "rd' = rd1\<lparr>rd_buffer := drop (Suc (length ?new)) (rd_buffer rd1)\<rparr>" "length l \<le> auth_line_limit"
      using "1.prems" fill avail True first_line_shorter [OF True]
      by (subst (asm) read_auth_line.simps, auto simp: newline_position take_first_line consume_def Let_def split: if_splits)+
    moreover have "0x0A \<notin> set ?new" by (auto dest: set_takeWhileD)
    moreover have "rd_buffer rd1 = (?new @ [0x0A]) @ drop (Suc (length ?new)) (rd_buffer rd1)"
      by (metis append_take_drop_id take_first_line [OF True])
    ultimately show ?thesis using tail by (intro exI [of _ ?new]) (metis append.assoc)
  next
    case False
    then have pos: "position (\<lambda>b. b = 0x0A) (rd_buffer rd1) = None" by (simp add: newline_position)
    have limit: "\<not> length line + length (rd_buffer rd1) > auth_line_limit"
      and next_read: "read_auth_line (line @ rd_buffer rd1) (consume (length (rd_buffer rd1)) rd1) = Inr (l, rd')"
      using "1.prems" fill avail pos by (subst (asm) read_auth_line.simps, auto simp: Let_def split: if_splits)+
    have "\<exists>new. l = (line @ rd_buffer rd1) @ new @ [0x0A] \<and> 0x0A \<notin> set new \<and>
        unread (consume (length (rd_buffer rd1)) rd1) = new @ [0x0A] @ unread rd' \<and> length l \<le> auth_line_limit"
      using "1.IH" [OF fill refl avail refl refl] pos limit next_read by simp
    then obtain new where new: "l = (line @ rd_buffer rd1) @ new @ [0x0A]" "0x0A \<notin> set new"
      "unread (consume (length (rd_buffer rd1)) rd1) = new @ [0x0A] @ unread rd'" "length l \<le> auth_line_limit" by blast
    then show ?thesis using False tail by (intro exI [of _ "rd_buffer rd1 @ new"]) (simp add: consume_def)
  qed
qed

text \<open>
  A peer shows the token when its first line, at most 256 bytes with its newline, decodes to 64 lower-case
  hexadecimal digits whose 32 bytes are a key with the token's HMAC tag on the agent's domain text.
\<close>

definition shows_token :: "auth_ops \<Rightarrow> agent_token \<Rightarrow> byte list \<Rightarrow> byte list \<Rightarrow> bool" where
  "shows_token ops token stream rest \<longleftrightarrow> (\<exists>line digits key.
     stream = line @ [0x0A] @ rest \<and> 0x0A \<notin> set line \<and> length line < 256 \<and>
     ao_authenticate ops (line @ [0x0A]) = Some digits \<and> length digits = 64 \<and>
     list_all (\<lambda>b. b \<in> set (lit ''0123456789abcdef'')) digits \<and> ao_hex_decode ops digits = Some key \<and> length key = 32 \<and>
     ao_hmac ops key (lit ''network-monitor-agent-auth-v1'') = ao_hmac ops token (lit ''network-monitor-agent-auth-v1''))"

lemma lower_hex_digit_listed: "lower_hex_digit b \<Longrightarrow> b \<in> set (lit ''0123456789abcdef'')"
proof -
  assume "lower_hex_digit b"
  then have "unat b \<in> set ([48..<58] @ [97..<103])"
    by (simp add: lower_hex_digit_def ascii_digit_def word_le_nat_alt del: upt_Suc) presburger
  then have "of_nat (unat b) \<in> (of_nat :: nat \<Rightarrow> byte) ` set ([48..<58] @ [97..<103])" by (rule imageI)
  moreover have "map (of_nat :: nat \<Rightarrow> byte) ([48..<58] @ [97..<103]) = lit ''0123456789abcdef''" by (simp add: lit_def upt_conv_Cons)
  moreover have "of_nat (unat b) = b" by simp
  ultimately show ?thesis by (metis set_map)
qed

lemma verified_shows_token:
  assumes "verify_peer ops token rd = Inr rd'"
  shows "shows_token ops token (unread rd) (unread rd')"
proof -
  obtain line digits where line: "read_auth_line [] rd = Inr (line, rd')" "ao_authenticate ops line = Some digits"
    "matches_hex ops token digits"
    using assms by (auto simp: verify_peer_def split: sum.splits option.splits if_splits)
  from read_auth_line_sound [OF line(1)] obtain new where "line = new @ [0x0A]" "0x0A \<notin> set new"
    "unread rd = new @ [0x0A] @ unread rd'" "length new < 256" by (auto simp: auth_line_limit_def)
  moreover obtain key where "length digits = 64" "list_all lower_hex_digit digits" "ao_hex_decode ops digits = Some key"
    "length key = 32" "ao_hmac ops key auth_domain = ao_hmac ops token auth_domain"
    using line(3) by (auto simp: matches_hex_def Let_def split: if_splits option.splits)
  moreover from this have "list_all (\<lambda>b. b \<in> set (lit ''0123456789abcdef'')) digits"
    by (auto simp: list_all_iff intro: lower_hex_digit_listed)
  ultimately show ?thesis using line(2) unfolding shows_token_def auth_domain_def by blast
qed

text \<open>
  C13: However peers come, answer and leave, at most 16 of them wait for their check or its acknowledgement
  and at most 64 are past it, so that peers without the token never take a place of a peer that is served;
  and whoever is past the check sent, as its first line, 64 lower-case hexadecimal digits of a key whose
  HMAC tag is that of the token of this launch, and what it sent after that line is what is left to read.
  Nothing is assumed of the HMAC: that no other key has this tag is up to it.
\<close>

theorem only_token_holders_served:
  assumes "control_reachable ops token cl"
  shows "length (filter (\<lambda>(i, t). pt_phase t \<noteq> Serving) (cl_peers cl)) \<le> 16 \<and>
    length (filter (\<lambda>(i, t). pt_phase t \<noteq> Verifying) (cl_peers cl)) \<le> 64 \<and>
    list_all (\<lambda>(i, t). pt_phase t = Verifying \<or> shows_token ops token (unread (pt_sent t)) (unread (pt_reader t))) (cl_peers cl)"
proof (intro conjI)
  have ok: "listener_ok ops token cl" using assms by (rule control_reachable_ok)
  show "length (filter (\<lambda>(i, t). pt_phase t \<noteq> Serving) (cl_peers cl)) \<le> 16"
    using ok by (simp add: listener_ok_def holds_pending_def [abs_def] weigh_filter)
  show "length (filter (\<lambda>(i, t). pt_phase t \<noteq> Verifying) (cl_peers cl)) \<le> 64"
    using ok by (simp add: listener_ok_def holds_authenticated_def [abs_def] weigh_filter)
  have "pt_phase t = Verifying \<or> shows_token ops token (unread (pt_sent t)) (unread (pt_reader t))"
    if "(i, t) \<in> set (cl_peers cl)" for i t
  proof -
    have "peer_ok ops token t" using ok that by (auto simp: listener_ok_def)
    then show ?thesis by (auto simp: peer_ok_def intro: verified_shows_token split: if_splits)
  qed
  then show "list_all (\<lambda>(i, t). pt_phase t = Verifying \<or> shows_token ops token (unread (pt_sent t)) (unread (pt_reader t))) (cl_peers cl)"
    by (auto simp: list_all_iff)
qed

definition demo_token :: agent_token where "demo_token = replicate 32 0"

definition demo_peer :: peer_reader where
  "demo_peer = arrives [replicate 64 0x61 @ [0x0A, 0x7B]]"

definition demo_rest :: peer_reader where
  "demo_rest = \<lparr>rd_buffer = [0x7B], rd_incoming = []\<rparr>"

definition demo_served :: control_listener where
  "demo_served = \<lparr>cl_admission = \<lparr>ad_pending = 16, ad_authenticated = 63\<rparr>,
     cl_peers = [(0, \<lparr>pt_sent = demo_peer, pt_reader = demo_rest, pt_phase = Serving\<rparr>)]\<rparr>"

lemma demo_verified: "verify_peer demo_auth demo_token demo_peer = Inr demo_rest"
  by code_simp

lemma demo_served_reachable: "control_reachable demo_auth demo_token demo_served"
proof -
  let ?t = "\<lparr>pt_sent = demo_peer, pt_reader = demo_peer, pt_phase = Verifying\<rparr>"
  let ?u = "\<lparr>pt_sent = demo_peer, pt_reader = demo_rest, pt_phase = Acknowledging\<rparr>"
  let ?one = "accept_peer 0 demo_peer listener_new"
  let ?two = "peer_verified demo_auth demo_token 0 ?t ?one"
  have one: "?one = \<lparr>cl_admission = \<lparr>ad_pending = 15, ad_authenticated = 64\<rparr>, cl_peers = [(0, ?t)]\<rparr>"
    by (simp add: accept_peer_def listener_new_def admission_new_def try_pending_def)
  have two: "?two = \<lparr>cl_admission = \<lparr>ad_pending = 15, ad_authenticated = 63\<rparr>, cl_peers = [(0, ?u)]\<rparr>"
    unfolding one by (simp add: peer_verified_def demo_verified try_authenticated_def)
  have three: "peer_acknowledged True 0 ?u ?two = demo_served"
    unfolding two by (simp add: peer_acknowledged_def demo_served_def drop_pending_def)
  have "control_reachable demo_auth demo_token ?one"
    by (rule control_reachable.step [OF control_reachable.start], rule control_step.accepted) (simp add: listener_new_def)
  then have "control_reachable demo_auth demo_token ?two"
    by (rule control_reachable.step, intro control_step.verified) (simp_all add: one)
  then have "control_reachable demo_auth demo_token (peer_acknowledged True 0 ?u ?two)"
    by (rule control_reachable.step, intro control_step.acknowledged) (simp_all add: two)
  then show ?thesis by (simp only: three)
qed

theorem only_token_holders_served_witness:
  "cl_peers demo_served \<noteq> [] \<and>
   length (filter (\<lambda>(i, t). pt_phase t \<noteq> Serving) (cl_peers demo_served)) \<le> 16 \<and>
   length (filter (\<lambda>(i, t). pt_phase t \<noteq> Verifying) (cl_peers demo_served)) \<le> 64 \<and>
   shows_token demo_auth demo_token (replicate 64 0x61 @ [0x0A, 0x7B]) [0x7B]"
  using only_token_holders_served [OF demo_served_reachable]
  by (simp add: demo_served_def demo_peer_def demo_rest_def arrives_def unread_def)

section \<open>What is published\<close>

lemma map_of_append_file [simp]:
  "map_of (append_file name bs dir) =
     (case map_of dir name of None \<Rightarrow> map_of dir | Some (s, content) \<Rightarrow> (map_of dir)(name \<mapsto> (s, content @ bs)))"
  by (auto simp: append_file_def map_of_map_entry fun_eq_iff split: option.splits)

lemma map_of_chmod_file [simp]:
  "map_of (chmod_file name perm dir) =
     (case map_of dir name of None \<Rightarrow> map_of dir | Some (s, content) \<Rightarrow> (map_of dir)(name \<mapsto> (s\<lparr>st_perm := perm\<rparr>, content)))"
  by (auto simp: chmod_file_def map_of_map_entry fun_eq_iff split: option.splits)

lemma map_of_rename_at [simp]:
  "map_of (rename_at old new dir) =
     (case map_of dir old of None \<Rightarrow> map_of dir | Some e \<Rightarrow> (map_of dir)(old := None, new \<mapsto> e))"
  by (auto simp: rename_at_def update_conv' delete_conv' split: option.splits)

definition target_ok :: "nat \<Rightarrow> directory \<Rightarrow> byte list \<Rightarrow> bool" where
  "target_ok euid dir name = (case map_of dir name of None \<Rightarrow> True | Some (s, _) \<Rightarrow> safe_stat euid s False)"

lemma check_target_ok: "check_target env step dir name = None \<Longrightarrow> target_ok (pe_euid env) dir name"
  by (auto simp: check_target_def stat_at_def target_ok_def split: option.splits if_splits stat_result.splits)

text \<open>
  What the temporary file and the rest of the directory are when the steps on it end: \<open>x\<close> is the directory
  as it was handed to the other processes, and they leave the temporary file alone.
\<close>

definition unlike_only :: "byte list \<Rightarrow> directory \<Rightarrow> directory \<Rightarrow> bool" where
  "unlike_only name dir dir' \<longleftrightarrow> (map_of dir)(name := None) = (map_of dir')(name := None)"

definition leaves_alone :: "byte list \<Rightarrow> publish_env \<Rightarrow> bool" where
  "leaves_alone name env \<longleftrightarrow> (\<forall>x. map_of (pe_meanwhile env x) name = map_of x name)"

text \<open>A directory that differs from \<open>dir\<close> at most in the temporary file and in what other processes did meanwhile.\<close>

definition left_by_others :: "publish_env \<Rightarrow> byte list \<Rightarrow> directory \<Rightarrow> directory \<Rightarrow> bool" where
  "left_by_others env temp dir d \<longleftrightarrow> d = dir \<or> (\<exists>x. unlike_only temp x dir \<and> d = pe_meanwhile env x)"

lemma unlike_only_writes [simp]:
  "unlike_only name (append_file name bs dir) dir' = unlike_only name dir dir'"
  "unlike_only name (chmod_file name perm dir) dir' = unlike_only name dir dir'"
  "unlike_only name (AList.update name e dir) dir' = unlike_only name dir dir'"
  "unlike_only name (AList.delete name dir) dir' = unlike_only name dir dir'"
  by (auto simp: unlike_only_def update_conv' delete_conv' split: option.splits)

lemma unlike_only_refl [simp]: "unlike_only name dir dir"
  by (simp add: unlike_only_def)

lemma publish_temp_outcome:
  assumes "publish_temp ops env token temp name dir = (r, dir')" "leaves_alone temp env" "map_of dir temp = Some (s, [])"
  shows "case r of
      Inl e \<Rightarrow> \<exists>d. (unlike_only temp d dir \<or> (\<exists>x. unlike_only temp x dir \<and> d = pe_meanwhile env x)) \<and> dir' = d
    | Inr identity \<Rightarrow> \<exists>x. unlike_only temp x dir \<and> identity = st_id s \<and> target_ok (pe_euid env) (pe_meanwhile env x) name \<and>
        map_of dir' = (map_of (pe_meanwhile env x))(temp := None, name \<mapsto> (s\<lparr>st_perm := 384\<rparr>, to_hex ops token @ [0x0A]))"
proof -
  let ?x = "append_file temp [0x0A] (append_file temp (to_hex ops token) (chmod_file temp 384 dir))"
  have x: "unlike_only temp ?x dir" "map_of (pe_meanwhile env ?x) temp = Some (s\<lparr>st_perm := 384\<rparr>, to_hex ops token @ [0x0A])"
    using assms(2,3) by (simp_all add: leaves_alone_def)
  show ?thesis
  proof (cases r)
    case (Inl e)
    have "unlike_only temp dir' dir \<or> dir' = pe_meanwhile env ?x"
      using assms(1) Inl by (auto simp: publish_temp_def Let_def split: if_splits stat_result.splits option.splits)
    then show ?thesis using x(1) unfolding Inl sum.case by blast
  next
    case (Inr identity)
    have "identity = st_id s \<and> target_ok (pe_euid env) (pe_meanwhile env ?x) name \<and> dir' = rename_at temp name (pe_meanwhile env ?x)"
      using assms(1) Inr x(2) check_target_ok
      by (auto simp: publish_temp_def Let_def stat_at_def split: if_splits stat_result.splits option.splits)
    then show ?thesis using x Inr by (auto intro!: exI [of _ ?x])
  qed
qed

text \<open>
  C21: Publishing the token either happens or leaves no trace but one: whichever calls fail, and whatever
  other processes do to the other entries until the target is looked at again, an error leaves every entry but the temporary file as the others
  left it, and the temporary file is gone unless removing it failed as well. Otherwise the one entry that
  changed is the target, which was absent or a private file of this user when it was last looked at, and it
  is now a private file that holds the token. Dropping the credential removes it, unless its calls fail.
\<close>

theorem publish_all_or_nothing:
  assumes "publish ops env token name dir = (r, dir')" "name \<noteq> temp_name ops env" "leaves_alone (temp_name ops env) env"
  shows "\<exists>d. left_by_others env (temp_name ops env) dir d \<and> (case r of
      Inl e \<Rightarrow> unlike_only (temp_name ops env) dir' d \<and>
        (map_of dir' (temp_name ops env) = map_of dir (temp_name ops env) \<or> pe_fails env UnlinkTemp)
    | Inr pc \<Rightarrow> target_ok (pe_euid env) d name \<and>
        (\<exists>s. map_of dir' = (map_of d)(temp_name ops env := None, name \<mapsto> (s, to_hex ops token @ [0x0A])) \<and> safe_stat (pe_euid env) s False) \<and>
        map_of (credential_drop stat_fails unlink_fails pc dir') =
          (if stat_fails \<or> unlink_fails then map_of dir' else (map_of d)(temp_name ops env := None, name := None)))"
proof (cases "\<exists>e. r = Inl e \<and> dir' = dir")
  case True
  then show ?thesis by (intro exI [of _ dir]) (auto simp: left_by_others_def)
next
  case False
  let ?temp = "temp_name ops env"
  let ?s = "\<lparr>st_uid = pe_euid env, st_kind = RegularFile, st_perm = pe_new_perm env, st_nlink = 1, st_id = pe_new_id env\<rparr>"
  let ?dir = "AList.update ?temp (?s, []) dir"
  obtain q d where step: "publish_temp ops env token ?temp name ?dir = (q, d)" by force
  have fresh: "map_of dir ?temp = None"
    and result: "(case q of Inr identity \<Rightarrow> r = Inr \<lparr>pc_name = name, pc_identity = identity, pc_token = token\<rparr> \<and> dir' = d
       | Inl e \<Rightarrow> r = Inl e \<and> dir' = (if pe_fails env UnlinkTemp then d else AList.delete ?temp d))"
    using assms(1) False step by (auto simp: publish_def Let_def simp del: not_None_eq split: if_splits option.splits sum.splits)
  have outcome: "case q of
      Inl e \<Rightarrow> \<exists>d'. (unlike_only ?temp d' ?dir \<or> (\<exists>x. unlike_only ?temp x ?dir \<and> d' = pe_meanwhile env x)) \<and> d = d'
    | Inr identity \<Rightarrow> \<exists>x. unlike_only ?temp x ?dir \<and> identity = st_id ?s \<and> target_ok (pe_euid env) (pe_meanwhile env x) name \<and>
        map_of d = (map_of (pe_meanwhile env x))(?temp := None, name \<mapsto> (?s\<lparr>st_perm := 384\<rparr>, to_hex ops token @ [0x0A]))"
    using step assms(3) by (rule publish_temp_outcome) (simp add: update_conv')
  have same: "unlike_only ?temp x ?dir \<longleftrightarrow> unlike_only ?temp x dir" for x by (simp add: unlike_only_def update_conv')
  show ?thesis
  proof (cases q)
    case (Inl e)
    then consider "unlike_only ?temp d dir" | x where "unlike_only ?temp x dir" "d = pe_meanwhile env x" using outcome same by auto
    then obtain base where base: "left_by_others env ?temp dir base" "unlike_only ?temp d base"
      unfolding left_by_others_def by cases (blast intro: unlike_only_refl)+
    then have "unlike_only ?temp dir' base" "map_of dir' ?temp = map_of dir ?temp \<or> pe_fails env UnlinkTemp" "r = Inl e"
      using Inl result fresh by (auto simp: delete_conv')
    then show ?thesis using base(1) by auto
  next
    case (Inr identity)
    then obtain x where x: "unlike_only ?temp x dir" "identity = st_id ?s" "target_ok (pe_euid env) (pe_meanwhile env x) name"
      "map_of d = (map_of (pe_meanwhile env x))(?temp := None, name \<mapsto> (?s\<lparr>st_perm := 384\<rparr>, to_hex ops token @ [0x0A]))"
      using outcome same by auto
    let ?pc = "\<lparr>pc_name = name, pc_identity = identity, pc_token = token\<rparr>"
    have "map_of (credential_drop stat_fails unlink_fails ?pc dir') =
        (if stat_fails \<or> unlink_fails then map_of dir' else (map_of (pe_meanwhile env x))(?temp := None, name := None))"
      using x(2,4) Inr result by (auto simp: credential_drop_def stat_at_def delete_conv')
    moreover have "left_by_others env ?temp dir (pe_meanwhile env x)" using x(1) by (auto simp: left_by_others_def)
    moreover have "safe_stat (pe_euid env) (?s\<lparr>st_perm := 384\<rparr>) False" by (simp add: safe_stat_def)
    ultimately show ?thesis using x(3,4) Inr result by (intro exI [of _ "pe_meanwhile env x"]) auto
  qed
qed

text \<open>Another process puts an entry beside it; a failing write and a failing removal; and a publication that succeeds.\<close>

definition demo_publish_env :: "publish_step list \<Rightarrow> publish_env" where
  "demo_publish_env failing =
     \<lparr>pe_fails = (\<lambda>s. s \<in> set failing), pe_euid = 501,
      pe_dir_stat = \<lparr>st_uid = 501, st_kind = DirectoryFile, st_perm = 448, st_nlink = 2, st_id = (1, 1)\<rparr>,
      pe_nonce = [7], pe_new_id = (1, 9), pe_new_perm = 384, pe_written = 5,
      pe_meanwhile = AList.update [2] (\<lparr>st_uid = 501, st_kind = RegularFile, st_perm = 384, st_nlink = 1, st_id = (1, 3)\<rparr>, [])\<rparr>"

theorem publish_all_or_nothing_witness:
  "isl (fst (publish demo_auth (demo_publish_env [RenameTemp]) demo_token [1] [])) \<and>
   map_of (snd (publish demo_auth (demo_publish_env [RenameTemp]) demo_token [1] [])) (temp_name demo_auth (demo_publish_env [RenameTemp])) = None \<and>
   (\<exists>pc dir' s. publish demo_auth (demo_publish_env []) demo_token [1] [] = (Inr pc, dir') \<and>
      map_of dir' [1] = Some (s, to_hex demo_auth demo_token @ [0x0A]) \<and> map_of (credential_drop False False pc dir') [1] = None)"
proof (intro conjI)
  have temp: "[1] \<noteq> temp_name demo_auth (demo_publish_env f)" "[2] \<noteq> temp_name demo_auth (demo_publish_env f)" for f
    by (simp_all add: temp_name_def lit_def)
  then have alone: "leaves_alone (temp_name demo_auth (demo_publish_env f)) (demo_publish_env f)" for f
    unfolding leaves_alone_def by (subst demo_publish_env_def) (simp add: update_conv' not_sym)
  obtain r dir' where run: "publish demo_auth (demo_publish_env [RenameTemp]) demo_token [1] [] = (r, dir')" by force
  show failed: "isl (fst (publish demo_auth (demo_publish_env [RenameTemp]) demo_token [1] []))" by code_simp
  have "\<not> pe_fails (demo_publish_env [RenameTemp]) UnlinkTemp" by (simp add: demo_publish_env_def)
  with publish_all_or_nothing [OF run temp(1) alone, of False False] run failed
  show "map_of (snd (publish demo_auth (demo_publish_env [RenameTemp]) demo_token [1] [])) (temp_name demo_auth (demo_publish_env [RenameTemp])) = None"
    by (cases r) auto
  obtain q d where run: "publish demo_auth (demo_publish_env []) demo_token [1] [] = (q, d)" by force
  have "\<not> isl (fst (publish demo_auth (demo_publish_env []) demo_token [1] []))" by code_simp
  with publish_all_or_nothing [OF run temp(1) alone, of False False] run
  show "\<exists>pc dir' s. publish demo_auth (demo_publish_env []) demo_token [1] [] = (Inr pc, dir') \<and>
      map_of dir' [1] = Some (s, to_hex demo_auth demo_token @ [0x0A]) \<and> map_of (credential_drop False False pc dir') [1] = None"
    by (cases q) auto
qed

end
