(* ===== verification/ProcessLookup.thy ===== *)
theory ProcessLookup
  imports RustStr
begin

text \<open>
  Which process owns a local port (\<open>process_lookup.rs\<close>): the parsing of \<open>lsof\<close>'s table. Running the command
  is a parameter: its output, or nothing when it could not be started.
\<close>

section \<open>The table\<close>

record process_info =
  pi_name :: rstring
  pi_pid :: nat

text \<open>\<open>str::lines\<close>: split at newlines, a carriage return before one dropped, no last empty line.\<close>

definition drop_cr :: "rstring \<Rightarrow> rstring" where
  "drop_cr line = (case strip_suffix_byte 0x0D line of None \<Rightarrow> line | Some l \<Rightarrow> l)"

definition str_lines :: "rstring \<Rightarrow> rstring list" where
  "str_lines s =
     (let parts = split_byte 0x0A s
      in map drop_cr (butlast parts) @ (if last parts = [] then [] else [last parts]))"

text \<open>\<open>str::parse\<close> for an unsigned type with the given largest value.\<close>

definition parse_uint :: "nat \<Rightarrow> rstring \<Rightarrow> nat option" where
  "parse_uint largest s =
     (let digits = (if s \<noteq> [] \<and> hd s = 0x2B then tl s else s)
      in if digits = [] \<or> \<not> list_all ascii_digit digits then None
         else let n = read_digits 0 digits in if n \<le> largest then Some n else None)"

text \<open>What stands before the first arrow: \<open>split("->").next()\<close>.\<close>

fun before_arrow :: "rstring \<Rightarrow> rstring" where
  "before_arrow (b # c # bs) = (if b = 0x2D \<and> c = 0x3E then [] else b # before_arrow (c # bs))"
| "before_arrow bs = bs"

definition lsof_row :: "rstring \<Rightarrow> (nat \<times> process_info) option" where
  "lsof_row line =
     (let fields = split_whitespace line
      in if length fields < 9 then None
         else case parse_uint (2 ^ 32 - 1) (fields ! 1) of
           None \<Rightarrow> None
         | Some pid \<Rightarrow>
             let local_part = before_arrow (fields ! 8);
                 port_str = last (split_byte 0x3A local_part)
             in (case parse_uint (2 ^ 16 - 1) port_str of
                   None \<Rightarrow> None
                 | Some port \<Rightarrow> Some (port, \<lparr>pi_name = fields ! 0, pi_pid = pid\<rparr>)))"

fun lsof_loop :: "rstring list \<Rightarrow> (nat \<times> process_info) list \<Rightarrow> (nat \<times> process_info) list" where
  "lsof_loop [] m = m"
| "lsof_loop (line # rest) m =
     (case lsof_row line of
        None \<Rightarrow> lsof_loop rest m
      | Some (port, info) \<Rightarrow> lsof_loop rest (AList.update port info m))"

definition parse_lsof_output :: "rstring \<Rightarrow> (nat \<times> process_info) list" where
  "parse_lsof_output output = lsof_loop (drop 1 (str_lines output)) []"

definition refresh_with :: "rstring option \<Rightarrow> (nat \<times> process_info) list" where
  "refresh_with run = (case run of Some output \<Rightarrow> parse_lsof_output output | None \<Rightarrow> [])"

section \<open>The last row of a port wins\<close>

lemma lsof_loop_rows: "map_of (lsof_loop rows m) = map_of m ++ map_of (rev (List.map_filter lsof_row rows))"
  by (induction rows m rule: lsof_loop.induct)
     (auto simp: map_filter_def update_conv' fun_eq_iff map_add_def split: option.splits)

lemma lsof_last_row_wins:
  "map_of (parse_lsof_output output) = map_of (rev (List.map_filter lsof_row (drop 1 (str_lines output))))"
  by (simp add: parse_lsof_output_def lsof_loop_rows)

lemma lsof_row_bounds: "lsof_row line = Some (port, info) \<Longrightarrow> port < 2 ^ 16 \<and> pi_pid info < 2 ^ 32"
  by (auto simp: lsof_row_def parse_uint_def Let_def split: if_splits option.splits)

text \<open>Ports and process identifiers of the table are within the range of their types.\<close>

lemma lsof_ports_bounded:
  assumes "map_of (parse_lsof_output output) port = Some info"
  shows "port < 2 ^ 16 \<and> pi_pid info < 2 ^ 32"
proof -
  have "(port, info) \<in> set (List.map_filter lsof_row (drop 1 (str_lines output)))"
    using assms by (auto simp: lsof_last_row_wins dest: map_of_SomeD)
  then obtain line where "lsof_row line = Some (port, info)" by (auto simp: map_filter_def)
  then show ?thesis by (rule lsof_row_bounds)
qed

lemma lsof_example:
  "lsof_row (lit ''Safari   1234 jamesb  45u IPv4 0x123  0t0  TCP 192.168.1.10:510->93.184.216.34:443 (ESTABLISHED)'') =
   Some (510, \<lparr>pi_name = lit ''Safari'', pi_pid = 1234\<rparr>)"
proof -
  let ?row = "lit ''Safari   1234 jamesb  45u IPv4 0x123  0t0  TCP 192.168.1.10:510->93.184.216.34:443 (ESTABLISHED)''"
  have fields: "split_whitespace ?row = map lit [''Safari'', ''1234'', ''jamesb'', ''45u'', ''IPv4'', ''0x123'', ''0t0'', ''TCP'',
      ''192.168.1.10:510->93.184.216.34:443'', ''(ESTABLISHED)'']"
    by code_simp
  have digits: "list_all ascii_digit (lit ''1234'') \<and> list_all ascii_digit (lit ''510'')"
    "hd (lit ''1234'') \<noteq> 0x2B" "hd (lit ''510'') \<noteq> 0x2B" "lit ''1234'' \<noteq> []" "lit ''510'' \<noteq> []"
    by code_simp+
  have port: "last (split_byte 0x3A (before_arrow (lit ''192.168.1.10:510->93.184.216.34:443''))) = lit ''510''" by code_simp
  have numbers: "read_digits 0 (lit ''1234'') = 1234" "read_digits 0 (lit ''510'') = 510" by (simp_all add: lit_def)
  show ?thesis
    by (simp add: lsof_row_def fields Let_def port parse_uint_def digits numbers)
qed

end
