(* ===== verification/Traceroute.thy ===== *)
theory Traceroute
  imports IpText
begin

text \<open>
  The bounded ICMP traceroute (\<open>traceroute.rs\<close>): the echo request, the parsing of replies, the wait for
  the reply to one probe, and the loop over the hops. The socket and the clock are parameters. The trait
  \<open>Prober\<close> is a record of its operations, what the loop relies on is the locale \<open>numbered_prober\<close>, and the
  session of a socket that writes down what it is asked is its instance.
\<close>

section \<open>Messages\<close>

datatype icmp_reply_type = TimeExceeded | EchoReply | OtherReply

record parsed_icmp_reply =
  ir_reply_type :: icmp_reply_type
  ir_identifier :: "nat option"
  ir_sequence :: "nat option"

fun sum_words :: "byte list \<Rightarrow> nat" where
  "sum_words [] = 0"
| "sum_words [b] = unat b * 256"
| "sum_words (b # c # bs) = unat b * 256 + unat c + sum_words bs"

function fold_carry :: "nat \<Rightarrow> nat" where
  "fold_carry s = (if s div 2 ^ 16 \<noteq> 0 then fold_carry (s mod 2 ^ 16 + s div 2 ^ 16) else s)"
  by pat_completeness auto
termination
proof (relation "measure id", goal_cases)
  case (2 s)
  then have "0 < s div 65536" by simp
  moreover have "s = 65536 * (s div 65536) + s mod 65536" by simp
  ultimately have "s mod 65536 + s div 65536 < s" by linarith
  then show ?case by simp
qed simp

declare fold_carry.simps [simp del]

definition icmp_checksum :: "byte list \<Rightarrow> nat" where
  "icmp_checksum data = 2 ^ 16 - 1 - fold_carry (sum_words data) mod 2 ^ 16"

definition build_echo_request :: "nat \<Rightarrow> nat \<Rightarrow> byte list" where
  "build_echo_request identifier sequence =
     (let packet = [8, 0, 0, 0] @ u16_bytes identifier @ u16_bytes sequence;
          checksum = icmp_checksum packet
      in [8, 0] @ u16_bytes checksum @ drop 4 packet)"

definition ipv4_header_len :: "byte \<Rightarrow> nat" where
  "ipv4_header_len b = (unat b mod 16) * 4"

definition strip_leading_ipv4_header :: "byte list \<Rightarrow> byte list option" where
  "strip_leading_ipv4_header bs =
     (if bs = [] then None
      else if unat (hd bs) div 16 \<noteq> 4 then Some bs
      else
        let header_len = ipv4_header_len (hd bs)
        in if header_len < 20 \<or> length bs < header_len then None else Some (drop header_len bs))"

definition extract_embedded_identifier_sequence :: "byte list \<Rightarrow> (nat \<times> nat) option" where
  "extract_embedded_identifier_sequence embedded =
     (if embedded = [] then None
      else if unat (hd embedded) div 16 \<noteq> 4 then None
      else
        let header_len = ipv4_header_len (hd embedded)
        in if header_len < 20 \<or> length embedded < header_len + 8 then None
           else
             let orig_icmp = take 8 (drop header_len embedded)
             in Some (u16_be (orig_icmp ! 4) (orig_icmp ! 5), u16_be (orig_icmp ! 6) (orig_icmp ! 7)))"

definition parse_icmp_reply :: "byte list \<Rightarrow> parsed_icmp_reply option" where
  "parse_icmp_reply bs =
     (case strip_leading_ipv4_header bs of
        None \<Rightarrow> None
      | Some icmp \<Rightarrow>
          if icmp = [] \<or> length icmp < 8 then None
          else
            let reply_type = (if hd icmp = 11 then TimeExceeded else if hd icmp = 0 then EchoReply else OtherReply);
                (identifier, sequence) =
                  (case reply_type of
                     EchoReply \<Rightarrow> (Some (u16_be (icmp ! 4) (icmp ! 5)), Some (u16_be (icmp ! 6) (icmp ! 7)))
                   | TimeExceeded \<Rightarrow>
                       (case extract_embedded_identifier_sequence (drop 8 icmp) of
                          Some (ident, seq) \<Rightarrow> (Some ident, Some seq)
                        | None \<Rightarrow> (None, None))
                   | OtherReply \<Rightarrow> (None, None))
            in Some \<lparr>ir_reply_type = reply_type, ir_identifier = identifier, ir_sequence = sequence\<rparr>)"

section \<open>One probe\<close>

text \<open>What the socket delivers while a probe waits: a datagram with its sender, or a failed receive.\<close>

datatype arrival = Datagram (ar_bytes: "byte list") (ar_from: rstring) | ReceiveFailed

definition is_reply_to :: "nat \<Rightarrow> nat \<Rightarrow> byte list \<Rightarrow> bool" where
  "is_reply_to identifier sequence bs =
     (case parse_icmp_reply bs of
        None \<Rightarrow> False
      | Some r \<Rightarrow>
          (case ir_reply_type r of
             EchoReply \<Rightarrow> ir_identifier r = Some identifier \<and> ir_sequence r = Some sequence
           | TimeExceeded \<Rightarrow> ir_identifier r = Some identifier \<and> ir_sequence r = Some sequence
           | OtherReply \<Rightarrow> False))"

definition receive_buffer :: nat where "receive_buffer = 512"

text \<open>
  The receive loop over what arrives before the time limit: the sender of the reply, if there is one, and
  how many datagrams were taken from the socket. A datagram longer than the buffer is cut.
\<close>

fun await_reply :: "nat \<Rightarrow> nat \<Rightarrow> arrival list \<Rightarrow> rstring option \<times> nat" where
  "await_reply identifier sequence [] = (None, 0)"
| "await_reply identifier sequence (ReceiveFailed # _) = (None, 1)"
| "await_reply identifier sequence (Datagram bs sender # arrivals) =
     (if is_reply_to identifier sequence (take receive_buffer bs) then (Some sender, 1)
      else (case await_reply identifier sequence arrivals of (r, n) \<Rightarrow> (r, Suc n)))"

record probe_session =
  ps_identifier :: nat
  ps_next_sequence :: nat

definition probe_session_open :: "nat \<Rightarrow> probe_session" where
  "probe_session_open process_id = \<lparr>ps_identifier = process_id mod 2 ^ 16, ps_next_sequence = 1\<rparr>"

definition next_seq :: "probe_session \<Rightarrow> nat \<times> probe_session" where
  "next_seq s = (ps_next_sequence s, s\<lparr>ps_next_sequence := (ps_next_sequence s + 1) mod 2 ^ 16\<rparr>)"

text \<open>
  The socket and the monotonic clock, in nanoseconds, of a world \<open>'w\<close>: setting the TTL and sending succeed or not; \<open>sk_window\<close>
  is what the socket delivers within a time limit and \<open>sk_receive\<close> the world after some of it was taken
  or the limit has passed.
\<close>

record 'w icmp_socket =
  sk_now :: "'w \<Rightarrow> nat \<times> 'w"
  sk_set_ttl :: "nat \<Rightarrow> 'w \<Rightarrow> bool \<times> 'w"
  sk_send_to :: "byte list \<Rightarrow> byte list \<Rightarrow> 'w \<Rightarrow> bool \<times> 'w"
  sk_window :: "nat \<Rightarrow> 'w \<Rightarrow> arrival list"
  sk_receive :: "nat \<Rightarrow> nat \<Rightarrow> 'w \<Rightarrow> 'w"

definition send_probe_and_await_reply ::
  "'w icmp_socket \<Rightarrow> rstring \<Rightarrow> nat \<Rightarrow> nat \<Rightarrow> probe_session \<times> 'w \<Rightarrow> (rstring \<times> nat) option \<times> (probe_session \<times> 'w)" where
  "send_probe_and_await_reply sk target_ip ttl limit = (\<lambda>(session, w).
     case parse_ipv4 target_ip of
       None \<Rightarrow> (None, (session, w))
     | Some dest \<Rightarrow>
         (case sk_set_ttl sk ttl w of
            (False, w1) \<Rightarrow> (None, (session, w1))
          | (True, w1) \<Rightarrow>
              let (sequence, session1) = next_seq session;
                  identifier = ps_identifier session1;
                  packet = build_echo_request identifier sequence;
                  (started, w2) = sk_now sk w1
              in (case sk_send_to sk packet dest w2 of
                    (False, w3) \<Rightarrow> (None, (session1, w3))
                  | (True, w3) \<Rightarrow>
                      let (reply_ip, taken) = await_reply identifier sequence (sk_window sk limit w3);
                          w4 = sk_receive sk limit taken w3
                      in (case reply_ip of
                            None \<Rightarrow> (None, (session1, w4))
                          | Some ip \<Rightarrow>
                              let (now, w5) = sk_now sk w4
                              in (Some (ip, now - started), (session1, w5))))))"

section \<open>The hops\<close>

definition hop_ceiling :: nat where "hop_ceiling = 30"
definition per_hop_timeout :: nat where "per_hop_timeout = 1000000000"
definition per_hop_retries :: nat where "per_hop_retries = 3"
definition total_trace_timeout :: nat where "total_trace_timeout = 45000000000"

text \<open>The round-trip time is kept in nanoseconds.\<close>

record hop_result =
  hop_number :: nat
  hop_ip :: "rstring option"
  hop_rtt :: "nat option"

text \<open>A prober with the clock of its environment, acting on a state.\<close>

record 's prober =
  pr_now :: "'s \<Rightarrow> nat \<times> 's"
  pr_probe :: "rstring \<Rightarrow> nat \<Rightarrow> nat \<Rightarrow> 's \<Rightarrow> (rstring \<times> nat) option \<times> 's"

definition socket_prober :: "'w icmp_socket \<Rightarrow> (probe_session \<times> 'w) prober" where
  "socket_prober sk =
     \<lparr>pr_now = (\<lambda>(session, w). let (now, w') = sk_now sk w in (now, (session, w'))),
      pr_probe = send_probe_and_await_reply sk\<rparr>"

fun attempt_loop ::
  "'s prober \<Rightarrow> rstring \<Rightarrow> nat \<Rightarrow> nat \<Rightarrow> nat \<Rightarrow> nat \<Rightarrow> 's \<Rightarrow> (rstring \<times> nat) option \<times> 's" where
  "attempt_loop pr target limit deadline ttl 0 s = (None, s)"
| "attempt_loop pr target limit deadline ttl (Suc left) s =
     (case pr_now pr s of
        (now, s1) \<Rightarrow>
          if now \<ge> deadline then (None, s1)
          else (case pr_probe pr target ttl limit s1 of
                  (Some reply, s2) \<Rightarrow> (Some reply, s2)
                | (None, s2) \<Rightarrow> attempt_loop pr target limit deadline ttl left s2))"

text \<open>The loop over the hops, with what \<open>on_hop\<close> was called with and the results.\<close>

fun hop_loop ::
  "'s prober \<Rightarrow> rstring \<Rightarrow> nat \<Rightarrow> nat \<Rightarrow> nat list \<Rightarrow> hop_result list \<Rightarrow> hop_result list \<Rightarrow> 's
    \<Rightarrow> hop_result list \<times> hop_result list \<times> 's" where
  "hop_loop pr target limit deadline [] called results s = (called, results, s)"
| "hop_loop pr target limit deadline (ttl # ttls) called results s =
     (case pr_now pr s of
        (now, s1) \<Rightarrow>
          if now \<ge> deadline then (called, results, s1)
          else
            (case attempt_loop pr target limit deadline ttl per_hop_retries s1 of
               (reply, s2) \<Rightarrow>
                 let hop = \<lparr>hop_number = ttl, hop_ip = map_option fst reply, hop_rtt = map_option snd reply\<rparr>
                 in if hop_ip hop = Some target then (called @ [hop], results @ [hop], s2)
                    else hop_loop pr target limit deadline ttls (called @ [hop]) (results @ [hop]) s2))"

definition run_traceroute_loop ::
  "rstring \<Rightarrow> nat \<Rightarrow> nat \<Rightarrow> 's prober \<Rightarrow> 's \<Rightarrow> hop_result list \<times> hop_result list \<times> 's" where
  "run_traceroute_loop target limit total_limit pr s =
     (case pr_now pr s of
        (now, s1) \<Rightarrow> hop_loop pr target limit (now + total_limit) [1..<Suc hop_ceiling] [] [] s1)"

datatype traceroute_error = ProbeSocketUnavailable rstring

text \<open>Whether the system gives the process a socket is an argument: the text of the error, or the process identifier.\<close>

definition run_traceroute_with_timeouts ::
  "'w icmp_socket \<Rightarrow> rstring + nat \<Rightarrow> rstring \<Rightarrow> nat \<Rightarrow> nat \<Rightarrow> 'w
    \<Rightarrow> traceroute_error + hop_result list \<times> hop_result list \<times> (probe_session \<times> 'w)" where
  "run_traceroute_with_timeouts sk opened target limit total_limit w =
     (case opened of
        Inl detail \<Rightarrow> Inl (ProbeSocketUnavailable detail)
      | Inr process_id \<Rightarrow>
          Inr (run_traceroute_loop target limit total_limit (socket_prober sk) (probe_session_open process_id, w)))"

definition run_traceroute ::
  "'w icmp_socket \<Rightarrow> rstring + nat \<Rightarrow> rstring \<Rightarrow> 'w
    \<Rightarrow> traceroute_error + hop_result list \<times> hop_result list \<times> (probe_session \<times> 'w)" where
  "run_traceroute sk opened target w =
     run_traceroute_with_timeouts sk opened target per_hop_timeout total_trace_timeout w"

section \<open>The checksum\<close>

lemma fold_carry_mod: "fold_carry s mod 65535 = s mod 65535"
proof (induction s rule: fold_carry.induct)
  case (1 s)
  show ?case
  proof (cases "s div 2 ^ 16 = 0")
    case False
    have "s = 65535 * (s div 2 ^ 16) + (s mod 2 ^ 16 + s div 2 ^ 16)" using div_mult_mod_eq [of s "2 ^ 16"] by simp
    then have "s mod 65535 = (s mod 2 ^ 16 + s div 2 ^ 16) mod 65535" by (metis mod_mult_self4)
    with 1 [OF False] False show ?thesis by (subst fold_carry.simps) simp
  qed (subst fold_carry.simps, simp)
qed

lemma fold_carry_le: "fold_carry s \<le> 65535"
proof (induction s rule: fold_carry.induct)
  case (1 s)
  show ?case
  proof (cases "s div 2 ^ 16 = 0")
    case True
    then have "s < 2 ^ 16" by (simp add: div_eq_0_iff)
    then show ?thesis using True by (subst fold_carry.simps) simp
  next
    case False
    with 1 [OF False] show ?thesis by (subst fold_carry.simps) simp
  qed
qed

lemma fold_carry_pos: "0 < s \<Longrightarrow> 0 < fold_carry s"
proof (induction s rule: fold_carry.induct)
  case (1 s)
  then show ?case by (subst fold_carry.simps) (cases "s div 2 ^ 16 = 0", simp_all)
qed

lemma echo_request_bytes:
  "build_echo_request identifier sequence =
     [8, 0] @ u16_bytes (icmp_checksum ([8, 0, 0, 0] @ u16_bytes identifier @ u16_bytes sequence)) @
     u16_bytes identifier @ u16_bytes sequence"
  by (simp add: build_echo_request_def Let_def)

lemma sum_words_u16: "n < 2 ^ 16 \<Longrightarrow> sum_words (u16_bytes n @ bs) = n + sum_words bs"
  using u16_be_bytes [of n] by (simp add: u16_bytes_def u16_be_def)

lemma echo_request_checksum:
  assumes "identifier < 2 ^ 16" "sequence < 2 ^ 16"
  shows "icmp_checksum (build_echo_request identifier sequence) = 0"
proof -
  let ?plain = "[8, 0, 0, 0] @ u16_bytes identifier @ u16_bytes sequence"
  let ?s = "2048 + identifier + sequence"
  have plain: "sum_words ?plain = ?s"
    using sum_words_u16 [OF assms(1)] sum_words_u16 [OF assms(2), of "[]"] by (simp add: u16_bytes_def)
  have c: "icmp_checksum ?plain = 65535 - fold_carry ?s"
    unfolding icmp_checksum_def plain using fold_carry_le [of ?s] by simp
  have whole: "sum_words (build_echo_request identifier sequence) = ?s + (65535 - fold_carry ?s)"
    unfolding echo_request_bytes c
    using sum_words_u16 [OF assms(1)] sum_words_u16 [OF assms(2), of "[]"] sum_words_u16 [of "65535 - fold_carry ?s"]
    by (simp add: u16_bytes_def)
  have "(?s + (65535 - fold_carry ?s)) mod 65535 = (fold_carry ?s + (65535 - fold_carry ?s)) mod 65535"
    by (rule mod_add_cong) (simp_all add: fold_carry_mod)
  also have "\<dots> = 0" using fold_carry_le [of ?s] by simp
  finally have "fold_carry (?s + (65535 - fold_carry ?s)) mod 65535 = 0" by (simp add: fold_carry_mod)
  moreover have "0 < fold_carry (?s + (65535 - fold_carry ?s))" by (rule fold_carry_pos) simp
  ultimately have "fold_carry (?s + (65535 - fold_carry ?s)) = 65535"
    using fold_carry_le [of "?s + (65535 - fold_carry ?s)"] by (auto simp: mod_eq_0_iff_dvd elim!: dvdE)
  then show ?thesis by (simp add: icmp_checksum_def whole)
qed

section \<open>Replies\<close>

definition ipv4_header_ok :: "byte list \<Rightarrow> bool" where
  "ipv4_header_ok h \<longleftrightarrow> 20 \<le> length h \<and> unat (hd h) div 16 = 4 \<and> ipv4_header_len (hd h) = length h"

lemma strip_outer:
  assumes "outer = [] \<or> ipv4_header_ok outer" "icmp \<noteq> []" "unat (hd icmp) div 16 \<noteq> 4"
  shows "strip_leading_ipv4_header (outer @ icmp) = Some icmp"
  using assms by (cases outer) (auto simp: strip_leading_ipv4_header_def ipv4_header_ok_def Let_def)

lemma embedded_request:
  assumes "ipv4_header_ok inner" "identifier < 2 ^ 16" "sequence < 2 ^ 16"
  shows "extract_embedded_identifier_sequence (inner @ build_echo_request identifier sequence @ data) = Some (identifier, sequence)"
proof -
  have "inner \<noteq> []" "20 \<le> ipv4_header_len (hd inner)" using assms(1) by (auto simp: ipv4_header_ok_def)
  moreover have "build_echo_request identifier sequence ! 4 = of_nat (identifier div 256)"
    "build_echo_request identifier sequence ! 5 = of_nat identifier"
    "build_echo_request identifier sequence ! 6 = of_nat (sequence div 256)"
    "build_echo_request identifier sequence ! 7 = of_nat sequence" "length (build_echo_request identifier sequence) = 8"
    by (simp_all add: echo_request_bytes u16_bytes_def)
  ultimately show ?thesis
    using assms
    by (simp add: extract_embedded_identifier_sequence_def ipv4_header_ok_def Let_def u16_be_bytes)
qed

text \<open>
  Every request the prober sends carries a valid checksum, and of the answers to it, with or without
  the IP header the system leaves in front, exactly the probe with its identifier and sequence number
  accepts both the echo reply and a time-exceeded message that quotes the request.
\<close>

lemma replies_reach_their_probe:
  assumes "identifier < 2 ^ 16" "sequence < 2 ^ 16" "outer = [] \<or> ipv4_header_ok outer" "ipv4_header_ok inner"
  shows "icmp_checksum (build_echo_request identifier sequence) = 0 \<and>
    (is_reply_to ident seq (outer @ [0, 0, c, d] @ drop 4 (build_echo_request identifier sequence) @ data)
       \<longleftrightarrow> (ident, seq) = (identifier, sequence)) \<and>
    (is_reply_to ident seq (outer @ [11, 0, c, d, u1, u2, u3, u4] @ inner @ build_echo_request identifier sequence @ data)
       \<longleftrightarrow> (ident, seq) = (identifier, sequence))"
proof (intro conjI)
  show "icmp_checksum (build_echo_request identifier sequence) = 0" using assms(1,2) by (rule echo_request_checksum)
  have echo: "drop 4 (build_echo_request identifier sequence) =
      [of_nat (identifier div 256), of_nat identifier, of_nat (sequence div 256), of_nat sequence]"
    by (simp add: echo_request_bytes u16_bytes_def)
  show "is_reply_to ident seq (outer @ [0, 0, c, d] @ drop 4 (build_echo_request identifier sequence) @ data)
      \<longleftrightarrow> (ident, seq) = (identifier, sequence)"
    unfolding echo
    using assms(1,2) strip_outer [OF assms(3), of "[0, 0, c, d] @ [of_nat (identifier div 256), of_nat identifier, of_nat (sequence div 256), of_nat sequence] @ data"]
    by (auto simp: is_reply_to_def parse_icmp_reply_def u16_be_bytes)
  show "is_reply_to ident seq (outer @ [11, 0, c, d, u1, u2, u3, u4] @ inner @ build_echo_request identifier sequence @ data)
       \<longleftrightarrow> (ident, seq) = (identifier, sequence)"
    using embedded_request [OF assms(4,1,2), of data]
      strip_outer [OF assms(3), of "[11, 0, c, d, u1, u2, u3, u4] @ inner @ build_echo_request identifier sequence @ data"]
    by (auto simp: is_reply_to_def parse_icmp_reply_def)
qed

text \<open>
  The wait returns the sender of the first datagram that answers the probe, and takes from the socket what
  came before it, the answer included.
\<close>

lemma await_reply_first:
  assumes "list_all (\<lambda>a. a \<noteq> ReceiveFailed \<and> \<not> is_reply_to identifier sequence (take receive_buffer (ar_bytes a))) before"
    and "is_reply_to identifier sequence (take receive_buffer bs)"
  shows "await_reply identifier sequence (before @ Datagram bs sender # later) = (Some sender, Suc (length before))"
  using assms(1)
proof (induction before)
  case (Cons a before)
  then show ?case by (cases a) simp_all
qed (simp add: assms(2))

lemma await_reply_only:
  assumes "await_reply identifier sequence arrivals = (Some sender, n)"
  shows "0 < n \<and> n \<le> length arrivals \<and> (\<exists>bs. arrivals ! (n - 1) = Datagram bs sender \<and> is_reply_to identifier sequence (take receive_buffer bs))"
  using assms
proof (induction arrivals arbitrary: n)
  case (Cons a arrivals)
  show ?case
  proof (cases "a \<noteq> ReceiveFailed \<and> \<not> is_reply_to identifier sequence (take receive_buffer (ar_bytes a))")
    case True
    obtain r m where rest: "await_reply identifier sequence arrivals = (r, m)" by force
    have "r = Some sender" "n = Suc m" using True Cons.prems rest by (cases a; simp)+
    with Cons.IH [of m] rest show ?thesis by (auto simp: nth_Cons split: nat.splits)
  next
    case False
    with Cons.prems show ?thesis by (cases a) auto
  qed
qed simp

section \<open>What the loop relies on\<close>

text \<open>
  The loop counts on little: reading the clock sends nothing, and a probe sends nothing or the next
  request, as long as the numbers have not run out. \<open>sent n s\<close> says that the requests with the numbers
  up to \<open>n\<close>, and no others, have been sent when the prober is in state \<open>s\<close>.
\<close>

locale numbered_prober =
  fixes pr :: "'s prober" and sent :: "nat \<Rightarrow> 's \<Rightarrow> bool"
  assumes now_sent: "sent n s \<Longrightarrow> sent n (snd (pr_now pr s))"
    and probe_sent: "sent n s \<Longrightarrow> n < 65534 \<Longrightarrow>
      sent n (snd (pr_probe pr target ttl limit s)) \<or> sent (Suc n) (snd (pr_probe pr target ttl limit s))"
begin

lemma attempts_sent:
  "sent n s \<Longrightarrow> n + left < 65535 \<Longrightarrow> \<exists>m\<le>n + left. sent m (snd (attempt_loop pr target limit deadline ttl left s))"
proof (induction left arbitrary: n s)
  case (Suc left)
  obtain now s1 where now: "pr_now pr s = (now, s1)" by force
  obtain reply s2 where probed: "pr_probe pr target ttl limit s1 = (reply, s2)" by force
  have "sent n s1" using now_sent [OF Suc.prems(1)] now by simp
  moreover from this obtain k where k: "sent k s2" "k \<le> Suc n"
    using probe_sent [of n s1 target ttl limit] probed Suc.prems(2) by force
  moreover from Suc.IH [OF k(1)] k(2) Suc.prems(2)
  obtain m where "m \<le> k + left" "sent m (snd (attempt_loop pr target limit deadline ttl left s2))" by auto
  ultimately have "\<exists>m\<le>n + Suc left. sent m s1" "\<exists>m\<le>n + Suc left. sent m s2"
    "\<exists>m\<le>n + Suc left. sent m (snd (attempt_loop pr target limit deadline ttl left s2))"
    by (auto intro: exI [of _ n] exI [of _ k] exI [of _ m])
  then show ?case using now probed by (cases reply) simp_all
qed auto

lemma hops_sent:
  "sent n s \<Longrightarrow> n + length ttls * per_hop_retries < 65535 \<Longrightarrow>
   \<exists>m\<le>n + length ttls * per_hop_retries. sent m (snd (snd (hop_loop pr target limit deadline ttls called results s)))"
proof (induction ttls arbitrary: n called results s)
  case (Cons ttl ttls)
  obtain now s1 where now: "pr_now pr s = (now, s1)" by force
  obtain reply s2 where tried: "attempt_loop pr target limit deadline ttl per_hop_retries s1 = (reply, s2)" by force
  have s1: "sent n s1" using now_sent [OF Cons.prems(1)] now by simp
  then obtain k where k: "sent k s2" "k \<le> n + per_hop_retries"
    using attempts_sent [of n s1 per_hop_retries target limit deadline ttl] tried Cons.prems(2) by auto
  have "\<exists>m\<le>n + length (ttl # ttls) * per_hop_retries.
      sent m (snd (snd (hop_loop pr target limit deadline ttls called' results' s2)))" for called' results'
  proof -
    obtain m where "m \<le> k + length ttls * per_hop_retries" "sent m (snd (snd (hop_loop pr target limit deadline ttls called' results' s2)))"
      using Cons.IH [OF k(1)] k(2) Cons.prems(2) by fastforce
    then show ?thesis using k(2) by (intro exI [of _ m]) simp
  qed
  moreover have "\<exists>m\<le>n + length (ttl # ttls) * per_hop_retries. sent m s2" using k by (intro exI [of _ k]) simp
  moreover have "\<exists>m\<le>n + length (ttl # ttls) * per_hop_retries. sent m s1" using s1 by (intro exI [of _ n]) simp
  ultimately show ?case using now tried by (simp add: Let_def)
qed auto

lemma trace_sent:
  assumes "sent 0 s"
  shows "\<exists>m\<le>90. sent m (snd (snd (run_traceroute_loop target limit total_limit pr s)))"
proof -
  obtain now s1 where now: "pr_now pr s = (now, s1)" by force
  then have "sent 0 s1" using now_sent [OF assms] by simp
  from hops_sent [OF this, of "[1..<Suc hop_ceiling]" target limit "now + total_limit" "[]" "[]"] now show ?thesis
    by (simp add: run_traceroute_loop_def hop_ceiling_def per_hop_retries_def del: upt_Suc)
qed

end

text \<open>A prober that is another one with more in its state behaves as the other one.\<close>

locale prober_view =
  fixes pr :: "'s prober" and pr' :: "'t prober" and view :: "'s \<Rightarrow> 't"
  assumes now_view: "map_prod id view (pr_now pr s) = pr_now pr' (view s)"
    and probe_view: "map_prod id view (pr_probe pr target ttl limit s) = pr_probe pr' target ttl limit (view s)"
begin

lemma attempts_view:
  "map_prod id view (attempt_loop pr target limit deadline ttl left s) = attempt_loop pr' target limit deadline ttl left (view s)"
proof (induction left arbitrary: s)
  case (Suc left)
  obtain now s1 where now: "pr_now pr s = (now, s1)" by force
  obtain reply s2 where probed: "pr_probe pr target ttl limit s1 = (reply, s2)" by force
  show ?case
    using Suc.IH [of s2] now_view [of s, symmetric] probe_view [of target ttl limit s1, symmetric] now probed by (cases reply) simp_all
qed simp

lemma hops_view:
  "map_prod id (map_prod id view) (hop_loop pr target limit deadline ttls called results s) =
   hop_loop pr' target limit deadline ttls called results (view s)"
proof (induction ttls arbitrary: called results s)
  case (Cons ttl ttls)
  obtain now s1 where now: "pr_now pr s = (now, s1)" by force
  obtain reply s2 where tried: "attempt_loop pr target limit deadline ttl per_hop_retries s1 = (reply, s2)" by force
  show ?case
    using Cons.IH [of _ _ s2] now_view [of s, symmetric] attempts_view [of target limit deadline ttl per_hop_retries s1, symmetric] now tried
    by (simp add: Let_def)
qed simp

lemma trace_view:
  "map_prod id (map_prod id view) (run_traceroute_loop target limit total_limit pr s) =
   run_traceroute_loop target limit total_limit pr' (view s)"
  using hops_view [of target limit _ _ "[]" "[]"] now_view [of s, symmetric]
  by (cases "pr_now pr s") (simp add: run_traceroute_loop_def del: upt_Suc)

end

section \<open>The socket, observed\<close>

text \<open>A socket that writes down, in order, each reading of the clock and each packet given to it to send.\<close>

datatype socket_event = ClockRead nat | PacketSent "byte list"

definition logged :: "'w icmp_socket \<Rightarrow> ('w \<times> socket_event list) icmp_socket" where
  "logged sk =
     \<lparr>sk_now = (\<lambda>(w, log). let (now, w') = sk_now sk w in (now, (w', log @ [ClockRead now]))),
      sk_set_ttl = (\<lambda>ttl (w, log). let (ok, w') = sk_set_ttl sk ttl w in (ok, (w', log))),
      sk_send_to = (\<lambda>packet dest (w, log). let (ok, w') = sk_send_to sk packet dest w in (ok, (w', log @ [PacketSent packet]))),
      sk_window = (\<lambda>limit (w, log). sk_window sk limit w),
      sk_receive = (\<lambda>limit taken (w, log). (sk_receive sk limit taken w, log))\<rparr>"

definition sent_packets :: "socket_event list \<Rightarrow> byte list list" where
  "sent_packets log = concat (map (\<lambda>e. case e of PacketSent packet \<Rightarrow> [packet] | ClockRead _ \<Rightarrow> []) log)"

lemma sent_packets_simps [simp]:
  "sent_packets [] = []" "sent_packets (ClockRead t # log) = sent_packets log"
  "sent_packets (PacketSent packet # log) = packet # sent_packets log"
  "sent_packets (log @ log') = sent_packets log @ sent_packets log'"
  by (simp_all add: sent_packets_def)

definition sent_up_to :: "nat \<Rightarrow> nat \<Rightarrow> probe_session \<times> 'w \<times> socket_event list \<Rightarrow> bool" where
  "sent_up_to identifier n = (\<lambda>(session, _, log). ps_identifier session = identifier \<and> ps_next_sequence session = Suc n \<and>
     sent_packets log = map (build_echo_request identifier) [1..<Suc n])"

interpretation session: numbered_prober "socket_prober (logged sk)" "sent_up_to identifier"
proof unfold_locales
  show "sent_up_to identifier n (snd (pr_now (socket_prober (logged sk)) s))" if "sent_up_to identifier n s" for n s
    using that by (auto simp: sent_up_to_def socket_prober_def logged_def split_def Let_def)
  show "sent_up_to identifier n (snd (pr_probe (socket_prober (logged sk)) target ttl limit s)) \<or>
      sent_up_to identifier (Suc n) (snd (pr_probe (socket_prober (logged sk)) target ttl limit s))"
    if "sent_up_to identifier n s" "n < 65534" for n s target ttl limit
    using that
    by (cases s)
       (auto simp: sent_up_to_def socket_prober_def logged_def send_probe_and_await_reply_def next_seq_def Let_def
         split: option.splits bool.splits prod.splits)
qed

interpretation plain: prober_view "socket_prober (logged sk)" "socket_prober sk" "\<lambda>(session, w, log). (session, w)"
proof unfold_locales
  show "map_prod id (\<lambda>(session, w, log). (session, w)) (pr_now (socket_prober (logged sk)) s) =
      pr_now (socket_prober sk) ((\<lambda>(session, w, log). (session, w)) s)" for s :: "probe_session \<times> 'a \<times> socket_event list"
    by (cases s) (simp add: socket_prober_def logged_def split_def Let_def)
  show "map_prod id (\<lambda>(session, w, log). (session, w)) (pr_probe (socket_prober (logged sk)) target ttl limit s) =
      pr_probe (socket_prober sk) target ttl limit ((\<lambda>(session, w, log). (session, w)) s)"
    for target ttl limit and s :: "probe_session \<times> 'a \<times> socket_event list"
    by (cases s)
       (auto simp: socket_prober_def logged_def send_probe_and_await_reply_def Let_def split: option.splits bool.splits prod.splits)
qed

lemma requests_distinct: "k < 2 ^ 16 \<Longrightarrow> distinct (map (build_echo_request identifier) [1..<Suc k])"
proof -
  assume k: "k < 2 ^ 16"
  have "inj_on (build_echo_request identifier) {1..<Suc k}"
  proof (rule inj_onI)
    fix x y assume xy: "x \<in> {1..<Suc k}" "y \<in> {1..<Suc k}" "build_echo_request identifier x = build_echo_request identifier y"
    have tail: "drop 6 (build_echo_request identifier q) = u16_bytes q" for q by (simp add: echo_request_bytes u16_bytes_def)
    have "u16_bytes x = u16_bytes y" using arg_cong [OF xy(3), of "drop 6"] by (simp only: tail)
    then have "u16_be (of_nat (x div 256)) (of_nat x) = u16_be (of_nat (y div 256)) (of_nat y)" by (simp only: u16_bytes_def list.inject)
    then show "x = y" using u16_be_bytes [of x] u16_be_bytes [of y] xy(1,2) k by simp
  qed
  then show ?thesis by (simp add: distinct_map del: upt_Suc)
qed

section \<open>The loop over the hops\<close>

lemma hop_loop_results:
  "\<exists>hops s'. hop_loop pr target limit deadline ttls called results s = (called @ hops, results @ hops, s') \<and>
     map hop_number hops = take (length hops) ttls \<and> length hops \<le> length ttls \<and>
     list_all (\<lambda>h. hop_ip h \<noteq> Some target) (butlast hops) \<and>
     (length hops = length ttls \<or> hops \<noteq> [] \<and> hop_ip (last hops) = Some target \<or> (\<exists>v. deadline \<le> fst (pr_now pr v) \<and> s' = snd (pr_now pr v)))"
proof (induction ttls arbitrary: called results s)
  case (Cons ttl ttls)
  obtain now s1 where now: "pr_now pr s = (now, s1)" by force
  obtain reply s2 where tried: "attempt_loop pr target limit deadline ttl per_hop_retries s1 = (reply, s2)" by force
  let ?hop = "\<lparr>hop_number = ttl, hop_ip = map_option fst reply, hop_rtt = map_option snd reply\<rparr>"
  consider (late) "deadline \<le> now" | (reached) "now < deadline" "hop_ip ?hop = Some target"
    | (onward) "now < deadline" "hop_ip ?hop \<noteq> Some target" by linarith
  then show ?case
  proof cases
    case late
    then have "\<exists>v. deadline \<le> fst (pr_now pr v) \<and> s1 = snd (pr_now pr v)" using now by (metis fst_conv snd_conv)
    with late now show ?thesis by (intro exI [of _ "[]"] exI [of _ s1]) simp
  next
    case reached
    with now tried show ?thesis by (intro exI [of _ "[?hop]"] exI [of _ s2]) (simp add: Let_def)
  next
    case onward
    obtain hops s' where rest: "hop_loop pr target limit deadline ttls (called @ [?hop]) (results @ [?hop]) s2 =
        ((called @ [?hop]) @ hops, (results @ [?hop]) @ hops, s')"
      and hops: "map hop_number hops = take (length hops) ttls" "length hops \<le> length ttls"
        "list_all (\<lambda>h. hop_ip h \<noteq> Some target) (butlast hops)"
        "length hops = length ttls \<or> hops \<noteq> [] \<and> hop_ip (last hops) = Some target \<or> (\<exists>v. deadline \<le> fst (pr_now pr v) \<and> s' = snd (pr_now pr v))"
      using Cons.IH [of "called @ [?hop]" "results @ [?hop]" s2] by blast
    have "hop_loop pr target limit deadline (ttl # ttls) called results s = (called @ ?hop # hops, results @ ?hop # hops, s')"
      using onward now tried rest by (simp add: Let_def)
    then show ?thesis using hops onward(2) by (intro exI [of _ "?hop # hops"] exI [of _ s']) auto
  qed
qed simp

text \<open>
  C22: Whatever the network does, a trace ends with at most thirty hops, numbered from 1 without a gap; it
  told the caller of each of them once and in order; only the last one can be the target. The packets given
  to the socket, in order, are the echo requests with the numbers 1, 2, and so on, at most ninety and all
  different. A trace that has fewer than thirty hops ended with the target's answer, or its last act was to
  read from the clock a time that is not before its start plus the total limit. All this is read off a log
  of the socket; the trace on the socket without the log is the same.
\<close>

theorem traceroute_bounded:
  "\<exists>hops session' w' log k.
     run_traceroute_with_timeouts sk (Inr process_id) target limit total_limit w = Inr (hops, hops, (session', w')) \<and>
     run_traceroute_with_timeouts (logged sk) (Inr process_id) target limit total_limit (w, []) = Inr (hops, hops, (session', w', log)) \<and>
     length hops \<le> 30 \<and> map hop_number hops = [1..<Suc (length hops)] \<and>
     list_all (\<lambda>h. hop_ip h \<noteq> Some target) (butlast hops) \<and>
     (length hops = 30 \<or> hops \<noteq> [] \<and> hop_ip (last hops) = Some target \<or>
       (\<exists>earlier t. log = earlier @ [ClockRead t] \<and> fst (sk_now sk w) + total_limit \<le> t)) \<and>
     sent_packets log = map (build_echo_request (process_id mod 2 ^ 16)) [1..<Suc k] \<and> k \<le> 90 \<and> distinct (sent_packets log)"
proof -
  let ?pr = "socket_prober (logged sk)" and ?s = "(probe_session_open process_id, w, [])"
  let ?id = "process_id mod 2 ^ 16"
  obtain now s1 where now: "pr_now ?pr ?s = (now, s1)" by (cases "pr_now ?pr ?s")
  have loop: "run_traceroute_loop target limit total_limit ?pr ?s =
      hop_loop ?pr target limit (now + total_limit) [1..<Suc hop_ceiling] [] [] s1"
    by (simp add: run_traceroute_loop_def now del: upt_Suc)
  obtain hops s' where hops: "hop_loop ?pr target limit (now + total_limit) [1..<Suc hop_ceiling] [] [] s1 = (hops, hops, s')"
    "map hop_number hops = take (length hops) [1..<Suc hop_ceiling]" "length hops \<le> length [1..<Suc hop_ceiling]"
    "list_all (\<lambda>h. hop_ip h \<noteq> Some target) (butlast hops)"
    "length hops = length [1..<Suc hop_ceiling] \<or> hops \<noteq> [] \<and> hop_ip (last hops) = Some target \<or>
       (\<exists>v. now + total_limit \<le> fst (pr_now ?pr v) \<and> s' = snd (pr_now ?pr v))"
    using hop_loop_results [of ?pr target limit "now + total_limit" "[1..<Suc hop_ceiling]" "[]" "[]" s1] unfolding append_Nil by blast
  obtain session' w' log where s': "s' = (session', w', log)" by (cases s')
  have start: "now = fst (sk_now sk w)" using now by (auto simp: socket_prober_def logged_def split_def Let_def)
  have "sent_up_to ?id 0 ?s" by (simp add: sent_up_to_def probe_session_open_def)
  from session.trace_sent [OF this, of target limit total_limit sk] obtain k where k: "k \<le> 90" "sent_up_to ?id k s'"
    unfolding loop hops(1) by auto
  have short: "\<exists>earlier t. log = earlier @ [ClockRead t] \<and> now + total_limit \<le> t"
    if "now + total_limit \<le> fst (pr_now ?pr v)" "s' = snd (pr_now ?pr v)" for v
    using that s' by (cases v) (auto simp: socket_prober_def logged_def split_def Let_def)
  have "run_traceroute_loop target limit total_limit (socket_prober sk) (probe_session_open process_id, w) = (hops, hops, (session', w'))"
    using plain.trace_view [of target limit total_limit sk ?s] unfolding loop hops(1) s' by simp
  then show ?thesis
    using loop hops k short requests_distinct [of k ?id] s' start
    by (intro exI [of _ hops] exI [of _ session'] exI [of _ w'] exI [of _ log] exI [of _ k])
       (auto simp: run_traceroute_with_timeouts_def sent_up_to_def hop_ceiling_def take_upt simp del: upt_Suc)
qed

end
