(* ===== verification/Spec2Isabelle.thy ===== *)
theory Spec2Isabelle
  imports Prelude Eviction Coverage RustStr RateLimit Redact ReplayClock RingBuffer FragmentCorrect L7Sniff TcpCorrect DnsFraming StreamReassembler FlowHierarchy TransactionMatching CaptureRun TlsStream TlsShown PacketFields CaptureConfig ControlAuth ProcessLookup Traceroute
begin

text \<open>
  \<^bold>\<open>The program.\<close> \<open>capture-agent\<close> is the Rust process of the network monitor that captures packets,
  rebuilds the streams inside them, names what they carry and sends events to a web interface. Every
  captured frame takes the same way through it (\<open>main.rs\<close>): it is classified and parsed (\<open>parse.rs\<close>);
  IPv4 fragments and TCP segments are put together and handed to the application-layer detectors
  (\<open>reassembly.rs\<close>, \<open>l7.rs\<close>, \<open>ja3.rs\<close>); the flow table accounts for it (\<open>flow.rs\<close>); DNS answers give
  addresses their names (\<open>dns_names.rs\<close>); requests are matched with their responses (\<open>transaction.rs\<close>);
  a rate limiter (\<open>rate_limit.rs\<close>) decides whether a packet event with its field list (\<open>fields.rs\<close>) is
  sent; and, while a capture to file runs, the frame is queued for the writer thread (\<open>ring.rs\<close>,
  \<open>pcapng.rs\<close>). For processes whose user has agreed to it, the key log watcher (\<open>keylog.rs\<close>) supplies TLS
  secrets and the decryption pipeline of \<open>main.rs\<close> turns TCP segments into TLS records
  (\<open>tls_stream.rs\<close>), opens them (\<open>tls_decrypt.rs\<close>, \<open>tls_handshake.rs\<close>), reads the HTTP/2 frames inside
  (\<open>http2.rs\<close>), redacts them (\<open>redact.rs\<close>) and keeps them in a bounded buffer (\<open>ring_buffer.rs\<close>).
  Clients that know the token of the launch (\<open>control_auth.rs\<close>) control the agent over a local socket: they
  change filter, snap length and interface, start captures to file and ask for a traceroute
  (\<open>traceroute.rs\<close>). The owners of local ports come from \<open>lsof\<close> (\<open>process_lookup.rs\<close>).

  All source paths are relative to \<open>capture-agent/src\<close>.

  \<^bold>\<open>How the model reads.\<close> A struct is a \<open>record\<close>, an enum a \<open>datatype\<close>, a method on \<open>&mut self\<close> a function
  that returns the new state beside its result, an early return or an error a branch that gives
  \<open>None\<close>, \<open>Inl\<close> or a constructor of the source's own error enum. A hash map is an association list with
  distinct keys, so that every iteration is over a concrete order; where the source's order is open and
  matters, the text beside the definition says what is fixed. Bytes are 8-bit words and a \<open>String\<close> is its
  UTF-8 byte list. TCP sequence numbers are 32-bit words, since their wrap-around is the point; other
  counters are naturals, with saturation, checks and \<open>mod\<close> written out where the source has them.
  Clocks are monotonic naturals passed in as arguments.

  \<^bold>\<open>Theories.\<close>
  \<^item> \<open>Prelude\<close>: types, saturating arithmetic, slices, big-endian integers and the list, map and word
    lemmas used everywhere. \<open>RustStr\<close> and \<open>IpText\<close>: what the sources use of the standard library's
    strings, number parsing and address display.
  \<^item> \<open>Eviction\<close>: the loop that removes the oldest entries of a store until it is under its ceilings. The
    locale \<open>capacity_store\<close> states what a store promises about removing one entry and proves once that the
    loop ends under both ceilings and removes a prefix of the age order. It is interpreted on the fragment
    reassembler (\<open>FragmentReassembly\<close>), the TCP reassembler (\<open>TcpReassembly\<close>) and the flow table
    (\<open>FlowCorrect\<close>).
  \<^item> \<open>Coverage\<close>: the first-seen-wins write into a data vector with a parallel presence vector, shared by
    both reassemblers; \<open>ReplayClock\<close>: the clock of a replayed capture.
  \<^item> \<open>Packet\<close>: \<open>parse.rs\<close> over the slices of etherparse, which is a parameter.
  \<^item> \<open>FragmentReassembly\<close>, \<open>FragmentCorrect\<close>: IPv4 fragment groups. Fragments in any order, with any
    duplicates and overlaps, give the datagram back; bytes once held never change; memory stays bounded.
  \<^item> \<open>TcpReassembly\<close>, \<open>TcpCorrect\<close>: the same for TCP directions, also across the wrap of the sequence
    number.
  \<^item> \<open>L7Types\<close>, \<open>L7Http\<close>, \<open>L7Dns\<close>, \<open>L7Tls\<close>, \<open>L7Sniff\<close>: the detectors and the sniffers that compose
    them; MD5 is a parameter of the JA3 fingerprint.
  \<^item> \<open>DnsFraming\<close>: message boundaries of DNS over TCP as sequence state. \<open>StreamReassembler\<close>: the facade
    the capture loop calls; a request split over segments is decoded as if it came whole, the decision
    depends on first-seen bytes only, the call always returns and memory is bounded.
  \<^item> \<open>FlowKey\<close>, \<open>FlowTable\<close>, \<open>FlowCorrect\<close>, \<open>FlowHierarchy\<close>: flow identity, the flow table, its
    refinement of a plain log of the traffic and the protocol hierarchy that adds up.
  \<^item> \<open>DnsNames\<close>: the names observed for addresses; a name is only shown when an answer justifies it, and
    the CNAME closure computed is the reachable set.
  \<^item> \<open>Transaction\<close>, \<open>TransactionCorrect\<close>, \<open>TransactionMatching\<close>: the tracker; what it holds is bounded,
    each request it waited on is pending, dropped by a reset or closed by one report of its own, and who is
    matched with whom.
  \<^item> \<open>RateLimit\<close>, \<open>Redact\<close>, \<open>RingBuffer\<close>, \<open>PacketFields\<close>: the components behind the packet events and
    the decrypted content.
  \<^item> \<open>Pcapng\<close>, \<open>PcapngCorrect\<close>: writer and reader of capture files, their round trip, and the reader's
    bounds on any input. \<open>CaptureFile\<close>, \<open>CaptureRun\<close>: rotation, autostop, the disk guard and the writer
    thread; a run of the capture refines the list of its packets. The locale \<open>member_names\<close> states what a
    naming scheme of ring members owes the run (different members have different names, none of them a
    partial name) and is interpreted on \<open>member_path\<close> and \<open>partial_path\<close>.
  \<^item> \<open>KeyLog\<close>: the watcher; a poll reads every complete line, no process keeps another from being read, the
    secrets held are bounded.
  \<^item> \<open>TlsStream\<close>, \<open>TlsHandshake\<close>, \<open>TlsDecrypt\<close>, \<open>Http2\<close>: ordering and framing, handshake messages, one
    record, and frames, each independent of how the bytes were cut into pieces.
  \<^item> \<open>TlsPipeline\<close>: the decryption state of the capture loop, one packet, the sweep and the control
    messages. \<open>TlsFailClosed\<close>: the invariants of every reachable state (a direction that was given up
    has no secrets, nothing is decrypted without consent). \<open>TlsRoom\<close>: when the search for a direction to evict
    ends. \<open>TlsShown\<close>: from sealed records to the ring and the events.
  \<^item> \<open>CaptureConfig\<close>: requests to change a live capture; the state of the session always agrees with the
    open handle and a request is granted as a whole or refused without a trace.
  \<^item> \<open>ControlAuth\<close>: the first line of a control peer, the admission budgets as a step relation over the
    peers' tasks, and the token file under failing system calls.
  \<^item> \<open>Traceroute\<close>: echo requests and replies, and the bounded loop over the hops. The trait \<open>Prober\<close> is a
    record of operations; the locale \<open>numbered_prober\<close> states what the loop needs of it and \<open>prober_view\<close>
    when one prober behaves as another; both are interpreted on the session behind a socket that logs what it
    is asked. \<open>ProcessLookup\<close>: the table of \<open>lsof\<close>.

  \<^bold>\<open>Parameters.\<close> Code outside the repository is an argument of the definitions that use it: etherparse's
  slices and IPv4 header codec, MD5, HKDF expansion and AES-128-GCM, HMAC, hexadecimal coding, the HPACK
  decoder, the memory-locking probe, the free space on disk, the success of opening a file, and what
  libpcap, the ICMP socket and the directory of the token answer.
  What a theorem needs of one of them (a sealed record opens to its content, a header that is written is
  read back) is a hypothesis of that theorem, and its witness instantiates the parameter.

  \<^bold>\<open>Bounds and termination.\<close> The constants are those of the source. Loops with a measure are functions
  with a termination proof. Four loops have no measure in the source and are \<open>partial_function (option)\<close>,
  where \<open>None\<close> is a loop that does not return: the recursion of \<open>sniff_inner\<close> (\<open>sniff_returns\<close> proves
  that it returns, from how etherparse sets, writes and reads the fragment fields of a header), the record framer (\<open>tls_direction_bounded\<close>), and the two
  eviction loops of the decryption pipeline, of which \<open>room_is_made\<close> gives the states where they return
  and \<open>room_search_hangs_on_revived_direction\<close> a reachable one where they do not. No fuel is used.

  \<^bold>\<open>What the model showed.\<close> Both directions of a loopback connection get different flow keys
  (\<open>loopback_directions_split\<close>); the response to an untracked HTTP request can be attributed to a later
  one (\<open>untracked_http_response_misattributed\<close>); a capture replaces an existing file of its name
  (\<open>existing_capture_replaced\<close>) and a second start, under another
  name, drops the active run (\<open>second_start_drops_active_run\<close>); the search for a direction to evict can hang
  (\<open>room_search_hangs_on_revived_direction\<close>); and the client side of every HTTP/2 connection is given up
  at the connection preface (\<open>client_stream_never_shown\<close>). Reading the sources for the model also showed
  that an interface switch, unlike an eviction, leaves the decryption state of the flows it closes,
  that a direction closed by \<open>close_notify\<close> can adopt a secret again, and that two traces running at the
  same time send the same requests.

  \<^bold>\<open>Not modelled.\<close> The threads and tasks of \<open>main.rs\<close> themselves (pcap devices, sockets, channels and
  their scheduling), the reading of environment variables and the checks of file paths, which depend on
  the file system; the JSON encoding and decoding of \<open>wire.rs\<close>; how the path of the token file is found; the
  wrappers of system calls in \<open>host_stats.rs\<close> and \<open>core_limits.rs\<close>; locking and zeroing of memory, which a
  value model does not see; the vendored HPACK decoder; and the TypeScript, JavaScript and Swift code that
  consumes the agent's messages.
\<close>

end
